(* ===== verification/Crucible_Prelude.thy ===== *)
theory Crucible_Prelude
  imports "HOL-Library.Word"
begin

text \<open>
  The prelude of the development: the machine types of the C++ sources, the way a failed
  contract is represented, and the lemmas on machine integers, lists and maps that more than one
  component uses.

  An \<^verbatim>\<open>int64_t\<close> is an \<^typ>\<open>int\<close> whose operations are bounded or wrapped explicitly; an
  unsigned integer is a \<^verbatim>\<open>word\<close> of its width wherever the code relies on (or must avoid)
  wrap-around, and a \<^typ>\<open>nat\<close> where it is an index that a structural bound keeps in range.
  A \<^verbatim>\<open>CRUCIBLE_PRE\<close>, a \<^verbatim>\<open>contract_assert\<close> or a \<^verbatim>\<open>CRUCIBLE_FATAL_INVARIANT\<close> that fails stops
  the process, so an operation that can fail in this way returns \<^verbatim>\<open>Inl\<close> of a \<^verbatim>\<open>fault\<close>.
\<close>

unbundle bit_operations_syntax

type_synonym u8 = "8 word"
type_synonym u16 = "16 word"
type_synonym u32 = "32 word"
type_synonym u64 = "64 word"

datatype fault = Contract_violation | Fatal_invariant | Aborted

type_synonym 'a checked = "fault + 'a"

abbreviation fail :: "fault \<Rightarrow> 'a checked" where
  "fail \<equiv> Inl"

abbreviation ok :: "'a \<Rightarrow> 'a checked" where
  "ok \<equiv> Inr"

definition and_then :: "'a checked \<Rightarrow> ('a \<Rightarrow> 'b checked) \<Rightarrow> 'b checked" where
  "and_then c f = (case c of Inl e \<Rightarrow> fail e | Inr x \<Rightarrow> f x)"

lemma and_then_simps [simp]: "and_then (fail e) f = fail e" "and_then (ok x) f = f x"
  by (simp_all add: and_then_def)

lemma and_then_ok: "and_then c f = ok y \<longleftrightarrow> (\<exists>x. c = ok x \<and> f x = ok y)"
  by (cases c) simp_all

text \<open>A loop that may not return has the result type of a fallible step under \<^verbatim>\<open>option\<close>: a fault of a step ends
  it, and so does a fault of an earlier loop.\<close>

definition run_step :: "'a checked \<Rightarrow> ('a \<Rightarrow> 'b checked option) \<Rightarrow> 'b checked option" where
  "run_step c k = (case c of Inl e \<Rightarrow> Some (fail e) | Inr x \<Rightarrow> k x)"

lemma run_step_simps [simp]: "run_step (ok x) k = k x" "run_step (fail e) k = Some (fail e)"
  by (simp_all add: run_step_def)

lemma run_step_mono [partial_function_mono]:
  "(\<And>y. monotone option.le_fun option_ord (\<lambda>f. k f y)) \<Longrightarrow> monotone option.le_fun option_ord (\<lambda>f. run_step c (k f))"
  by (cases c) (auto simp: run_step_def monotone_def flat_ord_def)

definition and_run :: "'a checked option \<Rightarrow> ('a \<Rightarrow> 'b checked option) \<Rightarrow> 'b checked option" where
  "and_run r k = Option.bind r (\<lambda>c. run_step c k)"

lemma and_run_simps [simp]: "and_run None k = None" "and_run (Some c) k = run_step c k"
  by (simp_all add: and_run_def)

named_theorems model_defs "definitions of operations that a component proof unfolds"
named_theorems inv_intros "preservation of the components' invariants"
named_theorems word_arith "exact arithmetic on words that do not wrap"


section \<open>Signed 64-bit integers\<close>

definition i64_min :: int where
  "i64_min = - (2 ^ 63)"

definition i64_max :: int where
  "i64_max = 2 ^ 63 - 1"

definition fits_i64 :: "int \<Rightarrow> bool" where
  "fits_i64 x \<longleftrightarrow> i64_min \<le> x \<and> x \<le> i64_max"

definition wrap_i64 :: "int \<Rightarrow> int" where
  "wrap_i64 x = (x + 2 ^ 63) mod 2 ^ 64 - 2 ^ 63"

lemma wrap_i64_id: "fits_i64 x \<Longrightarrow> wrap_i64 x = x"
  by (simp add: fits_i64_def wrap_i64_def i64_min_def i64_max_def)

lemma fits_wrap_i64 [simp]: "fits_i64 (wrap_i64 x)"
proof -
  have "0 \<le> (x + 2 ^ 63) mod 2 ^ 64" "(x + 2 ^ 63) mod 2 ^ 64 < 2 ^ 64"
    by simp_all
  then show ?thesis
    by (auto simp: fits_i64_def wrap_i64_def i64_min_def i64_max_def)
qed

lemma fits_i64_0 [simp]: "fits_i64 0"
  by (simp add: fits_i64_def i64_min_def i64_max_def)

lemma fits_i64_pred: "fits_i64 s \<Longrightarrow> 1 \<le> s \<Longrightarrow> fits_i64 (s - 1)"
  by (simp add: fits_i64_def i64_min_def)


section \<open>Unsigned words\<close>

lemma unat_add_exact [word_arith]:
  "unat a + unat b < 2 ^ LENGTH('a) \<Longrightarrow> unat (a + b) = unat a + unat b" for a b :: "'a::len word"
  by (simp add: unat_add_lem [symmetric])

lemma unat_sub_exact [word_arith]:
  "unat b \<le> unat a \<Longrightarrow> unat (a - b) = unat a - unat b" for a b :: "'a::len word"
  by (simp add: unat_sub word_le_nat_alt)

lemma unat_mult_exact [word_arith]:
  "unat a * unat b < 2 ^ LENGTH('a) \<Longrightarrow> unat (a * b) = unat a * unat b" for a b :: "'a::len word"
  by (simp add: unat_mult_lem [symmetric])

lemma unat_of_nat_exact [word_arith]:
  "n < 2 ^ LENGTH('a) \<Longrightarrow> unat (word_of_nat n :: 'a::len word) = n"
  by (simp add: unat_of_nat take_bit_nat_eq_self)

lemma unat_of_int_exact:
  assumes "0 \<le> x" "x < 2 ^ LENGTH('a)"
  shows "unat (word_of_int x :: 'a::len word) = nat x"
  using assms by (simp add: unsigned_of_int take_bit_int_eq_self)

lemma unat_max_word: "unat (- 1 :: 'a::len word) = 2 ^ LENGTH('a) - 1"
  by (simp add: unsigned_minus_1_eq_mask mask_eq_exp_minus_1)

lemma le_pow_pred [simp]: "n \<le> 2 ^ k - Suc 0 \<longleftrightarrow> n < 2 ^ k" for n k :: nat
proof -
  have "0 < (2 :: nat) ^ k"
    by simp
  then show ?thesis
    by linarith
qed

lemma pow_pred_eqD: "2 ^ k - Suc 0 = n \<Longrightarrow> n < 2 ^ k" for n k :: nat
  by (simp flip: le_pow_pred)

lemma unat_lt_pow [simp]: "unat (a :: 'a::len word) < 2 ^ LENGTH('a)"
  by (rule unsigned_less)

lemma unat_succ: "c \<noteq> - 1 \<Longrightarrow> unat (c + 1) = Suc (unat c)" for c :: "'a::len word"
proof -
  assume c: "c \<noteq> - 1"
  then have "unat c \<noteq> 2 ^ LENGTH('a) - 1"
    by (metis unat_max_word unsigned_word_eqI)
  then have "unat c + 1 < 2 ^ LENGTH('a)"
    using unat_lt_pow [of c] by linarith
  then show ?thesis
    by (simp add: unat_add_exact)
qed

lemma word_less_succ: "c \<noteq> - 1 \<Longrightarrow> c < c + 1" for c :: "'a::len word"
  by (simp add: word_less_nat_alt unat_succ)

text \<open>The \<^verbatim>\<open>bump\<close> of a monotone counter (\<^verbatim>\<open>fixy/Mutation.h\<close>) refuses to wrap.\<close>

definition bump :: "'a::len word \<Rightarrow> 'a word checked" where
  "bump n = (if n = - 1 then fail Contract_violation else ok (n + 1))"

text \<open>Rounding down to a power of two, as the sources write it.\<close>

lemma unat_and_not_mask:
  "unat (w AND NOT (mask k)) = unat w div 2 ^ k * 2 ^ k" for w :: "'a::len word"
proof -
  have *: "w AND NOT (mask k) = push_bit k (drop_bit k w)"
    by (auto simp: bit_eq_iff bit_simps)
  have "unat (push_bit k (drop_bit k w)) = take_bit LENGTH('a) (push_bit k (drop_bit k (unat w)))"
    by (simp add: unsigned_push_bit_eq unsigned_drop_bit_eq take_bit_nat_eq_self)
  also have "\<dots> = take_bit LENGTH('a) (unat w div 2 ^ k * 2 ^ k)"
    by (simp add: push_bit_eq_mult drop_bit_eq_div)
  also have "\<dots> = unat w div 2 ^ k * 2 ^ k"
    by (rule take_bit_nat_eq_self) (meson div_times_less_eq_dividend le_less_trans unsigned_less)
  finally show ?thesis
    by (simp add: *)
qed

lemma round_up_ge: "0 < m \<Longrightarrow> n \<le> (n + (m - 1)) div m * m" for n m :: nat
  using div_mult_mod_eq [of "n + (m - 1)" m] mod_less_divisor [of m "n + (m - 1)"] by linarith


section \<open>Bounded loops\<close>

text \<open>The rule for a counted loop: an invariant indexed by the number of iterations done.\<close>

lemma fold_upt_invariant:
  assumes "P 0 s" and "\<And>i s. i < n \<Longrightarrow> P i s \<Longrightarrow> P (Suc i) (f i s)"
  shows "P n (fold f [0..<n] s)"
proof -
  have "k \<le> n \<Longrightarrow> P k (fold f [0..<k] s)" for k
    by (induction k) (auto simp: assms)
  then show ?thesis
    by simp
qed

end
