(* ===== verification/Tensor_Meta.thy ===== *)
theory Tensor_Meta
  imports Crucible_Prelude
begin

text \<open>
  The data types every part of the runtime shares: the scalar, device and layout enumerations of
  \<^verbatim>\<open>crucible/Types.h\<close>, the strong identifiers and hashes with their reserved values, and the
  tensor descriptor of \<^verbatim>\<open>crucible/TensorMeta.h\<close> with the predicates that admit a raw byte read
  from a file.
\<close>

section \<open>Enumerations and their ordinals\<close>

datatype scalar_type =
  ST_Byte | ST_Char | ST_Short | ST_Int | ST_Long | ST_Half | ST_Float | ST_Double
  | ST_ComplexHalf | ST_ComplexFloat | ST_ComplexDouble | ST_Bool | ST_BFloat16
  | ST_Float8_e5m2 | ST_Float8_e4m3fn | ST_Float8_e5m2fnuz | ST_Float8_e4m3fnuz | ST_Undefined

fun scalar_ord :: "scalar_type \<Rightarrow> int" where
  "scalar_ord ST_Byte = 0"
| "scalar_ord ST_Char = 1"
| "scalar_ord ST_Short = 2"
| "scalar_ord ST_Int = 3"
| "scalar_ord ST_Long = 4"
| "scalar_ord ST_Half = 5"
| "scalar_ord ST_Float = 6"
| "scalar_ord ST_Double = 7"
| "scalar_ord ST_ComplexHalf = 8"
| "scalar_ord ST_ComplexFloat = 9"
| "scalar_ord ST_ComplexDouble = 10"
| "scalar_ord ST_Bool = 11"
| "scalar_ord ST_BFloat16 = 15"
| "scalar_ord ST_Float8_e5m2 = 23"
| "scalar_ord ST_Float8_e4m3fn = 24"
| "scalar_ord ST_Float8_e5m2fnuz = 25"
| "scalar_ord ST_Float8_e4m3fnuz = 26"
| "scalar_ord ST_Undefined = - 1"

definition scalar_types :: "scalar_type list" where
  "scalar_types =
    [ST_Byte, ST_Char, ST_Short, ST_Int, ST_Long, ST_Half, ST_Float, ST_Double,
     ST_ComplexHalf, ST_ComplexFloat, ST_ComplexDouble, ST_Bool, ST_BFloat16,
     ST_Float8_e5m2, ST_Float8_e4m3fn, ST_Float8_e5m2fnuz, ST_Float8_e4m3fnuz, ST_Undefined]"

fun element_size :: "scalar_type \<Rightarrow> nat" where
  "element_size ST_Bool = 1"
| "element_size ST_Byte = 1"
| "element_size ST_Char = 1"
| "element_size ST_Float8_e5m2 = 1"
| "element_size ST_Float8_e4m3fn = 1"
| "element_size ST_Float8_e5m2fnuz = 1"
| "element_size ST_Float8_e4m3fnuz = 1"
| "element_size ST_Short = 2"
| "element_size ST_Half = 2"
| "element_size ST_BFloat16 = 2"
| "element_size ST_Int = 4"
| "element_size ST_Float = 4"
| "element_size ST_ComplexHalf = 4"
| "element_size ST_Long = 8"
| "element_size ST_Double = 8"
| "element_size ST_ComplexFloat = 8"
| "element_size ST_ComplexDouble = 16"
| "element_size ST_Undefined = 0"

datatype device_type =
  DT_CPU | DT_CUDA | DT_MKLDNN | DT_HIP | DT_XLA | DT_MPS | DT_Meta | DT_PrivateUse1

fun device_ord :: "device_type \<Rightarrow> int" where
  "device_ord DT_CPU = 0"
| "device_ord DT_CUDA = 1"
| "device_ord DT_MKLDNN = 2"
| "device_ord DT_HIP = 6"
| "device_ord DT_XLA = 9"
| "device_ord DT_MPS = 13"
| "device_ord DT_Meta = 14"
| "device_ord DT_PrivateUse1 = 20"

definition device_types :: "device_type list" where
  "device_types =
    [DT_CPU, DT_CUDA, DT_MKLDNN, DT_HIP, DT_XLA, DT_MPS, DT_Meta, DT_PrivateUse1]"

datatype layout =
  LY_Strided | LY_Sparse | LY_SparseCsr | LY_SparseCsc | LY_SparseBsr | LY_SparseBsc

fun layout_ord :: "layout \<Rightarrow> int" where
  "layout_ord LY_Strided = 0"
| "layout_ord LY_Sparse = 1"
| "layout_ord LY_SparseCsr = 2"
| "layout_ord LY_SparseCsc = 3"
| "layout_ord LY_SparseBsr = 4"
| "layout_ord LY_SparseBsc = 5"

definition layouts :: "layout list" where
  "layouts = [LY_Strided, LY_Sparse, LY_SparseCsr, LY_SparseCsc, LY_SparseBsr, LY_SparseBsc]"

datatype training_phase = PH_FORWARD | PH_BACKWARD | PH_OPTIMIZER | PH_OTHER

fun phase_ord :: "training_phase \<Rightarrow> nat" where
  "phase_ord PH_FORWARD = 0"
| "phase_ord PH_BACKWARD = 1"
| "phase_ord PH_OPTIMIZER = 2"
| "phase_ord PH_OTHER = 3"


section \<open>Admission of a raw byte\<close>

text \<open>A \<^verbatim>\<open>static_cast\<close> of a raw integer to \<^verbatim>\<open>int8_t\<close> keeps its low eight bits.\<close>

definition wrap_i8 :: "int \<Rightarrow> int" where
  "wrap_i8 x = (x + 128) mod 256 - 128"

definition is_valid_scalar_type :: "int \<Rightarrow> bool" where
  "is_valid_scalar_type raw \<longleftrightarrow> wrap_i8 raw \<in> set (map scalar_ord scalar_types)"

definition is_valid_device_type :: "int \<Rightarrow> bool" where
  "is_valid_device_type raw \<longleftrightarrow> wrap_i8 raw \<in> set (map device_ord device_types)"

definition is_valid_layout :: "int \<Rightarrow> bool" where
  "is_valid_layout raw \<longleftrightarrow> wrap_i8 raw \<in> set (map layout_ord layouts)"

definition make_scalar_type :: "int \<Rightarrow> scalar_type checked" where
  "make_scalar_type raw =
     (case find (\<lambda>t. scalar_ord t = wrap_i8 raw) scalar_types of
        Some t \<Rightarrow> ok t | None \<Rightarrow> fail Contract_violation)"

definition make_device_type :: "int \<Rightarrow> device_type checked" where
  "make_device_type raw =
     (case find (\<lambda>t. device_ord t = wrap_i8 raw) device_types of
        Some t \<Rightarrow> ok t | None \<Rightarrow> fail Contract_violation)"

definition make_layout :: "int \<Rightarrow> layout checked" where
  "make_layout raw =
     (case find (\<lambda>t. layout_ord t = wrap_i8 raw) layouts of
        Some t \<Rightarrow> ok t | None \<Rightarrow> fail Contract_violation)"


section \<open>Strong identifiers and hashes\<close>

text \<open>An identifier reserves its largest word for ``none''; a hash reserves zero for ``unset'' and
  the largest word for the end of a region.\<close>

definition id_none :: "'a::len word" where
  "id_none = - 1"

definition id_is_valid :: "'a::len word \<Rightarrow> bool" where
  "id_is_valid v \<longleftrightarrow> v \<noteq> id_none"

definition hash_is_set :: "u64 \<Rightarrow> bool" where
  "hash_is_set v \<longleftrightarrow> v \<noteq> 0"

definition hash_sentinel :: u64 where
  "hash_sentinel = - 1"

definition hash_is_sentinel :: "u64 \<Rightarrow> bool" where
  "hash_is_sentinel v \<longleftrightarrow> v = hash_sentinel"

record kernel_cache_key =
  kk_content_hash :: u64
  kk_row_hash :: u64

definition key_is_zero :: "kernel_cache_key \<Rightarrow> bool" where
  "key_is_zero k \<longleftrightarrow> \<not> hash_is_set (kk_content_hash k) \<and> \<not> hash_is_set (kk_row_hash k)"

definition key_sentinel :: kernel_cache_key where
  "key_sentinel = \<lparr>kk_content_hash = hash_sentinel, kk_row_hash = hash_sentinel\<rparr>"

definition key_is_sentinel :: "kernel_cache_key \<Rightarrow> bool" where
  "key_is_sentinel k \<longleftrightarrow>
     hash_is_sentinel (kk_content_hash k) \<and> hash_is_sentinel (kk_row_hash k)"


section \<open>The tensor descriptor\<close>

definition kMaxTensorNDim :: nat where
  "kMaxTensorNDim = 8"

definition kMaxTensorDimExtent :: int where
  "kMaxTensorDimExtent = i64_max div 16"

definition tensor_dim :: "int \<Rightarrow> int checked" where
  "tensor_dim v = (if v \<le> kMaxTensorDimExtent then ok v else fail Contract_violation)"

record tensor_meta =
  tm_sizes :: "int list"
  tm_strides :: "int list"
  tm_data_ptr :: u64
  tm_ndim :: nat
  tm_dtype :: scalar_type
  tm_device_type :: device_type
  tm_device_idx :: int
  tm_layout :: layout
  tm_requires_grad :: bool
  tm_flags :: u8
  tm_output_nr :: u8
  tm_storage_offset :: int
  tm_version :: u32
  tm_storage_nbytes :: u32
  tm_grad_fn_hash :: u64

definition default_meta :: tensor_meta where
  "default_meta =
    \<lparr>tm_sizes = replicate 8 0, tm_strides = replicate 8 0, tm_data_ptr = 0, tm_ndim = 0,
     tm_dtype = ST_Undefined, tm_device_type = DT_CPU, tm_device_idx = - 1, tm_layout = LY_Strided,
     tm_requires_grad = False, tm_flags = 0, tm_output_nr = 0, tm_storage_offset = 0, tm_version = 0,
     tm_storage_nbytes = 0, tm_grad_fn_hash = 0\<rparr>"

text \<open>What the type of a descriptor promises: both lane blocks have their full width, each lane is
  an \<^verbatim>\<open>int64_t\<close>, and the number of live lanes is at most the width.\<close>

definition wf_meta :: "tensor_meta \<Rightarrow> bool" where
  "wf_meta m \<longleftrightarrow>
     length (tm_sizes m) = kMaxTensorNDim \<and> length (tm_strides m) = kMaxTensorNDim \<and>
     tm_ndim m \<le> kMaxTensorNDim \<and> list_all fits_i64 (tm_sizes m) \<and> list_all fits_i64 (tm_strides m)"

definition live_dims :: "tensor_meta \<Rightarrow> (int \<times> int) list" where
  "live_dims m = take (tm_ndim m) (zip (tm_sizes m) (tm_strides m))"


section \<open>Round trips and bounds\<close>

lemma set_scalar_types: "t \<in> set scalar_types"
  by (cases t) (simp_all add: scalar_types_def)

lemma scalar_ord_inject [simp]: "scalar_ord s = scalar_ord t \<longleftrightarrow> s = t"
  by (cases s; cases t) simp_all

lemma device_ord_inject [simp]: "device_ord s = device_ord t \<longleftrightarrow> s = t"
  by (cases s; cases t) simp_all

lemma layout_ord_inject [simp]: "layout_ord s = layout_ord t \<longleftrightarrow> s = t"
  by (cases s; cases t) simp_all

lemma make_scalar_type_ord: "make_scalar_type (scalar_ord t) = ok t"
  by (cases t) (simp_all add: make_scalar_type_def scalar_types_def wrap_i8_def)

lemma make_device_type_ord: "make_device_type (device_ord t) = ok t"
  by (cases t) (simp_all add: make_device_type_def device_types_def wrap_i8_def)

lemma make_layout_ord: "make_layout (layout_ord t) = ok t"
  by (cases t) (simp_all add: make_layout_def layouts_def wrap_i8_def)

lemma find_ord_iff:
  "(\<exists>t. find (\<lambda>t. f t = x) ts = Some t) \<longleftrightarrow> x \<in> set (map f ts)"
  by (induction ts) auto

lemma make_scalar_type_accepts:
  "is_valid_scalar_type raw \<longleftrightarrow> (\<exists>t. make_scalar_type raw = ok t)"
  using find_ord_iff [of scalar_ord "wrap_i8 raw" scalar_types]
  by (auto simp: is_valid_scalar_type_def make_scalar_type_def split: option.splits)

lemma element_size_zero_iff [simp]: "element_size t = 0 \<longleftrightarrow> t = ST_Undefined"
  by (cases t) simp_all

lemma element_size_le: "element_size t \<le> 16"
  by (cases t) simp_all

lemma element_size_u64 [simp]: "unat (word_of_nat (element_size t) :: u64) = element_size t"
  using element_size_le [of t] by (intro unat_of_nat_exact) simp

lemma sentinel_not_zero: "\<not> (key_is_zero k \<and> key_is_sentinel k)"
  by (simp add: key_is_zero_def key_is_sentinel_def hash_is_set_def hash_is_sentinel_def
      hash_sentinel_def)

lemma wf_default_meta: "wf_meta default_meta"
  by (simp add: wf_meta_def default_meta_def kMaxTensorNDim_def eval_nat_numeral)

lemma live_dims_fits:
  "wf_meta m \<Longrightarrow> (s, t) \<in> set (live_dims m) \<Longrightarrow> fits_i64 s \<and> fits_i64 t"
  unfolding wf_meta_def live_dims_def list_all_iff
  by (metis in_set_takeD set_zip_leftD set_zip_rightD)

end
