(* ===== verification/Memory_Plan.thy ===== *)
theory Memory_Plan
  imports Tensor_Meta
begin

text \<open>
  The static memory planner: \<^verbatim>\<open>BackgroundThread::compute_memory_plan\<close> of
  \<^verbatim>\<open>src/BackgroundThread.cpp\<close>, the \<^verbatim>\<open>TensorSlot\<close> and \<^verbatim>\<open>MemoryPlan\<close> structures and the checker
  \<^verbatim>\<open>live_intervals_disjoint_at\<close> of \<^verbatim>\<open>crucible/MerkleDag.h\<close>, and the interval predicates of
  \<^verbatim>\<open>foundation/contracts/Decide.h\<close> that checker uses.

  The planner buckets the internal slots by birth and by death with a counting sort, then sweeps
  the operations.  At each operation it hands the range of a dying slot directly to a newly born one
  (best fit), returns the remaining dying ranges to an unordered free list, and serves the
  remaining births first-fit from that list or by extending the pool.
\<close>

section \<open>Slots and plans\<close>

record tensor_slot =
  offset_bytes :: u64
  nbytes :: u64
  birth_op :: nat
  death_op :: nat
  sl_dtype :: scalar_type
  sl_device_type :: device_type
  sl_device_idx :: int
  sl_layout :: layout
  is_external :: bool
  slot_id :: u32

record memory_plan =
  mp_slots :: "tensor_slot list"
  pool_bytes :: u64
  num_slots :: nat
  num_external :: nat
  mp_device_type :: device_type
  mp_device_idx :: int
  device_capability :: u64
  mp_rank :: int
  mp_world_size :: int


section \<open>The checker\<close>

definition no_overflow_sum :: "u64 \<Rightarrow> u64 \<Rightarrow> bool" where
  "no_overflow_sum a b \<longleftrightarrow> unat a + unat b < 2 ^ 64"

definition interval_pair_disjoint :: "u64 \<times> u64 \<Rightarrow> u64 \<times> u64 \<Rightarrow> bool" where
  "interval_pair_disjoint a b \<longleftrightarrow>
     (fst a = snd a \<or> fst b = snd b) \<or> (snd a \<le> fst b \<or> snd b \<le> fst a)"

fun pairs_disjoint :: "(u64 \<times> u64) list \<Rightarrow> bool" where
  "pairs_disjoint [] \<longleftrightarrow> True"
| "pairs_disjoint (a # ivs) \<longleftrightarrow> list_all (interval_pair_disjoint a) ivs \<and> pairs_disjoint ivs"

definition intervals_pairwise_disjoint :: "(u64 \<times> u64) list \<Rightarrow> bool" where
  "intervals_pairwise_disjoint ivs \<longleftrightarrow>
     list_all (\<lambda>iv. \<not> fst iv > snd iv) ivs \<and> pairs_disjoint ivs"

fun collect_live :: "nat \<Rightarrow> nat \<Rightarrow> tensor_slot list \<Rightarrow> (u64 \<times> u64) list \<Rightarrow> (u64 \<times> u64) list option" where
  "collect_live max_live t [] live = Some live"
| "collect_live max_live t (s # ss) live =
    (if is_external s then collect_live max_live t ss live
     else if birth_op s \<le> t \<and> t \<le> death_op s then
       if length live \<ge> max_live then None
       else if \<not> no_overflow_sum (offset_bytes s) (nbytes s) then None
       else collect_live max_live t ss (live @ [(offset_bytes s, offset_bytes s + nbytes s)])
     else collect_live max_live t ss live)"

definition live_intervals_disjoint_at :: "nat \<Rightarrow> tensor_slot list \<Rightarrow> nat \<Rightarrow> bool" where
  "live_intervals_disjoint_at max_live slots t =
    (case collect_live max_live t slots [] of
       None \<Rightarrow> False
     | Some live \<Rightarrow> intervals_pairwise_disjoint live)"


section \<open>The first scan\<close>

definition MAX_DEATH_OP :: nat where
  "MAX_DEATH_OP = 2 ^ 32 - 1 - 3"

record slot_scan =
  sc_external :: nat
  sc_max_op :: nat
  sc_device_type :: device_type
  sc_device_idx :: int

definition scan_internal :: "tensor_slot \<Rightarrow> slot_scan \<Rightarrow> slot_scan" where
  "scan_internal s acc =
    (let acc1 = (if sc_device_type acc = DT_CPU \<and> sl_device_type s \<noteq> DT_CPU
                 then acc\<lparr>sc_device_type := sl_device_type s, sc_device_idx := sl_device_idx s\<rparr>
                 else acc)
     in if death_op s + 1 > sc_max_op acc1 then acc1\<lparr>sc_max_op := death_op s + 1\<rparr> else acc1)"

fun scan_slots :: "tensor_slot list \<Rightarrow> slot_scan \<Rightarrow> slot_scan checked" where
  "scan_slots [] acc = ok acc"
| "scan_slots (s # ss) acc =
    (if is_external s then scan_slots ss (acc\<lparr>sc_external := sc_external acc + 1\<rparr>)
     else if \<not> birth_op s \<le> death_op s then fail Fatal_invariant
     else if \<not> death_op s \<le> MAX_DEATH_OP then fail Fatal_invariant
     else scan_slots ss (scan_internal s acc))"


section \<open>The counting sort\<close>

fun bucket_counts :: "(tensor_slot \<Rightarrow> nat) \<Rightarrow> tensor_slot list \<Rightarrow> nat list \<Rightarrow> nat list" where
  "bucket_counts key [] cnt = cnt"
| "bucket_counts key (s # ss) cnt =
    (if is_external s then bucket_counts key ss cnt
     else if key s < length cnt
       then bucket_counts key ss (cnt[key s := cnt ! key s + 1])
       else bucket_counts key ss cnt)"

fun bucket_offsets :: "nat \<Rightarrow> nat list \<Rightarrow> nat list" where
  "bucket_offsets off [] = [off]"
| "bucket_offsets off (c # cs) = off # bucket_offsets (off + c) cs"

fun scatter :: "(tensor_slot \<Rightarrow> nat) \<Rightarrow> tensor_slot list \<Rightarrow> nat \<Rightarrow> nat list \<Rightarrow> nat list \<Rightarrow> nat list" where
  "scatter key [] s cur arr = arr"
| "scatter key (sl # sls) s cur arr =
    (if is_external sl then scatter key sls (s + 1) cur arr
     else if key sl < length cur
       then scatter key sls (s + 1) (cur[key sl := cur ! key sl + 1]) (arr[cur ! key sl := s])
       else scatter key sls (s + 1) cur arr)"

definition bucket :: "nat list \<Rightarrow> nat list \<Rightarrow> nat \<Rightarrow> nat list" where
  "bucket off arr op = map (\<lambda>i. arr ! (off ! op + i)) [0..<off ! (op + 1) - off ! op]"

definition free_at :: "tensor_slot \<Rightarrow> nat" where
  "free_at s = death_op s + 1"


section \<open>The free list and the sweep\<close>

definition ALIGNMENT :: u64 where
  "ALIGNMENT = 256"

definition align_up :: "u64 \<Rightarrow> u64" where
  "align_up n = (n + ALIGNMENT - 1) AND NOT (ALIGNMENT - 1)"

definition MAX_FREE :: nat where
  "MAX_FREE = 4096"

definition MAX_PER_OP :: nat where
  "MAX_PER_OP = 64"

record plan_state =
  ps_slots :: "tensor_slot list"
  free_list :: "(u64 \<times> u64) list"
  pool_end :: u64

definition set_offset :: "nat \<Rightarrow> u64 \<Rightarrow> tensor_slot list \<Rightarrow> tensor_slot list" where
  "set_offset s off slots = slots[s := (slots ! s)\<lparr>offset_bytes := off\<rparr>]"

definition free_block :: "u64 \<Rightarrow> u64 \<Rightarrow> plan_state \<Rightarrow> plan_state" where
  "free_block off sz st =
    (if length (free_list st) < MAX_FREE
     then st\<lparr>free_list := free_list st @ [(off, sz)]\<rparr> else st)"

fun first_fit :: "(u64 \<times> u64) list \<Rightarrow> u64 \<Rightarrow> nat option" where
  "first_fit [] aligned_size = None"
| "first_fit ((off, sz) # bs) aligned_size =
    (if sz \<ge> aligned_size then Some 0 else map_option Suc (first_fit bs aligned_size))"

definition swap_remove :: "nat \<Rightarrow> 'a list \<Rightarrow> 'a list" where
  "swap_remove f xs = butlast (xs[f := last xs])"

definition alloc_slot :: "nat \<Rightarrow> u64 \<Rightarrow> plan_state \<Rightarrow> plan_state" where
  "alloc_slot s aligned_size st =
    (case first_fit (free_list st) aligned_size of
       Some f \<Rightarrow>
         let (off, sz) = free_list st ! f
         in st\<lparr>ps_slots := set_offset s off (ps_slots st),
               free_list := (if sz = aligned_size then swap_remove f (free_list st)
                 else (free_list st)[f := (off + aligned_size, sz - aligned_size)])\<rparr>
     | None \<Rightarrow>
         st\<lparr>ps_slots := set_offset s (pool_end st) (ps_slots st),
            pool_end := pool_end st + aligned_size\<rparr>)"

fun best_match :: "(u64 \<times> u64) list \<Rightarrow> bool list \<Rightarrow> u64 \<Rightarrow> nat list \<Rightarrow> nat option \<Rightarrow> u64 \<Rightarrow> nat option \<times> u64" where
  "best_match info consumed born_size [] best waste = (best, waste)"
| "best_match info consumed born_size (i # is) best waste =
    (if \<not> consumed ! i \<and> fst (info ! i) \<ge> born_size \<and> fst (info ! i) - born_size < waste
     then best_match info consumed born_size is (Some i) (fst (info ! i) - born_size)
     else best_match info consumed born_size is best waste)"

record match_state =
  mt_plan :: plan_state
  dying_consumed :: "bool list"
  born_assigned :: "bool list"

definition match_step ::
  "(u64 \<times> u64) list \<Rightarrow> nat \<Rightarrow> nat list \<Rightarrow> nat \<Rightarrow> match_state \<Rightarrow> match_state" where
  "match_step info dying_count_capped born born_idx ms =
    (let born_slot_id = born ! born_idx;
         born_aligned_size = align_up (nbytes (ps_slots (mt_plan ms) ! born_slot_id))
     in case best_match info (dying_consumed ms) born_aligned_size [0..<dying_count_capped] None (- 1) of
          (None, w) \<Rightarrow> ms
        | (Some d, w) \<Rightarrow>
            let off = snd (info ! d);
                st1 = (mt_plan ms)\<lparr>ps_slots := set_offset born_slot_id off (ps_slots (mt_plan ms))\<rparr>;
                st2 = (if w > 0 then free_block (off + born_aligned_size) w st1 else st1)
            in \<lparr>mt_plan = st2, dying_consumed = (dying_consumed ms)[d := True],
                born_assigned = (born_assigned ms)[born_idx := True]\<rparr>)"

definition dying_info :: "tensor_slot list \<Rightarrow> nat list \<Rightarrow> (u64 \<times> u64) list" where
  "dying_info slots ids = map (\<lambda>s. (align_up (nbytes (slots ! s)), offset_bytes (slots ! s))) ids"

definition free_step :: "nat list \<Rightarrow> nat \<Rightarrow> bool list \<Rightarrow> nat \<Rightarrow> plan_state \<Rightarrow> plan_state" where
  "free_step dying cap consumed i st =
    (if i < cap \<and> consumed ! i then st
     else free_block (offset_bytes (ps_slots st ! (dying ! i)))
            (align_up (nbytes (ps_slots st ! (dying ! i)))) st)"

definition alloc_step :: "nat list \<Rightarrow> nat \<Rightarrow> bool list \<Rightarrow> nat \<Rightarrow> plan_state \<Rightarrow> plan_state" where
  "alloc_step born cap assigned i st =
    (if i < cap \<and> assigned ! i then st
     else alloc_slot (born ! i) (align_up (nbytes (ps_slots st ! (born ! i)))) st)"

definition sweep_op :: "nat list \<Rightarrow> nat list \<Rightarrow> plan_state \<Rightarrow> plan_state" where
  "sweep_op dying born st =
    (let dying_count_capped = min (length dying) MAX_PER_OP;
         born_count_capped = min (length born) MAX_PER_OP;
         ms0 = \<lparr>mt_plan = st, dying_consumed = replicate MAX_PER_OP False,
                born_assigned = replicate MAX_PER_OP False\<rparr>;
         ms = (if dying_count_capped > 0 \<and> born_count_capped > 0
               then fold (match_step (dying_info (ps_slots st) (take dying_count_capped dying))
                            dying_count_capped born) [0..<born_count_capped] ms0
               else ms0);
         st1 = fold (free_step dying dying_count_capped (dying_consumed ms)) [0..<length dying]
                 (mt_plan ms)
     in fold (alloc_step born born_count_capped (born_assigned ms)) [0..<length born] st1)"

definition compute_memory_plan ::
  "u64 \<Rightarrow> int \<Rightarrow> int \<Rightarrow> tensor_slot list \<Rightarrow> memory_plan checked" where
  "compute_memory_plan capability the_rank the_world_size slots =
    (let plan0 = \<lparr>mp_slots = slots, pool_bytes = 0, num_slots = length slots, num_external = 0,
                  mp_device_type = DT_CPU, mp_device_idx = - 1, device_capability = capability,
                  mp_rank = the_rank, mp_world_size = the_world_size\<rparr>
     in if length slots = 0 then ok plan0
     else case scan_slots slots
         \<lparr>sc_external = 0, sc_max_op = 0, sc_device_type = DT_CPU, sc_device_idx = - 1\<rparr> of
       Inl e \<Rightarrow> fail e
     | Inr sc \<Rightarrow>
       let plan1 = plan0\<lparr>num_external := sc_external sc, mp_device_type := sc_device_type sc,
                         mp_device_idx := sc_device_idx sc\<rparr>;
           num_internal = length slots - sc_external sc
       in if num_internal = 0 then ok plan1
       else
         let num_ops = sc_max_op sc + 1;
             birth_off = bucket_offsets 0 (bucket_counts birth_op slots (replicate num_ops 0));
             death_off = bucket_offsets 0 (bucket_counts free_at slots (replicate num_ops 0));
             born_slots = scatter birth_op slots 0 (take num_ops birth_off) (replicate num_internal 0);
             dead_slots = scatter free_at slots 0 (take num_ops death_off) (replicate num_internal 0);
             st = fold (\<lambda>op. sweep_op (bucket death_off dead_slots op) (bucket birth_off born_slots op))
                    [0..<num_ops] \<lparr>ps_slots = slots, free_list = [], pool_end = 0\<rparr>
         in ok (plan1\<lparr>mp_slots := ps_slots st, pool_bytes := pool_end st\<rparr>))"


section \<open>The counting sort is a stable bucket partition\<close>

text \<open>The reference: the internal slots with a given key, in slot order.\<close>

definition slots_with :: "(tensor_slot \<Rightarrow> nat) \<Rightarrow> tensor_slot list \<Rightarrow> nat \<Rightarrow> nat list" where
  "slots_with key slots op =
     filter (\<lambda>s. \<not> is_external (slots ! s) \<and> key (slots ! s) = op) [0..<length slots]"

fun keyed :: "(tensor_slot \<Rightarrow> nat) \<Rightarrow> nat \<Rightarrow> nat \<Rightarrow> tensor_slot list \<Rightarrow> nat list" where
  "keyed key op s [] = []"
| "keyed key op s (sl # sls) =
    (if \<not> is_external sl \<and> key sl = op then [s] else []) @ keyed key op (s + 1) sls"

lemma keyed_filter:
  "keyed key op s sls =
     filter (\<lambda>i. \<not> is_external (sls ! (i - s)) \<and> key (sls ! (i - s)) = op) [s..<s + length sls]"
proof (induction sls arbitrary: s)
  case (Cons sl sls)
  have "filter (\<lambda>i. \<not> is_external ((sl # sls) ! (i - s)) \<and> key ((sl # sls) ! (i - s)) = op)
      [Suc s..<Suc s + length sls]
    = filter (\<lambda>i. \<not> is_external (sls ! (i - Suc s)) \<and> key (sls ! (i - Suc s)) = op)
      [Suc s..<Suc s + length sls]"
    by (rule filter_cong) (auto simp: nth_Cons')
  then show ?case
    using Cons.IH [of "Suc s"] by (simp add: upt_conv_Cons del: upt_Suc)
qed simp

lemma slots_with_keyed: "slots_with key slots op = keyed key op 0 slots"
  by (simp add: slots_with_def keyed_filter)

lemma length_bucket_counts [simp]: "length (bucket_counts key ss cnt) = length cnt"
  by (induction key ss cnt rule: bucket_counts.induct) auto

lemma length_keyed:
  "length (keyed key op s sls) = length (filter (\<lambda>sl. \<not> is_external sl \<and> key sl = op) sls)"
  by (induction sls arbitrary: s) auto

lemma nth_bucket_counts_filter:
  "op < length cnt \<Longrightarrow> bucket_counts key ss cnt ! op
     = cnt ! op + length (filter (\<lambda>sl. \<not> is_external sl \<and> key sl = op) ss)"
  by (induction key ss cnt rule: bucket_counts.induct) (auto simp: nth_list_update)

lemma nth_bucket_counts:
  "op < length cnt \<Longrightarrow> bucket_counts key ss cnt ! op = cnt ! op + length (keyed key op 0 ss)"
  by (simp add: nth_bucket_counts_filter length_keyed)

lemma sum_list_bump: "k < length xs \<Longrightarrow> sum_list (xs[k := Suc (xs ! k)]) = Suc (sum_list xs)"
  by (simp add: sum_list_update)

lemma sum_bucket_counts_le:
  "sum_list (bucket_counts key ss cnt) \<le> sum_list cnt + length (filter (\<lambda>s. \<not> is_external s) ss)"
proof (induction key ss cnt rule: bucket_counts.induct)
  case (2 key s ss cnt)
  then show ?case
    by (auto simp: sum_list_bump)
qed simp

lemma length_bucket_offsets [simp]: "length (bucket_offsets off cs) = Suc (length cs)"
  by (induction off cs rule: bucket_offsets.induct) auto

lemma nth_bucket_offsets: "op \<le> length cs \<Longrightarrow> bucket_offsets off cs ! op = off + sum_list (take op cs)"
proof (induction off cs arbitrary: op rule: bucket_offsets.induct)
  case (2 off c cs)
  then show ?case
    by (cases op) auto
qed simp

lemma bucket_offsets_Suc:
  "op < length cs \<Longrightarrow> bucket_offsets off cs ! Suc op = bucket_offsets off cs ! op + cs ! op"
  by (simp add: nth_bucket_offsets take_Suc_conv_app_nth)

lemma bucket_offsets_mono:
  "i \<le> j \<Longrightarrow> j \<le> length cs \<Longrightarrow> bucket_offsets off cs ! i \<le> bucket_offsets off cs ! j"
proof (induction j)
  case (Suc j)
  then show ?case
    by (cases "i = Suc j") (auto simp: bucket_offsets_Suc)
qed simp

text \<open>Each bucket has a segment of the output array; the cursor of a bucket stays inside its
  segment, and the entries below the cursor are final.\<close>

definition segs_ok ::
  "nat list \<Rightarrow> nat list \<Rightarrow> (tensor_slot \<Rightarrow> nat) \<Rightarrow> nat \<Rightarrow> tensor_slot list \<Rightarrow> nat \<Rightarrow> bool" where
  "segs_ok off cur key s sls len \<longleftrightarrow>
     (\<forall>i j. i \<le> j \<longrightarrow> j \<le> length cur \<longrightarrow> off ! i \<le> off ! j) \<and>
     (\<forall>op < length cur. off ! op \<le> cur ! op \<and>
        cur ! op + length (keyed key op s sls) \<le> off ! Suc op) \<and>
     off ! length cur \<le> len"

lemma segs_ok_skip:
  "segs_ok off cur key s (sl # sls) len \<Longrightarrow>
     is_external sl \<or> length cur \<le> key sl \<Longrightarrow> segs_ok off cur key (Suc s) sls len"
  by (fastforce simp: segs_ok_def)

lemma segs_ok_write:
  "segs_ok off cur key s (sl # sls) len \<Longrightarrow> \<not> is_external sl \<Longrightarrow> key sl < length cur \<Longrightarrow>
     segs_ok off (cur[key sl := cur ! key sl + 1]) key (Suc s) sls len"
  by (auto simp: segs_ok_def nth_list_update)

lemma segs_ok_distinct:
  assumes "segs_ok off cur key s (sl # sls) len" "\<not> is_external sl" "key sl < length cur"
    "op < length cur" "off ! op \<le> p" "p < off ! Suc op" "op \<noteq> key sl"
  shows "p \<noteq> cur ! key sl"
proof -
  have mono: "\<And>i j. i \<le> j \<Longrightarrow> j \<le> length cur \<Longrightarrow> off ! i \<le> off ! j"
    and "off ! key sl \<le> cur ! key sl" "cur ! key sl < off ! Suc (key sl)"
    using assms by (auto simp: segs_ok_def dest: spec [of _ "key sl"])
  moreover have "off ! Suc op \<le> off ! key sl \<or> off ! Suc (key sl) \<le> off ! op"
    using assms mono by (cases "op < key sl") auto
  ultimately show ?thesis
    using assms by linarith
qed

lemma segs_ok_bound:
  assumes "segs_ok off cur key s (sl # sls) len" "\<not> is_external sl" "key sl < length cur"
  shows "cur ! key sl < len"
proof -
  have "cur ! key sl + length (keyed key (key sl) s (sl # sls)) \<le> off ! Suc (key sl)"
    "off ! Suc (key sl) \<le> off ! length cur" "off ! length cur \<le> len"
    using assms unfolding segs_ok_def by (metis Suc_leI le_refl)+
  then show ?thesis
    using assms by simp
qed

lemma scatter_keeps:
  "segs_ok off cur key s sls (length arr) \<Longrightarrow> op < length cur \<Longrightarrow> off ! op \<le> p \<Longrightarrow> p < cur ! op \<Longrightarrow>
     scatter key sls s cur arr ! p = arr ! p"
proof (induction sls arbitrary: s cur arr)
  case (Cons sl sls)
  show ?case
  proof (cases "\<not> is_external sl \<and> key sl < length cur")
    case True
    have "p < off ! Suc op"
      using Cons.prems unfolding segs_ok_def by (metis le_trans add_leE leD not_le)
    then have "p \<noteq> cur ! key sl"
      using segs_ok_distinct [OF Cons.prems(1), of op p] Cons.prems True by (cases "op = key sl") auto
    moreover have "p < cur[key sl := cur ! key sl + 1] ! op"
      using Cons.prems True by (simp add: nth_list_update)
    ultimately show ?thesis
      using Cons.IH [OF _ _ Cons.prems(3), of "cur[key sl := cur ! key sl + 1]" "Suc s" "arr[cur ! key sl := s]"]
        segs_ok_write [OF Cons.prems(1)] Cons.prems True by simp
  next
    case False
    then show ?thesis
      using Cons.IH [of cur "Suc s" arr] segs_ok_skip [OF Cons.prems(1)] Cons.prems by auto
  qed
qed simp

lemma scatter_writes:
  "segs_ok off cur key s sls (length arr) \<Longrightarrow> op < length cur \<Longrightarrow> j < length (keyed key op s sls) \<Longrightarrow>
     scatter key sls s cur arr ! (cur ! op + j) = keyed key op s sls ! j"
proof (induction sls arbitrary: s cur arr j)
  case (Cons sl sls)
  show ?case
  proof (cases "\<not> is_external sl \<and> key sl < length cur")
    case True
    let ?cur = "cur[key sl := cur ! key sl + 1]" and ?arr = "arr[cur ! key sl := s]"
    have ok: "segs_ok off ?cur key (Suc s) sls (length ?arr)"
      using segs_ok_write [OF Cons.prems(1)] True by simp
    note IH = Cons.IH [OF ok]
    show ?thesis
    proof (cases "key sl = op")
      case k: True
      have first: "scatter key sls (Suc s) ?cur ?arr ! (cur ! op) = s"
        using scatter_keeps [OF ok, of op "cur ! op"] k True Cons.prems segs_ok_bound [OF Cons.prems(1)]
        by (auto simp: segs_ok_def)
      show ?thesis
        using first IH [of "j - 1"] k True Cons.prems by (cases j) auto
    next
      case False
      then show ?thesis
        using IH [of j] True Cons.prems by simp
    qed
  next
    case False
    then show ?thesis
      using Cons.IH [of cur "Suc s" arr j] segs_ok_skip [OF Cons.prems(1)] Cons.prems by auto
  qed
qed simp

lemma bucket_reference:
  fixes key :: "tensor_slot \<Rightarrow> nat"
  assumes "op < n" "length (filter (\<lambda>s. \<not> is_external s) slots) \<le> len"
  defines "off \<equiv> bucket_offsets 0 (bucket_counts key slots (replicate n 0))"
  shows "bucket off (scatter key slots 0 (take n off) (replicate len 0)) op = slots_with key slots op"
proof -
  let ?cs = "bucket_counts key slots (replicate n 0)"
  have step: "off ! Suc i = off ! i + length (keyed key i 0 slots)" if "i < n" for i
    using that by (simp add: off_def bucket_offsets_Suc nth_bucket_counts)
  have "off ! n \<le> len"
    using sum_bucket_counts_le [of key slots "replicate n 0"] assms(2)
    by (simp add: off_def nth_bucket_offsets sum_list_replicate)
  then have "segs_ok off (take n off) key 0 slots (length (replicate len 0))"
    using step by (auto simp: segs_ok_def off_def bucket_offsets_mono)
  then show ?thesis
    using scatter_writes [of off "take n off" key 0 slots "replicate len 0" op] assms(1) step
    by (auto simp: bucket_def slots_with_keyed off_def intro: nth_equalityI)
qed

end
