(* ===== verification/Memory_Plan_Correct.thy ===== *)
theory Memory_Plan_Correct
  imports Memory_Plan "HOL-Library.Multiset"
begin

text \<open>
  Correctness of the memory planner.  The state of the sweep is read as a tiling of the pool: at
  every address at most one block, live or free, covers it, and every block is aligned and lies
  below the end of the pool.  Each operation of the sweep keeps the tiling.
\<close>

section \<open>Blocks and the tiling invariant\<close>

definition covers :: "nat \<times> nat \<Rightarrow> nat \<Rightarrow> nat" where
  "covers b x = (if fst b \<le> x \<and> x < fst b + snd b then 1 else 0)"

definition aligned_size :: "nat \<Rightarrow> nat" where
  "aligned_size n = (n + 255) div 256 * 256"

definition slot_block :: "tensor_slot \<Rightarrow> nat \<times> nat" where
  "slot_block s = (unat (offset_bytes s), aligned_size (unat (nbytes s)))"

definition free_span :: "u64 \<times> u64 \<Rightarrow> nat \<times> nat" where
  "free_span b = (unat (fst b), unat (snd b))"

definition in_pool :: "nat \<Rightarrow> nat \<times> nat \<Rightarrow> bool" where
  "in_pool e b \<longleftrightarrow> 256 dvd fst b \<and> 256 dvd snd b \<and> fst b + snd b \<le> e"

definition pool_inv :: "plan_state \<Rightarrow> nat set \<Rightarrow> bool" where
  "pool_inv st L \<longleftrightarrow>
     finite L \<and> L \<subseteq> {..<length (ps_slots st)} \<and> 256 dvd unat (pool_end st) \<and>
     (\<forall>s \<in> L. in_pool (unat (pool_end st)) (slot_block (ps_slots st ! s))) \<and>
     (\<forall>b \<in> set (free_list st). in_pool (unat (pool_end st)) (free_span b)) \<and>
     (\<forall>x. (\<Sum>s\<in>L. covers (slot_block (ps_slots st ! s)) x)
          + (\<Sum>b\<leftarrow>free_list st. covers (free_span b) x)
          \<le> (if x < unat (pool_end st) then 1 else 0))"

definition fits_aligned :: "tensor_slot \<Rightarrow> bool" where
  "fits_aligned s \<longleftrightarrow> aligned_size (unat (nbytes s)) < 2 ^ 64"

definition frame :: "nat set \<Rightarrow> tensor_slot list \<Rightarrow> tensor_slot list \<Rightarrow> bool" where
  "frame B slots slots' \<longleftrightarrow> length slots' = length slots \<and>
     (\<forall>i < length slots. slots' ! i = slots ! i \<or>
        i \<in> B \<and> (\<exists>off. slots' ! i = (slots ! i)\<lparr>offset_bytes := off\<rparr>))"

definition sample_slots :: "tensor_slot list" where
  "sample_slots =
    [\<lparr>offset_bytes = 0, nbytes = 1000, birth_op = 0, death_op = 0, sl_dtype = ST_Float,
      sl_device_type = DT_CPU, sl_device_idx = - 1, sl_layout = LY_Strided, is_external = False, slot_id = 0\<rparr>,
     \<lparr>offset_bytes = 0, nbytes = 300, birth_op = 1, death_op = 2, sl_dtype = ST_Float,
      sl_device_type = DT_CUDA, sl_device_idx = 0, sl_layout = LY_Strided, is_external = False, slot_id = 1\<rparr>,
     \<lparr>offset_bytes = 0, nbytes = 600, birth_op = 1, death_op = 1, sl_dtype = ST_Float,
      sl_device_type = DT_CUDA, sl_device_idx = 0, sl_layout = LY_Strided, is_external = False, slot_id = 2\<rparr>]"


section \<open>Alignment\<close>

lemma dvd_aligned_size [simp]: "256 dvd aligned_size n"
  by (simp add: aligned_size_def)

lemma aligned_size_ge: "n \<le> aligned_size n"
proof -
  have "n + 255 = (n + 255) div 256 * 256 + (n + 255) mod 256" "(n + 255) mod 256 < 256"
    by simp_all
  then show ?thesis
    unfolding aligned_size_def by linarith
qed

lemma fits_aligned_no_wrap: "fits_aligned s \<Longrightarrow> unat (nbytes s) + 255 < 2 ^ 64"
proof (rule ccontr)
  assume "fits_aligned s" and "\<not> unat (nbytes s) + 255 < 2 ^ 64"
  then have "2 ^ 56 \<le> (unat (nbytes s) + 255) div 256"
    by simp
  then have "2 ^ 64 \<le> aligned_size (unat (nbytes s))"
    by (simp add: aligned_size_def)
  with \<open>fits_aligned s\<close> show False
    by (simp add: fits_aligned_def)
qed

lemma unat_align_up:
  assumes "fits_aligned s"
  shows "unat (align_up (nbytes s)) = aligned_size (unat (nbytes s))"
proof -
  have "ALIGNMENT - 1 = mask 8" "nbytes s + ALIGNMENT - 1 = nbytes s + 255"
    by (simp_all add: ALIGNMENT_def mask_eq_exp_minus_1)
  then have "unat (align_up (nbytes s)) = unat (nbytes s + 255) div 2 ^ 8 * 2 ^ 8"
    unfolding align_up_def by (simp only: unat_and_not_mask)
  then show ?thesis
    using fits_aligned_no_wrap [OF assms] by (simp add: aligned_size_def unat_add_exact)
qed


section \<open>Lemmas on covers, frames and the free list\<close>

lemma covers_split:
  "a \<le> n \<Longrightarrow> covers (k, n) x = covers (k, a) x + covers (k + a, n - a) x"
  by (auto simp: covers_def)

lemma covers_empty [simp]: "covers (k, 0) x = 0"
  by (simp add: covers_def)

lemma frame_refl [simp]: "frame B slots slots"
  by (simp add: frame_def)

lemma frame_trans: "frame B s1 s2 \<Longrightarrow> frame C s2 s3 \<Longrightarrow> frame (B \<union> C) s1 s3"
  by (fastforce simp: frame_def)

lemma frame_mono: "frame B s1 s2 \<Longrightarrow> B \<subseteq> C \<Longrightarrow> frame C s1 s2"
  by (fastforce simp: frame_def)

lemma frame_length: "frame B s1 s2 \<Longrightarrow> length s2 = length s1"
  by (simp add: frame_def)

lemma frame_outside: "frame B s1 s2 \<Longrightarrow> i < length s1 \<Longrightarrow> i \<notin> B \<Longrightarrow> s2 ! i = s1 ! i"
  by (auto simp: frame_def)

lemma frame_fields:
  assumes "frame B s1 s2" "i < length s1"
  shows "nbytes (s2 ! i) = nbytes (s1 ! i)" "birth_op (s2 ! i) = birth_op (s1 ! i)"
    "death_op (s2 ! i) = death_op (s1 ! i)" "is_external (s2 ! i) = is_external (s1 ! i)"
    "fits_aligned (s2 ! i) = fits_aligned (s1 ! i)"
  using assms by (auto simp: frame_def fits_aligned_def)

lemma length_set_offset [simp]: "length (set_offset s off slots) = length slots"
  by (simp add: set_offset_def)

lemma nth_set_offset:
  "i < length slots \<Longrightarrow> set_offset s off slots ! i
     = (if i = s then (slots ! s)\<lparr>offset_bytes := off\<rparr> else slots ! i)"
  by (simp add: set_offset_def nth_list_update)

lemma frame_set_offset: "frame {s} slots (set_offset s off slots)"
  by (auto simp: frame_def nth_set_offset)

lemma first_fit_Some:
  "first_fit bs a = Some f \<Longrightarrow> f < length bs \<and> a \<le> snd (bs ! f)"
  by (induction bs a arbitrary: f rule: first_fit.induct) (auto split: if_splits)

lemma first_fit_None: "first_fit bs a = None \<Longrightarrow> b \<in> set bs \<Longrightarrow> snd b < a"
  by (induction bs a rule: first_fit.induct) (auto split: if_splits)

lemma mset_swap_remove: "f < length xs \<Longrightarrow> mset xs = add_mset (xs ! f) (mset (swap_remove f xs))"
proof -
  assume f: "f < length xs"
  then obtain ys y where xs: "xs = ys @ [y]"
    by (metis length_greater_0_conv neq_Nil_conv rev_exhaust list.size(3) not_less0)
  show ?thesis
  proof (cases "f = length ys")
    case True
    then show ?thesis
      by (simp add: xs swap_remove_def)
  next
    case False
    then have "f < length ys"
      using f xs by simp
    then show ?thesis
      by (simp add: xs swap_remove_def list_update_append mset_update nth_append)
  qed
qed

lemma sum_list_mset_eq: "mset xs = mset ys \<Longrightarrow> sum_list (map g xs) = sum_list (map g ys)"
  for g :: "'a \<Rightarrow> nat"
  by (metis mset_map sum_mset_sum_list)

lemma sum_swap_remove:
  "f < length xs \<Longrightarrow> sum_list (map g xs) = g (xs ! f) + sum_list (map g (swap_remove f xs))"
  for g :: "'a \<Rightarrow> nat"
  using sum_list_mset_eq [of xs "xs ! f # swap_remove f xs" g] mset_swap_remove [of f xs] by simp

lemma set_swap_remove: "f < length xs \<Longrightarrow> set (swap_remove f xs) \<subseteq> set xs"
  using mset_swap_remove [of f xs] by (metis set_mset_add_mset_insert set_mset_mset subset_insertI)

lemma sum_update_list:
  "f < length xs \<Longrightarrow> sum_list (map g xs) + g v = sum_list (map g (xs[f := v])) + g (xs ! f)"
  for g :: "'a \<Rightarrow> nat"
  by (induction xs arbitrary: f) (auto simp: nth_Cons split: nat.splits)


section \<open>Each operation keeps the tiling\<close>

lemma pool_invD:
  assumes "pool_inv st L"
  shows "finite L" "s \<in> L \<Longrightarrow> s < length (ps_slots st)" "256 dvd unat (pool_end st)"
    "s \<in> L \<Longrightarrow> in_pool (unat (pool_end st)) (slot_block (ps_slots st ! s))"
    "b \<in> set (free_list st) \<Longrightarrow> in_pool (unat (pool_end st)) (free_span b)"
    "(\<Sum>s\<in>L. covers (slot_block (ps_slots st ! s)) x) + (\<Sum>b\<leftarrow>free_list st. covers (free_span b) x)
       \<le> (if x < unat (pool_end st) then 1 else 0)"
  using assms unfolding pool_inv_def by blast+

lemma pool_invI:
  assumes "finite L" "\<And>s. s \<in> L \<Longrightarrow> s < length (ps_slots st)" "256 dvd unat (pool_end st)"
    "\<And>s. s \<in> L \<Longrightarrow> in_pool (unat (pool_end st)) (slot_block (ps_slots st ! s))"
    "\<And>b. b \<in> set (free_list st) \<Longrightarrow> in_pool (unat (pool_end st)) (free_span b)"
    "\<And>x. (\<Sum>s\<in>L. covers (slot_block (ps_slots st ! s)) x)
       + (\<Sum>b\<leftarrow>free_list st. covers (free_span b) x) \<le> (if x < unat (pool_end st) then 1 else 0)"
  shows "pool_inv st L"
  using assms unfolding pool_inv_def by blast

lemma pool_inv_free_list:
  assumes "pool_inv st L" "in_pool (unat (pool_end st)) (free_span b)"
    and "\<And>x. (\<Sum>s\<in>L. covers (slot_block (ps_slots st ! s)) x)
       + covers (free_span b) x + (\<Sum>b\<leftarrow>free_list st. covers (free_span b) x)
       \<le> (if x < unat (pool_end st) then 1 else 0)"
  shows "pool_inv (free_block (fst b) (snd b) st) L"
proof (cases "length (free_list st) < MAX_FREE")
  case True
  note D = pool_invD [OF assms(1)]
  show ?thesis
    using D(1-5) assms(2,3) True
    by (intro pool_invI) (auto simp: free_block_def algebra_simps)
next
  case False
  then show ?thesis
    using assms(1) by (simp add: free_block_def)
qed

lemma pool_inv_drop:
  assumes "pool_inv st L"
  shows "pool_inv st (L - {d})"
proof -
  note D = pool_invD [OF assms]
  have le: "(\<Sum>s\<in>L - {d}. covers (slot_block (ps_slots st ! s)) x)
      \<le> (\<Sum>s\<in>L. covers (slot_block (ps_slots st ! s)) x)" for x
    using D(1) by (intro sum_mono2) auto
  show ?thesis
    by (rule pool_invI [OF _ _ _ _ _ order_trans [OF add_right_mono [OF le] D(6)]])
      (use D(1-5) in auto)
qed

lemma free_block_inv:
  assumes "pool_inv st L" "d \<in> L" "fits_aligned (ps_slots st ! d)"
  shows "pool_inv (free_block (offset_bytes (ps_slots st ! d)) (align_up (nbytes (ps_slots st ! d))) st)
           (L - {d})"
proof -
  note D = pool_invD [OF assms(1)]
  let ?b = "(offset_bytes (ps_slots st ! d), align_up (nbytes (ps_slots st ! d)))"
  have b: "free_span ?b = slot_block (ps_slots st ! d)"
    by (simp add: free_span_def slot_block_def unat_align_up [OF assms(3)])
  have sum: "(\<Sum>s\<in>L. covers (slot_block (ps_slots st ! s)) x)
    = covers (free_span ?b) x + (\<Sum>s\<in>L - {d}. covers (slot_block (ps_slots st ! s)) x)" for x
    unfolding b by (rule sum.remove [OF D(1) assms(2)])
  have "pool_inv (free_block (fst ?b) (snd ?b) st) (L - {d})"
  proof (rule pool_inv_free_list [OF pool_inv_drop [OF assms(1)]])
    show "in_pool (unat (pool_end st)) (free_span ?b)"
      unfolding b using D(4) assms(2) by blast
    show "(\<Sum>s\<in>L - {d}. covers (slot_block (ps_slots st ! s)) x) + covers (free_span ?b) x
      + (\<Sum>b\<leftarrow>free_list st. covers (free_span b) x) \<le> (if x < unat (pool_end st) then 1 else 0)" for x
      using D(6) [of x] unfolding sum by (simp only: add.commute)
  qed
  then show ?thesis
    by simp
qed

text \<open>Placing a new slot: its block replaces nothing that is live, and the cover it adds is
  accounted for by the caller.\<close>

lemma sum_place:
  assumes "finite L" "s \<notin> L" "s < length slots" "\<And>i. i \<in> L \<Longrightarrow> i < length slots"
  shows "(\<Sum>i\<in>insert s L. covers (slot_block (set_offset s off slots ! i)) x)
    = (\<Sum>i\<in>L. covers (slot_block (slots ! i)) x)
      + covers (unat off, aligned_size (unat (nbytes (slots ! s)))) x"
proof -
  have "(\<Sum>i\<in>L. covers (slot_block (set_offset s off slots ! i)) x)
    = (\<Sum>i\<in>L. covers (slot_block (slots ! i)) x)"
    using assms by (intro sum.cong) (auto simp: nth_set_offset)
  then show ?thesis
    using assms by (simp add: nth_set_offset slot_block_def)
qed

lemma pool_inv_place:
  assumes "pool_inv st L" "s \<notin> L" "s < length (ps_slots st)"
    and "unat (pool_end st) \<le> unat (pool_end st')" "256 dvd unat (pool_end st')"
    and "ps_slots st' = set_offset s off (ps_slots st)"
    and "in_pool (unat (pool_end st')) (unat off, aligned_size (unat (nbytes (ps_slots st ! s))))"
    and "\<And>b. b \<in> set (free_list st') \<Longrightarrow> in_pool (unat (pool_end st')) (free_span b)"
    and "\<And>x. (\<Sum>s\<in>L. covers (slot_block (ps_slots st ! s)) x)
       + covers (unat off, aligned_size (unat (nbytes (ps_slots st ! s)))) x
       + (\<Sum>b\<leftarrow>free_list st'. covers (free_span b) x) \<le> (if x < unat (pool_end st') then 1 else 0)"
  shows "pool_inv st' (insert s L)"
proof -
  note D = pool_invD [OF assms(1)]
  have keep: "ps_slots st' ! i = ps_slots st ! i" if "i \<in> L" for i
    using that assms(2,6) D(2) [OF that] by (auto simp: nth_set_offset)
  have new: "slot_block (ps_slots st' ! s) = (unat off, aligned_size (unat (nbytes (ps_slots st ! s))))"
    using assms(3,6) by (simp add: nth_set_offset slot_block_def)
  have sum: "(\<Sum>i\<in>insert s L. covers (slot_block (ps_slots st' ! i)) x)
    = (\<Sum>i\<in>L. covers (slot_block (ps_slots st ! i)) x)
      + covers (unat off, aligned_size (unat (nbytes (ps_slots st ! s)))) x" for x
    unfolding assms(6) by (rule sum_place [OF D(1) assms(2,3) D(2)])
  have old: "in_pool (unat (pool_end st')) (slot_block (ps_slots st' ! i))" if "i \<in> L" for i
    using D(4) [OF that] keep [OF that] assms(4) by (auto simp: in_pool_def)
  show ?thesis
  proof (rule pool_invI)
    show "(\<Sum>i\<in>insert s L. covers (slot_block (ps_slots st' ! i)) x)
       + (\<Sum>b\<leftarrow>free_list st'. covers (free_span b) x) \<le> (if x < unat (pool_end st') then 1 else 0)" for x
      unfolding sum by (rule assms(9))
  qed (use D(1,2) assms(3,5,6,7,8) new old in auto)
qed

lemma in_pool_mono: "in_pool e b \<Longrightarrow> e \<le> e' \<Longrightarrow> in_pool e' b"
  by (simp add: in_pool_def)

lemma in_pool_split:
  "in_pool e (k, n) \<Longrightarrow> 256 dvd a \<Longrightarrow> a \<le> n \<Longrightarrow> in_pool e (k, a) \<and> in_pool e (k + a, n - a)"
  by (auto simp: in_pool_def)

text \<open>Cutting a word-sized block of the pool in two does not wrap.\<close>

lemma free_span_cut:
  fixes e off sz a :: u64
  assumes "in_pool (unat e) (unat off, unat sz)" "unat a \<le> unat sz"
  shows "free_span (off + a, sz - a) = (unat off + unat a, unat sz - unat a)"
proof -
  have "unat off + unat a < 2 ^ 64"
    using assms unat_lt_pow [of e] by (simp add: in_pool_def)
  then show ?thesis
    using assms(2) by (simp add: free_span_def word_arith)
qed

lemma alloc_slot_inv:
  fixes st :: plan_state and s :: nat
  defines "a \<equiv> align_up (nbytes (ps_slots st ! s))"
  assumes "pool_inv st L" "s \<notin> L" "s < length (ps_slots st)" "fits_aligned (ps_slots st ! s)"
    and "unat (pool_end st) + unat a < 2 ^ 64"
  shows "pool_inv (alloc_slot s a st) (insert s L)"
    and "unat (pool_end st) \<le> unat (pool_end (alloc_slot s a st))"
    and "unat (pool_end (alloc_slot s a st)) \<le> unat (pool_end st) + unat a"
    and "frame {s} (ps_slots st) (ps_slots (alloc_slot s a st))"
proof -
  note D = pool_invD [OF assms(2)]
  have a: "unat a = aligned_size (unat (nbytes (ps_slots st ! s)))"
    using assms(5) by (simp add: a_def unat_align_up)
  have end': "unat (pool_end st + a) = unat (pool_end st) + unat a"
    using assms(6) by (simp add: word_arith)
  show "unat (pool_end st) \<le> unat (pool_end (alloc_slot s a st))"
    "unat (pool_end (alloc_slot s a st)) \<le> unat (pool_end st) + unat a"
    "frame {s} (ps_slots st) (ps_slots (alloc_slot s a st))"
    by (auto simp: alloc_slot_def end' frame_set_offset split: option.splits prod.splits)
  show "pool_inv (alloc_slot s a st) (insert s L)"
  proof (cases "first_fit (free_list st) a")
    case None
    let ?st = "st\<lparr>ps_slots := set_offset s (pool_end st) (ps_slots st), pool_end := pool_end st + a\<rparr>"
    have "pool_inv ?st (insert s L)"
    proof (rule pool_inv_place [OF assms(2-4)])
      show "(\<Sum>s\<in>L. covers (slot_block (ps_slots st ! s)) x)
         + covers (unat (pool_end st), aligned_size (unat (nbytes (ps_slots st ! s)))) x
         + (\<Sum>b\<leftarrow>free_list ?st. covers (free_span b) x) \<le> (if x < unat (pool_end ?st) then 1 else 0)" for x
        using D(6) [of x] by (auto simp: covers_def end' a split: if_splits)
      show "in_pool (unat (pool_end ?st)) (free_span b)" if "b \<in> set (free_list ?st)" for b
        using that in_pool_mono [OF D(5) [of b]] by (simp add: end')
    qed (use D(3) in \<open>auto simp: end' a in_pool_def\<close>)
    then show ?thesis
      by (simp add: alloc_slot_def None)
  next
    case (Some f)
    obtain off sz where blk: "free_list st ! f = (off, sz)"
      by force
    have f: "f < length (free_list st)" and "a \<le> sz"
      using first_fit_Some [OF Some] blk by auto
    then have le: "unat a \<le> unat sz"
      by (simp add: word_le_nat_alt)
    have pool: "in_pool (unat (pool_end st)) (unat off, unat sz)"
      using D(5) [of "(off, sz)"] f blk nth_mem [OF f] by (simp add: free_span_def)
    note cut = free_span_cut [OF pool le] and split = in_pool_split [OF pool _ le, unfolded a, simplified]
    let ?fl = "if sz = a then swap_remove f (free_list st) else (free_list st)[f := (off + a, sz - a)]"
    let ?st = "st\<lparr>ps_slots := set_offset s off (ps_slots st), free_list := ?fl\<rparr>"
    have "pool_inv ?st (insert s L)"
    proof (rule pool_inv_place [OF assms(2-4)])
      show "in_pool (unat (pool_end ?st)) (free_span b)" if "b \<in> set (free_list ?st)" for b
      proof -
        have "b \<in> set (free_list st) \<or> b = (off + a, sz - a)"
          using that set_swap_remove [OF f] set_update_subset_insert [of "free_list st" f "(off + a, sz - a)"]
          by (auto split: if_splits)
        then show ?thesis
          using D(5) [of b] split cut by (auto simp: a)
      qed
      have fs: "free_span (off, sz) = (unat off, unat sz)" and pe: "pool_end ?st = pool_end st"
        by (simp_all add: free_span_def)
      have "covers (unat off, unat a) x + (\<Sum>b\<leftarrow>free_list ?st. covers (free_span b) x)
        = (\<Sum>b\<leftarrow>free_list st. covers (free_span b) x)" for x
        using covers_split [OF le, of "unat off" x] cut blk fs
          sum_swap_remove [OF f, of "\<lambda>b. covers (free_span b) x"]
          sum_update_list [OF f, of "\<lambda>b. covers (free_span b) x" "(off + a, sz - a)"]
        by (cases "sz = a") simp_all
      then show "(\<Sum>s\<in>L. covers (slot_block (ps_slots st ! s)) x)
         + covers (unat off, aligned_size (unat (nbytes (ps_slots st ! s)))) x
         + (\<Sum>b\<leftarrow>free_list ?st. covers (free_span b) x) \<le> (if x < unat (pool_end ?st) then 1 else 0)" for x
        using D(6) [of x] pe by (simp only: a [symmetric] add.assoc)
    qed (use D(3) split in auto)
    then show ?thesis
      by (simp add: alloc_slot_def Some blk)
  qed
qed


section \<open>Direct reuse\<close>

lemma best_match_Some:
  "best_match info consumed a is best w0 = (Some d, w) \<Longrightarrow>
     best = Some d \<and> w = w0
     \<or> d \<in> set is \<and> \<not> consumed ! d \<and> a \<le> fst (info ! d) \<and> w = fst (info ! d) - a"
  by (induction info consumed a "is" best w0 rule: best_match.induct) (auto split: if_splits)

lemma reuse_inv:
  fixes st :: plan_state
  defines "sz \<equiv> \<lambda>s. align_up (nbytes (ps_slots st ! s))"
  defines "off \<equiv> \<lambda>s. offset_bytes (ps_slots st ! s)"
  defines "st1 \<equiv> \<lambda>b d. st\<lparr>ps_slots := set_offset b (off d) (ps_slots st)\<rparr>"
  assumes "pool_inv st L" "d \<in> L" "b \<notin> L" "b < length (ps_slots st)"
    and "fits_aligned (ps_slots st ! d)" "fits_aligned (ps_slots st ! b)" "sz b \<le> sz d"
  shows "pool_inv (if sz d - sz b > 0 then free_block (off d + sz b) (sz d - sz b) (st1 b d) else st1 b d)
           (insert b (L - {d}))"
proof -
  note D = pool_invD [OF assms(4)]
  have szd: "unat (sz d) = aligned_size (unat (nbytes (ps_slots st ! d)))"
    and szb: "unat (sz b) = aligned_size (unat (nbytes (ps_slots st ! b)))"
    using assms(8,9) by (simp_all add: sz_def unat_align_up)
  have le: "unat (sz b) \<le> unat (sz d)"
    using assms(10) by (simp add: word_le_nat_alt)
  have blk: "slot_block (ps_slots st ! d) = (unat (off d), unat (sz d))"
    by (simp add: slot_block_def off_def szd)
  then have pool: "in_pool (unat (pool_end st)) (unat (off d), unat (sz d))"
    using D(4) assms(5) by metis
  note cut = free_span_cut [OF pool le] and split = in_pool_split [OF pool _ le, unfolded szb, simplified]
  let ?L = "L - {d}"
  have total: "(\<Sum>s\<in>?L. covers (slot_block (ps_slots st ! s)) x) + covers (unat (off d), unat (sz b)) x
      + covers (free_span (off d + sz b, sz d - sz b)) x + (\<Sum>b\<leftarrow>free_list st. covers (free_span b) x)
      \<le> (if x < unat (pool_end st) then 1 else 0)" for x
    using D(6) [of x] sum.remove [OF D(1) assms(5), of "\<lambda>s. covers (slot_block (ps_slots st ! s)) x"]
      covers_split [OF le, of "unat (off d)" x] unfolding blk cut by linarith
  have notin: "b \<notin> ?L"
    using assms(6) by simp
  have st1: "free_list (st1 b d) = free_list st" "pool_end (st1 b d) = pool_end st"
    by (simp_all add: st1_def)
  have placed: "pool_inv (st1 b d) (insert b ?L)"
  proof (rule pool_inv_place [OF pool_inv_drop [OF assms(4)] notin assms(7)])
    show "(\<Sum>s\<in>?L. covers (slot_block (ps_slots st ! s)) x)
       + covers (unat (off d), aligned_size (unat (nbytes (ps_slots st ! b)))) x
       + (\<Sum>b\<leftarrow>free_list (st1 b d). covers (free_span b) x)
       \<le> (if x < unat (pool_end (st1 b d)) then 1 else 0)" for x
      using total [of x] unfolding st1 szb [symmetric] by linarith
  qed (use D(3,5) split in \<open>auto simp: st1_def\<close>)
  have "pool_inv (free_block (fst (off d + sz b, sz d - sz b)) (snd (off d + sz b, sz d - sz b)) (st1 b d))
      (insert b ?L)"
  proof (rule pool_inv_free_list [OF placed])
    show "in_pool (unat (pool_end (st1 b d))) (free_span (off d + sz b, sz d - sz b))"
      using split by (simp add: st1_def cut szb)
    show "(\<Sum>s\<in>insert b ?L. covers (slot_block (ps_slots (st1 b d) ! s)) x)
        + covers (free_span (off d + sz b, sz d - sz b)) x
        + (\<Sum>b\<leftarrow>free_list (st1 b d). covers (free_span b) x)
        \<le> (if x < unat (pool_end (st1 b d)) then 1 else 0)" for x
      using total [of x] sum_place [OF _ notin assms(7), of "off d" x] D(1,2)
      by (simp add: st1_def szb)
  qed
  with placed show ?thesis
    by simp
qed


section \<open>One operation of the sweep\<close>

definition pending :: "nat list \<Rightarrow> nat \<Rightarrow> bool list \<Rightarrow> nat \<Rightarrow> nat set" where
  "pending dying cap consumed j =
     {dying ! i | i. j \<le> i \<and> i < length dying \<and> \<not> (i < cap \<and> consumed ! i)}"

definition placed :: "nat list \<Rightarrow> nat \<Rightarrow> bool list \<Rightarrow> nat set" where
  "placed born k assigned = {born ! i | i. i < k \<and> assigned ! i}"

lemma pending_consume:
  assumes "distinct dying" "d < cap" "cap \<le> length dying" "cap \<le> length c" "\<not> c ! d"
  shows "pending dying cap (c[d := True]) 0 = pending dying cap c 0 - {dying ! d}"
    and "dying ! d \<in> pending dying cap c 0"
  using assms by (auto simp: pending_def nth_list_update nth_eq_iff_index_eq)

lemma pending_Suc:
  assumes "distinct dying" "j < length dying"
  shows "pending dying cap c (Suc j)
    = (if j < cap \<and> c ! j then pending dying cap c j else pending dying cap c j - {dying ! j})"
  using assms
  by (auto simp: pending_def nth_eq_iff_index_eq Suc_le_eq) (metis le_neq_implies_less)+

lemma placed_Suc:
  "k < length a \<Longrightarrow> placed born (Suc k) (a[k := True]) = insert (born ! k) (placed born k a)"
  "\<not> a ! k \<Longrightarrow> placed born (Suc k) a = placed born k a"
  by (auto simp: placed_def nth_list_update less_Suc_eq)

lemma pending_done [simp]: "pending dying cap c (length dying) = {}"
  by (auto simp: pending_def)

lemma placed_none: "n \<le> MAX_PER_OP \<Longrightarrow> placed born n (replicate MAX_PER_OP False) = {}"
  by (auto simp: placed_def)

lemma pending_subset: "pending dying cap c j \<subseteq> set dying"
  by (auto simp: pending_def)

lemma placed_subset: "k \<le> length born \<Longrightarrow> placed born k a \<subseteq> set born"
  by (auto simp: placed_def)

text \<open>The hypotheses under which one operation is swept: the slots that die, the slots that are
  born and the slots \<^verbatim>\<open>R\<close> that stay are separate, and no size wraps when it is aligned.\<close>

definition sweep_ok :: "tensor_slot list \<Rightarrow> nat set \<Rightarrow> nat list \<Rightarrow> nat list \<Rightarrow> bool" where
  "sweep_ok slots R dying born \<longleftrightarrow>
     distinct dying \<and> distinct born \<and> set dying \<inter> set born = {} \<and>
     R \<inter> (set dying \<union> set born) = {} \<and> set born \<subseteq> {..<length slots} \<and>
     (\<forall>s \<in> set dying \<union> set born. fits_aligned (slots ! s))"

definition match_inv ::
  "plan_state \<Rightarrow> nat set \<Rightarrow> nat list \<Rightarrow> nat list \<Rightarrow> nat \<Rightarrow> nat \<Rightarrow> match_state \<Rightarrow> bool" where
  "match_inv st R dying born cap k ms \<longleftrightarrow>
     length (dying_consumed ms) = MAX_PER_OP \<and> length (born_assigned ms) = MAX_PER_OP \<and>
     (\<forall>i. k \<le> i \<longrightarrow> i < MAX_PER_OP \<longrightarrow> \<not> born_assigned ms ! i) \<and>
     frame (set born) (ps_slots st) (ps_slots (mt_plan ms)) \<and> pool_end (mt_plan ms) = pool_end st \<and>
     pool_inv (mt_plan ms)
       (R \<union> pending dying cap (dying_consumed ms) 0 \<union> placed born k (born_assigned ms))"

lemma match_step_inv:
  assumes ok: "sweep_ok (ps_slots st) R dying born" and inv: "match_inv st R dying born cap k ms"
    and cap: "cap \<le> length dying" "cap \<le> MAX_PER_OP" and k: "k < length born" "k < MAX_PER_OP"
    and live: "set dying \<subseteq> {..<length (ps_slots st)}"
  shows "match_inv st R dying born cap (Suc k)
    (match_step (dying_info (ps_slots st) (take cap dying)) cap born k ms)"
proof -
  let ?st = "mt_plan ms" and ?c = "dying_consumed ms" and ?a = "born_assigned ms" and ?b = "born ! k"
  let ?info = "dying_info (ps_slots st) (take cap dying)"
  let ?L = "R \<union> pending dying cap ?c 0 \<union> placed born k ?a"
  have fr: "frame (set born) (ps_slots st) (ps_slots ?st)" and pool: "pool_inv ?st ?L"
    and len: "length ?c = MAX_PER_OP" "length ?a = MAX_PER_OP" and "\<not> ?a ! k"
    using inv k by (auto simp: match_inv_def)
  have "?b \<in> set born"
    using k by simp
  then have b: "?b \<in> set born" "?b < length (ps_slots st)"
    using ok by (auto simp: sweep_ok_def)
  have bL: "?b \<notin> ?L"
    using ok k b pending_subset [of dying cap ?c 0]
    by (auto simp: sweep_ok_def placed_def nth_eq_iff_index_eq)
  show ?thesis
  proof (cases "best_match ?info ?c (align_up (nbytes (ps_slots ?st ! ?b))) [0..<cap] None (- 1)")
    case (Pair best w)
    show ?thesis
    proof (cases best)
      case None
      then show ?thesis
        using inv Pair \<open>\<not> ?a ! k\<close> by (auto simp: match_step_def match_inv_def placed_Suc(2))
    next
      case (Some d)
      have d: "d < cap" "\<not> ?c ! d" "align_up (nbytes (ps_slots ?st ! ?b)) \<le> fst (?info ! d)"
        "w = fst (?info ! d) - align_up (nbytes (ps_slots ?st ! ?b))"
        using best_match_Some [OF Pair [unfolded Some]] by auto
      let ?d = "dying ! d"
      have "?d \<in> set dying"
        using d(1) cap(1) by auto
      then have "ps_slots ?st ! ?d = ps_slots st ! ?d"
        using frame_outside [OF fr] ok live by (auto simp: sweep_ok_def)
      then have info: "?info ! d = (align_up (nbytes (ps_slots ?st ! ?d)), offset_bytes (ps_slots ?st ! ?d))"
        using d(1) cap(1) by (simp add: dying_info_def)
      note consume = pending_consume [of dying d cap ?c]
      have dL: "?d \<in> ?L" and dis: "distinct dying"
        using consume(2) ok d cap len by (auto simp: sweep_ok_def)
      have fits: "fits_aligned (ps_slots ?st ! ?d)" "fits_aligned (ps_slots ?st ! ?b)"
        using ok b \<open>?d \<in> set dying\<close> live frame_fields(5) [OF fr] by (auto simp: sweep_ok_def)
      have "pool_inv (mt_plan (match_step ?info cap born k ms)) (insert ?b (?L - {?d}))"
        using reuse_inv [OF pool dL bL _ fits] b d(3) frame_length [OF fr]
        by (simp add: match_step_def Pair Some info d(4) Let_def)
      moreover have "insert ?b (?L - {?d})
        = R \<union> pending dying cap (?c[d := True]) 0 \<union> placed born (Suc k) (?a[k := True])"
        using consume(1) [OF dis d(1) cap(1) _ d(2)] placed_Suc(1) [of k ?a born] ok \<open>?d \<in> set dying\<close>
          len cap k placed_subset [of k born ?a]
        by (auto simp: sweep_ok_def)
      moreover have "frame (set born) (ps_slots st) (ps_slots (mt_plan (match_step ?info cap born k ms)))"
        using frame_trans [OF fr frame_set_offset [of ?b]] b
        by (simp add: match_step_def Pair Some free_block_def Let_def insert_absorb)
      ultimately show ?thesis
        using inv len Some Pair
        by (auto simp: match_inv_def match_step_def free_block_def Let_def nth_list_update)
    qed
  qed
qed

lemma match_loop_inv:
  assumes "sweep_ok (ps_slots st) R dying born" "pool_inv st (R \<union> set dying)"
    and "cap \<le> length dying" "cap \<le> MAX_PER_OP" "n \<le> length born" "n \<le> MAX_PER_OP"
  shows "match_inv st R dying born cap n
    (fold (match_step (dying_info (ps_slots st) (take cap dying)) cap born) [0..<n]
       \<lparr>mt_plan = st, dying_consumed = replicate MAX_PER_OP False,
        born_assigned = replicate MAX_PER_OP False\<rparr>)"
proof (rule fold_upt_invariant)
  have "pending dying cap (replicate MAX_PER_OP False) 0 = set dying"
    using assms(4) by (auto simp: pending_def set_conv_nth)
  then show "match_inv st R dying born cap 0
    \<lparr>mt_plan = st, dying_consumed = replicate MAX_PER_OP False,
     born_assigned = replicate MAX_PER_OP False\<rparr>"
    using assms(2) by (simp add: match_inv_def placed_def)
  have "set dying \<subseteq> {..<length (ps_slots st)}"
    using pool_invD(2) [OF assms(2)] by blast
  then show "match_inv st R dying born cap (Suc i)
      (match_step (dying_info (ps_slots st) (take cap dying)) cap born i ms)"
    if "i < n" "match_inv st R dying born cap i ms" for i ms
    using match_step_inv [OF assms(1) that(2) assms(3,4)] that assms by simp
qed

lemma free_loop_inv:
  assumes ok: "sweep_ok slots R dying born" and fr: "frame (set born) slots (ps_slots st)"
    and pool: "pool_inv st (R \<union> pending dying cap c 0 \<union> P)" and P: "P \<subseteq> set born"
    and live: "set dying \<subseteq> {..<length slots}"
  shows "let st' = fold (free_step dying cap c) [0..<length dying] st
    in pool_inv st' (R \<union> P) \<and> ps_slots st' = ps_slots st \<and> pool_end st' = pool_end st"
proof -
  let ?Q = "\<lambda>j st'. pool_inv st' (R \<union> pending dying cap c j \<union> P) \<and> ps_slots st' = ps_slots st
    \<and> pool_end st' = pool_end st"
  have "?Q (length dying) (fold (free_step dying cap c) [0..<length dying] st)"
  proof (rule fold_upt_invariant [where P = ?Q])
    fix j st'
    assume j: "j < length dying" and Q: "?Q j st'"
    let ?d = "dying ! j"
    have dis: "distinct dying" and d: "?d \<in> set dying" "?d \<notin> R" "?d \<notin> P"
      using ok j P by (auto simp: sweep_ok_def dest: nth_mem)
    show "?Q (Suc j) (free_step dying cap c j st')"
    proof (cases "j < cap \<and> c ! j")
      case True
      then show ?thesis
        using Q pending_Suc [OF dis j, of cap c] by (simp add: free_step_def)
    next
      case False
      have "?d \<in> R \<union> pending dying cap c j \<union> P"
        using False j by (auto simp: pending_def)
      moreover have "fits_aligned (ps_slots st' ! ?d)"
        using Q frame_fields(5) [OF fr] d live ok by (auto simp: sweep_ok_def)
      ultimately have "pool_inv (free_step dying cap c j st') (R \<union> pending dying cap c j \<union> P - {?d})"
        using Q False free_block_inv [of st' "R \<union> pending dying cap c j \<union> P" ?d]
        by (auto simp: free_step_def)
      moreover have "R \<union> pending dying cap c j \<union> P - {?d} = R \<union> pending dying cap c (Suc j) \<union> P"
        using pending_Suc [OF dis j, of cap c] False d by auto
      ultimately show ?thesis
        using Q False by (auto simp: free_step_def free_block_def)
    qed
  qed (use pool in simp)
  then show ?thesis
    by (simp add: Let_def)
qed

lemma alloc_loop_inv:
  assumes ok: "sweep_ok slots R dying born" and fr: "frame (set born) slots (ps_slots st)"
    and pool: "pool_inv st (R \<union> placed born cap a)" and cap: "cap \<le> length born"
    and room: "unat (pool_end st) + (\<Sum>i<length born. aligned_size (unat (nbytes (slots ! (born ! i))))) < 2 ^ 64"
  shows "let st' = fold (alloc_step born cap a) [0..<length born] st
    in pool_inv st' (R \<union> set born) \<and> frame (set born) slots (ps_slots st')
       \<and> unat (pool_end st) \<le> unat (pool_end st')
       \<and> unat (pool_end st') \<le> unat (pool_end st)
            + (\<Sum>i<length born. aligned_size (unat (nbytes (slots ! (born ! i)))))"
proof -
  let ?sz = "\<lambda>i. aligned_size (unat (nbytes (slots ! (born ! i))))"
  let ?L = "\<lambda>j. R \<union> placed born cap a \<union> {born ! i | i. i < j}"
  let ?Q = "\<lambda>j st'. pool_inv st' (?L j) \<and> frame (set born) slots (ps_slots st')
    \<and> unat (pool_end st) \<le> unat (pool_end st') \<and> unat (pool_end st') \<le> unat (pool_end st) + (\<Sum>i<j. ?sz i)"
  have "?Q (length born) (fold (alloc_step born cap a) [0..<length born] st)"
  proof (rule fold_upt_invariant [where P = ?Q])
    fix j st'
    assume j: "j < length born" and Q: "?Q j st'"
    let ?b = "born ! j"
    have Suc: "?L (Suc j) = insert ?b (?L j)"
      by (auto simp: less_Suc_eq)
    have "?b \<in> set born" "?b < length slots" "?b \<notin> R" "fits_aligned (slots ! ?b)"
      using ok nth_mem [OF j] by (auto simp: sweep_ok_def)
    note b = this
    show "?Q (Suc j) (alloc_step born cap a j st')"
    proof (cases "j < cap \<and> a ! j")
      case True
      then have "?L (Suc j) = ?L j"
        unfolding Suc by (auto simp: placed_def)
      then show ?thesis
        using Q True by (simp add: alloc_step_def)
    next
      case False
      have notin: "?b \<notin> ?L j"
        using False b(3) ok j cap by (auto simp: placed_def sweep_ok_def nth_eq_iff_index_eq)
      have sz: "unat (align_up (nbytes (ps_slots st' ! ?b))) = ?sz j" "fits_aligned (ps_slots st' ! ?b)"
        using b Q frame_fields(1,5) [of "set born" slots "ps_slots st'" ?b]
        by (auto simp: unat_align_up)
      have "(\<Sum>i<Suc j. ?sz i) \<le> (\<Sum>i<length born. ?sz i)"
        using j by (intro sum_mono2) auto
      then have "unat (pool_end st') + unat (align_up (nbytes (ps_slots st' ! ?b))) < 2 ^ 64"
        using Q room sz by simp
      note step = alloc_slot_inv [OF _ notin _ sz(2) this]
      show ?thesis
        using Q False step sz b frame_length [of "set born" slots "ps_slots st'"]
          frame_trans [of "set born" slots "ps_slots st'" "{?b}"]
        unfolding Suc by (auto simp: alloc_step_def insert_absorb)
    qed
  qed (use pool fr in simp)
  moreover have "?L (length born) = R \<union> set born"
    using placed_subset [OF cap, of a] by (auto simp: set_conv_nth)
  ultimately show ?thesis
    by (simp add: Let_def)
qed

lemma sweep_op_inv:
  assumes ok: "sweep_ok (ps_slots st) R dying born" and pool: "pool_inv st (R \<union> set dying)"
    and room: "unat (pool_end st)
      + (\<Sum>i<length born. aligned_size (unat (nbytes (ps_slots st ! (born ! i))))) < 2 ^ 64"
  shows "let st' = sweep_op dying born st
    in pool_inv st' (R \<union> set born) \<and> frame (set born) (ps_slots st) (ps_slots st')
       \<and> unat (pool_end st) \<le> unat (pool_end st')
       \<and> unat (pool_end st') \<le> unat (pool_end st)
            + (\<Sum>i<length born. aligned_size (unat (nbytes (ps_slots st ! (born ! i)))))"
proof -
  let ?dc = "min (length dying) MAX_PER_OP" and ?bc = "min (length born) MAX_PER_OP"
  define ms where "ms = (let ms0 = \<lparr>mt_plan = st, dying_consumed = replicate MAX_PER_OP False,
                born_assigned = replicate MAX_PER_OP False\<rparr> in
    if ?dc > 0 \<and> ?bc > 0
    then fold (match_step (dying_info (ps_slots st) (take ?dc dying)) ?dc born) [0..<?bc] ms0 else ms0)"
  have live: "set dying \<subseteq> {..<length (ps_slots st)}"
    using pool_invD(2) [OF pool] by blast
  have pend: "pending dying ?dc (replicate MAX_PER_OP False) 0 = set dying"
    by (auto simp: pending_def set_conv_nth)
  have m: "match_inv st R dying born ?dc ?bc ms"
  proof (cases "?dc > 0 \<and> ?bc > 0")
    case True
    then show ?thesis
      unfolding ms_def Let_def using match_loop_inv [OF ok pool, of ?dc ?bc] by simp
  next
    case False
    then have "ms = \<lparr>mt_plan = st, dying_consumed = replicate MAX_PER_OP False,
        born_assigned = replicate MAX_PER_OP False\<rparr>"
      unfolding ms_def Let_def by argo
    then show ?thesis
      using pool pend by (simp add: match_inv_def placed_none)
  qed
  define st1 where "st1 = fold (free_step dying ?dc (dying_consumed ms)) [0..<length dying] (mt_plan ms)"
  have st1: "pool_inv st1 (R \<union> placed born ?bc (born_assigned ms))"
    "ps_slots st1 = ps_slots (mt_plan ms)" "pool_end st1 = pool_end st"
    using free_loop_inv [OF ok, of "mt_plan ms" ?dc "dying_consumed ms" "placed born ?bc (born_assigned ms)"]
      m live placed_subset [of ?bc born] by (auto simp: match_inv_def st1_def Let_def)
  moreover have "sweep_op dying born st = fold (alloc_step born ?bc (born_assigned ms)) [0..<length born] st1"
    by (simp add: sweep_op_def ms_def st1_def Let_def)
  ultimately show ?thesis
    using alloc_loop_inv [OF ok, of st1 ?bc "born_assigned ms"] m room
    by (simp add: match_inv_def)
qed


section \<open>The whole sweep\<close>

definition internal :: "tensor_slot list \<Rightarrow> nat \<Rightarrow> bool" where
  "internal slots s \<longleftrightarrow> s < length slots \<and> \<not> is_external (slots ! s)"

definition live_at :: "tensor_slot list \<Rightarrow> nat \<Rightarrow> nat set" where
  "live_at slots t = {s. internal slots s \<and> birth_op (slots ! s) \<le> t \<and> t \<le> death_op (slots ! s)}"

definition born_before :: "tensor_slot list \<Rightarrow> nat \<Rightarrow> nat set" where
  "born_before slots t = {s. internal slots s \<and> birth_op (slots ! s) < t}"

definition slot_size :: "tensor_slot list \<Rightarrow> nat \<Rightarrow> nat" where
  "slot_size slots s = aligned_size (unat (nbytes (slots ! s)))"

definition aligned_total :: "tensor_slot list \<Rightarrow> nat" where
  "aligned_total slots = (\<Sum>s | internal slots s. slot_size slots s)"

definition placed_well :: "plan_state \<Rightarrow> nat set \<Rightarrow> bool" where
  "placed_well st L \<longleftrightarrow>
     (\<forall>s \<in> L. in_pool (unat (pool_end st)) (slot_block (ps_slots st ! s))) \<and>
     (\<forall>x. (\<Sum>s\<in>L. covers (slot_block (ps_slots st ! s)) x) \<le> 1)"

definition sweep_inv :: "tensor_slot list \<Rightarrow> nat \<Rightarrow> plan_state \<Rightarrow> bool" where
  "sweep_inv slots op st \<longleftrightarrow>
     frame (born_before slots op) slots (ps_slots st) \<and>
     pool_inv st {s \<in> born_before slots op. op \<le> free_at (slots ! s)} \<and>
     unat (pool_end st) \<le> (\<Sum>s\<in>born_before slots op. slot_size slots s) \<and>
     (\<forall>t < op. placed_well st (live_at slots t))"

lemma finite_internal [simp]: "finite {s. internal slots s}"
  by (rule finite_subset [of _ "{..<length slots}"]) (auto simp: internal_def)

lemma finite_born_before [simp]: "finite (born_before slots op)"
  by (rule finite_subset [OF _ finite_internal [of slots]]) (auto simp: born_before_def)

lemma placed_well_pool:
  assumes "pool_inv st L"
  shows "placed_well st L"
proof -
  note D = pool_invD [OF assms]
  have "(\<Sum>s\<in>L. covers (slot_block (ps_slots st ! s)) x) \<le> 1" for x
    using D(6) [of x] by (auto split: if_splits)
  then show ?thesis
    using D(4) by (simp add: placed_well_def)
qed

lemma placed_well_frame:
  assumes "placed_well st L" "frame B (ps_slots st) (ps_slots st')" "L \<inter> B = {}"
    "L \<subseteq> {..<length (ps_slots st)}" "unat (pool_end st) \<le> unat (pool_end st')"
  shows "placed_well st' L"
proof -
  have same: "\<forall>s\<in>L. ps_slots st' ! s = ps_slots st ! s"
    using assms by (auto intro!: frame_outside)
  then have "(\<Sum>s\<in>L. covers (slot_block (ps_slots st' ! s)) x)
      = (\<Sum>s\<in>L. covers (slot_block (ps_slots st ! s)) x)" for x
    by (intro sum.cong) auto
  then show ?thesis
    using assms same by (auto simp: placed_well_def intro: in_pool_mono)
qed

lemma set_slots_with: "set (slots_with key slots op) = {s. internal slots s \<and> key (slots ! s) = op}"
  by (auto simp: slots_with_def internal_def)

lemma distinct_slots_with [simp]: "distinct (slots_with key slots op)"
  by (simp add: slots_with_def)

definition bad_lifetime :: "tensor_slot \<Rightarrow> bool" where
  "bad_lifetime s \<longleftrightarrow> \<not> is_external s \<and> (death_op s < birth_op s \<or> MAX_DEATH_OP < death_op s)"

definition lifetimes_ok :: "tensor_slot list \<Rightarrow> bool" where
  "lifetimes_ok slots \<longleftrightarrow> (\<forall>s. internal slots s \<longrightarrow> birth_op (slots ! s) \<le> death_op (slots ! s))"

lemma sum_born:
  assumes "frame B slots slots'" "set born \<subseteq> {..<length slots}" "distinct born"
  shows "(\<Sum>i<length born. aligned_size (unat (nbytes (slots' ! (born ! i)))))
    = (\<Sum>s\<in>set born. slot_size slots s)"
proof -
  have "(\<Sum>i<length born. aligned_size (unat (nbytes (slots' ! (born ! i)))))
    = (\<Sum>i<length born. slot_size slots (born ! i))"
    using assms(2) frame_fields(1) [OF assms(1)]
    by (intro sum.cong) (auto simp: slot_size_def subset_iff)
  also have "\<dots> = sum_list (map (slot_size slots) born)"
    by (simp add: sum_list_sum_nth atLeast0LessThan)
  also have "\<dots> = (\<Sum>s\<in>set born. slot_size slots s)"
    using assms(3) by (simp add: sum_list_distinct_conv_sum_set)
  finally show ?thesis .
qed

lemma sweep_inv_step:
  assumes inv: "sweep_inv slots op st" and life: "lifetimes_ok slots" and fit: "aligned_total slots < 2 ^ 64"
  shows "sweep_inv slots (Suc op)
    (sweep_op (slots_with free_at slots op) (slots_with birth_op slots op) st)"
proof -
  let ?D = "slots_with free_at slots op" and ?B = "slots_with birth_op slots op"
  let ?R = "{s \<in> born_before slots op. op < free_at (slots ! s)}"
  let ?st = "sweep_op ?D ?B st"
  have fr: "frame (born_before slots op) slots (ps_slots st)"
    and E: "unat (pool_end st) \<le> (\<Sum>s\<in>born_before slots op. slot_size slots s)"
    and before: "\<forall>t < op. placed_well st (live_at slots t)"
    using inv by (auto simp: sweep_inv_def)
  have split: "?R \<union> set ?D = {s \<in> born_before slots op. op \<le> free_at (slots ! s)}"
    using life by (fastforce simp: set_slots_with born_before_def free_at_def lifetimes_ok_def)
  have next_live: "?R \<union> set ?B = {s \<in> born_before slots (Suc op). Suc op \<le> free_at (slots ! s)}"
    "?R \<union> set ?B = live_at slots op"
    using life by (fastforce simp: set_slots_with born_before_def free_at_def lifetimes_ok_def live_at_def)+
  have born: "born_before slots (Suc op) = born_before slots op \<union> set ?B"
    "born_before slots op \<inter> set ?B = {}"
    by (auto simp: born_before_def set_slots_with)
  have "slot_size slots s < 2 ^ 64" if "internal slots s" for s
    using member_le_sum [of s "{s. internal slots s}" "slot_size slots"] that fit
    by (simp add: aligned_total_def)
  then have fits: "fits_aligned (ps_slots st ! s)" if "internal slots s" for s
    using that frame_fields(5) [OF fr, of s] by (simp add: fits_aligned_def slot_size_def internal_def)
  have ok: "sweep_ok (ps_slots st) ?R ?D ?B"
    using life fits frame_length [OF fr]
    by (auto simp: sweep_ok_def set_slots_with free_at_def lifetimes_ok_def born_before_def internal_def)
  have sum: "(\<Sum>i<length ?B. aligned_size (unat (nbytes (ps_slots st ! (?B ! i)))))
      = (\<Sum>s\<in>set ?B. slot_size slots s)"
    by (rule sum_born [OF fr]) (auto simp: set_slots_with internal_def)
  have total: "(\<Sum>s\<in>born_before slots op. slot_size slots s) + (\<Sum>s\<in>set ?B. slot_size slots s)
      = (\<Sum>s\<in>born_before slots (Suc op). slot_size slots s)"
    unfolding born(1) using born(2) by (intro sum.union_disjoint [symmetric]) simp_all
  have "(\<Sum>s\<in>born_before slots (Suc op). slot_size slots s) \<le> aligned_total slots"
    unfolding aligned_total_def by (intro sum_mono2) (auto simp: born_before_def)
  then have step: "pool_inv ?st (?R \<union> set ?B)" "frame (set ?B) (ps_slots st) (ps_slots ?st)"
    "unat (pool_end st) \<le> unat (pool_end ?st)"
    "unat (pool_end ?st) \<le> (\<Sum>s\<in>born_before slots (Suc op). slot_size slots s)"
    using sweep_op_inv [OF ok, unfolded split sum] inv fit E total
    by (auto simp: sweep_inv_def Let_def)
  have "placed_well ?st (live_at slots t)" if "t < Suc op" for t
  proof (cases "t = op")
    case True
    then show ?thesis
      using placed_well_pool [OF step(1)] next_live(2) by simp
  next
    case False
    then have "placed_well st (live_at slots t)" "live_at slots t \<inter> set ?B = {}"
      using before that by (auto simp: live_at_def set_slots_with)
    then show ?thesis
      using placed_well_frame [OF _ step(2) _ _ step(3)] frame_length [OF fr]
      by (auto simp: live_at_def internal_def)
  qed
  then show ?thesis
    using step frame_trans [OF fr step(2)] next_live(1) born(1) by (simp add: sweep_inv_def)
qed

lemma scan_slots_ok:
  "scan_slots slots acc = ok sc \<Longrightarrow>
     (\<forall>s \<in> set slots. \<not> is_external s \<longrightarrow> birth_op s \<le> death_op s \<and> free_at s \<le> sc_max_op sc)
     \<and> sc_max_op acc \<le> sc_max_op sc
     \<and> sc_external sc = sc_external acc + length (filter is_external slots)"
proof (induction slots arbitrary: acc)
  case (Cons s ss)
  have "free_at s \<le> sc_max_op (scan_internal s acc)" "sc_max_op acc \<le> sc_max_op (scan_internal s acc)"
    "sc_external (scan_internal s acc) = sc_external acc"
    by (simp_all add: scan_internal_def free_at_def Let_def)
  then show ?case
    using Cons.IH [of "scan_internal s acc"] Cons.IH [of "acc\<lparr>sc_external := sc_external acc + 1\<rparr>"] Cons.prems
    by (auto split: if_splits)
qed simp

lemma scan_slots_fails:
  "(scan_slots slots acc = fail e \<longrightarrow> e = Fatal_invariant \<and> list_ex bad_lifetime slots)
   \<and> (scan_slots slots acc = ok sc \<longrightarrow> \<not> list_ex bad_lifetime slots)"
  by (induction slots acc rule: scan_slots.induct) (auto simp: bad_lifetime_def split: if_splits)

lemma length_internal:
  "length (filter (\<lambda>s. \<not> is_external s) slots) = length slots - length (filter is_external slots)"
  using sum_length_filter_compl [of is_external slots] by simp

lemma sweep_buckets:
  assumes "length (filter (\<lambda>s. \<not> is_external s) slots) \<le> len"
  shows "fold (\<lambda>op. sweep_op
        (bucket (bucket_offsets 0 (bucket_counts free_at slots (replicate n 0)))
           (scatter free_at slots 0 (take n (bucket_offsets 0 (bucket_counts free_at slots (replicate n 0))))
             (replicate len 0)) op)
        (bucket (bucket_offsets 0 (bucket_counts birth_op slots (replicate n 0)))
           (scatter birth_op slots 0 (take n (bucket_offsets 0 (bucket_counts birth_op slots (replicate n 0))))
             (replicate len 0)) op)) [0..<n]
     = fold (\<lambda>op. sweep_op (slots_with free_at slots op) (slots_with birth_op slots op)) [0..<n]"
  using assms by (intro fold_cong ext) (auto simp: bucket_reference)

text \<open>What the planner returns: either the slots unchanged, when none is internal, or the result of
  sweeping the reference buckets.\<close>

lemma compute_memory_plan_cases:
  assumes "compute_memory_plan cap r w slots = ok plan"
  obtains (trivial) "\<And>s. \<not> internal slots s" "mp_slots plan = slots" "pool_bytes plan = 0"
    | (swept) n where "lifetimes_ok slots" "\<And>s. internal slots s \<Longrightarrow> free_at (slots ! s) < n"
        "mp_slots plan = ps_slots (fold (\<lambda>op. sweep_op (slots_with free_at slots op) (slots_with birth_op slots op))
           [0..<n] \<lparr>ps_slots = slots, free_list = [], pool_end = 0\<rparr>)"
        "pool_bytes plan = pool_end (fold (\<lambda>op. sweep_op (slots_with free_at slots op) (slots_with birth_op slots op))
           [0..<n] \<lparr>ps_slots = slots, free_list = [], pool_end = 0\<rparr>)"
proof (cases "scan_slots slots \<lparr>sc_external = 0, sc_max_op = 0, sc_device_type = DT_CPU, sc_device_idx = - 1\<rparr>")
  case (Inl e)
  then have "slots = []"
    using assms by (auto simp: compute_memory_plan_def Let_def split: if_splits)
  then show ?thesis
    using assms trivial by (auto simp: compute_memory_plan_def internal_def)
next
  case (Inr sc)
  note scan = scan_slots_ok [OF Inr]
  let ?len = "length slots - sc_external sc" and ?n = "Suc (sc_max_op sc)"
  have len: "length (filter (\<lambda>s. \<not> is_external s) slots) = ?len"
    using scan by (simp add: length_internal)
  show ?thesis
  proof (cases "?len = 0")
    case True
    then have "\<not> internal slots s" for s
      using len by (auto simp: internal_def filter_empty_conv)
    then show ?thesis
      using assms Inr True trivial by (auto simp: compute_memory_plan_def Let_def split: if_splits)
  next
    case False
    note buckets = sweep_buckets [OF eq_refl [OF len], of ?n]
    have "lifetimes_ok slots" "\<And>s. internal slots s \<Longrightarrow> free_at (slots ! s) < ?n"
      using scan by (auto simp: lifetimes_ok_def internal_def less_Suc_eq_le)
    then show ?thesis
      using assms Inr False swept [of ?n]
      by (auto simp: compute_memory_plan_def Let_def buckets simp del: upt_Suc replicate_Suc split: if_splits)
  qed
qed

lemma sweep_inv_start: "sweep_inv slots 0 \<lparr>ps_slots = slots, free_list = [], pool_end = 0\<rparr>"
  by (simp add: sweep_inv_def born_before_def pool_inv_def)

lemma compute_memory_plan_sound:
  assumes "compute_memory_plan cap r w slots = ok plan" "aligned_total slots < 2 ^ 64"
  shows "frame {s. internal slots s} slots (mp_slots plan)"
    and "unat (pool_bytes plan) \<le> aligned_total slots"
    and "placed_well \<lparr>ps_slots = mp_slots plan, free_list = [], pool_end = pool_bytes plan\<rparr> (live_at slots t)"
proof -
  have "frame {s. internal slots s} slots (mp_slots plan) \<and> unat (pool_bytes plan) \<le> aligned_total slots \<and>
     placed_well \<lparr>ps_slots = mp_slots plan, free_list = [], pool_end = pool_bytes plan\<rparr> (live_at slots t)"
    using assms(1)
  proof (cases rule: compute_memory_plan_cases)
    case trivial
    then show ?thesis
      by (simp add: live_at_def placed_well_def)
  next
    case (swept n)
    let ?st = "fold (\<lambda>op. sweep_op (slots_with free_at slots op) (slots_with birth_op slots op))
       [0..<n] \<lparr>ps_slots = slots, free_list = [], pool_end = 0\<rparr>"
    have inv: "sweep_inv slots n ?st"
      by (rule fold_upt_invariant [where P = "sweep_inv slots", OF sweep_inv_start]) (rule sweep_inv_step [OF _ swept(1) assms(2)])
    have "live_at slots t = {}" if "n \<le> t"
      using that swept(2) by (fastforce simp: live_at_def free_at_def)
    then have "placed_well ?st (live_at slots t)"
      using inv by (cases "t < n") (auto simp: sweep_inv_def placed_well_def)
    moreover have "born_before slots n \<subseteq> {s. internal slots s}"
      by (auto simp: born_before_def)
    ultimately show ?thesis
      using inv swept(3,4) frame_mono
        sum_mono2 [of "{s. internal slots s}" "born_before slots n" "slot_size slots"]
      by (auto simp: sweep_inv_def placed_well_def aligned_total_def intro: order_trans)
  qed
  then show "frame {s. internal slots s} slots (mp_slots plan)"
    "unat (pool_bytes plan) \<le> aligned_total slots"
    "placed_well \<lparr>ps_slots = mp_slots plan, free_list = [], pool_end = pool_bytes plan\<rparr> (live_at slots t)"
    by blast+
qed


section \<open>The checker accepts the plan\<close>

abbreviation live_slot :: "nat \<Rightarrow> tensor_slot \<Rightarrow> bool" where
  "live_slot t s \<equiv> \<not> is_external s \<and> birth_op s \<le> t \<and> t \<le> death_op s"

abbreviation slot_interval :: "tensor_slot \<Rightarrow> u64 \<times> u64" where
  "slot_interval s \<equiv> (offset_bytes s, offset_bytes s + nbytes s)"

lemma collect_live_Some:
  "(\<forall>s \<in> set ss. live_slot t s \<longrightarrow> no_overflow_sum (offset_bytes s) (nbytes s)) \<Longrightarrow>
   length acc + length (filter (live_slot t) ss) \<le> max_live \<Longrightarrow>
   collect_live max_live t ss acc = Some (acc @ map slot_interval (filter (live_slot t) ss))"
proof (induction ss arbitrary: acc)
  case (Cons s ss)
  show ?case
  proof (cases "live_slot t s")
    case True
    then show ?thesis
      using Cons.IH [of "acc @ [slot_interval s]"] Cons.prems by simp
  next
    case False
    then show ?thesis
      using Cons.IH [of acc] Cons.prems by auto
  qed
qed simp

lemma pairs_disjoint_sorted_wrt: "pairs_disjoint ivs \<longleftrightarrow> sorted_wrt interval_pair_disjoint ivs"
  by (induction ivs) (auto simp: list_all_iff)

lemma pairs_disjoint_live:
  assumes "\<And>i j. i < j \<Longrightarrow> j < length slots \<Longrightarrow> live_slot t (slots ! i) \<Longrightarrow> live_slot t (slots ! j)
    \<Longrightarrow> interval_pair_disjoint (slot_interval (slots ! i)) (slot_interval (slots ! j))"
  shows "pairs_disjoint (map slot_interval (filter (live_slot t) slots))"
proof -
  have "sorted_wrt (\<lambda>a b. live_slot t a \<longrightarrow> live_slot t b
      \<longrightarrow> interval_pair_disjoint (slot_interval a) (slot_interval b)) slots"
    using assms by (auto simp: sorted_wrt_iff_nth_less)
  then have "sorted_wrt (\<lambda>a b. live_slot t a \<longrightarrow> live_slot t b
      \<longrightarrow> interval_pair_disjoint (slot_interval a) (slot_interval b)) (filter (live_slot t) slots)"
    by (rule sorted_wrt_filter)
  then show ?thesis
    unfolding pairs_disjoint_sorted_wrt sorted_wrt_map
    by (rule sorted_wrt_mono_rel [rotated]) auto
qed

lemma placed_well_disjoint:
  assumes "placed_well st L" "finite L" "i \<in> L" "j \<in> L" "i \<noteq> j"
  shows "covers (slot_block (ps_slots st ! i)) x + covers (slot_block (ps_slots st ! j)) x \<le> 1"
proof -
  have "(\<Sum>s\<in>{i, j}. covers (slot_block (ps_slots st ! s)) x)
      \<le> (\<Sum>s\<in>L. covers (slot_block (ps_slots st ! s)) x)"
    using assms by (intro sum_mono2) auto
  also have "\<dots> \<le> 1"
    using assms(1) by (simp add: placed_well_def)
  finally show ?thesis
    using assms(5) by simp
qed

lemma covers_disjoint:
  assumes "\<And>x. covers (k, n) x + covers (l, m) x \<le> Suc 0" "n' \<le> n" "m' \<le> m"
  shows "n' = 0 \<or> m' = 0 \<or> k + n' \<le> l \<or> l + m' \<le> k"
  using assms(1) [of "max k l"] assms(2,3) by (auto simp: covers_def split: if_splits)

lemma live_at_frame:
  assumes "frame {s. internal slots s} slots slots'"
  shows "i < length slots' \<Longrightarrow> live_slot t (slots' ! i) \<longleftrightarrow> i \<in> live_at slots t"
  using frame_fields [OF assms, of i] frame_length [OF assms] by (auto simp: live_at_def internal_def)

lemma finite_live_at [simp]: "finite (live_at slots t)"
  by (rule finite_subset [OF _ finite_internal [of slots]]) (auto simp: live_at_def)

lemma live_interval_unat:
  assumes "placed_well \<lparr>ps_slots = slots, free_list = [], pool_end = e\<rparr> L" "i \<in> L"
  shows "unat (offset_bytes (slots ! i)) + unat (nbytes (slots ! i)) \<le> unat e"
    and "256 dvd unat (offset_bytes (slots ! i))"
    and "unat (offset_bytes (slots ! i)) + unat (nbytes (slots ! i)) < 2 ^ 64"
    and "unat (offset_bytes (slots ! i) + nbytes (slots ! i))
       = unat (offset_bytes (slots ! i)) + unat (nbytes (slots ! i))"
proof -
  have pool: "in_pool (unat e) (slot_block (slots ! i))"
    using assms by (simp add: placed_well_def)
  then show le: "unat (offset_bytes (slots ! i)) + unat (nbytes (slots ! i)) \<le> unat e"
    "256 dvd unat (offset_bytes (slots ! i))"
    using aligned_size_ge [of "unat (nbytes (slots ! i))"] by (auto simp: in_pool_def slot_block_def)
  then show lt: "unat (offset_bytes (slots ! i)) + unat (nbytes (slots ! i)) < 2 ^ 64"
    using unat_lt_pow [of e] by simp
  then show "unat (offset_bytes (slots ! i) + nbytes (slots ! i))
     = unat (offset_bytes (slots ! i)) + unat (nbytes (slots ! i))"
    by (simp add: word_arith)
qed

lemma sample_plan: "\<exists>plan. compute_memory_plan 0 (- 1) 0 sample_slots = ok plan"
  by (simp add: compute_memory_plan_def sample_slots_def MAX_DEATH_OP_def scan_internal_def Let_def)

lemma sample_total_small: "aligned_total sample_slots \<le> 2304"
proof -
  have "{s. internal sample_slots s} \<subseteq> {0, 1, 2}"
    by (auto simp: internal_def sample_slots_def)
  then have "aligned_total sample_slots \<le> (\<Sum>s\<in>{0, 1, 2}. slot_size sample_slots s)"
    unfolding aligned_total_def by (intro sum_mono2) auto
  then show ?thesis
    by (simp add: slot_size_def sample_slots_def aligned_size_def)
qed

lemma sample_total: "aligned_total sample_slots < 2 ^ 64"
  using sample_total_small by simp

lemma sample_slot_2:
  "2 < length sample_slots" "\<not> is_external (sample_slots ! 2)" "unat (nbytes (sample_slots ! 2)) = 600"
  by (simp_all add: sample_slots_def)

text \<open>C1.  The planner never overlaps live tensors: whenever it returns a plan and the aligned
  sizes of the internal slots add up to less than $2^{64}$, the runtime's own checker accepts the
  plan at every operation, for every buffer size that can hold the live set.\<close>

theorem plan_live_disjoint:
  assumes "compute_memory_plan cap r w slots = ok plan" "aligned_total slots < 2 ^ 64"
    and "card (live_at slots t) \<le> max_live"
  shows "live_intervals_disjoint_at max_live (mp_slots plan) t"
proof -
  let ?ss = "mp_slots plan"
  note sound = compute_memory_plan_sound [OF assms(1,2)]
  note live = live_at_frame [OF sound(1), of _ t] and pw = sound(3) [of t]
  have L: "{i. i < length ?ss \<and> live_slot t (?ss ! i)} = live_at slots t"
    using live frame_length [OF sound(1)] by (auto simp: live_at_def internal_def)
  have "length (filter (live_slot t) ?ss) \<le> max_live"
    using assms(3) L by (simp add: length_filter_conv_card)
  moreover have no_ov: "\<forall>s \<in> set ?ss. live_slot t s \<longrightarrow> no_overflow_sum (offset_bytes s) (nbytes s)"
  proof (intro ballI impI)
    fix s
    assume "s \<in> set ?ss" "live_slot t s"
    then obtain i where "i \<in> live_at slots t" "?ss ! i = s"
      using live by (metis in_set_conv_nth)
    then show "no_overflow_sum (offset_bytes s) (nbytes s)"
      using live_interval_unat(3) [OF pw, of i] by (simp add: no_overflow_sum_def)
  qed
  ultimately have "collect_live max_live t ?ss [] = Some (map slot_interval (filter (live_slot t) ?ss))"
    using collect_live_Some [of ?ss t "[]" max_live] by simp
  moreover have "interval_pair_disjoint (slot_interval (?ss ! i)) (slot_interval (?ss ! j))"
    if "i < j" "j < length ?ss" "live_slot t (?ss ! i)" "live_slot t (?ss ! j)" for i j
  proof -
    have ij: "i \<in> live_at slots t" "j \<in> live_at slots t" "i \<noteq> j"
      using that live by auto
    note I = live_interval_unat [OF pw ij(1)] and J = live_interval_unat [OF pw ij(2)]
    show ?thesis
      using covers_disjoint [OF placed_well_disjoint [OF pw finite_live_at ij, simplified, unfolded slot_block_def]
          aligned_size_ge aligned_size_ge] I(4) J(4)
      by (auto simp: interval_pair_disjoint_def word_le_nat_alt unat_eq_zero)
  qed
  then have "pairs_disjoint (map slot_interval (filter (live_slot t) ?ss))"
    by (rule pairs_disjoint_live)
  moreover have "list_all (\<lambda>iv. \<not> fst iv > snd iv) (map slot_interval (filter (live_slot t) ?ss))"
    using no_ov by (auto simp: list_all_iff not_less word_le_nat_alt no_overflow_sum_def word_arith)
  ultimately show ?thesis
    by (simp add: live_intervals_disjoint_at_def intervals_pairwise_disjoint_def)
qed

theorem plan_live_disjoint_witness:
  "\<exists>plan. compute_memory_plan 0 (- 1) 0 sample_slots = ok plan \<and> aligned_total sample_slots < 2 ^ 64
     \<and> card (live_at sample_slots 1) \<le> 4 \<and> live_intervals_disjoint_at 4 (mp_slots plan) 1"
proof -
  obtain plan where plan: "compute_memory_plan 0 (- 1) 0 sample_slots = ok plan"
    using sample_plan by blast
  note total = sample_total
  have "live_at sample_slots 1 \<subseteq> {0, 1, 2}"
    by (auto simp: live_at_def internal_def sample_slots_def)
  then have "card (live_at sample_slots 1) \<le> card {0, 1, 2 :: nat}"
    by (intro card_mono) simp_all
  then have card: "card (live_at sample_slots 1) \<le> 4"
    by simp
  show ?thesis
    using plan_live_disjoint [OF plan total card] plan total card by blast
qed

lemma plan_slot_placed:
  assumes "compute_memory_plan cap r w slots = ok plan" "aligned_total slots < 2 ^ 64" "internal slots i"
  shows "256 dvd unat (offset_bytes (mp_slots plan ! i))
      \<and> unat (offset_bytes (mp_slots plan ! i)) + unat (nbytes (slots ! i)) \<le> unat (pool_bytes plan)"
proof -
  note sound = compute_memory_plan_sound [OF assms(1,2)]
  have "lifetimes_ok slots"
    using assms(1,3) by (cases rule: compute_memory_plan_cases) auto
  then have "i \<in> live_at slots (birth_op (slots ! i))"
    using assms(3) by (auto simp: live_at_def lifetimes_ok_def)
  note live_interval_unat [OF sound(3) this]
  then show ?thesis
    using frame_fields(1) [OF sound(1), of i] assms(3) by (simp add: internal_def)
qed

text \<open>The sweep touches nothing but offsets of born slots, whatever the byte counts are.\<close>

lemma fold_frame:
  assumes "\<And>x st. x \<in> set xs \<Longrightarrow> frame B (proj st) (proj (f x st))"
  shows "frame B (proj st) (proj (fold f xs st))"
  using assms
proof (induction xs arbitrary: st)
  case (Cons x xs)
  then show ?case
    using frame_trans [of B "proj st" "proj (f x st)" B "proj (fold f xs (f x st))"] by simp
qed simp

lemma match_step_frame:
  "k < length born \<Longrightarrow> frame (set born) (ps_slots (mt_plan ms)) (ps_slots (mt_plan (match_step info cap born k ms)))"
  using frame_mono [OF frame_set_offset [of "born ! k"], of "set born"]
  by (auto simp: match_step_def free_block_def Let_def split: prod.splits option.splits)

lemma free_step_slots [simp]: "ps_slots (free_step dying cap consumed i st) = ps_slots st"
  by (simp add: free_step_def free_block_def)

lemma alloc_step_frame:
  "k < length born \<Longrightarrow> frame (set born) (ps_slots st) (ps_slots (alloc_step born cap assigned k st))"
  using frame_mono [OF frame_set_offset [of "born ! k"], of "set born"]
  by (auto simp: alloc_step_def alloc_slot_def Let_def split: prod.splits option.splits)

lemma match_fold_frame:
  "n \<le> length born \<Longrightarrow>
     frame (set born) (ps_slots (mt_plan ms)) (ps_slots (mt_plan (fold (match_step info cap born) [0..<n] ms)))"
  by (rule fold_frame [where proj = "\<lambda>ms. ps_slots (mt_plan ms)"]) (simp add: match_step_frame)

lemma alloc_fold_frame:
  "frame (set born) (ps_slots st) (ps_slots (fold (alloc_step born cap assigned) [0..<length born] st))"
  by (rule fold_frame [where proj = ps_slots]) (simp add: alloc_step_frame)

lemma free_fold_slots [simp]: "ps_slots (fold (free_step dying cap consumed) xs st) = ps_slots st"
  by (induction xs arbitrary: st) auto

lemma sweep_op_frame: "frame (set born) (ps_slots st) (ps_slots (sweep_op dying born st))"
proof -
  define ms0 where "ms0 = \<lparr>mt_plan = st, dying_consumed = replicate MAX_PER_OP False,
      born_assigned = replicate MAX_PER_OP False\<rparr>"
  let ?cap = "min (length dying) MAX_PER_OP" and ?n = "min (length born) MAX_PER_OP"
  define ms where "ms = (if ?cap > 0 \<and> ?n > 0
      then fold (match_step (dying_info (ps_slots st) (take ?cap dying)) ?cap born) [0..<?n] ms0 else ms0)"
  have "frame (set born) (ps_slots st) (ps_slots (mt_plan ms))"
    using match_fold_frame [of ?n born ms0] by (simp add: ms_def ms0_def)
  moreover have "frame (set born) (ps_slots (mt_plan ms)) (ps_slots (sweep_op dying born st))"
    unfolding sweep_op_def Let_def ms0_def [symmetric] ms_def [symmetric]
    using alloc_fold_frame [of born "fold (free_step dying ?cap (dying_consumed ms)) [0..<length dying] (mt_plan ms)"]
    by simp
  ultimately show ?thesis
    using frame_trans [of "set born" _ _ "set born"] by fastforce
qed

lemma compute_memory_plan_frame:
  assumes "compute_memory_plan cap r w slots = ok plan"
  shows "frame {s. internal slots s} slots (mp_slots plan)"
  using assms
proof (cases rule: compute_memory_plan_cases)
  case (swept n)
  have "frame {s. internal slots s} (ps_slots st) (ps_slots (sweep_op (slots_with free_at slots op) (slots_with birth_op slots op) st))"
    for op st
    by (rule frame_mono [OF sweep_op_frame]) (auto simp: slots_with_def internal_def)
  then have "frame {s. internal slots s} (ps_slots st) (ps_slots
      (fold (\<lambda>op. sweep_op (slots_with free_at slots op) (slots_with birth_op slots op)) [0..<n] st))" for st
    by (rule fold_frame [where proj = ps_slots])
  from this [of "\<lparr>ps_slots = slots, free_list = [], pool_end = 0\<rparr>"] show ?thesis
    by (simp add: swept(3))
qed simp

lemma scan_slots_device:
  "scan_slots slots acc = ok sc \<Longrightarrow> (sc_device_type sc, sc_device_idx sc) =
     (if sc_device_type acc = DT_CPU
      then case find (\<lambda>s. \<not> is_external s \<and> sl_device_type s \<noteq> DT_CPU) slots of
             None \<Rightarrow> (DT_CPU, sc_device_idx acc) | Some s \<Rightarrow> (sl_device_type s, sl_device_idx s)
      else (sc_device_type acc, sc_device_idx acc))"
  by (induction slots acc rule: scan_slots.induct) (auto simp: scan_internal_def Let_def split: if_splits option.splits)

lemma scan_slots_device_start:
  "scan_slots slots \<lparr>sc_external = 0, sc_max_op = 0, sc_device_type = DT_CPU, sc_device_idx = - 1\<rparr> = ok sc \<Longrightarrow>
     (sc_device_type sc, sc_device_idx sc) =
     (case find (\<lambda>s. \<not> is_external s \<and> sl_device_type s \<noteq> DT_CPU) slots of
        None \<Rightarrow> (DT_CPU, - 1) | Some s \<Rightarrow> (sl_device_type s, sl_device_idx s))"
  by (drule scan_slots_device) (simp split: option.splits)

lemma plan_fields:
  assumes "compute_memory_plan cap r w slots = ok plan"
  shows "num_slots plan = length slots" "num_external plan = length (filter is_external slots)"
    and "(mp_device_type plan, mp_device_idx plan) =
      (case find (\<lambda>s. \<not> is_external s \<and> sl_device_type s \<noteq> DT_CPU) slots of
         None \<Rightarrow> (DT_CPU, - 1) | Some s \<Rightarrow> (sl_device_type s, sl_device_idx s))"
    and "device_capability plan = cap" "mp_rank plan = r" "mp_world_size plan = w"
  using assms scan_slots_ok [of slots "\<lparr>sc_external = 0, sc_max_op = 0, sc_device_type = DT_CPU, sc_device_idx = - 1\<rparr>"]
    scan_slots_device_start [of slots]
  by (auto simp: compute_memory_plan_def Let_def simp del: upt_Suc replicate_Suc split: if_splits sum.splits)

lemmas plan_counts = plan_fields(1,2)

text \<open>C2.  When the byte counts of the internal slots, each rounded up to 256, add up to less than
  $2^{64}$, every internal slot of a returned plan is placed inside the pool at a multiple of 256, the
  planner changes nothing but the offsets of internal slots, and the pool is no larger than the
  sum of the aligned sizes.  Without the bound the placement can fail, as the lemma on a clamped byte
  count below shows.\<close>

theorem plan_in_pool:
  assumes "compute_memory_plan cap r w slots = ok plan" "aligned_total slots < 2 ^ 64"
  shows "length (mp_slots plan) = length slots
    \<and> unat (pool_bytes plan) \<le> aligned_total slots
    \<and> (\<forall>i < length slots. is_external (slots ! i) \<longrightarrow> mp_slots plan ! i = slots ! i)
    \<and> (\<forall>i < length slots. \<not> is_external (slots ! i) \<longrightarrow>
         (mp_slots plan ! i)\<lparr>offset_bytes := 0\<rparr> = (slots ! i)\<lparr>offset_bytes := 0\<rparr>
         \<and> 256 dvd unat (offset_bytes (mp_slots plan ! i))
         \<and> unat (offset_bytes (mp_slots plan ! i)) + unat (nbytes (slots ! i)) \<le> unat (pool_bytes plan))"
proof -
  note sound = compute_memory_plan_sound [OF assms]
  show ?thesis
    using sound(1,2) plan_slot_placed [OF assms] by (auto simp: frame_def internal_def)
qed

theorem plan_in_pool_witness:
  "\<exists>plan. compute_memory_plan 0 (- 1) 0 sample_slots = ok plan \<and> aligned_total sample_slots < 2 ^ 64
     \<and> 256 dvd unat (offset_bytes (mp_slots plan ! 2))
     \<and> unat (offset_bytes (mp_slots plan ! 2)) + 600 \<le> unat (pool_bytes plan)"
proof -
  obtain plan where plan: "compute_memory_plan 0 (- 1) 0 sample_slots = ok plan"
    using sample_plan by blast
  note total = sample_total
  show ?thesis
    using plan_in_pool [OF plan total] plan total sample_slot_2 by metis
qed

text \<open>The bound is needed: the planner rounds a byte count with a wrapping addition, so a slot whose
  count was clamped to the largest 64-bit value takes no room and the returned pool is empty.\<close>

definition clamped_slots :: "tensor_slot list" where
  "clamped_slots =
    [\<lparr>offset_bytes = 0, nbytes = - 1, birth_op = 0, death_op = 0, sl_dtype = ST_Float,
      sl_device_type = DT_CPU, sl_device_idx = - 1, sl_layout = LY_Strided, is_external = False, slot_id = 0\<rparr>]"

theorem clamped_size_wraps:
  "\<exists>plan. compute_memory_plan 0 (- 1) 0 clamped_slots = ok plan \<and> pool_bytes plan = 0
     \<and> unat (nbytes (mp_slots plan ! 0)) = 2 ^ 64 - 1"
  by (simp add: compute_memory_plan_def clamped_slots_def MAX_DEATH_OP_def scan_internal_def Let_def upt_rec
      bucket_def free_at_def sweep_op_def MAX_PER_OP_def free_step_def free_block_def alloc_step_def alloc_slot_def
      set_offset_def align_up_def ALIGNMENT_def MAX_FREE_def unat_max_word)

text \<open>The counting sort of the planner is a stable bucket partition: for every operation, the
  segment of the scattered array that the offsets delimit lists exactly the internal slots with
  that key, in slot order.\<close>

theorem counting_sort_buckets:
  assumes "op < num_ops"
  shows "let off = bucket_offsets 0 (bucket_counts key slots (replicate num_ops 0));
             arr = scatter key slots 0 (take num_ops off)
                     (replicate (length slots - length (filter is_external slots)) 0)
         in bucket off arr op = slots_with key slots op"
  unfolding Let_def by (rule bucket_reference [OF assms]) (simp add: length_internal)

theorem counting_sort_buckets_witness:
  "let off = bucket_offsets 0 (bucket_counts birth_op sample_slots (replicate 4 0));
       arr = scatter birth_op sample_slots 0 (take 4 off)
               (replicate (length sample_slots - length (filter is_external sample_slots)) 0)
   in bucket off arr 1 = slots_with birth_op sample_slots 1 \<and> slots_with birth_op sample_slots 1 = [1, 2]"
  using counting_sort_buckets [of 1 4 birth_op sample_slots]
  by (simp add: Let_def slots_with_def sample_slots_def upt_rec)

text \<open>C20.  The planner is total: it stops on a fatal invariant exactly when some internal slot dies
  before it is born or dies later than the largest operation index it can bucket, and returns a
  plan in every other case.  That plan lists the given slots, external ones unchanged and internal ones
  unchanged but for their offset, whatever the byte counts are; it counts the slots and the external
  ones, names the device of the first internal slot that is not on the CPU, and carries the
  capability, rank and world size it was given.\<close>

theorem plan_fails_iff:
  "case compute_memory_plan cap r w slots of
     Inl e \<Rightarrow> e = Fatal_invariant \<and> list_ex bad_lifetime slots
   | Inr plan \<Rightarrow> \<not> list_ex bad_lifetime slots
       \<and> list_all2 (\<lambda>s s'. if is_external s then s' = s else s'\<lparr>offset_bytes := 0\<rparr> = s\<lparr>offset_bytes := 0\<rparr>)
           slots (mp_slots plan)
       \<and> num_slots plan = length slots \<and> num_external plan = length (filter is_external slots)
       \<and> (mp_device_type plan, mp_device_idx plan) =
           (case find (\<lambda>s. \<not> is_external s \<and> sl_device_type s \<noteq> DT_CPU) slots of
              None \<Rightarrow> (DT_CPU, - 1) | Some s \<Rightarrow> (sl_device_type s, sl_device_idx s))
       \<and> device_capability plan = cap \<and> mp_rank plan = r \<and> mp_world_size plan = w"
proof (cases "compute_memory_plan cap r w slots")
  case (Inl e)
  then show ?thesis
    using scan_slots_fails
      [of slots "\<lparr>sc_external = 0, sc_max_op = 0, sc_device_type = DT_CPU, sc_device_idx = - 1\<rparr>"]
    by (auto simp: compute_memory_plan_def Let_def split: sum.splits if_splits)
next
  case (Inr plan)
  have "\<not> list_ex bad_lifetime slots"
    using Inr scan_slots_fails
      [of slots "\<lparr>sc_external = 0, sc_max_op = 0, sc_device_type = DT_CPU, sc_device_idx = - 1\<rparr>"]
    by (auto simp: compute_memory_plan_def Let_def split: sum.splits if_splits)
  moreover have "list_all2 (\<lambda>s s'. if is_external s then s' = s else s'\<lparr>offset_bytes := 0\<rparr> = s\<lparr>offset_bytes := 0\<rparr>)
      slots (mp_slots plan)"
    using compute_memory_plan_frame [OF Inr]
    by (fastforce simp: frame_def internal_def list_all2_conv_all_nth)
  ultimately show ?thesis
    using Inr plan_fields [OF Inr] by simp
qed

end
