(* ===== verification/Saturation.thy ===== *)
theory Saturation
  imports Crucible_Prelude
begin

text \<open>
  Saturating unsigned arithmetic: \<^verbatim>\<open>foundation/Saturate.h\<close> (the bare helpers) and
  \<^verbatim>\<open>fixy/Saturated.h\<close> (the value together with the fact that it was clamped).  The templates are
  modelled at the unsigned types, at every width; \<^verbatim>\<open>std::saturating_add\<close> and its siblings, and the
  overflow builtins, are written out as the standard and the compiler manual define them.
\<close>

section \<open>The overflow builtins and the library clamp, at an unsigned type\<close>

definition add_overflow :: "'a::len word \<Rightarrow> 'a word \<Rightarrow> bool" where
  "add_overflow a b \<longleftrightarrow> \<not> unat a + unat b < 2 ^ LENGTH('a)"

definition sub_overflow :: "'a::len word \<Rightarrow> 'a word \<Rightarrow> bool" where
  "sub_overflow a b \<longleftrightarrow> a < b"

definition mul_overflow :: "'a::len word \<Rightarrow> 'a word \<Rightarrow> bool" where
  "mul_overflow a b \<longleftrightarrow> \<not> unat a * unat b < 2 ^ LENGTH('a)"

definition saturating_add :: "'a::len word \<Rightarrow> 'a word \<Rightarrow> 'a word" where
  "saturating_add a b = (if add_overflow a b then - 1 else a + b)"

definition saturating_sub :: "'a::len word \<Rightarrow> 'a word \<Rightarrow> 'a word" where
  "saturating_sub a b = (if sub_overflow a b then 0 else a - b)"

definition saturating_mul :: "'a::len word \<Rightarrow> 'a word \<Rightarrow> 'a word" where
  "saturating_mul a b = (if mul_overflow a b then - 1 else a * b)"


section \<open>\<^verbatim>\<open>foundation/Saturate.h\<close>\<close>

definition add_sat :: "'a::len word \<Rightarrow> 'a word \<Rightarrow> 'a word" where
  "add_sat a b = (if \<not> add_overflow a b then a + b else saturating_add a b)"

definition sub_sat :: "'a::len word \<Rightarrow> 'a word \<Rightarrow> 'a word" where
  "sub_sat a b = (if \<not> sub_overflow a b then a - b else saturating_sub a b)"

definition mul_sat :: "'a::len word \<Rightarrow> 'a word \<Rightarrow> 'a word" where
  "mul_sat a b = (if \<not> mul_overflow a b then a * b else saturating_mul a b)"


section \<open>\<^verbatim>\<open>fixy/Saturated.h\<close>\<close>

record 'a saturated =
  sat_value :: 'a
  was_clamped :: bool

definition sat_plain :: "'a \<Rightarrow> 'a saturated" where
  "sat_plain v = \<lparr>sat_value = v, was_clamped = False\<rparr>"

definition sat_flagged :: "'a \<Rightarrow> bool \<Rightarrow> 'a saturated" where
  "sat_flagged v c = \<lparr>sat_value = v, was_clamped = c\<rparr>"

definition add_sat_checked :: "'a::len word \<Rightarrow> 'a word \<Rightarrow> 'a word saturated" where
  "add_sat_checked a b =
     (if add_overflow a b then sat_flagged (saturating_add a b) True else sat_flagged (a + b) False)"

definition sub_sat_checked :: "'a::len word \<Rightarrow> 'a word \<Rightarrow> 'a word saturated" where
  "sub_sat_checked a b =
     (if sub_overflow a b then sat_flagged (saturating_sub a b) True else sat_flagged (a - b) False)"

definition mul_sat_checked :: "'a::len word \<Rightarrow> 'a word \<Rightarrow> 'a word saturated" where
  "mul_sat_checked a b =
     (if mul_overflow a b then sat_flagged (saturating_mul a b) True else sat_flagged (a * b) False)"


section \<open>Exactness\<close>

lemmas overflow_defs = add_overflow_def sub_overflow_def mul_overflow_def
lemmas saturating_defs = saturating_add_def saturating_sub_def saturating_mul_def
lemmas sat_defs = add_sat_def sub_sat_def mul_sat_def
lemmas sat_checked_defs =
  add_sat_checked_def sub_sat_checked_def mul_sat_checked_def sat_flagged_def sat_plain_def

lemma unat_add_sat:
  "unat (add_sat a b) = min (unat a + unat b) (2 ^ LENGTH('a) - 1)" for a b :: "'a::len word"
  by (auto simp: sat_defs saturating_defs overflow_defs unat_max_word word_arith)

lemma unat_sub_sat: "unat (sub_sat a b) = unat a - unat b" for a b :: "'a::len word"
  by (auto simp: sat_defs saturating_defs overflow_defs word_less_nat_alt word_arith)

lemma unat_mul_sat:
  "unat (mul_sat a b) = min (unat a * unat b) (2 ^ LENGTH('a) - 1)" for a b :: "'a::len word"
  by (auto simp: sat_defs saturating_defs overflow_defs unat_max_word word_arith)

lemma add_sat_mono: "a \<le> a' \<Longrightarrow> add_sat a b \<le> add_sat a' b" for a b :: "'a::len word"
  unfolding word_le_nat_alt unat_add_sat by linarith

lemma add_sat_ge: "a \<le> add_sat a b" for a b :: "'a::len word"
  using unat_lt_pow [of a] by (auto simp: word_le_nat_alt unat_add_sat)

lemma add_sat_comm: "add_sat a b = add_sat b a" for a b :: "'a::len word"
  by (simp add: word_unat_eq_iff unat_add_sat add.commute)

lemma add_sat_assoc: "add_sat (add_sat a b) c = add_sat a (add_sat b c)" for a b c :: "'a::len word"
  by (simp add: word_unat_eq_iff unat_add_sat)

lemma checked_value:
  "sat_value (add_sat_checked a b) = add_sat a b"
  "sat_value (sub_sat_checked a b) = sub_sat a b"
  "sat_value (mul_sat_checked a b) = mul_sat a b"
  by (simp_all add: sat_checked_defs sat_defs)

lemma checked_flag:
  "was_clamped (add_sat_checked a b) \<longleftrightarrow> unat (add_sat a b) \<noteq> unat a + unat b"
  "was_clamped (mul_sat_checked a b) \<longleftrightarrow> unat (mul_sat a b) \<noteq> unat a * unat b"
  for a b :: "'a::len word"
  by (auto simp: sat_checked_defs overflow_defs unat_add_sat unat_mul_sat dest: pow_pred_eqD)

end
