(* ===== verification/Storage_Nbytes.thy ===== *)
theory Storage_Nbytes
  imports Tensor_Meta Saturation
begin

text \<open>
  The byte span of a tensor's storage: \<^verbatim>\<open>crucible/StorageNbytes.h\<close>, with the eight-lane vector
  operations of \<^verbatim>\<open>foundation/Simd.h\<close> it uses.  The scalar routine is compared with the set of
  offsets the tensor reaches, and the vector routine with the scalar one.
\<close>

section \<open>Eight-lane vector operations\<close>

type_synonym i64x8 = "int list"
type_synonym mask8 = "bool list"

definition simd_lanes :: nat where
  "simd_lanes = 8"

definition broadcast :: "int \<Rightarrow> i64x8" where
  "broadcast x = replicate simd_lanes x"

definition prefix_mask :: "nat \<Rightarrow> mask8" where
  "prefix_mask n = map (\<lambda>lane. lane < n) [0..<simd_lanes]"

definition simd_select :: "mask8 \<Rightarrow> i64x8 \<Rightarrow> i64x8 \<Rightarrow> i64x8" where
  "simd_select sel a b = map (\<lambda>(c, x, y). if c then x else y) (zip sel (zip a b))"

definition simd_max :: "i64x8 \<Rightarrow> i64x8 \<Rightarrow> i64x8" where
  "simd_max a b = simd_select (map2 (\<lambda>x y. x > y) a b) a b"

definition simd_sub :: "i64x8 \<Rightarrow> i64x8 \<Rightarrow> i64x8" where
  "simd_sub a b = map2 (\<lambda>x y. wrap_i64 (x - y)) a b"

definition simd_mul :: "i64x8 \<Rightarrow> i64x8 \<Rightarrow> i64x8" where
  "simd_mul a b = map2 (\<lambda>x y. wrap_i64 (x * y)) a b"

definition simd_neg :: "i64x8 \<Rightarrow> i64x8" where
  "simd_neg a = map (\<lambda>x. wrap_i64 (- x)) a"

definition reduce_max :: "i64x8 \<Rightarrow> int" where
  "reduce_max v = foldl (\<lambda>acc x. if x > acc then x else acc) (hd v) (tl v)"


section \<open>The scalar routine\<close>

datatype scan = Scan_zero | Scan_overflow | Scan_offsets int int

fun scalar_scan :: "(int \<times> int) list \<Rightarrow> int \<Rightarrow> int \<Rightarrow> scan" where
  "scalar_scan [] max_offset min_offset = Scan_offsets max_offset min_offset"
| "scalar_scan ((sz, stride) # dims) max_offset min_offset =
    (if sz = 0 then Scan_zero
     else let size_minus_one = wrap_i64 (sz - 1);
              dim_extent_bytes = size_minus_one * stride
       in if \<not> fits_i64 dim_extent_bytes then Scan_overflow
          else if dim_extent_bytes > 0
            then if \<not> fits_i64 (max_offset + dim_extent_bytes) then Scan_overflow
                 else scalar_scan dims (max_offset + dim_extent_bytes) min_offset
            else if \<not> fits_i64 (min_offset + dim_extent_bytes) then Scan_overflow
                 else scalar_scan dims max_offset (min_offset + dim_extent_bytes))"

definition span_bytes :: "int \<Rightarrow> int \<Rightarrow> nat \<Rightarrow> u64 saturated" where
  "span_bytes max_offset min_offset elem =
    (if \<not> fits_i64 (max_offset - min_offset) then sat_flagged (- 1) True
     else if \<not> fits_i64 (max_offset - min_offset + 1) then sat_flagged (- 1) True
     else let span = word_of_int (max_offset - min_offset + 1); e = word_of_nat elem
       in if mul_overflow span e then sat_flagged (- 1) True else sat_plain (span * e))"

definition compute_storage_nbytes_scalar :: "tensor_meta \<Rightarrow> u64 saturated" where
  "compute_storage_nbytes_scalar m =
    (if tm_ndim m = 0 then sat_plain (word_of_nat (element_size (tm_dtype m)))
     else case scalar_scan (live_dims m) 0 0 of
         Scan_zero \<Rightarrow> sat_plain 0
       | Scan_overflow \<Rightarrow> sat_flagged (- 1) True
       | Scan_offsets mx mn \<Rightarrow> span_bytes mx mn (element_size (tm_dtype m)))"


section \<open>The screened vector routine\<close>

definition storage_nbytes_simd_safe :: "tensor_meta \<Rightarrow> bool" where
  "storage_nbytes_simd_safe m =
    (let valid_mask = prefix_mask (tm_ndim m);
         one = broadcast 1;
         live_sizes = simd_select valid_mask (tm_sizes m) one;
         every_size_positive = \<not> list_ex id (map2 (\<lambda>x y. x < y) live_sizes one);
         sizes_minus_one = simd_sub (simd_max live_sizes one) one;
         live_strides = simd_select valid_mask (tm_strides m) (broadcast 0);
         strides_clamped = simd_max live_strides (broadcast (- i64_max));
         strides_abs = simd_select (map2 (\<lambda>x y. x \<ge> y) strides_clamped (broadcast 0))
                         strides_clamped (simd_neg strides_clamped);
         max_smo = reduce_max sizes_minus_one;
         max_str = reduce_max strides_abs;
         bound_fits = fits_i64 (max_smo * max_str)
     in every_size_positive \<and> bound_fits)"

fun extent_fold :: "int list \<Rightarrow> int \<Rightarrow> int \<Rightarrow> scan" where
  "extent_fold [] max_offset min_offset = Scan_offsets max_offset min_offset"
| "extent_fold (e # es) max_offset min_offset =
    (if e > 0
     then if \<not> fits_i64 (max_offset + e) then Scan_overflow
          else extent_fold es (max_offset + e) min_offset
     else if \<not> fits_i64 (min_offset + e) then Scan_overflow
          else extent_fold es max_offset (min_offset + e))"

definition simd_extents :: "tensor_meta \<Rightarrow> i64x8" where
  "simd_extents m =
    (let valid_mask = prefix_mask (tm_ndim m);
         one = broadcast 1;
         sizes_minus_one = simd_sub (simd_select valid_mask (tm_sizes m) one) one
     in simd_mul sizes_minus_one (simd_select valid_mask (tm_strides m) (broadcast 0)))"

definition compute_storage_nbytes_simd :: "tensor_meta \<Rightarrow> u64 saturated" where
  "compute_storage_nbytes_simd m =
    (if tm_ndim m = 0 then sat_plain (word_of_nat (element_size (tm_dtype m)))
     else let valid_mask = prefix_mask (tm_ndim m);
              zero_size_mask = map2 (\<and>) (map2 (=) (tm_sizes m) (broadcast 0)) valid_mask
       in if list_ex id zero_size_mask then sat_plain 0
          else if \<not> storage_nbytes_simd_safe m then compute_storage_nbytes_scalar m
          else case extent_fold (take (tm_ndim m) (simd_extents m)) 0 0 of
              Scan_zero \<Rightarrow> sat_plain 0
            | Scan_overflow \<Rightarrow> sat_flagged (- 1) True
            | Scan_offsets mx mn \<Rightarrow> span_bytes mx mn (element_size (tm_dtype m)))"


section \<open>The span, as a set of offsets\<close>

text \<open>The element offsets a strided tensor reaches, and the sums of its positive and of its
  negative extents.\<close>

fun offsets :: "(int \<times> int) list \<Rightarrow> int set" where
  "offsets [] = {0}"
| "offsets ((sz, stride) # dims) = {i * stride + b | i b. 0 \<le> i \<and> i < sz \<and> b \<in> offsets dims}"

definition hi_offset :: "(int \<times> int) list \<Rightarrow> int" where
  "hi_offset dims = (\<Sum>(sz, stride)\<leftarrow>dims. max 0 ((sz - 1) * stride))"

definition lo_offset :: "(int \<times> int) list \<Rightarrow> int" where
  "lo_offset dims = (\<Sum>(sz, stride)\<leftarrow>dims. min 0 ((sz - 1) * stride))"

definition positive_sizes :: "(int \<times> int) list \<Rightarrow> bool" where
  "positive_sizes dims \<longleftrightarrow> list_all (\<lambda>(sz, stride). 1 \<le> sz) dims"

text \<open>Two concrete descriptors: a strided one with a negative stride, and one whose first extent
  overflows although its second is empty.\<close>

definition sample_meta :: tensor_meta where
  "sample_meta = default_meta\<lparr>tm_ndim := 2, tm_dtype := ST_Float,
     tm_sizes := [3, 4, 0, 0, 0, 0, 0, 0], tm_strides := [4, - 1, 0, 0, 0, 0, 0, 0]\<rparr>"

definition empty_overflow_meta :: tensor_meta where
  "empty_overflow_meta = default_meta\<lparr>tm_ndim := 2, tm_dtype := ST_Float,
     tm_sizes := [2 ^ 40, 0, 0, 0, 0, 0, 0, 0], tm_strides := [2 ^ 40, 1, 0, 0, 0, 0, 0, 0]\<rparr>"


section \<open>The scalar routine is exact\<close>

lemma hi_offset_simps [simp]:
  "hi_offset [] = 0"
  "hi_offset ((s, t) # dims) = max 0 ((s - 1) * t) + hi_offset dims"
  by (simp_all add: hi_offset_def)

lemma lo_offset_simps [simp]:
  "lo_offset [] = 0"
  "lo_offset ((s, t) # dims) = min 0 ((s - 1) * t) + lo_offset dims"
  by (simp_all add: lo_offset_def)

lemma positive_sizes_simps [simp]:
  "positive_sizes []"
  "positive_sizes ((s, t) # dims) \<longleftrightarrow> 1 \<le> s \<and> positive_sizes dims"
  by (simp_all add: positive_sizes_def)

lemma hi_offset_nonneg: "0 \<le> hi_offset dims"
  by (induction dims) auto

lemma lo_offset_nonpos: "lo_offset dims \<le> 0"
  by (induction dims) auto

lemma dim_extent_bounds:
  assumes "0 \<le> i" "i < (s :: int)"
  shows "min 0 ((s - 1) * t) \<le> i * t" "i * t \<le> max 0 ((s - 1) * t)"
proof -
  consider "0 \<le> t" | "t < 0"
    by linarith
  then have "min 0 ((s - 1) * t) \<le> i * t \<and> i * t \<le> max 0 ((s - 1) * t)"
  proof cases
    case 1
    then have "0 \<le> i * t" "i * t \<le> (s - 1) * t"
      using assms by (auto intro: mult_right_mono)
    then show ?thesis by auto
  next
    case 2
    then have "i * t \<le> 0" "(s - 1) * t \<le> i * t"
      using assms by (auto intro: mult_right_mono_neg mult_nonneg_nonpos)
    then show ?thesis by auto
  qed
  then show "min 0 ((s - 1) * t) \<le> i * t" "i * t \<le> max 0 ((s - 1) * t)"
    by blast+
qed

lemma offsets_ConsI:
  "0 \<le> i \<Longrightarrow> i < s \<Longrightarrow> b \<in> offsets dims \<Longrightarrow> i * t + b \<in> offsets ((s, t) # dims)"
  by auto

lemma offsets_bounds: "x \<in> offsets dims \<Longrightarrow> lo_offset dims \<le> x \<and> x \<le> hi_offset dims"
proof (induction dims arbitrary: x)
  case (Cons d dims)
  obtain s t where d: "d = (s, t)" by force
  with Cons.prems obtain i b where
    "x = i * t + b" "0 \<le> i" "i < s" "b \<in> offsets dims" by auto
  with Cons.IH [of b] dim_extent_bounds [of i s t] d show ?case
    by simp
qed simp

lemma hi_offset_reached: "positive_sizes dims \<Longrightarrow> hi_offset dims \<in> offsets dims"
proof (induction dims)
  case (Cons d dims)
  obtain s t where d: "d = (s, t)" by force
  define i where "i = (if 0 \<le> (s - 1) * t then s - 1 else 0)"
  have "max 0 ((s - 1) * t) = i * t" "0 \<le> i" "i < s"
    using Cons.prems d by (auto simp: i_def)
  with Cons d show ?case
    using offsets_ConsI [of i s "hi_offset dims" dims t] by simp
qed simp

lemma lo_offset_reached: "positive_sizes dims \<Longrightarrow> lo_offset dims \<in> offsets dims"
proof (induction dims)
  case (Cons d dims)
  obtain s t where d: "d = (s, t)" by force
  define i where "i = (if (s - 1) * t \<le> 0 then s - 1 else 0)"
  have "min 0 ((s - 1) * t) = i * t" "0 \<le> i" "i < s"
    using Cons.prems d by (auto simp: i_def)
  with Cons d show ?case
    using offsets_ConsI [of i s "lo_offset dims" dims t] by simp
qed simp

lemma finite_offsets: "finite (offsets dims)"
  by (rule finite_subset [of _ "{lo_offset dims..hi_offset dims}"])
    (use offsets_bounds in auto)

lemma Max_offsets: "positive_sizes dims \<Longrightarrow> Max (offsets dims) = hi_offset dims"
  by (rule Max_eqI) (auto simp: finite_offsets offsets_bounds hi_offset_reached)

lemma Min_offsets: "positive_sizes dims \<Longrightarrow> Min (offsets dims) = lo_offset dims"
  by (rule Min_eqI) (auto simp: finite_offsets offsets_bounds lo_offset_reached)

lemma scalar_scan_append:
  assumes "positive_sizes dims" "\<forall>(s, t) \<in> set dims. fits_i64 s \<and> fits_i64 t"
    "0 \<le> mx" "mx \<le> i64_max" "mn \<le> 0" "i64_min \<le> mn"
  shows "scalar_scan (dims @ rest) mx mn =
    (if mx + hi_offset dims \<le> i64_max \<and> i64_min \<le> mn + lo_offset dims
     then scalar_scan rest (mx + hi_offset dims) (mn + lo_offset dims) else Scan_overflow)"
  using assms
proof (induction dims arbitrary: mx mn)
  case (Cons d dims)
  obtain s t where d: "d = (s, t)" by force
  have pred: "wrap_i64 (s - 1) = s - 1" and "s \<noteq> 0"
    using Cons.prems d by (auto intro!: wrap_i64_id fits_i64_pred)
  moreover have "i64_min \<le> 0" "0 \<le> i64_max"
    by (simp_all add: i64_min_def i64_max_def)
  moreover note hi_offset_nonneg [of dims] lo_offset_nonpos [of dims]
  moreover have "positive_sizes dims" "\<forall>(s, t) \<in> set dims. fits_i64 s \<and> fits_i64 t"
    using Cons.prems d by auto
  moreover note IH = Cons.IH [OF this]
  ultimately show ?case
    using Cons.prems(3-) d by (auto simp: fits_i64_def Let_def IH add.assoc)
qed simp

lemmas scalar_scan_exact = scalar_scan_append [where rest = "[]", simplified]

lemma span_bytes_exact:
  assumes "0 \<le> mx" "mn \<le> 0" "e \<le> 16"
  shows "span_bytes mx mn e =
    (if mx - mn + 1 \<le> i64_max \<and> nat (mx - mn + 1) * e < 2 ^ 64
     then sat_plain (word_of_nat (nat (mx - mn + 1) * e)) else sat_flagged (- 1) True)"
proof (cases "mx - mn + 1 \<le> i64_max")
  case True
  have "unat (word_of_int (mx - mn + 1) :: u64) = nat (mx - mn + 1)"
    by (rule unat_of_int_exact) (use assms True in \<open>simp_all add: i64_max_def\<close>)
  moreover have "unat (word_of_nat e :: u64) = e"
    using assms by (intro unat_of_nat_exact) simp
  moreover have "word_of_int (mx - mn + 1) = (word_of_nat (nat (mx - mn + 1)) :: u64)"
    using assms by simp
  ultimately show ?thesis
    using True assms
    by (simp add: span_bytes_def fits_i64_def i64_min_def mul_overflow_def Let_def)
next
  case False
  then show ?thesis
    by (simp add: span_bytes_def fits_i64_def)
qed

text \<open>The dimensions before the first empty one are the ones the routine adds up.\<close>

definition nonempty_prefix :: "(int \<times> int) list \<Rightarrow> (int \<times> int) list" where
  "nonempty_prefix dims = takeWhile (\<lambda>(sz, stride). sz \<noteq> 0) dims"

lemma nonempty_prefix_positive:
  "list_all (\<lambda>(sz, stride). 0 \<le> sz) dims \<Longrightarrow> positive_sizes (nonempty_prefix dims)"
  by (induction dims) (auto simp: nonempty_prefix_def)

lemma nonempty_prefix_split:
  "nonempty_prefix dims \<noteq> dims \<Longrightarrow> \<exists>t rest. dims = nonempty_prefix dims @ (0, t) # rest"
  by (induction dims) (auto simp: nonempty_prefix_def)

lemma storage_scalar_positive:
  assumes "wf_meta m" "positive_sizes (live_dims m)"
  shows "compute_storage_nbytes_scalar m =
    (let S = offsets (live_dims m);
         span = Max S - Min S + 1;
         total = nat span * element_size (tm_dtype m)
     in if span \<le> i64_max \<and> total < 2 ^ 64 then sat_plain (word_of_nat total)
        else sat_flagged (- 1) True)"
proof (cases "tm_ndim m = 0")
  case True
  then show ?thesis
    using element_size_le [of "tm_dtype m"]
    by (simp add: compute_storage_nbytes_scalar_def live_dims_def i64_max_def)
next
  case False
  have fits: "\<forall>(s, t) \<in> set (live_dims m). fits_i64 s \<and> fits_i64 t"
    using live_dims_fits [OF assms(1)] by auto
  show ?thesis
    using False assms scalar_scan_exact [OF assms(2) fits, of 0 0]
      span_bytes_exact [OF hi_offset_nonneg lo_offset_nonpos element_size_le]
      hi_offset_nonneg [of "live_dims m"] lo_offset_nonpos [of "live_dims m"]
    by (auto simp: compute_storage_nbytes_scalar_def Max_offsets Min_offsets Let_def
        i64_min_def i64_max_def)
qed

lemma storage_scalar_empty:
  assumes "wf_meta m" "list_all (\<lambda>(sz, stride). 0 \<le> sz) (live_dims m)" "nonempty_prefix (live_dims m) \<noteq> live_dims m"
  shows "compute_storage_nbytes_scalar m =
    (let S = offsets (nonempty_prefix (live_dims m))
     in if Max S \<le> i64_max \<and> i64_min \<le> Min S then sat_plain 0 else sat_flagged (- 1) True)"
proof -
  let ?ds = "nonempty_prefix (live_dims m)"
  obtain t rest where split: "live_dims m = ?ds @ (0, t) # rest"
    using nonempty_prefix_split [OF assms(3)] by blast
  have pos: "positive_sizes ?ds"
    by (rule nonempty_prefix_positive [OF assms(2)])
  have "set ?ds \<subseteq> set (live_dims m)"
    unfolding nonempty_prefix_def by (auto dest: set_takeWhileD)
  then have fits: "\<forall>(s, t) \<in> set ?ds. fits_i64 s \<and> fits_i64 t"
    using live_dims_fits [OF assms(1)] by blast
  have "tm_ndim m \<noteq> 0"
    using split by (cases "tm_ndim m") (simp_all add: live_dims_def)
  moreover have "scalar_scan (live_dims m) 0 0 =
      (if hi_offset ?ds \<le> i64_max \<and> i64_min \<le> lo_offset ?ds then Scan_zero else Scan_overflow)"
    using scalar_scan_append [OF pos fits, of 0 0 "(0, t) # rest"] split by (simp add: i64_min_def i64_max_def)
  ultimately show ?thesis
    using pos by (simp add: compute_storage_nbytes_scalar_def Max_offsets Min_offsets)
qed

text \<open>C14.  The scalar routine is exact on a well-formed descriptor without a negative live extent.  With no
  empty extent it returns the distance between the lowest and the highest element offset the tensor
  reaches, plus one, times the element size, with the clamp flag clear, when that span is at most the
  largest int64_t and the product fits in 64 bits; otherwise it returns the largest 64-bit value with the
  clamp flag set.  With an empty extent it returns zero bytes when the offsets of the dimensions before
  the first empty one fit in int64_t, and the clamped value otherwise, although the tensor has no
  element.\<close>

theorem storage_scalar_exact:
  assumes "wf_meta m" "list_all (\<lambda>(sz, stride). 0 \<le> sz) (live_dims m)"
  shows "compute_storage_nbytes_scalar m =
    (let S = offsets (nonempty_prefix (live_dims m));
         span = Max S - Min S + 1;
         total = nat span * element_size (tm_dtype m)
     in if nonempty_prefix (live_dims m) = live_dims m
        then if span \<le> i64_max \<and> total < 2 ^ 64 then sat_plain (word_of_nat total) else sat_flagged (- 1) True
        else if Max S \<le> i64_max \<and> i64_min \<le> Min S then sat_plain 0 else sat_flagged (- 1) True)"
proof (cases "nonempty_prefix (live_dims m) = live_dims m")
  case True
  then have "positive_sizes (live_dims m)"
    using nonempty_prefix_positive [OF assms(2)] by simp
  from storage_scalar_positive [OF assms(1) this] True show ?thesis
    by simp
next
  case False
  from storage_scalar_empty [OF assms False] False show ?thesis
    by (simp add: Let_def)
qed

theorem storage_scalar_exact_witness:
  "compute_storage_nbytes_scalar sample_meta =
    (let S = offsets (live_dims sample_meta);
         span = Max S - Min S + 1;
         total = nat span * element_size (tm_dtype sample_meta)
     in if span \<le> i64_max \<and> total < 2 ^ 64 then sat_plain (word_of_nat total)
        else sat_flagged (- 1) True)
   \<and> compute_storage_nbytes_scalar sample_meta = sat_plain 48"
proof
  have "wf_meta sample_meta" "list_all (\<lambda>(sz, stride). 0 \<le> sz) (live_dims sample_meta)"
    "nonempty_prefix (live_dims sample_meta) = live_dims sample_meta"
    by (simp_all add: wf_meta_def sample_meta_def default_meta_def kMaxTensorNDim_def live_dims_def
        nonempty_prefix_def fits_i64_def i64_min_def i64_max_def)
  from storage_scalar_exact [OF this(1,2)] this(3) show "compute_storage_nbytes_scalar sample_meta =
    (let S = offsets (live_dims sample_meta);
         span = Max S - Min S + 1;
         total = nat span * element_size (tm_dtype sample_meta)
     in if span \<le> i64_max \<and> total < 2 ^ 64 then sat_plain (word_of_nat total)
        else sat_flagged (- 1) True)"
    by simp
  show "compute_storage_nbytes_scalar sample_meta = sat_plain 48"
    by (simp add: compute_storage_nbytes_scalar_def sample_meta_def default_meta_def live_dims_def
        wrap_i64_def fits_i64_def i64_min_def i64_max_def span_bytes_def mul_overflow_def)
qed


section \<open>The vector routine agrees with the scalar one\<close>

lemma length_simd [simp]:
  "length (broadcast x) = simd_lanes"
  "length (prefix_mask n) = simd_lanes"
  "length (simd_select c a b) = min (length c) (min (length a) (length b))"
  "length (simd_max a b) = min (length a) (length b)"
  "length (simd_sub a b) = min (length a) (length b)"
  "length (simd_mul a b) = min (length a) (length b)"
  "length (simd_neg a) = length a"
  by (simp_all add: broadcast_def prefix_mask_def simd_select_def simd_max_def simd_sub_def
      simd_mul_def simd_neg_def)

lemma nth_broadcast [simp]: "i < simd_lanes \<Longrightarrow> broadcast x ! i = x"
  by (simp add: broadcast_def)

lemma nth_prefix_mask [simp]: "i < simd_lanes \<Longrightarrow> prefix_mask n ! i \<longleftrightarrow> i < n"
  by (simp add: prefix_mask_def)

lemma nth_simd_select [simp]:
  "i < length c \<Longrightarrow> i < length a \<Longrightarrow> i < length b \<Longrightarrow>
     simd_select c a b ! i = (if c ! i then a ! i else b ! i)"
  by (simp add: simd_select_def)

lemma nth_simd_arith [simp]:
  "i < length a \<Longrightarrow> i < length b \<Longrightarrow> simd_max a b ! i = max (a ! i) (b ! i)"
  "i < length a \<Longrightarrow> i < length b \<Longrightarrow> simd_sub a b ! i = wrap_i64 (a ! i - b ! i)"
  "i < length a \<Longrightarrow> i < length b \<Longrightarrow> simd_mul a b ! i = wrap_i64 (a ! i * b ! i)"
  "i < length a \<Longrightarrow> simd_neg a ! i = wrap_i64 (- a ! i)"
  by (auto simp: simd_max_def simd_sub_def simd_mul_def simd_neg_def)

lemma foldl_max_ge:
  "acc \<le> foldl (\<lambda>acc x. if x > acc then x else acc) acc xs \<and>
   (\<forall>x \<in> set xs. x \<le> foldl (\<lambda>acc x. if x > acc then x else acc) acc xs)" for acc :: int
  by (induction xs arbitrary: acc) (auto, (smt (verit))+)

lemma reduce_max_ge: "i < length v \<Longrightarrow> v ! i \<le> reduce_max v"
  using foldl_max_ge [of "hd v" "tl v"]
  by (cases v) (auto simp: reduce_max_def nth_Cons split: nat.splits)

lemma wf_meta_lanes:
  "wf_meta m \<Longrightarrow> length (tm_sizes m) = simd_lanes \<and> length (tm_strides m) = simd_lanes
     \<and> tm_ndim m \<le> simd_lanes"
  by (simp add: wf_meta_def kMaxTensorNDim_def simd_lanes_def)

lemma live_dims_nth:
  "wf_meta m \<Longrightarrow> d < tm_ndim m \<Longrightarrow> live_dims m ! d = (tm_sizes m ! d, tm_strides m ! d)"
  using wf_meta_lanes [of m] by (simp add: live_dims_def)

lemma length_live_dims: "wf_meta m \<Longrightarrow> length (live_dims m) = tm_ndim m"
  using wf_meta_lanes [of m] by (simp add: live_dims_def)

lemma zero_mask_iff:
  assumes "wf_meta m"
  shows "list_ex id (map2 (\<and>) (map2 (=) (tm_sizes m) (broadcast 0)) (prefix_mask (tm_ndim m)))
    \<longleftrightarrow> (\<exists>(s, t) \<in> set (live_dims m). s = 0)"
proof -
  note lanes = wf_meta_lanes [OF assms]
  have "(\<exists>(s, t) \<in> set (live_dims m). s = 0) \<longleftrightarrow> (\<exists>d < tm_ndim m. fst (live_dims m ! d) = 0)"
    unfolding length_live_dims [OF assms, symmetric] case_prod_beta
    by (metis (no_types, lifting) in_set_conv_nth)
  also have "\<dots> \<longleftrightarrow> (\<exists>d < tm_ndim m. tm_sizes m ! d = 0)"
    using live_dims_nth [OF assms] by auto
  also have "\<dots> \<longleftrightarrow> (\<exists>d < simd_lanes. tm_sizes m ! d = 0 \<and> d < tm_ndim m)"
    using lanes by (auto intro: less_le_trans)
  finally show ?thesis
    using lanes by (simp add: list_ex_length cong: conj_cong)
qed

lemma simd_extents_live:
  assumes "wf_meta m"
  shows "take (tm_ndim m) (simd_extents m)
    = map (\<lambda>(s, t). wrap_i64 (wrap_i64 (s - 1) * t)) (live_dims m)"
  using wf_meta_lanes [OF assms] assms
  by (intro nth_equalityI) (auto simp: simd_extents_def Let_def length_live_dims live_dims_nth)

lemma extent_fold_scalar:
  assumes "\<forall>(s, t) \<in> set dims. s \<noteq> 0 \<and> fits_i64 (wrap_i64 (s - 1) * t)"
  shows "extent_fold (map (\<lambda>(s, t). wrap_i64 (wrap_i64 (s - 1) * t)) dims) mx mn
    = scalar_scan dims mx mn"
  using assms by (induction dims arbitrary: mx mn) (auto simp: wrap_i64_id Let_def)

lemma fits_product_clamped:
  assumes "0 \<le> x" "x \<le> M" "fits_i64 t" "fits_i64 (M * S)" "max \<bar>t\<bar> 0 \<le> S \<or> t = i64_min \<and> i64_max \<le> S"
  shows "fits_i64 (x * t)"
proof -
  have "M \<le> 1 \<or> \<bar>t\<bar> \<le> S"
  proof (rule ccontr)
    assume "\<not> ?thesis"
    then have "2 * i64_max \<le> M * S"
      using assms by (intro mult_mono) (auto simp: i64_max_def)
    then show False
      using assms by (simp add: fits_i64_def i64_max_def)
  qed
  then show ?thesis
  proof
    assume "M \<le> 1"
    then have "x = 0 \<or> x = 1"
      using assms by linarith
    then show ?thesis
      using assms by auto
  next
    assume "\<bar>t\<bar> \<le> S"
    then have "\<bar>x * t\<bar> \<le> M * S"
      using assms by (simp add: abs_mult) (intro mult_mono; simp)
    then show ?thesis
      using assms by (simp add: fits_i64_def i64_min_def i64_max_def abs_le_iff)
  qed
qed

lemma simd_safe_products:
  assumes "wf_meta m" "storage_nbytes_simd_safe m" "(s, t) \<in> set (live_dims m)"
  shows "1 \<le> s \<and> fits_i64 ((s - 1) * t)"
proof -
  note lanes = wf_meta_lanes [OF assms(1)]
  obtain d where d: "d < tm_ndim m" "tm_sizes m ! d = s" "tm_strides m ! d = t"
    using assms live_dims_nth [OF assms(1)] length_live_dims [OF assms(1)]
    by (metis in_set_conv_nth Pair_inject)
  then have dl: "d < simd_lanes"
    using lanes by simp
  have fits: "fits_i64 s" "fits_i64 t"
    using live_dims_fits [OF assms(1,3)] by auto
  define ls where "ls = simd_select (prefix_mask (tm_ndim m)) (tm_sizes m) (broadcast 1)"
  define smo where "smo = simd_sub (simd_max ls (broadcast 1)) (broadcast 1)"
  define sc where "sc = simd_max (simd_select (prefix_mask (tm_ndim m)) (tm_strides m) (broadcast 0))
    (broadcast (- i64_max))"
  define sa where "sa = simd_select (map2 (\<lambda>x y. x \<ge> y) sc (broadcast 0)) sc (simd_neg sc)"
  have safe: "\<not> list_ex id (map2 (\<lambda>x y. x < y) ls (broadcast 1))"
    "fits_i64 (reduce_max smo * reduce_max sa)"
    using assms(2)
    unfolding storage_nbytes_simd_safe_def Let_def ls_def smo_def sc_def sa_def by blast+
  have s1: "1 \<le> s"
    using safe(1) lanes d dl by (auto simp: list_ex_length ls_def dest: spec [of _ d])
  have "smo ! d = s - 1"
    using lanes d dl s1 fits by (simp add: smo_def ls_def wrap_i64_id fits_i64_pred)
  then have M: "s - 1 \<le> reduce_max smo"
    using reduce_max_ge [of d smo] lanes dl by (simp add: smo_def ls_def)
  have "sc ! d = max t (- i64_max)"
    using lanes d dl by (simp add: sc_def)
  then have "sa ! d = \<bar>max t (- i64_max)\<bar>"
    using lanes d dl fits
    by (auto simp: sa_def sc_def wrap_i64_id fits_i64_def i64_min_def i64_max_def)
  then have S: "\<bar>max t (- i64_max)\<bar> \<le> reduce_max sa"
    using reduce_max_ge [of d sa] lanes dl by (simp add: sa_def sc_def)
  have "max \<bar>t\<bar> 0 \<le> reduce_max sa \<or> t = i64_min \<and> i64_max \<le> reduce_max sa"
    using S fits by (auto simp: fits_i64_def i64_min_def i64_max_def)
  then show ?thesis
    using fits_product_clamped [OF _ M fits(2) safe(2)] s1 by simp
qed

text \<open>C15.  The vector routine on every well-formed descriptor: it returns an unclamped zero when some
  live extent is zero, and in every other case exactly what the scalar routine returns, flag
  included.  The screen therefore never admits a descriptor whose unchecked vector products
  wrap.\<close>

theorem storage_simd_characterised:
  assumes "wf_meta m"
  shows "compute_storage_nbytes_simd m =
    (if \<exists>(s, t) \<in> set (live_dims m). s = 0 then sat_plain 0 else compute_storage_nbytes_scalar m)"
proof (cases "tm_ndim m = 0 \<or> (\<exists>(s, t) \<in> set (live_dims m). s = 0) \<or> \<not> storage_nbytes_simd_safe m")
  case True
  then show ?thesis
    using zero_mask_iff [OF assms]
    by (auto simp: compute_storage_nbytes_simd_def compute_storage_nbytes_scalar_def live_dims_def)
next
  case False
  then have dims: "\<forall>(s, t) \<in> set (live_dims m). s \<noteq> 0 \<and> fits_i64 (wrap_i64 (s - 1) * t)"
    using simd_safe_products [OF assms] live_dims_fits [OF assms]
    by (fastforce simp: wrap_i64_id fits_i64_pred)
  show ?thesis
    using False zero_mask_iff [OF assms] extent_fold_scalar [OF dims]
    by (auto simp: compute_storage_nbytes_simd_def compute_storage_nbytes_scalar_def
        simd_extents_live [OF assms])
qed

theorem storage_simd_characterised_witness:
  "compute_storage_nbytes_simd sample_meta = compute_storage_nbytes_scalar sample_meta"
  using storage_simd_characterised [of sample_meta]
  by (simp add: wf_meta_def sample_meta_def default_meta_def kMaxTensorNDim_def live_dims_def
      fits_i64_def i64_min_def i64_max_def)

text \<open>The two routines do not agree on every input: on a descriptor with an empty dimension
  behind a dimension whose extent overflows, the scalar routine reports the clamp while the
  vector routine reports an exact zero.\<close>

theorem storage_simd_scalar_diverge:
  "wf_meta empty_overflow_meta
   \<and> compute_storage_nbytes_scalar empty_overflow_meta = sat_flagged (- 1) True
   \<and> compute_storage_nbytes_simd empty_overflow_meta = sat_plain 0"
  by (simp add: wf_meta_def empty_overflow_meta_def default_meta_def kMaxTensorNDim_def live_dims_def
      fits_i64_def i64_min_def i64_max_def compute_storage_nbytes_scalar_def
      compute_storage_nbytes_simd_def wrap_i64_def prefix_mask_def broadcast_def simd_lanes_def
      upt_rec eval_nat_numeral)

end
