(* ===== verification/Hash_Mix.thy ===== *)
theory Hash_Mix
  imports Storage_Nbytes
begin

text \<open>
  The hash primitives every identity in the runtime is built from: \<^verbatim>\<open>fmix64\<close> and \<^verbatim>\<open>combine_ids\<close>
  of \<^verbatim>\<open>foundation/reflect/Hash.h\<close> and \<^verbatim>\<open>crucible/Expr.h\<close>, the member-wise folds of
  \<^verbatim>\<open>crucible/Reflect.h\<close>, and the dimension hash of \<^verbatim>\<open>crucible/DimHash.h\<close> in its scalar and its
  vector form.
\<close>

section \<open>The mixer\<close>

definition xorshift33 :: "u64 \<Rightarrow> u64" where
  "xorshift33 k = k XOR drop_bit 33 k"

definition fmix64 :: "u64 \<Rightarrow> u64" where
  "fmix64 k =
    (let k1 = k XOR drop_bit 33 k;
         k2 = k1 * 0xff51afd7ed558ccd;
         k3 = k2 XOR drop_bit 33 k2;
         k4 = k3 * 0xc4ceb9fe1a85ec53
     in k4 XOR drop_bit 33 k4)"

definition golden :: u64 where
  "golden = 0x9E3779B97F4A7C15"

definition combine_ids :: "u64 \<Rightarrow> u64 \<Rightarrow> u64" where
  "combine_ids a b = fmix64 (a XOR (b + golden + push_bit 6 a + drop_bit 2 a))"

text \<open>The 64-bit FNV-1a digest of a byte string, and the name hash built on it.\<close>

fun fnv1a_loop :: "u8 list \<Rightarrow> u64 \<Rightarrow> u64" where
  "fnv1a_loop [] h = h"
| "fnv1a_loop (c # cs) h = fnv1a_loop cs ((h XOR ucast c) * 0x00000100000001b3)"

definition fnv1a_64 :: "u8 list \<Rightarrow> u64" where
  "fnv1a_64 s = fnv1a_loop s 0xcbf29ce484222325"

definition hash_name :: "u8 list \<Rightarrow> u64" where
  "hash_name s = fmix64 (fnv1a_64 s)"


section \<open>Member-wise folds\<close>

definition hash_integral :: "u64 \<Rightarrow> u64" where
  "hash_integral v = fmix64 v"

fun hash_array_loop :: "u64 list \<Rightarrow> u64 \<Rightarrow> u64" where
  "hash_array_loop [] h = h"
| "hash_array_loop (f # fs) h = hash_array_loop fs (h * 0x100000001b3 XOR f)"

definition hash_array :: "u64 list \<Rightarrow> u64" where
  "hash_array fs = fmix64 (hash_array_loop fs 0)"

fun hash_members :: "u64 list \<Rightarrow> u64 \<Rightarrow> u64" where
  "hash_members [] h = h"
| "hash_members (f # fs) h = hash_members fs (h * golden XOR f)"

definition reflect_hash :: "u64 list \<Rightarrow> u64" where
  "reflect_hash members = fmix64 (hash_members members golden)"

fun reflect_fmix_fold :: "u64 list \<Rightarrow> u64 \<Rightarrow> u64" where
  "reflect_fmix_fold [] h = h"
| "reflect_fmix_fold (f # fs) h = reflect_fmix_fold fs (fmix64 (h XOR f))"


section \<open>The dimension hash\<close>

definition kDimMix :: "u64 list" where
  "kDimMix = map (\<lambda>i. golden * word_of_nat (i + 1)) [0..<16]"

fun dim_hash_loop :: "tensor_meta \<Rightarrow> nat list \<Rightarrow> u64 \<Rightarrow> u64" where
  "dim_hash_loop m [] acc = acc"
| "dim_hash_loop m (d # ds) acc =
    dim_hash_loop m ds
      (acc XOR (word_of_int (tm_sizes m ! d) * kDimMix ! d)
           XOR (word_of_int (tm_strides m ! d) * kDimMix ! (d + 8)))"

definition dim_hash_scalar :: "tensor_meta \<Rightarrow> u64" where
  "dim_hash_scalar m = dim_hash_loop m [0..<tm_ndim m] 0"

definition reduce_xor :: "u64 list \<Rightarrow> u64" where
  "reduce_xor v = foldl (XOR) (hd v) (tl v)"

definition reduce_xor_masked :: "u64 list \<Rightarrow> mask8 \<Rightarrow> u64" where
  "reduce_xor_masked v valid = reduce_xor (map2 (\<lambda>c x. if c then x else 0) valid v)"

definition dim_hash_simd :: "tensor_meta \<Rightarrow> u64" where
  "dim_hash_simd m =
    (let sizes_u = map word_of_int (tm_sizes m);
         strides_u = map word_of_int (tm_strides m);
         mix_lo = take simd_lanes kDimMix;
         mix_hi = take simd_lanes (drop simd_lanes kDimMix);
         combined = map2 (XOR) (map2 (*) sizes_u mix_lo) (map2 (*) strides_u mix_hi)
     in reduce_xor_masked combined (prefix_mask (tm_ndim m)))"


section \<open>The mixer is a permutation\<close>

text \<open>The inverse: an xor-shift by more than half the width undoes itself, and each multiplier has an
  inverse modulo $2^{64}$.\<close>

definition unfmix64 :: "u64 \<Rightarrow> u64" where
  "unfmix64 k = xorshift33 (xorshift33 (xorshift33 k * 0x9cb4b2f8129337db) * 0x4f74430c22a54005)"

lemma xorshift33_involution [simp]: "xorshift33 (xorshift33 k) = k"
  by (auto simp: xorshift33_def bit_eq_iff bit_simps)

lemma fmix64_xorshift:
  "fmix64 k = xorshift33 (xorshift33 (xorshift33 k * 0xff51afd7ed558ccd) * 0xc4ceb9fe1a85ec53)"
  by (simp add: fmix64_def xorshift33_def Let_def)

lemma mult_inverse_1:
  "x * 0xff51afd7ed558ccd * 0x4f74430c22a54005 = x" "x * 0x4f74430c22a54005 * 0xff51afd7ed558ccd = x"
  for x :: u64
proof -
  have *: "0xff51afd7ed558ccd * 0x4f74430c22a54005 = (1 :: u64)"
    "0x4f74430c22a54005 * 0xff51afd7ed558ccd = (1 :: u64)"
    by simp_all
  show "x * 0xff51afd7ed558ccd * 0x4f74430c22a54005 = x" "x * 0x4f74430c22a54005 * 0xff51afd7ed558ccd = x"
    by (simp_all only: mult.assoc * mult_1_right)
qed

lemma mult_inverse_2:
  "x * 0xc4ceb9fe1a85ec53 * 0x9cb4b2f8129337db = x" "x * 0x9cb4b2f8129337db * 0xc4ceb9fe1a85ec53 = x"
  for x :: u64
proof -
  have *: "0xc4ceb9fe1a85ec53 * 0x9cb4b2f8129337db = (1 :: u64)"
    "0x9cb4b2f8129337db * 0xc4ceb9fe1a85ec53 = (1 :: u64)"
    by simp_all
  show "x * 0xc4ceb9fe1a85ec53 * 0x9cb4b2f8129337db = x" "x * 0x9cb4b2f8129337db * 0xc4ceb9fe1a85ec53 = x"
    by (simp_all only: mult.assoc * mult_1_right)
qed

lemma unfmix64_fmix64 [simp]: "unfmix64 (fmix64 k) = k"
  by (simp only: unfmix64_def fmix64_xorshift xorshift33_involution mult_inverse_1 mult_inverse_2)

lemma fmix64_unfmix64 [simp]: "fmix64 (unfmix64 k) = k"
  by (simp only: unfmix64_def fmix64_xorshift xorshift33_involution mult_inverse_1 mult_inverse_2)

lemma bij_fmix64: "bij fmix64"
  by (rule o_bij [of unfmix64]) (auto simp: fun_eq_iff)

lemma fmix64_inject [simp]: "fmix64 x = fmix64 y \<longleftrightarrow> x = y"
  by (metis unfmix64_fmix64)

lemma fmix64_0 [simp]: "fmix64 0 = 0"
  by (simp add: fmix64_def)

lemma fmix64_eq_0 [simp]: "fmix64 x = 0 \<longleftrightarrow> x = 0"
  by (metis fmix64_0 fmix64_inject)

lemma xor_left_inject [simp]: "a XOR x = a XOR y \<longleftrightarrow> x = y" for a x y :: u64
proof
  assume eq: "a XOR x = a XOR y"
  have "x = a XOR (a XOR x)"
    by (simp flip: xor.assoc)
  also have "\<dots> = y"
    unfolding eq by (simp flip: xor.assoc)
  finally show "x = y" .
qed simp

lemma combine_ids_inject_right [simp]: "combine_ids a b = combine_ids a c \<longleftrightarrow> b = c"
  by (simp add: combine_ids_def)

text \<open>No input erases the accumulator of a fold: the mixer is a bijection of the 64-bit words,
  zero is the only word it sends to zero, and for every accumulator the combining step is a
  bijection of its input.\<close>

theorem mixing_is_injective:
  "bij fmix64 \<and> (fmix64 x = 0 \<longleftrightarrow> x = 0) \<and> bij (combine_ids a)"
proof -
  have "surj (combine_ids a)"
  proof
    show "UNIV \<subseteq> range (combine_ids a)"
    proof
      fix y
      let ?b = "(a XOR unfmix64 y) - (golden + push_bit 6 a + drop_bit 2 a)"
      have "?b + golden + push_bit 6 a + drop_bit 2 a = a XOR unfmix64 y"
        by (simp add: algebra_simps)
      then have "combine_ids a ?b = y"
        by (simp add: combine_ids_def flip: xor.assoc)
      then show "y \<in> range (combine_ids a)"
        by (metis rangeI)
    qed
  qed simp
  then show ?thesis
    using bij_fmix64 by (simp add: bij_def inj_on_def)
qed


section \<open>The two dimension hashes\<close>

definition dim_term :: "tensor_meta \<Rightarrow> nat \<Rightarrow> u64" where
  "dim_term m d = (word_of_int (tm_sizes m ! d) * kDimMix ! d)
     XOR (word_of_int (tm_strides m ! d) * kDimMix ! (d + 8))"

lemma dim_hash_loop_foldl: "dim_hash_loop m ds acc = foldl (XOR) acc (map (dim_term m) ds)"
  by (induction ds arbitrary: acc) (simp_all add: dim_term_def xor.assoc)

lemma foldl_xor_zeros: "\<forall>x \<in> set xs. x = 0 \<Longrightarrow> foldl (XOR) acc xs = (acc :: u64)"
  by (induction xs arbitrary: acc) auto

lemma reduce_xor_foldl: "v \<noteq> [] \<Longrightarrow> reduce_xor v = foldl (XOR) 0 v"
  by (cases v) (simp_all add: reduce_xor_def)

lemma foldl_xor_prefix:
  fixes f :: "nat \<Rightarrow> u64"
  assumes "n \<le> k"
  shows "foldl (XOR) acc (map (\<lambda>d. if d < n then f d else 0) [0..<k]) = foldl (XOR) acc (map f [0..<n])"
proof -
  have "[0..<k] = [0..<n] @ [n..<k]"
    using assms by (metis le_add_diff_inverse upt_add_eq_append zero_le)
  then have "map (\<lambda>d. if d < n then f d else 0) [0..<k]
      = map f [0..<n] @ map (\<lambda>d. 0) [n..<k]"
    by simp
  then show ?thesis
    by (simp add: foldl_xor_zeros)
qed

lemma length_kDimMix [simp]: "length kDimMix = 16"
  by (simp add: kDimMix_def)

lemma masked_terms:
  assumes "wf_meta m"
  shows "map2 (\<lambda>c x. if c then x else 0) (prefix_mask (tm_ndim m))
      (map2 (XOR) (map2 (*) (map word_of_int (tm_sizes m)) (take simd_lanes kDimMix))
                  (map2 (*) (map word_of_int (tm_strides m)) (take simd_lanes (drop simd_lanes kDimMix))))
    = map (\<lambda>d. if d < tm_ndim m then dim_term m d else 0) [0..<simd_lanes]"
  using wf_meta_lanes [OF assms]
  by (intro nth_equalityI) (auto simp: dim_term_def simd_lanes_def add.commute)

text \<open>The vector dimension hash equals the scalar one on every well-formed descriptor; in
  particular it does not depend on the lanes past the dimension count.\<close>

theorem dim_hash_simd_scalar:
  assumes "wf_meta m"
  shows "dim_hash_simd m = dim_hash_scalar m"
proof -
  have "tm_ndim m \<le> simd_lanes" "simd_lanes > 0"
    using wf_meta_lanes [OF assms] by (simp_all add: simd_lanes_def)
  then show ?thesis
    by (simp add: dim_hash_simd_def reduce_xor_masked_def masked_terms [OF assms] Let_def
        reduce_xor_foldl foldl_xor_prefix dim_hash_scalar_def dim_hash_loop_foldl)
qed

theorem dim_hash_simd_scalar_witness: "dim_hash_simd sample_meta = dim_hash_scalar sample_meta"
  by (rule dim_hash_simd_scalar)
    (simp add: wf_meta_def sample_meta_def default_meta_def kMaxTensorNDim_def fits_i64_def
      i64_min_def i64_max_def)

text \<open>Half of the sixteen lane constants are even, so the dimension hash loses the high bits of
  those lanes: two admissible descriptors that differ only in the stride of their last dimension,
  zero against minus $2^{60}$, have the same dimension hash.\<close>

theorem dim_hash_lane_collision:
  "\<exists>m m'. wf_meta m \<and> wf_meta m' \<and> tm_ndim m = 8 \<and> tm_ndim m' = 8
     \<and> tensor_dim (tm_strides m ! 7) \<noteq> fail Contract_violation
     \<and> tensor_dim (tm_strides m' ! 7) \<noteq> fail Contract_violation
     \<and> tm_strides m ! 7 \<noteq> tm_strides m' ! 7 \<and> m' = m\<lparr>tm_strides := (tm_strides m)[7 := - (2 ^ 60)]\<rparr>
     \<and> dim_hash_scalar m = dim_hash_scalar m'"
proof -
  let ?m = "default_meta\<lparr>tm_ndim := 8\<rparr>" and ?m' = "default_meta\<lparr>tm_ndim := 8, tm_strides := (replicate 8 0)[7 := - (2 ^ 60)]\<rparr>"
  have last: "kDimMix ! 15 = golden * 16"
    by (simp add: kDimMix_def)
  have "dim_term ?m d = dim_term ?m' d" if "d < 8" for d
  proof (cases "d = 7")
    case True
    then show ?thesis
      using last by (simp add: dim_term_def default_meta_def golden_def)
  next
    case False
    then show ?thesis
      using that by (simp add: dim_term_def default_meta_def)
  qed
  then have "map (dim_term ?m) [0..<8] = map (dim_term ?m') [0..<8]"
    by simp
  moreover have "tm_ndim ?m = 8" "tm_ndim ?m' = 8"
    by simp_all
  ultimately have "dim_hash_scalar ?m = dim_hash_scalar ?m'"
    unfolding dim_hash_scalar_def dim_hash_loop_foldl by (simp only:)
  moreover have "wf_meta ?m" "wf_meta ?m'"
    by (simp_all add: wf_meta_def default_meta_def kMaxTensorNDim_def fits_i64_def i64_min_def
        i64_max_def eval_nat_numeral)
  ultimately show ?thesis
    by (intro exI [of _ ?m] exI [of _ ?m'])
      (simp add: tensor_dim_def kMaxTensorDimExtent_def i64_max_def default_meta_def)
qed

text \<open>The combining step is no bijection of the accumulator: two different accumulators give the
  same result on one input, so a fold over several inputs can lose what it has absorbed before.\<close>

theorem combine_ids_accumulator_collision:
  "\<exists>a1 a2 b. a1 \<noteq> a2 \<and> combine_ids a1 b = combine_ids a2 b"
proof (intro exI conjI)
  let ?x = "0x6f2d8899cd6838aa :: u64" and ?b = "0x4400000000000000 - golden"
  show "?x \<noteq> 0"
    by simp
  show "combine_ids ?x ?b = combine_ids 0 ?b"
    by (simp add: combine_ids_def golden_def push_bit_eq_mult drop_bit_eq_div)
qed

end
