(* ===== verification/Merkle_Dag.thy ===== *)
theory Merkle_Dag
  imports Hash_Mix Memory_Plan
begin

text \<open>
  The trace DAG of \<^verbatim>\<open>crucible/MerkleDag.h\<close>: recorded operations, region, branch, loop and terminal
  nodes, the content hash of a region and the Merkle hash of a node, replay of a DAG with its
  binary search over branch arms, the collection of regions, the search for a shared suffix and the
  structural comparison.

  A node is a tree: nodes are immutable once built (apart from the stored Merkle hash), so a shared
  merge node is the same subtree wherever it is reached.  The null pointer is \<^verbatim>\<open>Null\<close>.  A callback
  (guard evaluation, region execution) is a parameter that may read and change a caller's state.  A
  32-bit float is its bit pattern.
\<close>

section \<open>Recorded operations\<close>

record trace_entry =
  te_schema_hash :: u64
  te_shape_hash :: u64
  te_scope_hash :: u64
  te_callsite_hash :: u64
  te_input_metas :: "tensor_meta list option"
  te_output_metas :: "tensor_meta list option"
  te_num_inputs :: nat
  te_num_outputs :: nat
  te_scalar_args :: "int list option"
  te_num_scalar_args :: nat
  te_grad_enabled :: bool
  te_inference_mode :: bool
  te_kernel_id :: nat
  te_is_mutable :: bool
  te_training_phase :: training_phase
  te_torch_function :: bool
  te_input_trace_indices :: "u32 list option"
  te_input_slot_ids :: "u32 list option"
  te_output_slot_ids :: "u32 list option"

definition borrowed :: "'a list option \<Rightarrow> nat \<Rightarrow> 'a list" where
  "borrowed arr n = (case arr of None \<Rightarrow> [] | Some xs \<Rightarrow> take n xs)"

definition input_span :: "trace_entry \<Rightarrow> tensor_meta list" where
  "input_span e = borrowed (te_input_metas e) (te_num_inputs e)"

definition output_span :: "trace_entry \<Rightarrow> tensor_meta list" where
  "output_span e = borrowed (te_output_metas e) (te_num_outputs e)"

definition scalar_span :: "trace_entry \<Rightarrow> int list" where
  "scalar_span e = borrowed (te_scalar_args e) (te_num_scalar_args e)"


section \<open>Content hashes\<close>

definition meta_packed :: "tensor_meta \<Rightarrow> u64" where
  "meta_packed m =
     word_of_int (scalar_ord (tm_dtype m))
     OR push_bit 8 (word_of_int (device_ord (tm_device_type m)))
     OR push_bit 16 (ucast (word_of_int (tm_device_idx m) :: u8))"

fun fold_inputs :: "tensor_meta list \<Rightarrow> u64 \<Rightarrow> u64" where
  "fold_inputs [] st = st"
| "fold_inputs (m # ms) st = fold_inputs ms (combine_ids st (dim_hash_simd m XOR meta_packed m))"

fun fold_scalars :: "int list \<Rightarrow> u64 \<Rightarrow> u64" where
  "fold_scalars [] st = st"
| "fold_scalars (x # xs) st = fold_scalars xs (combine_ids st (word_of_int x))"

definition fold_entry :: "trace_entry \<Rightarrow> u64 \<Rightarrow> u64" where
  "fold_entry op st =
    (let st1 = combine_ids st (te_schema_hash op);
         st2 = fold_inputs (input_span op) st1;
         st3 = combine_ids st2 (word_of_nat (te_num_scalar_args op))
     in fold_scalars (scalar_span op) st3)"

definition content_fold_start :: "u64 option \<Rightarrow> u64 checked" where
  "content_fold_start recipe =
    (case recipe of
       None \<Rightarrow> ok golden
     | Some h \<Rightarrow> if h = 0 then fail Contract_violation
                 else if h = hash_sentinel then fail Contract_violation
                 else ok (combine_ids golden h))"

definition content_fold_finish :: "u64 \<Rightarrow> u64" where
  "content_fold_finish st = fmix64 st"

definition compute_content_hash :: "trace_entry list \<Rightarrow> u64 option \<Rightarrow> u64 checked" where
  "compute_content_hash ops recipe =
    (case content_fold_start recipe of
       Inl e \<Rightarrow> fail e
     | Inr st \<Rightarrow> ok (content_fold_finish (fold fold_entry ops st)))"


section \<open>Nodes\<close>

datatype guard_kind = SHAPE_DIM | SCALAR_VALUE | DTYPE | DEVICE | OP_SEQUENCE

fun guard_kind_ord :: "guard_kind \<Rightarrow> u64" where
  "guard_kind_ord SHAPE_DIM = 0"
| "guard_kind_ord SCALAR_VALUE = 1"
| "guard_kind_ord DTYPE = 2"
| "guard_kind_ord DEVICE = 3"
| "guard_kind_ord OP_SEQUENCE = 4"

record guard =
  g_kind :: guard_kind
  g_op_index :: u32
  g_arg_index :: u16
  g_dim_index :: u16

definition guard_hash :: "guard \<Rightarrow> u64" where
  "guard_hash g = reflect_hash
    [hash_integral (guard_kind_ord (g_kind g)),
     hash_array [hash_integral 0, hash_integral 0, hash_integral 0],
     reflect_hash [hash_integral (ucast (g_op_index g))],
     hash_integral (ucast (g_arg_index g)),
     hash_integral (ucast (g_dim_index g))]"

record region =
  rg_content_hash :: u64
  rg_ops :: "trace_entry list"
  rg_first_op_schema :: u64
  rg_measured_ms :: u32
  rg_variant_id :: u32
  rg_plan :: "memory_plan option"

datatype loop_term = REPEAT | UNTIL

fun loop_term_ord :: "loop_term \<Rightarrow> u64" where
  "loop_term_ord REPEAT = 0"
| "loop_term_ord UNTIL = 1"

record feedback_edge =
  fe_output_idx :: u16
  fe_input_idx :: u16

record loop_info =
  lp_body_content_hash :: u64
  lp_feedback :: "feedback_edge list"
  lp_term_kind :: loop_term
  lp_repeat_count :: nat
  lp_epsilon :: u32
  lp_measured_body_ms :: u32

datatype trace_node =
    Null
  | Region u64 region trace_node
  | Branch u64 guard "(int \<times> trace_node) list" trace_node
  | Loop u64 loop_info trace_node trace_node
  | Terminal u64 trace_node

fun merkle_hash :: "trace_node \<Rightarrow> u64" where
  "merkle_hash Null = 0"
| "merkle_hash (Region h r nx) = h"
| "merkle_hash (Branch h g arms nx) = h"
| "merkle_hash (Loop h l body nx) = h"
| "merkle_hash (Terminal h nx) = h"

definition are_arms_sorted_by_value :: "(int \<times> trace_node) list \<Rightarrow> bool" where
  "are_arms_sorted_by_value arms \<longleftrightarrow>
     list_all (\<lambda>i. \<not> fst (arms ! i) < fst (arms ! (i - 1))) [1..<length arms]"

fun feedback_loop :: "feedback_edge list \<Rightarrow> u64 \<Rightarrow> u64" where
  "feedback_loop [] st = st"
| "feedback_loop (e # es) st =
    feedback_loop es (combine_ids st
      (reflect_hash [hash_integral (ucast (fe_output_idx e)), hash_integral (ucast (fe_input_idx e))]))"

definition feedback_signature :: "feedback_edge list \<Rightarrow> u64" where
  "feedback_signature edges =
    (if edges = [] then 0
     else combine_ids (feedback_loop edges 0x6665656462616B73) (word_of_nat (length edges)))"

definition loopterm_hash :: "loop_info \<Rightarrow> u64" where
  "loopterm_hash l = reflect_fmix_fold
    [loop_term_ord (lp_term_kind l), word_of_nat (lp_repeat_count l), ucast (lp_epsilon l)] 0x7465726D696E6174"

fun body_hash_loop :: "trace_node \<Rightarrow> u64 \<Rightarrow> u64" where
  "body_hash_loop Null st = st"
| "body_hash_loop (Region h r nx) st = body_hash_loop nx (combine_ids st (rg_content_hash r))"
| "body_hash_loop (Branch h g arms nx) st = body_hash_loop nx st"
| "body_hash_loop (Loop h l body nx) st = body_hash_loop nx st"
| "body_hash_loop (Terminal h nx) st = body_hash_loop nx st"

definition compute_body_content_hash :: "trace_node \<Rightarrow> u64" where
  "compute_body_content_hash body = fmix64 (body_hash_loop body golden)"

fun fold_arm_hashes :: "u64 list \<Rightarrow> u64 \<Rightarrow> u64" where
  "fold_arm_hashes [] st = st"
| "fold_arm_hashes (h # hs) st = fold_arm_hashes hs ((st XOR fmix64 h) * golden)"

definition with_next :: "trace_node \<Rightarrow> u64 \<Rightarrow> u64" where
  "with_next nx st = (if nx = Null then st else fmix64 (st XOR merkle_hash nx))"

fun compute_merkle_hash :: "trace_node \<Rightarrow> u64" where
  "compute_merkle_hash Null = 0"
| "compute_merkle_hash (Region h r nx) = with_next nx (rg_content_hash r)"
| "compute_merkle_hash (Branch h g arms nx) =
    with_next nx (fold_arm_hashes (map (merkle_hash \<circ> snd) arms) (fmix64 (guard_hash g)))"
| "compute_merkle_hash (Loop h l body nx) =
    with_next nx
      (fmix64 (lp_body_content_hash l XOR 0x4C4F4F504E4F4445)
       XOR fmix64 (feedback_signature (lp_feedback l) XOR 0x6665656462616B00)
       XOR loopterm_hash l)"
| "compute_merkle_hash (Terminal h nx) = 0"

definition branched_content_hash :: "guard \<Rightarrow> (int \<times> trace_node) list \<Rightarrow> u64" where
  "branched_content_hash g arms =
    fmix64 (fold_arm_hashes
      (concat (map (\<lambda>(v, t). case t of Region h r nx \<Rightarrow> [rg_content_hash r] | _ \<Rightarrow> []) arms))
      (fmix64 (guard_hash g)))"


section \<open>Floating-point conditions, on bit patterns\<close>

definition f32_is_nan :: "u32 \<Rightarrow> bool" where
  "f32_is_nan b \<longleftrightarrow> b AND 0x7FFFFFFF > 0x7F800000"

definition f32_is_finite :: "u32 \<Rightarrow> bool" where
  "f32_is_finite b \<longleftrightarrow> b AND 0x7FFFFFFF < 0x7F800000"

definition f32_ge_zero :: "u32 \<Rightarrow> bool" where
  "f32_ge_zero b \<longleftrightarrow> \<not> f32_is_nan b \<and> (b < 0x80000000 \<or> b = 0x80000000)"

definition f32_gt_zero :: "u32 \<Rightarrow> bool" where
  "f32_gt_zero b \<longleftrightarrow> \<not> f32_is_nan b \<and> b \<noteq> 0 \<and> b < 0x80000000"


section \<open>Construction\<close>

definition fresh_region :: region where
  "fresh_region = \<lparr>rg_content_hash = 0, rg_ops = [], rg_first_op_schema = 0, rg_measured_ms = 0,
     rg_variant_id = 0, rg_plan = None\<rparr>"

definition first_schema :: "trace_entry list \<Rightarrow> u64" where
  "first_schema ops = (case ops of [] \<Rightarrow> 0 | op # _ \<Rightarrow> te_schema_hash op)"

definition make_region :: "trace_entry list \<Rightarrow> u64 option \<Rightarrow> trace_node checked" where
  "make_region ops recipe =
    (case compute_content_hash ops recipe of
       Inl e \<Rightarrow> fail e
     | Inr h \<Rightarrow>
         if ops \<noteq> [] \<and> h = 0 then fail Contract_violation
         else ok (Region 0 (fresh_region\<lparr>rg_ops := ops, rg_content_hash := h,
                                          rg_first_op_schema := first_schema ops\<rparr>) Null))"

definition init_region_node :: "region \<Rightarrow> trace_entry list \<Rightarrow> u64 \<Rightarrow> region checked" where
  "init_region_node node ops precomputed =
    (if \<not> (precomputed \<noteq> 0 \<or> ops = []) then fail Contract_violation
     else if rg_content_hash node \<noteq> 0 then fail Contract_violation
     else ok (node\<lparr>rg_ops := ops, rg_content_hash := precomputed, rg_first_op_schema := first_schema ops\<rparr>))"

definition set_measured_ms :: "region \<Rightarrow> u32 \<Rightarrow> region checked" where
  "set_measured_ms r ms =
    (if \<not> f32_ge_zero ms then fail Contract_violation
     else if ms AND 0x7FFFFFFF = 0x7F800000 then fail Contract_violation
     else ok (r\<lparr>rg_measured_ms := ms\<rparr>))"

definition has_measurement :: "region \<Rightarrow> bool" where
  "has_measurement r \<longleftrightarrow> f32_gt_zero (rg_measured_ms r)"

definition has_variant :: "region \<Rightarrow> bool" where
  "has_variant r \<longleftrightarrow> rg_variant_id r \<noteq> 0"

definition set_variant :: "region \<Rightarrow> u32 \<Rightarrow> region checked" where
  "set_variant r new_id =
    (if new_id = 0 then fail Contract_violation
     else if \<not> rg_variant_id r \<le> new_id then fail Contract_violation
     else ok (r\<lparr>rg_variant_id := new_id\<rparr>))"

definition computed_content_hash :: "region \<Rightarrow> u64 checked" where
  "computed_content_hash r = (if rg_content_hash r = 0 then fail Contract_violation else ok (rg_content_hash r))"

definition computed_merkle_hash :: "trace_node \<Rightarrow> u64 checked" where
  "computed_merkle_hash n = (if merkle_hash n = 0 then fail Contract_violation else ok (merkle_hash n))"

definition make_terminal :: trace_node where
  "make_terminal = Terminal 0 Null"

definition make_loop :: "trace_node \<Rightarrow> u64 \<Rightarrow> feedback_edge list \<Rightarrow> loop_term \<Rightarrow> nat \<Rightarrow> u32 \<Rightarrow> trace_node checked" where
  "make_loop body body_hash feedback term_kind repeat_count epsilon =
    (if body = Null then fail Contract_violation
     else if \<not> f32_is_finite epsilon then fail Contract_violation
     else if \<not> f32_ge_zero epsilon then fail Contract_violation
     else if \<not> (term_kind \<noteq> UNTIL \<or> repeat_count > 0) then fail Contract_violation
     else ok (Loop 0 \<lparr>lp_body_content_hash = body_hash, lp_feedback = feedback, lp_term_kind = term_kind,
                lp_repeat_count = repeat_count, lp_epsilon = epsilon, lp_measured_body_ms = 0\<rparr> body Null))"

fun recompute_merkle :: "trace_node \<Rightarrow> trace_node" where
  "recompute_merkle Null = Null"
| "recompute_merkle (Region h r nx) =
    (let nx' = recompute_merkle nx in Region (compute_merkle_hash (Region h r nx')) r nx')"
| "recompute_merkle (Branch h g arms nx) =
    (let arms' = map (\<lambda>(v, t). (v, recompute_merkle t)) arms; nx' = recompute_merkle nx
     in Branch (compute_merkle_hash (Branch h g arms' nx')) g arms' nx')"
| "recompute_merkle (Loop h l body nx) =
    (let body' = recompute_merkle body; nx' = recompute_merkle nx
     in Loop (compute_merkle_hash (Loop h l body' nx')) l body' nx')"
| "recompute_merkle (Terminal h nx) =
    (let nx' = recompute_merkle nx in Terminal (compute_merkle_hash (Terminal h nx')) nx')"


section \<open>Walks\<close>

fun collect_regions :: "nat \<Rightarrow> trace_node \<Rightarrow> region list \<Rightarrow> region list" where
  "collect_regions cap Null out = out"
| "collect_regions cap (Region h r nx) out =
    (if length out < cap then collect_regions cap nx (out @ [r]) else out)"
| "collect_regions cap (Branch h g arms nx) out =
    (if length out < cap
     then collect_regions cap nx (fold (\<lambda>(v, t) acc. collect_regions cap t acc) arms out) else out)"
| "collect_regions cap (Loop h l body nx) out =
    (if length out < cap then collect_regions cap nx (collect_regions cap body out) else out)"
| "collect_regions cap (Terminal h nx) out =
    (if length out < cap then collect_regions cap nx out else out)"

fun dag_node_count :: "trace_node \<Rightarrow> u32" where
  "dag_node_count Null = 0"
| "dag_node_count (Region h r nx) = 1 + dag_node_count nx"
| "dag_node_count (Branch h g arms nx) =
    fold (\<lambda>(v, t) c. c + dag_node_count t) arms 1 + dag_node_count nx"
| "dag_node_count (Loop h l body nx) = 1 + dag_node_count body + dag_node_count nx"
| "dag_node_count (Terminal h nx) = 1 + dag_node_count nx"

definition merge_max_regions :: nat where
  "merge_max_regions = 1024"

fun region_chain :: "nat \<Rightarrow> trace_node \<Rightarrow> trace_node list" where
  "region_chain (Suc n) (Region h r nx) = Region h r nx # region_chain n nx"
| "region_chain _ _ = []"

fun node_region :: "trace_node \<Rightarrow> region" where
  "node_region (Region h r nx) = r"
| "node_region _ = fresh_region"

fun merge_walk :: "trace_entry list \<Rightarrow> u64 option \<Rightarrow> trace_node list \<Rightarrow> nat \<Rightarrow> trace_node \<Rightarrow> trace_node" where
  "merge_walk new_ops recipe [] pos merge = merge"
| "merge_walk new_ops recipe (n # ns) pos merge =
    (if pos = 0 then merge
     else let k = length (rg_ops (node_region n)) in
       if pos < k then merge
       else if compute_content_hash (take k (drop (pos - k) new_ops)) recipe = ok (rg_content_hash (node_region n))
       then merge_walk new_ops recipe ns (pos - k) n
       else merge)"

definition find_merge_point :: "trace_entry list \<Rightarrow> trace_node \<Rightarrow> u64 option \<Rightarrow> trace_node checked" where
  "find_merge_point new_ops existing recipe =
    (if recipe = Some 0 \<or> recipe = Some hash_sentinel then fail Contract_violation
     else ok (merge_walk new_ops recipe (rev (region_chain merge_max_regions existing)) (length new_ops) Null))"


section \<open>Replay\<close>

function find_arm :: "(int \<times> trace_node) list \<Rightarrow> int \<Rightarrow> nat \<Rightarrow> nat \<Rightarrow> trace_node" where
  "find_arm arms v lo hi =
    (if lo < hi then
       let mid = lo + (hi - lo) div 2; mid_val = fst (arms ! mid) in
       if mid_val < v then find_arm arms v (mid + 1) hi
       else if mid_val > v then find_arm arms v lo mid
       else snd (arms ! mid)
     else Null)"
  by pat_completeness auto
termination
  by (relation "measure (\<lambda>(arms, v, lo, hi). hi - lo)") auto

declare find_arm.simps [simp del]

fun repeat_body :: "nat \<Rightarrow> ('s \<Rightarrow> (bool \<times> 's) checked) \<Rightarrow> 's \<Rightarrow> (bool \<times> 's) checked" where
  "repeat_body 0 body s = ok (True, s)"
| "repeat_body (Suc n) body s =
    (case body s of
       Inl e \<Rightarrow> fail e
     | Inr (b, s') \<Rightarrow> if b then repeat_body n body s' else ok (False, s'))"

lemma find_arm_mem:
  assumes "hi \<le> length arms" "find_arm arms v lo hi \<noteq> Null"
  shows "(v, find_arm arms v lo hi) \<in> set arms"
  using assms
proof (induction arms v lo hi rule: find_arm.induct)
  case (1 arms v lo hi)
  define mid where "mid = lo + (hi - lo) div 2"
  have lohi: "lo < hi"
    using "1.prems"(2) by (subst (asm) find_arm.simps) (simp split: if_splits)
  then have mid: "mid < hi"
    by (simp add: mid_def)
  then have nth: "arms ! mid \<in> set arms"
    using "1.prems"(1) by simp
  consider "fst (arms ! mid) < v" | "fst (arms ! mid) > v" | "fst (arms ! mid) = v"
    by linarith
  then show ?case
  proof cases
    case 1
    then have eq: "find_arm arms v lo hi = find_arm arms v (mid + 1) hi"
      using lohi by (subst find_arm.simps) (simp add: mid_def Let_def)
    show ?thesis
      using "1.IH"(1)[OF lohi mid_def refl] 1 "1.prems" eq by simp
  next
    case 2
    then have eq: "find_arm arms v lo hi = find_arm arms v lo mid"
      using lohi by (subst find_arm.simps) (simp add: mid_def Let_def)
    show ?thesis
      using "1.IH"(2)[OF lohi mid_def refl] 2 "1.prems" eq mid by simp
  next
    case 3
    then have "find_arm arms v lo hi = snd (arms ! mid)"
      using lohi by (subst find_arm.simps) (simp add: mid_def Let_def)
    then show ?thesis
      using nth 3 by (metis prod.collapse)
  qed
qed

lemma arm_size:
  assumes "(v, t) \<in> set arms"
  shows "size t < size (Branch h g arms nx)"
proof -
  have "size t < Suc (size_list (size_prod (\<lambda>x. 0) size) arms)"
    using size_list_estimation'[OF assms, of "size t" "size_prod (\<lambda>x. 0) size"] by simp
  then show ?thesis
    by simp
qed

function (sequential) replay ::
  "(guard \<Rightarrow> 's \<Rightarrow> int \<times> 's) \<Rightarrow> (region \<Rightarrow> 's \<Rightarrow> 's) \<Rightarrow> trace_node \<Rightarrow> 's \<Rightarrow> (bool \<times> 's) checked" where
  "replay ev ex Null s = ok (True, s)"
| "replay ev ex (Region h r nx) s = replay ev ex nx (ex r s)"
| "replay ev ex (Branch h g arms nx) s =
    (case ev g s of (v, s1) \<Rightarrow>
       if \<not> are_arms_sorted_by_value arms then fail Contract_violation
       else let arm = find_arm arms v 0 (length arms) in
         if arm = Null then ok (False, s1)
         else (case replay ev ex arm s1 of
                 Inl e \<Rightarrow> fail e
               | Inr (b, s2) \<Rightarrow> if \<not> b then ok (False, s2) else replay ev ex nx s2))"
| "replay ev ex (Loop h l body nx) s =
    (if body = Null then fail Fatal_invariant
     else if \<not> (lp_term_kind l \<noteq> UNTIL \<or> lp_repeat_count l > 0) then fail Fatal_invariant
     else (case repeat_body (lp_repeat_count l) (\<lambda>s'. replay ev ex body s') s of
             Inl e \<Rightarrow> fail e
           | Inr (b, s2) \<Rightarrow> if \<not> b then ok (False, s2) else replay ev ex nx s2))"
| "replay ev ex (Terminal h nx) s = ok (True, s)"
  by pat_completeness auto
termination
  by (relation "measure (\<lambda>(ev, ex, n, s). size n)")
    (auto intro!: arm_size[simplified] dest: find_arm_mem[OF order.refl])


section \<open>Structural comparison\<close>

datatype diff_kind = IDENTICAL | KIND_MISMATCH | CONTENT_MISMATCH | BRANCH_MISMATCH | LOOP_MISMATCH
  | STRUCTURE_MISMATCH

record dag_difference =
  df_node_a :: trace_node
  df_node_b :: trace_node
  df_depth :: u32
  df_kind :: diff_kind

definition loops_differ :: "loop_info \<Rightarrow> loop_info \<Rightarrow> bool" where
  "loops_differ la lb \<longleftrightarrow>
     lp_body_content_hash la \<noteq> lp_body_content_hash lb
     \<or> length (lp_feedback la) \<noteq> length (lp_feedback lb)
     \<or> lp_term_kind la \<noteq> lp_term_kind lb
     \<or> lp_repeat_count la \<noteq> lp_repeat_count lb
     \<or> lp_epsilon la \<noteq> lp_epsilon lb
     \<or> lp_feedback la \<noteq> lp_feedback lb"

definition no_diff :: "u32 \<Rightarrow> dag_difference" where
  "no_diff d = \<lparr>df_node_a = Null, df_node_b = Null, df_depth = d, df_kind = IDENTICAL\<rparr>"

definition diff_at :: "trace_node \<Rightarrow> trace_node \<Rightarrow> u32 \<Rightarrow> diff_kind \<Rightarrow> dag_difference" where
  "diff_at a b d k = \<lparr>df_node_a = a, df_node_b = b, df_depth = d, df_kind = k\<rparr>"

function (sequential)
  dag_diff :: "trace_node \<Rightarrow> trace_node \<Rightarrow> u32 \<Rightarrow> dag_difference"
  and arms_diff :: "trace_node \<Rightarrow> trace_node \<Rightarrow> (int \<times> trace_node) list \<Rightarrow> (int \<times> trace_node) list \<Rightarrow> u32
    \<Rightarrow> dag_difference"
where
  "dag_diff Null Null d = no_diff d"
| "dag_diff Null b d = diff_at Null b d STRUCTURE_MISMATCH"
| "dag_diff a Null d = diff_at a Null d STRUCTURE_MISMATCH"
| "dag_diff (Terminal h nx) (Terminal h' nx') d = no_diff d"
| "dag_diff (Region h r nx) (Region h' r' nx') d =
    (if h = h' then no_diff d
     else if rg_content_hash r \<noteq> rg_content_hash r'
     then diff_at (Region h r nx) (Region h' r' nx') d CONTENT_MISMATCH
     else dag_diff nx nx' (d + 1))"
| "dag_diff (Branch h g arms nx) (Branch h' g' arms' nx') d =
    (if h = h' then no_diff d
     else if guard_hash g \<noteq> guard_hash g' \<or> length arms \<noteq> length arms'
     then diff_at (Branch h g arms nx) (Branch h' g' arms' nx') d BRANCH_MISMATCH
     else let ad = arms_diff (Branch h g arms nx) (Branch h' g' arms' nx') arms arms' d in
       if df_kind ad \<noteq> IDENTICAL then ad else dag_diff nx nx' (d + 1))"
| "dag_diff (Loop h l body nx) (Loop h' l' body' nx') d =
    (if h = h' then no_diff d
     else if loops_differ l l'
     then diff_at (Loop h l body nx) (Loop h' l' body' nx') d LOOP_MISMATCH
     else let bd = dag_diff body body' (d + 1) in
       if df_kind bd \<noteq> IDENTICAL then bd else dag_diff nx nx' (d + 1))"
| "dag_diff a b d = (if merkle_hash a = merkle_hash b then no_diff d else diff_at a b d KIND_MISMATCH)"
| "arms_diff a b ((v, t) # as) ((v', t') # bs) d =
    (if v \<noteq> v' then diff_at a b d BRANCH_MISMATCH
     else let ad = dag_diff t t' (d + 1) in
       if df_kind ad \<noteq> IDENTICAL then ad else arms_diff a b as bs d)"
| "arms_diff a b _ _ d = no_diff d"
  by pat_completeness auto
termination
  by (relation "measure (case_sum (\<lambda>(a, b, d). 2 * size a)
        (\<lambda>(a, b, as, bs, d). Suc (2 * size_list (size_prod (\<lambda>x. 0) size) as)))") auto

end
