(* ===== verification/Merkle_Dag_Correct.thy ===== *)
theory Merkle_Dag_Correct
  imports Merkle_Dag
begin

text \<open>
  Correctness of the trace DAG of \<^verbatim>\<open>Merkle_Dag\<close>: replay against a relational semantics of a recorded
  trace, the Merkle invariant that \<^verbatim>\<open>recompute_merkle\<close> establishes, what the walks return, what a merge
  point and a reported difference guarantee, and where equal hashes do not mean equal computations.
\<close>

section \<open>Reference definitions\<close>

fun all_regions :: "trace_node \<Rightarrow> region list" where
  "all_regions Null = []"
| "all_regions (Region h r nx) = r # all_regions nx"
| "all_regions (Branch h g arms nx) = concat (map (\<lambda>(v, t). all_regions t) arms) @ all_regions nx"
| "all_regions (Loop h l body nx) = all_regions body @ all_regions nx"
| "all_regions (Terminal h nx) = all_regions nx"

fun node_total :: "trace_node \<Rightarrow> nat" where
  "node_total Null = 0"
| "node_total (Region h r nx) = 1 + node_total nx"
| "node_total (Branch h g arms nx) = 1 + sum_list (map (\<lambda>(v, t). node_total t) arms) + node_total nx"
| "node_total (Loop h l body nx) = 1 + node_total body + node_total nx"
| "node_total (Terminal h nx) = 1 + node_total nx"

fun subnodes :: "trace_node \<Rightarrow> trace_node set" where
  "subnodes Null = {Null}"
| "subnodes (Region h r nx) = insert (Region h r nx) (subnodes nx)"
| "subnodes (Branch h g arms nx) =
    insert (Branch h g arms nx) (\<Union> (set (map (\<lambda>(v, t). subnodes t) arms)) \<union> subnodes nx)"
| "subnodes (Loop h l body nx) = insert (Loop h l body nx) (subnodes body \<union> subnodes nx)"
| "subnodes (Terminal h nx) = insert (Terminal h nx) (subnodes nx)"

definition merkle_ok :: "trace_node \<Rightarrow> bool" where
  "merkle_ok n \<longleftrightarrow> (\<forall>m \<in> subnodes n. merkle_hash m = compute_merkle_hash m)"

fun erase_hashes :: "trace_node \<Rightarrow> trace_node" where
  "erase_hashes Null = Null"
| "erase_hashes (Region h r nx) = Region 0 r (erase_hashes nx)"
| "erase_hashes (Branch h g arms nx) = Branch 0 g (map (\<lambda>(v, t). (v, erase_hashes t)) arms) (erase_hashes nx)"
| "erase_hashes (Loop h l body nx) = Loop 0 l (erase_hashes body) (erase_hashes nx)"
| "erase_hashes (Terminal h nx) = Terminal 0 (erase_hashes nx)"

text \<open>What the factories and the recorder guarantee of a DAG that is replayed.\<close>

fun replayable :: "trace_node \<Rightarrow> bool" where
  "replayable Null = True"
| "replayable (Region h r nx) = replayable nx"
| "replayable (Branch h g arms nx) =
    (sorted_wrt (<) (map fst arms) \<and> list_all (\<lambda>(v, t). t \<noteq> Null \<and> replayable t) arms \<and> replayable nx)"
| "replayable (Loop h l body nx) =
    (body \<noteq> Null \<and> (lp_term_kind l \<noteq> UNTIL \<or> lp_repeat_count l > 0) \<and> replayable body \<and> replayable nx)"
| "replayable (Terminal h nx) = True"

text \<open>The recorded executions of a DAG: a region runs, a branch follows the arm of the observed
  value and then the merge node, a loop runs its body the recorded number of times.\<close>

inductive trace_run ::
    "(guard \<Rightarrow> 's \<Rightarrow> int \<times> 's) \<Rightarrow> (region \<Rightarrow> 's \<Rightarrow> 's) \<Rightarrow> trace_node \<Rightarrow> 's \<Rightarrow> 's \<Rightarrow> bool"
  and body_runs ::
    "(guard \<Rightarrow> 's \<Rightarrow> int \<times> 's) \<Rightarrow> (region \<Rightarrow> 's \<Rightarrow> 's) \<Rightarrow> nat \<Rightarrow> trace_node \<Rightarrow> 's \<Rightarrow> 's \<Rightarrow> bool"
  for ev :: "guard \<Rightarrow> 's \<Rightarrow> int \<times> 's" and ex :: "region \<Rightarrow> 's \<Rightarrow> 's" where
  run_null: "trace_run ev ex Null s s"
| run_terminal: "trace_run ev ex (Terminal h nx) s s"
| run_region: "trace_run ev ex nx (ex r s) t \<Longrightarrow> trace_run ev ex (Region h r nx) s t"
| run_branch: "\<lbrakk>ev g s = (v, s1); (v, arm) \<in> set arms; trace_run ev ex arm s1 s2; trace_run ev ex nx s2 t\<rbrakk>
    \<Longrightarrow> trace_run ev ex (Branch h g arms nx) s t"
| run_loop: "\<lbrakk>body_runs ev ex (lp_repeat_count l) body s s1; trace_run ev ex nx s1 t\<rbrakk>
    \<Longrightarrow> trace_run ev ex (Loop h l body nx) s t"
| runs_done: "body_runs ev ex 0 body s s"
| runs_again: "\<lbrakk>trace_run ev ex body s s1; body_runs ev ex n body s1 t\<rbrakk> \<Longrightarrow> body_runs ev ex (Suc n) body s t"

inductive_simps trace_run_simps [simp]:
  "trace_run ev ex Null s t"
  "trace_run ev ex (Terminal h nx) s t"
  "trace_run ev ex (Region h r nx) s t"
  "trace_run ev ex (Branch h g arms nx) s t"
  "trace_run ev ex (Loop h l body nx) s t"
  "body_runs ev ex 0 body s t"
  "body_runs ev ex (Suc n) body s t"

lemma trace_node_induct [case_names Null Region Branch Loop Terminal]:
  assumes "P Null"
    and "\<And>h r nx. P nx \<Longrightarrow> P (Region h r nx)"
    and "\<And>h g arms nx. (\<And>v t. (v, t) \<in> set arms \<Longrightarrow> P t) \<Longrightarrow> P nx \<Longrightarrow> P (Branch h g arms nx)"
    and "\<And>h l body nx. P body \<Longrightarrow> P nx \<Longrightarrow> P (Loop h l body nx)"
    and "\<And>h nx. P nx \<Longrightarrow> P (Terminal h nx)"
  shows "P n"
  using assms by (induction n) (auto elim!: snds.cases)


section \<open>Replay\<close>

lemma find_arm_finds:
  assumes "sorted_wrt (<) (map fst arms)" "hi \<le> length arms" "i < hi" "lo \<le> i"
  shows "find_arm arms (fst (arms ! i)) lo hi = snd (arms ! i)"
  using assms
proof (induction "hi - lo" arbitrary: lo hi rule: less_induct)
  case less
  define mid where "mid = lo + (hi - lo) div 2"
  have lohi: "lo < hi" "lo \<le> mid" "mid < hi"
    using less.prems by (simp_all add: mid_def)
  have mono: "fst (arms ! j) < fst (arms ! k)" if "j < k" "k < hi" for j k
    using sorted_wrt_nth_less[OF less.prems(1) that(1)] that less.prems(2) by simp
  have step: "find_arm arms v lo hi =
      (if fst (arms ! mid) < v then find_arm arms v (mid + 1) hi
       else if fst (arms ! mid) > v then find_arm arms v lo mid else snd (arms ! mid))" for v
    using lohi by (subst find_arm.simps) (simp add: mid_def Let_def)
  consider "mid < i" | "i < mid" | "i = mid"
    by linarith
  then show ?case
  proof cases
    case 1
    then show ?thesis
      using mono[OF 1 less.prems(3)] less.hyps[of hi "mid + 1"] less.prems lohi by (simp add: step)
  next
    case 2
    then show ?thesis
      using mono[OF 2 lohi(3)] less.hyps[of mid lo] less.prems lohi by (simp add: step)
  next
    case 3
    then show ?thesis
      by (simp add: step)
  qed
qed

lemma find_arm_iff:
  assumes "sorted_wrt (<) (map fst arms)" "t \<noteq> Null"
  shows "find_arm arms v 0 (length arms) = t \<longleftrightarrow> (v, t) \<in> set arms"
proof
  assume "find_arm arms v 0 (length arms) = t"
  then show "(v, t) \<in> set arms"
    using find_arm_mem[of "length arms" arms v 0] assms(2) by auto
next
  assume "(v, t) \<in> set arms"
  then obtain i where "i < length arms" "arms ! i = (v, t)"
    by (auto simp: in_set_conv_nth)
  then show "find_arm arms v 0 (length arms) = t"
    using find_arm_finds[OF assms(1) order.refl, of i 0] by simp
qed

lemma sorted_arms_contract: "sorted_wrt (<) (map fst arms) \<Longrightarrow> are_arms_sorted_by_value arms"
  by (auto simp: are_arms_sorted_by_value_def list_all_iff sorted_wrt_iff_nth_less not_less intro!: less_imp_le)

lemma repeat_body_runs:
  assumes "\<And>s. \<exists>b t. body s = ok (b, t)"
    and "\<And>s t. body s = ok (True, t) \<longleftrightarrow> trace_run ev ex n s t"
  shows "(\<exists>b t. repeat_body k body s = ok (b, t))
     \<and> (repeat_body k body s = ok (True, t) \<longleftrightarrow> body_runs ev ex k n s t)"
proof (induction k arbitrary: s t)
  case (Suc k)
  obtain b s1 where b: "body s = ok (b, s1)"
    using assms(1) by blast
  have "trace_run ev ex n s s2 \<longleftrightarrow> b \<and> s2 = s1" for s2
    using assms(2)[of s s2] b by auto
  then show ?case
    using Suc b by auto
qed auto

lemma replay_total_correct:
  "replayable n \<Longrightarrow>
     (\<exists>b t. replay ev ex n s = ok (b, t)) \<and> (replay ev ex n s = ok (True, t) \<longleftrightarrow> trace_run ev ex n s t)"
proof (induction n arbitrary: s t rule: trace_node_induct)
  case (Branch h g arms nx)
  obtain v s1 where ev: "ev g s = (v, s1)"
    by fastforce
  define arm where "arm = find_arm arms v 0 (length arms)"
  have srt: "sorted_wrt (<) (map fst arms)" "are_arms_sorted_by_value arms"
    using Branch.prems by (simp_all add: sorted_arms_contract)
  have nonnull: "t \<noteq> Null" "replayable t" if "(w, t) \<in> set arms" for w t
    using Branch.prems that by (auto simp: list_all_iff)
  have uniq: "(v, t) \<in> set arms \<longleftrightarrow> t = arm \<and> arm \<noteq> Null" for t
    using find_arm_iff[OF srt(1), of t v] nonnull(1)[of v t] find_arm_mem[of "length arms" arms v 0]
    by (auto simp: arm_def)
  show ?case
  proof (cases "arm = Null")
    case True
    then show ?thesis
      using ev srt(2) uniq by (auto simp: arm_def[symmetric])
  next
    case False
    then have mem: "(v, arm) \<in> set arms"
      using uniq by simp
    obtain b s2 where b: "replay ev ex arm s1 = ok (b, s2)"
      using Branch.IH(1)[OF mem nonnull(2)[OF mem]] by blast
    have arm_run: "trace_run ev ex arm s1 s' \<longleftrightarrow> b \<and> s' = s2" for s'
      using Branch.IH(1)[OF mem nonnull(2)[OF mem], of s1 s'] b by auto
    show ?thesis
      using ev srt(2) uniq b arm_run False Branch.IH(2)[of s2 t] Branch.prems
      by (auto simp: arm_def[symmetric])
  qed
next
  case (Loop h l body nx)
  then have *: "(\<exists>b t. repeat_body (lp_repeat_count l) (replay ev ex body) s = ok (b, t))
     \<and> (repeat_body (lp_repeat_count l) (replay ev ex body) s = ok (True, t)
        \<longleftrightarrow> body_runs ev ex (lp_repeat_count l) body s t)" for t
    by (intro repeat_body_runs) auto
  then obtain b s2 where b: "repeat_body (lp_repeat_count l) (replay ev ex body) s = ok (b, s2)"
    by blast
  have body_run: "body_runs ev ex (lp_repeat_count l) body s s' \<longleftrightarrow> b \<and> s' = s2" for s'
    using *[of s'] b by auto
  show ?case
    using Loop.prems b body_run Loop.IH(2)[of s2 t] by auto
qed auto


text \<open>C4.  Replay of a DAG whose branch arms are strictly sorted and not null and whose loops have a
  body (and a positive count when they ran until convergence) never raises a fault, and it reports
  success in a final state exactly when that state is the end of a recorded execution: the binary
  search picks the arm of the observed value, and every loop body runs the recorded number of
  times.\<close>

theorem replay_exact:
  assumes "replayable n"
  shows "(\<exists>b t. replay ev ex n s = ok (b, t)) \<and> (replay ev ex n s = ok (True, t) \<longleftrightarrow> trace_run ev ex n s t)"
  using assms by (rule replay_total_correct)

definition scalar_guard :: guard where
  "scalar_guard = \<lparr>g_kind = SCALAR_VALUE, g_op_index = 0, g_arg_index = 0, g_dim_index = 0\<rparr>"

definition logged_region :: "nat \<Rightarrow> region" where
  "logged_region k = fresh_region\<lparr>rg_content_hash := word_of_nat k\<rparr>"

definition converged_loop :: loop_info where
  "converged_loop = \<lparr>lp_body_content_hash = 7, lp_feedback = [], lp_term_kind = UNTIL, lp_repeat_count = 2,
     lp_epsilon = 0, lp_measured_body_ms = 0\<rparr>"

definition sample_dag :: trace_node where
  "sample_dag =
    Branch 0 scalar_guard
      [(1, Region 0 (logged_region 1) make_terminal), (4, Region 0 (logged_region 2) make_terminal),
       (9, Loop 0 converged_loop (Region 0 (logged_region 3) make_terminal) make_terminal)]
      (Region 0 (logged_region 5) make_terminal)"

definition log_region :: "region \<Rightarrow> u64 list \<Rightarrow> u64 list" where
  "log_region r s = s @ [rg_content_hash r]"

lemma sample_dag_replayable [simp]: "replayable sample_dag"
  by (simp add: sample_dag_def converged_loop_def make_terminal_def)

lemma sample_dag_run:
  "trace_run (\<lambda>g s. (9, s)) log_region sample_dag [] [3, 3, 5]"
  by (simp add: sample_dag_def converged_loop_def make_terminal_def log_region_def logged_region_def
      numeral_2_eq_2)

theorem replay_exact_witness:
  "replay (\<lambda>g s. (9, s)) log_region sample_dag [] = ok (True, [3, 3, 5])"
  using replay_exact[of sample_dag "\<lambda>g s. (9, s)" log_region "[]" "[3, 3, 5]"] sample_dag_run by simp


section \<open>The Merkle invariant\<close>

lemma merkle_ok_simps [simp]:
  "merkle_ok Null"
  "merkle_ok (Region h r nx) \<longleftrightarrow> h = compute_merkle_hash (Region h r nx) \<and> merkle_ok nx"
  "merkle_ok (Branch h g arms nx) \<longleftrightarrow>
     h = compute_merkle_hash (Branch h g arms nx) \<and> (\<forall>(v, t) \<in> set arms. merkle_ok t) \<and> merkle_ok nx"
  "merkle_ok (Loop h l body nx) \<longleftrightarrow>
     h = compute_merkle_hash (Loop h l body nx) \<and> merkle_ok body \<and> merkle_ok nx"
  "merkle_ok (Terminal h nx) \<longleftrightarrow> h = 0 \<and> merkle_ok nx"
  by (auto simp: merkle_ok_def)

lemma recompute_merkle_null [simp]: "recompute_merkle n = Null \<longleftrightarrow> n = Null"
  by (cases n) (auto simp: Let_def)

lemma recompute_merkle_ok: "merkle_ok (recompute_merkle n)"
  by (induction n rule: trace_node_induct) (auto simp: Let_def)

lemma recompute_merkle_structure: "erase_hashes (recompute_merkle n) = erase_hashes n"
  by (induction n rule: trace_node_induct) (auto simp: Let_def)

lemma recompute_merkle_id: "merkle_ok n \<Longrightarrow> recompute_merkle n = n"
proof (induction n rule: trace_node_induct)
  case (Branch h g arms nx)
  then have "map (\<lambda>(v, t). (v, recompute_merkle t)) arms = arms"
    by (intro map_idI) auto
  then show ?case
    using Branch by (simp add: Let_def)
qed (simp_all add: Let_def)

lemma merkle_ok_unique:
  "merkle_ok a \<Longrightarrow> merkle_ok b \<Longrightarrow> erase_hashes a = erase_hashes b \<Longrightarrow> a = b"
proof (induction a arbitrary: b rule: trace_node_induct)
  case (Branch h g arms nx)
  then obtain h' arms' nx' where b: "b = Branch h' g arms' nx'"
    by (cases b) auto
  have "arms = arms'"
  proof (rule nth_equalityI)
    show len: "length arms = length arms'"
      using Branch.prems(3) b by (auto dest: map_eq_imp_length_eq)
    fix i assume i: "i < length arms"
    obtain v t v' t' where ab: "arms ! i = (v, t)" "arms' ! i = (v', t')"
      by fastforce
    have "(v, t) \<in> set arms" "(v', t') \<in> set arms'"
      using i len ab by (metis nth_mem)+
    moreover have "map (\<lambda>(v, t). (v, erase_hashes t)) arms ! i = map (\<lambda>(v, t). (v, erase_hashes t)) arms' ! i"
      using Branch.prems(3) b by simp
    then have "v = v' \<and> erase_hashes t = erase_hashes t'"
      using i len ab by simp
    ultimately show "arms ! i = arms' ! i"
      using Branch.IH(1)[of v t t'] Branch.prems b ab by auto
  qed
  moreover have "nx = nx'"
    using Branch b by simp
  ultimately show ?case
    using Branch.prems b by simp
next
  case Null
  then show ?case by (cases b) auto
next
  case (Region h r nx)
  then show ?case by (cases b) auto
next
  case (Loop h l body nx)
  then show ?case by (cases b) auto
next
  case (Terminal h nx)
  then show ?case by (cases b) auto
qed

text \<open>C16.  Recomputing the hashes of a DAG gives every reachable node the hash computed from its
  children, changes nothing but the stored hashes, and depends on nothing but the structure: two
  DAGs that differ only in stale hashes become equal, and a DAG with valid hashes is unchanged.\<close>

theorem recompute_merkle_spec:
  "merkle_ok (recompute_merkle n)
   \<and> erase_hashes (recompute_merkle n) = erase_hashes n
   \<and> (recompute_merkle n = n \<longleftrightarrow> merkle_ok n)
   \<and> (recompute_merkle n = recompute_merkle m \<longleftrightarrow> erase_hashes n = erase_hashes m)"
  using merkle_ok_unique[OF recompute_merkle_ok[of n] recompute_merkle_ok[of m]]
    recompute_merkle_ok recompute_merkle_structure recompute_merkle_id by metis


section \<open>Walks\<close>

lemma take_append_take: "take n (take n xs @ ys) = take n (xs @ ys)"
  by (simp add: min_def)

lemma take_full: "\<not> length xs < n \<Longrightarrow> length xs \<le> n \<Longrightarrow> take n (xs @ ys) = xs"
  by simp

lemma collect_regions_take:
  "length out \<le> cap \<Longrightarrow> collect_regions cap n out = take cap (out @ all_regions n)"
proof (induction n arbitrary: out rule: trace_node_induct)
  case (Branch h g arms nx)
  have arms: "fold (\<lambda>(v, t) acc. collect_regions cap t acc) as out
      = take cap (out @ concat (map (\<lambda>(v, t). all_regions t) as))"
    if "set as \<subseteq> set arms" "length out \<le> cap" for as and out :: "region list"
    using that
  proof (induction as arbitrary: out)
    case (Cons a as)
    obtain v t where "a = (v, t)"
      by fastforce
    then show ?case
      using Cons.prems Cons.IH[of "take cap (out @ all_regions t)"] Branch.IH(1)[of v t out]
      by (simp add: take_append_take del: take_append)
  qed simp
  show ?case
    using arms[OF subset_refl Branch.prems] Branch.prems
      Branch.IH(2)[of "take cap (out @ concat (map (\<lambda>(v, t). all_regions t) arms))"]
    by (cases "length out < cap") (simp_all add: take_append_take take_full del: take_append)
next
  case (Loop h l body nx)
  then show ?case
    using Loop.IH(2)[of "take cap (out @ all_regions body)"]
    by (cases "length out < cap") (simp_all add: take_append_take take_full del: take_append)
qed (auto simp: take_Cons' simp flip: diff_Suc_eq_diff_pred)

lemma dag_node_count_total: "dag_node_count n = word_of_nat (node_total n)"
proof (induction n rule: trace_node_induct)
  case (Branch h g arms nx)
  have "fold (\<lambda>(v, t) c. c + dag_node_count t) as c
      = c + word_of_nat (sum_list (map (\<lambda>(v, t). node_total t) as))"
    if "set as \<subseteq> set arms" for as and c :: u32
    using that
  proof (induction as arbitrary: c)
    case (Cons a as)
    obtain v t where "a = (v, t)"
      by fastforce
    then show ?case
      using Cons Branch.IH(1)[of v t] by (simp add: add.assoc)
  qed simp
  then show ?case
    using Branch.IH(2) by simp
qed simp_all

text \<open>Collecting regions into an output array of a given capacity appends the regions of the
  whole DAG in replay order and stops at the capacity, so the array never overflows and is a prefix
  of the full sequence; the node count is the number of nodes, modulo the 32-bit width.\<close>

theorem dag_walks_spec:
  assumes "length out \<le> cap"
  shows "collect_regions cap n out = take cap (out @ all_regions n)
     \<and> length (collect_regions cap n out) \<le> cap
     \<and> unat (dag_node_count n) = node_total n mod 2 ^ 32"
  using assms by (simp add: collect_regions_take dag_node_count_total unat_of_nat del: take_append)

lemma sample_dag_walk:
  "all_regions sample_dag = [logged_region 1, logged_region 2, logged_region 3, logged_region 5]"
  "node_total sample_dag = 11"
  by (simp_all add: sample_dag_def make_terminal_def)

theorem dag_walks_spec_witness:
  "length ([] :: region list) \<le> 3
   \<and> collect_regions 3 sample_dag [] = [logged_region 1, logged_region 2, logged_region 3]
   \<and> unat (dag_node_count sample_dag) = 11"
  using dag_walks_spec[of "[]" 3 sample_dag] by (simp add: sample_dag_walk)


section \<open>Merge points\<close>

definition region_matches :: "u64 option \<Rightarrow> trace_node \<Rightarrow> trace_entry list \<Rightarrow> bool" where
  "region_matches recipe n seg \<longleftrightarrow>
     length seg = length (rg_ops (node_region n)) \<and> compute_content_hash seg recipe = ok (rg_content_hash (node_region n))"

definition chain_matches :: "u64 option \<Rightarrow> trace_node list \<Rightarrow> trace_entry list \<Rightarrow> bool" where
  "chain_matches recipe ns ops \<longleftrightarrow> (\<exists>segs. ops = concat segs \<and> list_all2 (region_matches recipe) ns segs)"

lemma chain_matches_Cons:
  "region_matches recipe n seg \<Longrightarrow> chain_matches recipe ns ops \<Longrightarrow> chain_matches recipe (n # ns) (seg @ ops)"
  unfolding chain_matches_def by (metis concat.simps(2) list_all2_Cons)

text \<open>All the regions a chain starts with; the code looks at the first 1024 of them.\<close>

fun region_run :: "trace_node \<Rightarrow> trace_node list" where
  "region_run (Region h r nx) = Region h r nx # region_run nx"
| "region_run _ = []"

lemma region_chain_run: "region_chain k n = take k (region_run n)"
  by (induction k n rule: region_chain.induct) (auto elim: region_run.elims)

lemma region_run_nonnull: "m \<in> set (region_run n) \<Longrightarrow> m \<noteq> Null"
  by (induction n rule: region_run.induct) auto

text \<open>The walk from the end stops with all new operations used up, with all regions used up, or at a
  region that no segment ending at the current position matches.\<close>

definition merge_stops :: "u64 option \<Rightarrow> trace_node list \<Rightarrow> trace_entry list \<Rightarrow> bool" where
  "merge_stops recipe pre ops \<longleftrightarrow>
     ops = [] \<or> pre = [] \<or> (\<nexists>xs seg. ops = xs @ seg \<and> region_matches recipe (last pre) seg)"

lemma region_matches_end:
  assumes "region_matches recipe n seg" "take pos ops = xs @ seg" "pos \<le> length ops"
  shows "length (rg_ops (node_region n)) \<le> pos
    \<and> seg = take (length (rg_ops (node_region n))) (drop (pos - length (rg_ops (node_region n))) ops)"
proof -
  have len: "length seg = length (rg_ops (node_region n))"
    using assms(1) by (simp add: region_matches_def)
  have pos: "pos = length xs + length seg"
    using arg_cong [OF assms(2), of length] assms(3) by simp
  have "ops = xs @ seg @ drop pos ops"
    using append_take_drop_id [of pos ops] assms(2) by simp
  then have "take (length seg) (drop (length xs) ops) = seg"
    by (metis append_eq_conv_conj)
  then show ?thesis
    using pos len by simp
qed

lemma merge_walk_sound:
  assumes "merge_walk new_ops recipe ns pos merge = m" "pos \<le> length new_ops"
    and "chain_matches recipe acc (drop pos new_ops)"
    and "acc = [] \<longleftrightarrow> merge = Null" "acc \<noteq> [] \<Longrightarrow> hd acc = merge"
    and "\<And>n. n \<in> set ns \<Longrightarrow> n \<noteq> Null"
  shows "\<exists>pre suf k. rev ns @ acc = pre @ suf \<and> k \<le> length new_ops \<and> m = (if suf = [] then Null else hd suf)
     \<and> chain_matches recipe suf (drop k new_ops) \<and> merge_stops recipe pre (take k new_ops)"
  using assms
proof (induction ns arbitrary: pos merge acc)
  case Nil
  then show ?case
    by (intro exI[of _ "[]"] exI[of _ acc] exI[of _ pos]) (auto simp: merge_stops_def)
next
  case (Cons n ns)
  define k where "k = length (rg_ops (node_region n))"
  define seg where "seg = take k (drop (pos - k) new_ops)"
  show ?case
  proof (cases "pos \<noteq> 0 \<and> k \<le> pos \<and> compute_content_hash seg recipe = ok (rg_content_hash (node_region n))")
    case True
    have "drop (pos - k) new_ops = seg @ drop pos new_ops"
      using True Cons.prems(2) by (metis seg_def append_take_drop_id drop_drop le_add_diff_inverse)
    moreover have "region_matches recipe n seg"
      using True Cons.prems(2) by (simp add: region_matches_def seg_def k_def)
    ultimately have "chain_matches recipe (n # acc) (drop (pos - k) new_ops)"
      using chain_matches_Cons Cons.prems(3) by simp
    moreover have "merge_walk new_ops recipe ns (pos - k) n = m"
      using Cons.prems(1) True by (simp add: Let_def seg_def k_def)
    ultimately show ?thesis
      using Cons.IH[of "pos - k" n "n # acc"] Cons.prems by simp
  next
    case False
    then have m: "m = merge"
      using Cons.prems(1) by (auto simp: Let_def seg_def k_def split: if_splits)
    have "pos = 0 \<or> (\<nexists>xs seg. take pos new_ops = xs @ seg \<and> region_matches recipe n seg)"
      using False region_matches_end [of recipe n _ pos new_ops] Cons.prems(2)
      unfolding k_def seg_def by (metis region_matches_def)
    then have "merge_stops recipe (rev (n # ns)) (take pos new_ops)"
      by (auto simp: merge_stops_def)
    then show ?thesis
      using Cons.prems m by (intro exI[of _ "rev (n # ns)"] exI[of _ acc] exI[of _ pos]) auto
  qed
qed

text \<open>C19.  Among the regions the existing continuation starts with, up to its first node of another kind and at most
  1024 of them, the merge point is the first node of the longest shared tail the walk from the end
  finds.  The last new operations split into one segment per region from the merge point to the end of
  those regions, each with the length and the content hash of its region.  The walk stops because the new operations or the
  regions are used up, or because no segment in front of the tail matches the preceding region.  The
  result is null exactly when the tail is empty.\<close>

theorem find_merge_point_sound:
  assumes "find_merge_point new_ops existing recipe = ok m"
  shows "\<exists>pre suf k. take merge_max_regions (region_run existing) = pre @ suf \<and> k \<le> length new_ops
     \<and> m = (if suf = [] then Null else hd suf) \<and> (m = Null \<longleftrightarrow> suf = [])
     \<and> chain_matches recipe suf (drop k new_ops) \<and> merge_stops recipe pre (take k new_ops)"
proof -
  have "merge_walk new_ops recipe (rev (region_chain merge_max_regions existing)) (length new_ops) Null = m"
    using assms by (simp add: find_merge_point_def split: if_splits)
  moreover have nonnull: "n \<noteq> Null" if "n \<in> set (region_chain merge_max_regions existing)" for n
    using that region_run_nonnull by (auto simp: region_chain_run dest: in_set_takeD)
  ultimately obtain pre suf k where *: "region_chain merge_max_regions existing = pre @ suf" "k \<le> length new_ops"
      "m = (if suf = [] then Null else hd suf)" "chain_matches recipe suf (drop k new_ops)"
      "merge_stops recipe pre (take k new_ops)"
    using merge_walk_sound [of new_ops recipe "rev (region_chain merge_max_regions existing)" "length new_ops" Null m "[]"]
    by (auto simp: chain_matches_def)
  moreover have "m = Null \<longleftrightarrow> suf = []"
    using * nonnull by (cases suf) auto
  ultimately show ?thesis
    unfolding region_chain_run by blast
qed

definition sample_op :: trace_entry where
  "sample_op = \<lparr>te_schema_hash = 11, te_shape_hash = 0, te_scope_hash = 0, te_callsite_hash = 0,
     te_input_metas = None, te_output_metas = None, te_num_inputs = 0, te_num_outputs = 0,
     te_scalar_args = Some [4, 2], te_num_scalar_args = 2, te_grad_enabled = False, te_inference_mode = False,
     te_kernel_id = 0, te_is_mutable = False, te_training_phase = PH_FORWARD, te_torch_function = False,
     te_input_trace_indices = None, te_input_slot_ids = None, te_output_slot_ids = None\<rparr>"

definition sample_chain :: trace_node where
  "sample_chain = Region 0 (fresh_region\<lparr>rg_ops := [sample_op],
      rg_content_hash := fmix64 (fold_entry sample_op golden)\<rparr>) make_terminal"

lemma sample_region_run: "region_run sample_chain = [sample_chain]"
  by (simp add: sample_chain_def make_terminal_def)

lemma sample_merge: "find_merge_point [sample_op, sample_op] sample_chain None = ok sample_chain"
  by (simp add: find_merge_point_def region_chain_run sample_region_run merge_max_regions_def)
    (simp add: sample_chain_def compute_content_hash_def content_fold_start_def content_fold_finish_def)

theorem find_merge_point_sound_witness:
  "find_merge_point [sample_op, sample_op] sample_chain None = ok sample_chain
   \<and> (\<exists>k. chain_matches None [sample_chain] (drop k [sample_op, sample_op]))"
proof -
  have "sample_chain \<noteq> Null" "take merge_max_regions (region_run sample_chain) = [sample_chain]"
    by (simp_all add: sample_region_run merge_max_regions_def) (simp add: sample_chain_def)
  with find_merge_point_sound[OF sample_merge] obtain pre suf k where
    "[sample_chain] = pre @ suf" "suf \<noteq> []" "chain_matches None suf (drop k [sample_op, sample_op])"
    by auto
  then have "chain_matches None [sample_chain] (drop k [sample_op, sample_op])"
    by (cases pre) auto
  then show ?thesis
    using sample_merge by blast
qed

text \<open>Beyond 1024 regions the merge point need not start a shared tail of the continuation: in a chain of
  1025 equal one-operation regions a single matching operation merges at the last region but one, and
  two regions follow where one operation matched.\<close>

fun unit_chain :: "nat \<Rightarrow> trace_node" where
  "unit_chain 0 = make_terminal"
| "unit_chain (Suc n) = Region 0 (node_region sample_chain) (unit_chain n)"

lemma unit_chain_regions:
  "rev (region_chain (Suc n) (unit_chain (Suc (Suc n)))) = unit_chain 2 # map unit_chain [3..<n + 3]"
proof -
  have "rev (region_chain n (unit_chain (n + 1))) = map unit_chain [2..<n + 2]" for n
    by (induction n) simp_all
  from this [of "Suc n"] have "rev (region_chain (Suc n) (unit_chain (Suc (Suc n)))) = map unit_chain [2..<n + 3]"
    by (simp only: add_Suc_right add_Suc add_0_right One_nat_def numeral_2_eq_2 numeral_3_eq_3)
  moreover have "[2..<n + 3] = 2 # [3..<n + 3]"
    by (subst upt_conv_Cons) simp_all
  ultimately show ?thesis
    by (simp only: list.map)
qed

theorem merge_point_past_cap:
  "find_merge_point [sample_op] (unit_chain 1025) None = ok (unit_chain 2)
   \<and> length (region_run (unit_chain 2)) = 2"
proof -
  have "merge_max_regions = Suc 1023" "1025 = Suc (Suc 1023)"
    by (simp_all add: merge_max_regions_def)
  then obtain ns where "rev (region_chain merge_max_regions (unit_chain 1025)) = unit_chain 2 # ns"
    using unit_chain_regions [of 1023] by metis
  moreover have "unit_chain 2 = Region 0 (node_region sample_chain) (unit_chain 1)"
    by (simp add: numeral_2_eq_2)
  moreover have "merge_walk [sample_op] None ns 0 n = n" for ns n
    by (cases ns) simp_all
  ultimately show ?thesis
    by (simp add: find_merge_point_def sample_chain_def compute_content_hash_def content_fold_start_def
        content_fold_finish_def make_terminal_def)
qed


section \<open>Differences\<close>

fun node_kind :: "trace_node \<Rightarrow> nat" where
  "node_kind Null = 4"
| "node_kind (Region h r nx) = 0"
| "node_kind (Branch h g arms nx) = 1"
| "node_kind (Loop h l body nx) = 2"
| "node_kind (Terminal h nx) = 3"

fun diff_justified :: "diff_kind \<Rightarrow> trace_node \<Rightarrow> trace_node \<Rightarrow> bool" where
  "diff_justified IDENTICAL a b \<longleftrightarrow> True"
| "diff_justified KIND_MISMATCH a b \<longleftrightarrow> node_kind a \<noteq> node_kind b \<and> merkle_hash a \<noteq> merkle_hash b"
| "diff_justified CONTENT_MISMATCH (Region h r nx) (Region h' r' nx') \<longleftrightarrow> rg_content_hash r \<noteq> rg_content_hash r'"
| "diff_justified BRANCH_MISMATCH (Branch h g arms nx) (Branch h' g' arms' nx') \<longleftrightarrow>
     guard_hash g \<noteq> guard_hash g' \<or> map fst arms \<noteq> map fst arms'"
| "diff_justified LOOP_MISMATCH (Loop h l body nx) (Loop h' l' body' nx') \<longleftrightarrow> loops_differ l l'"
| "diff_justified STRUCTURE_MISMATCH a b \<longleftrightarrow> (a = Null) \<noteq> (b = Null)"
| "diff_justified _ _ _ \<longleftrightarrow> False"

definition diff_sound :: "dag_difference \<Rightarrow> trace_node set \<Rightarrow> trace_node set \<Rightarrow> bool" where
  "diff_sound r A B \<longleftrightarrow> df_kind r = IDENTICAL
     \<or> df_node_a r \<in> A \<and> df_node_b r \<in> B \<and> diff_justified (df_kind r) (df_node_a r) (df_node_b r)"

lemma subnodes_self [simp]: "n \<in> subnodes n"
  by (cases n) auto

lemma diff_sound_simps [simp]:
  "diff_sound (no_diff d) A B"
  "diff_sound (diff_at a b d k) A B \<longleftrightarrow> k = IDENTICAL \<or> a \<in> A \<and> b \<in> B \<and> diff_justified k a b"
  by (auto simp: diff_sound_def no_diff_def diff_at_def)

lemma diff_sound_mono: "diff_sound r A B \<Longrightarrow> A \<subseteq> A' \<Longrightarrow> B \<subseteq> B' \<Longrightarrow> diff_sound r A' B'"
  by (auto simp: diff_sound_def)

lemma dag_diff_sound_aux:
  "diff_sound (dag_diff a b d) (subnodes a) (subnodes b)"
  "\<lbrakk>length as = length bs; map fst as \<noteq> map fst bs \<Longrightarrow> diff_justified BRANCH_MISMATCH a b\<rbrakk>
   \<Longrightarrow> diff_sound (arms_diff a b as bs d)
        (insert a (\<Union> (set (map (\<lambda>(v, t). subnodes t) as)))) (insert b (\<Union> (set (map (\<lambda>(v, t). subnodes t) bs))))"
proof (induction a b d and a b as bs d rule: dag_diff_arms_diff.induct)
  case (6 h g arms nx h' g' arms' nx' d)
  then show ?case
    by (auto simp: Let_def dest: map_eq_imp_length_eq elim!: diff_sound_mono)
qed (auto simp: Let_def elim!: diff_sound_mono)

lemma dag_diff_same: "df_kind (dag_diff n n d) = IDENTICAL"
  by (cases n) (simp_all add: no_diff_def)

text \<open>C17.  The comparison of two DAGs reports real differences only: the two nodes it returns are
  nodes of the two DAGs, and they differ in what the reported kind says (kind of node, content hash,
  guard or arm values, loop description, one side missing); two DAGs with valid hashes and the same
  structure are reported identical.\<close>

theorem dag_diff_sound:
  "diff_sound (dag_diff a b d) (subnodes a) (subnodes b)
   \<and> (merkle_ok a \<and> merkle_ok b \<and> erase_hashes a = erase_hashes b \<longrightarrow> df_kind (dag_diff a b d) = IDENTICAL)"
  using dag_diff_sound_aux(1) merkle_ok_unique dag_diff_same by metis

theorem dag_diff_sound_witness:
  "diff_sound (dag_diff (recompute_merkle sample_dag) (recompute_merkle sample_dag) 0)
     (subnodes (recompute_merkle sample_dag)) (subnodes (recompute_merkle sample_dag))
   \<and> df_kind (dag_diff (recompute_merkle sample_dag) (recompute_merkle sample_dag) 0) = IDENTICAL"
  using dag_diff_sound[of "recompute_merkle sample_dag" "recompute_merkle sample_dag" 0] recompute_merkle_ok
  by blast

definition one_arm :: "int \<Rightarrow> trace_node" where
  "one_arm v = recompute_merkle (Branch 0 scalar_guard [(v, make_terminal)] Null)"

lemma one_arm_unfold:
  "one_arm v = Branch (merkle_hash (one_arm 0)) scalar_guard [(v, make_terminal)] Null"
  by (simp add: one_arm_def make_terminal_def Let_def with_next_def)

lemma replay_one_arm:
  "replay (\<lambda>g s. (w, s)) ex (one_arm v) s = ok (v = w, s)"
  by (subst one_arm_unfold, simp add: are_arms_sorted_by_value_def)
    (simp add: find_arm.simps make_terminal_def)

text \<open>C18.  The Merkle hash of a branch does not cover the values of its arms: there are two DAGs with
  valid hashes, both fit for replay, that the comparison reports identical, although on the same
  guard value one replays and the other does not.\<close>

theorem dag_diff_blind_to_arm_values:
  "\<exists>a b. merkle_ok a \<and> merkle_ok b \<and> replayable a \<and> replayable b
     \<and> df_kind (dag_diff a b 0) = IDENTICAL
     \<and> replay (\<lambda>g s. (1, s)) ex a s = ok (True, s)
     \<and> replay (\<lambda>g s. (1, s)) ex b s = ok (False, s)"
proof (intro exI conjI)
  show "merkle_ok (one_arm 1)" "merkle_ok (one_arm 2)"
    by (simp_all add: one_arm_def recompute_merkle_ok)
  show "replayable (one_arm 1)" "replayable (one_arm 2)"
    by (subst one_arm_unfold, simp add: make_terminal_def)+
  show "df_kind (dag_diff (one_arm 1) (one_arm 2) 0) = IDENTICAL"
    by (subst (1 2) one_arm_unfold) (simp add: no_diff_def)
qed (simp_all add: replay_one_arm)


section \<open>Content and termination hashes\<close>

lemma empty_content_hash_nonzero: "\<exists>h. compute_content_hash [] None = ok h \<and> h \<noteq> 0"
  by (simp add: compute_content_hash_def content_fold_start_def content_fold_finish_def golden_def)

lemma undefined_dtype_hides_device:
  assumes "tm_dtype m = ST_Undefined"
  shows "fold_inputs (m\<lparr>tm_device_type := dt, tm_device_idx := i\<rparr> # ms) st = fold_inputs (m # ms) st"
  using assms by (simp add: meta_packed_def dim_hash_simd_def)

lemma xor_neq_self [simp]: "x \<noteq> x XOR c \<longleftrightarrow> c \<noteq> 0" for x c :: u64
  using xor_left_inject[of x 0 c] by simp

lemma negative_zero_epsilon:
  assumes "body \<noteq> Null"
  shows "\<exists>l l'. make_loop body h fb REPEAT k 0 = ok (Loop 0 l body Null)
     \<and> make_loop body h fb REPEAT k 0x80000000 = ok (Loop 0 l' body Null)
     \<and> l' = l\<lparr>lp_epsilon := 0x80000000\<rparr> \<and> loopterm_hash l \<noteq> loopterm_hash l'"
  using assms
  by (simp add: make_loop_def f32_is_finite_def f32_ge_zero_def f32_is_nan_def loopterm_hash_def)

end
