(* ===== verification/Hot_Region_Registry.thy ===== *)
theory Hot_Region_Registry
  imports Crucible_Prelude
begin

text \<open>
  The process-wide table of resident memory regions: \<^verbatim>\<open>crucible/warden/Registry.h\<close>.  Each slot is
  claimed, filled and published by one thread; the sequential operations are modelled here as one
  step each, and the interleaving of two registrations as a step relation at the end.  The locale
  \<^verbatim>\<open>hot_table\<close> is the contract a component that owns memory relies on.
\<close>

section \<open>The table\<close>

record hot_region =
  hr_addr :: u64
  hr_len :: u64
  hr_huge_hint :: bool
  hr_label :: string

definition max_regions :: nat where
  "max_regions = 256"

definition kHugePageBytes :: u64 where
  "kHugePageBytes = 2 * 1024 * 1024"

definition round_up_huge :: "u64 \<Rightarrow> u64" where
  "round_up_huge n = (n + kHugePageBytes - 1) AND NOT (kHugePageBytes - 1)"

definition claimed_addr :: u64 where
  "claimed_addr = 1"

definition empty_slot :: hot_region where
  "empty_slot = \<lparr>hr_addr = 0, hr_len = 0, hr_huge_hint = False, hr_label = []\<rparr>"

definition empty_registry :: "hot_region list" where
  "empty_registry = replicate max_regions empty_slot"

fun index_of_addr :: "u64 \<Rightarrow> hot_region list \<Rightarrow> nat option" where
  "index_of_addr a [] = None"
| "index_of_addr a (s # ss) = (if hr_addr s = a then Some 0 else map_option Suc (index_of_addr a ss))"

definition register_region ::
  "u64 \<Rightarrow> u64 \<Rightarrow> bool \<Rightarrow> string \<Rightarrow> hot_region list \<Rightarrow> hot_region list checked" where
  "register_region addr len huge_hint label slots =
    (if addr = 0 \<or> len = 0 then ok slots
     else let new = \<lparr>hr_addr = addr, hr_len = len, hr_huge_hint = huge_hint, hr_label = label\<rparr>
       in case index_of_addr addr slots of
            Some i \<Rightarrow> ok (slots[i := new])
          | None \<Rightarrow> (case index_of_addr 0 slots of
                        Some i \<Rightarrow> ok (slots[i := new])
                      | None \<Rightarrow> fail Aborted))"

definition unregister_region :: "u64 \<Rightarrow> hot_region list \<Rightarrow> hot_region list" where
  "unregister_region addr slots =
    (if addr = 0 then slots
     else case index_of_addr addr slots of
            Some i \<Rightarrow> slots[i := (slots ! i)\<lparr>hr_addr := 0\<rparr>]
          | None \<Rightarrow> slots)"

definition occupied :: "hot_region \<Rightarrow> bool" where
  "occupied s \<longleftrightarrow> \<not> (hr_addr s = 0 \<or> hr_addr s = claimed_addr)"

definition snapshot :: "hot_region list \<Rightarrow> hot_region list" where
  "snapshot slots = filter occupied slots"

definition registry_size :: "hot_region list \<Rightarrow> nat" where
  "registry_size slots = length (filter occupied slots)"

definition region_lookup :: "hot_region list \<Rightarrow> u64 \<Rightarrow> hot_region option" where
  "region_lookup slots a = (if a = 0 then None else find (\<lambda>s. hr_addr s = a) slots)"

text \<open>Between operations an address occurs in at most one slot.\<close>

definition registry_inv :: "hot_region list \<Rightarrow> bool" where
  "registry_inv slots \<longleftrightarrow>
     (\<forall>i < length slots. \<forall>j < length slots.
        hr_addr (slots ! i) = hr_addr (slots ! j) \<longrightarrow> hr_addr (slots ! i) \<noteq> 0 \<longrightarrow> i = j)"

definition sample_region :: hot_region where
  "sample_region = \<lparr>hr_addr = 4096, hr_len = 256, hr_huge_hint = False, hr_label = ''pool''\<rparr>"


section \<open>Registration as a thread takes it\<close>

text \<open>The loop of \<^verbatim>\<open>register_region\<close> one atomic access at a time: a scan for the same address, a
  compare-and-swap on a match, a scan that claims a free slot, and the publication of the claimed
  slot.\<close>

datatype reg_pc = Scan_same nat | Cas_same nat | Scan_free nat | Publish nat | Reg_done | Reg_abort

fun thread_step :: "hot_region \<Rightarrow> reg_pc \<times> hot_region list \<Rightarrow> reg_pc \<times> hot_region list" where
  "thread_step r (Scan_same i, slots) =
    (if i < length slots
     then if hr_addr (slots ! i) = hr_addr r then (Cas_same i, slots) else (Scan_same (i + 1), slots)
     else (Scan_free 0, slots))"
| "thread_step r (Cas_same i, slots) =
    (if hr_addr (slots ! i) = hr_addr r
     then (Publish i, slots[i := (slots ! i)\<lparr>hr_addr := claimed_addr\<rparr>]) else (Scan_same (i + 1), slots))"
| "thread_step r (Scan_free i, slots) =
    (if i < length slots
     then if hr_addr (slots ! i) = 0
          then (Publish i, slots[i := (slots ! i)\<lparr>hr_addr := claimed_addr\<rparr>])
          else (Scan_free (i + 1), slots)
     else (Reg_abort, slots))"
| "thread_step r (Publish i, slots) = (Reg_done, slots[i := r])"
| "thread_step r (Reg_done, slots) = (Reg_done, slots)"
| "thread_step r (Reg_abort, slots) = (Reg_abort, slots)"

text \<open>Two threads that register concurrently, under every interleaving.\<close>

inductive race_step ::
  "hot_region \<Rightarrow> hot_region \<Rightarrow> reg_pc \<times> reg_pc \<times> hot_region list \<Rightarrow> reg_pc \<times> reg_pc \<times> hot_region list \<Rightarrow> bool"
  for r1 r2 where
  first: "thread_step r1 (p, slots) = (p', slots') \<Longrightarrow> race_step r1 r2 (p, q, slots) (p', q, slots')"
| second: "thread_step r2 (q, slots) = (q', slots') \<Longrightarrow> race_step r1 r2 (p, q, slots) (p, q', slots')"


section \<open>The contract of the table\<close>

locale hot_table =
  fixes inv :: "'t \<Rightarrow> bool"
    and lookup :: "'t \<Rightarrow> u64 \<Rightarrow> hot_region option"
    and reg :: "u64 \<Rightarrow> u64 \<Rightarrow> bool \<Rightarrow> string \<Rightarrow> 't \<Rightarrow> 't checked"
    and unreg :: "u64 \<Rightarrow> 't \<Rightarrow> 't"
  assumes lookup_null: "lookup t 0 = None"
    and reg_law: "inv t \<Longrightarrow> addr \<noteq> 0 \<Longrightarrow> len \<noteq> 0 \<Longrightarrow> reg addr len huge label t = ok t' \<Longrightarrow>
      inv t' \<and> lookup t' = (lookup t)(addr \<mapsto>
        \<lparr>hr_addr = addr, hr_len = len, hr_huge_hint = huge, hr_label = label\<rparr>)"
    and reg_skip: "addr = 0 \<or> len = 0 \<Longrightarrow> reg addr len huge label t = ok t"
    and unreg_law: "inv t \<Longrightarrow> inv (unreg addr t) \<and> lookup (unreg addr t) = (lookup t)(addr := None)"
begin

lemma reg_unreg_restores:
  assumes "inv t" "lookup t addr = None" "reg addr len huge label t = ok t'"
  shows "inv (unreg addr t')" "lookup (unreg addr t') = lookup t"
proof -
  consider (skip) "addr = 0 \<or> len = 0" | (real) "addr \<noteq> 0" "len \<noteq> 0"
    by blast
  then have "inv (unreg addr t') \<and> lookup (unreg addr t') = lookup t"
  proof cases
    case skip
    then have "t' = t"
      using assms(3) reg_skip by (metis sum.inject(2))
    then show ?thesis
      using unreg_law [OF assms(1)] assms(2) by (metis fun_upd_triv)
  next
    case real
    then show ?thesis
      using unreg_law [of t' addr] reg_law [OF assms(1) real assms(3)] assms(2)
      by (auto simp: fun_upd_idem)
  qed
  then show "inv (unreg addr t')" "lookup (unreg addr t') = lookup t"
    by blast+
qed

lemma reg_keeps_others:
  "inv t \<Longrightarrow> reg addr len huge label t = ok t' \<Longrightarrow> a \<noteq> addr \<Longrightarrow> lookup t' a = lookup t a"
  using reg_law reg_skip by (metis fun_upd_other sum.inject(2))

end


section \<open>The table keeps its contract\<close>

lemma index_of_addr_Some:
  "index_of_addr a ss = Some i \<Longrightarrow> i < length ss \<and> hr_addr (ss ! i) = a"
  by (induction a ss arbitrary: i rule: index_of_addr.induct) (auto split: if_splits)

lemma index_of_addr_None: "index_of_addr a ss = None \<longleftrightarrow> a \<notin> set (map hr_addr ss)"
  by (induction a ss rule: index_of_addr.induct) auto

lemma registry_invD:
  "registry_inv ss \<Longrightarrow> i < length ss \<Longrightarrow> j < length ss \<Longrightarrow> hr_addr (ss ! i) = hr_addr (ss ! j) \<Longrightarrow>
     hr_addr (ss ! j) \<noteq> 0 \<Longrightarrow> i = j"
  by (simp add: registry_inv_def)

lemma region_lookup_nth:
  assumes "registry_inv ss" "i < length ss" "hr_addr (ss ! i) \<noteq> 0"
  shows "region_lookup ss (hr_addr (ss ! i)) = Some (ss ! i)"
proof -
  have "hr_addr (ss ! j) \<noteq> hr_addr (ss ! i)" if "j < i" for j
    using registry_invD [OF assms(1) _ assms(2) _ assms(3), of j] that assms(2) by auto
  then show ?thesis
    using assms by (auto simp: region_lookup_def find_Some_iff intro!: exI [of _ i])
qed

lemma region_lookup_None: "a \<notin> set (map hr_addr ss) \<Longrightarrow> region_lookup ss a = None"
  by (auto simp: region_lookup_def find_None_iff)

lemma region_lookup_cases:
  assumes "registry_inv ss"
  obtains (null) "a = 0" | (absent) "a \<noteq> 0" "a \<notin> set (map hr_addr ss)" "region_lookup ss a = None"
    | (at) i where "i < length ss" "hr_addr (ss ! i) = a" "a \<noteq> 0" "region_lookup ss a = Some (ss ! i)"
proof (cases "a = 0 \<or> a \<notin> set (map hr_addr ss)")
  case True
  then show ?thesis
    using null absent region_lookup_None [of a ss] by auto
next
  case False
  then obtain i where "i < length ss" "hr_addr (ss ! i) = a"
    by (auto simp: in_set_conv_nth)
  then show ?thesis
    using at [of i] False region_lookup_nth [OF assms] by blast
qed

definition update_ok :: "hot_region list \<Rightarrow> nat \<Rightarrow> hot_region \<Rightarrow> bool" where
  "update_ok ss i new \<longleftrightarrow> i < length ss \<and>
     (hr_addr new = hr_addr (ss ! i) \<or> hr_addr new = 0
      \<or> hr_addr (ss ! i) = 0 \<and> hr_addr new \<notin> set (map hr_addr ss))"

lemma update_ok_fresh:
  assumes "registry_inv ss" "update_ok ss i new" "k < length ss" "k \<noteq> i" "hr_addr new \<noteq> 0"
  shows "hr_addr (ss ! k) \<noteq> hr_addr new"
proof
  assume eq: "hr_addr (ss ! k) = hr_addr new"
  then have "hr_addr new \<in> set (map hr_addr ss)"
    using assms(3) by (metis length_map nth_map nth_mem)
  then have "hr_addr new = hr_addr (ss ! i)" "i < length ss"
    using assms(2,5) by (auto simp: update_ok_def)
  then show False
    using registry_invD [OF assms(1,3), of i] eq assms(4,5) by simp
qed

lemma registry_inv_update:
  assumes "registry_inv ss" "update_ok ss i new"
  shows "registry_inv (ss[i := new])"
  unfolding registry_inv_def
proof (intro allI impI)
  fix j k
  assume jk: "j < length (ss[i := new])" "k < length (ss[i := new])"
    "hr_addr (ss[i := new] ! j) = hr_addr (ss[i := new] ! k)" "hr_addr (ss[i := new] ! j) \<noteq> 0"
  show "j = k"
  proof (cases "j = i \<or> k = i")
    case True
    then show ?thesis
      using jk update_ok_fresh [OF assms, of j] update_ok_fresh [OF assms, of k]
      by (auto simp: nth_list_update split: if_splits)
  next
    case False
    then show ?thesis
      using jk registry_invD [OF assms(1), of j k] by simp
  qed
qed

lemma region_lookup_update:
  assumes "registry_inv ss" "update_ok ss i new"
  shows "region_lookup (ss[i := new]) a =
    (if a = 0 then None else if a = hr_addr new then Some new
     else if a = hr_addr (ss ! i) then None else region_lookup ss a)"
proof -
  let ?ss = "ss[i := new]"
  note inv = registry_inv_update [OF assms]
  have i: "i < length ss"
    using assms(2) by (simp add: update_ok_def)
  show ?thesis
    using assms(1)
  proof (cases rule: region_lookup_cases [where a = a])
    case null
    then show ?thesis
      by (simp add: region_lookup_def)
  next
    case absent
    then show ?thesis
      using region_lookup_nth [OF inv, of i] i region_lookup_None [of a ?ss]
        set_update_subset_insert [of ss i new] by auto
  next
    case (at j)
    show ?thesis
    proof (cases "a = hr_addr new")
      case True
      then show ?thesis
        using region_lookup_nth [OF inv, of i] i at(3) by simp
    next
      case False
      show ?thesis
      proof (cases "j = i")
        case True
        have "a \<notin> set (map hr_addr ?ss)"
        proof
          assume "a \<in> set (map hr_addr ?ss)"
          then obtain k where k: "k < length ss" "hr_addr (?ss ! k) = a"
            by (auto simp: in_set_conv_nth)
          then have "k \<noteq> i"
            using False i by auto
          then show False
            using registry_invD [OF assms(1) k(1) i] k(2) at True by simp
        qed
        then show ?thesis
          using region_lookup_None [of a ?ss] False at True by simp
      next
        case ne: False
        then have "a \<noteq> hr_addr (ss ! i)"
          using registry_invD [OF assms(1) at(1) i] at by auto
        then show ?thesis
          using region_lookup_nth [OF inv, of j] at ne False by simp
      qed
    qed
  qed
qed

interpretation hot: hot_table registry_inv region_lookup register_region unregister_region
proof
  show "region_lookup t 0 = None" for t
    by (simp add: region_lookup_def)
  show "registry_inv t' \<and> region_lookup t' = (region_lookup t)(addr \<mapsto>
        \<lparr>hr_addr = addr, hr_len = len, hr_huge_hint = huge, hr_label = label\<rparr>)"
    if "registry_inv t" "addr \<noteq> 0" "len \<noteq> 0" "register_region addr len huge label t = ok t'"
    for t addr len huge label t'
  proof -
    let ?new = "\<lparr>hr_addr = addr, hr_len = len, hr_huge_hint = huge, hr_label = label\<rparr>"
    note reg = that
    obtain i where "t' = t[i := ?new]" "update_ok t i ?new" "hr_addr (t ! i) \<in> {0, addr}"
    proof (cases "index_of_addr addr t")
      case None
      then show ?thesis
        using reg that index_of_addr_None [of addr t]
        by (auto simp: register_region_def update_ok_def split: option.splits dest!: index_of_addr_Some)
    next
      case (Some i)
      then show ?thesis
        using reg that [of i] index_of_addr_Some [OF Some]
        by (simp add: register_region_def update_ok_def)
    qed
    then show ?thesis
      using registry_inv_update [OF reg(1)] region_lookup_update [OF reg(1)] reg(2)
      by (auto simp: fun_eq_iff region_lookup_def)
  qed
  show "addr = 0 \<or> len = 0 \<Longrightarrow> register_region addr len huge label t = ok t" for addr len huge label t
    by (simp add: register_region_def)
  show "registry_inv (unregister_region addr t) \<and>
      region_lookup (unregister_region addr t) = (region_lookup t)(addr := None)"
    if "registry_inv t" for t addr
  proof (cases "addr = 0 \<or> index_of_addr addr t = None")
    case True
    then show ?thesis
      using that index_of_addr_None [of addr t] region_lookup_None [of addr t]
      by (auto simp: unregister_region_def region_lookup_def fun_eq_iff)
  next
    case False
    then obtain i where i: "index_of_addr addr t = Some i"
      by blast
    then have "update_ok t i ((t ! i)\<lparr>hr_addr := 0\<rparr>)" "hr_addr (t ! i) = addr"
      using index_of_addr_Some [OF i] by (auto simp: update_ok_def)
    then show ?thesis
      using registry_inv_update [OF that] region_lookup_update [OF that] False i
      by (auto simp: unregister_region_def fun_eq_iff region_lookup_def)
  qed
qed



section \<open>One thread alone, and two threads together\<close>

lemma index_of_addr_drop:
  "i \<le> length ss \<Longrightarrow> index_of_addr a (drop i ss) = None \<or>
     (\<exists>k. index_of_addr a (drop i ss) = Some k \<and> i + k < length ss)"
  by (metis index_of_addr_Some add.commute length_drop less_diff_conv option.exhaust)

lemma index_of_addr_step:
  "i < length ss \<Longrightarrow> index_of_addr a (drop i ss) =
     (if hr_addr (ss ! i) = a then Some 0 else map_option Suc (index_of_addr a (drop (Suc i) ss)))"
  by (simp add: Cons_nth_drop_Suc [symmetric])

lemma scan_same_run:
  assumes "i \<le> length slots"
  shows "\<exists>n. (thread_step r ^^ n) (Scan_same i, slots) =
    (case index_of_addr (hr_addr r) (drop i slots) of
       None \<Rightarrow> (Scan_free 0, slots)
     | Some k \<Rightarrow> (Publish (i + k), slots[i + k := (slots ! (i + k))\<lparr>hr_addr := claimed_addr\<rparr>]))"
  using assms
proof (induction "length slots - i" arbitrary: i)
  case 0
  then show ?case
    by (intro exI [of _ 1]) simp
next
  case (Suc m)
  then have i: "i < length slots" and m: "m = length slots - Suc i"
    by simp_all
  show ?case
  proof (cases "hr_addr (slots ! i) = hr_addr r")
    case True
    then show ?thesis
      using i by (intro exI [of _ 2]) (simp add: index_of_addr_step numeral_2_eq_2)
  next
    case False
    obtain n where "(thread_step r ^^ n) (Scan_same (Suc i), slots) =
      (case index_of_addr (hr_addr r) (drop (Suc i) slots) of
         None \<Rightarrow> (Scan_free 0, slots)
       | Some k \<Rightarrow> (Publish (Suc i + k), slots[Suc i + k := (slots ! (Suc i + k))\<lparr>hr_addr := claimed_addr\<rparr>]))"
      using Suc.hyps(1) [OF m] i by auto
    then show ?thesis
      using i False
      by (intro exI [of _ "Suc n"]) (auto simp: index_of_addr_step funpow_swap1 split: option.splits)
  qed
qed

lemma scan_free_run:
  assumes "i \<le> length slots"
  shows "\<exists>n. (thread_step r ^^ n) (Scan_free i, slots) =
    (case index_of_addr 0 (drop i slots) of
       None \<Rightarrow> (Reg_abort, slots)
     | Some k \<Rightarrow> (Publish (i + k), slots[i + k := (slots ! (i + k))\<lparr>hr_addr := claimed_addr\<rparr>]))"
  using assms
proof (induction "length slots - i" arbitrary: i)
  case 0
  then show ?case
    by (intro exI [of _ 1]) simp
next
  case (Suc m)
  then have i: "i < length slots" and m: "m = length slots - Suc i"
    by simp_all
  show ?case
  proof (cases "hr_addr (slots ! i) = 0")
    case True
    then show ?thesis
      using i by (intro exI [of _ 1]) (simp add: index_of_addr_step)
  next
    case False
    obtain n where "(thread_step r ^^ n) (Scan_free (Suc i), slots) =
      (case index_of_addr 0 (drop (Suc i) slots) of
         None \<Rightarrow> (Reg_abort, slots)
       | Some k \<Rightarrow> (Publish (Suc i + k), slots[Suc i + k := (slots ! (Suc i + k))\<lparr>hr_addr := claimed_addr\<rparr>]))"
      using Suc.hyps(1) [OF m] i by auto
    then show ?thesis
      using i False
      by (intro exI [of _ "Suc n"]) (auto simp: index_of_addr_step funpow_swap1 split: option.splits)
  qed
qed

lemma hot_region_collapse [simp]:
  "\<lparr>hr_addr = hr_addr r, hr_len = hr_len r, hr_huge_hint = hr_huge_hint r, hr_label = hr_label r\<rparr> = r"
  for r :: hot_region
  by (cases r) simp

lemma funpow_trans: "(f ^^ m) x = y \<Longrightarrow> (f ^^ n) y = z \<Longrightarrow> (f ^^ (n + m)) x = z"
  by (simp add: funpow_add)

text \<open>A thread that registers a region while no other thread does, run step by step, ends with
  exactly the table that the one-step description of \<^verbatim>\<open>register_region\<close> gives, and aborts exactly
  when that description aborts.\<close>

theorem register_solo_refines:
  assumes "hr_addr r \<noteq> 0" "hr_len r \<noteq> 0"
  shows "\<exists>n. (thread_step r ^^ n) (Scan_same 0, slots) =
    (case register_region (hr_addr r) (hr_len r) (hr_huge_hint r) (hr_label r) slots of
       Inl e \<Rightarrow> (Reg_abort, slots) | Inr slots' \<Rightarrow> (Reg_done, slots'))"
proof -
  obtain m where m: "(thread_step r ^^ m) (Scan_same 0, slots) =
    (case index_of_addr (hr_addr r) (drop 0 slots) of
       None \<Rightarrow> (Scan_free 0, slots)
     | Some k \<Rightarrow> (Publish (0 + k), slots[0 + k := (slots ! (0 + k))\<lparr>hr_addr := claimed_addr\<rparr>]))"
    using scan_same_run [of 0 slots r] by blast
  obtain n where n: "(thread_step r ^^ n) (Scan_free 0, slots) =
    (case index_of_addr 0 (drop 0 slots) of
       None \<Rightarrow> (Reg_abort, slots)
     | Some k \<Rightarrow> (Publish (0 + k), slots[0 + k := (slots ! (0 + k))\<lparr>hr_addr := claimed_addr\<rparr>]))"
    using scan_free_run [of 0 slots r] by blast
  have pub: "(thread_step r ^^ 1) (Publish k, slots[k := x]) = (Reg_done, slots[k := r])" for k x
    by simp
  show ?thesis
  proof (cases "index_of_addr (hr_addr r) slots")
    case (Some k)
    then have "(thread_step r ^^ m) (Scan_same 0, slots)
        = (Publish k, slots[k := (slots ! k)\<lparr>hr_addr := claimed_addr\<rparr>])"
      using m by simp
    moreover have "register_region (hr_addr r) (hr_len r) (hr_huge_hint r) (hr_label r) slots = ok (slots[k := r])"
      using assms Some by (simp add: register_region_def)
    ultimately show ?thesis
      using funpow_trans [OF _ pub] by (metis sum.case(2))
  next
    case None
    then have "(thread_step r ^^ m) (Scan_same 0, slots) = (Scan_free 0, slots)"
      using m by simp
    note run = funpow_trans [OF this n]
    show ?thesis
    proof (cases "index_of_addr 0 slots")
      case (Some k)
      then have "(thread_step r ^^ (n + m)) (Scan_same 0, slots)
          = (Publish k, slots[k := (slots ! k)\<lparr>hr_addr := claimed_addr\<rparr>])"
        using run by simp
      moreover have "register_region (hr_addr r) (hr_len r) (hr_huge_hint r) (hr_label r) slots = ok (slots[k := r])"
        using assms None Some by (simp add: register_region_def)
      ultimately show ?thesis
        using funpow_trans [OF _ pub] by (metis sum.case(2))
    next
      case free: None
      then show ?thesis
        using assms None run by (auto simp: register_region_def)
    qed
  qed
qed

theorem register_solo_refines_witness:
  "\<exists>n. (thread_step sample_region ^^ n) (Scan_same 0, [empty_slot, empty_slot])
     = (Reg_done, [sample_region, empty_slot])"
  using register_solo_refines [of sample_region "[empty_slot, empty_slot]"]
  by (simp add: sample_region_def register_region_def empty_slot_def)

lemma race_run_first:
  "(race_step r1 r2)\<^sup>*\<^sup>* (p, q, slots) (fst ((thread_step r1 ^^ n) (p, slots)), q, snd ((thread_step r1 ^^ n) (p, slots)))"
proof (induction n)
  case (Suc n)
  obtain p' slots' where eq: "(thread_step r1 ^^ n) (p, slots) = (p', slots')"
    by force
  have "race_step r1 r2 (p', q, slots') (fst (thread_step r1 (p', slots')), q, snd (thread_step r1 (p', slots')))"
    by (rule race_step.first) simp
  then show ?case
    using Suc eq by (metis fst_conv snd_conv funpow.simps(2) comp_apply rtranclp.rtrancl_into_rtrancl)
qed simp

lemma race_run_second:
  "(race_step r1 r2)\<^sup>*\<^sup>* (p, q, slots) (p, fst ((thread_step r2 ^^ n) (q, slots)), snd ((thread_step r2 ^^ n) (q, slots)))"
proof (induction n)
  case (Suc n)
  obtain q' slots' where eq: "(thread_step r2 ^^ n) (q, slots) = (q', slots')"
    by force
  have "race_step r1 r2 (p, q', slots') (p, fst (thread_step r2 (q', slots')), snd (thread_step r2 (q', slots')))"
    by (rule race_step.second) simp
  then show ?case
    using Suc eq by (metis fst_conv snd_conv funpow.simps(2) comp_apply rtranclp.rtrancl_into_rtrancl)
qed simp

lemma index_of_addr_empty: "a \<noteq> 0 \<Longrightarrow> index_of_addr a (replicate n empty_slot) = None"
  by (simp add: index_of_addr_None empty_slot_def)

text \<open>Registration is not safe for two threads that register the same address: there is an
  interleaving, starting from the empty table, after which both calls have returned and two slots
  hold that address, so the table no longer satisfies the one-entry-per-address invariant.\<close>

theorem register_race_duplicates:
  assumes "a \<noteq> 0" "a \<noteq> claimed_addr" "hr_addr r1 = a" "hr_addr r2 = a"
  shows "\<exists>slots. (race_step r1 r2)\<^sup>*\<^sup>* (Scan_same 0, Scan_same 0, empty_registry) (Reg_done, Reg_done, slots)
    \<and> snapshot slots = [r1, r2] \<and> \<not> registry_inv slots"
proof -
  let ?E = empty_registry and ?R = "race_step r1 r2"
  have scan: "\<exists>n. (thread_step r ^^ n) (Scan_same 0, ?E) = (Scan_free 0, ?E)" if "hr_addr r = a" for r
    using scan_same_run [of 0 ?E r] assms(1) that by (simp add: empty_registry_def index_of_addr_empty)
  obtain n1 n2 where n1: "(thread_step r1 ^^ n1) (Scan_same 0, ?E) = (Scan_free 0, ?E)"
    and n2: "(thread_step r2 ^^ n2) (Scan_same 0, ?E) = (Scan_free 0, ?E)"
    using scan assms by blast
  let ?c = "empty_slot\<lparr>hr_addr := claimed_addr\<rparr>" and ?rest = "replicate (max_regions - 2) empty_slot"
  have E: "?E = empty_slot # empty_slot # ?rest"
    by (simp add: empty_registry_def max_regions_def numeral_eq_Suc)
  have "?R\<^sup>*\<^sup>* (Scan_same 0, Scan_same 0, ?E) (Scan_free 0, Scan_same 0, ?E)"
    using race_run_first [of r1 r2 "Scan_same 0" "Scan_same 0" ?E n1] n1 by simp
  moreover have "?R\<^sup>*\<^sup>* (Scan_free 0, Scan_same 0, ?E) (Scan_free 0, Scan_free 0, ?E)"
    using race_run_second [of r1 r2 "Scan_free 0" "Scan_same 0" ?E n2] n2 by simp
  moreover have "?R\<^sup>*\<^sup>* (Scan_free 0, Scan_free 0, ?E) (Reg_done, Scan_free 0, r1 # empty_slot # ?rest)"
    using race_run_first [of r1 r2 "Scan_free 0" "Scan_free 0" ?E 2]
    by (simp add: E numeral_2_eq_2 empty_slot_def)
  moreover have "?R\<^sup>*\<^sup>* (Reg_done, Scan_free 0, r1 # empty_slot # ?rest) (Reg_done, Reg_done, r1 # r2 # ?rest)"
    using race_run_second [of r1 r2 Reg_done "Scan_free 0" "r1 # empty_slot # ?rest" 3] assms
    by (simp add: numeral_3_eq_3 empty_slot_def)
  ultimately have "?R\<^sup>*\<^sup>* (Scan_same 0, Scan_same 0, ?E) (Reg_done, Reg_done, r1 # r2 # ?rest)"
    by auto
  moreover have "snapshot (r1 # r2 # ?rest) = [r1, r2]"
    using assms by (simp add: snapshot_def occupied_def empty_slot_def)
  moreover have "\<not> registry_inv (r1 # r2 # ?rest)"
  proof
    assume "registry_inv (r1 # r2 # ?rest)"
    from registry_invD [OF this, of 0 1] show False
      using assms by simp
  qed
  ultimately show ?thesis
    by blast
qed

theorem register_race_duplicates_witness:
  "\<exists>slots. (race_step sample_region sample_region)\<^sup>*\<^sup>*
      (Scan_same 0, Scan_same 0, empty_registry) (Reg_done, Reg_done, slots)
    \<and> snapshot slots = [sample_region, sample_region] \<and> \<not> registry_inv slots"
  by (rule register_race_duplicates [of 4096]) (simp_all add: sample_region_def claimed_addr_def)

text \<open>The sequential contract: registering a live region makes exactly that description the
  one found under its address and leaves every other address alone, and withdrawing the address
  afterwards restores a table in which it was absent.\<close>

theorem register_unregister_contract:
  assumes "registry_inv t" "addr \<noteq> 0" "len \<noteq> 0" "register_region addr len huge label t = ok t'"
  shows "registry_inv t'
    \<and> region_lookup t' = (region_lookup t)
        (addr \<mapsto> \<lparr>hr_addr = addr, hr_len = len, hr_huge_hint = huge, hr_label = label\<rparr>)
    \<and> registry_inv (unregister_region addr t')
    \<and> (region_lookup t addr = None \<longrightarrow> region_lookup (unregister_region addr t') = region_lookup t)"
  using hot.reg_law [OF assms] hot.unreg_law [of t' addr] hot.reg_unreg_restores [OF assms(1) _ assms(4)]
  by blast

theorem register_unregister_contract_witness:
  "\<exists>t'. register_region 4096 256 False ''pool'' [empty_slot] = ok t'
     \<and> region_lookup t' 4096 = Some sample_region
     \<and> region_lookup (unregister_region 4096 t') = region_lookup [empty_slot]"
proof -
  obtain t' where t': "register_region 4096 256 False ''pool'' [empty_slot] = ok t'"
    by (simp add: register_region_def empty_slot_def)
  moreover have "registry_inv [empty_slot]" "region_lookup [empty_slot] 4096 = None"
    by (simp_all add: registry_inv_def region_lookup_def empty_slot_def)
  ultimately show ?thesis
    using register_unregister_contract [of "[empty_slot]" 4096 256 False "''pool''" t']
    by (simp add: sample_region_def)
qed

end
