(* ===== verification/Pool_Allocator.thy ===== *)
theory Pool_Allocator
  imports Memory_Plan Saturation Hot_Region_Registry
begin

text \<open>
  The pool behind a memory plan: \<^verbatim>\<open>crucible/PoolAllocator.h\<close>.  A pointer is a 64-bit address with
  zero for null.  The C library's \<^verbatim>\<open>aligned_alloc\<close> and \<^verbatim>\<open>calloc\<close> are parameters of \<^verbatim>\<open>init\<close>: the
  first is a function from alignment and size to an address, zero on failure, the second a flag
  that says whether the table could be allocated.
\<close>

section \<open>State and operations\<close>

record pool =
  pool_base :: u64
  ptr_table :: "u64 list option"
  pa_pool_bytes :: u64
  pa_num_slots :: nat
  pa_num_external :: nat

definition empty_pool :: pool where
  "empty_pool = \<lparr>pool_base = 0, ptr_table = None, pa_pool_bytes = 0, pa_num_slots = 0,
                 pa_num_external = 0\<rparr>"

definition kMaxNumSlots :: nat where
  "kMaxNumSlots = 2 ^ 20"

definition kMaxPoolBytes :: u64 where
  "kMaxPoolBytes = 256 * 2 ^ 30"

definition is_initialized :: "pool \<Rightarrow> bool" where
  "is_initialized p \<longleftrightarrow> ptr_table p \<noteq> None"

definition can_serve_slot :: "tensor_slot \<Rightarrow> u64 \<Rightarrow> bool" where
  "can_serve_slot slot bytes \<longleftrightarrow>
    (if is_external slot then True
     else if add_overflow (offset_bytes slot) (nbytes slot) then False
     else offset_bytes slot + nbytes slot \<le> bytes \<and> offset_bytes slot mod ALIGNMENT = 0)"

definition page_align :: "u64 \<Rightarrow> u64" where
  "page_align bytes = (if bytes \<ge> kHugePageBytes then kHugePageBytes else ALIGNMENT)"

definition alloc_size :: "u64 \<Rightarrow> u64" where
  "alloc_size bytes = add_sat bytes (page_align bytes - 1) AND NOT (page_align bytes - 1)"

fun fill_table :: "u64 \<Rightarrow> u64 \<Rightarrow> tensor_slot list \<Rightarrow> u64 list checked" where
  "fill_table base bytes [] = ok []"
| "fill_table base bytes (slot # slots) =
    (if \<not> can_serve_slot slot bytes then fail Aborted
     else case fill_table base bytes slots of
            Inl e \<Rightarrow> fail e
          | Inr table \<Rightarrow> ok ((if is_external slot then 0 else base + offset_bytes slot) # table))"

type_synonym pool_world = "pool \<times> hot_region list"

definition init_buffer ::
  "(u64 \<Rightarrow> u64 \<Rightarrow> u64) \<Rightarrow> u64 \<Rightarrow> hot_region list \<Rightarrow> (u64 \<times> hot_region list) checked" where
  "init_buffer aligned_alloc bytes reg =
    (if bytes > 0
     then let base = aligned_alloc (page_align bytes) (alloc_size bytes)
       in if base = 0 then fail Aborted
          else case register_region base (alloc_size bytes) (page_align bytes = kHugePageBytes)
                      ''PoolAllocator.pool'' reg of
                 Inl e \<Rightarrow> fail e
               | Inr reg' \<Rightarrow> ok (base, reg')
     else ok (0, reg))"

definition pool_init ::
  "(u64 \<Rightarrow> u64 \<Rightarrow> u64) \<Rightarrow> bool \<Rightarrow> memory_plan \<Rightarrow> pool_world \<Rightarrow> pool_world checked" where
  "pool_init aligned_alloc calloc_ok plan w =
    (let (p, reg) = w
     in if ptr_table p \<noteq> None then fail Contract_violation
     else if pool_base p \<noteq> 0 then fail Contract_violation
     else if \<not> num_slots plan \<le> kMaxNumSlots then fail Contract_violation
     else if \<not> pool_bytes plan \<le> kMaxPoolBytes then fail Contract_violation
     else if \<not> num_external plan \<le> num_slots plan then fail Contract_violation
     else case init_buffer aligned_alloc (pool_bytes plan) reg of
       Inl e \<Rightarrow> fail e
     | Inr (base, reg') \<Rightarrow>
         if num_slots plan > 0
         then if \<not> calloc_ok then fail Aborted
              else case fill_table base (pool_bytes plan) (take (num_slots plan) (mp_slots plan)) of
                     Inl e \<Rightarrow> fail e
                   | Inr table \<Rightarrow>
                       ok (\<lparr>pool_base = base, ptr_table = Some table, pa_pool_bytes = pool_bytes plan,
                            pa_num_slots = num_slots plan, pa_num_external = num_external plan\<rparr>, reg')
         else ok (\<lparr>pool_base = base, ptr_table = None, pa_pool_bytes = pool_bytes plan,
                   pa_num_slots = num_slots plan, pa_num_external = num_external plan\<rparr>, reg'))"

definition pool_destroy :: "pool_world \<Rightarrow> pool_world" where
  "pool_destroy w =
    (let (p, reg) = w
     in (empty_pool, if pool_base p \<noteq> 0 then unregister_region (pool_base p) reg else reg))"

definition slot_ptr :: "u32 \<Rightarrow> pool \<Rightarrow> u64 checked" where
  "slot_ptr sid p =
    (case ptr_table p of
       None \<Rightarrow> fail Contract_violation
     | Some table \<Rightarrow>
         if \<not> pa_num_slots p > 0 then fail Contract_violation
         else if \<not> unat sid \<le> pa_num_slots p - 1 then fail Contract_violation
         else ok (table ! unat sid))"

definition register_external :: "u32 \<Rightarrow> u64 \<Rightarrow> pool \<Rightarrow> pool checked" where
  "register_external sid ptr p =
    (case ptr_table p of
       None \<Rightarrow> fail Contract_violation
     | Some table \<Rightarrow>
         if \<not> pa_num_slots p > 0 then fail Contract_violation
         else if \<not> unat sid \<le> pa_num_slots p - 1 then fail Contract_violation
         else ok (p\<lparr>ptr_table := Some (table[unat sid := ptr])\<rparr>))"

definition pool_detach :: "pool_world \<Rightarrow> ((u64 \<times> u64) \<times> pool_world) checked" where
  "pool_detach w =
    (let (p, reg) = w
     in if \<not> is_initialized p then fail Contract_violation
        else ok ((pool_base p, pa_pool_bytes p),
                 pool_destroy (p\<lparr>pool_base := 0\<rparr>, unregister_region (pool_base p) reg)))"


section \<open>Well-formedness\<close>

definition pool_wf :: "pool \<Rightarrow> bool" where
  "pool_wf p \<longleftrightarrow> (case ptr_table p of None \<Rightarrow> True | Some table \<Rightarrow> length table = pa_num_slots p \<and> pa_num_slots p > 0)
     \<and> (pa_pool_bytes p > 0 \<longrightarrow> pool_base p \<noteq> 0)"

text \<open>What the C library promises about \<^verbatim>\<open>aligned_alloc\<close>: a block it returns starts at a multiple
  of the alignment and lies inside the address space.\<close>

definition aligned_alloc_ok :: "(u64 \<Rightarrow> u64 \<Rightarrow> u64) \<Rightarrow> bool" where
  "aligned_alloc_ok f \<longleftrightarrow> (\<forall>al n. al \<in> {256, 2097152} \<longrightarrow> f al n \<noteq> 0 \<longrightarrow>
     unat (f al n) mod unat al = 0 \<and> unat (f al n) + unat n < 2 ^ 64)"

text \<open>A concrete pool of one internal and one external slot, on a heap whose allocator always
  returns the same block.\<close>

definition sample_alloc :: "u64 \<Rightarrow> u64 \<Rightarrow> u64" where
  "sample_alloc al n = (if n \<le> 2 ^ 40 then 2 ^ 30 else 0)"

definition sample_pool_plan :: memory_plan where
  "sample_pool_plan =
    (let s = \<lparr>offset_bytes = 256, nbytes = 100, birth_op = 0, death_op = 1, sl_dtype = ST_Float,
              sl_device_type = DT_CPU, sl_device_idx = - 1, sl_layout = LY_Strided,
              is_external = False, slot_id = 0\<rparr>
     in \<lparr>mp_slots = [s, s\<lparr>is_external := True\<rparr>], pool_bytes = 512, num_slots = 2, num_external = 1,
         mp_device_type = DT_CPU, mp_device_idx = - 1, device_capability = 0, mp_rank = - 1,
         mp_world_size = 0\<rparr>)"


section \<open>Filling the table\<close>

lemma fill_table_iff:
  "fill_table base bytes slots =
    (if list_all (\<lambda>s. can_serve_slot s bytes) slots
     then ok (map (\<lambda>s. if is_external s then 0 else base + offset_bytes s) slots) else fail Aborted)"
  by (induction slots) auto

lemma can_serve_slotD:
  assumes "can_serve_slot s bytes" "\<not> is_external s"
  shows "unat (offset_bytes s) + unat (nbytes s) \<le> unat bytes" "256 dvd unat (offset_bytes s)"
proof -
  have "offset_bytes s + nbytes s \<le> bytes" "\<not> add_overflow (offset_bytes s) (nbytes s)"
    "offset_bytes s mod 256 = 0"
    using assms by (auto simp: can_serve_slot_def ALIGNMENT_def split: if_splits)
  then show "unat (offset_bytes s) + unat (nbytes s) \<le> unat bytes" "256 dvd unat (offset_bytes s)"
    by (simp_all add: add_overflow_def word_le_nat_alt word_arith word_unat_eq_iff unat_mod_distrib dvd_eq_mod_eq_0)
qed

lemma can_serve_slotI:
  assumes "unat (offset_bytes s) + unat (nbytes s) \<le> unat bytes" "256 dvd unat (offset_bytes s)"
  shows "can_serve_slot s bytes"
  using assms unat_lt_pow [of bytes]
  by (auto simp: can_serve_slot_def ALIGNMENT_def add_overflow_def word_le_nat_alt word_arith
      word_unat_eq_iff unat_mod_distrib dvd_eq_mod_eq_0)

lemma alloc_size_ge:
  assumes "bytes \<le> kMaxPoolBytes"
  shows "unat bytes \<le> unat (alloc_size bytes)"
proof -
  define k :: nat where "k = (if bytes \<ge> kHugePageBytes then 21 else 8)"
  have k: "k \<in> {8, 21}" "page_align bytes - 1 = mask k" "unat (mask k :: u64) = 2 ^ k - 1"
    by (auto simp: k_def page_align_def kHugePageBytes_def ALIGNMENT_def mask_eq_exp_minus_1)
  have "unat bytes \<le> 2 ^ 38"
    using assms by (simp add: word_le_nat_alt kMaxPoolBytes_def)
  then have "unat (add_sat bytes (mask k)) = unat bytes + (2 ^ k - 1)"
    using k(1,3) by (auto simp: unat_add_sat)
  then show ?thesis
    using round_up_ge [of "2 ^ k" "unat bytes"] by (simp add: alloc_size_def k(2) unat_and_not_mask)
qed


section \<open>What \<^verbatim>\<open>init\<close> leaves behind\<close>

lemma init_buffer_ok:
  assumes "init_buffer aligned_alloc bytes reg = ok (base, reg')"
  shows "bytes > 0 \<Longrightarrow> base = aligned_alloc (page_align bytes) (alloc_size bytes) \<and> base \<noteq> 0
      \<and> register_region base (alloc_size bytes) (page_align bytes = kHugePageBytes) ''PoolAllocator.pool'' reg = ok reg'"
    and "bytes = 0 \<Longrightarrow> base = 0 \<and> reg' = reg"
  using assms by (auto simp: init_buffer_def Let_def split: if_splits sum.splits)

lemma pool_init_ok:
  assumes "pool_init aligned_alloc c plan (p0, reg) = ok (p, reg')"
  shows "init_buffer aligned_alloc (pool_bytes plan) reg = ok (pool_base p, reg')"
    and "pool_bytes plan \<le> kMaxPoolBytes" "pa_num_slots p = num_slots plan"
    and "pa_pool_bytes p = pool_bytes plan" "pa_num_external p = num_external plan"
    and "num_slots plan > 0 \<Longrightarrow> list_all (\<lambda>s. can_serve_slot s (pool_bytes plan)) (take (num_slots plan) (mp_slots plan))
      \<and> ptr_table p = Some (map (\<lambda>s. if is_external s then 0 else pool_base p + offset_bytes s)
                              (take (num_slots plan) (mp_slots plan)))"
    and "num_slots plan = 0 \<Longrightarrow> ptr_table p = None"
  using assms
  by (auto simp: pool_init_def fill_table_iff not_le split: if_splits sum.splits prod.splits)

lemma sample_alloc_ok: "aligned_alloc_ok sample_alloc"
  by (auto simp: aligned_alloc_ok_def sample_alloc_def word_le_nat_alt)

lemma sample_pool_init:
  "\<exists>p reg'. pool_init sample_alloc True sample_pool_plan (empty_pool, [empty_slot]) = ok (p, reg')"
proof -
  have "alloc_size 512 = 512"
    by (simp add: alloc_size_def page_align_def kHugePageBytes_def ALIGNMENT_def add_sat_def
        add_overflow_def)
  then show ?thesis
    by (simp add: pool_init_def empty_pool_def sample_pool_plan_def init_buffer_def kMaxNumSlots_def
        kMaxPoolBytes_def register_region_def empty_slot_def sample_alloc_def fill_table_iff
        can_serve_slot_def add_overflow_def ALIGNMENT_def Let_def)
qed

lemma slot_ptr_table:
  assumes "pool_init aligned_alloc c plan (p0, reg) = ok (p, reg')"
    and "length (mp_slots plan) = num_slots plan" "i < num_slots plan"
  shows "slot_ptr (word_of_nat i) p
      = ok (if is_external (mp_slots plan ! i) then 0 else pool_base p + offset_bytes (mp_slots plan ! i))"
    and "can_serve_slot (mp_slots plan ! i) (pool_bytes plan)"
proof -
  note I = pool_init_ok [OF assms(1)]
  have "num_slots plan \<le> 2 ^ 20"
    using assms(1) by (auto simp: pool_init_def kMaxNumSlots_def split: if_splits)
  then have "unat (word_of_nat i :: u32) = i"
    using assms(3) by (intro unat_of_nat_exact) simp
  then show "slot_ptr (word_of_nat i) p
      = ok (if is_external (mp_slots plan ! i) then 0 else pool_base p + offset_bytes (mp_slots plan ! i))"
    "can_serve_slot (mp_slots plan ! i) (pool_bytes plan)"
    using I(3,6) assms(2,3) by (auto simp: slot_ptr_def list_all_length)
qed

lemma slot_ptr_in_block:
  assumes "aligned_alloc_ok aligned_alloc"
    and "pool_init aligned_alloc c plan (p0, reg) = ok (p, reg')"
    and "length (mp_slots plan) = num_slots plan" "i < num_slots plan"
    and "\<not> is_external (mp_slots plan ! i)" "pool_bytes plan > 0"
  shows "\<exists>ptr. slot_ptr (word_of_nat i) p = ok ptr
    \<and> unat ptr = unat (pool_base p) + unat (offset_bytes (mp_slots plan ! i))
    \<and> 256 dvd unat ptr
    \<and> unat ptr + unat (nbytes (mp_slots plan ! i)) \<le> unat (pool_base p) + unat (alloc_size (pool_bytes plan))"
proof -
  let ?s = "mp_slots plan ! i" and ?n = "alloc_size (pool_bytes plan)"
  note I = pool_init_ok [OF assms(2)]
  note T = slot_ptr_table [OF assms(2-4)]
  note S = can_serve_slotD [OF T(2) assms(5)]
  have base: "pool_base p = aligned_alloc (page_align (pool_bytes plan)) ?n" "pool_base p \<noteq> 0"
    using init_buffer_ok(1) [OF I(1) assms(6)] by auto
  have "page_align (pool_bytes plan) \<in> {256, 2097152}"
    by (simp add: page_align_def ALIGNMENT_def kHugePageBytes_def)
  then have "unat (pool_base p) mod unat (page_align (pool_bytes plan)) = 0"
    "unat (pool_base p) + unat ?n < 2 ^ 64" "256 dvd unat (page_align (pool_bytes plan))"
    using assms(1) base unfolding aligned_alloc_ok_def by auto
  then have al: "256 dvd unat (pool_base p)" and room: "unat (pool_base p) + unat ?n < 2 ^ 64"
    by (auto intro: dvd_trans)
  have "unat (offset_bytes ?s) + unat (nbytes ?s) \<le> unat ?n"
    using S(1) alloc_size_ge [OF I(2)] by simp
  moreover from this have "unat (pool_base p + offset_bytes ?s) = unat (pool_base p) + unat (offset_bytes ?s)"
    using room by (intro unat_add_exact) simp
  ultimately show ?thesis
    using assms(5) S(2) al T(1) by simp
qed

lemma slot_ptr_empty_pool:
  assumes "pool_init aligned_alloc c plan (p0, reg) = ok (p, reg')"
    and "length (mp_slots plan) = num_slots plan" "i < num_slots plan"
    and "\<not> is_external (mp_slots plan ! i)" "pool_bytes plan = 0"
  shows "slot_ptr (word_of_nat i) p = ok 0 \<and> nbytes (mp_slots plan ! i) = 0"
proof -
  note T = slot_ptr_table [OF assms(1-3)]
  have "offset_bytes (mp_slots plan ! i) = 0" "nbytes (mp_slots plan ! i) = 0"
    using can_serve_slotD(1) [OF T(2) assms(4)] assms(5) by (simp_all add: unat_eq_0)
  moreover have "pool_base p = 0"
    using init_buffer_ok(2) [OF pool_init_ok(1) [OF assms(1)] assms(5)] by simp
  ultimately show ?thesis
    using T(1) assms(4) by simp
qed

text \<open>C11.  Slot pointers are safe.  After a successful \<^verbatim>\<open>init\<close> from an \<^verbatim>\<open>aligned_alloc\<close> that keeps its contract,
  \<^verbatim>\<open>slot_ptr\<close> returns for every slot of a plan whose slot count is the length of its slot array.  An external slot has the null pointer until it is
  registered.  The pointer of an internal slot in a pool with bytes is the pool base plus its offset and a multiple of
  256, and the whole tensor lies inside the allocated block, with no wrap in the address arithmetic.  In a
  pool without bytes an internal slot has the null pointer and no bytes either.\<close>

theorem pool_slot_ptr_safe:
  assumes "aligned_alloc_ok aligned_alloc"
    and "pool_init aligned_alloc c plan (p0, reg) = ok (p, reg')"
    and "length (mp_slots plan) = num_slots plan" "i < num_slots plan"
  shows "\<exists>ptr. slot_ptr (word_of_nat i) p = ok ptr
    \<and> (if is_external (mp_slots plan ! i) then ptr = 0
       else if pool_bytes plan = 0 then ptr = 0 \<and> nbytes (mp_slots plan ! i) = 0
       else unat ptr = unat (pool_base p) + unat (offset_bytes (mp_slots plan ! i))
         \<and> 256 dvd unat ptr
         \<and> unat ptr + unat (nbytes (mp_slots plan ! i)) \<le> unat (pool_base p) + unat (alloc_size (pool_bytes plan)))"
proof (cases "is_external (mp_slots plan ! i) \<or> pool_bytes plan = 0")
  case True
  then show ?thesis
    using slot_ptr_table(1) [OF assms(2-4)] slot_ptr_empty_pool [OF assms(2-4)] by auto
next
  case False
  then show ?thesis
    using slot_ptr_in_block [OF assms] by (simp add: word_gt_0)
qed

theorem pool_slot_ptr_safe_witness:
  "\<exists>w. pool_init sample_alloc True sample_pool_plan (empty_pool, [empty_slot]) = ok w
     \<and> (\<exists>ptr. slot_ptr (word_of_nat 0) (fst w) = ok ptr \<and> 256 dvd unat ptr
          \<and> unat ptr = unat (pool_base (fst w)) + 256)
     \<and> slot_ptr (word_of_nat 1) (fst w) = ok 0"
proof -
  obtain p reg' where w: "pool_init sample_alloc True sample_pool_plan (empty_pool, [empty_slot]) = ok (p, reg')"
    using sample_pool_init by blast
  show ?thesis
    using pool_slot_ptr_safe [OF sample_alloc_ok w, of 0] pool_slot_ptr_safe [OF sample_alloc_ok w, of 1] w
    by (auto simp: sample_pool_plan_def)
qed

text \<open>The pool leaves no trace in the registry: initialising an empty pool and destroying it,
  or detaching its buffer, gives back the empty pool and a registry with the same entries, provided
  the fresh block was not registered before; and the buffer handed out by \<^verbatim>\<open>detach\<close> is the block of
  the pool.\<close>

theorem pool_init_destroy_balanced:
  assumes "registry_inv reg" "pool_init aligned_alloc c plan (p0, reg) = ok (p, reg')"
    and "region_lookup reg (pool_base p) = None"
  shows "fst (pool_destroy (p, reg')) = empty_pool
    \<and> region_lookup (snd (pool_destroy (p, reg'))) = region_lookup reg
    \<and> (\<forall>out w. pool_detach (p, reg') = ok (out, w) \<longrightarrow>
         out = (pool_base p, pool_bytes plan) \<and> fst w = empty_pool
         \<and> region_lookup (snd w) = region_lookup reg)"
proof -
  note I = pool_init_ok [OF assms(2)]
  have restored: "region_lookup (unregister_region (pool_base p) reg') = region_lookup reg"
  proof (cases "pool_bytes plan > 0")
    case True
    then show ?thesis
      using hot.reg_unreg_restores(2) [OF assms(1,3)] init_buffer_ok(1) [OF I(1)] by blast
  next
    case False
    then have "pool_bytes plan = 0"
      by (simp add: word_gt_0)
    then show ?thesis
      using init_buffer_ok(2) [OF I(1)] by (simp add: unregister_region_def)
  qed
  moreover have "unregister_region 0 r = r" for r
    by (simp add: unregister_region_def)
  ultimately show ?thesis
    using I(4) by (auto simp: pool_destroy_def pool_detach_def Let_def split: if_splits)
qed

theorem pool_init_destroy_balanced_witness:
  "\<exists>p reg'. pool_init sample_alloc True sample_pool_plan (empty_pool, [empty_slot]) = ok (p, reg')
     \<and> fst (pool_destroy (p, reg')) = empty_pool
     \<and> region_lookup (snd (pool_destroy (p, reg'))) = region_lookup [empty_slot]"
proof -
  obtain p reg' where w: "pool_init sample_alloc True sample_pool_plan (empty_pool, [empty_slot]) = ok (p, reg')"
    using sample_pool_init by blast
  have "registry_inv [empty_slot]" "region_lookup [empty_slot] (pool_base p) = None"
    by (simp_all add: registry_inv_def region_lookup_def empty_slot_def)
  from pool_init_destroy_balanced [OF this(1) w this(2)] w show ?thesis
    by blast
qed

text \<open>Registering an external slot makes its pointer the one \<^verbatim>\<open>slot_ptr\<close> returns for it and
  leaves every other slot alone; both operations reject exactly the identifiers outside the table.\<close>

theorem register_external_slot_ptr:
  assumes "pool_wf p"
  shows "(case register_external sid ptr p of
      Inl e \<Rightarrow> e = Contract_violation \<and> (\<not> is_initialized p \<or> pa_num_slots p \<le> unat sid)
    | Inr p' \<Rightarrow> is_initialized p \<and> unat sid < pa_num_slots p \<and> pool_wf p' \<and> slot_ptr sid p' = ok ptr
        \<and> (\<forall>sid'. sid' \<noteq> sid \<longrightarrow> slot_ptr sid' p' = slot_ptr sid' p))"
  using assms
  by (auto simp: register_external_def slot_ptr_def is_initialized_def pool_wf_def nth_list_update
      word_unat_eq_iff split: option.splits)

theorem register_external_slot_ptr_witness:
  "\<exists>p reg'. pool_init sample_alloc True sample_pool_plan (empty_pool, [empty_slot]) = ok (p, reg') \<and> pool_wf p
     \<and> (case register_external 1 77 p of
          Inl e \<Rightarrow> e = Contract_violation \<and> (\<not> is_initialized p \<or> pa_num_slots p \<le> unat (1 :: u32))
        | Inr p' \<Rightarrow> is_initialized p \<and> unat (1 :: u32) < pa_num_slots p \<and> pool_wf p' \<and> slot_ptr 1 p' = ok 77
            \<and> (\<forall>sid'. sid' \<noteq> 1 \<longrightarrow> slot_ptr sid' p' = slot_ptr sid' p))"
proof -
  obtain p reg' where w: "pool_init sample_alloc True sample_pool_plan (empty_pool, [empty_slot]) = ok (p, reg')"
    using sample_pool_init by blast
  note I = pool_init_ok [OF w]
  have "pool_wf p"
    using I init_buffer_ok [OF I(1)] by (auto simp: pool_wf_def sample_pool_plan_def)
  then show ?thesis
    using register_external_slot_ptr [of p 1 77] w by blast
qed

end
