(* ===== verification/Replay_Engine.thy ===== *)
theory Replay_Engine
  imports Merkle_Dag Pool_Allocator
begin

text \<open>
  The guarded cursor of \<^verbatim>\<open>crucible/ReplayEngine.h\<close>.  Pointers into the region's operations are indices;
  \<^verbatim>\<open>ops_\<close> itself is \<^verbatim>\<open>None\<close> before the first initialisation.  The engine keeps a pointer to the pool's
  slot table and reads it live, so the pool is an argument of the reads.
\<close>

section \<open>State and operations\<close>

datatype replay_status = MATCH | DIVERGED | COMPLETE

record replay_engine =
  re_ops :: "trace_entry list option"
  re_cursor :: nat
  re_end :: nat
  re_current :: "nat option"
  re_expected_schema :: u64
  re_expected_shape :: u64

definition fresh_engine :: replay_engine where
  "fresh_engine = \<lparr>re_ops = None, re_cursor = 0, re_end = 0, re_current = None,
     re_expected_schema = 0, re_expected_shape = 0\<rparr>"

definition engine_op :: "replay_engine \<Rightarrow> nat \<Rightarrow> trace_entry" where
  "engine_op e i = the (re_ops e) ! i"

definition engine_init :: "region option \<Rightarrow> pool \<Rightarrow> replay_engine \<Rightarrow> replay_engine checked" where
  "engine_init rg p e =
    (case rg of
       None \<Rightarrow> fail Contract_violation
     | Some r \<Rightarrow>
         if \<not> is_initialized p then fail Contract_violation
         else let ops = rg_ops r in
           ok \<lparr>re_ops = Some ops, re_cursor = 0, re_end = length ops, re_current = None,
               re_expected_schema = (if ops \<noteq> [] then te_schema_hash (ops ! 0) else 0),
               re_expected_shape = (if ops \<noteq> [] then te_shape_hash (ops ! 0) else 0)\<rparr>)"

definition engine_reset :: "replay_engine \<Rightarrow> replay_engine" where
  "engine_reset e =
    (let e1 = e\<lparr>re_cursor := 0\<rparr> in
     if re_end e \<noteq> 0
     then e1\<lparr>re_expected_schema := te_schema_hash (engine_op e 0), re_expected_shape := te_shape_hash (engine_op e 0)\<rparr>
     else e1)"

definition advance :: "u64 \<Rightarrow> u64 \<Rightarrow> replay_engine \<Rightarrow> (replay_status \<times> replay_engine) checked" where
  "advance schema shape e =
    (if \<not> re_cursor e < re_end e then fail Contract_violation
     else if schema \<noteq> re_expected_schema e then ok (DIVERGED, e)
     else if shape \<noteq> re_expected_shape e then ok (DIVERGED, e)
     else let e1 = e\<lparr>re_current := Some (re_cursor e), re_cursor := re_cursor e + 1\<rparr> in
       if re_cursor e1 = re_end e1 then ok (COMPLETE, e1)
       else ok (MATCH, e1\<lparr>re_expected_schema := te_schema_hash (engine_op e1 (re_cursor e1)),
                          re_expected_shape := te_shape_hash (engine_op e1 (re_cursor e1))\<rparr>))"

definition table_read :: "pool \<Rightarrow> u32 \<Rightarrow> u64" where
  "table_read p sid = (if id_is_valid sid then the (ptr_table p) ! unat sid else 0)"

definition output_ptr :: "nat \<Rightarrow> pool \<Rightarrow> replay_engine \<Rightarrow> u64 checked" where
  "output_ptr j p e =
    (case re_current e of
       None \<Rightarrow> fail Contract_violation
     | Some i \<Rightarrow>
         (case te_output_slot_ids (engine_op e i) of
            None \<Rightarrow> fail Contract_violation
          | Some ids \<Rightarrow>
              if \<not> te_num_outputs (engine_op e i) > 0 then fail Contract_violation
              else if \<not> j \<le> te_num_outputs (engine_op e i) - 1 then fail Contract_violation
              else ok (table_read p (ids ! j))))"

definition input_ptr :: "nat \<Rightarrow> pool \<Rightarrow> replay_engine \<Rightarrow> u64 checked" where
  "input_ptr j p e =
    (case re_current e of
       None \<Rightarrow> fail Contract_violation
     | Some i \<Rightarrow>
         (case te_input_slot_ids (engine_op e i) of
            None \<Rightarrow> fail Contract_violation
          | Some ids \<Rightarrow>
              if \<not> te_num_inputs (engine_op e i) > 0 then fail Contract_violation
              else if \<not> j \<le> te_num_inputs (engine_op e i) - 1 then fail Contract_violation
              else ok (table_read p (ids ! j))))"

definition matched_op_index :: "replay_engine \<Rightarrow> nat checked" where
  "matched_op_index e = (case re_current e of None \<Rightarrow> fail Contract_violation | Some i \<Rightarrow> ok i)"

definition diverged_op_index :: "replay_engine \<Rightarrow> nat" where
  "diverged_op_index e = re_cursor e"

definition is_complete :: "replay_engine \<Rightarrow> bool" where
  "is_complete e \<longleftrightarrow> re_cursor e = re_end e"

text \<open>A caller that feeds the guards of an iteration until the engine reports something else than a
  match.\<close>

fun feed :: "(u64 \<times> u64) list \<Rightarrow> replay_engine \<Rightarrow> (replay_status \<times> replay_engine) checked" where
  "feed [] e = ok (MATCH, e)"
| "feed ((schema, shape) # gs) e =
    (case advance schema shape e of
       Inl f \<Rightarrow> fail f
     | Inr (st, e') \<Rightarrow> if st = MATCH then feed gs e' else ok (st, e'))"


section \<open>The cursor invariant\<close>

definition op_guards :: "trace_entry list \<Rightarrow> (u64 \<times> u64) list" where
  "op_guards ops = map (\<lambda>op. (te_schema_hash op, te_shape_hash op)) ops"

fun common_len :: "'a list \<Rightarrow> 'a list \<Rightarrow> nat" where
  "common_len (x # xs) (y # ys) = (if x = y then Suc (common_len xs ys) else 0)"
| "common_len _ _ = 0"

definition engine_inv :: "trace_entry list \<Rightarrow> replay_engine \<Rightarrow> bool" where
  "engine_inv ops e \<longleftrightarrow> re_ops e = Some ops \<and> re_end e = length ops \<and> re_cursor e \<le> length ops
     \<and> (re_cursor e < length ops \<longrightarrow> (re_expected_schema e, re_expected_shape e) = op_guards ops ! re_cursor e)
     \<and> (\<forall>i. re_current e = Some i \<longrightarrow> i < length ops)"

lemma engine_init_inv [inv_intros]:
  "engine_init (Some r) p e = ok e' \<Longrightarrow> engine_inv (rg_ops r) e' \<and> re_cursor e' = 0 \<and> re_current e' = None"
  by (auto simp: engine_init_def engine_inv_def op_guards_def Let_def split: if_splits)

lemma engine_reset_inv [inv_intros]:
  "engine_inv ops e \<Longrightarrow> engine_inv ops (engine_reset e) \<and> re_cursor (engine_reset e) = 0"
  by (auto simp: engine_reset_def engine_inv_def op_guards_def engine_op_def Let_def)

lemma advance_cases:
  assumes "engine_inv ops e" "re_cursor e < length ops"
  shows "if (schema, shape) = op_guards ops ! re_cursor e
     then \<exists>e'. advance schema shape e = ok (if Suc (re_cursor e) = length ops then COMPLETE else MATCH, e')
        \<and> engine_inv ops e' \<and> re_cursor e' = Suc (re_cursor e) \<and> re_current e' = Some (re_cursor e)
     else advance schema shape e = ok (DIVERGED, e)"
  using assms
  by (auto simp: advance_def engine_inv_def op_guards_def engine_op_def Let_def)

lemma length_op_guards [simp]: "length (op_guards ops) = length ops"
  by (simp add: op_guards_def)

lemma feed_common:
  assumes "engine_inv ops e" "re_cursor e < length ops"
    and "k = common_len gs (drop (re_cursor e) (op_guards ops))"
  shows "\<exists>e'. feed gs e = ok (if re_cursor e + k = length ops then COMPLETE
                              else if k = length gs then MATCH else DIVERGED, e')
     \<and> engine_inv ops e' \<and> re_cursor e' = re_cursor e + k
     \<and> re_current e' = (if k = 0 then re_current e else Some (re_cursor e + k - 1))"
  using assms
proof (induction gs arbitrary: e k)
  case Nil
  then show ?case
    by simp
next
  case (Cons g gs)
  obtain schema shape where g: "g = (schema, shape)"
    by fastforce
  have drop: "drop (re_cursor e) (op_guards ops)
      = op_guards ops ! re_cursor e # drop (Suc (re_cursor e)) (op_guards ops)"
    using Cons.prems(2) Cons_nth_drop_Suc[of "re_cursor e" "op_guards ops"] by simp
  note adv = advance_cases[OF Cons.prems(1,2), of schema shape]
  show ?case
  proof (cases "g = op_guards ops ! re_cursor e")
    case hit: True
    then obtain e1 where e1: "advance schema shape e
        = ok (if Suc (re_cursor e) = length ops then COMPLETE else MATCH, e1)"
        "engine_inv ops e1" "re_cursor e1 = Suc (re_cursor e)" "re_current e1 = Some (re_cursor e)"
      using adv g by auto
    show ?thesis
    proof (cases "Suc (re_cursor e) = length ops")
      case True
      then show ?thesis
        using e1 g drop hit Cons.prems by (simp add: op_guards_def)
    next
      case False
      then have "re_cursor e1 < length ops"
        using e1(3) Cons.prems(2) by simp
      from Cons.IH[OF e1(2) this refl] show ?thesis
        using e1 g drop hit False Cons.prems(3) by auto
    qed
  next
    case False
    then show ?thesis
      using adv g drop Cons.prems by simp
  qed
qed


section \<open>Properties\<close>

text \<open>C5.  An iteration replayed against a region with operations follows it exactly: after initialisation, or after
  a reset, feeding a sequence of guards never violates a precondition, the engine matches the longest
  common prefix of the fed guards and the region's operations, it reports completion exactly when
  the whole region was matched, and otherwise a divergence at the first differing position, which
  is always an index of an operation.\<close>

theorem replay_engine_follows_region:
  assumes "engine_init (Some r) p e0 = ok e1" "rg_ops r \<noteq> []"
    and "e = e1 \<or> (\<exists>gs0 st e2. feed gs0 e1 = ok (st, e2) \<and> e = engine_reset e2)"
    and "n = length (rg_ops r)" "k = common_len gs (op_guards (rg_ops r))"
  shows "\<exists>e'. feed gs e = ok (if k = n then COMPLETE else if k = length gs then MATCH else DIVERGED, e')
     \<and> diverged_op_index e' = k \<and> (k < n \<or> is_complete e')
     \<and> (0 < k \<longrightarrow> matched_op_index e' = ok (k - 1))"
proof -
  have init: "engine_inv (rg_ops r) e1" "re_cursor e1 = 0"
    using engine_init_inv[OF assms(1)] by auto
  have "engine_inv (rg_ops r) e \<and> re_cursor e = 0"
    using assms(3)
  proof (elim disjE exE conjE)
    fix gs0 st e2
    assume "feed gs0 e1 = ok (st, e2)" "e = engine_reset e2"
    then show ?thesis
      using feed_common[OF init(1) _ refl, of gs0] init(2) assms(2) engine_reset_inv[of "rg_ops r" e2] by force
  qed (use init in simp)
  then obtain e' where e': "feed gs e = ok (if k = n then COMPLETE else if k = length gs then MATCH else DIVERGED, e')"
      "engine_inv (rg_ops r) e'" "re_cursor e' = k" "0 < k \<longrightarrow> re_current e' = Some (k - 1)"
    using feed_common[of "rg_ops r" e k gs] assms(2,4,5) by auto
  then show ?thesis
    by (auto simp: diverged_op_index_def is_complete_def matched_op_index_def engine_inv_def assms(4))
qed

definition guard_op :: "u64 \<Rightarrow> u64 \<Rightarrow> trace_entry" where
  "guard_op schema shape = \<lparr>te_schema_hash = schema, te_shape_hash = shape, te_scope_hash = 0,
     te_callsite_hash = 0, te_input_metas = None, te_output_metas = None, te_num_inputs = 0,
     te_num_outputs = 1, te_scalar_args = None, te_num_scalar_args = 0, te_grad_enabled = False,
     te_inference_mode = False, te_kernel_id = 0, te_is_mutable = False, te_training_phase = PH_FORWARD,
     te_torch_function = False, te_input_trace_indices = None, te_input_slot_ids = None,
     te_output_slot_ids = Some [0]\<rparr>"

definition guard_region :: region where
  "guard_region = fresh_region\<lparr>rg_ops := [guard_op 1 10, guard_op 2 20, guard_op 3 30]\<rparr>"

definition guard_pool :: pool where
  "guard_pool = empty_pool\<lparr>ptr_table := Some [4096], pa_num_slots := 1\<rparr>"

lemma guard_init:
  "\<exists>e1. engine_init (Some guard_region) guard_pool fresh_engine = ok e1"
  by (simp add: engine_init_def is_initialized_def guard_pool_def Let_def)

theorem replay_engine_follows_region_witness:
  "\<exists>e1 e'. engine_init (Some guard_region) guard_pool fresh_engine = ok e1 \<and> rg_ops guard_region \<noteq> []
     \<and> feed [(1, 10), (2, 21), (3, 30)] e1 = ok (DIVERGED, e')
     \<and> diverged_op_index e' = 1 \<and> matched_op_index e' = ok 0"
proof -
  obtain e1 where e1: "engine_init (Some guard_region) guard_pool fresh_engine = ok e1"
    using guard_init by blast
  have ne: "rg_ops guard_region \<noteq> []" and len: "length (rg_ops guard_region) = 3"
    and k: "common_len [(1, 10), (2, 21), (3, 30)] (op_guards (rg_ops guard_region)) = 1"
    by (simp_all add: guard_region_def guard_op_def op_guards_def)
  show ?thesis
    using replay_engine_follows_region[OF e1 ne disjI1[OF refl] refl refl, of "[(1, 10), (2, 21), (3, 30)]"]
      e1 ne unfolding len k by auto
qed

lemma output_ptr_reads_table:
  assumes "pool_wf p" "ptr_table p = Some table" "te_output_slot_ids (engine_op e i) = Some ids"
    and "re_current e = Some i" "j < te_num_outputs (engine_op e i)"
    and "id_is_valid (ids ! j) \<longrightarrow> unat (ids ! j) < pa_num_slots p"
  shows "output_ptr j p e = (if id_is_valid (ids ! j) then slot_ptr (ids ! j) p else ok 0)"
  using assms by (auto simp: output_ptr_def table_read_def slot_ptr_def pool_wf_def)

lemma input_ptr_reads_table:
  assumes "pool_wf p" "ptr_table p = Some table" "te_input_slot_ids (engine_op e i) = Some ids"
    and "re_current e = Some i" "j < te_num_inputs (engine_op e i)"
    and "id_is_valid (ids ! j) \<longrightarrow> unat (ids ! j) < pa_num_slots p"
  shows "input_ptr j p e = (if id_is_valid (ids ! j) then slot_ptr (ids ! j) p else ok 0)"
  using assms by (auto simp: input_ptr_def table_read_def slot_ptr_def pool_wf_def)

end
