(* ===== verification/Region_Cache.thy ===== *)
theory Region_Cache
  imports Merkle_Dag
begin

text \<open>
  The cache of compiled regions of \<^verbatim>\<open>crucible/RegionCache.h\<close>: four parallel arrays of eight slots, a
  free-running 32-bit counter (\<^verbatim>\<open>fixy/Cyclic.h\<close>) and a count.  A region is known by its address; the
  heap of regions is an argument, because \<^verbatim>\<open>find_alternate\<close> reads the plan of a region live.
\<close>

section \<open>State and operations\<close>

type_synonym region_heap = "nat \<Rightarrow> region"

definition cache_cap :: nat where
  "cache_cap = 8"

record region_cache =
  rc_regions :: "nat option list"
  rc_content_hashes :: "u64 list"
  rc_ops :: "trace_entry list list"
  rc_num_ops :: "nat list"
  rc_head :: u32
  rc_count :: nat

definition empty_cache :: region_cache where
  "empty_cache = \<lparr>rc_regions = replicate cache_cap None, rc_content_hashes = replicate cache_cap 0,
     rc_ops = replicate cache_cap [], rc_num_ops = replicate cache_cap 0, rc_head = 0, rc_count = 0\<rparr>"

definition cyclic_index :: "u32 \<Rightarrow> nat" where
  "cyclic_index counter = unat (counter AND 7)"

definition index_back :: "u32 \<Rightarrow> nat \<Rightarrow> nat" where
  "index_back counter i = unat ((counter - 1 - word_of_nat i) AND 7)"

definition cache_insert :: "region_heap \<Rightarrow> nat option \<Rightarrow> region_cache \<Rightarrow> region_cache checked" where
  "cache_insert heap rg c =
    (case rg of
       None \<Rightarrow> fail Contract_violation
     | Some a \<Rightarrow>
         let r = heap a; hash = rg_content_hash r in
         if list_ex (\<lambda>i. rc_content_hashes c ! index_back (rc_head c) i = hash) [0..<rc_count c] then ok c
         else let slot = cyclic_index (rc_head c) in
           ok \<lparr>rc_regions = (rc_regions c)[slot := Some a],
               rc_content_hashes = (rc_content_hashes c)[slot := hash],
               rc_ops = (rc_ops c)[slot := rg_ops r],
               rc_num_ops = (rc_num_ops c)[slot := length (rg_ops r)],
               rc_head = rc_head c + 1,
               rc_count = (if rc_count c < cache_cap then rc_count c + 1 else rc_count c)\<rparr>)"

fun alternate_loop ::
  "region_heap \<Rightarrow> nat \<Rightarrow> u64 \<Rightarrow> u64 \<Rightarrow> nat option \<Rightarrow> region_cache \<Rightarrow> nat list \<Rightarrow> nat option" where
  "alternate_loop heap pos schema shape exclude c [] = None"
| "alternate_loop heap pos schema shape exclude c (i # is) =
    (let idx = index_back (rc_head c) i in
     case rc_regions c ! idx of
       None \<Rightarrow> alternate_loop heap pos schema shape exclude c is
     | Some a \<Rightarrow>
         if exclude = Some a then alternate_loop heap pos schema shape exclude c is
         else if rg_plan (heap a) = None then alternate_loop heap pos schema shape exclude c is
         else if pos \<ge> rc_num_ops c ! idx then alternate_loop heap pos schema shape exclude c is
         else if te_schema_hash (rc_ops c ! idx ! pos) = schema \<and> te_shape_hash (rc_ops c ! idx ! pos) = shape
         then Some a
         else alternate_loop heap pos schema shape exclude c is)"

definition find_alternate ::
  "region_heap \<Rightarrow> nat \<Rightarrow> u64 \<Rightarrow> u64 \<Rightarrow> nat option \<Rightarrow> region_cache \<Rightarrow> nat option" where
  "find_alternate heap pos schema shape exclude c =
    alternate_loop heap pos schema shape exclude c [0..<rc_count c]"

fun find_loop :: "u64 \<Rightarrow> region_cache \<Rightarrow> nat list \<Rightarrow> nat option" where
  "find_loop hash c [] = None"
| "find_loop hash c (i # is) =
    (let idx = index_back (rc_head c) i in
     if rc_content_hashes c ! idx = hash then rc_regions c ! idx else find_loop hash c is)"

definition cache_find :: "u64 \<Rightarrow> region_cache \<Rightarrow> nat option" where
  "cache_find hash c = find_loop hash c [0..<rc_count c]"

definition region_at :: "nat \<Rightarrow> region_cache \<Rightarrow> nat option" where
  "region_at age c = (if age \<ge> rc_count c then None else rc_regions c ! index_back (rc_head c) age)"


section \<open>The cache as a list, newest entry first\<close>

record cache_entry =
  ce_region :: "nat option"
  ce_hash :: u64
  ce_ops :: "trace_entry list"
  ce_num_ops :: nat

definition slot_entry :: "region_cache \<Rightarrow> nat \<Rightarrow> cache_entry" where
  "slot_entry c i = \<lparr>ce_region = rc_regions c ! i, ce_hash = rc_content_hashes c ! i, ce_ops = rc_ops c ! i,
     ce_num_ops = rc_num_ops c ! i\<rparr>"

definition cache_list :: "region_cache \<Rightarrow> cache_entry list" where
  "cache_list c = map (\<lambda>i. slot_entry c (index_back (rc_head c) i)) [0..<rc_count c]"

definition region_entry :: "region_heap \<Rightarrow> nat \<Rightarrow> cache_entry" where
  "region_entry heap a = \<lparr>ce_region = Some a, ce_hash = rg_content_hash (heap a), ce_ops = rg_ops (heap a),
     ce_num_ops = length (rg_ops (heap a))\<rparr>"

definition eligible :: "region_heap \<Rightarrow> nat \<Rightarrow> u64 \<Rightarrow> u64 \<Rightarrow> nat option \<Rightarrow> cache_entry \<Rightarrow> bool" where
  "eligible heap pos schema shape exclude ce \<longleftrightarrow>
    (case ce_region ce of None \<Rightarrow> False | Some a \<Rightarrow>
       exclude \<noteq> Some a \<and> rg_plan (heap a) \<noteq> None \<and> pos < ce_num_ops ce
       \<and> te_schema_hash (ce_ops ce ! pos) = schema \<and> te_shape_hash (ce_ops ce ! pos) = shape)"

definition cache_wf :: "region_cache \<Rightarrow> bool" where
  "cache_wf c \<longleftrightarrow> length (rc_regions c) = cache_cap \<and> length (rc_content_hashes c) = cache_cap
     \<and> length (rc_ops c) = cache_cap \<and> length (rc_num_ops c) = cache_cap \<and> rc_count c \<le> cache_cap"

lemma and_seven_ucast: "unat (x AND 7) = unat (ucast x :: 3 word)" for x :: u32
proof -
  have "x AND 7 = take_bit 3 x"
    by (simp add: take_bit_eq_mask mask_numeral)
  then show ?thesis
    by (simp add: unsigned_ucast_eq unsigned_take_bit_eq)
qed

lemma ucast3_diff: "ucast (a - b) = (ucast a - ucast b :: 3 word)" for a b :: u32
proof (transfer, goal_cases)
  case (1 a b)
  have "take_bit 3 (take_bit 3 (take_bit 32 a) - take_bit 3 (take_bit 32 b)) = take_bit 3 (a - b)"
    by (simp add: take_bit_diff)
  then show ?case
    using take_bit_diff[of 3 "take_bit 32 a" "take_bit 32 b"] by simp
qed

lemma ucast3_add: "ucast (a + b) = (ucast a + ucast b :: 3 word)" for a b :: u32
  using ucast3_diff[of "a + b" b] by (simp add: eq_diff_eq)

lemma ucast3_of_nat: "ucast (word_of_nat i :: u32) = (word_of_nat i :: 3 word)"
  by (induction i) (simp_all add: ucast3_add)

lemma index_back_alt: "index_back h i = unat (ucast h - 1 - word_of_nat i :: 3 word)"
  by (simp add: index_back_def and_seven_ucast ucast3_diff ucast3_of_nat)

lemma cyclic_index_alt: "cyclic_index h = unat (ucast h :: 3 word)"
  by (simp add: cyclic_index_def and_seven_ucast)

lemma cyclic_bounds [simp]: "index_back h i < cache_cap" "cyclic_index h < cache_cap"
  using unsigned_less[where 'b = 3] by (simp_all add: index_back_alt cyclic_index_alt cache_cap_def)

lemma index_back_head [simp]:
  "index_back (h + 1) 0 = cyclic_index h"
  "index_back (h + 1) (Suc i) = index_back h i"
  by (simp_all add: index_back_alt cyclic_index_alt ucast3_add diff_diff_eq)

lemma index_back_fresh:
  assumes "i < 7"
  shows "index_back h i \<noteq> cyclic_index h"
proof
  assume "index_back h i = cyclic_index h"
  then have "(ucast h :: 3 word) - 1 - word_of_nat i = ucast h"
    by (simp add: index_back_alt cyclic_index_alt word_unat_eq_iff[symmetric])
  then have "word_of_nat i = (- 1 :: 3 word)"
    by (simp add: diff_diff_eq)
  then have "i mod 8 = unat (- 1 :: 3 word)"
    using unat_of_nat[where 'a = 3, of i] by simp
  then show False
    using assms by (simp add: unat_max_word)
qed


section \<open>Refinement\<close>

lemma list_ex_cache_list:
  "list_ex (\<lambda>i. rc_content_hashes c ! index_back (rc_head c) i = h) [0..<rc_count c]
   \<longleftrightarrow> h \<in> ce_hash ` set (cache_list c)"
  by (force simp: list_ex_iff cache_list_def slot_entry_def image_image)

lemma cache_insert_list:
  assumes "cache_wf c" "cache_insert heap (Some a) c = ok c'"
  shows "cache_wf c' \<and> cache_list c' =
    (if rg_content_hash (heap a) \<in> ce_hash ` set (cache_list c) then cache_list c
     else take cache_cap (region_entry heap a # cache_list c))"
proof (cases "rg_content_hash (heap a) \<in> ce_hash ` set (cache_list c)")
  case True
  then show ?thesis
    using assms by (simp add: cache_insert_def list_ex_cache_list Let_def)
next
  case False
  define n where "n = (if rc_count c < cache_cap then rc_count c + 1 else rc_count c)"
  have c': "rc_head c' = rc_head c + 1" "rc_count c' = n"
    "slot_entry c' j = (if j = cyclic_index (rc_head c) then region_entry heap a else slot_entry c j)"
    if "j < cache_cap" for j
    using assms False that
    by (auto simp: cache_insert_def list_ex_cache_list Let_def n_def slot_entry_def region_entry_def cache_wf_def)
  have wf: "cache_wf c'"
    using assms False by (auto simp: cache_insert_def list_ex_cache_list Let_def cache_wf_def cache_cap_def)
  have pos: "0 < n" "n \<le> cache_cap"
    using assms(1) by (auto simp: n_def cache_wf_def cache_cap_def)
  have "cache_list c' = take cache_cap (region_entry heap a # cache_list c)"
  proof (rule nth_equalityI)
    show "length (cache_list c') = length (take cache_cap (region_entry heap a # cache_list c))"
      using assms(1) c'(2)[of 0] by (auto simp: cache_list_def cache_cap_def n_def cache_wf_def)
  next
    fix i assume "i < length (cache_list c')"
    then have i: "i < n"
      using c'(2)[of 0] by (simp add: cache_list_def cache_cap_def)
    then have ith: "cache_list c' ! i = slot_entry c' (index_back (rc_head c + 1) i)"
      using c'(1,2)[of 0] by (simp add: cache_list_def cache_cap_def)
    show "cache_list c' ! i = take cache_cap (region_entry heap a # cache_list c) ! i"
    proof (cases i)
      case 0
      then show ?thesis
        using ith c'(3)[OF cyclic_bounds(2)[of "rc_head c"]] 0 by (simp add: cache_cap_def)
    next
      case (Suc j)
      then have "j < rc_count c" "j < 7"
        using i pos by (auto simp: n_def cache_cap_def split: if_splits)
      then show ?thesis
        using ith c'(3)[OF cyclic_bounds(1)[of "rc_head c" j]] Suc i pos index_back_fresh[of j "rc_head c"] by (simp add: cache_list_def)
    qed
  qed
  then show ?thesis
    using wf False by simp
qed


lemma cache_insert_total: "\<exists>c'. cache_insert heap (Some a) c = ok c'"
  by (cases "list_ex (\<lambda>i. rc_content_hashes c ! index_back (rc_head c) i = rg_content_hash (heap a)) [0..<rc_count c]")
    (simp_all add: cache_insert_def Let_def)

lemma eligible_slot:
  "eligible heap pos schema shape exclude (slot_entry c idx) \<longleftrightarrow>
    (case rc_regions c ! idx of None \<Rightarrow> False | Some a \<Rightarrow>
       exclude \<noteq> Some a \<and> rg_plan (heap a) \<noteq> None \<and> pos < rc_num_ops c ! idx
       \<and> te_schema_hash (rc_ops c ! idx ! pos) = schema \<and> te_shape_hash (rc_ops c ! idx ! pos) = shape)"
  by (simp add: eligible_def slot_entry_def split: option.split)

lemma alternate_loop_find:
  "alternate_loop heap pos schema shape exclude c is =
    Option.bind (List.find (eligible heap pos schema shape exclude) (map (\<lambda>i. slot_entry c (index_back (rc_head c) i)) is))
      ce_region"
proof (induction "is")
  case (Cons i "is")
  have "ce_region (slot_entry c idx) = rc_regions c ! idx" for idx
    by (simp add: slot_entry_def)
  then show ?case
    using Cons by (cases "rc_regions c ! index_back (rc_head c) i") (auto simp: Let_def eligible_slot)
qed simp

lemma find_loop_find:
  "find_loop hash c is =
    Option.bind (List.find (\<lambda>ce. ce_hash ce = hash) (map (\<lambda>i. slot_entry c (index_back (rc_head c) i)) is)) ce_region"
  by (induction "is") (auto simp: Let_def slot_entry_def)

lemma find_SomeD: "List.find P xs = Some x \<Longrightarrow> x \<in> set xs \<and> P x"
  by (induction xs) (auto split: if_splits)

lemma cache_queries:
  "find_alternate heap pos schema shape exclude c =
     Option.bind (List.find (eligible heap pos schema shape exclude) (cache_list c)) ce_region"
  "cache_find hash c = Option.bind (List.find (\<lambda>ce. ce_hash ce = hash) (cache_list c)) ce_region"
  "region_at age c = (if age < length (cache_list c) then ce_region (cache_list c ! age) else None)"
  by (simp_all add: find_alternate_def alternate_loop_find cache_find_def find_loop_find cache_list_def
      region_at_def slot_entry_def)

text \<open>C13.  The four slot arrays and the wrapping 32-bit counter implement a bounded list, newest entry
  first: an insertion keeps the list when the content hash is cached and otherwise pushes the region
  in front and drops the ninth entry; the two lookups return the first match in that order and
  \<^verbatim>\<open>region_at\<close> its entry by age.\<close>

theorem region_cache_refines_list:
  assumes "cache_wf c"
  shows "\<exists>c'. cache_insert heap (Some a) c = ok c' \<and> cache_wf c'
     \<and> cache_list c' = (if rg_content_hash (heap a) \<in> ce_hash ` set (cache_list c) then cache_list c
                        else take cache_cap (region_entry heap a # cache_list c))
     \<and> find_alternate heap pos schema shape exclude c =
         Option.bind (List.find (eligible heap pos schema shape exclude) (cache_list c)) ce_region
     \<and> cache_find hash c = Option.bind (List.find (\<lambda>ce. ce_hash ce = hash) (cache_list c)) ce_region
     \<and> region_at age c = (if age < length (cache_list c) then ce_region (cache_list c ! age) else None)"
proof -
  obtain c' where "cache_insert heap (Some a) c = ok c'"
    using cache_insert_total by blast
  then show ?thesis
    using cache_insert_list[OF assms] cache_queries by blast
qed

lemma empty_cache_wf [simp]: "cache_wf empty_cache" "cache_list empty_cache = []"
  by (simp_all add: cache_wf_def empty_cache_def cache_list_def)

theorem region_cache_refines_list_witness:
  "cache_wf empty_cache \<and> (\<exists>c'. cache_insert (\<lambda>a. fresh_region\<lparr>rg_content_hash := 5\<rparr>) (Some 3) empty_cache = ok c'
     \<and> cache_list c' = [region_entry (\<lambda>a. fresh_region\<lparr>rg_content_hash := 5\<rparr>) 3])"
  using region_cache_refines_list[of empty_cache "\<lambda>a. fresh_region\<lparr>rg_content_hash := 5\<rparr>" 3 0 0 0 None 0 0]
  by (auto simp: cache_cap_def)


section \<open>Reachable caches\<close>

inductive cache_reach :: "region_heap \<Rightarrow> region_cache \<Rightarrow> bool" for heap :: region_heap where
  reach_empty: "cache_reach heap empty_cache"
| reach_insert: "\<lbrakk>cache_reach heap c; cache_insert heap (Some a) c = ok c'\<rbrakk> \<Longrightarrow> cache_reach heap c'"

lemma distinct_take_Cons: "distinct (map f xs) \<Longrightarrow> f x \<notin> f ` set xs \<Longrightarrow> distinct (map f (take n (x # xs)))"
  by (metis distinct.simps(2) distinct_take list.simps(9) set_map take_map)

lemma cache_reach_inv:
  "cache_reach heap c \<Longrightarrow> cache_wf c \<and> distinct (map ce_hash (cache_list c))
     \<and> (\<forall>ce \<in> set (cache_list c). \<exists>a. ce = region_entry heap a)"
proof (induction rule: cache_reach.induct)
  case (reach_insert c a c')
  have hash: "ce_hash (region_entry heap a) = rg_content_hash (heap a)"
    by (simp add: region_entry_def)
  have sub: "set (take cache_cap (region_entry heap a # cache_list c)) \<subseteq> insert (region_entry heap a) (set (cache_list c))"
    using set_take_subset by fastforce
  show ?case
    using cache_insert_list[OF _ reach_insert.hyps(2)] reach_insert.IH sub
      distinct_take_Cons[of ce_hash "cache_list c" "region_entry heap a" cache_cap] hash by auto
qed simp

lemma find_alternate_sound:
  assumes "cache_reach heap c" "find_alternate heap pos schema shape exclude c = Some b"
  shows "exclude \<noteq> Some b" "rg_plan (heap b) \<noteq> None" "pos < length (rg_ops (heap b))"
    "te_schema_hash (rg_ops (heap b) ! pos) = schema" "te_shape_hash (rg_ops (heap b) ! pos) = shape"
    "\<exists>ce\<in>set (cache_list c). ce_region ce = Some b"
proof -
  obtain ce where ce: "ce \<in> set (cache_list c)" "eligible heap pos schema shape exclude ce" "ce_region ce = Some b"
    using assms(2) by (auto simp: cache_queries bind_eq_Some_conv dest: find_SomeD)
  then show "exclude \<noteq> Some b" "rg_plan (heap b) \<noteq> None" "pos < length (rg_ops (heap b))"
    "te_schema_hash (rg_ops (heap b) ! pos) = schema" "te_shape_hash (rg_ops (heap b) ! pos) = shape"
    "\<exists>ce\<in>set (cache_list c). ce_region ce = Some b"
    using cache_reach_inv [OF assms(1)] by (auto simp: eligible_def region_entry_def)
qed

text \<open>In every cache reached by insertions, cached content hashes are pairwise distinct, looking
  up the hash of the region inserted last finds a region with that hash, and whatever
  \<^verbatim>\<open>find_alternate\<close> returns is a region other than the excluded one, with a plan, whose operation at
  the queried position has the queried hashes.\<close>

theorem region_cache_lookup:
  assumes "cache_reach heap c" "cache_insert heap (Some a) c = ok c'"
  shows "distinct (map ce_hash (cache_list c'))
     \<and> (\<exists>b. cache_find (rg_content_hash (heap a)) c' = Some b \<and> rg_content_hash (heap b) = rg_content_hash (heap a))
     \<and> (\<forall>b. find_alternate heap pos schema shape exclude c' = Some b \<longrightarrow>
          exclude \<noteq> Some b \<and> rg_plan (heap b) \<noteq> None \<and> pos < length (rg_ops (heap b))
          \<and> te_schema_hash (rg_ops (heap b) ! pos) = schema \<and> te_shape_hash (rg_ops (heap b) ! pos) = shape)"
proof (intro conjI allI impI)
  let ?h = "rg_content_hash (heap a)"
  have inv: "cache_wf c" "cache_wf c'" "distinct (map ce_hash (cache_list c'))"
    "\<forall>ce \<in> set (cache_list c'). \<exists>a. ce = region_entry heap a"
    using cache_reach_inv[OF assms(1)] cache_reach_inv[OF reach_insert[OF assms]] by auto
  then show "distinct (map ce_hash (cache_list c'))"
    by blast
  have "?h \<in> ce_hash ` set (cache_list c')"
    using cache_insert_list[OF inv(1) assms(2)] by (auto simp: cache_cap_def region_entry_def split: if_splits)
  then obtain ce where ce: "List.find (\<lambda>ce. ce_hash ce = ?h) (cache_list c') = Some ce"
    by (cases "List.find (\<lambda>ce. ce_hash ce = ?h) (cache_list c')") (auto simp: find_None_iff)
  then have "ce \<in> set (cache_list c')" "ce_hash ce = ?h"
    by (auto dest: find_SomeD)
  then show "\<exists>b. cache_find ?h c' = Some b \<and> rg_content_hash (heap b) = ?h"
    using ce inv(4) by (force simp: cache_queries region_entry_def)
  fix b assume "find_alternate heap pos schema shape exclude c' = Some b"
  note find_alternate_sound [OF reach_insert [OF assms] this]
  then show "exclude \<noteq> Some b" "rg_plan (heap b) \<noteq> None" "pos < length (rg_ops (heap b))"
    "te_schema_hash (rg_ops (heap b) ! pos) = schema" "te_shape_hash (rg_ops (heap b) ! pos) = shape"
    by blast+
qed

theorem region_cache_lookup_witness:
  "\<exists>c'. cache_reach (\<lambda>a. fresh_region\<lparr>rg_content_hash := word_of_nat a\<rparr>) empty_cache
     \<and> cache_insert (\<lambda>a. fresh_region\<lparr>rg_content_hash := word_of_nat a\<rparr>) (Some 3) empty_cache = ok c'
     \<and> (\<exists>b. cache_find 3 c' = Some b)"
proof -
  let ?heap = "\<lambda>a. fresh_region\<lparr>rg_content_hash := word_of_nat a\<rparr>"
  obtain c' where c': "cache_insert ?heap (Some 3) empty_cache = ok c'"
    using cache_insert_total by blast
  from region_cache_lookup[OF reach_empty c', of 0 0 0 None] c' show ?thesis
    using reach_empty[of ?heap] by auto
qed

end
