(* ===== verification/Spsc_Queue.thy ===== *)
theory Spsc_Queue
  imports Crucible_Prelude
begin

text \<open>
  The contract the two recording channels share: the operation ring (\<^verbatim>\<open>crucible/TraceRing.h\<close>) and the
  metadata log (\<^verbatim>\<open>crucible/MetaLog.h\<close>) are bounded queues of one producer and one consumer over a
  circular array addressed by free-running counters.  The locale states the contract, its client
  lemma that a run of operations is first-in first-out, and the window lemmas are what both
  implementations use to show it.
\<close>

section \<open>Windows of a circular array\<close>

definition window :: "nat \<Rightarrow> (nat \<Rightarrow> 'a) \<Rightarrow> nat \<Rightarrow> nat \<Rightarrow> 'a list" where
  "window cap arr t h = map (\<lambda>i. arr (i mod cap)) [t..<h]"

definition copy_chunks :: "(nat \<Rightarrow> 'a) \<Rightarrow> nat \<Rightarrow> nat \<Rightarrow> nat \<Rightarrow> 'a list" where
  "copy_chunks arr start k1 k2 = map arr [start..<start + k1] @ map arr [0..<k2]"

definition write_run :: "(nat \<Rightarrow> 'a) \<Rightarrow> nat \<Rightarrow> 'a list \<Rightarrow> nat \<Rightarrow> 'a" where
  "write_run arr pos xs i = (if pos \<le> i \<and> i < pos + length xs then xs ! (i - pos) else arr i)"

lemma length_window [simp]: "length (window cap arr t h) = h - t"
  by (simp add: window_def)

lemma window_split: "t \<le> m \<Longrightarrow> m \<le> h \<Longrightarrow> window cap arr t h = window cap arr t m @ window cap arr m h"
  using upt_add_eq_append[of t m "h - m"] by (simp add: window_def)

lemma window_nth [simp]: "i < h - t \<Longrightarrow> window cap arr t h ! i = arr ((t + i) mod cap)"
  by (simp add: window_def)

lemma mod_eq_close:
  assumes "(i :: nat) mod cap = j mod cap" "i \<le> j" "j < i + cap"
  shows "i = j"
proof -
  have "cap dvd j - i"
    using assms(1,2) by (metis mod_eq_dvd_iff_nat)
  moreover have "j - i < cap"
    using assms(2,3) by linarith
  ultimately show ?thesis
    using assms(2) dvd_imp_le[of cap "j - i"] by (cases "j - i = 0") auto
qed

lemma window_untouched:
  assumes "t \<le> h" "h < t + cap"
  shows "window cap (arr(h mod cap := x)) t h = window cap arr t h"
proof -
  have "i mod cap \<noteq> h mod cap" if "t \<le> i" "i < h" for i
    using mod_eq_close[of i cap h] that assms by auto
  then show ?thesis
    by (simp add: window_def)
qed

lemma window_Suc: "t \<le> h \<Longrightarrow> window cap arr t (Suc h) = window cap arr t h @ [arr (h mod cap)]"
  by (simp add: window_def)

lemma window_push:
  assumes "t \<le> h" "h < t + cap"
  shows "window cap (arr(h mod cap := x)) t (Suc h) = window cap arr t h @ [x]"
  using assms by (simp add: window_Suc window_untouched)

lemma copy_chunks_window:
  assumes "0 < cap" "n \<le> cap" "k1 = min n (cap - t mod cap)"
  shows "copy_chunks arr (t mod cap) k1 (n - k1) = window cap arr t (t + n)"
proof (rule nth_equalityI)
  show "length (copy_chunks arr (t mod cap) k1 (n - k1)) = length (window cap arr t (t + n))"
    using assms by (simp add: copy_chunks_def)
  fix i assume "i < length (copy_chunks arr (t mod cap) k1 (n - k1))"
  then have i: "i < n"
    using assms by (simp add: copy_chunks_def)
  have tm: "t mod cap < cap"
    using assms(1) by simp
  have "(t + i) mod cap = (if i < k1 then t mod cap + i else i - k1)"
  proof -
    have *: "(t + i) mod cap = (t mod cap + i) mod cap"
      by (simp add: mod_add_left_eq)
    show ?thesis
    proof (cases "i < k1")
      case True
      then have "t mod cap + i < cap"
        using assms(3) tm by linarith
      then show ?thesis
        using * True by simp
    next
      case False
      then have k1: "k1 = cap - t mod cap"
        using assms(3) i by simp
      then have "t mod cap + i = (i - k1) + cap" "i - k1 < cap"
        using False tm i assms(2) by linarith+
      then have "(t mod cap + i) mod cap = i - k1"
        by (metis mod_add_self2 mod_less)
      then show ?thesis
        using * False by simp
    qed
  qed
  then show "copy_chunks arr (t mod cap) k1 (n - k1) ! i = window cap arr t (t + n) ! i"
    using i assms by (simp add: copy_chunks_def nth_append)
qed

lemma write_run_mod:
  assumes "h \<le> i" "i < h + length xs" "h mod cap + length xs \<le> cap"
  shows "write_run arr (h mod cap) xs (i mod cap) = xs ! (i - h)"
proof -
  obtain d where d: "i = h + d" "d < length xs"
    using assms(1,2) by (metis le_Suc_ex nat_add_left_cancel_less)
  then have "i mod cap = h mod cap + d"
    using assms(3) by (metis add_less_le_mono le_refl mod_add_left_eq mod_less nat_add_left_cancel_less order_less_le_trans)
  then show ?thesis
    using d by (simp add: write_run_def)
qed


section \<open>The queue contract\<close>

datatype 'i queue_op = Push 'i | Pop nat

fun run_queue ::
  "('i \<Rightarrow> 's \<Rightarrow> (bool \<times> 's) checked) \<Rightarrow> (nat \<Rightarrow> 's \<Rightarrow> ('a list \<times> 's) checked) \<Rightarrow> 'i queue_op list \<Rightarrow> 's
   \<Rightarrow> ('i list \<times> 'a list \<times> 's) checked" where
  "run_queue push pop [] s = ok ([], [], s)"
| "run_queue push pop (Push x # qs) s =
    (case push x s of
       Inl e \<Rightarrow> fail e
     | Inr (b, s1) \<Rightarrow>
         (case run_queue push pop qs s1 of
            Inl e \<Rightarrow> fail e
          | Inr (ins, outs, s2) \<Rightarrow> ok ((if b then [x] else []) @ ins, outs, s2)))"
| "run_queue push pop (Pop n # qs) s =
    (case pop n s of
       Inl e \<Rightarrow> fail e
     | Inr (ys, s1) \<Rightarrow>
         (case run_queue push pop qs s1 of
            Inl e \<Rightarrow> fail e
          | Inr (ins, outs, s2) \<Rightarrow> ok (ins, ys @ outs, s2)))"

locale spsc_queue =
  fixes inv :: "'s \<Rightarrow> bool"
    and contents :: "'s \<Rightarrow> 'a list"
    and items :: "'i \<Rightarrow> 'a list"
    and push :: "'i \<Rightarrow> 's \<Rightarrow> (bool \<times> 's) checked"
    and pop :: "nat \<Rightarrow> 's \<Rightarrow> ('a list \<times> 's) checked"
  assumes push_law: "\<lbrakk>inv s; push x s = ok (b, s')\<rbrakk>
      \<Longrightarrow> inv s' \<and> contents s' = contents s @ (if b then items x else [])"
    and pop_law: "\<lbrakk>inv s; pop n s = ok (ys, s')\<rbrakk>
      \<Longrightarrow> inv s' \<and> contents s = ys @ contents s' \<and> length ys \<le> n"
begin

lemma fifo:
  assumes "inv s" "run_queue push pop qs s = ok (ins, outs, s')"
  shows "inv s' \<and> contents s @ concat (map items ins) = outs @ contents s'"
  using assms
proof (induction qs arbitrary: s ins outs)
  case (Cons q qs)
  show ?case
  proof (cases q)
    case (Push x)
    then obtain b s1 ins1 where *: "push x s = ok (b, s1)" "run_queue push pop qs s1 = ok (ins1, outs, s')"
        "ins = (if b then [x] else []) @ ins1"
      using Cons.prems(2) by (auto split: sum.splits prod.splits)
    show ?thesis
      using push_law[OF Cons.prems(1) *(1)] Cons.IH[OF _ *(2)] *(3) by auto
  next
    case (Pop n)
    then obtain ys s1 outs1 where *: "pop n s = ok (ys, s1)" "run_queue push pop qs s1 = ok (ins, outs1, s')"
        "outs = ys @ outs1"
      using Cons.prems(2) by (auto split: sum.splits prod.splits)
    show ?thesis
      using pop_law[OF Cons.prems(1) *(1)] Cons.IH[OF _ *(2)] *(3) by auto
  qed
qed simp

lemma drained_is_fifo:
  assumes "inv s" "contents s = []" "run_queue push pop qs s = ok (ins, outs, s')" "contents s' = []"
  shows "outs = concat (map items ins)"
  using fifo[OF assms(1,3)] assms(2,4) by simp

end

end
