(* ===== verification/Trace_Ring.thy ===== *)
theory Trace_Ring
  imports Spsc_Queue Tensor_Meta
begin

text \<open>
  The operation ring of \<^verbatim>\<open>crucible/TraceRing.h\<close>: a single-producer single-consumer ring of 65536 slots
  in four parallel arrays, with 64-bit counters.  An array is a function from slot indices.  The
  sequential operations come first; then the same operations as interleaved steps of the two
  threads, one shared access per step.  The memory model is that of the release stores and acquire
  loads of the counters: a thread that reads a counter sees every slot write made before it was
  published.
\<close>

section \<open>Entries\<close>

datatype scalar_type2 = S2_INT | S2_FLOAT | S2_BOOL | S2_ENUM

fun scalar_type2_bits :: "scalar_type2 \<Rightarrow> u8" where
  "scalar_type2_bits S2_INT = 0"
| "scalar_type2_bits S2_FLOAT = 1"
| "scalar_type2_bits S2_BOOL = 2"
| "scalar_type2_bits S2_ENUM = 3"

definition scalar_type2_of :: "u8 \<Rightarrow> scalar_type2" where
  "scalar_type2_of b = (if b = 0 then S2_INT else if b = 1 then S2_FLOAT else if b = 2 then S2_BOOL else S2_ENUM)"

record ring_entry =
  en_schema_hash :: u64
  en_shape_hash :: u64
  en_num_inputs :: u16
  en_num_outputs :: u16
  en_num_scalar_args :: u16
  en_scalar_types :: u8
  en_op_flags :: u8
  en_scalar_values :: "int list"

definition scalar4_type_mask :: u8 where
  "scalar4_type_mask = push_bit 6 3"

definition get_scalar_type :: "nat \<Rightarrow> ring_entry \<Rightarrow> scalar_type2 checked" where
  "get_scalar_type i e =
    (if \<not> i \<le> 4 then fail Contract_violation
     else if i < 4 then ok (scalar_type2_of (drop_bit (i * 2) (en_scalar_types e) AND 3))
     else ok (scalar_type2_of (drop_bit 6 (en_op_flags e AND scalar4_type_mask))))"

definition set_scalar_type :: "nat \<Rightarrow> scalar_type2 \<Rightarrow> ring_entry \<Rightarrow> ring_entry checked" where
  "set_scalar_type i t e =
    (if \<not> i \<le> 4 then fail Contract_violation
     else let bits = scalar_type2_bits t AND 3 in
       if i < 4 then ok (e\<lparr>en_scalar_types :=
         (en_scalar_types e AND NOT (push_bit (i * 2) 3)) OR push_bit (i * 2) bits\<rparr>)
       else ok (e\<lparr>en_op_flags := (en_op_flags e AND NOT scalar4_type_mask) OR push_bit 6 bits\<rparr>))"


section \<open>The ring\<close>

definition ring_capacity :: nat where
  "ring_capacity = 65536"

record ring_slot =
  rs_entry :: ring_entry
  rs_meta_start :: u64
  rs_scope_hash :: u64
  rs_callsite_hash :: u64

record trace_ring =
  tr_head :: u64
  tr_tail :: u64
  tr_consumer_tail :: u64
  tr_cached_tail :: u64
  tr_entries :: "nat \<Rightarrow> ring_entry"
  tr_meta_starts :: "nat \<Rightarrow> u64"
  tr_scope_hashes :: "nat \<Rightarrow> u64"
  tr_callsite_hashes :: "nat \<Rightarrow> u64"

definition advance_monotonic :: "u64 \<Rightarrow> u64 \<Rightarrow> u64 checked" where
  "advance_monotonic current new_value = (if current \<le> new_value then ok new_value else fail Contract_violation)"

definition advance_sole_writer_from :: "u64 \<Rightarrow> u64 \<Rightarrow> u64 checked" where
  "advance_sole_writer_from current new_value = (if current < new_value then ok new_value else fail Contract_violation)"

definition slot_of :: "u64 \<Rightarrow> nat" where
  "slot_of counter = unat ((ucast counter :: u32) AND 65535)"

definition store_slot :: "nat \<Rightarrow> ring_slot \<Rightarrow> trace_ring \<Rightarrow> trace_ring" where
  "store_slot i s r = r\<lparr>
     tr_entries := (tr_entries r)(i := rs_entry s),
     tr_meta_starts := (tr_meta_starts r)(i := rs_meta_start s),
     tr_scope_hashes := (tr_scope_hashes r)(i := rs_scope_hash s),
     tr_callsite_hashes := (tr_callsite_hashes r)(i := rs_callsite_hash s)\<rparr>"

definition append_publish :: "ring_slot \<Rightarrow> trace_ring \<Rightarrow> (bool \<times> trace_ring) checked" where
  "append_publish s r =
    (let h = tr_head r; r1 = store_slot (slot_of h) s r in
     case advance_sole_writer_from h (h + 1) of
       Inl e \<Rightarrow> fail e
     | Inr h' \<Rightarrow> ok (True, r1\<lparr>tr_head := h'\<rparr>))"

definition ring_full :: "u64 \<Rightarrow> u64 \<Rightarrow> bool" where
  "ring_full h t \<longleftrightarrow> h - t \<ge> 65536"

definition try_append :: "ring_slot \<Rightarrow> trace_ring \<Rightarrow> (bool \<times> trace_ring) checked" where
  "try_append s r =
    (let h = tr_head r in
     if ring_full h (tr_cached_tail r) then
       (case advance_monotonic (tr_cached_tail r) (tr_tail r) of
          Inl e \<Rightarrow> fail e
        | Inr ct \<Rightarrow>
            let r1 = r\<lparr>tr_cached_tail := ct\<rparr> in
            if ring_full h ct then ok (False, r1) else append_publish s r1)
     else append_publish s r)"

definition ring_available :: "trace_ring \<Rightarrow> u32" where
  "ring_available r = ucast (tr_head r - tr_consumer_tail r)"

record drain_plan =
  dp_count :: nat
  dp_start :: nat
  dp_first :: nat
  dp_second :: nat

definition plan_drain :: "u64 \<Rightarrow> u32 \<Rightarrow> u32 \<Rightarrow> drain_plan" where
  "plan_drain t avail max_count =
    (let count = unat (if max_count < avail then max_count else avail);
         start = slot_of t;
         k1 = (if count < ring_capacity - start then count else ring_capacity - start)
     in \<lparr>dp_count = count, dp_start = start, dp_first = k1, dp_second = count - k1\<rparr>)"

record drained =
  dr_count :: nat
  dr_entries :: "ring_entry list"
  dr_meta_starts :: "u64 list option"
  dr_scope_hashes :: "u64 list option"
  dr_callsite_hashes :: "u64 list option"

definition drained_none :: "bool \<Rightarrow> bool \<Rightarrow> bool \<Rightarrow> drained" where
  "drained_none want_meta want_scope want_callsite = \<lparr>dr_count = 0, dr_entries = [],
     dr_meta_starts = (if want_meta then Some [] else None),
     dr_scope_hashes = (if want_scope then Some [] else None),
     dr_callsite_hashes = (if want_callsite then Some [] else None)\<rparr>"

definition drain ::
  "bool \<Rightarrow> u32 \<Rightarrow> bool \<Rightarrow> bool \<Rightarrow> bool \<Rightarrow> trace_ring \<Rightarrow> (drained \<times> trace_ring) checked" where
  "drain out_valid max_count want_meta want_scope want_callsite r =
    (if \<not> max_count \<le> 65536 then fail Contract_violation
     else if \<not> (max_count = 0 \<or> out_valid) then fail Contract_violation
     else if max_count = 0 then ok (drained_none want_meta want_scope want_callsite, r)
     else let t = tr_consumer_tail r; p = plan_drain t (ring_available r) max_count in
       if dp_count p = 0 then ok (drained_none want_meta want_scope want_callsite, r)
       else let next_tail = t + word_of_nat (dp_count p) in
         case advance_sole_writer_from t next_tail of
           Inl e \<Rightarrow> fail e
         | Inr t' \<Rightarrow>
             ok (\<lparr>dr_count = dp_count p,
                   dr_entries = copy_chunks (tr_entries r) (dp_start p) (dp_first p) (dp_second p),
                   dr_meta_starts =
                     (if want_meta then Some (copy_chunks (tr_meta_starts r) (dp_start p) (dp_first p) (dp_second p)) else None),
                   dr_scope_hashes =
                     (if want_scope then Some (copy_chunks (tr_scope_hashes r) (dp_start p) (dp_first p) (dp_second p)) else None),
                   dr_callsite_hashes =
                     (if want_callsite then Some (copy_chunks (tr_callsite_hashes r) (dp_start p) (dp_first p) (dp_second p)) else None)\<rparr>,
                 r\<lparr>tr_consumer_tail := next_tail, tr_tail := t'\<rparr>))"

definition zip_slots :: "ring_entry list \<Rightarrow> u64 list \<Rightarrow> u64 list \<Rightarrow> u64 list \<Rightarrow> ring_slot list" where
  "zip_slots es ms ss cs = map (\<lambda>i. \<lparr>rs_entry = es ! i, rs_meta_start = ms ! i, rs_scope_hash = ss ! i,
     rs_callsite_hash = cs ! i\<rparr>) [0..<length es]"

definition try_pop_batch :: "bool \<Rightarrow> u32 \<Rightarrow> trace_ring \<Rightarrow> (ring_slot list \<times> trace_ring) checked" where
  "try_pop_batch outs_valid max_count r =
    (if \<not> max_count \<le> 65536 then fail Contract_violation
     else if \<not> (max_count = 0 \<or> outs_valid) then fail Contract_violation
     else if max_count = 0 then ok ([], r)
     else let t = tr_consumer_tail r; p = plan_drain t (ring_available r) max_count in
       if dp_count p = 0 then ok ([], r)
       else let next_tail = t + word_of_nat (dp_count p) in
         case advance_sole_writer_from t next_tail of
           Inl e \<Rightarrow> fail e
         | Inr t' \<Rightarrow>
             ok (zip_slots (copy_chunks (tr_entries r) (dp_start p) (dp_first p) (dp_second p))
                   (copy_chunks (tr_meta_starts r) (dp_start p) (dp_first p) (dp_second p))
                   (copy_chunks (tr_scope_hashes r) (dp_start p) (dp_first p) (dp_second p))
                   (copy_chunks (tr_callsite_hashes r) (dp_start p) (dp_first p) (dp_second p)),
                 r\<lparr>tr_consumer_tail := next_tail, tr_tail := t'\<rparr>))"

definition ring_size :: "u64 \<Rightarrow> u64 \<Rightarrow> u32" where
  "ring_size head_seen tail_seen = ucast (head_seen - tail_seen)"

definition total_produced :: "trace_ring \<Rightarrow> u64" where
  "total_produced r = tr_head r"

definition ring_reset :: "trace_ring \<Rightarrow> trace_ring" where
  "ring_reset r = r\<lparr>tr_head := 0, tr_tail := 0, tr_consumer_tail := 0, tr_cached_tail := 0\<rparr>"


section \<open>Abstraction\<close>

definition ring_slot_at :: "trace_ring \<Rightarrow> nat \<Rightarrow> ring_slot" where
  "ring_slot_at r i = \<lparr>rs_entry = tr_entries r i, rs_meta_start = tr_meta_starts r i,
     rs_scope_hash = tr_scope_hashes r i, rs_callsite_hash = tr_callsite_hashes r i\<rparr>"

definition ring_contents :: "trace_ring \<Rightarrow> ring_slot list" where
  "ring_contents r = window ring_capacity (ring_slot_at r) (unat (tr_tail r)) (unat (tr_head r))"

definition ring_inv :: "trace_ring \<Rightarrow> bool" where
  "ring_inv r \<longleftrightarrow> tr_consumer_tail r = tr_tail r \<and> tr_cached_tail r \<le> tr_tail r \<and> tr_tail r \<le> tr_head r
     \<and> unat (tr_head r) \<le> unat (tr_tail r) + ring_capacity"

lemma slot_of_mod: "slot_of c = unat c mod ring_capacity"
proof -
  have "(ucast c :: u32) AND 65535 = take_bit 16 (ucast c)"
    by (simp add: take_bit_eq_mask mask_numeral)
  then have "slot_of c = take_bit 16 (unat c)"
    by (simp add: slot_of_def unsigned_take_bit_eq unsigned_ucast_eq)
  then show ?thesis
    by (simp add: take_bit_nat_def ring_capacity_def)
qed

lemma unat_diff_le: "t \<le> h \<Longrightarrow> unat (h - t) = unat h - unat t" for h t :: u64
  by (simp add: unat_sub_exact word_le_nat_alt)

lemma ring_full_iff: "t \<le> h \<Longrightarrow> ring_full h t \<longleftrightarrow> unat t + ring_capacity \<le> unat h"
  by (auto simp: ring_full_def word_le_nat_alt unat_diff_le[unfolded word_le_nat_alt] ring_capacity_def)

lemma succ_publish:
  "advance_sole_writer_from h (h + 1) = (if unat h + 1 < 2 ^ 64 then ok (h + 1) else fail Contract_violation)"
proof (cases "unat h + 1 < 2 ^ 64")
  case True
  then show ?thesis
    by (simp add: advance_sole_writer_from_def word_less_nat_alt unat_add_exact)
next
  case False
  then have "h = - 1"
    using unat_lt_pow[of h] by (simp add: word_unat_eq_iff unat_max_word)
  then show ?thesis
    by (simp add: advance_sole_writer_from_def unat_max_word)
qed

lemma slot_at_store: "ring_slot_at (store_slot i s r) = (ring_slot_at r)(i := s)"
  by (auto simp: ring_slot_at_def store_slot_def)

lemma store_slot_counters [simp]:
  "tr_head (store_slot i s r) = tr_head r" "tr_tail (store_slot i s r) = tr_tail r"
  "tr_consumer_tail (store_slot i s r) = tr_consumer_tail r" "tr_cached_tail (store_slot i s r) = tr_cached_tail r"
  by (simp_all add: store_slot_def)

lemma ring_slot_at_counters [simp]:
  "ring_slot_at (r\<lparr>tr_head := a\<rparr>) = ring_slot_at r" "ring_slot_at (r\<lparr>tr_tail := a\<rparr>) = ring_slot_at r"
  "ring_slot_at (r\<lparr>tr_consumer_tail := a\<rparr>) = ring_slot_at r" "ring_slot_at (r\<lparr>tr_cached_tail := a\<rparr>) = ring_slot_at r"
  by (auto simp: ring_slot_at_def)

lemma append_publish_spec:
  assumes "ring_inv r" "unat (tr_head r) < unat (tr_tail r) + ring_capacity"
  shows "if unat (tr_head r) + 1 < 2 ^ 64
     then \<exists>r'. append_publish s r = ok (True, r') \<and> ring_inv r' \<and> ring_contents r' = ring_contents r @ [s]
     else append_publish s r = fail Contract_violation"
proof (cases "unat (tr_head r) + 1 < 2 ^ 64")
  case True
  then have h: "unat (tr_head r + 1) = Suc (unat (tr_head r))"
    by (simp add: unat_add_exact)
  have "window ring_capacity ((ring_slot_at r)(slot_of (tr_head r) := s)) (unat (tr_tail r)) (Suc (unat (tr_head r)))
      = ring_contents r @ [s]"
    using assms by (simp add: slot_of_mod ring_contents_def window_push ring_inv_def word_le_nat_alt)
  then show ?thesis
    using True assms h
    by (auto simp: append_publish_def succ_publish Let_def ring_inv_def ring_contents_def slot_at_store
        word_le_nat_alt)
qed (simp add: append_publish_def succ_publish Let_def)

lemma try_append_spec:
  assumes "ring_inv r"
  shows "if unat (tr_head r) < unat (tr_tail r) + ring_capacity
     then if unat (tr_head r) + 1 < 2 ^ 64
       then \<exists>r'. try_append s r = ok (True, r') \<and> ring_inv r' \<and> ring_contents r' = ring_contents r @ [s]
       else try_append s r = fail Contract_violation
     else \<exists>r'. try_append s r = ok (False, r') \<and> ring_inv r' \<and> ring_contents r' = ring_contents r"
proof (cases "ring_full (tr_head r) (tr_cached_tail r)")
  case False
  moreover have "unat (tr_head r) < unat (tr_tail r) + ring_capacity"
    using False assms ring_full_iff[of "tr_cached_tail r" "tr_head r"]
    by (auto simp: ring_inv_def word_le_nat_alt)
  ultimately show ?thesis
    using append_publish_spec[OF assms] by (simp add: try_append_def Let_def)
next
  case True
  define r1 where "r1 = r\<lparr>tr_cached_tail := tr_tail r\<rparr>"
  have r1: "ring_inv r1" "ring_contents r1 = ring_contents r" "tr_head r1 = tr_head r" "tr_tail r1 = tr_tail r"
    using assms by (auto simp: r1_def ring_inv_def ring_contents_def)
  have eq: "try_append s r = (if ring_full (tr_head r) (tr_tail r) then ok (False, r1) else append_publish s r1)"
    using True assms by (simp add: try_append_def Let_def advance_monotonic_def ring_inv_def r1_def)
  have "ring_full (tr_head r) (tr_tail r) \<longleftrightarrow> \<not> unat (tr_head r) < unat (tr_tail r) + ring_capacity"
    using assms ring_full_iff[of "tr_tail r" "tr_head r"] by (auto simp: ring_inv_def)
  then show ?thesis
    using eq r1 append_publish_spec[of r1 s] by auto
qed

lemma plan_drain_spec:
  assumes "ring_inv r" "p = plan_drain (tr_consumer_tail r) (ring_available r) m"
  shows "dp_count p = min (unat m) (length (ring_contents r))"
    and "copy_chunks arr (dp_start p) (dp_first p) (dp_second p)
       = window ring_capacity arr (unat (tr_tail r)) (unat (tr_tail r) + dp_count p)"
proof -
  have n: "unat (tr_head r - tr_tail r) = length (ring_contents r)" "length (ring_contents r) \<le> ring_capacity"
    using assms(1) by (auto simp: ring_inv_def ring_contents_def unat_diff_le)
  then have "unat (ring_available r) = length (ring_contents r)"
    using assms(1) by (simp add: ring_available_def ring_inv_def unsigned_ucast_eq take_bit_nat_eq_self ring_capacity_def)
  then show count: "dp_count p = min (unat m) (length (ring_contents r))"
    by (auto simp: assms(2) plan_drain_def Let_def word_less_nat_alt)
  then have le: "dp_count p \<le> ring_capacity" and pos: "0 < ring_capacity"
    using n(2) by (simp_all add: min.coboundedI2 ring_capacity_def)
  have "dp_first p = min (dp_count p) (ring_capacity - unat (tr_tail r) mod ring_capacity)"
    "dp_start p = unat (tr_tail r) mod ring_capacity" "dp_second p = dp_count p - dp_first p"
    using assms(1) by (auto simp: assms(2) plan_drain_def Let_def slot_of_mod ring_inv_def)
  then show "copy_chunks arr (dp_start p) (dp_first p) (dp_second p)
       = window ring_capacity arr (unat (tr_tail r)) (unat (tr_tail r) + dp_count p)"
    using copy_chunks_window[of ring_capacity "dp_count p" "dp_first p" "unat (tr_tail r)" arr] le pos by simp
qed


lemma zip_slots_window:
  "zip_slots (window cap (tr_entries r) t h) (window cap (tr_meta_starts r) t h)
     (window cap (tr_scope_hashes r) t h) (window cap (tr_callsite_hashes r) t h) = window cap (ring_slot_at r) t h"
  by (rule nth_equalityI) (simp_all add: zip_slots_def ring_slot_at_def)

lemma tail_advance:
  assumes "ring_inv r" "n \<le> length (ring_contents r)" "0 < n"
  defines "t' \<equiv> tr_consumer_tail r + word_of_nat n"
  defines "r' \<equiv> r\<lparr>tr_consumer_tail := t', tr_tail := t'\<rparr>"
  shows "advance_sole_writer_from (tr_consumer_tail r) t' = ok t'" "ring_inv r'"
    "ring_contents r = window ring_capacity (ring_slot_at r) (unat (tr_tail r)) (unat (tr_tail r) + n) @ ring_contents r'"
    "unat t' = unat (tr_tail r) + n"
proof -
  have b: "unat (tr_tail r) + n \<le> unat (tr_head r)" "unat (tr_head r) < 2 ^ 64" "tr_consumer_tail r = tr_tail r"
    using assms(1,2) unat_lt_pow[of "tr_head r"] by (auto simp: ring_contents_def ring_inv_def word_le_nat_alt)
  then have t': "unat t' = unat (tr_tail r) + n"
    by (simp add: t'_def unat_add_exact unat_of_nat_exact)
  then show "unat t' = unat (tr_tail r) + n" "advance_sole_writer_from (tr_consumer_tail r) t' = ok t'"
    using b assms(3) by (simp_all add: advance_sole_writer_from_def word_less_nat_alt)
  show "ring_inv r'"
    using assms(1) b t' by (auto simp: ring_inv_def r'_def word_le_nat_alt)
  show "ring_contents r = window ring_capacity (ring_slot_at r) (unat (tr_tail r)) (unat (tr_tail r) + n) @ ring_contents r'"
    using b t' by (simp add: ring_contents_def r'_def window_split[symmetric])
qed

lemma try_pop_batch_spec:
  assumes "ring_inv r" "m \<le> 65536"
  shows "\<exists>r'. try_pop_batch True m r = ok (take (unat m) (ring_contents r), r') \<and> ring_inv r'
     \<and> ring_contents r' = drop (unat m) (ring_contents r)"
proof -
  define p where "p = plan_drain (tr_consumer_tail r) (ring_available r) m"
  note plan = plan_drain_spec[OF assms(1) p_def]
  show ?thesis
  proof (cases "m = 0 \<or> dp_count p = 0")
    case True
    then have "try_pop_batch True m r = ok ([], r)" "unat m = 0 \<or> ring_contents r = []"
      using assms(2) plan(1) by (auto simp: try_pop_batch_def p_def[symmetric] Let_def min_def split: if_splits)
    then show ?thesis
      using assms(1) by auto
  next
    case False
    define r' where "r' = r\<lparr>tr_consumer_tail := tr_consumer_tail r + word_of_nat (dp_count p),
        tr_tail := tr_consumer_tail r + word_of_nat (dp_count p)\<rparr>"
    note adv = tail_advance[OF assms(1), of "dp_count p"]
    have n: "dp_count p \<le> length (ring_contents r)" "0 < dp_count p"
      using plan(1) False by auto
    let ?w = "window ring_capacity (ring_slot_at r) (unat (tr_tail r)) (unat (tr_tail r) + dp_count p)"
    have eq: "try_pop_batch True m r = ok (?w, r')"
      using False assms(2) adv(1)[OF n]
      by (simp add: try_pop_batch_def p_def[symmetric] Let_def plan(2) zip_slots_window r'_def)
    have spl: "ring_contents r = ?w @ ring_contents r'" and inv: "ring_inv r'"
      using adv(2,3)[OF n] by (simp_all add: r'_def)
    have "?w = take (unat m) (ring_contents r) \<and> ring_contents r' = drop (unat m) (ring_contents r)"
    proof (cases "unat m \<le> length (ring_contents r)")
      case True
      then have "length ?w = unat m"
        using plan(1) by simp
      then show ?thesis
        using spl by simp
    next
      case False
      then have "length ?w = length (ring_contents r)"
        using plan(1) by simp
      then have "ring_contents r' = []"
        using arg_cong[OF spl, of length] by simp
      then show ?thesis
        using spl False by simp
    qed
    then show ?thesis
      using eq inv by metis
  qed
qed


lemma ring_push_law:
  assumes "ring_inv r" "try_append s r = ok (b, r')"
  shows "ring_inv r' \<and> ring_contents r' = ring_contents r @ (if b then [s] else [])"
  using try_append_spec[OF assms(1), of s] assms(2) by (auto split: if_splits)

lemma ring_pop_law:
  assumes "ring_inv r" "try_pop_batch True (word_of_nat n) r = ok (ys, r')"
  shows "ring_inv r' \<and> ring_contents r = ys @ ring_contents r' \<and> length ys \<le> n"
proof -
  have "(word_of_nat n :: u32) \<le> 65536"
    using assms(2) by (simp add: try_pop_batch_def split: if_splits)
  from try_pop_batch_spec[OF assms(1) this] show ?thesis
    using assms(2) by (auto simp: unat_of_nat min.coboundedI2 min_def)
qed

interpretation ring: spsc_queue ring_inv ring_contents "\<lambda>s. [s]" try_append "\<lambda>n. try_pop_batch True (word_of_nat n)"
  by unfold_locales (use ring_push_law ring_pop_law in blast)+


lemma drain_as_pop:
  assumes "ring_inv r" "drain True m want_meta want_scope want_callsite r = ok (d, r')"
  shows "\<exists>ys. try_pop_batch True m r = ok (ys, r') \<and> dr_count d = length ys \<and> dr_entries d = map rs_entry ys
     \<and> dr_meta_starts d = (if want_meta then Some (map rs_meta_start ys) else None)
     \<and> dr_scope_hashes d = (if want_scope then Some (map rs_scope_hash ys) else None)
     \<and> dr_callsite_hashes d = (if want_callsite then Some (map rs_callsite_hash ys) else None)"
proof -
  define p where "p = plan_drain (tr_consumer_tail r) (ring_available r) m"
  note plan = plan_drain_spec(2)[OF assms(1) p_def]
  have proj: "map rs_entry (window c (ring_slot_at r) t h) = window c (tr_entries r) t h"
    "map rs_meta_start (window c (ring_slot_at r) t h) = window c (tr_meta_starts r) t h"
    "map rs_scope_hash (window c (ring_slot_at r) t h) = window c (tr_scope_hashes r) t h"
    "map rs_callsite_hash (window c (ring_slot_at r) t h) = window c (tr_callsite_hashes r) t h" for c t h
    by (simp_all add: window_def ring_slot_at_def)
  show ?thesis
    using assms(2)
    by (auto simp: drain_def try_pop_batch_def drained_none_def p_def[symmetric] Let_def plan zip_slots_window proj
        split: if_splits sum.splits)
qed

lemma tag_field_bits:
  fixes x b :: u8
  assumes "i < 4" "j < 4"
  shows "drop_bit (j * 2) ((x AND NOT (push_bit (i * 2) 3)) OR push_bit (i * 2) (b AND 3)) AND 3
    = (if i = j then b AND 3 else drop_bit (j * 2) x AND 3)"
proof -
  have "i \<in> {0, 1, 2, 3}" "j \<in> {0, 1, 2, 3}"
    using assms by auto
  moreover have three: "(3 :: u8) = mask 2"
    by (simp add: mask_numeral)
  ultimately show ?thesis
    unfolding three by (intro bit_eqI) (auto simp: bit_simps)
qed

lemma scalar_type2_roundtrip: "scalar_type2_bits t AND 3 = scalar_type2_bits t" "scalar_type2_of (scalar_type2_bits t) = t"
  by (cases t; simp add: scalar_type2_of_def)+

lemma tag_field_top:
  fixes x b :: u8
  shows "drop_bit 6 (((x AND NOT scalar4_type_mask) OR push_bit 6 (b AND 3)) AND scalar4_type_mask) = b AND 3"
proof -
  have three: "(3 :: u8) = mask 2"
    by (simp add: mask_numeral)
  show ?thesis
    unfolding scalar4_type_mask_def three by (intro bit_eqI) (auto simp: bit_simps)
qed

lemma set_get_scalar_type:
  assumes "set_scalar_type i t e = ok e'" "j \<le> 4"
  shows "get_scalar_type j e' = (if j = i then ok t else get_scalar_type j e)"
  using assms tag_field_bits[of i j "en_scalar_types e" "scalar_type2_bits t"]
    tag_field_top[of "en_op_flags e" "scalar_type2_bits t"]
  by (auto simp: set_scalar_type_def get_scalar_type_def Let_def scalar_type2_roundtrip split: if_splits)

section \<open>Properties of the sequential ring\<close>

lemma reset_inv [simp]: "ring_inv (ring_reset r)" "ring_contents (ring_reset r) = []"
  by (simp_all add: ring_inv_def ring_reset_def ring_contents_def window_def)

lemma ring_contents_bound: "ring_inv r \<Longrightarrow> length (ring_contents r) \<le> ring_capacity"
  by (auto simp: ring_inv_def ring_contents_def)

text \<open>C12.  The operation ring is a bounded first-in first-out queue: whatever sequence of appends and
  batch pops runs on a fresh ring without a failed contract, the popped entries followed by those still in the ring are exactly
  the accepted entries in order, with all four arrays in step; the ring never holds more than its
  capacity, and an append is refused exactly when the ring is full.\<close>

theorem trace_ring_fifo:
  assumes "run_queue try_append (\<lambda>n. try_pop_batch True (word_of_nat n)) qs (ring_reset r) = ok (ins, outs, r')"
  shows "outs @ ring_contents r' = ins \<and> length (ring_contents r') \<le> ring_capacity
     \<and> ((\<exists>r''. try_append s r' = ok (False, r'')) \<longleftrightarrow> length (ring_contents r') = ring_capacity)"
proof -
  have inv: "ring_inv r'" and fifo: "concat (map (\<lambda>s. [s]) ins) = outs @ ring_contents r'"
    using ring.fifo[OF reset_inv(1) assms] by simp_all
  have "length (ring_contents r') = ring_capacity \<longleftrightarrow> \<not> unat (tr_head r') < unat (tr_tail r') + ring_capacity"
    using inv by (auto simp: ring_contents_def ring_inv_def word_le_nat_alt)
  then show ?thesis
    using fifo inv try_append_spec[OF inv, of s] ring_contents_bound[OF inv] by (auto split: if_splits)
qed

definition blank_entry :: ring_entry where
  "blank_entry = \<lparr>en_schema_hash = 0, en_shape_hash = 0, en_num_inputs = 0, en_num_outputs = 0,
     en_num_scalar_args = 0, en_scalar_types = 0, en_op_flags = 0, en_scalar_values = [0, 0, 0, 0, 0]\<rparr>"

definition blank_ring :: trace_ring where
  "blank_ring = \<lparr>tr_head = 0, tr_tail = 0, tr_consumer_tail = 0, tr_cached_tail = 0,
     tr_entries = (\<lambda>i. blank_entry), tr_meta_starts = (\<lambda>i. id_none), tr_scope_hashes = (\<lambda>i. 0),
     tr_callsite_hashes = (\<lambda>i. 0)\<rparr>"

definition sample_slot :: "u64 \<Rightarrow> ring_slot" where
  "sample_slot k = \<lparr>rs_entry = blank_entry\<lparr>en_schema_hash := k\<rparr>, rs_meta_start = k, rs_scope_hash = 0, rs_callsite_hash = 0\<rparr>"

lemma sample_ring_run:
  "\<exists>r'. run_queue try_append (\<lambda>n. try_pop_batch True (word_of_nat n)) [Push (sample_slot 1), Push (sample_slot 2), Pop 1]
     (ring_reset blank_ring) = ok ([sample_slot 1, sample_slot 2], [sample_slot 1], r')"
proof -
  let ?r0 = "ring_reset blank_ring"
  have c0: "unat (tr_head ?r0) = 0" "unat (tr_tail ?r0) = 0"
    by (simp_all add: ring_reset_def)
  then obtain r1 where r1: "try_append (sample_slot 1) ?r0 = ok (True, r1)" "ring_inv r1"
      "ring_contents r1 = [sample_slot 1]"
    using try_append_spec[OF reset_inv(1), of blank_ring "sample_slot 1"] by (auto simp: ring_capacity_def)
  have "tr_head r1 = 1" "tr_tail r1 = 0"
    using r1(1) by (auto simp: try_append_def append_publish_def ring_full_def Let_def succ_publish ring_reset_def
        store_slot_def)
  then obtain r2 where r2: "try_append (sample_slot 2) r1 = ok (True, r2)" "ring_inv r2"
      "ring_contents r2 = [sample_slot 1, sample_slot 2]"
    using try_append_spec[OF r1(2), of "sample_slot 2"] r1(3) by (auto simp: ring_capacity_def)
  obtain r3 where "try_pop_batch True 1 r2 = ok ([sample_slot 1], r3)"
    using try_pop_batch_spec[OF r2(2), of 1] r2(3) by (auto simp: word_le_nat_alt)
  then show ?thesis
    using r1 r2 by simp
qed

theorem trace_ring_fifo_witness:
  "\<exists>r'. run_queue try_append (\<lambda>n. try_pop_batch True (word_of_nat n)) [Push (sample_slot 1), Push (sample_slot 2), Pop 1]
     (ring_reset blank_ring) = ok ([sample_slot 1, sample_slot 2], [sample_slot 1], r')
     \<and> ring_contents r' = [sample_slot 2]"
  using sample_ring_run trace_ring_fifo[of _ blank_ring "[sample_slot 1, sample_slot 2]" "[sample_slot 1]"]
  by fastforce

end
