(* ===== verification/Trace_Ring_Threads.thy ===== *)
theory Trace_Ring_Threads
  imports Trace_Ring
begin

text \<open>
  The operation ring of \<^verbatim>\<open>crucible/TraceRing.h\<close> under its two threads.  An append is one load of the
  private view, at most one refresh from the consumer's counter, four separate slot stores and one
  publication; a batch pop is one load of the producer's counter, one copy per array cell in any
  order, and one publication.  The steps of the two threads interleave freely.  A counter precondition
  that fails ends the process: the failing step records the fault and no thread moves any more.  A
  caller asks for at most a ring full of entries, which \<^verbatim>\<open>try_pop_batch\<close> requires, and a pop that finds the ring empty
  changes nothing.  Memory is sequentially consistent.  The log of published entries and the list of popped
  entries are ghosts that no step reads.
\<close>

section \<open>Steps\<close>

definition copy_field :: "nat \<Rightarrow> ring_slot \<Rightarrow> ring_slot \<Rightarrow> ring_slot" where
  "copy_field f src dst =
    (if f = 0 then dst\<lparr>rs_entry := rs_entry src\<rparr>
     else if f = 1 then dst\<lparr>rs_meta_start := rs_meta_start src\<rparr>
     else if f = 2 then dst\<lparr>rs_scope_hash := rs_scope_hash src\<rparr>
     else dst\<lparr>rs_callsite_hash := rs_callsite_hash src\<rparr>)"

definition store_field :: "nat \<Rightarrow> nat \<Rightarrow> ring_slot \<Rightarrow> trace_ring \<Rightarrow> trace_ring" where
  "store_field f i s r =
    (if f = 0 then r\<lparr>tr_entries := (tr_entries r)(i := rs_entry s)\<rparr>
     else if f = 1 then r\<lparr>tr_meta_starts := (tr_meta_starts r)(i := rs_meta_start s)\<rparr>
     else if f = 2 then r\<lparr>tr_scope_hashes := (tr_scope_hashes r)(i := rs_scope_hash s)\<rparr>
     else r\<lparr>tr_callsite_hashes := (tr_callsite_hashes r)(i := rs_callsite_hash s)\<rparr>)"

datatype producer_pc = P_Idle | P_Refresh ring_slot | P_Store ring_slot nat

datatype consumer_pc = C_Idle | C_Copy drain_plan "nat \<Rightarrow> ring_slot" "(nat \<times> nat) set"

record ring_system =
  sys_ring :: trace_ring
  sys_producer :: producer_pc
  sys_consumer :: consumer_pc
  sys_log :: "ring_slot list"
  sys_popped :: "ring_slot list"
  sys_fault :: "fault option"

definition cell_index :: "drain_plan \<Rightarrow> nat \<Rightarrow> nat" where
  "cell_index p j = (if j < dp_first p then dp_start p + j else j - dp_first p)"

inductive producer_step :: "ring_system \<Rightarrow> ring_system \<Rightarrow> bool" where
  produce_begin:
    "sys_producer st = P_Idle \<Longrightarrow>
     producer_step st (st\<lparr>sys_producer :=
       if ring_full (tr_head (sys_ring st)) (tr_cached_tail (sys_ring st)) then P_Refresh s else P_Store s 0\<rparr>)"
| produce_refresh:
    "\<lbrakk>sys_producer st = P_Refresh s;
      advance_monotonic (tr_cached_tail (sys_ring st)) (tr_tail (sys_ring st)) = ok ct\<rbrakk> \<Longrightarrow>
     producer_step st (st\<lparr>sys_ring := (sys_ring st)\<lparr>tr_cached_tail := ct\<rparr>,
       sys_producer := if ring_full (tr_head (sys_ring st)) ct then P_Idle else P_Store s 0\<rparr>)"
| produce_refresh_fault:
    "\<lbrakk>sys_producer st = P_Refresh s;
      advance_monotonic (tr_cached_tail (sys_ring st)) (tr_tail (sys_ring st)) = fail e\<rbrakk> \<Longrightarrow>
     producer_step st (st\<lparr>sys_fault := Some e\<rparr>)"
| produce_store:
    "\<lbrakk>sys_producer st = P_Store s f; f < 4\<rbrakk> \<Longrightarrow>
     producer_step st (st\<lparr>sys_ring := store_field f (slot_of (tr_head (sys_ring st))) s (sys_ring st),
       sys_producer := P_Store s (Suc f)\<rparr>)"
| produce_publish:
    "\<lbrakk>sys_producer st = P_Store s 4;
      advance_sole_writer_from (tr_head (sys_ring st)) (tr_head (sys_ring st) + 1) = ok h\<rbrakk> \<Longrightarrow>
     producer_step st (st\<lparr>sys_ring := (sys_ring st)\<lparr>tr_head := h\<rparr>, sys_producer := P_Idle,
       sys_log := sys_log st @ [s]\<rparr>)"
| produce_publish_fault:
    "\<lbrakk>sys_producer st = P_Store s 4;
      advance_sole_writer_from (tr_head (sys_ring st)) (tr_head (sys_ring st) + 1) = fail e\<rbrakk> \<Longrightarrow>
     producer_step st (st\<lparr>sys_fault := Some e\<rparr>)"

text \<open>The consumer stores its own copy of the counter before it publishes.\<close>

inductive consumer_step :: "ring_system \<Rightarrow> ring_system \<Rightarrow> bool" where
  consume_begin:
    "\<lbrakk>sys_consumer st = C_Idle; m \<le> 65536;
      p = plan_drain (tr_consumer_tail (sys_ring st)) (ring_available (sys_ring st)) m; 0 < dp_count p\<rbrakk> \<Longrightarrow>
     consumer_step st (st\<lparr>sys_consumer := C_Copy p out ({0..<4} \<times> {0..<dp_count p})\<rparr>)"
| consume_copy:
    "\<lbrakk>sys_consumer st = C_Copy p out todo; (f, j) \<in> todo\<rbrakk> \<Longrightarrow>
     consumer_step st (st\<lparr>sys_consumer :=
       C_Copy p (out(j := copy_field f (ring_slot_at (sys_ring st) (cell_index p j)) (out j))) (todo - {(f, j)})\<rparr>)"
| consume_publish:
    "\<lbrakk>sys_consumer st = C_Copy p out {};
      t = tr_consumer_tail (sys_ring st);
      advance_sole_writer_from t (t + word_of_nat (dp_count p)) = ok t'\<rbrakk> \<Longrightarrow>
     consumer_step st (st\<lparr>sys_ring := (sys_ring st)\<lparr>tr_consumer_tail := t + word_of_nat (dp_count p), tr_tail := t'\<rparr>,
       sys_consumer := C_Idle, sys_popped := sys_popped st @ map out [0..<dp_count p]\<rparr>)"
| consume_publish_fault:
    "\<lbrakk>sys_consumer st = C_Copy p out {};
      t = tr_consumer_tail (sys_ring st);
      advance_sole_writer_from t (t + word_of_nat (dp_count p)) = fail e\<rbrakk> \<Longrightarrow>
     consumer_step st (st\<lparr>sys_ring := (sys_ring st)\<lparr>tr_consumer_tail := t + word_of_nat (dp_count p)\<rparr>,
       sys_fault := Some e\<rparr>)"

datatype ring_thread = Producer | Consumer

definition thread_step :: "ring_thread \<Rightarrow> ring_system \<Rightarrow> ring_system \<Rightarrow> bool" where
  "thread_step t st st' \<longleftrightarrow> sys_fault st = None \<and>
    (case t of Producer \<Rightarrow> producer_step st st' | Consumer \<Rightarrow> consumer_step st st')"

definition ring_step :: "ring_system \<Rightarrow> ring_system \<Rightarrow> bool" where
  "ring_step st st' \<longleftrightarrow> (\<exists>t. thread_step t st st')"

definition ring_system_init :: "trace_ring \<Rightarrow> ring_system" where
  "ring_system_init r = \<lparr>sys_ring = ring_reset r, sys_producer = P_Idle, sys_consumer = C_Idle, sys_log = [],
     sys_popped = [], sys_fault = None\<rparr>"


section \<open>The invariant\<close>

definition field_eq :: "nat \<Rightarrow> ring_slot \<Rightarrow> ring_slot \<Rightarrow> bool" where
  "field_eq f a b \<longleftrightarrow>
    (if f = 0 then rs_entry a = rs_entry b
     else if f = 1 then rs_meta_start a = rs_meta_start b
     else if f = 2 then rs_scope_hash a = rs_scope_hash b
     else rs_callsite_hash a = rs_callsite_hash b)"

definition counters_ok :: "ring_system \<Rightarrow> bool" where
  "counters_ok st \<longleftrightarrow> ring_inv (sys_ring st) \<and> unat (tr_head (sys_ring st)) = length (sys_log st)
     \<and> ring_contents (sys_ring st) = drop (unat (tr_tail (sys_ring st))) (sys_log st)
     \<and> sys_popped st = take (unat (tr_tail (sys_ring st))) (sys_log st)"

fun producer_ok :: "trace_ring \<Rightarrow> producer_pc \<Rightarrow> bool" where
  "producer_ok r (P_Store s f) \<longleftrightarrow> \<not> ring_full (tr_head r) (tr_cached_tail r) \<and> f \<le> 4
     \<and> (\<forall>g < f. field_eq g (ring_slot_at r (slot_of (tr_head r))) s)"
| "producer_ok r _ \<longleftrightarrow> True"

fun consumer_ok :: "trace_ring \<Rightarrow> consumer_pc \<Rightarrow> bool" where
  "consumer_ok r (C_Copy p out todo) \<longleftrightarrow> 0 < dp_count p \<and> dp_count p \<le> length (ring_contents r)
     \<and> (\<forall>j < dp_count p. cell_index p j = (unat (tr_tail r) + j) mod ring_capacity)
     \<and> (\<forall>f < 4. \<forall>j < dp_count p. (f, j) \<notin> todo \<longrightarrow> field_eq f (out j) (ring_contents r ! j))"
| "consumer_ok r C_Idle \<longleftrightarrow> True"

definition system_inv :: "ring_system \<Rightarrow> bool" where
  "system_inv st \<longleftrightarrow> counters_ok st \<and> producer_ok (sys_ring st) (sys_producer st)
     \<and> consumer_ok (sys_ring st) (sys_consumer st)"

lemma consumer_ok_mono:
  assumes "consumer_ok r c" "tr_tail r' = tr_tail r" "ring_contents r' = ring_contents r @ xs"
  shows "consumer_ok r' c"
  using assms by (cases c) (auto simp: nth_append)

lemma slot_eq_fields: "(\<forall>f < 4. field_eq f a b) \<longleftrightarrow> a = b" for a b :: ring_slot
  by (auto simp: field_eq_def numeral_eq_Suc All_less_Suc)

lemma field_eq_copy: "field_eq g (copy_field f a b) c \<longleftrightarrow> (if min g 3 = min f 3 then field_eq g a c else field_eq g b c)"
  by (auto simp: field_eq_def copy_field_def min_def split: if_splits)

lemma store_field_counters [simp]:
  "tr_head (store_field f i s r) = tr_head r" "tr_tail (store_field f i s r) = tr_tail r"
  "tr_consumer_tail (store_field f i s r) = tr_consumer_tail r" "tr_cached_tail (store_field f i s r) = tr_cached_tail r"
  by (simp_all add: store_field_def)

lemma slot_at_store_field:
  "ring_slot_at (store_field f i s r) = (ring_slot_at r)(i := copy_field f s (ring_slot_at r i))"
  by (auto simp: ring_slot_at_def store_field_def copy_field_def)

lemma not_full_bound:
  "ring_inv r \<Longrightarrow> \<not> ring_full (tr_head r) (tr_cached_tail r) \<Longrightarrow> unat (tr_head r) < unat (tr_tail r) + ring_capacity"
  using ring_full_iff[of "tr_cached_tail r" "tr_head r"] by (auto simp: ring_inv_def word_le_nat_alt)

lemma plan_cell_index:
  assumes "ring_inv r" "p = plan_drain (tr_consumer_tail r) (ring_available r) m" "j < dp_count p"
  shows "cell_index p j = (unat (tr_tail r) + j) mod ring_capacity"
proof -
  have len: "dp_first p \<le> dp_count p" "dp_second p = dp_count p - dp_first p"
    by (auto simp: assms(2) plan_drain_def Let_def)
  have "copy_chunks (\<lambda>i. i) (dp_start p) (dp_first p) (dp_second p) ! j
      = window ring_capacity (\<lambda>i. i) (unat (tr_tail r)) (unat (tr_tail r) + dp_count p) ! j"
    by (simp only: plan_drain_spec(2)[OF assms(1,2)])
  then show ?thesis
    using assms(3) len by (simp add: copy_chunks_def nth_append cell_index_def split: if_splits)
qed

section \<open>Every step keeps the invariant\<close>

lemma inv_produce_begin:
  "system_inv st \<Longrightarrow> system_inv (st\<lparr>sys_producer :=
     if ring_full (tr_head (sys_ring st)) (tr_cached_tail (sys_ring st)) then P_Refresh s else P_Store s 0\<rparr>)"
  by (auto simp: system_inv_def counters_ok_def)

lemma cached_tail_contents [simp]: "ring_contents (r\<lparr>tr_cached_tail := ct\<rparr>) = ring_contents r"
  by (simp add: ring_contents_def)

lemma inv_produce_refresh:
  assumes "system_inv st" "advance_monotonic (tr_cached_tail (sys_ring st)) (tr_tail (sys_ring st)) = ok ct"
  shows "system_inv (st\<lparr>sys_ring := (sys_ring st)\<lparr>tr_cached_tail := ct\<rparr>,
       sys_producer := if ring_full (tr_head (sys_ring st)) ct then P_Idle else P_Store s 0\<rparr>)"
  using assms consumer_ok_mono[of "sys_ring st" "sys_consumer st" "(sys_ring st)\<lparr>tr_cached_tail := ct\<rparr>" "[]"]
  by (auto simp: system_inv_def counters_ok_def ring_inv_def advance_monotonic_def split: if_splits)

lemma store_field_contents:
  assumes "ring_inv r" "\<not> ring_full (tr_head r) (tr_cached_tail r)"
  shows "ring_contents (store_field f (slot_of (tr_head r)) s r) = ring_contents r"
  using assms not_full_bound[OF assms]
  by (simp add: ring_contents_def slot_at_store_field slot_of_mod window_untouched ring_inv_def word_le_nat_alt)

lemma inv_produce_store:
  assumes "system_inv st" "sys_producer st = P_Store s f" "f < 4"
  shows "system_inv (st\<lparr>sys_ring := store_field f (slot_of (tr_head (sys_ring st))) s (sys_ring st),
       sys_producer := P_Store s (Suc f)\<rparr>)"
proof -
  let ?r = "sys_ring st"
  let ?r' = "store_field f (slot_of (tr_head ?r)) s ?r"
  have cont: "ring_contents ?r' = ring_contents ?r"
    using assms by (intro store_field_contents) (auto simp: system_inv_def counters_ok_def)
  have "producer_ok ?r' (P_Store s (Suc f))"
    using assms by (auto simp: system_inv_def slot_at_store_field field_eq_copy less_Suc_eq) (simp add: field_eq_def)
  then show ?thesis
    using assms cont consumer_ok_mono[of ?r "sys_consumer st" ?r' "[]"]
    by (auto simp: system_inv_def counters_ok_def ring_inv_def)
qed

lemma inv_produce_publish:
  assumes "system_inv st" "sys_producer st = P_Store s 4"
    and "advance_sole_writer_from (tr_head (sys_ring st)) (tr_head (sys_ring st) + 1) = ok h"
  shows "system_inv (st\<lparr>sys_ring := (sys_ring st)\<lparr>tr_head := h\<rparr>, sys_producer := P_Idle, sys_log := sys_log st @ [s]\<rparr>)"
proof -
  let ?r = "sys_ring st"
  let ?r' = "?r\<lparr>tr_head := h\<rparr>"
  have inv: "ring_inv ?r" "\<not> ring_full (tr_head ?r) (tr_cached_tail ?r)"
    and slot: "ring_slot_at ?r (slot_of (tr_head ?r)) = s"
    using assms(1,2) by (auto simp: system_inv_def counters_ok_def slot_eq_fields)
  have h: "unat h = Suc (unat (tr_head ?r))"
    using assms(3) by (auto simp: succ_publish unat_add_exact split: if_splits)
  have "(ring_slot_at ?r)(slot_of (tr_head ?r) := s) = ring_slot_at ?r"
    using slot by auto
  then have cont: "ring_contents ?r' = ring_contents ?r @ [s]"
    using window_push[of "unat (tr_tail ?r)" "unat (tr_head ?r)" ring_capacity "ring_slot_at ?r" s]
      not_full_bound[OF inv] inv(1) h
    by (simp add: ring_contents_def slot_of_mod ring_inv_def word_le_nat_alt)
  have "ring_inv ?r'"
    using inv(1) not_full_bound[OF inv] h by (auto simp: ring_inv_def word_le_nat_alt)
  moreover have "unat (tr_tail ?r) \<le> length (sys_log st)"
    using assms(1) by (auto simp: system_inv_def counters_ok_def ring_inv_def word_le_nat_alt)
  ultimately show ?thesis
    using assms(1) cont h consumer_ok_mono[of ?r "sys_consumer st" ?r' "[s]"]
    by (auto simp: system_inv_def counters_ok_def)
qed

lemma inv_consume_begin:
  assumes "system_inv st" "0 < dp_count p"
    and "p = plan_drain (tr_consumer_tail (sys_ring st)) (ring_available (sys_ring st)) m"
  shows "system_inv (st\<lparr>sys_consumer := C_Copy p out ({0..<4} \<times> {0..<dp_count p})\<rparr>)"
proof -
  have "ring_inv (sys_ring st)"
    using assms(1) by (simp add: system_inv_def counters_ok_def)
  from plan_drain_spec(1)[OF this assms(3)] plan_cell_index[OF this assms(3)] show ?thesis
    using assms(1,2) by (auto simp: system_inv_def counters_ok_def)
qed

lemma inv_consume_copy:
  assumes "system_inv st" "sys_consumer st = C_Copy p out todo" "(f, j) \<in> todo"
  shows "system_inv (st\<lparr>sys_consumer :=
       C_Copy p (out(j := copy_field f (ring_slot_at (sys_ring st) (cell_index p j)) (out j))) (todo - {(f, j)})\<rparr>)"
proof -
  let ?r = "sys_ring st"
  have "ring_slot_at ?r (cell_index p i) = ring_contents ?r ! i" if "i < dp_count p" for i
    using assms(1,2) that by (auto simp: system_inv_def ring_contents_def)
  then show ?thesis
    using assms(1,2) by (auto simp: system_inv_def counters_ok_def field_eq_copy) (auto simp: field_eq_def)
qed

lemma inv_consume_publish:
  assumes "system_inv st" "sys_consumer st = C_Copy p out {}" "t = tr_consumer_tail (sys_ring st)"
    and "advance_sole_writer_from t (t + word_of_nat (dp_count p)) = ok t'"
  shows "system_inv (st\<lparr>sys_ring := (sys_ring st)\<lparr>tr_consumer_tail := t + word_of_nat (dp_count p), tr_tail := t'\<rparr>,
       sys_consumer := C_Idle, sys_popped := sys_popped st @ map out [0..<dp_count p]\<rparr>)"
proof -
  let ?r = "sys_ring st" and ?n = "dp_count p"
  define r' where "r' = ?r\<lparr>tr_consumer_tail := t + word_of_nat ?n, tr_tail := t'\<rparr>"
  have inv: "ring_inv ?r" "0 < ?n" "?n \<le> length (ring_contents ?r)"
    using assms(1,2) by (auto simp: system_inv_def counters_ok_def)
  have t': "t' = t + word_of_nat ?n"
    using assms(4) by (auto simp: advance_sole_writer_from_def split: if_splits)
  have adv: "ring_inv r'" "ring_contents ?r = window ring_capacity (ring_slot_at ?r) (unat (tr_tail ?r)) (unat (tr_tail ?r) + ?n)
      @ ring_contents r'"
    using tail_advance(2,3)[OF inv(1,3,2)] by (simp_all add: r'_def t' assms(3))
  have out: "map out [0..<?n] = take ?n (ring_contents ?r)"
    using assms(1,2) inv(3)
    by (intro nth_equalityI) (auto simp: system_inv_def slot_eq_fields[symmetric])
  have tail: "unat (tr_tail r') = unat (tr_tail ?r) + ?n"
    using tail_advance(4)[OF inv(1,3,2)] by (simp add: r'_def t' assms(3))
  have log: "ring_contents ?r = drop (unat (tr_tail ?r)) (sys_log st)"
    "sys_popped st = take (unat (tr_tail ?r)) (sys_log st)" "unat (tr_head ?r) = length (sys_log st)"
    using assms(1) by (simp_all add: system_inv_def counters_ok_def)
  have "ring_contents r' = drop ?n (ring_contents ?r)"
    using adv(2) by simp
  then have "ring_contents r' = drop (unat (tr_tail r')) (sys_log st)"
    by (simp add: log(1) tail add.commute)
  moreover have "sys_popped st @ map out [0..<?n] = take (unat (tr_tail r')) (sys_log st)"
    by (simp add: out log(1,2) tail take_add)
  moreover have "producer_ok r' (sys_producer st)"
    using assms(1) by (cases "sys_producer st") (auto simp: system_inv_def r'_def)
  ultimately show ?thesis
    using adv(1) log(3) by (simp add: system_inv_def counters_ok_def r'_def)
qed

lemmas system_inv_steps = inv_produce_begin inv_produce_refresh inv_produce_store inv_produce_publish
  inv_consume_begin inv_consume_copy inv_consume_publish

lemma ring_step_cases:
  assumes "ring_step st st'"
  obtains "sys_fault st = None" "producer_step st st'" | "sys_fault st = None" "consumer_step st st'"
  using assms unfolding ring_step_def thread_step_def by (metis (full_types) ring_thread.exhaust ring_thread.simps(3,4))

lemma ring_stepI:
  "producer_step st st' \<Longrightarrow> sys_fault st = None \<Longrightarrow> ring_step st st'"
  "consumer_step st st' \<Longrightarrow> sys_fault st = None \<Longrightarrow> ring_step st st'"
  unfolding ring_step_def thread_step_def by (rule exI [of _ Producer], simp) (rule exI [of _ Consumer], simp)

text \<open>Under the invariant only one counter check can fail: the publication of the append that follows
  $2^{64} - 1$ published entries.\<close>

definition fault_ok :: "ring_system \<Rightarrow> bool" where
  "fault_ok st \<longleftrightarrow> (\<forall>e. sys_fault st = Some e \<longrightarrow>
     e = Contract_violation \<and> length (sys_log st) + 1 = 2 ^ 64 \<and> (\<exists>s. sys_producer st = P_Store s 4))"

lemma counter_checks:
  assumes "system_inv st"
  shows "advance_monotonic (tr_cached_tail (sys_ring st)) (tr_tail (sys_ring st)) = ok (tr_tail (sys_ring st))"
    and "advance_sole_writer_from (tr_head (sys_ring st)) (tr_head (sys_ring st) + 1)
      = (if length (sys_log st) + 1 < 2 ^ 64 then ok (tr_head (sys_ring st) + 1) else fail Contract_violation)"
    and "sys_consumer st = C_Copy p out todo \<Longrightarrow>
      advance_sole_writer_from (tr_consumer_tail (sys_ring st)) (tr_consumer_tail (sys_ring st) + word_of_nat (dp_count p))
      = ok (tr_consumer_tail (sys_ring st) + word_of_nat (dp_count p))"
    and "length (sys_log st) < 2 ^ 64"
proof -
  have c: "ring_inv (sys_ring st)" "unat (tr_head (sys_ring st)) = length (sys_log st)" "consumer_ok (sys_ring st) (sys_consumer st)"
    using assms by (simp_all add: system_inv_def counters_ok_def)
  show "advance_monotonic (tr_cached_tail (sys_ring st)) (tr_tail (sys_ring st)) = ok (tr_tail (sys_ring st))"
    using c(1) by (simp add: ring_inv_def advance_monotonic_def)
  show "advance_sole_writer_from (tr_head (sys_ring st)) (tr_head (sys_ring st) + 1)
      = (if length (sys_log st) + 1 < 2 ^ 64 then ok (tr_head (sys_ring st) + 1) else fail Contract_violation)"
    by (simp add: succ_publish c(2))
  show "advance_sole_writer_from (tr_consumer_tail (sys_ring st)) (tr_consumer_tail (sys_ring st) + word_of_nat (dp_count p))
      = ok (tr_consumer_tail (sys_ring st) + word_of_nat (dp_count p))" if "sys_consumer st = C_Copy p out todo"
    using c that by (intro tail_advance(1)) auto
  show "length (sys_log st) < 2 ^ 64"
    using unat_lt_pow [of "tr_head (sys_ring st)"] c(2) by simp
qed

lemma producer_step_inv:
  assumes "producer_step st st'" "system_inv st" "sys_fault st = None"
  shows "system_inv st' \<and> fault_ok st'"
  using assms
proof (cases rule: producer_step.cases)
  case (produce_refresh_fault s e)
  then show ?thesis using counter_checks(1) [OF assms(2)] by simp
next
  case (produce_publish_fault s e)
  then have "e = Contract_violation" "length (sys_log st) + 1 = 2 ^ 64"
    using counter_checks(2,4) [OF assms(2)] by (auto split: if_splits)
  then show ?thesis using produce_publish_fault(1,2) assms(2) by (simp add: fault_ok_def system_inv_def counters_ok_def)
qed (use assms(2,3) in \<open>simp_all only: system_inv_steps\<close>, simp_all add: fault_ok_def)

lemma consumer_step_inv:
  assumes "consumer_step st st'" "system_inv st" "sys_fault st = None"
  shows "system_inv st' \<and> fault_ok st'"
  using assms
proof (cases rule: consumer_step.cases)
  case (consume_publish_fault p out t e)
  then show ?thesis using counter_checks(3) [OF assms(2)] by simp
qed (use assms(2,3) in \<open>simp_all only: system_inv_steps\<close>, simp_all add: fault_ok_def)

lemma ring_reach_inv: "ring_step\<^sup>*\<^sup>* (ring_system_init r) st \<Longrightarrow> system_inv st \<and> fault_ok st"
proof (induction rule: rtranclp_induct)
  case base
  then show ?case
    by (simp add: system_inv_def counters_ok_def fault_ok_def ring_system_init_def) (simp add: ring_reset_def)
next
  case (step st st')
  from step.hyps(2) show ?case
    by (rule ring_step_cases) (use step.IH producer_step_inv consumer_step_inv in blast)+
qed


section \<open>The steps a call has left\<close>

text \<open>An append has at most one refresh, four stores and one publication left, a batch pop its remaining
  copies and one publication.  A thread is busy while it is inside a call and the process has not ended.\<close>

fun producer_left :: "producer_pc \<Rightarrow> nat" where
  "producer_left P_Idle = 0"
| "producer_left (P_Refresh s) = 6"
| "producer_left (P_Store s f) = 5 - f"

fun consumer_left :: "consumer_pc \<Rightarrow> nat" where
  "consumer_left C_Idle = 0"
| "consumer_left (C_Copy p out todo) = Suc (card todo)"

definition steps_left :: "ring_thread \<Rightarrow> ring_system \<Rightarrow> nat" where
  "steps_left t st = (if sys_fault st = None
     then case t of Producer \<Rightarrow> producer_left (sys_producer st) | Consumer \<Rightarrow> consumer_left (sys_consumer st)
     else 0)"

definition thread_idle :: "ring_thread \<Rightarrow> ring_system \<Rightarrow> bool" where
  "thread_idle t st \<longleftrightarrow> (case t of Producer \<Rightarrow> sys_producer st = P_Idle | Consumer \<Rightarrow> sys_consumer st = C_Idle)"

definition thread_busy :: "ring_thread \<Rightarrow> ring_system \<Rightarrow> bool" where
  "thread_busy t st \<longleftrightarrow> sys_fault st = None \<and> \<not> thread_idle t st"

definition call_bound :: "ring_thread \<Rightarrow> nat" where
  "call_bound t = (case t of Producer \<Rightarrow> 6 | Consumer \<Rightarrow> 4 * ring_capacity + 1)"

text \<open>A run inside one call of a thread: its own steps are counted, and the other thread takes any number
  of steps in between.\<close>

inductive call_run :: "ring_thread \<Rightarrow> nat \<Rightarrow> ring_system \<Rightarrow> ring_system \<Rightarrow> bool" for t where
  call_here: "call_run t 0 st st"
| call_own: "\<lbrakk>thread_busy t st; thread_step t st st'; call_run t n st' st''\<rbrakk> \<Longrightarrow> call_run t (Suc n) st st''"
| call_other: "\<lbrakk>thread_busy t st; u \<noteq> t; thread_step u st st'; call_run t n st' st''\<rbrakk> \<Longrightarrow> call_run t n st st''"

lemma todo_bound:
  "ring_step\<^sup>*\<^sup>* (ring_system_init r) st \<Longrightarrow> sys_consumer st = C_Copy p out todo \<Longrightarrow> todo \<subseteq> {0..<4} \<times> {0..<dp_count p}"
proof (induction arbitrary: p out todo rule: rtranclp_induct)
  case (step st st')
  from step.hyps(2) show ?case
  proof (rule ring_step_cases)
    assume "producer_step st st'"
    then show ?thesis using step.IH step.prems by (cases rule: producer_step.cases) auto
  next
    assume "consumer_step st st'"
    then show ?thesis using step.IH step.prems by (cases rule: consumer_step.cases) fastforce+
  qed
qed (simp add: ring_system_init_def)

lemma steps_left_bound:
  assumes "ring_step\<^sup>*\<^sup>* (ring_system_init r) st"
  shows "steps_left t st \<le> call_bound t"
proof (cases t)
  case Producer
  then show ?thesis by (cases "sys_producer st") (auto simp: steps_left_def call_bound_def)
next
  case Consumer
  show ?thesis
  proof (cases "sys_consumer st")
    case (C_Copy p out todo)
    have "dp_count p \<le> ring_capacity"
      using ring_reach_inv[OF assms] C_Copy by (auto simp: system_inv_def counters_ok_def ring_inv_def)
    moreover have "card todo \<le> 4 * dp_count p"
      using card_mono[OF _ todo_bound[OF assms C_Copy]] by simp
    ultimately show ?thesis using Consumer C_Copy by (simp add: steps_left_def call_bound_def)
  qed (simp add: Consumer steps_left_def)
qed

lemma own_step_left:
  assumes "ring_step\<^sup>*\<^sup>* (ring_system_init r) st" "thread_busy t st" "thread_step t st st'"
  shows "steps_left t st' < steps_left t st"
proof (cases t)
  case Producer
  then have "producer_step st st'" using assms(3) by (simp add: thread_step_def)
  then show ?thesis using assms(2) Producer
    by (cases rule: producer_step.cases) (auto simp: steps_left_def thread_busy_def thread_idle_def)
next
  case Consumer
  then have "consumer_step st st'" using assms(3) by (simp add: thread_step_def)
  then show ?thesis
  proof (cases rule: consumer_step.cases)
    case (consume_copy p out todo f j)
    have "finite todo" using todo_bound[OF assms(1) consume_copy(2)] finite_subset by blast
    then show ?thesis using assms(2) Consumer consume_copy card_Diff1_less[of todo "(f, j)"]
      by (simp add: steps_left_def thread_busy_def)
  qed (use assms(2) Consumer in \<open>auto simp: steps_left_def thread_busy_def thread_idle_def\<close>)
qed

lemma other_step_left:
  assumes "thread_step u st st'" "u \<noteq> t"
  shows "steps_left t st' \<le> steps_left t st"
proof (cases u)
  case Producer
  then have "producer_step st st'" "t = Consumer" "sys_fault st = None"
    using assms by (cases t; simp add: thread_step_def)+
  then show ?thesis by (cases rule: producer_step.cases) (auto simp: steps_left_def)
next
  case Consumer
  then have "consumer_step st st'" "t = Producer" "sys_fault st = None"
    using assms by (cases t; simp add: thread_step_def)+
  then show ?thesis by (cases rule: consumer_step.cases) (auto simp: steps_left_def)
qed

lemma thread_step_reach:
  "ring_step\<^sup>*\<^sup>* s0 st \<Longrightarrow> thread_step t st st' \<Longrightarrow> ring_step\<^sup>*\<^sup>* s0 st'"
  using ring_step_def rtranclp.rtrancl_into_rtrancl[of ring_step s0 st st'] by blast

lemma call_run_left:
  assumes "call_run t n st st'" "ring_step\<^sup>*\<^sup>* (ring_system_init r) st"
  shows "n \<le> steps_left t st \<and> ring_step\<^sup>*\<^sup>* (ring_system_init r) st'"
  using assms
proof induction
  case (call_own st st' n st'')
  then show ?case using own_step_left[OF call_own.prems call_own.hyps(1,2)] thread_step_reach by fastforce
next
  case (call_other st u st' n st'')
  then show ?case using other_step_left[OF call_other.hyps(3,2)] thread_step_reach by fastforce
qed simp

lemma busy_can_step:
  assumes "system_inv st" "thread_busy t st"
  shows "\<exists>st'. thread_step t st st'"
proof (cases t)
  case Producer
  have "\<exists>st'. producer_step st st'"
  proof (cases "sys_producer st")
    case (P_Refresh s)
    then show ?thesis using produce_refresh counter_checks(1)[OF assms(1)] by blast
  next
    case (P_Store s f)
    then have "f < 4 \<or> f = 4" using assms(1) by (auto simp: system_inv_def)
    then show ?thesis
      using P_Store produce_store produce_publish produce_publish_fault counter_checks(2)[OF assms(1)] by metis
  qed (use assms(2) Producer in \<open>simp add: thread_busy_def thread_idle_def\<close>)
  then show ?thesis using assms(2) Producer by (simp add: thread_step_def thread_busy_def)
next
  case Consumer
  then obtain p out todo where c: "sys_consumer st = C_Copy p out todo"
    using assms(2) by (cases "sys_consumer st") (auto simp: thread_busy_def thread_idle_def)
  have "\<exists>st'. consumer_step st st'"
  proof (cases "todo = {}")
    case True
    then show ?thesis using consume_publish[OF _ refl counter_checks(3)[OF assms(1) c]] c by blast
  next
    case False
    then show ?thesis using consume_copy[OF c] by auto
  qed
  then show ?thesis using assms(2) Consumer by (simp add: thread_step_def thread_busy_def)
qed


section \<open>Complete calls\<close>

lemma store_run:
  assumes "sys_producer st = P_Store s f" "f \<le> 4" "sys_fault st = None"
  shows "\<exists>r'. ring_step\<^sup>*\<^sup>* st (st\<lparr>sys_ring := r', sys_producer := P_Store s 4\<rparr>)
     \<and> tr_head r' = tr_head (sys_ring st) \<and> tr_tail r' = tr_tail (sys_ring st)
     \<and> tr_consumer_tail r' = tr_consumer_tail (sys_ring st)"
  using assms
proof (induction "4 - f" arbitrary: st f)
  case 0
  then have "st\<lparr>sys_ring := sys_ring st, sys_producer := P_Store s 4\<rparr> = st"
    by simp
  then show ?case
    by (metis rtranclp.rtrancl_refl)
next
  case (Suc k)
  define st1 where "st1 = st\<lparr>sys_ring := store_field f (slot_of (tr_head (sys_ring st))) s (sys_ring st),
      sys_producer := P_Store s (Suc f)\<rparr>"
  have "ring_step st st1"
    unfolding st1_def using Suc by (intro ring_stepI(1) produce_store) auto
  moreover have "k = 4 - Suc f" "Suc f \<le> 4" "sys_producer st1 = P_Store s (Suc f)" "sys_fault st1 = None"
    using Suc.hyps(2) Suc.prems by (auto simp: st1_def)
  from Suc.hyps(1)[OF this(1,3,2,4)] obtain r' where
    "ring_step\<^sup>*\<^sup>* st1 (st1\<lparr>sys_ring := r', sys_producer := P_Store s 4\<rparr>)" "tr_head r' = tr_head (sys_ring st)"
    "tr_tail r' = tr_tail (sys_ring st)" "tr_consumer_tail r' = tr_consumer_tail (sys_ring st)"
    by (auto simp: st1_def)
  moreover have "st1\<lparr>sys_ring := r', sys_producer := P_Store s 4\<rparr> = st\<lparr>sys_ring := r', sys_producer := P_Store s 4\<rparr>"
    by (simp add: st1_def)
  ultimately show ?case
    by (metis converse_rtranclp_into_rtranclp)
qed

lemma copy_run:
  assumes "finite todo" "sys_consumer st = C_Copy p out todo" "sys_fault st = None"
  shows "\<exists>out'. ring_step\<^sup>*\<^sup>* st (st\<lparr>sys_consumer := C_Copy p out' {}\<rparr>)"
  using assms
proof (induction todo arbitrary: st out rule: finite_psubset_induct)
  case (psubset todo)
  show ?case
  proof (cases "todo = {}")
    case True
    then have "st\<lparr>sys_consumer := C_Copy p out {}\<rparr> = st"
      using psubset.prems by simp
    then show ?thesis
      by (metis rtranclp.rtrancl_refl)
  next
    case False
    then obtain f j where fj: "(f, j) \<in> todo"
      by auto
    define st1 where "st1 = st\<lparr>sys_consumer := C_Copy p
        (out(j := copy_field f (ring_slot_at (sys_ring st) (cell_index p j)) (out j))) (todo - {(f, j)})\<rparr>"
    have "ring_step st st1"
      unfolding st1_def by (rule ring_stepI(2)[OF consume_copy[OF psubset.prems(1) fj] psubset.prems(2)])
    moreover obtain out' where "ring_step\<^sup>*\<^sup>* st1 (st1\<lparr>sys_consumer := C_Copy p out' {}\<rparr>)"
      using psubset.IH[of "todo - {(f, j)}" st1] fj psubset.prems(2) by (auto simp: st1_def)
    moreover have "st1\<lparr>sys_consumer := C_Copy p out' {}\<rparr> = st\<lparr>sys_consumer := C_Copy p out' {}\<rparr>"
      by (simp add: st1_def)
    ultimately show ?thesis
      by (metis converse_rtranclp_into_rtranclp)
  qed
qed

lemma produce_one:
  "\<exists>st. ring_step\<^sup>*\<^sup>* (ring_system_init r) st \<and> tr_head (sys_ring st) = 1 \<and> tr_tail (sys_ring st) = 0
     \<and> tr_consumer_tail (sys_ring st) = 0 \<and> sys_consumer st = C_Idle
     \<and> sys_log st = [s] \<and> sys_popped st = [] \<and> sys_fault st = None"
proof -
  let ?st1 = "(ring_system_init r)\<lparr>sys_producer := P_Store s 0\<rparr>"
  have "ring_step (ring_system_init r) ?st1"
    using ring_stepI(1)[OF produce_begin[of "ring_system_init r" s]] by (simp add: ring_system_init_def ring_reset_def ring_full_def)
  moreover obtain r' where r': "ring_step\<^sup>*\<^sup>* ?st1 (?st1\<lparr>sys_ring := r', sys_producer := P_Store s 4\<rparr>)"
      "tr_head r' = 0" "tr_tail r' = 0" "tr_consumer_tail r' = 0"
    using store_run[of ?st1 s 0] by (auto simp: ring_system_init_def ring_reset_def)
  moreover have "advance_sole_writer_from (0 :: u64) (0 + 1) = ok 1"
    using succ_publish[of 0] by simp
  then have "ring_step (?st1\<lparr>sys_ring := r', sys_producer := P_Store s 4\<rparr>)
      (?st1\<lparr>sys_ring := r'\<lparr>tr_head := 1\<rparr>, sys_producer := P_Idle, sys_log := [s]\<rparr>)"
    using ring_stepI(1)[OF produce_publish[of "?st1\<lparr>sys_ring := r', sys_producer := P_Store s 4\<rparr>" s 1]] r'(2)
    by (simp add: ring_system_init_def)
  ultimately have "ring_step\<^sup>*\<^sup>* (ring_system_init r)
      (?st1\<lparr>sys_ring := r'\<lparr>tr_head := 1\<rparr>, sys_producer := P_Idle, sys_log := [s]\<rparr>)"
    by (meson converse_rtranclp_into_rtranclp rtranclp.rtrancl_into_rtrancl)
  then show ?thesis
    using r' by (intro exI[of _ "?st1\<lparr>sys_ring := r'\<lparr>tr_head := 1\<rparr>, sys_producer := P_Idle, sys_log := [s]\<rparr>"])
      (simp add: ring_system_init_def)
qed

lemma publish_pop:
  assumes "sys_consumer st = C_Copy p out {}" "t = tr_consumer_tail (sys_ring st)"
    "advance_sole_writer_from t (t + word_of_nat (dp_count p)) = ok t'" "sys_fault st = None"
  shows "\<exists>st'. ring_step st st' \<and> tr_tail (sys_ring st') = t' \<and> sys_log st' = sys_log st
     \<and> length (sys_popped st') = length (sys_popped st) + dp_count p \<and> sys_fault st' = None"
  by (rule exI, rule conjI, rule ring_stepI(2)[OF consume_publish[OF assms(1-3)] assms(4)]) (simp add: assms(4))

lemma consume_one:
  assumes "tr_head (sys_ring st) = 1" "tr_tail (sys_ring st) = 0" "tr_consumer_tail (sys_ring st) = 0"
    "sys_consumer st = C_Idle" "sys_fault st = None"
  shows "\<exists>st'. ring_step\<^sup>*\<^sup>* st st' \<and> tr_tail (sys_ring st') = 1 \<and> sys_log st' = sys_log st
     \<and> length (sys_popped st') = length (sys_popped st) + 1 \<and> sys_fault st' = None"
proof -
  define p where "p = plan_drain 0 1 1"
  have p: "dp_count p = 1"
    by (simp add: p_def plan_drain_def Let_def)
  let ?st1 = "st\<lparr>sys_consumer := C_Copy p out ({0..<4} \<times> {0..<dp_count p})\<rparr>"
  have "ring_available (sys_ring st) = 1"
    using assms by (simp add: ring_available_def)
  then have "ring_step st ?st1"
    using ring_stepI(2)[OF consume_begin[OF assms(4), of 1 p out]] assms p by (simp add: p_def)
  moreover obtain out' where out': "ring_step\<^sup>*\<^sup>* ?st1 (?st1\<lparr>sys_consumer := C_Copy p out' {}\<rparr>)"
    using copy_run[of "{0..<4} \<times> {0..<dp_count p}" ?st1] assms(5) by auto
  moreover have "advance_sole_writer_from (0 :: u64) (0 + word_of_nat (dp_count p)) = ok 1"
    by (simp add: p advance_sole_writer_from_def)
  then have "\<exists>st'. ring_step (?st1\<lparr>sys_consumer := C_Copy p out' {}\<rparr>) st' \<and> tr_tail (sys_ring st') = 1
      \<and> sys_log st' = sys_log st \<and> length (sys_popped st') = length (sys_popped st) + 1 \<and> sys_fault st' = None"
    using publish_pop[of "?st1\<lparr>sys_consumer := C_Copy p out' {}\<rparr>" p out' 0 1] assms(3,5) p by simp
  ultimately show ?thesis
    by (meson converse_rtranclp_into_rtranclp rtranclp.rtrancl_into_rtrancl)
qed

lemma pass_one:
  "\<exists>st. ring_step\<^sup>*\<^sup>* (ring_system_init r) st \<and> tr_tail (sys_ring st) = 1 \<and> sys_log st = [s]
     \<and> length (sys_popped st) = 1 \<and> sys_fault st = None"
proof -
  obtain st where st: "ring_step\<^sup>*\<^sup>* (ring_system_init r) st" "tr_head (sys_ring st) = 1" "tr_tail (sys_ring st) = 0"
      "tr_consumer_tail (sys_ring st) = 0" "sys_consumer st = C_Idle" "sys_log st = [s]" "sys_popped st = []"
      "sys_fault st = None"
    using produce_one by blast
  from consume_one[OF st(2-5,8)] st(1,6,7) show ?thesis
    by (metis One_nat_def add_0 list.size(3) rtranclp_trans)
qed


section \<open>Properties\<close>

text \<open>C6.  Whatever the interleaving of the two threads, the consumer sees every published entry exactly
  once, in order and untorn: the popped entries are a prefix of the published ones, a batch whose
  copies are complete is exactly the next stretch of the log although the producer may have been
  storing meanwhile, and at most a ring full of entries is in flight.  A counter precondition fails in
  one situation only: at the publication of the append that follows $2^{64} - 1$ published entries.\<close>

theorem ring_threads_safe:
  assumes "ring_step\<^sup>*\<^sup>* (ring_system_init r) st"
  shows "sys_popped st = take (length (sys_popped st)) (sys_log st)
     \<and> length (sys_log st) \<le> length (sys_popped st) + ring_capacity
     \<and> (\<forall>p out. sys_consumer st = C_Copy p out {} \<longrightarrow>
          map out [0..<dp_count p] = take (dp_count p) (drop (length (sys_popped st)) (sys_log st)))
     \<and> (\<forall>e. sys_fault st = Some e \<longrightarrow>
          e = Contract_violation \<and> length (sys_log st) + 1 = 2 ^ 64 \<and> (\<exists>s. sys_producer st = P_Store s 4))"
proof -
  have inv: "system_inv st" "fault_ok st"
    using ring_reach_inv[OF assms] by auto
  then have ring: "ring_inv (sys_ring st)" "unat (tr_head (sys_ring st)) = length (sys_log st)"
    "ring_contents (sys_ring st) = drop (unat (tr_tail (sys_ring st))) (sys_log st)"
    "sys_popped st = take (unat (tr_tail (sys_ring st))) (sys_log st)"
    by (simp_all add: system_inv_def counters_ok_def)
  have tail: "length (sys_popped st) = unat (tr_tail (sys_ring st))"
    using ring by (simp add: ring_inv_def word_le_nat_alt)
  have "map out [0..<dp_count p] = take (dp_count p) (ring_contents (sys_ring st))"
    if "sys_consumer st = C_Copy p out {}" for p out
    using inv(1) that by (intro nth_equalityI) (auto simp: system_inv_def slot_eq_fields[symmetric])
  then show ?thesis
    using ring tail inv(2) unfolding fault_ok_def ring_inv_def by simp
qed

theorem ring_threads_safe_witness:
  "\<exists>st. ring_step\<^sup>*\<^sup>* (ring_system_init blank_ring) st \<and> sys_log st = [sample_slot 1]
     \<and> sys_popped st = [sample_slot 1] \<and> sys_fault st = None"
proof -
  obtain st where st: "ring_step\<^sup>*\<^sup>* (ring_system_init blank_ring) st" "sys_log st = [sample_slot 1]"
      "length (sys_popped st) = 1" "sys_fault st = None"
    using pass_one by blast
  have "sys_popped st = take (length (sys_popped st)) (sys_log st)"
    using ring_threads_safe[OF st(1)] by blast
  then show ?thesis
    using st by auto
qed

text \<open>C21.  Both threads are wait-free.  In every reachable state a thread inside a call can take its next
  step, whatever the other thread is doing.  Every run inside one call, with any steps of the other
  thread in between, holds at most six steps of an appending producer and at most
  $4 \cdot 65536 + 1$ steps of a popping consumer.  When the call ends it has returned, as long as
  fewer than $2^{64} - 1$ entries were ever appended.\<close>

theorem ring_threads_wait_free:
  assumes "ring_step\<^sup>*\<^sup>* (ring_system_init r) st"
  shows "(thread_busy t st \<longrightarrow> (\<exists>st'. thread_step t st st'))
    \<and> (\<forall>n st'. call_run t n st st' \<longrightarrow> n \<le> call_bound t)
    \<and> (\<forall>n st'. call_run t n st st' \<and> \<not> thread_busy t st' \<and> length (sys_log st') + 1 < 2 ^ 64 \<longrightarrow> thread_idle t st')"
proof (intro conjI allI impI)
  show "\<exists>st'. thread_step t st st'" if "thread_busy t st"
    using ring_reach_inv[OF assms] that by (blast intro: busy_can_step)
  show "n \<le> call_bound t" if "call_run t n st st'" for n st'
    using call_run_left[OF that assms] steps_left_bound[OF assms] by (meson le_trans)
  show "thread_idle t st'"
    if run: "call_run t n st st' \<and> \<not> thread_busy t st' \<and> length (sys_log st') + 1 < 2 ^ 64" for n st'
  proof -
    have "fault_ok st'"
      using call_run_left[of t n st st' r] ring_reach_inv[of r st'] run assms by blast
    then have "sys_fault st' = None"
      using run unfolding fault_ok_def by (cases "sys_fault st'") auto
    then show ?thesis
      using run by (simp add: thread_busy_def)
  qed
qed

definition storing_system :: ring_system where
  "storing_system = (ring_system_init blank_ring)\<lparr>sys_producer := P_Store (sample_slot 1) 0\<rparr>"

lemma storing_reachable: "ring_step\<^sup>*\<^sup>* (ring_system_init blank_ring) storing_system"
  using ring_stepI(1)[OF produce_begin[of "ring_system_init blank_ring" "sample_slot 1"]]
  by (intro r_into_rtranclp) (simp add: storing_system_def ring_system_init_def ring_reset_def ring_full_def)

theorem ring_threads_wait_free_witness:
  "ring_step\<^sup>*\<^sup>* (ring_system_init blank_ring) storing_system \<and> thread_busy Producer storing_system
   \<and> (\<exists>st'. thread_step Producer storing_system st') \<and> \<not> call_run Producer 7 storing_system storing_system"
proof -
  have busy: "thread_busy Producer storing_system"
    by (simp add: thread_busy_def thread_idle_def storing_system_def ring_system_init_def)
  moreover have "\<not> 7 \<le> call_bound Producer"
    by (simp add: call_bound_def)
  ultimately show ?thesis
    using ring_threads_wait_free[OF storing_reachable, of Producer] storing_reachable by blast
qed


section \<open>Reading the size while the threads run\<close>

text \<open>The size of a running ring is not bounded by its capacity: a caller that reads the head, is
  overtaken by one append and one pop, and then reads the tail computes a size of $2^{32} - 1$.\<close>

theorem ring_size_can_wrap:
  "\<exists>st1 st2. ring_step\<^sup>*\<^sup>* (ring_system_init r) st1 \<and> ring_step\<^sup>*\<^sup>* st1 st2
     \<and> unat (ring_size (tr_head (sys_ring st1)) (tr_tail (sys_ring st2))) = 2 ^ 32 - 1"
proof -
  let ?st1 = "ring_system_init r"
  obtain st2 where "ring_step\<^sup>*\<^sup>* ?st1 st2" "tr_tail (sys_ring st2) = 1"
    using pass_one by blast
  moreover have "tr_head (sys_ring ?st1) = 0"
    by (simp add: ring_system_init_def ring_reset_def)
  moreover have "unat (ring_size 0 1) = 2 ^ 32 - 1"
    by (simp add: ring_size_def unsigned_ucast_eq unat_max_word take_bit_nat_def)
  ultimately show ?thesis
    by (metis rtranclp.rtrancl_refl)
qed

lemma ring_size_quiescent:
  assumes "ring_inv r"
  shows "unat (ring_size (tr_head r) (tr_tail r)) = length (ring_contents r)"
  using assms unat_diff_le[of "tr_tail r" "tr_head r"]
  by (auto simp: ring_size_def ring_inv_def ring_contents_def unsigned_ucast_eq take_bit_nat_eq_self ring_capacity_def)

end
