(* ===== verification/Meta_Log.thy ===== *)
theory Meta_Log
  imports Trace_Ring
begin

text \<open>
  The metadata side channel of \<^verbatim>\<open>crucible/MetaLog.h\<close>: a circular buffer of $2^{20}$ tensor descriptors
  with 64-bit counters.  The producer appends runs; the consumer copies a run by the index the ring
  carries and later moves the tail past it.  Construction, which allocates the buffer and registers
  it, is not part of the model.
\<close>

section \<open>State and operations\<close>

definition meta_capacity :: nat where
  "meta_capacity = 1048576"

record meta_log =
  ml_head :: u64
  ml_cached_tail :: u64
  ml_tail :: u64
  ml_entries :: "nat \<Rightarrow> tensor_meta"

definition meta_slot :: "u64 \<Rightarrow> nat" where
  "meta_slot counter = unat (counter AND 1048575)"

definition store_metas :: "nat \<Rightarrow> tensor_meta list \<Rightarrow> (nat \<Rightarrow> tensor_meta) \<Rightarrow> nat \<Rightarrow> tensor_meta" where
  "store_metas start_pos metas entries =
    (if start_pos + length metas \<le> meta_capacity then write_run entries start_pos metas
     else let chunk = meta_capacity - start_pos
       in write_run (write_run entries start_pos (take chunk metas)) 0 (drop chunk metas))"

definition run_too_long :: "u64 \<Rightarrow> u64 \<Rightarrow> u64 \<Rightarrow> bool" where
  "run_too_long h t n \<longleftrightarrow> h - t + n > 1048576"

definition meta_publish :: "tensor_meta list \<Rightarrow> meta_log \<Rightarrow> (u64 \<times> meta_log) checked" where
  "meta_publish metas l =
    (let h = ml_head l; l1 = l\<lparr>ml_entries := store_metas (meta_slot h) metas (ml_entries l)\<rparr> in
     case advance_sole_writer_from h (h + word_of_nat (length metas)) of
       Inl e \<Rightarrow> fail e
     | Inr h' \<Rightarrow> ok (h, l1\<lparr>ml_head := h'\<rparr>))"

definition meta_try_append :: "tensor_meta list \<Rightarrow> meta_log \<Rightarrow> (u64 \<times> meta_log) checked" where
  "meta_try_append metas l =
    (let n = length metas; h = ml_head l in
     if \<not> n \<le> meta_capacity then fail Contract_violation
     else if n = 0 then ok (id_none, l)
     else if run_too_long h (ml_cached_tail l) (word_of_nat n) then
       (case advance_monotonic (ml_cached_tail l) (ml_tail l) of
          Inl e \<Rightarrow> fail e
        | Inr ct \<Rightarrow>
            let l1 = l\<lparr>ml_cached_tail := ct\<rparr> in
            if run_too_long h ct (word_of_nat n) then ok (id_none, l1) else meta_publish metas l1)
     else meta_publish metas l)"

definition copy_run :: "u64 \<Rightarrow> nat \<Rightarrow> meta_log \<Rightarrow> tensor_meta list checked" where
  "copy_run start count l =
    (if \<not> count \<le> meta_capacity then fail Contract_violation
     else if count = 0 then ok []
     else let start_pos = meta_slot start;
              chunk = (if count \<le> meta_capacity - start_pos then count else meta_capacity - start_pos)
       in ok (copy_chunks (ml_entries l) start_pos chunk (count - chunk)))"

definition advance_tail :: "u64 \<Rightarrow> meta_log \<Rightarrow> meta_log checked" where
  "advance_tail new_tail l =
    (case advance_sole_writer_from (ml_tail l) new_tail of
       Inl e \<Rightarrow> fail e
     | Inr t \<Rightarrow> ok (l\<lparr>ml_tail := t\<rparr>))"

definition meta_size :: "u64 \<Rightarrow> u64 \<Rightarrow> nat" where
  "meta_size tail_seen head_seen =
    (let live = head_seen - tail_seen in unat (if live < 1048576 then live else 1048576))"

definition meta_reset :: "meta_log \<Rightarrow> meta_log" where
  "meta_reset l = l\<lparr>ml_head := 0, ml_tail := 0, ml_cached_tail := 0\<rparr>"

text \<open>The consumer that takes the oldest records: one copy, then the release.\<close>

definition meta_take :: "nat \<Rightarrow> meta_log \<Rightarrow> (tensor_meta list \<times> meta_log) checked" where
  "meta_take n l =
    (let k = min n (unat (ml_head l - ml_tail l)) in
     if k = 0 then ok ([], l)
     else case copy_run (ml_tail l) k l of
       Inl e \<Rightarrow> fail e
     | Inr ms \<Rightarrow>
         (case advance_tail (ml_tail l + word_of_nat k) l of Inl e \<Rightarrow> fail e | Inr l' \<Rightarrow> ok (ms, l')))"

definition meta_push :: "tensor_meta list \<Rightarrow> meta_log \<Rightarrow> (bool \<times> meta_log) checked" where
  "meta_push metas l =
    (case meta_try_append metas l of Inl e \<Rightarrow> fail e | Inr (idx, l') \<Rightarrow> ok (id_is_valid idx, l'))"


section \<open>Abstraction\<close>

definition meta_contents :: "meta_log \<Rightarrow> tensor_meta list" where
  "meta_contents l = window meta_capacity (ml_entries l) (unat (ml_tail l)) (unat (ml_head l))"

definition meta_inv :: "meta_log \<Rightarrow> bool" where
  "meta_inv l \<longleftrightarrow> ml_cached_tail l \<le> ml_tail l \<and> ml_tail l \<le> ml_head l
     \<and> unat (ml_head l) \<le> unat (ml_cached_tail l) + meta_capacity"

lemma meta_slot_mod: "meta_slot c = unat c mod meta_capacity"
proof -
  have "c AND 1048575 = take_bit 20 c"
    by (simp add: take_bit_eq_mask mask_numeral)
  then show ?thesis
    by (simp add: meta_slot_def unsigned_take_bit_eq take_bit_nat_def meta_capacity_def)
qed

lemma run_too_long_iff:
  assumes "t \<le> h" "unat h \<le> unat t + meta_capacity" "n \<le> meta_capacity"
  shows "run_too_long h t (word_of_nat n) \<longleftrightarrow> unat t + meta_capacity < unat h + n"
proof -
  have "unat (h - t + word_of_nat n) = unat h - unat t + n"
    using assms by (simp add: unat_add_exact unat_of_nat_exact unat_diff_le meta_capacity_def)
  then show ?thesis
    using assms(1) by (auto simp: run_too_long_def word_less_nat_alt meta_capacity_def word_le_nat_alt)
qed

lemma store_metas_at:
  assumes "n = length metas" "n \<le> meta_capacity" "h \<le> i" "i < h + n"
  shows "store_metas (h mod meta_capacity) metas arr (i mod meta_capacity) = metas ! (i - h)"
proof -
  let ?c = meta_capacity and ?s = "h mod meta_capacity"
  have s: "?s < ?c"
    by (simp add: meta_capacity_def)
  show ?thesis
  proof (cases "?s + n \<le> ?c")
    case True
    then show ?thesis
      using write_run_mod[of h i metas ?c arr] assms by (simp add: store_metas_def)
  next
    case False
    define k where "k = ?c - ?s"
    have k: "k < n" "?s + k = ?c"
      using False s by (auto simp: k_def)
    obtain d where d: "i = h + d" "d < n"
      using assms(3,4) by (metis le_Suc_ex nat_add_left_cancel_less)
    have im: "i mod ?c = (?s + d) mod ?c"
      using d by (simp add: mod_add_left_eq)
    show ?thesis
    proof (cases "d < k")
      case True
      then have "i mod ?c = ?s + d" "\<not> ?s + d < n - k"
        using im k assms(2) by auto
      then show ?thesis
        using False True k d assms(1) by (simp add: store_metas_def write_run_def Let_def flip: k_def)
    next
      case False2: False
      then have "i mod ?c = d - k"
        using im k d assms(2) by (metis (no_types, lifting) add.assoc le_add_diff_inverse less_imp_diff_less
            linorder_not_less mod_add_self1 mod_less order_less_le_trans)
      then show ?thesis
        using False False2 k d assms(1) by (simp add: store_metas_def write_run_def Let_def flip: k_def)
    qed
  qed
qed

lemma store_metas_outside:
  assumes "n = length metas" "n \<le> meta_capacity" "j < meta_capacity"
    and out: "\<And>d. d < n \<Longrightarrow> j \<noteq> (h + d) mod meta_capacity"
  shows "store_metas (h mod meta_capacity) metas arr j = arr j"
proof -
  let ?c = meta_capacity and ?s = "h mod meta_capacity"
  have hd: "(h + d) mod ?c = (?s + d) mod ?c" for d
    by (simp add: mod_add_left_eq)
  have low: "\<not> (?s \<le> j \<and> j < ?s + n)"
  proof
    assume "?s \<le> j \<and> j < ?s + n"
    then have "j - ?s < n" "(?s + (j - ?s)) mod ?c = j"
      using assms(3) by auto
    then show False
      using out[of "j - ?s"] hd by metis
  qed
  have wrap: "\<not> j < ?s + n - ?c"
  proof
    assume j: "j < ?s + n - ?c"
    have "?s < ?c"
      by (simp add: meta_capacity_def)
    then have "j + (?c - ?s) < n" "?s + (j + (?c - ?s)) = j + ?c"
      using j by linarith+
    then have "j + (?c - ?s) < n" "(?s + (j + (?c - ?s))) mod ?c = j"
      using assms(3) by simp_all
    then show False
      using out[of "j + (?c - ?s)"] hd by metis
  qed
  show ?thesis
  proof (cases "?s + n \<le> ?c")
    case True
    then show ?thesis
      using low assms(1) by (auto simp: store_metas_def write_run_def)
  next
    case False
    define k where "k = ?c - ?s"
    have k: "k \<le> n" "n - k = ?s + n - ?c"
      using False assms(3) by (auto simp: k_def)
    then have "\<not> j < n - k" "\<not> (?s \<le> j \<and> j < ?s + min n k)"
      using low wrap by auto
    then show ?thesis
      using False assms(1) by (auto simp: store_metas_def write_run_def Let_def simp flip: k_def)
  qed
qed

lemma window_store_metas:
  assumes "n = length metas" "n \<le> meta_capacity" "t \<le> h" "h + n \<le> t + meta_capacity"
  shows "window meta_capacity (store_metas (h mod meta_capacity) metas arr) t (h + n)
    = window meta_capacity arr t h @ metas"
proof (rule nth_equalityI)
  fix i assume "i < length (window meta_capacity (store_metas (h mod meta_capacity) metas arr) t (h + n))"
  then have i: "t + i < h + n"
    by simp
  show "window meta_capacity (store_metas (h mod meta_capacity) metas arr) t (h + n) ! i
      = (window meta_capacity arr t h @ metas) ! i"
  proof (cases "t + i < h")
    case True
    have "(t + i) mod meta_capacity \<noteq> (h + d) mod meta_capacity" if "d < n" for d
      using mod_eq_close[of "t + i" meta_capacity "h + d"] True that assms by linarith
    then show ?thesis
      using True i store_metas_outside[OF assms(1,2), of "(t + i) mod meta_capacity" h arr]
      by (simp add: nth_append meta_capacity_def)
  next
    case False
    then have "t + i - h = i - (h - t)" "\<not> i < h - t"
      using assms(3) by linarith+
    then show ?thesis
      using False i assms store_metas_at[OF assms(1,2), of h "t + i" arr] by (simp add: nth_append)
  qed
qed (use assms in simp)

lemma publish_run_ok:
  assumes "0 < n" "n \<le> meta_capacity"
  shows "advance_sole_writer_from h (h + word_of_nat n)
    = (if unat h + n < 2 ^ 64 then ok (h + word_of_nat n) else fail Contract_violation)"
proof (cases "unat h + n < 2 ^ 64")
  case True
  then show ?thesis
    using assms by (simp add: advance_sole_writer_from_def word_less_nat_alt unat_add_exact unat_of_nat_exact)
next
  case False
  have "unat (h + word_of_nat n) = (unat h + n) mod 2 ^ 64"
    using assms(2) by (simp add: unat_word_ariths unat_of_nat mod_simps)
  also have "\<dots> = unat h + n - 2 ^ 64"
    using False assms(2) unat_lt_pow[of h] by (simp add: mod_if meta_capacity_def)
  finally have "\<not> h < h + word_of_nat n"
    using assms(2) by (simp add: word_less_nat_alt meta_capacity_def)
  then show ?thesis
    using False by (simp add: advance_sole_writer_from_def)
qed

lemma meta_publish_spec:
  assumes "meta_inv l" "0 < length metas" "unat (ml_head l) + length metas \<le> unat (ml_cached_tail l) + meta_capacity"
    and "meta_publish metas l = ok (idx, l')"
  shows "meta_inv l' \<and> idx = ml_head l \<and> id_is_valid idx \<and> meta_contents l' = meta_contents l @ metas
     \<and> ml_tail l' = ml_tail l \<and> unat (ml_head l') = unat (ml_head l) + length metas"
proof -
  have len: "length metas \<le> meta_capacity"
    using assms(1,3) by (auto simp: meta_inv_def word_le_nat_alt)
  have small: "unat (ml_head l) + length metas < 2 ^ 64"
    and l': "l' = l\<lparr>ml_entries := store_metas (meta_slot (ml_head l)) metas (ml_entries l),
                    ml_head := ml_head l + word_of_nat (length metas)\<rparr>" "idx = ml_head l"
    using assms(4) by (auto simp: meta_publish_def Let_def publish_run_ok[OF assms(2) len] split: if_splits)
  then have head: "unat (ml_head l + word_of_nat (length metas)) = unat (ml_head l) + length metas"
    using len by (simp add: unat_add_exact unat_of_nat_exact)
  have "ml_head l \<noteq> - 1"
    using small assms(2) by (auto simp: unat_max_word)
  moreover have "meta_contents l' = meta_contents l @ metas"
    using window_store_metas[OF refl len, of "unat (ml_tail l)" "unat (ml_head l)"] assms(1,3) head
    by (simp add: meta_contents_def l' meta_slot_mod meta_inv_def word_le_nat_alt)
  ultimately show ?thesis
    using assms(1,3) head by (auto simp: l' meta_inv_def word_le_nat_alt id_is_valid_def id_none_def)
qed

lemma meta_try_append_spec:
  assumes "meta_inv l" "meta_try_append metas l = ok (idx, l')"
  shows "meta_inv l' \<and> ml_tail l' = ml_tail l
     \<and> (if metas \<noteq> [] \<and> unat (ml_head l) + length metas \<le> unat (ml_tail l) + meta_capacity
        then idx = ml_head l \<and> id_is_valid idx \<and> meta_contents l' = meta_contents l @ metas
        else idx = id_none \<and> meta_contents l' = meta_contents l \<and> ml_head l' = ml_head l)"
proof -
  let ?n = "length metas" and ?h = "ml_head l"
  define l1 where "l1 = l\<lparr>ml_cached_tail := ml_tail l\<rparr>"
  have l1: "meta_inv l1" "meta_contents l1 = meta_contents l" "ml_head l1 = ?h" "ml_tail l1 = ml_tail l"
    using assms(1) by (auto simp: l1_def meta_inv_def meta_contents_def word_le_nat_alt)
  have len: "?n \<le> meta_capacity"
    using assms(2) by (auto simp: meta_try_append_def Let_def split: if_splits)
  have le: "ml_tail l \<le> ?h" "ml_cached_tail l \<le> ml_tail l" "unat ?h \<le> unat (ml_tail l) + meta_capacity"
    "unat ?h \<le> unat (ml_cached_tail l) + meta_capacity" "ml_cached_tail l \<le> ?h"
    using assms(1) by (auto simp: meta_inv_def word_le_nat_alt)
  show ?thesis
  proof (cases "?n = 0")
    case True
    then show ?thesis
      using assms by (auto simp: meta_try_append_def Let_def)
  next
    case False
    consider (direct) "\<not> run_too_long ?h (ml_cached_tail l) (word_of_nat ?n)" "meta_publish metas l = ok (idx, l')"
      | (refused) "run_too_long ?h (ml_tail l) (word_of_nat ?n)" "idx = id_none" "l' = l1"
      | (refreshed) "\<not> run_too_long ?h (ml_tail l) (word_of_nat ?n)" "meta_publish metas l1 = ok (idx, l')"
      using assms(2) len False le(2)
      by (auto simp: meta_try_append_def Let_def advance_monotonic_def l1_def split: if_splits)
    then show ?thesis
    proof cases
      case direct
      then have "unat ?h + ?n \<le> unat (ml_cached_tail l) + meta_capacity"
        using run_too_long_iff[of "ml_cached_tail l" ?h ?n] le len by simp
      then show ?thesis
        using meta_publish_spec[OF assms(1) _ _ direct(2)] False le(2) by (auto simp: word_le_nat_alt)
    next
      case refused
      then show ?thesis
        using run_too_long_iff[OF le(1,3) len] l1 by (simp add: id_is_valid_def)
    next
      case refreshed
      then show ?thesis
        using run_too_long_iff[OF le(1,3) len] meta_publish_spec[OF l1(1) _ _ refreshed(2)] False l1
        by (auto simp: l1_def)
    qed
  qed
qed


lemma advance_tail_spec:
  assumes "meta_inv l" "t \<le> ml_head l" "advance_tail t l = ok l'"
  shows "meta_inv l' \<and> ml_tail l < t \<and> l' = l\<lparr>ml_tail := t\<rparr>
     \<and> meta_contents l' = drop (unat t - unat (ml_tail l)) (meta_contents l)"
proof -
  have l': "ml_tail l < t" "l' = l\<lparr>ml_tail := t\<rparr>"
    using assms(3) by (auto simp: advance_tail_def advance_sole_writer_from_def split: if_splits)
  have "meta_contents l = window meta_capacity (ml_entries l) (unat (ml_tail l)) (unat t) @ meta_contents l'"
    using window_split[of "unat (ml_tail l)" "unat t" "unat (ml_head l)"] assms(2) l'(1)
    by (simp add: meta_contents_def l'(2) word_le_nat_alt word_less_nat_alt)
  then show ?thesis
    using assms(1,2) l' by (auto simp: meta_inv_def word_le_nat_alt word_less_nat_alt)
qed

lemma copy_run_window:
  "n \<le> meta_capacity \<Longrightarrow>
    copy_run start n l = ok (window meta_capacity (ml_entries l) (unat start) (unat start + n))"
  using copy_chunks_window[of meta_capacity n "min n (meta_capacity - unat start mod meta_capacity)" "unat start" "ml_entries l"]
  by (simp add: copy_run_def Let_def meta_slot_mod min_def window_def meta_capacity_def split: if_splits)

lemma copy_run_reads_contents:
  assumes "meta_inv l" "meta_contents l = pre @ metas @ post" "unat start = unat (ml_tail l) + length pre"
  shows "copy_run start (length metas) l = ok metas"
proof -
  let ?w = "window meta_capacity (ml_entries l)" and ?t = "unat (ml_tail l)" and ?h = "unat (ml_head l)"
  let ?s = "unat start" and ?e = "unat start + length metas"
  have len: "length pre + (length metas + length post) = ?h - ?t"
    using arg_cong[OF assms(2), of length] by (simp add: meta_contents_def)
  then have le: "?t \<le> ?s" "?s \<le> ?e" "?e \<le> ?h" "length metas \<le> meta_capacity"
    using assms(1,3) by (auto simp: meta_inv_def word_le_nat_alt)
  have "?w ?t ?s @ ?w ?s ?e @ ?w ?e ?h = pre @ metas @ post"
    using assms(2) window_split[OF le(1) order_trans[OF le(2,3)]] window_split[OF le(2,3)]
    by (metis meta_contents_def)
  then have "?w ?s ?e = metas"
    using assms(3) by (simp add: append_eq_append_conv)
  then show ?thesis
    using copy_run_window[OF le(4)] by simp
qed

lemma meta_push_law:
  assumes "meta_inv l" "meta_push metas l = ok (b, l')"
  shows "meta_inv l' \<and> meta_contents l' = meta_contents l @ (if b then metas else [])"
proof -
  obtain idx where "meta_try_append metas l = ok (idx, l')" "b = id_is_valid idx"
    using assms(2) by (auto simp: meta_push_def split: sum.splits)
  then show ?thesis
    using meta_try_append_spec[OF assms(1)] by (fastforce simp: id_is_valid_def split: if_splits)
qed

lemma meta_pop_law:
  assumes "meta_inv l" "meta_take n l = ok (ms, l')"
  shows "meta_inv l' \<and> meta_contents l = ms @ meta_contents l' \<and> length ms \<le> n"
proof -
  let ?t = "unat (ml_tail l)"
  define k where "k = min n (unat (ml_head l - ml_tail l))"
  have k: "k = min n (length (meta_contents l))" "?t + k \<le> unat (ml_head l)" "k \<le> meta_capacity"
    using assms(1) by (auto simp: k_def meta_contents_def meta_inv_def unat_diff_le word_le_nat_alt)
  have new: "unat (ml_tail l + word_of_nat k) = ?t + k"
    using k(2) unat_lt_pow[of "ml_head l"] by (intro unat_add_exact[THEN trans]) (auto simp: unat_of_nat_exact)
  show ?thesis
  proof (cases "k = 0")
    case True
    then show ?thesis
      using assms by (simp add: meta_take_def Let_def flip: k_def)
  next
    case False
    have "copy_run (ml_tail l) (length (take k (meta_contents l))) l = ok (take k (meta_contents l))"
      by (rule copy_run_reads_contents[OF assms(1), of "[]" _ "drop k (meta_contents l)"]) simp_all
    then have taken: "ms = take k (meta_contents l)" "advance_tail (ml_tail l + word_of_nat k) l = ok l'"
      using assms(2) False k(1) by (auto simp: meta_take_def Let_def simp flip: k_def split: sum.splits)
    have "meta_inv l'" "meta_contents l' = drop k (meta_contents l)"
      using advance_tail_spec[OF assms(1) _ taken(2)] new k(2) by (auto simp: word_le_nat_alt)
    then show ?thesis
      using taken(1) k(1) by simp
  qed
qed

interpretation mlog: spsc_queue meta_inv meta_contents "\<lambda>ms. ms" meta_push meta_take
  by unfold_locales (use meta_push_law meta_pop_law in blast)+


section \<open>Runs are read back\<close>

text \<open>What may happen to the log while a run that starts at an index is still unread: appends, and
  releases that do not pass the index.\<close>

inductive meta_evolves :: "u64 \<Rightarrow> meta_log \<Rightarrow> meta_log \<Rightarrow> bool" for start where
  evolves_refl: "meta_evolves start l l"
| evolves_append: "\<lbrakk>meta_evolves start l l1; meta_try_append ms l1 = ok (i, l2)\<rbrakk> \<Longrightarrow> meta_evolves start l l2"
| evolves_release: "\<lbrakk>meta_evolves start l l1; t \<le> start; advance_tail t l1 = ok l2\<rbrakk> \<Longrightarrow> meta_evolves start l l2"

definition holds_run :: "u64 \<Rightarrow> tensor_meta list \<Rightarrow> meta_log \<Rightarrow> bool" where
  "holds_run start metas l \<longleftrightarrow> meta_inv l
     \<and> (\<exists>pre post. meta_contents l = pre @ metas @ post \<and> unat start = unat (ml_tail l) + length pre)"

lemma holds_run_append:
  assumes "holds_run start metas l" "meta_try_append ms l = ok (i, l')"
  shows "holds_run start metas l'"
proof -
  have "\<exists>more. meta_contents l' = meta_contents l @ more" "meta_inv l'" "ml_tail l' = ml_tail l"
    using assms meta_try_append_spec[OF _ assms(2)] unfolding holds_run_def by (metis append_Nil2)+
  then show ?thesis
    using assms(1) by (fastforce simp: holds_run_def)
qed

lemma holds_run_release:
  assumes "holds_run start metas l" "t \<le> start" "advance_tail t l = ok l'"
  shows "holds_run start metas l'"
proof -
  obtain pre post where run: "meta_inv l" "meta_contents l = pre @ metas @ post" "unat start = unat (ml_tail l) + length pre"
    using assms(1) by (auto simp: holds_run_def)
  have "length (meta_contents l) = unat (ml_head l) - unat (ml_tail l)"
    by (simp add: meta_contents_def)
  then have "start \<le> ml_head l"
    using run by (auto simp: word_le_nat_alt meta_inv_def)
  then have l': "meta_inv l'" "ml_tail l < t" "ml_tail l' = t"
      "meta_contents l' = drop (unat t - unat (ml_tail l)) (meta_contents l)"
    using advance_tail_spec[OF run(1) order_trans[OF assms(2)] assms(3)] by auto
  have "unat t - unat (ml_tail l) \<le> length pre"
    using run(3) assms(2) by (simp add: word_le_nat_alt)
  then have "meta_contents l' = drop (unat t - unat (ml_tail l)) pre @ metas @ post"
    using l'(4) run(2) by simp
  then show ?thesis
    using l' run(3) assms(2) unfolding holds_run_def
    by (intro conjI exI[of _ "drop (unat t - unat (ml_tail l)) pre"] exI[of _ post]) (auto simp: word_le_nat_alt word_less_nat_alt)
qed

lemma holds_run_evolves: "meta_evolves start l l' \<Longrightarrow> holds_run start metas l \<Longrightarrow> holds_run start metas l'"
  by (induction rule: meta_evolves.induct) (blast intro: holds_run_append holds_run_release)+

lemma appended_run_held:
  assumes "meta_inv l" "meta_try_append metas l = ok (idx, l')" "id_is_valid idx"
  shows "holds_run idx metas l'"
proof -
  have "idx = ml_head l" "meta_contents l' = meta_contents l @ metas" "meta_inv l'" "ml_tail l' = ml_tail l"
    using meta_try_append_spec[OF assms(1,2)] assms(3) by (auto simp: id_is_valid_def split: if_splits)
  then show ?thesis
    using assms(1) unfolding holds_run_def
    by (intro conjI exI[of _ "meta_contents l"] exI[of _ "[]"]) (auto simp: meta_inv_def meta_contents_def word_le_nat_alt)
qed

lemma reset_meta_inv [simp]:
  "meta_inv (meta_reset l)" "meta_contents (meta_reset l) = []" "ml_head (meta_reset l) = 0"
  by (simp_all add: meta_inv_def meta_reset_def meta_contents_def window_def)

lemma small_append:
  assumes "meta_inv l" "unat (ml_head l) + length metas \<le> 1000" "metas \<noteq> []"
  shows "\<exists>l'. meta_try_append metas l = ok (ml_head l, l') \<and> meta_inv l'
     \<and> unat (ml_head l') = unat (ml_head l) + length metas \<and> meta_contents l' = meta_contents l @ metas"
proof -
  have len: "0 < length metas" "length metas \<le> meta_capacity"
    using assms by (auto simp: meta_capacity_def)
  have le: "ml_cached_tail l \<le> ml_head l" "unat (ml_head l) \<le> unat (ml_cached_tail l) + meta_capacity"
    using assms(1) by (auto simp: meta_inv_def)
  have "\<not> run_too_long (ml_head l) (ml_cached_tail l) (word_of_nat (length metas))"
    using run_too_long_iff[OF le len(2)] assms(2) by (simp add: meta_capacity_def)
  then have "meta_try_append metas l = meta_publish metas l"
    using len by (simp add: meta_try_append_def Let_def)
  moreover obtain l' where l': "meta_publish metas l = ok (ml_head l, l')"
    using publish_run_ok[OF len, of "ml_head l"] assms(2) by (simp add: meta_publish_def Let_def)
  ultimately show ?thesis
    using meta_publish_spec[OF assms(1) len(1) _ l'] assms(2) by (simp add: meta_capacity_def)
qed

definition sample_log_meta :: "u32 \<Rightarrow> tensor_meta" where
  "sample_log_meta k = default_meta\<lparr>tm_version := k\<rparr>"

definition blank_log :: meta_log where
  "blank_log = \<lparr>ml_head = 0, ml_cached_tail = 0, ml_tail = 0, ml_entries = (\<lambda>i. default_meta)\<rparr>"

text \<open>C22.  A run of descriptors that the log accepts is read back unchanged: from the reset log, after
  any appends and releases, an accepted append of a run returns the index at which a later copy of
  that many records yields the run, however many further runs are appended and however far the
  tail is released, as long as it is not released past the index.\<close>

theorem meta_run_read_back:
  assumes "run_queue meta_push meta_take qs (meta_reset l0) = ok (ins, outs, l)"
    and "meta_try_append metas l = ok (idx, l1)" "id_is_valid idx" "meta_evolves idx l1 l2"
  shows "copy_run idx (length metas) l2 = ok metas"
proof -
  have "meta_inv l"
    using mlog.fifo[OF reset_meta_inv(1) assms(1)] by simp
  then have "holds_run idx metas l2"
    using appended_run_held[OF _ assms(2,3)] holds_run_evolves[OF assms(4)] by blast
  then show ?thesis
    by (auto simp: holds_run_def intro: copy_run_reads_contents)
qed

theorem meta_run_read_back_witness:
  "\<exists>l1 l2. meta_try_append [sample_log_meta 1, sample_log_meta 2] (meta_reset blank_log) = ok (0, l1)
     \<and> meta_evolves 0 l1 l2 \<and> l2 \<noteq> l1 \<and> copy_run 0 2 l2 = ok [sample_log_meta 1, sample_log_meta 2]"
proof -
  let ?l = "meta_reset blank_log"
  obtain l1 where l1: "meta_try_append [sample_log_meta 1, sample_log_meta 2] ?l = ok (0, l1)" "meta_inv l1" "unat (ml_head l1) = 2"
    using small_append[OF reset_meta_inv(1), of blank_log "[sample_log_meta 1, sample_log_meta 2]"] by auto
  obtain l2 where l2: "meta_try_append [sample_log_meta 3] l1 = ok (ml_head l1, l2)" "unat (ml_head l2) = 3"
    using small_append[OF l1(2), of "[sample_log_meta 3]"] l1(3) by auto
  have ev: "meta_evolves 0 l1 l2"
    by (rule evolves_append[OF evolves_refl l2(1)])
  have "copy_run 0 2 l2 = ok [sample_log_meta 1, sample_log_meta 2]"
    using meta_run_read_back[of "[]" blank_log "[]" "[]" ?l, OF _ l1(1) _ ev]
    by (simp add: id_is_valid_def id_none_def numeral_2_eq_2)
  then show ?thesis
    using l1 l2 ev by fastforce
qed

text \<open>The metadata log is a bounded first-in first-out queue: the records taken followed by those
  still in the log are the accepted runs in order, and it never holds more than its capacity.
  An append is refused exactly when the run is empty or does not fit, and the size any observer
  computes from two counter readings is at most the capacity.\<close>

theorem meta_log_fifo:
  assumes "run_queue meta_push meta_take qs (meta_reset l0) = ok (ins, outs, l)"
  shows "concat ins = outs @ meta_contents l \<and> length (meta_contents l) \<le> meta_capacity
    \<and> (meta_push metas l = ok (b, l') \<longrightarrow>
        b = (metas \<noteq> [] \<and> length (meta_contents l) + length metas \<le> meta_capacity))
    \<and> meta_size tail_seen head_seen \<le> meta_capacity
    \<and> meta_size (ml_tail l) (ml_head l) = length (meta_contents l)"
proof -
  have inv: "meta_inv l" and "concat ins = outs @ meta_contents l"
    using mlog.fifo[OF reset_meta_inv(1) assms] by simp_all
  moreover have n: "length (meta_contents l) = unat (ml_head l) - unat (ml_tail l)" "ml_tail l \<le> ml_head l"
      "length (meta_contents l) \<le> meta_capacity"
    using inv by (auto simp: meta_contents_def meta_inv_def word_le_nat_alt)
  moreover have "b = (metas \<noteq> [] \<and> length (meta_contents l) + length metas \<le> meta_capacity)"
    if push: "meta_push metas l = ok (b, l')"
  proof -
    obtain idx where "meta_try_append metas l = ok (idx, l')" "b = id_is_valid idx"
      using push by (auto simp: meta_push_def split: sum.splits)
    then show ?thesis
      using meta_try_append_spec[OF inv] n(1,2) by (fastforce simp: id_is_valid_def word_le_nat_alt split: if_splits)
  qed
  moreover have "meta_size tail_seen head_seen \<le> meta_capacity"
    by (simp add: meta_size_def Let_def meta_capacity_def word_less_nat_alt)
  moreover have "meta_size (ml_tail l) (ml_head l) = length (meta_contents l)"
    using n by (auto simp: meta_size_def Let_def word_less_nat_alt unat_diff_le meta_capacity_def)
  ultimately show ?thesis
    by blast
qed

lemma small_take:
  assumes "meta_inv l" "meta_contents l = m # ms"
  shows "\<exists>l'. meta_take 1 l = ok ([m], l')"
proof -
  have "length (meta_contents l) = unat (ml_head l - ml_tail l)"
    using assms(1) by (simp add: meta_contents_def meta_inv_def unat_diff_le)
  then have k: "min 1 (unat (ml_head l - ml_tail l)) = 1"
    using assms(2) by simp
  have "ml_tail l < ml_head l"
    using assms by (auto simp: meta_contents_def meta_inv_def window_def order_less_le)
  then have "ml_tail l < ml_tail l + 1"
    using unat_lt_pow[of "ml_head l"] by (simp add: word_less_nat_alt unat_add_exact)
  then have "advance_tail (ml_tail l + 1) l = ok (l\<lparr>ml_tail := ml_tail l + 1\<rparr>)"
    by (simp add: advance_tail_def advance_sole_writer_from_def)
  moreover have "copy_run (ml_tail l) 1 l = ok [m]"
    using copy_run_reads_contents[OF assms(1), of "[]" "[m]" ms] assms(2) by simp
  ultimately show ?thesis
    using k by (simp add: meta_take_def Let_def)
qed

theorem meta_log_fifo_witness:
  "\<exists>l. run_queue meta_push meta_take [Push [sample_log_meta 1, sample_log_meta 2], Pop 1] (meta_reset blank_log)
       = ok ([[sample_log_meta 1, sample_log_meta 2]], [sample_log_meta 1], l)
     \<and> meta_contents l = [sample_log_meta 2]"
proof -
  let ?run = "[sample_log_meta 1, sample_log_meta 2]" and ?l = "meta_reset blank_log"
  obtain l1 where l1: "meta_try_append ?run ?l = ok (0, l1)" "meta_inv l1" "meta_contents l1 = ?run"
    using small_append[OF reset_meta_inv(1), of blank_log ?run] by auto
  obtain l2 where "meta_take 1 l1 = ok ([sample_log_meta 1], l2)"
    using small_take[OF l1(2,3)] by blast
  then have run: "run_queue meta_push meta_take [Push ?run, Pop 1] ?l = ok ([?run], [sample_log_meta 1], l2)"
    using l1(1) by (simp add: meta_push_def id_is_valid_def id_none_def)
  have "meta_contents l2 = [sample_log_meta 2]"
    using meta_log_fifo[OF run] by simp
  then show ?thesis
    using run by blast
qed

end
