(* ===== verification/Crdt_Replicas.thy ===== *)
theory Crdt_Replicas
  imports Main
begin

text \<open>
  The contract of the replicated data types of \<^verbatim>\<open>crucible/canopy/Crdt.h\<close> (its concept \<^verbatim>\<open>Crdt\<close>): local
  updates and merges act on an abstract value as joins of a semilattice.  A network of replicas
  updates locally, gossips states that may arrive late, repeatedly and in any order, and may
  refuse an update or a merge, which then changes nothing.  The client lemma is strong eventual
  consistency: replicas that know the same updates have the same abstract value.
\<close>

section \<open>Joins\<close>

locale join_lattice =
  fixes carr :: "'v \<Rightarrow> bool" and join :: "'v \<Rightarrow> 'v \<Rightarrow> 'v" and bot :: 'v
  assumes carr_bot: "carr bot"
    and carr_join: "carr a \<Longrightarrow> carr b \<Longrightarrow> carr (join a b)"
    and join_comm: "carr a \<Longrightarrow> carr b \<Longrightarrow> join a b = join b a"
    and join_assoc: "carr a \<Longrightarrow> carr b \<Longrightarrow> carr c \<Longrightarrow> join (join a b) c = join a (join b c)"
    and join_idem: "carr a \<Longrightarrow> join a a = a"
    and join_bot: "carr a \<Longrightarrow> join bot a = a"
begin

lemma join_above_left: "carr a \<Longrightarrow> carr b \<Longrightarrow> join a (join a b) = join a b"
  by (metis join_assoc join_idem)

lemma join_above_right: "carr a \<Longrightarrow> carr b \<Longrightarrow> join b (join a b) = join a b"
  by (metis join_above_left join_comm)

lemma above_join: "carr a \<Longrightarrow> carr b \<Longrightarrow> carr u \<Longrightarrow> join a u = u \<Longrightarrow> join b u = u \<Longrightarrow> join (join a b) u = u"
  by (simp add: join_assoc)

lemma above_trans: "carr a \<Longrightarrow> carr b \<Longrightarrow> carr c \<Longrightarrow> join a b = b \<Longrightarrow> join b c = c \<Longrightarrow> join a c = c"
  by (metis join_assoc)

lemma above_antisym: "carr a \<Longrightarrow> carr b \<Longrightarrow> join a b = b \<Longrightarrow> join b a = a \<Longrightarrow> a = b"
  by (metis join_comm)

end

text \<open>The value \<open>u\<close> is the join of the values \<open>d k\<close> of the updates \<open>k\<close> in \<open>K\<close>.\<close>

definition lub_of :: "('v \<Rightarrow> bool) \<Rightarrow> ('v \<Rightarrow> 'v \<Rightarrow> 'v) \<Rightarrow> (nat \<Rightarrow> 'v) \<Rightarrow> nat set \<Rightarrow> 'v \<Rightarrow> bool" where
  "lub_of carr join d K u \<longleftrightarrow> carr u \<and> (\<forall>k \<in> K. join (d k) u = u)
     \<and> (\<forall>w. carr w \<and> (\<forall>k \<in> K. join (d k) w = w) \<longrightarrow> join u w = w)"

context join_lattice
begin

lemma lub_unique: "lub_of carr join d K u \<Longrightarrow> lub_of carr join d K w \<Longrightarrow> u = w"
  by (auto simp: lub_of_def intro: above_antisym)

lemma lub_empty: "lub_of carr join d {} bot"
  by (simp add: lub_of_def carr_bot join_bot)

lemma lub_join:
  assumes "lub_of carr join d K u" "lub_of carr join d L w" "\<And>k. k \<in> K \<union> L \<Longrightarrow> carr (d k)"
  shows "lub_of carr join d (K \<union> L) (join u w)"
  unfolding lub_of_def
proof (intro conjI ballI allI impI)
  have u: "carr u" and w: "carr w"
    using assms(1,2) by (auto simp: lub_of_def)
  then show "carr (join u w)"
    by (rule carr_join)
  fix k assume k: "k \<in> K \<union> L"
  then have "join (d k) u = u \<or> join (d k) w = w"
    using assms(1,2) by (auto simp: lub_of_def)
  then show "join (d k) (join u w) = join u w"
    using u w assms(3)[OF k] above_trans join_above_left join_above_right carr_join by metis
next
  fix x assume x: "carr x \<and> (\<forall>k \<in> K \<union> L. join (d k) x = x)"
  then show "join (join u w) x = x"
    using assms(1,2) by (auto simp: lub_of_def intro: above_join)
qed

lemma lub_insert:
  assumes "lub_of carr join d K u" "\<And>k. k \<in> insert n K \<Longrightarrow> carr (d k)"
  shows "lub_of carr join d (insert n K) (join u (d n))"
proof -
  have "lub_of carr join d {n} (d n)"
    using assms(2)[of n] by (simp add: lub_of_def join_idem)
  then show ?thesis
    using lub_join[OF assms(1), of "{n}" "d n"] assms(2) by simp
qed

lemma lub_cong: "(\<And>k. k \<in> K \<Longrightarrow> d k = d' k) \<Longrightarrow> lub_of carr join d K u = lub_of carr join d' K u"
  by (simp add: lub_of_def)

end


section \<open>Replicas\<close>

type_synonym 's replica = "'s \<times> nat set"

text \<open>Each replica carries its state and the updates that reached it; \<open>k\<close> counts the updates.\<close>

inductive crdt_run ::
  "('o \<Rightarrow> 's \<Rightarrow> bool \<times> 's) \<Rightarrow> ('s \<Rightarrow> 's \<Rightarrow> bool \<times> 's) \<Rightarrow> 's \<Rightarrow> nat \<Rightarrow> (nat \<Rightarrow> 's replica) \<Rightarrow> 's replica set \<Rightarrow> bool"
  for update merge start where
  start: "crdt_run update merge start 0 (\<lambda>i. (start, {})) {}"
| update: "\<lbrakk>crdt_run update merge start k R M; update op (fst (R i)) = (True, s')\<rbrakk>
    \<Longrightarrow> crdt_run update merge start (Suc k) (R(i := (s', insert k (snd (R i))))) M"
| send: "crdt_run update merge start k R M \<Longrightarrow> crdt_run update merge start k R (insert (R i) M)"
| deliver: "\<lbrakk>crdt_run update merge start k R M; m \<in> M; merge (fst (R i)) (fst m) = (True, s')\<rbrakk>
    \<Longrightarrow> crdt_run update merge start k (R(i := (s', snd (R i) \<union> snd m))) M"

text \<open>Two replicas that each update once and exchange their states.\<close>

lemma exchange_run:
  assumes "update op1 s = (True, a)" "update op2 s = (True, b)" "merge a b = (True, c)" "merge b a = (True, e)"
  shows "\<exists>R M. crdt_run update merge s 2 R M \<and> R 0 = (c, {0, 1}) \<and> R 1 = (e, {0, 1})"
proof -
  let ?R0 = "\<lambda>i. (s, {}) :: 'a replica"
  let ?R1 = "?R0(0 := (a, {0}))"
  let ?R2 = "?R1(1 := (b, {1}))"
  let ?M = "{(a, {0}), (b, {1})}"
  let ?R3 = "?R2(0 := (c, {0, 1}))"
  have "crdt_run update merge s 1 ?R1 {}"
    using crdt_run.update[OF crdt_run.start[of update merge s], where op = op1 and i = 0 and s' = a] assms(1) by simp
  then have "crdt_run update merge s 2 ?R2 {}"
    using crdt_run.update[of update merge s 1 ?R1 "{}", where op = op2 and i = 1 and s' = b] assms(2) by (simp add: numeral_2_eq_2)
  then have "crdt_run update merge s 2 ?R2 ?M"
    using crdt_run.send[OF crdt_run.send[of update merge s 2 ?R2 "{}" 1], of 0] by simp
  then have "crdt_run update merge s 2 ?R3 ?M"
    using crdt_run.deliver[of update merge s 2 ?R2 ?M "(b, {1})", where i = 0 and s' = c] assms(3) by (simp add: insert_commute)
  then have "crdt_run update merge s 2 (?R3(1 := (e, {0, 1}))) ?M"
    using crdt_run.deliver[of update merge s 2 ?R3 ?M "(a, {0})", where i = 1 and s' = e] assms(4) by (simp add: insert_commute)
  then show ?thesis
    by (intro exI[of _ "?R3(1 := (e, {0, 1}))"] exI[of _ ?M]) simp
qed

definition replica_ok ::
  "('v \<Rightarrow> bool) \<Rightarrow> ('v \<Rightarrow> 'v \<Rightarrow> 'v) \<Rightarrow> ('s \<Rightarrow> bool) \<Rightarrow> ('s \<Rightarrow> 'v) \<Rightarrow> (nat \<Rightarrow> 'v) \<Rightarrow> nat \<Rightarrow> 's replica \<Rightarrow> bool" where
  "replica_ok carr join valid absf d k r \<longleftrightarrow>
    valid (fst r) \<and> snd r \<subseteq> {..<k} \<and> lub_of carr join d (snd r) (absf (fst r))"

locale crdt = join_lattice carr join bot
  for carr :: "'v \<Rightarrow> bool" and join :: "'v \<Rightarrow> 'v \<Rightarrow> 'v" and bot :: 'v +
  fixes valid :: "'s \<Rightarrow> bool" and absf :: "'s \<Rightarrow> 'v" and start :: 's
    and update :: "'o \<Rightarrow> 's \<Rightarrow> bool \<times> 's" and merge :: "'s \<Rightarrow> 's \<Rightarrow> bool \<times> 's"
  assumes valid_start: "valid start" "absf start = bot"
    and carr_absf: "valid s \<Longrightarrow> carr (absf s)"
    and update_law: "\<lbrakk>valid s; update op s = (b, s')\<rbrakk>
      \<Longrightarrow> valid s' \<and> (if b then \<exists>d. carr d \<and> absf s' = join (absf s) d else s' = s)"
    and merge_law: "\<lbrakk>valid s; valid t; merge s t = (b, s')\<rbrakk>
      \<Longrightarrow> valid s' \<and> (if b then absf s' = join (absf s) (absf t) else s' = s)"
begin

lemma replica_ok_later:
  assumes "replica_ok carr join valid absf d k r"
  shows "replica_ok carr join valid absf (d(k := e)) (Suc k) r"
proof -
  have "lub_of carr join (d(k := e)) (snd r) u = lub_of carr join d (snd r) u" for u
    using assms by (intro lub_cong) (auto simp: replica_ok_def)
  then show ?thesis
    using assms by (auto simp: replica_ok_def)
qed

lemma replica_ok_update:
  assumes "replica_ok carr join valid absf d k (s, K)" "\<forall>n < k. carr (d n)"
    and "valid s'" "carr e" "absf s' = join (absf s) e"
  shows "replica_ok carr join valid absf (d(k := e)) (Suc k) (s', insert k K)"
proof -
  have later: "replica_ok carr join valid absf (d(k := e)) (Suc k) (s, K)"
    using replica_ok_later[OF assms(1)] .
  then have "lub_of carr join (d(k := e)) (insert k K) (join (absf s) ((d(k := e)) k))"
    using assms(1,2,4) by (intro lub_insert) (auto simp: replica_ok_def)
  then show ?thesis
    using later assms(3,5) by (auto simp: replica_ok_def)
qed

lemma replicas_ok:
  assumes "crdt_run update merge start k R M"
  shows "\<exists>d. (\<forall>n < k. carr (d n)) \<and> (\<forall>r \<in> range R \<union> M. replica_ok carr join valid absf d k r)"
  using assms
proof induction
  case start
  show ?case
    using valid_start lub_empty by (auto simp: replica_ok_def)
next
  case (update k R M op i s')
  then obtain d where d: "\<forall>n < k. carr (d n)" "\<forall>r \<in> range R \<union> M. replica_ok carr join valid absf d k r"
    by blast
  then have Ri: "replica_ok carr join valid absf d k (fst (R i), snd (R i))"
    by auto
  then obtain e where e: "valid s'" "carr e" "absf s' = join (absf (fst (R i))) e"
    using update_law[OF _ update.hyps(2)] by (auto simp: replica_ok_def)
  have "\<forall>r \<in> range (R(i := (s', insert k (snd (R i))))) \<union> M. replica_ok carr join valid absf (d(k := e)) (Suc k) r"
    using replica_ok_update[OF Ri d(1) e] d(2) by (auto intro!: replica_ok_later split: if_splits)
  moreover have "\<forall>n < Suc k. carr ((d(k := e)) n)"
    using d(1) e(2) by (simp add: less_Suc_eq)
  ultimately show ?case
    by blast
next
  case (deliver k R M m i s')
  then obtain d where d: "\<forall>n < k. carr (d n)" "\<forall>r \<in> range R \<union> M. replica_ok carr join valid absf d k r"
    by blast
  then have Ri: "replica_ok carr join valid absf d k (R i)" and m: "replica_ok carr join valid absf d k m"
    using deliver.hyps(2) by auto
  then have s': "valid s'" "absf s' = join (absf (fst (R i))) (absf (fst m))"
    using merge_law[OF _ _ deliver.hyps(3)] by (auto simp: replica_ok_def)
  have "lub_of carr join d (snd (R i) \<union> snd m) (absf s')"
    unfolding s'(2) using Ri m d(1) by (intro lub_join) (auto simp: replica_ok_def)
  then have "replica_ok carr join valid absf d k (s', snd (R i) \<union> snd m)"
    using Ri m s'(1) by (auto simp: replica_ok_def)
  then show ?case
    using d by (intro exI[of _ d]) auto
qed auto

lemma converge:
  assumes "crdt_run update merge start k R M" "snd (R i) = snd (R j)"
  shows "valid (fst (R i)) \<and> absf (fst (R i)) = absf (fst (R j))"
proof -
  obtain d where "replica_ok carr join valid absf d k (R i)" "replica_ok carr join valid absf d k (R j)"
    using replicas_ok[OF assms(1)] by blast
  then show ?thesis
    using assms(2) lub_unique by (auto simp: replica_ok_def)
qed

end

end
