(* ===== verification/Hybrid_Clock.thy ===== *)
theory Hybrid_Clock
  imports Crucible_Prelude
begin

text \<open>
  The hybrid logical clock of \<^verbatim>\<open>crucible/canopy/Hlc.h\<close>: the timestamp with its order and its packed
  128-bit form, the two event functions, the reading of the wall clock, and the compare-exchange
  loops of \<^verbatim>\<open>now()\<close> and \<^verbatim>\<open>on_recv()\<close> as steps of threads that share one cell.  The 128-bit
  atomic load and compare-exchange are single steps.
\<close>

section \<open>Timestamps\<close>

datatype hlc_timestamp = Hlc_Timestamp (physical_ns: u64) (hlc_counter: u32)

instantiation hlc_timestamp :: linorder
begin

definition less_eq_hlc_timestamp :: "hlc_timestamp \<Rightarrow> hlc_timestamp \<Rightarrow> bool" where
  "a \<le> b \<longleftrightarrow> physical_ns a < physical_ns b \<or> physical_ns a = physical_ns b \<and> hlc_counter a \<le> hlc_counter b"

definition less_hlc_timestamp :: "hlc_timestamp \<Rightarrow> hlc_timestamp \<Rightarrow> bool" where
  "a < b \<longleftrightarrow> physical_ns a < physical_ns b \<or> physical_ns a = physical_ns b \<and> hlc_counter a < hlc_counter b"

instance
  by standard (auto simp: less_eq_hlc_timestamp_def less_hlc_timestamp_def intro: hlc_timestamp.expand)

end

instantiation hlc_timestamp :: zero
begin

definition zero_hlc_timestamp :: hlc_timestamp where
  "0 = Hlc_Timestamp 0 0"

instance ..

end

lemmas hlc_order = less_eq_hlc_timestamp_def less_hlc_timestamp_def

definition pack_hlc_timestamp :: "hlc_timestamp \<Rightarrow> 128 word" where
  "pack_hlc_timestamp ts = push_bit 64 (ucast (physical_ns ts)) OR push_bit 32 (ucast (hlc_counter ts))"

definition unpack_hlc_timestamp :: "128 word \<Rightarrow> hlc_timestamp" where
  "unpack_hlc_timestamp packed = Hlc_Timestamp (ucast (drop_bit 64 packed)) (ucast (drop_bit 32 packed AND 0xFFFFFFFF))"

lemma unpack_pack [simp]: "unpack_hlc_timestamp (pack_hlc_timestamp ts) = ts"
proof -
  have mask: "(0xFFFFFFFF :: 128 word) = mask 32"
    by (simp add: mask_eq_exp_minus_1)
  show ?thesis
    unfolding unpack_hlc_timestamp_def pack_hlc_timestamp_def mask
    by (intro hlc_timestamp.expand) (auto simp: bit_eq_iff bit_simps dest: bit_imp_le_length)
qed


section \<open>Events\<close>

definition bumped :: "u64 \<Rightarrow> u32 \<Rightarrow> hlc_timestamp" where
  "bumped p c =
    (if c \<noteq> - 1 then Hlc_Timestamp p (c + 1)
     else if p \<noteq> - 1 then Hlc_Timestamp (p + 1) 0
     else Hlc_Timestamp p c)"

definition local_event :: "hlc_timestamp \<Rightarrow> u64 \<Rightarrow> hlc_timestamp" where
  "local_event old physical_now =
    (if physical_now > physical_ns old then Hlc_Timestamp physical_now 0
     else bumped (physical_ns old) (hlc_counter old))"

definition recv_event :: "hlc_timestamp \<Rightarrow> hlc_timestamp \<Rightarrow> u64 \<Rightarrow> hlc_timestamp" where
  "recv_event old peer physical_now =
    (let later_stamp = (if physical_ns old < physical_ns peer then physical_ns peer else physical_ns old);
         l_new = (if later_stamp < physical_now then physical_now else later_stamp)
     in if l_new = physical_ns old \<and> l_new = physical_ns peer
        then bumped l_new (if hlc_counter old < hlc_counter peer then hlc_counter peer else hlc_counter old)
        else if l_new = physical_ns old then bumped l_new (hlc_counter old)
        else if l_new = physical_ns peer then bumped l_new (hlc_counter peer)
        else Hlc_Timestamp l_new 0)"

text \<open>The wall clock: \<^verbatim>\<open>clock_gettime\<close> fails or yields seconds and nanoseconds, both signed.\<close>

definition read_realtime_ns :: "(int \<times> int) option \<Rightarrow> u64" where
  "read_realtime_ns reading =
    (case reading of
       None \<Rightarrow> 1
     | Some (tv_sec, tv_nsec) \<Rightarrow>
         let nanos = (if tv_nsec > 0 then word_of_int tv_nsec else 0 :: u64) in
         if tv_sec \<le> 0 then (if nanos = 0 then 1 else nanos)
         else let seconds = word_of_int tv_sec :: u64 in
           if seconds > (- 1 - nanos) div 1000000000 then - 1
           else let total_ns = seconds * 1000000000 + nanos in if total_ns = 0 then 1 else total_ns)"

lemma realtime_unusable:
  assumes "case reading of None \<Rightarrow> True | Some (sec, nsec) \<Rightarrow> sec \<le> 0 \<and> nsec < 1000000000"
  shows "0 < unat (read_realtime_ns reading) \<and> unat (read_realtime_ns reading) < 1000000000"
  using assms
  by (auto simp: read_realtime_ns_def Let_def unat_of_int_exact unat_gt_0 split: option.splits)

lemma realtime_exact:
  assumes "0 < sec" "sec < 2 ^ 63" "0 \<le> nsec" "nsec < 1000000000"
  shows "unat (read_realtime_ns (Some (sec, nsec))) = min (nat (sec * 1000000000 + nsec)) (2 ^ 64 - 1)"
proof -
  let ?s = "word_of_int sec :: u64" and ?n = "word_of_int nsec :: u64"
  have n: "(if nsec > 0 then ?n else 0) = ?n" "unat ?n = nat nsec" and s: "unat ?s = nat sec"
    using assms by (auto simp: unat_of_int_exact)
  have lim: "unat ((- 1 - ?n) div 1000000000) = (2 ^ 64 - 1 - nat nsec) div 1000000000"
    using assms n(2) by (simp add: unat_div unat_sub_exact unat_max_word)
  have cond: "(- 1 - ?n) div 1000000000 < ?s \<longleftrightarrow> 2 ^ 64 - 1 < nat (sec * 1000000000 + nsec)"
    unfolding word_less_nat_alt lim s using assms by (auto simp: less_mult_imp_div_less div_less_iff_less_mult)
  show ?thesis
  proof (cases "2 ^ 64 - 1 < nat (sec * 1000000000 + nsec)")
    case True
    then show ?thesis
      using assms cond by (simp add: read_realtime_ns_def n Let_def unat_max_word)
  next
    case False
    have mult: "unat (?s * 1000000000) = nat sec * 1000000000"
      using False assms s by (subst unat_mult_exact) auto
    then have "unat (?s * 1000000000 + ?n) = nat sec * 1000000000 + nat nsec"
      using False assms n(2) by (subst unat_add_exact) auto
    then have total: "unat (?s * 1000000000 + ?n) = nat (sec * 1000000000 + nsec)" "?s * 1000000000 + ?n \<noteq> 0"
      using assms by (auto simp: nat_add_distrib nat_mult_distrib unat_eq_0 [symmetric])
    then show ?thesis
      using assms cond False by (simp add: read_realtime_ns_def n Let_def)
  qed
qed

definition hlc_saturated :: hlc_timestamp where
  "hlc_saturated = Hlc_Timestamp (- 1) (- 1)"

lemma bumped_greater:
  assumes "Hlc_Timestamp p c \<noteq> hlc_saturated"
  shows "Hlc_Timestamp p c < bumped p c"
  using assms word_less_succ[of c] word_less_succ[of p]
  by (auto simp: bumped_def hlc_order hlc_saturated_def)

lemma le_bumped: "Hlc_Timestamp p c \<le> bumped p c"
  using bumped_greater[of p c] by (cases "Hlc_Timestamp p c = hlc_saturated") (auto simp: bumped_def hlc_saturated_def)

lemma physical_bumped: "p \<le> physical_ns (bumped p c)"
  using le_bumped[of p c] by (auto simp: hlc_order)

lemma le_saturated: "ts \<le> hlc_saturated"
  by (auto simp: hlc_order hlc_saturated_def word_order.not_eq_extremum)

lemma local_event_greater:
  "old \<noteq> hlc_saturated \<Longrightarrow> old < local_event old now"
  using bumped_greater[of "physical_ns old" "hlc_counter old"]
  by (auto simp: local_event_def less_hlc_timestamp_def)

lemma local_event_now: "now \<le> physical_ns (local_event old now)"
  using physical_bumped[of "physical_ns old" "hlc_counter old"] by (auto simp: local_event_def)

text \<open>The receive rule is the bump of the larger stamp, or the wall clock when it is ahead of both.\<close>

lemma recv_event_max:
  "recv_event old peer now =
    (let top = max old peer in
     if now > physical_ns top then Hlc_Timestamp now 0 else bumped (physical_ns top) (hlc_counter top))"
  by (cases old; cases peer) (auto simp: recv_event_def Let_def max_def hlc_order not_less)

lemma recv_event_local: "recv_event old peer now = local_event (max old peer) now"
  by (simp add: recv_event_max local_event_def Let_def)


section \<open>Threads on one clock\<close>

text \<open>A call of \<^verbatim>\<open>now()\<close> or \<^verbatim>\<open>on_recv()\<close> loads the cell, computes the new stamp and publishes it by
  compare-exchange; a failed exchange reloads and tries again.  The log records the published
  stamps in order.\<close>

datatype hlc_call = Now u64 | Recv u64 hlc_timestamp

fun call_now :: "hlc_call \<Rightarrow> u64" where
  "call_now (Now t) = t"
| "call_now (Recv t peer) = t"

fun call_event :: "hlc_call \<Rightarrow> hlc_timestamp \<Rightarrow> hlc_timestamp" where
  "call_event (Now t) old = local_event old t"
| "call_event (Recv t peer) old = recv_event old peer t"

record hlc_system =
  hs_cell :: "128 word"
  hs_calls :: "nat \<Rightarrow> (hlc_call \<times> 128 word) option"
  hs_log :: "(hlc_call \<times> hlc_timestamp) list"

inductive hlc_step :: "hlc_system \<Rightarrow> hlc_system \<Rightarrow> bool" where
  load: "hs_calls s i = None
    \<Longrightarrow> hlc_step s (s\<lparr>hs_calls := (hs_calls s)(i := Some (c, hs_cell s))\<rparr>)"
| exchange: "\<lbrakk>hs_calls s i = Some (c, expected); hs_cell s = expected;
      desired = call_event c (unpack_hlc_timestamp expected)\<rbrakk>
    \<Longrightarrow> hlc_step s (s\<lparr>hs_cell := pack_hlc_timestamp desired, hs_calls := (hs_calls s)(i := None),
          hs_log := hs_log s @ [(c, desired)]\<rparr>)"
| retry: "\<lbrakk>hs_calls s i = Some (c, expected)\<rbrakk>
    \<Longrightarrow> hlc_step s (s\<lparr>hs_calls := (hs_calls s)(i := Some (c, hs_cell s))\<rparr>)"

inductive_cases hlc_stepE: "hlc_step s s'"

definition hlc_system_init :: hlc_system where
  "hlc_system_init = \<lparr>hs_cell = 0, hs_calls = (\<lambda>i. None), hs_log = []\<rparr>"

fun stamp_ok :: "hlc_call \<times> hlc_timestamp \<Rightarrow> bool" where
  "stamp_ok (c, ts) \<longleftrightarrow> call_now c \<le> physical_ns ts \<and> (case c of Now t \<Rightarrow> True | Recv t peer \<Rightarrow> peer < ts)"

definition hlc_inv :: "hlc_system \<Rightarrow> bool" where
  "hlc_inv s \<longleftrightarrow> (let cur = unpack_hlc_timestamp (hs_cell s) in
     cur = hlc_saturated
     \<or> sorted_wrt (<) (map snd (hs_log s)) \<and> (\<forall>e \<in> set (hs_log s). snd e \<le> cur \<and> stamp_ok e))"

lemma local_event_ge: "old \<le> local_event old t"
  using le_bumped[of "physical_ns old" "hlc_counter old"] by (auto simp: local_event_def hlc_order)

lemma call_event_mono: "old \<le> call_event c old"
  using local_event_ge[of old] local_event_ge[of "max old _"]
  by (cases c) (auto simp: recv_event_local intro: order_trans[OF max.cobounded1])

lemma call_event_strict:
  assumes "call_event c old \<noteq> hlc_saturated"
  shows "old < call_event c old \<and> stamp_ok (c, call_event c old)"
proof (cases c)
  case (Now t)
  have "old \<noteq> hlc_saturated"
    using assms call_event_mono[of old c] le_saturated by (metis order_antisym)
  then show ?thesis
    using local_event_greater local_event_now by (simp add: Now)
next
  case (Recv t peer)
  let ?top = "max old peer"
  have "?top \<noteq> hlc_saturated"
    using assms call_event_mono[of ?top "Now t"] le_saturated by (metis Recv call_event.simps order_antisym recv_event_local)
  then have "?top < local_event ?top t"
    by (rule local_event_greater)
  then show ?thesis
    using local_event_now by (simp add: Recv recv_event_local)
qed

lemma hlc_step_inv: "hlc_step s s' \<Longrightarrow> hlc_inv s \<Longrightarrow> hlc_inv s'"
proof (induction rule: hlc_step.induct)
  case (exchange s i c expected desired)
  let ?old = "unpack_hlc_timestamp expected"
  show ?case
  proof (cases "desired = hlc_saturated")
    case False
    then have new: "?old < desired" "stamp_ok (c, desired)"
      using call_event_strict[of c ?old] exchange.hyps(3) by auto
    then have "?old \<noteq> hlc_saturated"
      using new(1) le_saturated[of desired] by auto
    then have "sorted_wrt (<) (map snd (hs_log s))" "\<forall>e \<in> set (hs_log s). snd e \<le> ?old \<and> stamp_ok e"
      using exchange by (auto simp: hlc_inv_def Let_def)
    then show ?thesis
      using new by (fastforce simp: hlc_inv_def Let_def sorted_wrt_append)
  qed (simp add: hlc_inv_def)
qed (auto simp: hlc_inv_def)

lemma hlc_reachable_inv: "hlc_step\<^sup>*\<^sup>* hlc_system_init s \<Longrightarrow> hlc_inv s"
proof (induction rule: rtranclp_induct)
  case base
  show ?case
    by (simp add: hlc_system_init_def hlc_inv_def)
qed (rule hlc_step_inv)

text \<open>C10.  Stamps issued by one hybrid logical clock are strictly increasing in the order in which the
  threads publish them, under every interleaving of their loads and compare-exchanges: a stamp
  is never issued twice, never lies before the wall clock its call read, and the stamp of a
  receipt is greater than the received stamp.  The only exception is the saturated clock, from
  which no call leads back.\<close>

theorem hlc_threads_monotone:
  assumes "hlc_step\<^sup>*\<^sup>* hlc_system_init s" "unpack_hlc_timestamp (hs_cell s) \<noteq> hlc_saturated"
  shows "(\<forall>i j. i < j \<and> j < length (hs_log s) \<longrightarrow> snd (hs_log s ! i) < snd (hs_log s ! j))
     \<and> (\<forall>c ts. (c, ts) \<in> set (hs_log s) \<longrightarrow>
          call_now c \<le> physical_ns ts \<and> (\<forall>t peer. c = Recv t peer \<longrightarrow> peer < ts))"
proof -
  have "sorted_wrt (<) (map snd (hs_log s))" "\<forall>e \<in> set (hs_log s). stamp_ok e"
    using hlc_reachable_inv[OF assms(1)] assms(2) by (auto simp: hlc_inv_def Let_def)
  then show ?thesis
    by (fastforce simp: sorted_wrt_iff_nth_less)
qed


definition two_threads_run :: hlc_system where
  "two_threads_run =
    \<lparr>hs_cell = pack_hlc_timestamp (Hlc_Timestamp 7 3), hs_calls = (\<lambda>i. None),
     hs_log = [(Now 5, Hlc_Timestamp 5 0), (Recv 3 (Hlc_Timestamp 7 2), Hlc_Timestamp 7 3)]\<rparr>"

lemma two_threads_reachable: "hlc_step\<^sup>*\<^sup>* hlc_system_init two_threads_run"
proof -
  let ?c0 = "Now 5" and ?c1 = "Recv 3 (Hlc_Timestamp 7 2)" and ?e = "\<lambda>i. None"
  let ?mid = "pack_hlc_timestamp (Hlc_Timestamp 5 0)"
  define s1 where "s1 = hlc_system_init\<lparr>hs_calls := ?e(0 := Some (?c0, 0))\<rparr>"
  define s2 where "s2 = s1\<lparr>hs_calls := (hs_calls s1)(1 := Some (?c1, 0))\<rparr>"
  define s3 where "s3 = s2\<lparr>hs_cell := ?mid, hs_calls := (hs_calls s2)(0 := None), hs_log := [(?c0, Hlc_Timestamp 5 0)]\<rparr>"
  define s4 where "s4 = s3\<lparr>hs_calls := (hs_calls s3)(1 := Some (?c1, ?mid))\<rparr>"
  have zero: "unpack_hlc_timestamp 0 = Hlc_Timestamp 0 0"
    by (simp add: unpack_hlc_timestamp_def)
  have "hlc_step hlc_system_init s1"
    using load[of hlc_system_init 0 ?c0] by (simp add: s1_def hlc_system_init_def)
  moreover have "hlc_step s1 s2"
    using load[of s1 1 ?c1] by (simp add: s2_def s1_def hlc_system_init_def)
  moreover have "hlc_step s2 s3"
    using exchange[of s2 0 ?c0 0] by (simp add: s3_def s2_def s1_def hlc_system_init_def zero local_event_def)
  moreover have "hlc_step s3 s4"
    using retry[of s3 1 ?c1] by (simp add: s4_def s3_def s2_def)
  moreover have "hlc_step s4 two_threads_run"
    using exchange[of s4 1 ?c1 ?mid]
    by (simp add: two_threads_run_def s4_def s3_def s2_def s1_def hlc_system_init_def recv_event_def bumped_def fun_upd_twist)
  ultimately show ?thesis
    by (meson rtranclp.rtrancl_refl rtranclp.rtrancl_into_rtrancl)
qed

theorem hlc_threads_monotone_witness:
  "hlc_step\<^sup>*\<^sup>* hlc_system_init two_threads_run \<and> unpack_hlc_timestamp (hs_cell two_threads_run) \<noteq> hlc_saturated
   \<and> snd (hs_log two_threads_run ! 0) < snd (hs_log two_threads_run ! 1)
   \<and> Hlc_Timestamp 7 2 < snd (hs_log two_threads_run ! 1)"
proof -
  have ns: "unpack_hlc_timestamp (hs_cell two_threads_run) \<noteq> hlc_saturated"
    by (simp add: two_threads_run_def hlc_saturated_def)
  show ?thesis
    using hlc_threads_monotone[OF two_threads_reachable ns] two_threads_reachable ns
    by (auto simp: two_threads_run_def)
qed

end
