(* ===== verification/Crdt_Counters.thy ===== *)
theory Crdt_Counters
  imports Crdt_Replicas Saturation Hybrid_Clock
begin

text \<open>
  The replicated values of \<^verbatim>\<open>crucible/canopy/Crdt.h\<close> whose merge never refuses: the last-writer-wins
  register and the two counters.  A counter over $N$ replicas is a list of $N$ saturating 64-bit
  counts.
\<close>

section \<open>Last-writer-wins register\<close>

record ('v, 'c) lww_state =
  lww_value :: 'v
  lww_clock :: 'c
  lww_has_value :: bool

definition lww_empty :: "('v::zero, 'c::zero) lww_state" where
  "lww_empty = \<lparr>lww_value = 0, lww_clock = 0, lww_has_value = False\<rparr>"

definition lww_merge :: "('v::linorder, 'c::linorder) lww_state \<Rightarrow> ('v, 'c) lww_state \<Rightarrow> ('v, 'c) lww_state" where
  "lww_merge a b =
    (if \<not> lww_has_value a then b
     else if \<not> lww_has_value b then a
     else if lww_clock a < lww_clock b then b
     else if lww_clock a > lww_clock b then a
     else if lww_value b < lww_value a then a else b)"

definition lww_assign :: "'v \<times> 'c \<Rightarrow> ('v::linorder, 'c::linorder) lww_state \<Rightarrow> bool \<times> ('v, 'c) lww_state" where
  "lww_assign w s = (True, lww_merge s \<lparr>lww_value = fst w, lww_clock = snd w, lww_has_value = True\<rparr>)"

definition lww_merge_from :: "('v::linorder, 'c::linorder) lww_state \<Rightarrow> ('v, 'c) lww_state \<Rightarrow> bool \<times> ('v, 'c) lww_state" where
  "lww_merge_from s t = (True, lww_merge s t)"

definition lww_read :: "('v, 'c) lww_state \<Rightarrow> 'v option" where
  "lww_read s = (if \<not> lww_has_value s then None else Some (lww_value s))"

text \<open>The merge is the maximum of a linear order.\<close>

definition lww_valid :: "('v::{linorder,zero}, 'c::{linorder,zero}) lww_state \<Rightarrow> bool" where
  "lww_valid s \<longleftrightarrow> lww_has_value s \<or> s = lww_empty"

definition lww_le :: "('v::linorder, 'c::linorder) lww_state \<Rightarrow> ('v, 'c) lww_state \<Rightarrow> bool" where
  "lww_le a b \<longleftrightarrow> \<not> lww_has_value a \<or> lww_has_value b
     \<and> (lww_clock a < lww_clock b \<or> lww_clock a = lww_clock b \<and> lww_value a \<le> lww_value b)"

lemma lww_merge_max: "lww_valid a \<Longrightarrow> lww_valid b \<Longrightarrow> lww_merge a b = (if lww_le a b then b else a)"
  by (auto simp: lww_merge_def lww_le_def lww_valid_def)

lemma lww_le_linear:
  "lww_le a a" "lww_le a b \<Longrightarrow> lww_le b c \<Longrightarrow> lww_le a c" "lww_le a b \<or> lww_le b a"
  by (auto simp: lww_le_def)

lemma lww_le_antisym: "lww_valid a \<Longrightarrow> lww_valid b \<Longrightarrow> lww_le a b \<Longrightarrow> lww_le b a \<Longrightarrow> a = b"
  by (cases a; cases b) (auto simp: lww_le_def lww_valid_def lww_empty_def)

lemma lww_valid_empty [simp]: "lww_valid lww_empty"
  by (simp add: lww_valid_def)

lemma lww_empty_le: "lww_le lww_empty a"
  by (simp add: lww_le_def lww_empty_def)

lemma lww_valid_merge: "lww_valid a \<Longrightarrow> lww_valid b \<Longrightarrow> lww_valid (lww_merge a b)"
  by (simp add: lww_merge_max)

lemma lww_merge_assoc:
  assumes "lww_valid a" "lww_valid b" "lww_valid c"
  shows "lww_merge (lww_merge a b) c = lww_merge a (lww_merge b c)"
proof (cases "lww_le a b"; cases "lww_le b c")
  assume "\<not> lww_le a b" "\<not> lww_le b c"
  moreover from this have "\<not> lww_le a c \<or> a = c"
    using lww_le_linear(2,3) by blast
  ultimately show ?thesis
    using assms by (auto simp: lww_merge_max)
qed (use assms lww_le_linear(2)[of a b c] in \<open>auto simp: lww_merge_max\<close>)

lemma lww_lattice: "join_lattice lww_valid lww_merge lww_empty"
proof
  show "lww_merge a b = lww_merge b a" if "lww_valid a" "lww_valid b" for a b :: "('a, 'b) lww_state"
    using that lww_le_antisym lww_le_linear(3)[of a b] by (auto simp: lww_merge_max)
qed (simp_all add: lww_merge_assoc lww_valid_merge, simp_all add: lww_merge_def lww_valid_def lww_empty_def)

lemma lww_assign_law:
  assumes "lww_valid s" "lww_assign op s = (b, s')"
  shows "lww_valid s' \<and> (if b then \<exists>d. lww_valid d \<and> s' = lww_merge s d else s' = s)"
proof -
  define d where "d = \<lparr>lww_value = fst op, lww_clock = snd op, lww_has_value = True\<rparr>"
  have "lww_valid d"
    by (simp add: d_def lww_valid_def)
  moreover have "b" "s' = lww_merge s d"
    using assms(2) by (simp_all add: d_def lww_assign_def)
  ultimately show ?thesis
    using lww_valid_merge[OF assms(1)] by auto
qed

interpretation lww: crdt lww_valid lww_merge lww_empty lww_valid "\<lambda>s. s" lww_empty lww_assign lww_merge_from
proof (intro crdt.intro lww_lattice crdt_axioms.intro)
  show "lww_valid s' \<and> (if b then \<exists>d. lww_valid d \<and> s' = lww_merge s d else s' = s)"
    if "lww_valid s" "lww_assign op s = (b, s')" for s s' :: "('a, 'b) lww_state" and op b
    by (rule lww_assign_law[OF that])
qed (auto simp: lww_merge_from_def lww_valid_merge)


section \<open>Counters\<close>

record counter_update =
  cu_replica :: nat
  cu_amount :: u64

definition admit_counter_update :: "nat \<Rightarrow> nat \<Rightarrow> u64 \<Rightarrow> counter_update option" where
  "admit_counter_update max_replicas replica amount =
    (if replica \<ge> max_replicas \<or> amount = 0 then None else Some \<lparr>cu_replica = replica, cu_amount = amount\<rparr>)"

type_synonym gcounter_state = "u64 list"

definition gcounter_zero :: "nat \<Rightarrow> gcounter_state" where
  "gcounter_zero max_replicas = replicate max_replicas 0"

definition gcounter_add :: "counter_update \<Rightarrow> gcounter_state \<Rightarrow> gcounter_state" where
  "gcounter_add u counts = counts[cu_replica u := add_sat (counts ! cu_replica u) (cu_amount u)]"

definition saturating_total :: "u64 list \<Rightarrow> u64" where
  "saturating_total counts = foldl add_sat 0 counts"

definition gcounter_merge :: "gcounter_state \<Rightarrow> gcounter_state \<Rightarrow> gcounter_state" where
  "gcounter_merge a b = map2 (\<lambda>x y. if x < y then y else x) a b"

definition gcounter_increment :: "nat \<Rightarrow> nat \<times> u64 \<Rightarrow> gcounter_state \<Rightarrow> bool \<times> gcounter_state" where
  "gcounter_increment n op s =
    (case admit_counter_update n (fst op) (snd op) of None \<Rightarrow> (False, s) | Some u \<Rightarrow> (True, gcounter_add u s))"

definition gcounter_merge_from :: "gcounter_state \<Rightarrow> gcounter_state \<Rightarrow> bool \<times> gcounter_state" where
  "gcounter_merge_from s t = (True, gcounter_merge s t)"

record pncounter_state =
  pn_positive :: gcounter_state
  pn_negative :: gcounter_state

definition pncounter_zero :: "nat \<Rightarrow> pncounter_state" where
  "pncounter_zero n = \<lparr>pn_positive = gcounter_zero n, pn_negative = gcounter_zero n\<rparr>"

datatype pn_op = Increment "nat \<times> u64" | Decrement "nat \<times> u64"

fun pncounter_update :: "nat \<Rightarrow> pn_op \<Rightarrow> pncounter_state \<Rightarrow> bool \<times> pncounter_state" where
  "pncounter_update n (Increment op) s =
    (let (b, c) = gcounter_increment n op (pn_positive s) in (b, s\<lparr>pn_positive := c\<rparr>))"
| "pncounter_update n (Decrement op) s =
    (let (b, c) = gcounter_increment n op (pn_negative s) in (b, s\<lparr>pn_negative := c\<rparr>))"

definition pncounter_merge :: "pncounter_state \<Rightarrow> pncounter_state \<Rightarrow> pncounter_state" where
  "pncounter_merge a b =
    a\<lparr>pn_positive := gcounter_merge (pn_positive a) (pn_positive b),
      pn_negative := gcounter_merge (pn_negative a) (pn_negative b)\<rparr>"

definition pncounter_merge_from :: "pncounter_state \<Rightarrow> pncounter_state \<Rightarrow> bool \<times> pncounter_state" where
  "pncounter_merge_from s t = (True, pncounter_merge s t)"

definition pncounter_value :: "pncounter_state \<Rightarrow> int" where
  "pncounter_value s =
    (let pos = saturating_total (pn_positive s); neg = saturating_total (pn_negative s) in
     if pos \<ge> neg then
       let diff = pos - neg in if diff > word_of_int i64_max then i64_max else uint diff
     else
       let diff = neg - pos; min_abs = word_of_int i64_max + 1 in
       if diff \<ge> min_abs then i64_min else - uint diff)"

lemma length_gcounter_add [simp]: "length (gcounter_add u s) = length s"
  by (simp add: gcounter_add_def)

lemma gcounter_merge_nth:
  "length a = length b \<Longrightarrow> i < length a \<Longrightarrow> gcounter_merge a b ! i = max (a ! i) (b ! i)"
  by (auto simp: gcounter_merge_def max_def)

lemma length_gcounter_merge [simp]: "length (gcounter_merge a b) = min (length a) (length b)"
  by (simp add: gcounter_merge_def)

lemma gcounter_add_delta:
  "cu_replica u < length s \<Longrightarrow>
    gcounter_add u s = gcounter_merge s ((gcounter_zero (length s))[cu_replica u := gcounter_add u s ! cu_replica u])"
  using add_sat_ge[of "s ! cu_replica u" "cu_amount u"]
  by (intro nth_equalityI) (auto simp: gcounter_merge_nth gcounter_zero_def gcounter_add_def nth_list_update max_def)

lemma gcounter_increment_law:
  assumes "length s = n" "gcounter_increment n op s = (b, s')"
  shows "length s' = n \<and> (if b then \<exists>d. length d = n \<and> s' = gcounter_merge s d else s' = s)"
proof (cases "admit_counter_update n (fst op) (snd op)")
  case None
  then show ?thesis
    using assms by (auto simp: gcounter_increment_def)
next
  case (Some u)
  then have "s' = gcounter_add u s" "b" "cu_replica u < length s"
    using assms by (auto simp: gcounter_increment_def admit_counter_update_def split: if_splits)
  then have "s' = gcounter_merge s ((gcounter_zero (length s))[cu_replica u := gcounter_add u s ! cu_replica u])"
      (is "_ = gcounter_merge s ?d") and "b"
    using gcounter_add_delta[of u s] by simp_all
  moreover have "length ?d = n"
    using assms(1) by (simp add: gcounter_zero_def)
  ultimately show ?thesis
    using assms(1) by (metis length_gcounter_merge min.idem)
qed

lemma gcounter_lattice: "join_lattice (\<lambda>s. length s = n) gcounter_merge (gcounter_zero n)"
  by unfold_locales (auto simp: gcounter_zero_def list_eq_iff_nth_eq gcounter_merge_nth max.commute max.left_commute)


interpretation gcounter: crdt "\<lambda>s. length s = n" gcounter_merge "gcounter_zero n" "\<lambda>s. length s = n" "\<lambda>s. s"
  "gcounter_zero n" "gcounter_increment n" gcounter_merge_from for n
proof (intro crdt.intro gcounter_lattice crdt_axioms.intro)
  show "length s' = n \<and> (if b then \<exists>d. length d = n \<and> s' = gcounter_merge s d else s' = s)"
    if "length s = n" "gcounter_increment n op s = (b, s')" for s s' op b
    by (rule gcounter_increment_law[OF that])
qed (auto simp: gcounter_zero_def gcounter_merge_from_def)

definition pncounter_valid :: "nat \<Rightarrow> pncounter_state \<Rightarrow> bool" where
  "pncounter_valid n s \<longleftrightarrow> length (pn_positive s) = n \<and> length (pn_negative s) = n"

lemma pncounter_lattice: "join_lattice (pncounter_valid n) pncounter_merge (pncounter_zero n)"
proof
  show "pncounter_merge a b = pncounter_merge b a" if "pncounter_valid n a" "pncounter_valid n b" for a b
    using that gcounter.join_comm by (cases a; cases b) (simp add: pncounter_merge_def pncounter_valid_def)
qed (auto simp: pncounter_valid_def pncounter_merge_def pncounter_zero_def gcounter.carr_bot
      gcounter.join_assoc gcounter.join_idem gcounter.join_bot)

lemma pncounter_merge_lift:
  assumes "pncounter_valid n s" "length d = n"
  shows "s\<lparr>pn_positive := gcounter_merge (pn_positive s) d\<rparr> = pncounter_merge s \<lparr>pn_positive = d, pn_negative = pn_negative s\<rparr>"
    "s\<lparr>pn_negative := gcounter_merge (pn_negative s) d\<rparr> = pncounter_merge s \<lparr>pn_positive = pn_positive s, pn_negative = d\<rparr>"
    "pncounter_valid n \<lparr>pn_positive = d, pn_negative = pn_negative s\<rparr>"
    "pncounter_valid n \<lparr>pn_positive = pn_positive s, pn_negative = d\<rparr>"
  using assms gcounter.join_idem by (simp_all add: pncounter_merge_def pncounter_valid_def)

lemma pncounter_update_law:
  assumes "pncounter_valid n s" "pncounter_update n op s = (b, s')"
  shows "pncounter_valid n s' \<and> (if b then \<exists>d. pncounter_valid n d \<and> s' = pncounter_merge s d else s' = s)"
proof (cases op)
  case (Increment x)
  obtain c where c: "gcounter_increment n x (pn_positive s) = (b, c)" "s' = s\<lparr>pn_positive := c\<rparr>"
    using assms(2) by (auto simp: Increment split: prod.splits)
  then have "length c = n" and "if b then \<exists>d. length d = n \<and> c = gcounter_merge (pn_positive s) d else c = pn_positive s"
    using gcounter_increment_law[OF _ c(1)] assms(1) by (simp_all add: pncounter_valid_def)
  moreover from this(1) have "pncounter_valid n s'"
    using assms(1) by (simp add: c(2) pncounter_valid_def)
  ultimately show ?thesis
    using c(2) pncounter_merge_lift(1,3)[OF assms(1)] by (auto split: if_splits)
next
  case (Decrement x)
  obtain c where c: "gcounter_increment n x (pn_negative s) = (b, c)" "s' = s\<lparr>pn_negative := c\<rparr>"
    using assms(2) by (auto simp: Decrement split: prod.splits)
  then have "length c = n" and "if b then \<exists>d. length d = n \<and> c = gcounter_merge (pn_negative s) d else c = pn_negative s"
    using gcounter_increment_law[OF _ c(1)] assms(1) by (simp_all add: pncounter_valid_def)
  moreover from this(1) have "pncounter_valid n s'"
    using assms(1) by (simp add: c(2) pncounter_valid_def)
  ultimately show ?thesis
    using c(2) pncounter_merge_lift(2,4)[OF assms(1)] by (auto split: if_splits)
qed

interpretation pncounter: crdt "pncounter_valid n" pncounter_merge "pncounter_zero n" "pncounter_valid n" "\<lambda>s. s"
  "pncounter_zero n" "pncounter_update n" pncounter_merge_from for n
proof (intro crdt.intro pncounter_lattice crdt_axioms.intro)
  show "pncounter_valid n s' \<and> (if b then \<exists>d. pncounter_valid n d \<and> s' = pncounter_merge s d else s' = s)"
    if "pncounter_valid n s" "pncounter_update n op s = (b, s')" for s s' op b
    by (rule pncounter_update_law[OF that])
qed (auto simp: pncounter_valid_def pncounter_zero_def gcounter_zero_def pncounter_merge_from_def pncounter_merge_def)



section \<open>Values\<close>

lemma saturating_total_exact: "unat (saturating_total counts) = min (sum_list (map unat counts)) (2 ^ 64 - 1)"
proof -
  have "unat (foldl add_sat acc counts) = min (unat acc + sum_list (map unat counts)) (2 ^ 64 - 1)" for acc
  proof (induction counts arbitrary: acc)
    case Nil
    then show ?case
      using unat_lt_pow[of acc] by simp
  qed (auto simp: unat_add_sat min_def)
  then show ?thesis
    by (simp add: saturating_total_def)
qed

lemma gcounter_total_add:
  assumes "cu_replica u < length s"
  shows "saturating_total (gcounter_add u s) = add_sat (saturating_total s) (cu_amount u)"
proof -
  let ?i = "cu_replica u" and ?c = "map unat s"
  have "sum_list (map unat (gcounter_add u s)) = sum_list ?c + min (unat (s ! ?i) + unat (cu_amount u)) (2 ^ 64 - 1) - unat (s ! ?i)"
    using assms sum_list_update[of ?i ?c "unat (add_sat (s ! ?i) (cu_amount u))"]
    by (simp add: gcounter_add_def map_update unat_add_sat)
  moreover have "unat (s ! ?i) \<le> sum_list ?c"
    using assms elem_le_sum_list[of ?i ?c] by simp
  ultimately have "unat (saturating_total (gcounter_add u s)) = unat (add_sat (saturating_total s) (cu_amount u))"
    by (simp add: saturating_total_exact unat_add_sat)
  then show ?thesis
    by (rule unsigned_word_eqI)
qed

lemma pncounter_value_clamped:
  "pncounter_value s =
    max i64_min (min i64_max (uint (saturating_total (pn_positive s)) - uint (saturating_total (pn_negative s))))"
proof -
  let ?p = "saturating_total (pn_positive s)" and ?n = "saturating_total (pn_negative s)"
  have lim: "uint (word_of_int i64_max :: u64) = 2 ^ 63 - 1" "uint (word_of_int i64_max + 1 :: u64) = 2 ^ 63"
    by (simp_all add: i64_max_def)
  have "uint (?p - ?n) = uint ?p - uint ?n" if "?n \<le> ?p"
    using that by (simp add: uint_minus_simple_alt)
  moreover have "uint (?n - ?p) = uint ?n - uint ?p" if "\<not> ?n \<le> ?p"
  proof -
    have "?p \<le> ?n"
      using that by simp
    then show ?thesis
      by (simp add: uint_minus_simple_alt)
  qed
  ultimately show ?thesis
    by (auto simp: pncounter_value_def Let_def word_less_def word_le_def lim i64_max_def i64_min_def)
qed

text \<open>C23.  The replicated values converge: two replicas of a grow-only counter, of an
  increment-decrement counter or of a last-writer-wins register that know the same updates hold
  the same state, whatever the order in which updates and gossiped states, late or repeated,
  reached them.\<close>

theorem crdt_values_converge:
  "(crdt_run (gcounter_increment n) gcounter_merge_from (gcounter_zero n) k G M1 \<and> snd (G i) = snd (G j)
      \<longrightarrow> fst (G i) = fst (G j))
   \<and> (crdt_run (pncounter_update n) pncounter_merge_from (pncounter_zero n) k P M2 \<and> snd (P i) = snd (P j)
      \<longrightarrow> fst (P i) = fst (P j))
   \<and> (crdt_run lww_assign lww_merge_from lww_empty k L M3 \<and> snd (L i) = snd (L j) \<longrightarrow> fst (L i) = fst (L j))"
  using gcounter.converge[of n k G M1 i j] pncounter.converge[of n k P M2 i j] lww.converge[of k L M3 i j] by simp

lemma gcounter_zero_2: "gcounter_zero 2 = [0, 0]"
  by (simp add: gcounter_zero_def numeral_2_eq_2)

lemmas sample_counter_simps = gcounter_increment_def admit_counter_update_def gcounter_add_def add_sat_def
  Saturation.overflow_defs gcounter_merge_def gcounter_zero_2

lemma sample_gcounter_run:
  "\<exists>G M. crdt_run (gcounter_increment 2) gcounter_merge_from (gcounter_zero 2) 2 G M
     \<and> G 0 = ([5, 7], {0, 1}) \<and> G 1 = ([5, 7], {0, 1})"
  by (rule exchange_run[of _ "(0, 5)" _ "[5, 0]" "(1, 7)" "[0, 7]"])
    (simp_all add: sample_counter_simps gcounter_merge_from_def)

lemma sample_pncounter_run:
  "\<exists>P M. crdt_run (pncounter_update 2) pncounter_merge_from (pncounter_zero 2) 2 P M
     \<and> P 0 = (\<lparr>pn_positive = [5, 0], pn_negative = [0, 7]\<rparr>, {0, 1})
     \<and> P 1 = (\<lparr>pn_positive = [5, 0], pn_negative = [0, 7]\<rparr>, {0, 1})"
  by (rule exchange_run[of _ "Increment (0, 5)" _ "\<lparr>pn_positive = [5, 0], pn_negative = [0, 0]\<rparr>"
        "Decrement (1, 7)" "\<lparr>pn_positive = [0, 0], pn_negative = [0, 7]\<rparr>"])
    (simp_all add: sample_counter_simps pncounter_merge_from_def pncounter_merge_def pncounter_zero_def)

definition sample_write :: "u64 \<Rightarrow> u32 \<Rightarrow> (u64, hlc_timestamp) lww_state" where
  "sample_write v c = \<lparr>lww_value = v, lww_clock = Hlc_Timestamp 3 c, lww_has_value = True\<rparr>"

lemma sample_lww_run:
  "\<exists>L M. crdt_run lww_assign lww_merge_from lww_empty 2 L M
     \<and> L 0 = (sample_write 7 1, {0, 1}) \<and> L 1 = (sample_write 7 1, {0, 1})"
  by (rule exchange_run[of _ "(9, Hlc_Timestamp 3 0)" _ "sample_write 9 0" "(7, Hlc_Timestamp 3 1)" "sample_write 7 1"])
    (simp_all add: lww_assign_def lww_merge_from_def lww_merge_def lww_empty_def sample_write_def hlc_order)

theorem crdt_values_converge_witness:
  "(\<exists>G M. crdt_run (gcounter_increment 2) gcounter_merge_from (gcounter_zero 2) 2 G M \<and> snd (G 0) = snd (G 1)
      \<and> fst (G 0) = [5, 7] \<and> fst (G 1) = [5, 7])
   \<and> (\<exists>P M. crdt_run (pncounter_update 2) pncounter_merge_from (pncounter_zero 2) 2 P M \<and> snd (P 0) = snd (P 1)
      \<and> fst (P 1) = \<lparr>pn_positive = [5, 0], pn_negative = [0, 7]\<rparr>)
   \<and> (\<exists>L M. crdt_run lww_assign lww_merge_from lww_empty 2 L M \<and> snd (L 0) = snd (L 1)
      \<and> lww_read (fst (L 1)) = Some (7 :: u64) \<and> lww_clock (fst (L 1)) = Hlc_Timestamp 3 1)"
proof -
  obtain G M1 P M2 L M3 where runs:
      "crdt_run (gcounter_increment 2) gcounter_merge_from (gcounter_zero 2) 2 G M1"
      "G 0 = ([5, 7], {0, 1})" "snd (G 1) = {0, 1}"
      "crdt_run (pncounter_update 2) pncounter_merge_from (pncounter_zero 2) 2 P M2"
      "P 0 = (\<lparr>pn_positive = [5, 0], pn_negative = [0, 7]\<rparr>, {0, 1})" "snd (P 1) = {0, 1}"
      "crdt_run lww_assign lww_merge_from lww_empty 2 L M3"
      "L 0 = (sample_write 7 1, {0, 1})" "snd (L 1) = {0, 1}"
    using sample_gcounter_run sample_pncounter_run sample_lww_run by (metis snd_conv)
  have "fst (G 1) = [5, 7]" "fst (P 1) = \<lparr>pn_positive = [5, 0], pn_negative = [0, 7]\<rparr>" "fst (L 1) = sample_write 7 1"
    using crdt_values_converge[of 2 2 G M1 0 1 P M2 L M3] runs by simp_all
  moreover have "lww_read (sample_write 7 1) = Some 7" "lww_clock (sample_write 7 1) = Hlc_Timestamp 3 1"
    by (simp_all add: lww_read_def sample_write_def)
  ultimately show ?thesis
    using runs by (metis fst_conv snd_conv)
qed

end
