(* ===== verification/Crdt_Hash_Set.thy ===== *)
theory Crdt_Hash_Set
  imports Crdt_Replicas Hash_Mix
begin

text \<open>
  The grow-only set of \<^verbatim>\<open>crucible/canopy/Crdt.h\<close> and the open-addressing table beneath it
  (\<^verbatim>\<open>BoundedHashSetState\<close>).  A slot is an optional value; the values are 64-bit integers, the type to
  which \<^verbatim>\<open>stable_hash\<close> converts every admitted value.  The capacity is a parameter.
\<close>

section \<open>The table\<close>

definition stable_hash :: "u64 \<Rightarrow> u64" where
  "stable_hash value = fmix64 value"

definition commit_merge :: "('s \<Rightarrow> 's \<Rightarrow> bool \<times> 's) \<Rightarrow> 's \<Rightarrow> 's \<Rightarrow> bool \<times> 's" where
  "commit_merge merge_into target incoming =
    (let (b, staged) = merge_into target incoming in if \<not> b then (False, target) else (True, staged))"

record hash_set =
  hset_slots :: "u64 option list"
  hset_count :: nat

definition hset_empty :: "nat \<Rightarrow> hash_set" where
  "hset_empty cap = \<lparr>hset_slots = replicate cap None, hset_count = 0\<rparr>"

definition hset_well_formed :: "hash_set \<Rightarrow> bool" where
  "hset_well_formed h \<longleftrightarrow> length (filter (\<lambda>s. s \<noteq> None) (hset_slots h)) = hset_count h"

definition probe :: "nat \<Rightarrow> u64 \<Rightarrow> nat \<Rightarrow> nat" where
  "probe cap value n = (unat (stable_hash value) mod cap + n) mod cap"

fun contains_from :: "u64 \<Rightarrow> hash_set \<Rightarrow> nat list \<Rightarrow> bool" where
  "contains_from value h [] = False"
| "contains_from value h (idx # idxs) =
    (case hset_slots h ! idx of
       None \<Rightarrow> False
     | Some w \<Rightarrow> if w = value then True else contains_from value h idxs)"

definition hset_contains :: "nat \<Rightarrow> u64 \<Rightarrow> hash_set \<Rightarrow> bool" where
  "hset_contains cap value h = contains_from value h (map (probe cap value) [0..<cap])"

fun insert_from :: "nat \<Rightarrow> u64 \<Rightarrow> hash_set \<Rightarrow> nat list \<Rightarrow> bool \<times> hash_set" where
  "insert_from cap value h [] = (False, h)"
| "insert_from cap value h (idx # idxs) =
    (case hset_slots h ! idx of
       Some w \<Rightarrow> if w = value then (True, h) else insert_from cap value h idxs
     | None \<Rightarrow>
         if hset_count h \<ge> cap then (False, h)
         else (True, h\<lparr>hset_slots := (hset_slots h)[idx := Some value], hset_count := hset_count h + 1\<rparr>))"

definition hset_insert :: "nat \<Rightarrow> u64 \<Rightarrow> hash_set \<Rightarrow> bool \<times> hash_set" where
  "hset_insert cap value h = insert_from cap value h (map (probe cap value) [0..<cap])"

fun merge_slots :: "nat \<Rightarrow> u64 option list \<Rightarrow> hash_set \<Rightarrow> bool \<times> hash_set" where
  "merge_slots cap [] h = (True, h)"
| "merge_slots cap (None # slots) h = merge_slots cap slots h"
| "merge_slots cap (Some v # slots) h =
    (let (b, h') = hset_insert cap v h in if \<not> b then (False, h') else merge_slots cap slots h')"

definition hset_merge :: "nat \<Rightarrow> hash_set \<Rightarrow> hash_set \<Rightarrow> bool \<times> hash_set" where
  "hset_merge cap h other =
    (if \<not> hset_well_formed other then (False, h) else merge_slots cap (hset_slots other) h)"

definition hset_equal :: "nat \<Rightarrow> hash_set \<Rightarrow> hash_set \<Rightarrow> bool" where
  "hset_equal cap a b \<longleftrightarrow> hset_count a = hset_count b
     \<and> list_all (\<lambda>s. case s of None \<Rightarrow> True | Some v \<Rightarrow> hset_contains cap v b) (hset_slots a)"

definition gset_add :: "nat \<Rightarrow> u64 \<Rightarrow> hash_set \<Rightarrow> bool \<times> hash_set" where
  "gset_add cap value h = hset_insert cap value h"

definition gset_merge :: "nat \<Rightarrow> hash_set \<Rightarrow> hash_set \<Rightarrow> bool \<times> hash_set" where
  "gset_merge cap h other = commit_merge (hset_merge cap) h other"

definition gset_merge_states :: "nat \<Rightarrow> hash_set \<Rightarrow> hash_set \<Rightarrow> hash_set" where
  "gset_merge_states cap a b = (if hset_well_formed a then snd (commit_merge (hset_merge cap) a b) else a)"

definition crdt_count :: "nat \<Rightarrow> nat \<Rightarrow> nat checked" where
  "crdt_count cap live = (if live \<le> cap then ok live else fail Contract_violation)"

definition gset_size :: "nat \<Rightarrow> hash_set \<Rightarrow> nat checked" where
  "gset_size cap h = crdt_count cap (hset_count h)"


section \<open>The table as a set\<close>

definition hset_values :: "hash_set \<Rightarrow> u64 set" where
  "hset_values h = {v. Some v \<in> set (hset_slots h)}"

definition passes :: "nat \<Rightarrow> hash_set \<Rightarrow> u64 \<Rightarrow> nat \<Rightarrow> bool" where
  "passes cap h v n \<longleftrightarrow> hset_slots h ! probe cap v n \<noteq> None \<and> hset_slots h ! probe cap v n \<noteq> Some v"

definition hset_valid :: "nat \<Rightarrow> hash_set \<Rightarrow> bool" where
  "hset_valid cap h \<longleftrightarrow> 0 < cap \<and> length (hset_slots h) = cap \<and> hset_well_formed h
     \<and> (\<forall>i < cap. \<forall>v. hset_slots h ! i = Some v \<longrightarrow> (\<exists>d < cap. i = probe cap v d \<and> (\<forall>n < d. passes cap h v n)))"

lemma hset_values_nth: "v \<in> hset_values h \<longleftrightarrow> (\<exists>i < length (hset_slots h). hset_slots h ! i = Some v)"
  by (auto simp: hset_values_def in_set_conv_nth)

definition occupied_slots :: "hash_set \<Rightarrow> nat set" where
  "occupied_slots h = {i. i < length (hset_slots h) \<and> hset_slots h ! i \<noteq> None}"

lemma hset_well_formed_card: "hset_well_formed h \<longleftrightarrow> card (occupied_slots h) = hset_count h"
  by (simp add: hset_well_formed_def occupied_slots_def length_filter_conv_card)

lemma occupied_finite [simp]: "finite (occupied_slots h)"
  by (simp add: occupied_slots_def)

lemma probe_less [simp]: "0 < cap \<Longrightarrow> probe cap v n < cap"
  by (simp add: probe_def)

lemma probe_surj:
  assumes "i < cap"
  shows "\<exists>n < cap. probe cap v n = i"
proof -
  let ?s = "unat (stable_hash v) mod cap"
  have "?s < cap"
    using assms by simp
  show ?thesis
  proof (cases "?s \<le> i")
    case True
    then show ?thesis
      using assms by (intro exI[of _ "i - ?s"]) (simp add: probe_def)
  next
    case False
    then have "?s + (cap + i - ?s) = i + cap" "cap + i - ?s < cap"
      using \<open>?s < cap\<close> by linarith+
    then show ?thesis
      using assms by (intro exI[of _ "cap + i - ?s"]) (simp add: probe_def)
  qed
qed

text \<open>Both loops stop at the first slot that is empty or holds the value.\<close>

lemma contains_from_skip:
  "list_all (passes cap h v) ns \<Longrightarrow> contains_from v h (map (probe cap v) (ns @ ms)) = contains_from v h (map (probe cap v) ms)"
  by (induction ns) (auto simp: passes_def)

lemma insert_from_skip:
  "list_all (passes cap h v) ns \<Longrightarrow> insert_from c v h (map (probe cap v) (ns @ ms)) = insert_from c v h (map (probe cap v) ms)"
  by (induction ns) (auto simp: passes_def)

lemma first_stop:
  assumes "0 < cap"
  obtains (all) "\<forall>n < cap. passes cap h v n"
  | (stop) d where "d < cap" "\<forall>n < d. passes cap h v n" "\<not> passes cap h v d"
proof (cases "\<forall>n < cap. passes cap h v n")
  case False
  then obtain n where n: "n < cap" "\<not> passes cap h v n"
    by blast
  obtain d where d: "\<not> passes cap h v d" "\<forall>m < d. passes cap h v m"
    using n(2) exists_least_iff[of "\<lambda>n. \<not> passes cap h v n"] by blast
  moreover have "d \<le> n"
    using n(2) d(2) by (meson not_less)
  ultimately show thesis
    using n(1) by (intro stop[of d]) simp_all
qed (use all in blast)

lemma upt_split_at: "d < cap \<Longrightarrow> [0..<cap] = [0..<d] @ d # [Suc d..<cap]"
  using upt_add_eq_append[of 0 d "cap - d"] by (simp add: upt_conv_Cons)

lemma hset_contains_stop:
  assumes "d < cap" "\<forall>n < d. passes cap h v n"
  shows "hset_contains cap v h = contains_from v h (map (probe cap v) (d # [Suc d..<cap]))"
  unfolding hset_contains_def upt_split_at[OF assms(1)]
  by (rule contains_from_skip) (simp add: list_all_iff assms(2))

lemma hset_insert_stop:
  assumes "d < cap" "\<forall>n < d. passes cap h v n"
  shows "hset_insert cap v h = insert_from cap v h (map (probe cap v) (d # [Suc d..<cap]))"
  unfolding hset_insert_def upt_split_at[OF assms(1)]
  by (rule insert_from_skip) (simp add: list_all_iff assms(2))

lemma value_found:
  assumes "hset_valid cap h" "v \<in> hset_values h"
  shows "\<exists>d < cap. hset_slots h ! probe cap v d = Some v \<and> (\<forall>n < d. passes cap h v n)"
  using assms by (auto simp: hset_valid_def hset_values_def in_set_conv_nth) metis

lemma value_absent:
  assumes "0 < cap" "length (hset_slots h) = cap" "v \<notin> hset_values h"
  shows "hset_slots h ! probe cap v n \<noteq> Some v"
  using assms unfolding hset_values_def by (metis mem_Collect_eq nth_mem probe_less)

lemma hset_contains_iff:
  assumes "hset_valid cap h"
  shows "hset_contains cap v h \<longleftrightarrow> v \<in> hset_values h"
proof (cases "v \<in> hset_values h")
  case True
  obtain d where "d < cap" "hset_slots h ! probe cap v d = Some v" "\<forall>n < d. passes cap h v n"
    using value_found[OF assms True] by blast
  then show ?thesis
    using True by (simp add: hset_contains_stop)
next
  case False
  have cap: "0 < cap" "length (hset_slots h) = cap"
    using assms by (auto simp: hset_valid_def)
  have "\<not> contains_from v h (map (probe cap v) ns)" for ns
    using value_absent[OF cap False] by (induction ns) (auto split: option.splits)
  then show ?thesis
    using False by (simp add: hset_contains_def)
qed


lemma value_unique:
  assumes "hset_valid cap h" "i < cap" "j < cap" "hset_slots h ! i = Some v" "hset_slots h ! j = Some v"
  shows "i = j"
proof -
  obtain d e where d: "i = probe cap v d" "\<forall>n < d. passes cap h v n" and e: "j = probe cap v e" "\<forall>n < e. passes cap h v n"
    using assms unfolding hset_valid_def by metis
  have "\<not> d < e" "\<not> e < d"
    using assms(4,5) d e by (auto simp: passes_def)
  then show ?thesis
    using d(1) e(1) by (simp add: nat_neq_iff)
qed

lemma hset_count_card:
  assumes "hset_valid cap h"
  shows "hset_count h = card (hset_values h)" "hset_count h \<le> cap"
proof -
  let ?f = "\<lambda>i. the (hset_slots h ! i)"
  have len: "length (hset_slots h) = cap" and count: "hset_count h = card (occupied_slots h)"
    using assms by (simp_all add: hset_valid_def hset_well_formed_card)
  have "inj_on ?f (occupied_slots h)"
    using value_unique[OF assms] len by (fastforce simp: inj_on_def occupied_slots_def)
  moreover have "?f ` occupied_slots h = hset_values h"
    by (force simp: hset_values_nth occupied_slots_def)
  ultimately show "hset_count h = card (hset_values h)"
    using count card_image by metis
  show "hset_count h \<le> cap"
    using count len card_mono[of "{..<cap}" "occupied_slots h"] by (auto simp: occupied_slots_def)
qed

lemma hset_full:
  assumes "hset_valid cap h" "\<forall>n < cap. passes cap h v n"
  shows "hset_count h = cap" "v \<notin> hset_values h"
proof -
  have "hset_slots h ! i \<noteq> None" if "i < cap" for i
    using probe_surj[OF that, of v] assms(2) by (auto simp: passes_def)
  then have "filter (\<lambda>s. s \<noteq> None) (hset_slots h) = hset_slots h"
    using assms(1) by (auto simp: hset_valid_def in_set_conv_nth filter_id_conv)
  then show "hset_count h = cap"
    using assms(1) by (simp add: hset_valid_def hset_well_formed_def)
  show "v \<notin> hset_values h"
    using value_found[OF assms(1)] assms(2) by (auto simp: passes_def)
qed

text \<open>A new value goes to the first empty slot of its probe sequence.\<close>

lemma hset_store:
  assumes "hset_valid cap h" "d < cap" "\<forall>n < d. passes cap h v n" "hset_slots h ! probe cap v d = None"
    and "h' = h\<lparr>hset_slots := (hset_slots h)[probe cap v d := Some v], hset_count := hset_count h + 1\<rparr>"
  shows "hset_valid cap h'" "hset_values h' = insert v (hset_values h)" "v \<notin> hset_values h" "hset_count h < cap"
proof -
  let ?p = "probe cap v d"
  have cap: "0 < cap" "length (hset_slots h) = cap" "?p < cap"
    using assms(1) by (auto simp: hset_valid_def)
  show absent: "v \<notin> hset_values h"
  proof
    assume "v \<in> hset_values h"
    then obtain e where "hset_slots h ! probe cap v e = Some v" "\<forall>n < e. passes cap h v n"
      using value_found[OF assms(1)] by blast
    then show False
      using assms(3,4) by (cases "d < e"; cases "e < d") (auto simp: passes_def nat_neq_iff)
  qed
  have nth': "hset_slots h' ! i = (if i = ?p then Some v else hset_slots h ! i)" if "i < cap" for i
    using that cap by (simp add: assms(5))
  have len': "length (hset_slots h') = cap"
    using cap by (simp add: assms(5))
  have "(\<exists>i < cap. hset_slots h' ! i = Some w) \<longleftrightarrow> w = v \<or> (\<exists>i < cap. hset_slots h ! i = Some w)" for w
    using nth' cap(3) assms(4) by (metis option.distinct(1) option.inject)
  then show "hset_values h' = insert v (hset_values h)"
    using len' cap(2) by (simp add: hset_values_nth set_eq_iff)
  have occ: "occupied_slots h' = insert ?p (occupied_slots h)" "?p \<notin> occupied_slots h"
    using nth' len' cap assms(4) by (auto simp: occupied_slots_def)
  have "occupied_slots h \<subseteq> {..<cap} - {?p}"
    using cap(2) occ(2) by (auto simp: occupied_slots_def)
  then have "card (occupied_slots h) \<le> cap - 1"
    using card_mono[of "{..<cap} - {?p}" "occupied_slots h"] cap(3) by simp
  then show "hset_count h < cap"
    using assms(1) cap(1) by (simp add: hset_valid_def hset_well_formed_card)
  have pass': "passes cap h' w n" if "passes cap h w n" for w n
    using that nth'[of "probe cap w n"] cap(1) assms(4) by (auto simp: passes_def)
  have "\<exists>e < cap. i = probe cap w e \<and> (\<forall>n < e. passes cap h' w n)" if i: "i < cap" "hset_slots h' ! i = Some w" for i w
  proof (cases "i = ?p")
    case True
    then show ?thesis
      using i assms(2,3) nth' pass' by auto
  next
    case False
    then have "hset_slots h ! i = Some w"
      using i nth' by simp
    then obtain e where "e < cap" "i = probe cap w e" "\<forall>n < e. passes cap h w n"
      using assms(1) i(1) unfolding hset_valid_def by metis
    then show ?thesis
      using pass' by auto
  qed
  then show "hset_valid cap h'"
    using assms(1) len' occ by (auto simp: hset_valid_def hset_well_formed_card assms(5))
qed

lemma hset_insert_spec:
  assumes "hset_valid cap h" "hset_insert cap v h = (b, h')"
  shows "hset_valid cap h' \<and> (b \<longleftrightarrow> v \<in> hset_values h \<or> hset_count h < cap)
     \<and> (if b then hset_values h' = insert v (hset_values h) else h' = h)"
proof -
  have "0 < cap"
    using assms(1) by (simp add: hset_valid_def)
  then show ?thesis
  proof (cases rule: first_stop[of cap h v])
    case all
    have "insert_from cap v h (map (probe cap v) [0..<cap]) = (False, h)"
      using insert_from_skip[of cap h v "[0..<cap]" cap "[]"] all by (simp add: list_all_iff)
    then show ?thesis
      using assms hset_full[OF assms(1) all] by (simp add: hset_insert_def)
  next
    case (stop d)
    then consider "hset_slots h ! probe cap v d = Some v" | "hset_slots h ! probe cap v d = None"
      by (auto simp: passes_def)
    then show ?thesis
    proof cases
      case 1
      have "v \<in> hset_values h"
        using 1 value_absent[OF \<open>0 < cap\<close>] assms(1) unfolding hset_valid_def by blast
      then show ?thesis
        using assms 1 hset_insert_stop[OF stop(1,2)] by auto
    next
      case 2
      note store = hset_store[OF assms(1) stop(1,2) 2 refl]
      show ?thesis
        using assms(2) 2 hset_insert_stop[OF stop(1,2)] store by auto
    qed
  qed
qed


lemma merge_slots_spec:
  assumes "hset_valid cap h" "merge_slots cap slots h = (b, h')"
  shows "hset_valid cap h' \<and> (b \<longrightarrow> hset_values h' = hset_values h \<union> {v. Some v \<in> set slots})
     \<and> (b \<longleftrightarrow> card (hset_values h \<union> {v. Some v \<in> set slots}) \<le> cap)"
  using assms
proof (induction cap slots h rule: merge_slots.induct)
  case (1 cap h)
  then show ?case
    using hset_count_card[OF "1.prems"(1)] by simp
next
  case (3 cap v slots h)
  let ?V = "hset_values h" and ?S = "{w. Some w \<in> set slots}"
  obtain c h1 where ins: "hset_insert cap v h = (c, h1)"
    by fastforce
  note spec = hset_insert_spec[OF "3.prems"(1) ins] and card = hset_count_card[OF "3.prems"(1)]
  have sets: "?V \<union> {w. Some w \<in> set (Some v # slots)} = insert v ?V \<union> ?S"
    by auto
  show ?case
  proof (cases c)
    case True
    then show ?thesis
      using 3 ins spec sets by simp
  next
    case False
    have fin: "finite (insert v ?V \<union> ?S)"
      using finite_subset[of "insert v ?V \<union> ?S" "insert v (the ` (set (hset_slots h) \<union> set slots))"]
      by (force simp: hset_values_def)
    have "cap < card (insert v ?V)"
      using False spec card fin by (auto simp: card_insert_if)
    then have "cap < card (insert v ?V \<union> ?S)"
      using card_mono[OF fin Un_upper1] by (rule less_le_trans)
    then show ?thesis
      using 3 ins False spec sets by simp
  qed
qed simp

lemma gset_merge_spec:
  assumes "hset_valid cap h" "gset_merge cap h t = (b, h')"
  shows "hset_valid cap h' \<and> (if b then hset_values h' = hset_values h \<union> hset_values t else h' = h)
     \<and> (b \<longleftrightarrow> hset_well_formed t \<and> card (hset_values h \<union> hset_values t) \<le> cap)"
proof (cases "hset_well_formed t")
  case True
  obtain c h1 where m: "merge_slots cap (hset_slots t) h = (c, h1)"
    by fastforce
  then show ?thesis
    using merge_slots_spec[OF assms(1) m] assms True
    by (auto simp: gset_merge_def commit_merge_def hset_merge_def hset_values_def split: if_splits)
next
  case False
  then show ?thesis
    using assms by (auto simp: gset_merge_def commit_merge_def hset_merge_def)
qed

lemma hset_valid_empty: "0 < cap \<Longrightarrow> hset_valid cap (hset_empty cap)"
  by (simp add: hset_valid_def hset_empty_def hset_well_formed_def)

lemma hset_values_empty [simp]: "hset_values (hset_empty cap) = {}"
  by (auto simp: hset_values_def hset_empty_def)

text \<open>The capacity of the template is positive.\<close>

interpretation gset: crdt finite "(\<union>)" "{}" "hset_valid (Suc n)" hset_values "hset_empty (Suc n)"
  "gset_add (Suc n)" "gset_merge (Suc n)" for n
proof
  show "finite (hset_values h)" if "hset_valid (Suc n) h" for h
    using finite_subset[of "hset_values h" "the ` set (hset_slots h)"] by (force simp: hset_values_def)
  show "hset_valid (Suc n) h' \<and> (if b then \<exists>d. finite d \<and> hset_values h' = hset_values h \<union> d else h' = h)"
    if "hset_valid (Suc n) h" "gset_add (Suc n) v h = (b, h')" for h h' v b
    using hset_insert_spec[of "Suc n" h v b h'] that by (auto simp: gset_add_def intro!: exI[of _ "{v}"])
  show "hset_valid (Suc n) h' \<and> (if b then hset_values h' = hset_values h \<union> hset_values t else h' = h)"
    if "hset_valid (Suc n) h" "hset_valid (Suc n) t" "gset_merge (Suc n) h t = (b, h')" for h t h' b
    using gset_merge_spec[OF that(1,3)] by auto
qed (auto simp: hset_valid_empty)

text \<open>The grow-only set implements a bounded mathematical set in every reachable state: membership
  is found by probing exactly for the stored values, an addition is refused only when the table is
  full and the value new, a merge with any received table whose count agrees with its slots yields
  the union exactly when the union fits and otherwise changes nothing, and the reported size is the
  number of values.\<close>

theorem gset_refines_set:
  assumes "crdt_run (gset_add (Suc n)) (gset_merge (Suc n)) (hset_empty (Suc n)) k R M" "h = fst (R i)"
  shows "(hset_contains (Suc n) v h \<longleftrightarrow> v \<in> hset_values h)
     \<and> gset_size (Suc n) h = ok (card (hset_values h))
     \<and> (gset_add (Suc n) v h = (b, h1) \<longrightarrow>
          (b \<longleftrightarrow> v \<in> hset_values h \<or> card (hset_values h) < Suc n)
          \<and> (if b then hset_values h1 = insert v (hset_values h) else h1 = h))
     \<and> (gset_merge (Suc n) h t = (c, h2) \<longrightarrow>
          (c \<longleftrightarrow> hset_well_formed t \<and> card (hset_values h \<union> hset_values t) \<le> Suc n)
          \<and> (if c then hset_values h2 = hset_values h \<union> hset_values t else h2 = h))"
proof -
  have valid: "hset_valid (Suc n) h"
    using gset.converge[OF assms(1) refl] assms(2) by simp
  show ?thesis
    using hset_contains_iff[OF valid] hset_count_card[OF valid] hset_insert_spec[OF valid, of v b h1]
      gset_merge_spec[OF valid, of t c h2]
    by (auto simp: gset_size_def crdt_count_def gset_add_def)
qed


lemma sample_gset_run:
  "\<exists>R M. crdt_run (gset_add (Suc 1)) (gset_merge (Suc 1)) (hset_empty (Suc 1)) 2 R M
     \<and> hset_values (fst (R 0)) = {1, 2} \<and> snd (R 0) = {0, 1} \<and> snd (R 1) = {0, 1}"
proof -
  let ?e = "hset_empty (Suc 1)"
  have count: "hset_count ?e = 0"
    by (simp add: hset_empty_def)
  obtain x a y b where add: "gset_add (Suc 1) 1 ?e = (x, a)" "gset_add (Suc 1) 2 ?e = (y, b)"
    by fastforce
  then have a: "x" "hset_valid (Suc 1) a" "hset_values a = {1}" and b: "y" "hset_valid (Suc 1) b" "hset_values b = {2}"
    using hset_insert_spec[OF hset_valid_empty, of "Suc 1" 1 x a] hset_insert_spec[OF hset_valid_empty, of "Suc 1" 2 y b] count
    by (auto simp: gset_add_def)
  obtain u c v d where merge: "gset_merge (Suc 1) a b = (u, c)" "gset_merge (Suc 1) b a = (v, d)"
    by fastforce
  then have "u" "v" "hset_values c = {1, 2}"
    using gset_merge_spec[OF a(2) merge(1)] gset_merge_spec[OF b(2) merge(2)] a b by (auto simp: hset_valid_def)
  then show ?thesis
    using exchange_run[of "gset_add (Suc 1)" 1 ?e a 2 b "gset_merge (Suc 1)" c d] add merge a(1) b(1) by fastforce
qed

theorem gset_refines_set_witness:
  "\<exists>R M. crdt_run (gset_add (Suc 1)) (gset_merge (Suc 1)) (hset_empty (Suc 1)) 2 R M
     \<and> hset_contains (Suc 1) 1 (fst (R 0)) \<and> \<not> hset_contains (Suc 1) 3 (fst (R 0))
     \<and> gset_size (Suc 1) (fst (R 0)) = ok 2 \<and> gset_add (Suc 1) 3 (fst (R 0)) = (False, fst (R 0))"
proof -
  obtain R M where run: "crdt_run (gset_add (Suc 1)) (gset_merge (Suc 1)) (hset_empty (Suc 1)) 2 R M"
      and vals: "hset_values (fst (R 0)) = {1, 2}"
    using sample_gset_run by blast
  obtain b h1 where add: "gset_add (Suc 1) 3 (fst (R 0)) = (b, h1)"
    by fastforce
  note refines = gset_refines_set[OF run refl, where i = 0]
  have "hset_contains (Suc 1) 1 (fst (R 0))" "\<not> hset_contains (Suc 1) 3 (fst (R 0))" "gset_size (Suc 1) (fst (R 0)) = ok 2"
    using refines[where v = 1] refines[where v = 3] vals by auto
  moreover have "gset_add (Suc 1) 3 (fst (R 0)) = (False, fst (R 0))"
    using refines[where v = 3 and b = b and ?h1.0 = h1] add vals by auto
  ultimately show ?thesis
    using run by blast
qed

end
