(* ===== verification/Crdt_Tagged.thy ===== *)
theory Crdt_Tagged
  imports Crdt_Hash_Set
begin

text \<open>
  The replicated collections of \<^verbatim>\<open>crucible/canopy/Crdt.h\<close> that keep tagged entries in a bounded array
  (\<^verbatim>\<open>BoundedTaggedState\<close>): what the observed-remove set and the replicated list share, as a locale
  over the key of an entry and the combination of two entries with the same key, and the
  observed-remove set.  The arrays have the capacity of the template; the count is separate from
  them, because a received state may carry any count.
\<close>

section \<open>Bounded arrays of entries\<close>

record 'e tagged_state =
  ts_entries :: "'e list"
  ts_count :: nat

definition ts_well_formed :: "nat \<Rightarrow> 'e tagged_state \<Rightarrow> bool" where
  "ts_well_formed cap s \<longleftrightarrow> ts_count s \<le> cap"

definition ts_live :: "'e tagged_state \<Rightarrow> 'e list" where
  "ts_live s = take (ts_count s) (ts_entries s)"

fun find_slot :: "('e \<Rightarrow> bool) \<Rightarrow> 'e list \<Rightarrow> nat \<Rightarrow> nat option" where
  "find_slot P [] i = None"
| "find_slot P (e # es) i = (if P e then Some i else find_slot P es (Suc i))"

definition ts_append :: "nat \<Rightarrow> 'e \<Rightarrow> 'e tagged_state \<Rightarrow> bool \<times> 'e tagged_state" where
  "ts_append cap e s =
    (if ts_count s \<ge> cap then (False, s)
     else (True, s\<lparr>ts_entries := (ts_entries s)[ts_count s := e], ts_count := ts_count s + 1\<rparr>))"

fun upsert_all :: "('e \<Rightarrow> 's \<Rightarrow> bool \<times> 's) \<Rightarrow> 'e list \<Rightarrow> 's \<Rightarrow> bool \<times> 's" where
  "upsert_all upsert [] s = (True, s)"
| "upsert_all upsert (e # es) s =
    (let (b, s') = upsert e s in if \<not> b then (False, s') else upsert_all upsert es s')"

definition merge_entries ::
  "('e \<Rightarrow> 'e tagged_state \<Rightarrow> bool \<times> 'e tagged_state) \<Rightarrow> nat \<Rightarrow> 'e tagged_state \<Rightarrow> 'e tagged_state \<Rightarrow> bool \<times> 'e tagged_state"
where
  "merge_entries upsert cap target other =
    (if \<not> ts_well_formed cap other then (False, target) else upsert_all upsert (ts_live other) target)"


section \<open>Observed-remove set\<close>

record ('t, 'g) or_entry =
  oe_value :: 't
  oe_tag :: 'g
  oe_removed :: bool

type_synonym ('t, 'g) or_set = "('t, 'g) or_entry tagged_state"

definition orset_upsert :: "nat \<Rightarrow> ('t, 'g) or_entry \<Rightarrow> ('t, 'g) or_set \<Rightarrow> bool \<times> ('t, 'g) or_set" where
  "orset_upsert cap incoming s =
    (case find_slot (\<lambda>e. oe_value e = oe_value incoming \<and> oe_tag e = oe_tag incoming) (ts_live s) 0 of
       Some idx \<Rightarrow>
         (let e = ts_entries s ! idx
          in (True, s\<lparr>ts_entries := (ts_entries s)[idx := e\<lparr>oe_removed := oe_removed e \<or> oe_removed incoming\<rparr>]\<rparr>))
     | None \<Rightarrow> ts_append cap incoming s)"

definition orset_add :: "nat \<Rightarrow> 't \<times> 'g \<Rightarrow> ('t, 'g) or_set \<Rightarrow> bool \<times> ('t, 'g) or_set" where
  "orset_add cap op s = orset_upsert cap \<lparr>oe_value = fst op, oe_tag = snd op, oe_removed = False\<rparr> s"

definition orset_remove :: "'t \<Rightarrow> ('t, 'g) or_set \<Rightarrow> bool \<times> ('t, 'g) or_set" where
  "orset_remove value s =
    (True, s\<lparr>ts_entries :=
       map (\<lambda>e. if oe_value e = value then e\<lparr>oe_removed := True\<rparr> else e) (ts_live s) @ drop (ts_count s) (ts_entries s)\<rparr>)"

definition orset_contains :: "'t \<Rightarrow> ('t, 'g) or_set \<Rightarrow> bool" where
  "orset_contains value s \<longleftrightarrow> list_ex (\<lambda>e. oe_value e = value \<and> \<not> oe_removed e) (ts_live s)"

definition orset_merge :: "nat \<Rightarrow> ('t, 'g) or_set \<Rightarrow> ('t, 'g) or_set \<Rightarrow> bool \<times> ('t, 'g) or_set" where
  "orset_merge cap s other = commit_merge (merge_entries (orset_upsert cap) cap) s other"

definition orset_merge_states :: "nat \<Rightarrow> ('t, 'g) or_set \<Rightarrow> ('t, 'g) or_set \<Rightarrow> ('t, 'g) or_set" where
  "orset_merge_states cap a b =
    (if ts_well_formed cap a then snd (commit_merge (merge_entries (orset_upsert cap) cap) a b) else a)"

datatype ('t, 'g) orset_op = Or_Add 't 'g | Or_Remove 't

fun orset_update :: "nat \<Rightarrow> ('t, 'g) orset_op \<Rightarrow> ('t, 'g) or_set \<Rightarrow> bool \<times> ('t, 'g) or_set" where
  "orset_update cap (Or_Add value tag) s = orset_add cap (value, tag) s"
| "orset_update cap (Or_Remove value) s = orset_remove value s"


section \<open>Entries by key\<close>

definition keyed_map :: "('e \<Rightarrow> 'k) \<Rightarrow> 'e list \<Rightarrow> 'k \<Rightarrow> 'e option" where
  "keyed_map key es = map_of (map (\<lambda>e. (key e, e)) es)"

definition join_maps :: "('e \<Rightarrow> 'e \<Rightarrow> 'e) \<Rightarrow> ('k \<Rightarrow> 'e option) \<Rightarrow> ('k \<Rightarrow> 'e option) \<Rightarrow> 'k \<Rightarrow> 'e option" where
  "join_maps comb m1 m2 = (\<lambda>k.
    case m1 k of None \<Rightarrow> m2 k | Some a \<Rightarrow> (case m2 k of None \<Rightarrow> Some a | Some b \<Rightarrow> Some (comb a b)))"

definition well_keyed :: "('e \<Rightarrow> 'k) \<Rightarrow> ('k \<Rightarrow> 'e option) \<Rightarrow> bool" where
  "well_keyed key m \<longleftrightarrow> (\<forall>k e. m k = Some e \<longrightarrow> key e = k)"

definition keyed_upsert ::
  "('e \<Rightarrow> 'k) \<Rightarrow> ('e \<Rightarrow> 'e \<Rightarrow> 'e) \<Rightarrow> nat \<Rightarrow> 'e \<Rightarrow> 'e tagged_state \<Rightarrow> bool \<times> 'e tagged_state" where
  "keyed_upsert key comb cap incoming s =
    (case find_slot (\<lambda>e. key e = key incoming) (ts_live s) 0 of
       Some idx \<Rightarrow> (True, s\<lparr>ts_entries := (ts_entries s)[idx := comb (ts_entries s ! idx) incoming]\<rparr>)
     | None \<Rightarrow> ts_append cap incoming s)"

definition keyed_valid :: "('e \<Rightarrow> 'k) \<Rightarrow> nat \<Rightarrow> 'e tagged_state \<Rightarrow> bool" where
  "keyed_valid key cap s \<longleftrightarrow> length (ts_entries s) = cap \<and> ts_count s \<le> cap \<and> distinct (map key (ts_live s))"

definition ts_empty :: "nat \<Rightarrow> 'e \<Rightarrow> 'e tagged_state" where
  "ts_empty cap e0 = \<lparr>ts_entries = replicate cap e0, ts_count = 0\<rparr>"

lemma find_slot_from: "find_slot P es i = Some j \<Longrightarrow> \<exists>k. j = i + k \<and> k < length es \<and> P (es ! k)"
proof (induction es arbitrary: i)
  case (Cons e es)
  show ?case
  proof (cases "P e")
    case False
    then obtain k where "j = Suc i + k" "k < length es" "P (es ! k)"
      using Cons.IH[of "Suc i"] Cons.prems by auto
    then show ?thesis
      by (intro exI[of _ "Suc k"]) simp
  qed (use Cons.prems in auto)
qed simp

lemma find_slot_Some: "find_slot P es 0 = Some j \<Longrightarrow> j < length es \<and> P (es ! j)"
  using find_slot_from[of P es 0 j] by auto

lemma find_slot_None: "find_slot P es i = None \<longleftrightarrow> (\<forall>e \<in> set es. \<not> P e)"
  by (induction es arbitrary: i) auto

lemma option_eqI: "(\<And>x. a = Some x \<longleftrightarrow> b = Some x) \<Longrightarrow> a = b"
  by (metis not_None_eq)

lemma keyed_map_lookup:
  "distinct (map key es) \<Longrightarrow> keyed_map key es k = Some e \<longleftrightarrow> e \<in> set es \<and> key e = k"
  by (induction es) (auto simp: keyed_map_def image_iff)

lemma well_keyed_map: "well_keyed key (keyed_map key es)"
  by (auto simp: well_keyed_def keyed_map_def dest: map_of_SomeD)

lemma keyed_map_None: "keyed_map key es k = None \<longleftrightarrow> k \<notin> key ` set es"
  by (auto simp: keyed_map_def map_of_eq_None_iff image_iff)

lemma keyed_map_Nil [simp]: "keyed_map key [] = (\<lambda>k. None)"
  by (simp add: keyed_map_def)

lemma keyed_map_append: "key e \<notin> key ` set es \<Longrightarrow> keyed_map key (es @ [e]) = (keyed_map key es)(key e \<mapsto> e)"
  by (auto simp: keyed_map_def map_add_def fun_eq_iff image_iff split: option.splits dest!: map_of_SomeD)

lemma keyed_map_update:
  assumes "distinct (map key es)" "i < length es" "key e = key (es ! i)"
  shows "keyed_map key (es[i := e]) = (keyed_map key es)(key e \<mapsto> e)" "distinct (map key (es[i := e]))"
proof -
  have same: "map key (es[i := e]) = map key es"
    using assms(2,3) by (metis list_update_id map_update nth_map)
  then show dist: "distinct (map key (es[i := e]))"
    using assms(1) by simp
  show "keyed_map key (es[i := e]) = (keyed_map key es)(key e \<mapsto> e)"
  proof
    fix k
    show "keyed_map key (es[i := e]) k = ((keyed_map key es)(key e \<mapsto> e)) k"
    proof (cases "k = key e")
      case True
      then show ?thesis
        using keyed_map_lookup[OF dist, of k e] assms(2) by (simp add: set_update_memI)
    next
      case False
      have "x \<in> set (es[i := e]) \<and> key x = k \<longleftrightarrow> x \<in> set es \<and> key x = k" for x
        using False assms(2,3) by (auto simp: in_set_conv_nth nth_list_update split: if_splits)
      then have eq: "keyed_map key (es[i := e]) k = Some x \<longleftrightarrow> keyed_map key es k = Some x" for x
        by (simp only: keyed_map_lookup[OF dist] keyed_map_lookup[OF assms(1)])
      then have "keyed_map key (es[i := e]) k = keyed_map key es k"
        by (rule option_eqI)
      then show ?thesis
        using False by simp
    qed
  qed
qed


text \<open>Two entries with one key combine as a semilattice.\<close>

locale keyed_entries =
  fixes key :: "'e \<Rightarrow> 'k" and comb :: "'e \<Rightarrow> 'e \<Rightarrow> 'e"
  assumes key_comb: "key a = key b \<Longrightarrow> key (comb a b) = key a"
    and comb_comm: "key a = key b \<Longrightarrow> comb a b = comb b a"
    and comb_assoc: "key a = key b \<Longrightarrow> key b = key c \<Longrightarrow> comb (comb a b) c = comb a (comb b c)"
    and comb_idem: "comb a a = a"

sublocale keyed_entries \<subseteq> maps: join_lattice "well_keyed key" "join_maps comb" "\<lambda>k. None"
proof
  fix a b c :: "'k \<Rightarrow> 'e option"
  assume a: "well_keyed key a" and b: "well_keyed key b"
  have keys: "key x = key y" if "a k = Some x" "b k = Some y" for k x y
    using a b that by (auto simp: well_keyed_def)
  show "well_keyed key (join_maps comb a b)"
    using a b key_comb by (auto simp: well_keyed_def join_maps_def split: option.splits)
  show "join_maps comb a b = join_maps comb b a"
    using keys comb_comm by (fastforce simp: join_maps_def split: option.splits)
  assume c: "well_keyed key c"
  show "join_maps comb (join_maps comb a b) c = join_maps comb a (join_maps comb b c)"
  proof
    fix k
    show "join_maps comb (join_maps comb a b) c k = join_maps comb a (join_maps comb b c) k"
      using a b c comb_assoc by (auto simp: join_maps_def well_keyed_def split: option.splits)
  qed
qed (auto simp: well_keyed_def join_maps_def comb_idem fun_eq_iff split: option.splits)

context keyed_entries
begin

lemma append_spec:
  assumes "keyed_valid key cap s" "key e \<notin> key ` set (ts_live s)" "ts_append cap e s = (b, s')"
  shows "keyed_valid key cap s'
    \<and> (if b then keyed_map key (ts_live s') = join_maps comb (keyed_map key (ts_live s)) [key e \<mapsto> e] else s' = s)"
proof (cases "ts_count s \<ge> cap")
  case True
  then show ?thesis
    using assms by (auto simp: ts_append_def)
next
  case False
  then have b: "b" "s' = s\<lparr>ts_entries := (ts_entries s)[ts_count s := e], ts_count := ts_count s + 1\<rparr>"
    using assms(3) by (auto simp: ts_append_def)
  have live: "ts_live s' = ts_live s @ [e]"
    using assms(1) False by (simp add: b ts_live_def keyed_valid_def take_Suc_conv_app_nth)
  have "(keyed_map key (ts_live s))(key e \<mapsto> e) = join_maps comb (keyed_map key (ts_live s)) [key e \<mapsto> e]"
    using assms(2) by (auto simp: join_maps_def fun_eq_iff keyed_map_None[symmetric] split: option.splits)
  then show ?thesis
    using assms(1,2) b(1) False live by (auto simp: keyed_valid_def keyed_map_append b(2) simp del: ts_live_def)
qed

lemma replace_spec:
  assumes "keyed_valid key cap s" "idx < length (ts_live s)" "key (ts_live s ! idx) = key e"
    and "s' = s\<lparr>ts_entries := (ts_entries s)[idx := comb (ts_entries s ! idx) e]\<rparr>"
  shows "keyed_valid key cap s' \<and> keyed_map key (ts_live s') = join_maps comb (keyed_map key (ts_live s)) [key e \<mapsto> e]"
proof -
  let ?old = "ts_live s ! idx"
  have old: "ts_entries s ! idx = ?old" and live: "ts_live s' = (ts_live s)[idx := comb ?old e]"
    using assms(2) by (simp_all add: assms(4) ts_live_def take_update_swap)
  have dist: "distinct (map key (ts_live s))"
    using assms(1) by (simp add: keyed_valid_def)
  have key: "key (comb ?old e) = key ?old"
    using key_comb[OF assms(3)] .
  have "keyed_map key (ts_live s) (key e) = Some ?old"
    using keyed_map_lookup[OF dist] assms(2,3) by simp
  then have "(keyed_map key (ts_live s))(key (comb ?old e) \<mapsto> comb ?old e)
      = join_maps comb (keyed_map key (ts_live s)) [key e \<mapsto> e]"
    using key assms(3) by (auto simp: join_maps_def fun_eq_iff split: option.splits)
  then show ?thesis
    using keyed_map_update[OF dist assms(2) key] assms(1) live by (simp add: keyed_valid_def assms(4))
qed

lemma upsert_spec:
  assumes "keyed_valid key cap s" "keyed_upsert key comb cap e s = (b, s')"
  shows "keyed_valid key cap s'
    \<and> (if b then keyed_map key (ts_live s') = join_maps comb (keyed_map key (ts_live s)) [key e \<mapsto> e] else s' = s)"
proof (cases "find_slot (\<lambda>x. key x = key e) (ts_live s) 0")
  case None
  then have "key e \<notin> key ` set (ts_live s)"
    by (auto simp: find_slot_None)
  then show ?thesis
    using append_spec[OF assms(1)] assms(2) None by (simp add: keyed_upsert_def)
next
  case (Some idx)
  then show ?thesis
    using replace_spec[OF assms(1)] find_slot_Some[OF Some] assms(2) by (auto simp: keyed_upsert_def)
qed

lemma upsert_all_spec:
  assumes "keyed_valid key cap s" "distinct (map key es)" "upsert_all (keyed_upsert key comb cap) es s = (b, s')"
  shows "keyed_valid key cap s'
    \<and> (b \<longrightarrow> keyed_map key (ts_live s') = join_maps comb (keyed_map key (ts_live s)) (keyed_map key es))"
  using assms
proof (induction es arbitrary: s)
  case Nil
  then show ?case
    by (auto simp: join_maps_def keyed_map_def fun_eq_iff split: option.splits)
next
  case (Cons e es)
  obtain c s1 where up: "keyed_upsert key comb cap e s = (c, s1)"
    by fastforce
  note spec = upsert_spec[OF Cons.prems(1) up]
  show ?case
  proof (cases c)
    case True
    have "keyed_map key (e # es) = join_maps comb [key e \<mapsto> e] (keyed_map key es)"
    proof -
      have "keyed_map key es (key e) = None" "keyed_map key (e # es) = (keyed_map key es)(key e \<mapsto> e)"
        using Cons.prems(2) by (simp_all add: keyed_map_None) (simp add: keyed_map_def)
      then show ?thesis
        by (auto simp: join_maps_def fun_eq_iff split: option.splits)
    qed
    moreover have "well_keyed key [key e \<mapsto> e]"
      by (simp add: well_keyed_def)
    ultimately show ?thesis
      using Cons up spec True maps.join_assoc[of "keyed_map key (ts_live s)" "[key e \<mapsto> e]" "keyed_map key es"]
      by (auto simp: well_keyed_map)
  next
    case False
    then show ?thesis
      using Cons up spec by auto
  qed
qed

lemma merge_spec:
  assumes "keyed_valid key cap s" "keyed_valid key cap t"
    and "commit_merge (merge_entries (keyed_upsert key comb cap) cap) s t = (b, s')"
  shows "keyed_valid key cap s'
    \<and> (if b then keyed_map key (ts_live s') = join_maps comb (keyed_map key (ts_live s)) (keyed_map key (ts_live t)) else s' = s)"
proof -
  obtain c s1 where m: "upsert_all (keyed_upsert key comb cap) (ts_live t) s = (c, s1)"
    by fastforce
  have "ts_well_formed cap t" "distinct (map key (ts_live t))"
    using assms(2) by (simp_all add: keyed_valid_def ts_well_formed_def)
  then show ?thesis
    using upsert_all_spec[OF assms(1) _ m] assms(1,3) m
    by (auto simp: commit_merge_def merge_entries_def split: if_splits)
qed

lemma refused_merge: "\<not> ts_well_formed cap t \<Longrightarrow> commit_merge (merge_entries (keyed_upsert key comb cap) cap) s t = (False, s)"
  by (simp add: commit_merge_def merge_entries_def)

end


section \<open>The observed-remove set as a map of tags\<close>

definition or_key :: "('t, 'g) or_entry \<Rightarrow> 't \<times> 'g" where
  "or_key e = (oe_value e, oe_tag e)"

definition or_comb :: "('t, 'g) or_entry \<Rightarrow> ('t, 'g) or_entry \<Rightarrow> ('t, 'g) or_entry" where
  "or_comb a b = a\<lparr>oe_removed := oe_removed a \<or> oe_removed b\<rparr>"

definition orset_tags :: "('t, 'g) or_set \<Rightarrow> 't \<times> 'g \<Rightarrow> ('t, 'g) or_entry option" where
  "orset_tags s = keyed_map or_key (ts_live s)"

definition orset_empty :: "nat \<Rightarrow> ('t::zero, 'g::zero) or_set" where
  "orset_empty cap = ts_empty cap \<lparr>oe_value = 0, oe_tag = 0, oe_removed = False\<rparr>"

interpretation or_entries: keyed_entries or_key or_comb
proof
  show "or_comb a b = or_comb b a" if "or_key a = or_key b" for a b :: "('t, 'g) or_entry"
    using that by (intro or_entry.equality) (auto simp: or_key_def or_comb_def)
qed (auto simp: or_key_def or_comb_def)

lemma orset_upsert_keyed: "orset_upsert = keyed_upsert or_key or_comb"
  by (intro ext) (auto simp: orset_upsert_def keyed_upsert_def or_key_def or_comb_def Let_def split: option.split)

lemma ts_live_empty [simp]: "ts_live (ts_empty cap e) = []"
  by (simp add: ts_live_def ts_empty_def)

lemma keyed_valid_empty: "keyed_valid key cap (ts_empty cap e)"
  by (simp add: keyed_valid_def ts_empty_def ts_live_def)

lemma orset_remove_live:
  assumes "keyed_valid or_key cap s" "orset_remove value s = (b, s')"
  shows "ts_live s' = map (\<lambda>e. if oe_value e = value then e\<lparr>oe_removed := True\<rparr> else e) (ts_live s)"
    "keyed_valid or_key cap s'" "b"
proof -
  have len: "length (ts_live s) = ts_count s"
    using assms(1) by (simp add: ts_live_def keyed_valid_def)
  show live: "ts_live s' = map (\<lambda>e. if oe_value e = value then e\<lparr>oe_removed := True\<rparr> else e) (ts_live s)"
    using assms(2) len by (auto simp: orset_remove_def ts_live_def)
  have "map or_key (ts_live s') = map or_key (ts_live s)"
    by (simp add: live or_key_def)
  then show "keyed_valid or_key cap s'" "b"
    using assms len by (auto simp: keyed_valid_def orset_remove_def)
qed

lemma keyed_map_map:
  "(\<And>e. key (f e) = key e) \<Longrightarrow> keyed_map key (map f es) k = map_option f (keyed_map key es k)"
  by (induction es) (auto simp: keyed_map_def)

lemma orset_update_law:
  assumes "keyed_valid or_key cap s" "orset_update cap op s = (b, s')"
  shows "keyed_valid or_key cap s'
    \<and> (if b then \<exists>d. well_keyed or_key d \<and> orset_tags s' = join_maps or_comb (orset_tags s) d else s' = s)"
proof (cases op)
  case (Or_Add v g)
  define e where "e = \<lparr>oe_value = v, oe_tag = g, oe_removed = False\<rparr>"
  have "keyed_upsert or_key or_comb cap e s = (b, s')"
    using assms(2) by (simp add: Or_Add orset_add_def orset_upsert_keyed e_def)
  moreover have "well_keyed or_key [or_key e \<mapsto> e]"
    by (simp add: well_keyed_def)
  ultimately show ?thesis
    using or_entries.upsert_spec[OF assms(1)] by (auto simp: orset_tags_def split: if_splits)
next
  case (Or_Remove v)
  let ?f = "\<lambda>e. if oe_value e = v then e\<lparr>oe_removed := True\<rparr> else e"
  have rem: "ts_live s' = map ?f (ts_live s)" "keyed_valid or_key cap s'" "b"
    using orset_remove_live[OF assms(1)] assms(2) by (auto simp: Or_Remove)
  have "orset_tags s' k = map_option ?f (orset_tags s k)" for k
    unfolding orset_tags_def rem(1) by (rule keyed_map_map) (simp add: or_key_def)
  then have "orset_tags s' = join_maps or_comb (orset_tags s) (orset_tags s')"
    by (auto simp: join_maps_def or_comb_def fun_eq_iff split: option.splits)
  then show ?thesis
    using rem(2,3) well_keyed_map[of or_key "ts_live s'"] by (auto simp: orset_tags_def)
qed

interpretation orset: crdt "well_keyed or_key" "join_maps or_comb" "\<lambda>k. None" "keyed_valid or_key cap" orset_tags
  "orset_empty cap" "orset_update cap" "orset_merge cap" for cap
proof
  show "keyed_valid or_key cap s'
      \<and> (if b then \<exists>d. well_keyed or_key d \<and> orset_tags s' = join_maps or_comb (orset_tags s) d else s' = s)"
    if "keyed_valid or_key cap s" "orset_update cap op s = (b, s')" for s s' op b
    by (rule orset_update_law[OF that])
  show "keyed_valid or_key cap s'
      \<and> (if b then orset_tags s' = join_maps or_comb (orset_tags s) (orset_tags t) else s' = s)"
    if "keyed_valid or_key cap s" "keyed_valid or_key cap t" "orset_merge cap s t = (b, s')" for s t s' b
    using or_entries.merge_spec[OF that(1,2)] that(3) by (simp add: orset_tags_def orset_merge_def orset_upsert_keyed)
qed (auto simp: orset_empty_def orset_tags_def keyed_valid_empty well_keyed_map)

lemma orset_contains_tags:
  assumes "keyed_valid or_key cap s"
  shows "orset_contains v s \<longleftrightarrow> (\<exists>g e. orset_tags s (v, g) = Some e \<and> \<not> oe_removed e)"
proof -
  have "distinct (map or_key (ts_live s))"
    using assms by (simp add: keyed_valid_def)
  then show ?thesis
    by (auto simp: orset_contains_def orset_tags_def keyed_map_lookup list_ex_iff or_key_def)
qed

end
