(* ===== verification/Crdt_Rga.thy ===== *)
theory Crdt_Rga
  imports Crdt_Tagged "HOL-Library.Product_Lexorder"
begin

text \<open>
  The replicated list of \<^verbatim>\<open>crucible/canopy/Crdt.h\<close> (\<^verbatim>\<open>RgaList\<close>): nodes that name the node they follow,
  tombstones, and the depth-first walk that materialises the sequence.  The walk is a loop that
  calls itself; the array of visited flags is the list of visited indices in the order of the
  visits, and the termination proof counts the unvisited nodes.
\<close>

section \<open>Nodes\<close>

record ('i, 'v) rga_node =
  rn_id :: 'i
  rn_after :: 'i
  rn_value :: 'v
  rn_tombstone :: bool

type_synonym ('i, 'v) rga_state = "('i, 'v) rga_node tagged_state"

definition rga_upsert ::
  "nat \<Rightarrow> ('i::linorder, 'v::linorder) rga_node \<Rightarrow> ('i, 'v) rga_state \<Rightarrow> bool \<times> ('i, 'v) rga_state" where
  "rga_upsert cap incoming s =
    (case find_slot (\<lambda>e. rn_id e = rn_id incoming) (ts_live s) 0 of
       Some idx \<Rightarrow>
         (let existing = ts_entries s ! idx;
              incoming_preferred = (rn_after incoming < rn_after existing
                \<or> rn_after incoming = rn_after existing \<and> rn_value incoming < rn_value existing);
              removed = (rn_tombstone existing \<or> rn_tombstone incoming)
          in (True, s\<lparr>ts_entries := (ts_entries s)[idx :=
                if incoming_preferred then incoming\<lparr>rn_tombstone := removed\<rparr> else existing\<lparr>rn_tombstone := removed\<rparr>]\<rparr>))
     | None \<Rightarrow> ts_append cap incoming s)"

definition rga_insert_after ::
  "nat \<Rightarrow> 'i \<Rightarrow> 'i \<Rightarrow> 'v \<Rightarrow> ('i::linorder, 'v::linorder) rga_state \<Rightarrow> bool \<times> ('i, 'v) rga_state" where
  "rga_insert_after cap i after v s = rga_upsert cap \<lparr>rn_id = i, rn_after = after, rn_value = v, rn_tombstone = False\<rparr> s"

definition rga_erase :: "'i \<Rightarrow> ('i, 'v) rga_state \<Rightarrow> bool \<times> ('i, 'v) rga_state" where
  "rga_erase i s =
    (case find_slot (\<lambda>e. rn_id e = i) (ts_live s) 0 of
       Some idx \<Rightarrow> (True, s\<lparr>ts_entries := (ts_entries s)[idx := (ts_entries s ! idx)\<lparr>rn_tombstone := True\<rparr>]\<rparr>)
     | None \<Rightarrow> (False, s))"

definition rga_merge ::
  "nat \<Rightarrow> ('i::linorder, 'v::linorder) rga_state \<Rightarrow> ('i, 'v) rga_state \<Rightarrow> bool \<times> ('i, 'v) rga_state" where
  "rga_merge cap s other = commit_merge (merge_entries (rga_upsert cap) cap) s other"

definition rga_merge_states ::
  "nat \<Rightarrow> ('i::linorder, 'v::linorder) rga_state \<Rightarrow> ('i, 'v) rga_state \<Rightarrow> ('i, 'v) rga_state" where
  "rga_merge_states cap a b =
    (if ts_well_formed cap a then snd (commit_merge (merge_entries (rga_upsert cap) cap) a b) else a)"

datatype ('i, 'v) rga_op = Rga_Insert 'i 'i 'v | Rga_Erase 'i

fun rga_update ::
  "nat \<Rightarrow> ('i, 'v) rga_op \<Rightarrow> ('i::linorder, 'v::linorder) rga_state \<Rightarrow> bool \<times> ('i, 'v) rga_state" where
  "rga_update cap (Rga_Insert i after v) s = rga_insert_after cap i after v s"
| "rga_update cap (Rga_Erase i) s = rga_erase i s"


section \<open>Materialisation\<close>

definition pick_child :: "('i::linorder, 'v) rga_node list \<Rightarrow> 'i \<Rightarrow> nat list \<Rightarrow> nat option \<Rightarrow> nat \<Rightarrow> nat option" where
  "pick_child nodes parent visited next i =
    (if i \<in> set visited \<or> \<not> rn_after (nodes ! i) = parent then next
     else case next of
       None \<Rightarrow> Some i
     | Some j \<Rightarrow> if rn_id (nodes ! i) < rn_id (nodes ! j) then Some i else next)"

definition next_child :: "('i::linorder, 'v) rga_node list \<Rightarrow> 'i \<Rightarrow> nat list \<Rightarrow> nat option" where
  "next_child nodes parent visited = foldl (pick_child nodes parent visited) None [0..<length nodes]"

definition emit_value :: "nat \<Rightarrow> ('i, 'v) rga_node \<Rightarrow> 'v list \<Rightarrow> 'v list" where
  "emit_value cap node out = (if \<not> rn_tombstone node \<and> length out < cap then out @ [rn_value node] else out)"

text \<open>What the selection loop finds.\<close>

definition candidate :: "('i, 'v) rga_node list \<Rightarrow> 'i \<Rightarrow> nat list \<Rightarrow> nat \<Rightarrow> bool" where
  "candidate nodes parent visited i \<longleftrightarrow> i < length nodes \<and> i \<notin> set visited \<and> rn_after (nodes ! i) = parent"

definition best_child :: "('i::linorder, 'v) rga_node list \<Rightarrow> 'i \<Rightarrow> nat list \<Rightarrow> nat \<Rightarrow> nat option \<Rightarrow> bool" where
  "best_child nodes parent visited n best \<longleftrightarrow> (case best of
     None \<Rightarrow> \<forall>i < n. \<not> candidate nodes parent visited i
   | Some j \<Rightarrow> j < n \<and> candidate nodes parent visited j
      \<and> (\<forall>i < n. candidate nodes parent visited i \<longrightarrow> rn_id (nodes ! j) \<le> rn_id (nodes ! i)))"

lemma best_child_step:
  assumes "best_child nodes parent visited n best" "n < length nodes"
  shows "best_child nodes parent visited (Suc n) (pick_child nodes parent visited best n)"
proof (cases "candidate nodes parent visited n")
  case True
  then have pick: "pick_child nodes parent visited best n =
      (case best of None \<Rightarrow> Some n | Some j \<Rightarrow> if rn_id (nodes ! n) < rn_id (nodes ! j) then Some n else best)"
    by (simp add: candidate_def pick_child_def)
  show ?thesis
  proof (cases best)
    case None
    then show ?thesis
      using True assms(1) pick by (auto simp: best_child_def less_Suc_eq)
  next
    case (Some j)
    then have j: "j < n" "candidate nodes parent visited j"
        "\<And>i. i < n \<Longrightarrow> candidate nodes parent visited i \<Longrightarrow> rn_id (nodes ! j) \<le> rn_id (nodes ! i)"
      using assms(1) by (auto simp: best_child_def)
    show ?thesis
    proof (cases "rn_id (nodes ! n) < rn_id (nodes ! j)")
      case less: True
      have "rn_id (nodes ! n) \<le> rn_id (nodes ! i)" if "i < n" "candidate nodes parent visited i" for i
        using less j(3)[OF that] by simp
      then show ?thesis
        using True less pick Some by (auto simp: best_child_def less_Suc_eq)
    next
      case False
      then show ?thesis
        using j pick Some by (auto simp: best_child_def less_Suc_eq)
    qed
  qed
next
  case False
  then have "pick_child nodes parent visited best n = best"
    using assms(2) by (auto simp: candidate_def pick_child_def)
  then show ?thesis
    using False assms(1) by (auto simp: best_child_def less_Suc_eq split: option.splits)
qed

lemma next_child_best: "best_child nodes parent visited (length nodes) (next_child nodes parent visited)"
proof -
  have "best_child nodes parent visited n (foldl (pick_child nodes parent visited) None [0..<n])" if "n \<le> length nodes" for n
    using that by (induction n) (auto simp: best_child_step, simp add: best_child_def)
  then show ?thesis
    by (simp add: next_child_def)
qed

lemma next_child_None: "next_child nodes parent visited = None \<longleftrightarrow> (\<forall>i. \<not> candidate nodes parent visited i)"
  using next_child_best[of nodes parent visited]
  by (auto simp: best_child_def candidate_def split: option.splits)

lemma next_child_Some:
  "next_child nodes parent visited = Some j \<Longrightarrow> candidate nodes parent visited j
     \<and> (\<forall>i. candidate nodes parent visited i \<longrightarrow> rn_id (nodes ! j) \<le> rn_id (nodes ! i))"
  using next_child_best[of nodes parent visited] by (auto simp: best_child_def candidate_def)

function rga_emit ::
  "nat \<Rightarrow> ('i::linorder, 'v) rga_node list \<Rightarrow> 'i \<Rightarrow> nat list \<Rightarrow> 'v list \<Rightarrow> nat list \<times> 'v list" where
  "rga_emit cap nodes parent visited out =
    (case next_child nodes parent visited of
       None \<Rightarrow> (visited, out)
     | Some i \<Rightarrow>
         (case rga_emit cap nodes (rn_id (nodes ! i)) (visited @ [i]) (emit_value cap (nodes ! i) out) of
            (visited', out') \<Rightarrow> rga_emit cap nodes parent visited' out'))"
  by pat_completeness auto

lemma rga_emit_extends:
  assumes "rga_emit_dom (cap, nodes, parent, visited, out)"
  shows "set visited \<subseteq> set (fst (rga_emit cap nodes parent visited out))"
  using assms
proof (induction rule: rga_emit.pinduct)
  case (1 cap nodes parent visited out)
  then show ?case
    by (fastforce simp: rga_emit.psimps split: option.splits prod.splits)
qed

lemma unvisited_less:
  assumes "candidate nodes parent visited i" "set (visited @ [i]) \<subseteq> set visited'"
  shows "card ({..<length nodes} - set visited') < card ({..<length nodes} - set visited)"
proof (rule psubset_card_mono)
  show "{..<length nodes} - set visited' \<subset> {..<length nodes} - set visited"
    using assms by (auto simp: candidate_def)
qed simp

termination rga_emit
proof (relation "measure (\<lambda>(cap, nodes, parent, visited, out). card ({..<length nodes} - set visited))", goal_cases)
  case (2 cap nodes parent visited out i)
  then show ?case
    using unvisited_less[of nodes parent visited i "visited @ [i]"] next_child_Some by fastforce
next
  case (3 cap nodes parent visited out i visited' out')
  have "set (visited @ [i]) \<subseteq> set visited'"
    using rga_emit_extends[OF 3(3)] 3(2) by (metis fst_conv)
  then show ?case
    using unvisited_less[of nodes parent visited i visited'] next_child_Some[OF 3(1)] by simp
qed simp

definition rga_materialize :: "nat \<Rightarrow> ('i::{linorder,zero}, 'v) rga_state \<Rightarrow> 'v list" where
  "rga_materialize cap s = snd (rga_emit cap (ts_live s) 0 [] [])"


declare rga_emit.simps [simp del]


section \<open>What the walk visits\<close>

fun walk_ok :: "('i::linorder, 'v) rga_node list \<Rightarrow> nat list \<Rightarrow> nat list \<Rightarrow> bool" where
  "walk_ok nodes visited [] \<longleftrightarrow> True"
| "walk_ok nodes visited (i # ext) \<longleftrightarrow>
    next_child nodes (rn_after (nodes ! i)) visited = Some i \<and> walk_ok nodes (visited @ [i]) ext"

fun descends :: "('i, 'v) rga_node list \<Rightarrow> 'i set \<Rightarrow> nat list \<Rightarrow> bool" where
  "descends nodes P [] \<longleftrightarrow> True"
| "descends nodes P (i # ext) \<longleftrightarrow> rn_after (nodes ! i) \<in> P \<and> descends nodes (insert (rn_id (nodes ! i)) P) ext"

inductive rga_reach :: "('i::zero, 'v) rga_node list \<Rightarrow> nat \<Rightarrow> bool" for nodes where
  reach_root: "i < length nodes \<Longrightarrow> rn_after (nodes ! i) = 0 \<Longrightarrow> rga_reach nodes i"
| reach_child: "rga_reach nodes j \<Longrightarrow> i < length nodes \<Longrightarrow> rn_after (nodes ! i) = rn_id (nodes ! j) \<Longrightarrow> rga_reach nodes i"

lemma walk_ok_append [simp]: "walk_ok nodes v (a @ b) \<longleftrightarrow> walk_ok nodes v a \<and> walk_ok nodes (v @ a) b"
  by (induction a arbitrary: v) auto

lemma descends_append [simp]:
  "descends nodes P (a @ b) \<longleftrightarrow> descends nodes P a \<and> descends nodes (P \<union> (\<lambda>i. rn_id (nodes ! i)) ` set a) b"
  by (induction a arbitrary: P) auto

lemma descends_mono: "descends nodes P ext \<Longrightarrow> P \<subseteq> Q \<Longrightarrow> descends nodes Q ext"
  by (induction ext arbitrary: P Q) (auto, blast)

lemma next_child_None_mono:
  "next_child nodes parent v = None \<Longrightarrow> set v \<subseteq> set w \<Longrightarrow> next_child nodes parent w = None"
  by (auto simp: next_child_None candidate_def)

lemma rga_emit_walk:
  "\<exists>ext. rga_emit cap nodes parent visited out = (visited @ ext, fold (\<lambda>i. emit_value cap (nodes ! i)) ext out)
     \<and> walk_ok nodes visited ext \<and> descends nodes {parent} ext \<and> next_child nodes parent (visited @ ext) = None
     \<and> (\<forall>i \<in> set ext. next_child nodes (rn_id (nodes ! i)) (visited @ ext) = None)"
proof (induction cap nodes parent visited out rule: rga_emit.induct)
  case (1 cap nodes parent visited out)
  show ?case
  proof (cases "next_child nodes parent visited")
    case None
    then show ?thesis
      by (intro exI[of _ "[]"]) (simp add: rga_emit.simps)
  next
    case (Some i)
    let ?push = "\<lambda>i. emit_value cap (nodes ! i)" and ?id = "rn_id (nodes ! i)"
    obtain e1 where e1: "rga_emit cap nodes ?id (visited @ [i]) (?push i out) = (visited @ [i] @ e1, fold ?push e1 (?push i out))"
        "walk_ok nodes (visited @ [i]) e1" "descends nodes {?id} e1" "next_child nodes ?id (visited @ [i] @ e1) = None"
        "\<forall>j \<in> set e1. next_child nodes (rn_id (nodes ! j)) (visited @ [i] @ e1) = None"
      using "1.IH"(1)[OF Some] by auto
    obtain e2 where e2: "rga_emit cap nodes parent (visited @ [i] @ e1) (fold ?push e1 (?push i out))
          = (visited @ [i] @ e1 @ e2, fold ?push e2 (fold ?push e1 (?push i out)))"
        "walk_ok nodes (visited @ [i] @ e1) e2" "descends nodes {parent} e2"
        "next_child nodes parent (visited @ [i] @ e1 @ e2) = None"
        "\<forall>j \<in> set e2. next_child nodes (rn_id (nodes ! j)) (visited @ [i] @ e1 @ e2) = None"
      using "1.IH"(2)[OF Some e1(1)[symmetric]] by auto
    have after: "rn_after (nodes ! i) = parent"
      using next_child_Some[OF Some] by (simp add: candidate_def)
    have "next_child nodes (rn_id (nodes ! j)) (visited @ [i] @ e1 @ e2) = None" if "j \<in> set (i # e1 @ e2)" for j
      using that e1(4,5) e2(5) by (auto intro: next_child_None_mono[of _ _ "visited @ [i] @ e1"])
    moreover have "walk_ok nodes visited (i # e1 @ e2)" "descends nodes {parent} (i # e1 @ e2)"
      using Some after e1(2,3) e2(2,3) by (auto intro: descends_mono)
    ultimately show ?thesis
      using e1(1) e2(1,4) Some by (intro exI[of _ "i # e1 @ e2"]) (simp add: rga_emit.simps)
  qed
qed

lemma walk_ok_distinct:
  "walk_ok nodes visited ext \<Longrightarrow> distinct ext \<and> set ext \<inter> set visited = {} \<and> set ext \<subseteq> {..<length nodes}"
  by (induction ext arbitrary: visited) (fastforce dest: next_child_Some simp: candidate_def)+

lemma walk_ok_siblings:
  assumes "walk_ok nodes [] (a @ i # b @ j # c)" "rn_after (nodes ! i) = rn_after (nodes ! j)"
  shows "rn_id (nodes ! i) \<le> rn_id (nodes ! j)"
proof -
  have "distinct (a @ i # b @ j # c)" "j < length nodes"
    using walk_ok_distinct[OF assms(1)] by auto
  then have "candidate nodes (rn_after (nodes ! i)) a j"
    using assms(2) by (auto simp: candidate_def)
  moreover have "next_child nodes (rn_after (nodes ! i)) a = Some i"
    using assms(1) by simp
  ultimately show ?thesis
    using next_child_Some by blast
qed

lemma descends_reach:
  assumes "descends nodes P ext" "set ext \<subseteq> {..<length nodes}" "\<forall>p \<in> P. p = 0 \<or> (\<exists>j. rga_reach nodes j \<and> rn_id (nodes ! j) = p)"
  shows "\<forall>i \<in> set ext. rga_reach nodes i"
  using assms
proof (induction ext arbitrary: P)
  case (Cons i ext)
  have len: "i < length nodes" and "rn_after (nodes ! i) \<in> P"
    using Cons.prems(1,2) by simp_all
  then have "rn_after (nodes ! i) = 0 \<or> (\<exists>j. rga_reach nodes j \<and> rn_id (nodes ! j) = rn_after (nodes ! i))"
    using Cons.prems(3) by blast
  then have i: "rga_reach nodes i"
    using reach_root[OF len] reach_child[OF _ len] by fastforce
  then show ?case
    using Cons.IH[of "insert (rn_id (nodes ! i)) P"] Cons.prems by auto
qed simp

lemma walk_complete:
  assumes "next_child nodes 0 ext = None" "\<forall>i \<in> set ext. next_child nodes (rn_id (nodes ! i)) ext = None" "rga_reach nodes i"
  shows "i \<in> set ext"
  using assms(3)
  by induction (use assms(1,2) in \<open>auto simp: next_child_None candidate_def\<close>)

lemma emit_all:
  "length out + length ext \<le> cap \<Longrightarrow> fold (\<lambda>i. emit_value cap (nodes ! i)) ext out
    = out @ map rn_value (filter (\<lambda>n. \<not> rn_tombstone n) (map (\<lambda>i. nodes ! i) ext))"
  by (induction ext arbitrary: out) (auto simp: emit_value_def)

lemma rga_walk:
  assumes "length (ts_live s) \<le> cap"
  shows "\<exists>order. distinct order \<and> set order = {i. rga_reach (ts_live s) i} \<and> descends (ts_live s) {0} order
     \<and> walk_ok (ts_live s) [] order
     \<and> rga_materialize cap s = map rn_value (filter (\<lambda>n. \<not> rn_tombstone n) (map (\<lambda>i. ts_live s ! i) order))"
proof -
  let ?nodes = "ts_live s"
  obtain ext where ext: "rga_emit cap ?nodes 0 [] [] = (ext, fold (\<lambda>i. emit_value cap (?nodes ! i)) ext [])"
      "walk_ok ?nodes [] ext" "descends ?nodes {0} ext" "next_child ?nodes 0 ext = None"
      "\<forall>i \<in> set ext. next_child ?nodes (rn_id (?nodes ! i)) ext = None"
    using rga_emit_walk[of cap ?nodes 0 "[]" "[]"] by auto
  have dist: "distinct ext" "set ext \<subseteq> {..<length ?nodes}"
    using walk_ok_distinct[OF ext(2)] by auto
  then have "length ext \<le> cap"
    using assms card_mono[OF _ dist(2)] by (simp add: distinct_card)
  moreover have "set ext = {i. rga_reach ?nodes i}"
    using descends_reach[OF ext(3) dist(2)] walk_complete[OF ext(4,5)] by auto
  ultimately show ?thesis
    using ext dist by (intro exI[of _ ext]) (simp add: rga_materialize_def emit_all)
qed



section \<open>The list as a map of nodes\<close>

definition rga_comb ::
  "('i::linorder, 'v::linorder) rga_node \<Rightarrow> ('i, 'v) rga_node \<Rightarrow> ('i, 'v) rga_node" where
  "rga_comb a b =
    (let removed = (rn_tombstone a \<or> rn_tombstone b)
     in if rn_after b < rn_after a \<or> rn_after b = rn_after a \<and> rn_value b < rn_value a
        then b\<lparr>rn_tombstone := removed\<rparr> else a\<lparr>rn_tombstone := removed\<rparr>)"

definition rga_nodes :: "('i, 'v) rga_state \<Rightarrow> 'i \<Rightarrow> ('i, 'v) rga_node option" where
  "rga_nodes s = keyed_map rn_id (ts_live s)"

definition rga_empty :: "nat \<Rightarrow> ('i::zero, 'v::zero) rga_state" where
  "rga_empty cap = ts_empty cap \<lparr>rn_id = 0, rn_after = 0, rn_value = 0, rn_tombstone = False\<rparr>"

definition rn_position :: "('i, 'v) rga_node \<Rightarrow> 'i \<times> 'v" where
  "rn_position n = (rn_after n, rn_value n)"

lemma rga_comb_fields:
  "rn_id a = rn_id b \<Longrightarrow> rn_id (rga_comb a b) = rn_id a"
  "rn_position (rga_comb a b) = min (rn_position a) (rn_position b)"
  "rn_tombstone (rga_comb a b) \<longleftrightarrow> rn_tombstone a \<or> rn_tombstone b"
  by (auto simp: rga_comb_def rn_position_def Let_def min_def)

lemma rga_node_eqI:
  "rn_id a = rn_id b \<Longrightarrow> rn_position a = rn_position b \<Longrightarrow> rn_tombstone a = rn_tombstone b \<Longrightarrow> a = b"
  for a b :: "('i, 'v) rga_node"
  by (simp add: rn_position_def)

interpretation rga_entries: keyed_entries rn_id rga_comb
proof
  fix a b c :: "('i::linorder, 'v::linorder) rga_node"
  assume ab: "rn_id a = rn_id b"
  show "rga_comb a b = rga_comb b a"
    using ab by (intro rga_node_eqI) (auto simp: rga_comb_fields min.commute)
  assume "rn_id b = rn_id c"
  then show "rga_comb (rga_comb a b) c = rga_comb a (rga_comb b c)"
    using ab by (intro rga_node_eqI) (auto simp: rga_comb_fields min.assoc)
qed (auto simp: rga_comb_fields rga_comb_def Let_def)

lemma rga_upsert_keyed: "rga_upsert = keyed_upsert rn_id rga_comb"
  by (intro ext) (auto simp: rga_upsert_def keyed_upsert_def rga_comb_def Let_def split: option.split)

lemma rga_erase_upsert:
  assumes "keyed_valid rn_id cap s" "rga_erase i s = (True, s')"
  shows "\<exists>e. keyed_upsert rn_id rga_comb cap e s = (True, s')"
proof -
  obtain idx where idx: "find_slot (\<lambda>e. rn_id e = i) (ts_live s) 0 = Some idx"
      and s': "s' = s\<lparr>ts_entries := (ts_entries s)[idx := (ts_entries s ! idx)\<lparr>rn_tombstone := True\<rparr>]\<rparr>"
    using assms(2) by (auto simp: rga_erase_def split: option.splits)
  define e where "e = (ts_entries s ! idx)\<lparr>rn_tombstone := True\<rparr>"
  have "rn_id e = i"
    using find_slot_Some[OF idx] by (auto simp: e_def ts_live_def)
  then show ?thesis
    using idx s' by (intro exI[of _ e]) (simp add: keyed_upsert_def e_def rga_comb_def)
qed

lemma rga_update_law:
  assumes "keyed_valid rn_id cap s" "rga_update cap op s = (b, s')"
  shows "keyed_valid rn_id cap s'
    \<and> (if b then \<exists>d. well_keyed rn_id d \<and> rga_nodes s' = join_maps rga_comb (rga_nodes s) d else s' = s)"
proof -
  have "(\<exists>e. keyed_upsert rn_id rga_comb cap e s = (b, s')) \<or> \<not> b \<and> s' = s"
  proof (cases op)
    case (Rga_Insert i after v)
    then show ?thesis
      using assms(2) by (auto simp: rga_insert_after_def rga_upsert_keyed)
  next
    case (Rga_Erase i)
    then show ?thesis
      using assms rga_erase_upsert[OF assms(1), of i s'] by (auto simp: rga_erase_def split: option.splits)
  qed
  moreover have "well_keyed rn_id [rn_id e \<mapsto> e]" for e :: "('a, 'b) rga_node"
    by (simp add: well_keyed_def)
  ultimately show ?thesis
    using rga_entries.upsert_spec[OF assms(1)] assms(1) by (fastforce simp: rga_nodes_def split: if_splits)
qed

interpretation rga: crdt "well_keyed rn_id" "join_maps rga_comb" "\<lambda>k. None" "keyed_valid rn_id cap" rga_nodes
  "rga_empty cap" "rga_update cap" "rga_merge cap" for cap
proof
  show "keyed_valid rn_id cap s'
      \<and> (if b then \<exists>d. well_keyed rn_id d \<and> rga_nodes s' = join_maps rga_comb (rga_nodes s) d else s' = s)"
    if "keyed_valid rn_id cap s" "rga_update cap op s = (b, s')" for s s' op b
    by (rule rga_update_law[OF that])
  show "keyed_valid rn_id cap s'
      \<and> (if b then rga_nodes s' = join_maps rga_comb (rga_nodes s) (rga_nodes t) else s' = s)"
    if "keyed_valid rn_id cap s" "keyed_valid rn_id cap t" "rga_merge cap s t = (b, s')" for s t s' b
    using rga_entries.merge_spec[OF that(1,2)] that(3) by (simp add: rga_nodes_def rga_merge_def rga_upsert_keyed)
qed (auto simp: rga_empty_def rga_nodes_def keyed_valid_empty well_keyed_map)



section \<open>The sequence depends on the map of nodes only\<close>

definition same_nodes :: "('i, 'v) rga_node list \<Rightarrow> ('i, 'v) rga_node list \<Rightarrow> bool" where
  "same_nodes nodes nodes' \<longleftrightarrow>
    distinct (map rn_id nodes) \<and> distinct (map rn_id nodes') \<and> set nodes = set nodes'"

definition same_visits :: "('i, 'v) rga_node list \<Rightarrow> ('i, 'v) rga_node list \<Rightarrow> nat list \<Rightarrow> nat list \<Rightarrow> bool" where
  "same_visits nodes nodes' v v' \<longleftrightarrow> map ((!) nodes) v = map ((!) nodes') v'
     \<and> set v \<subseteq> {..<length nodes} \<and> set v' \<subseteq> {..<length nodes'}"

lemma candidate_entry:
  assumes "distinct (map rn_id nodes)" "set v \<subseteq> {..<length nodes}" "i < length nodes"
  shows "candidate nodes parent v i \<longleftrightarrow> nodes ! i \<notin> set (map ((!) nodes) v) \<and> rn_after (nodes ! i) = parent"
proof -
  have "distinct nodes"
    using assms(1) by (simp add: distinct_map)
  then have "i \<in> set v \<longleftrightarrow> nodes ! i \<in> set (map ((!) nodes) v)"
    using assms(2,3) by (auto simp: nth_eq_iff_index_eq)
  then show ?thesis
    using assms(3) by (simp add: candidate_def)
qed

lemma candidate_agree:
  assumes "same_nodes nodes nodes'" "same_visits nodes nodes' v v'" "candidate nodes parent v i"
  shows "\<exists>i'. candidate nodes' parent v' i' \<and> nodes' ! i' = nodes ! i"
proof -
  have "i < length nodes"
    using assms(3) by (simp add: candidate_def)
  then obtain i' where i': "i' < length nodes'" "nodes' ! i' = nodes ! i"
    using assms(1) by (metis same_nodes_def in_set_conv_nth nth_mem)
  then show ?thesis
    using assms \<open>i < length nodes\<close> candidate_entry[of nodes v i parent] candidate_entry[of nodes' v' i' parent]
    by (auto simp: same_nodes_def same_visits_def)
qed

lemma same_sym: "same_nodes nodes nodes' \<Longrightarrow> same_nodes nodes' nodes"
  "same_visits nodes nodes' v v' \<Longrightarrow> same_visits nodes' nodes v' v"
  by (auto simp: same_nodes_def same_visits_def)

lemma next_child_agree:
  assumes "same_nodes nodes nodes'" "same_visits nodes nodes' v v'" "next_child nodes parent v = Some i"
  shows "\<exists>i'. next_child nodes' parent v' = Some i' \<and> nodes' ! i' = nodes ! i"
proof -
  note i = next_child_Some[OF assms(3)]
  obtain k where k: "candidate nodes' parent v' k" "nodes' ! k = nodes ! i"
    using candidate_agree[OF assms(1,2)] i by blast
  then obtain i' where i': "next_child nodes' parent v' = Some i'"
    using next_child_None[of nodes' parent v'] by (cases "next_child nodes' parent v'") auto
  obtain j where j: "candidate nodes parent v j" "nodes ! j = nodes' ! i'"
    using candidate_agree[OF same_sym(1)[OF assms(1)] same_sym(2)[OF assms(2)]] next_child_Some[OF i'] by blast
  have "rn_id (nodes' ! i') = rn_id (nodes ! i)"
    using next_child_Some[OF i'] k i j by (metis order_antisym)
  moreover have "inj_on rn_id (set nodes)"
    using assms(1) by (simp add: same_nodes_def distinct_map)
  moreover have "nodes ! j \<in> set nodes" "nodes ! i \<in> set nodes"
    using j(1) i by (simp_all add: candidate_def)
  ultimately have "nodes ! j = nodes ! i"
    using j(2) by (metis inj_onD)
  then show ?thesis
    using i' j by auto
qed


lemma same_visits_emit:
  assumes "same_visits nodes nodes' v v'"
    and "rga_emit cap nodes p v out = (w, x)" "rga_emit cap nodes' p' v' out' = (w', x')"
    and "map ((!) nodes) w = map ((!) nodes') w'"
  shows "same_visits nodes nodes' w w'"
proof -
  obtain e e' where "w = v @ e" "walk_ok nodes v e" "w' = v' @ e'" "walk_ok nodes' v' e'"
    using rga_emit_walk[of cap nodes p v out] rga_emit_walk[of cap nodes' p' v' out'] assms(2,3) by auto
  then show ?thesis
    using assms(1,4) walk_ok_distinct by (fastforce simp: same_visits_def)
qed

lemma rga_emit_agree:
  assumes "same_nodes nodes nodes'" "same_visits nodes nodes' v v'"
    and "rga_emit cap nodes p v out = (w, x)" "rga_emit cap nodes' p v' out = (w', x')"
  shows "x = x' \<and> map ((!) nodes) w = map ((!) nodes') w'"
  using assms
proof (induction cap nodes p v out arbitrary: v' w x w' x' rule: rga_emit.induct)
  case (1 cap nodes parent v out)
  show ?case
  proof (cases "next_child nodes parent v")
    case None
    then have "next_child nodes' parent v' = None"
      using next_child_agree[OF same_sym(1)[OF "1.prems"(1)] same_sym(2)[OF "1.prems"(2)], of parent]
      by (cases "next_child nodes' parent v'") auto
    then show ?thesis
      using None "1.prems" by (simp add: rga_emit.simps same_visits_def)
  next
    case (Some i)
    obtain i' where i': "next_child nodes' parent v' = Some i'" "nodes' ! i' = nodes ! i"
      using next_child_agree[OF "1.prems"(1,2) Some] by blast
    have visits: "same_visits nodes nodes' (v @ [i]) (v' @ [i'])"
      using "1.prems"(2) i'(2) next_child_Some[OF Some] next_child_Some[OF i'(1)]
      by (auto simp: same_visits_def candidate_def)
    obtain w1 x1 w1' x1' where
        e1: "rga_emit cap nodes (rn_id (nodes ! i)) (v @ [i]) (emit_value cap (nodes ! i) out) = (w1, x1)"
        "rga_emit cap nodes' (rn_id (nodes ! i)) (v' @ [i']) (emit_value cap (nodes ! i) out) = (w1', x1')"
      by fastforce
    have agree1: "x1 = x1'" "map ((!) nodes) w1 = map ((!) nodes') w1'"
      using "1.IH"(1)[OF Some "1.prems"(1) visits e1] by auto
    have "same_visits nodes nodes' w1 w1'"
      by (rule same_visits_emit[OF visits e1 agree1(2)])
    moreover have "rga_emit cap nodes parent w1 x1 = (w, x)" "rga_emit cap nodes' parent w1' x1 = (w', x')"
      using "1.prems"(3,4) Some i' e1 agree1(1) by (simp_all add: rga_emit.simps[of cap nodes] rga_emit.simps[of cap nodes' parent v'])
    ultimately show ?thesis
      using "1.IH"(2)[OF Some e1(1)[symmetric] "1.prems"(1)] by blast
  qed
qed

lemma rga_materialize_nodes:
  assumes "keyed_valid rn_id cap s" "keyed_valid rn_id cap t" "rga_nodes s = rga_nodes t"
  shows "rga_materialize cap s = rga_materialize cap t"
proof -
  have dist: "distinct (map rn_id (ts_live s))" "distinct (map rn_id (ts_live t))"
    using assms(1,2) by (simp_all add: keyed_valid_def)
  have "set (ts_live s) = set (ts_live t)"
    using assms(3) keyed_map_lookup[OF dist(1)] keyed_map_lookup[OF dist(2)] by (auto simp: rga_nodes_def)
  then have "same_nodes (ts_live s) (ts_live t)"
    using dist by (simp add: same_nodes_def)
  moreover have "same_visits (ts_live s) (ts_live t) [] []"
    by (simp add: same_visits_def)
  ultimately show ?thesis
    unfolding rga_materialize_def using rga_emit_agree by (metis prod.collapse)
qed

text \<open>C24.  Materialising the replicated list ends, in every reachable state and whatever the nodes'
  parent links are (cycles and missing parents included), with the values of the nodes that are not
  deleted and reachable from the root, each exactly once: the nodes are visited in an order in
  which each node comes after the node it follows and siblings come in the order of their
  identifiers.\<close>

theorem rga_materialize_walk:
  assumes "crdt_run (rga_update cap) (rga_merge cap) (rga_empty cap) k R M" "s = fst (R r)"
  shows "\<exists>order. distinct order \<and> set order = {i. rga_reach (ts_live s) i}
     \<and> rga_materialize cap s = map rn_value (filter (\<lambda>n. \<not> rn_tombstone n) (map (\<lambda>i. ts_live s ! i) order))
     \<and> descends (ts_live s) {0} order
     \<and> (\<forall>a i b j c. order = a @ i # b @ j # c \<and> rn_after (ts_live s ! i) = rn_after (ts_live s ! j)
          \<longrightarrow> rn_id (ts_live s ! i) \<le> rn_id (ts_live s ! j))"
proof -
  have "keyed_valid rn_id cap s"
    using rga.converge[OF assms(1) refl] assms(2) by simp
  then have "length (ts_live s) \<le> cap"
    by (simp add: keyed_valid_def ts_live_def)
  then obtain order where "distinct order" "set order = {i. rga_reach (ts_live s) i}" "descends (ts_live s) {0} order"
      "walk_ok (ts_live s) [] order"
      "rga_materialize cap s = map rn_value (filter (\<lambda>n. \<not> rn_tombstone n) (map (\<lambda>i. ts_live s ! i) order))"
    using rga_walk by blast
  then show ?thesis
    using walk_ok_siblings by (intro exI[of _ order]) blast
qed


definition sample_node :: "nat \<Rightarrow> nat \<Rightarrow> int \<Rightarrow> (nat, int) rga_node" where
  "sample_node i after v = \<lparr>rn_id = i, rn_after = after, rn_value = v, rn_tombstone = False\<rparr>"

lemma sample_rga_run:
  "\<exists>R M. crdt_run (rga_update 2) (rga_merge 2) (rga_empty 2) 2 R M
     \<and> R 0 = (\<lparr>ts_entries = [sample_node 1 0 10, sample_node 2 1 20], ts_count = 2\<rparr>, {0, 1})
     \<and> R 1 = (\<lparr>ts_entries = [sample_node 2 1 20, sample_node 1 0 10], ts_count = 2\<rparr>, {0, 1})"
proof (rule exchange_run[of _ "Rga_Insert 1 0 10" _ "\<lparr>ts_entries = [sample_node 1 0 10, sample_node 0 0 0], ts_count = 1\<rparr>"
      "Rga_Insert 2 1 20" "\<lparr>ts_entries = [sample_node 2 1 20, sample_node 0 0 0], ts_count = 1\<rparr>"])
qed (simp_all add: rga_empty_def ts_empty_def rga_insert_after_def rga_upsert_def ts_live_def ts_append_def rga_merge_def
    commit_merge_def merge_entries_def ts_well_formed_def sample_node_def eval_nat_numeral)

theorem rga_materialize_walk_witness:
  "\<exists>R M order. crdt_run (rga_update 2) (rga_merge 2) (rga_empty 2) 2 R M
     \<and> ts_live (fst (R 1)) = [sample_node 2 1 20, sample_node 1 0 10]
     \<and> 0 \<in> set order \<and> 1 \<in> set order \<and> distinct order \<and> descends (ts_live (fst (R 1))) {0} order
     \<and> rga_materialize 2 (fst (R 1)) = map rn_value (filter (\<lambda>n. \<not> rn_tombstone n) (map (\<lambda>i. ts_live (fst (R 1)) ! i) order))"
proof -
  obtain R M where run: "crdt_run (rga_update 2) (rga_merge 2) (rga_empty 2) 2 R M"
      and R1: "fst (R 1) = \<lparr>ts_entries = [sample_node 2 1 20, sample_node 1 0 10], ts_count = 2\<rparr>"
    using sample_rga_run by (metis fst_conv)
  have live: "ts_live (fst (R 1)) = [sample_node 2 1 20, sample_node 1 0 10]"
    unfolding R1 ts_live_def by simp
  obtain order where order: "distinct order" "set order = {i. rga_reach (ts_live (fst (R 1))) i}"
      "descends (ts_live (fst (R 1))) {0} order"
      "rga_materialize 2 (fst (R 1)) = map rn_value (filter (\<lambda>n. \<not> rn_tombstone n) (map (\<lambda>i. ts_live (fst (R 1)) ! i) order))"
    using rga_materialize_walk[OF run refl, of 1] by blast
  have r1: "rga_reach (ts_live (fst (R 1))) 1"
    unfolding live by (rule reach_root) (simp_all add: sample_node_def)
  have "rga_reach (ts_live (fst (R 1))) 0"
    using r1 unfolding live by (rule reach_child) (simp_all add: sample_node_def)
  then show ?thesis
    using run live order r1 by blast
qed

end
