(* ===== verification/Vector_Clock.thy ===== *)
theory Vector_Clock
  imports Crucible_Prelude
begin

text \<open>
  The vector clock of \<^verbatim>\<open>crucible/canopy/VectorClock.h\<close>: the sparse delta, the snapshot with its partial
  order, and the clock of one node.  A snapshot of a clock over $N$ nodes is a list of $N$ 64-bit
  counts.  The atomic loops on one count (\<^verbatim>\<open>atomic_max_\<close>, \<^verbatim>\<open>bump_slot_\<close>) are their effect.  The
  last section executes a set of nodes that exchange snapshots and shows that the order of the
  snapshots is the happened-before relation.
\<close>

section \<open>Deltas\<close>

type_synonym vc_delta = "(nat \<times> u64) list"

fun raise_value :: "nat \<Rightarrow> u64 \<Rightarrow> vc_delta \<Rightarrow> vc_delta option" where
  "raise_value node_id value [] = None"
| "raise_value node_id value ((i, v) # d) =
    (if i = node_id then Some ((i, if v < value then value else v) # d)
     else map_option (Cons (i, v)) (raise_value node_id value d))"

definition delta_push :: "nat \<Rightarrow> nat \<Rightarrow> u64 \<Rightarrow> vc_delta \<Rightarrow> bool \<times> vc_delta" where
  "delta_push max_nodes node value d =
    (if value = 0 then (True, d)
     else case raise_value node value d of
       Some d' \<Rightarrow> (True, d')
     | None \<Rightarrow> if length d = max_nodes then (False, d) else (True, d @ [(node, value)]))"


section \<open>Snapshots\<close>

type_synonym vc_snapshot = "u64 list"

datatype partial_ordering = PO_less | PO_equivalent | PO_greater | PO_unordered

definition vc_zero :: "nat \<Rightarrow> vc_snapshot" where
  "vc_zero max_nodes = replicate max_nodes 0"

definition positive_at :: "vc_snapshot \<Rightarrow> nat \<Rightarrow> u64 option" where
  "positive_at s node = (let value = s ! node in if value = 0 then None else Some value)"

fun vc_leq :: "vc_snapshot \<Rightarrow> vc_snapshot \<Rightarrow> bool" where
  "vc_leq (a # lhs) (b # rhs) = (if a > b then False else vc_leq lhs rhs)"
| "vc_leq lhs rhs = True"

definition vc_compare :: "vc_snapshot \<Rightarrow> vc_snapshot \<Rightarrow> partial_ordering" where
  "vc_compare self other =
    (let self_leq_other = vc_leq self other; other_leq_self = vc_leq other self in
     if self_leq_other \<and> other_leq_self then PO_equivalent
     else if self_leq_other then PO_less
     else if other_leq_self then PO_greater
     else PO_unordered)"

definition happens_before :: "vc_snapshot \<Rightarrow> vc_snapshot \<Rightarrow> bool" where
  "happens_before self other \<longleftrightarrow> vc_leq self other \<and> \<not> self = other"

definition concurrent_with :: "vc_snapshot \<Rightarrow> vc_snapshot \<Rightarrow> bool" where
  "concurrent_with self other \<longleftrightarrow> \<not> vc_leq self other \<and> \<not> vc_leq other self"

definition comparable_with :: "vc_snapshot \<Rightarrow> vc_snapshot \<Rightarrow> bool" where
  "comparable_with self other \<longleftrightarrow> vc_leq self other \<or> vc_leq other self"

definition sparse_delta :: "vc_snapshot \<Rightarrow> vc_delta" where
  "sparse_delta s = fold (\<lambda>i d. snd (delta_push (length s) i (s ! i) d)) [0..<length s] []"

definition from_sparse_delta :: "nat \<Rightarrow> vc_delta \<Rightarrow> vc_snapshot" where
  "from_sparse_delta max_nodes d = fold (\<lambda>(i, v) out. out[i := v]) d (vc_zero max_nodes)"


section \<open>Clocks\<close>

record vector_clock =
  vc_entries :: "u64 list"
  vc_self :: nat

definition mint_vector_clock :: "nat \<Rightarrow> nat \<Rightarrow> vector_clock checked" where
  "mint_vector_clock max_nodes self_id =
    (if self_id \<le> max_nodes - 1 then ok \<lparr>vc_entries = vc_zero max_nodes, vc_self = self_id\<rparr>
     else fail Contract_violation)"

definition atomic_max :: "u64 \<Rightarrow> u64 \<Rightarrow> u64" where
  "atomic_max slot incoming = (if slot < incoming then incoming else slot)"

definition bump_slot :: "u64 \<Rightarrow> u64" where
  "bump_slot current = (if current = - 1 then current else current + 1)"

definition merge_snapshot :: "vc_snapshot \<Rightarrow> vector_clock \<Rightarrow> vector_clock" where
  "merge_snapshot incoming c = c\<lparr>vc_entries := map2 atomic_max (vc_entries c) incoming\<rparr>"

definition vc_snapshot_of :: "vector_clock \<Rightarrow> vc_snapshot" where
  "vc_snapshot_of c = vc_entries c"

definition on_local_event :: "vector_clock \<Rightarrow> vector_clock" where
  "on_local_event c = c\<lparr>vc_entries := (vc_entries c)[vc_self c := bump_slot (vc_entries c ! vc_self c)]\<rparr>"

definition on_send :: "vector_clock \<Rightarrow> vc_snapshot \<times> vector_clock" where
  "on_send c = (let c' = on_local_event c in (vc_snapshot_of c', c'))"

definition on_send_to :: "vector_clock \<Rightarrow> vector_clock \<Rightarrow> vector_clock \<times> vector_clock" where
  "on_send_to outgoing c = (let (s, c') = on_send c in (merge_snapshot s outgoing, c'))"

definition on_recv :: "vc_snapshot \<Rightarrow> vector_clock \<Rightarrow> vector_clock" where
  "on_recv incoming c = on_local_event (merge_snapshot incoming c)"

definition on_recv_delta :: "vc_delta \<Rightarrow> vector_clock \<Rightarrow> vector_clock" where
  "on_recv_delta incoming c = on_recv (from_sparse_delta (length (vc_entries c)) incoming) c"

definition apply_delta :: "vc_delta \<Rightarrow> vector_clock \<Rightarrow> vector_clock" where
  "apply_delta d c = merge_snapshot (from_sparse_delta (length (vc_entries c)) d) c"


section \<open>The order and the deltas\<close>

lemma vc_leq_iff: "length a = length b \<Longrightarrow> vc_leq a b \<longleftrightarrow> (\<forall>i < length a. a ! i \<le> b ! i)"
  by (induction a b rule: vc_leq.induct) (auto simp: nth_Cons not_less split: nat.splits)

lemma vc_leq_antisym: "length a = length b \<Longrightarrow> vc_leq a b \<Longrightarrow> vc_leq b a \<Longrightarrow> a = b"
  by (auto simp: vc_leq_iff list_eq_iff_nth_eq intro: antisym)

lemma vc_leq_refl [simp]: "vc_leq a a"
  by (simp add: vc_leq_iff)

lemma vc_leq_trans: "length a = length b \<Longrightarrow> length b = length c \<Longrightarrow> vc_leq a b \<Longrightarrow> vc_leq b c \<Longrightarrow> vc_leq a c"
  by (auto simp: vc_leq_iff intro: order_trans)

lemma happens_before_trans:
  "length a = length b \<Longrightarrow> length b = length c \<Longrightarrow> happens_before a b \<Longrightarrow> happens_before b c \<Longrightarrow> happens_before a c"
  unfolding happens_before_def by (metis vc_leq_antisym vc_leq_trans)

lemma vc_compare_less: "length a = length b \<Longrightarrow> vc_compare a b = PO_less \<longleftrightarrow> happens_before a b"
  by (auto simp: vc_compare_def happens_before_def Let_def dest: vc_leq_antisym)

lemma vc_compare_unordered: "vc_compare a b = PO_unordered \<longleftrightarrow> concurrent_with a b"
  by (auto simp: vc_compare_def concurrent_with_def Let_def)

lemma raise_absent: "i \<notin> fst ` set d \<Longrightarrow> raise_value i v d = None"
  by (induction d) auto

lemma sparse_delta_prefix:
  assumes "k \<le> length s"
  shows "fold (\<lambda>i d. snd (delta_push (length s) i (s ! i) d)) [0..<k] []
    = map (\<lambda>i. (i, s ! i)) (filter (\<lambda>i. s ! i \<noteq> 0) [0..<k])"
  using assms
proof (induction k)
  case (Suc k)
  let ?d = "map (\<lambda>i. (i, s ! i)) (filter (\<lambda>i. s ! i \<noteq> 0) [0..<k])"
  have "raise_value k (s ! k) ?d = None"
    by (rule raise_absent) auto
  moreover have "length ?d \<le> k"
    using length_filter_le[of "\<lambda>i. s ! i \<noteq> 0" "[0..<k]"] by simp
  ultimately show ?case
    using Suc by (auto simp: delta_push_def)
qed simp

lemma fold_update_nth:
  assumes "distinct (map fst d)" "i < length out"
  shows "fold (\<lambda>(i, v) out. out[i := v]) d out ! i = (case map_of d i of None \<Rightarrow> out ! i | Some v \<Rightarrow> v)"
  using assms
proof (induction d arbitrary: out)
  case (Cons e d)
  have "map_of d (fst e) = None"
    using Cons.prems(1) by (simp add: map_of_eq_None_iff)
  then show ?case
    using Cons by (cases e) (auto split: option.splits)
qed simp

lemma length_fold_update [simp]: "length (fold (\<lambda>(i, v) out. out[i := v]) d out) = length out"
  by (induction d arbitrary: out) auto

lemma sparse_delta_roundtrip: "from_sparse_delta (length s) (sparse_delta s) = s"
proof (rule nth_equalityI)
  let ?d = "map (\<lambda>i. (i, s ! i)) (filter (\<lambda>i. s ! i \<noteq> 0) [0..<length s])"
  have d: "sparse_delta s = ?d"
    unfolding sparse_delta_def by (rule sparse_delta_prefix) simp
  show "length (from_sparse_delta (length s) (sparse_delta s)) = length s"
    by (simp add: from_sparse_delta_def vc_zero_def)
  fix i assume "i < length (from_sparse_delta (length s) (sparse_delta s))"
  then have i: "i < length s"
    by (simp add: from_sparse_delta_def vc_zero_def)
  have keys: "map fst ?d = filter (\<lambda>i. s ! i \<noteq> 0) [0..<length s]"
    by (simp add: comp_def)
  have "map_of ?d i = (if s ! i \<noteq> 0 then Some (s ! i) else None)"
  proof (cases "s ! i = 0")
    case False
    then have "(i, s ! i) \<in> set ?d" "distinct (map fst ?d)"
      using i by (auto simp: comp_def)
    then show ?thesis
      using False map_of_is_SomeI by fastforce
  next
    case True
    then have "i \<notin> fst ` set ?d"
      by auto
    then show ?thesis
      using True by (simp add: map_of_eq_None_iff del: set_map)
  qed
  then show "from_sparse_delta (length s) (sparse_delta s) ! i = s ! i"
    using i keys by (simp add: from_sparse_delta_def d fold_update_nth vc_zero_def)
qed



section \<open>Causality\<close>

text \<open>An execution of nodes that perform local events, send their snapshot, and receive a snapshot
  that an earlier step sent.  The result pairs the clocks with the snapshot after each step.\<close>

datatype vc_event = Local_event nat | Send_event nat | Recv_event nat nat

fun event_node :: "vc_event \<Rightarrow> nat" where
  "event_node (Local_event p) = p"
| "event_node (Send_event p) = p"
| "event_node (Recv_event p m) = p"

fun vc_exec :: "vector_clock list \<times> vc_snapshot list \<Rightarrow> vc_event \<Rightarrow> vector_clock list \<times> vc_snapshot list" where
  "vc_exec (clocks, snaps) (Local_event p) =
    (let c = on_local_event (clocks ! p) in (clocks[p := c], snaps @ [vc_snapshot_of c]))"
| "vc_exec (clocks, snaps) (Send_event p) =
    (let (s, c) = on_send (clocks ! p) in (clocks[p := c], snaps @ [s]))"
| "vc_exec (clocks, snaps) (Recv_event p m) =
    (let c = on_recv (snaps ! m) (clocks ! p) in (clocks[p := c], snaps @ [vc_snapshot_of c]))"

definition vc_initial :: "nat \<Rightarrow> vector_clock list" where
  "vc_initial n = map (\<lambda>p. \<lparr>vc_entries = vc_zero n, vc_self = p\<rparr>) [0..<n]"

definition vc_run :: "nat \<Rightarrow> vc_event list \<Rightarrow> vector_clock list \<times> vc_snapshot list" where
  "vc_run n es = foldl vc_exec (vc_initial n, []) es"

definition vc_events_ok :: "nat \<Rightarrow> vc_event list \<Rightarrow> bool" where
  "vc_events_ok n es \<longleftrightarrow> (\<forall>j < length es. event_node (es ! j) < n
     \<and> (case es ! j of Recv_event p m \<Rightarrow> m < j \<and> (case es ! m of Send_event q \<Rightarrow> True | _ \<Rightarrow> False) | _ \<Rightarrow> True))"

text \<open>The specification: program order on a node, and the order from a send to its receipts.\<close>

definition precedes :: "vc_event list \<Rightarrow> nat \<Rightarrow> nat \<Rightarrow> bool" where
  "precedes es i j \<longleftrightarrow> i < j \<and> j < length es
     \<and> (event_node (es ! i) = event_node (es ! j) \<or> (\<exists>p. es ! j = Recv_event p i))"

definition events_on :: "vc_event list \<Rightarrow> nat \<Rightarrow> nat \<Rightarrow> nat" where
  "events_on es q k = length (filter (\<lambda>e. event_node e = q) (take k es))"

definition event_rank :: "vc_event list \<Rightarrow> nat \<Rightarrow> nat" where
  "event_rank es i = events_on es (event_node (es ! i)) (Suc i)"

definition past :: "vc_event list \<Rightarrow> nat \<Rightarrow> nat set" where
  "past es j = {i. (precedes es)\<^sup>*\<^sup>* i j}"

definition node_past :: "vc_event list \<Rightarrow> nat \<Rightarrow> nat \<Rightarrow> nat set" where
  "node_past es p k = {i. \<exists>l < k. event_node (es ! l) = p \<and> i \<in> past es l}"

definition represents :: "vc_event list \<Rightarrow> vc_snapshot \<Rightarrow> nat set \<Rightarrow> bool" where
  "represents es v H \<longleftrightarrow> (\<forall>i < length es. i \<in> H \<longleftrightarrow> event_rank es i \<le> unat (v ! event_node (es ! i)))"

lemma events_on_Suc:
  "k < length es \<Longrightarrow> events_on es q (Suc k) = events_on es q k + (if event_node (es ! k) = q then 1 else 0)"
  by (simp add: events_on_def take_Suc_conv_app_nth)

lemma events_on_0 [simp]: "events_on es q 0 = 0"
  by (simp add: events_on_def)

lemma events_on_le: "events_on es q k \<le> k"
  unfolding events_on_def by (rule order_trans[OF length_filter_le]) simp

lemma events_on_mono: "j \<le> k \<Longrightarrow> events_on es q j \<le> events_on es q k"
proof (induction rule: dec_induct)
  case (step k)
  then show ?case
    using events_on_Suc[of k es q] by (cases "k < length es") (auto simp: events_on_def)
qed simp

lemma rank_le_iff:
  assumes "i < length es" "event_node (es ! i) = q"
  shows "event_rank es i \<le> events_on es q k \<longleftrightarrow> i < k"
proof (cases "i < k")
  case False
  then have "events_on es q k \<le> events_on es q i"
    by (simp add: events_on_mono)
  then show ?thesis
    using False assms by (simp add: event_rank_def events_on_Suc)
qed (use assms events_on_mono[of "Suc i" k es q] in \<open>simp add: event_rank_def\<close>)

lemma event_rank_surj:
  assumes "0 < r" "r \<le> events_on es q k" "k \<le> length es"
  shows "\<exists>x < k. event_node (es ! x) = q \<and> event_rank es x = r"
  using assms
proof (induction k)
  case (Suc k)
  show ?case
  proof (cases "r \<le> events_on es q k")
    case False
    then have "event_node (es ! k) = q" "r = events_on es q (Suc k)"
      using Suc.prems events_on_Suc[of k es q] by (auto split: if_splits)
    then show ?thesis
      by (auto simp: event_rank_def)
  qed (use Suc less_Suc_eq in auto)
qed simp

lemma precedes_le: "(precedes es)\<^sup>*\<^sup>* i j \<Longrightarrow> i \<le> j"
  by (induction rule: rtranclp_induct) (auto simp: precedes_def)

lemma precedes_less: "(precedes es)\<^sup>+\<^sup>+ i j \<Longrightarrow> i < j"
  by (induction rule: tranclp_induct) (auto simp: precedes_def)

lemma past_self [simp]: "j \<in> past es j"
  by (simp add: past_def)

lemma past_step:
  assumes "k < length es" "vc_events_ok n es"
  shows "past es k = insert k (node_past es (event_node (es ! k)) k
      \<union> (case es ! k of Recv_event p m \<Rightarrow> past es m | _ \<Rightarrow> {}))" (is "_ = insert k (?N \<union> ?M)")
proof (intro equalityI subsetI)
  fix i assume "i \<in> past es k"
  then consider "i = k" | l where "(precedes es)\<^sup>*\<^sup>* i l" "precedes es l k"
    by (auto simp: past_def elim: rtranclp.cases)
  then show "i \<in> insert k (?N \<union> ?M)"
    by cases (auto simp: node_past_def past_def precedes_def)
next
  fix i assume i: "i \<in> insert k (?N \<union> ?M)"
  have "precedes es l k" if "l < k" "event_node (es ! l) = event_node (es ! k) \<or> (\<exists>p. es ! k = Recv_event p l)" for l
    using that assms(1) by (auto simp: precedes_def)
  moreover have "m < k" if "es ! k = Recv_event p m" for p m
    using assms that by (auto simp: vc_events_ok_def split: vc_event.splits)
  ultimately show "i \<in> past es k"
    using i by (auto simp: node_past_def past_def split: vc_event.splits intro: rtranclp.rtrancl_into_rtrancl)
qed

lemma node_past_Suc:
  assumes "k < length es" "vc_events_ok n es"
  shows "node_past es p (Suc k) = (if event_node (es ! k) = p then past es k else node_past es p k)"
proof -
  have "node_past es p k \<subseteq> past es k" if "event_node (es ! k) = p"
    using past_step[OF assms] that by auto
  moreover have "node_past es p (Suc k) = node_past es p k \<union> (if event_node (es ! k) = p then past es k else {})"
    by (auto simp: node_past_def less_Suc_eq)
  ultimately show ?thesis
    by auto
qed

lemma represents_merge:
  assumes "represents es v H" "represents es w G" "length v = n" "length w = n" "vc_events_ok n es"
  shows "represents es (map2 atomic_max v w) (H \<union> G)"
proof -
  have "unat (map2 atomic_max v w ! q) = max (unat (v ! q)) (unat (w ! q))" if "q < n" for q
    using assms(3,4) that by (auto simp: atomic_max_def word_less_nat_alt)
  then show ?thesis
    using assms(1,2,5) by (auto simp: represents_def vc_events_ok_def le_max_iff_disj)
qed

lemma represents_bump:
  assumes "represents es v H" "k < length es" "p = event_node (es ! k)" "p < length v"
    and "unat (v ! p) = events_on es p k" "length es < 2 ^ 64"
  shows "represents es (v[p := bump_slot (v ! p)]) (insert k H)" "unat (bump_slot (v ! p)) = events_on es p (Suc k)"
proof -
  have "unat (v ! p) + 1 < 2 ^ 64"
    using assms(2,5,6) events_on_le[of es p k] by linarith
  moreover from this have "v ! p \<noteq> - 1"
    by (auto simp: unat_max_word)
  ultimately show bump: "unat (bump_slot (v ! p)) = events_on es p (Suc k)"
    using assms(2,3,5) by (simp add: bump_slot_def unat_add_exact events_on_Suc)
  show "represents es (v[p := bump_slot (v ! p)]) (insert k H)"
    unfolding represents_def
  proof (intro allI impI)
    fix i assume i: "i < length es"
    show "i \<in> insert k H \<longleftrightarrow> event_rank es i \<le> unat (v[p := bump_slot (v ! p)] ! event_node (es ! i))"
    proof (cases "event_node (es ! i) = p")
      case True
      then show ?thesis
        using assms(1,4,5) i bump rank_le_iff[OF i True, of k] rank_le_iff[OF i True, of "Suc k"]
        by (auto simp: represents_def)
    next
      case False
      then show ?thesis
        using assms(1,3) i by (auto simp: represents_def)
    qed
  qed
qed


text \<open>What holds of the clocks and snapshots after the first steps.\<close>

definition clock_ok :: "nat \<Rightarrow> vc_event list \<Rightarrow> nat \<Rightarrow> vc_snapshot \<Rightarrow> nat set \<Rightarrow> bool" where
  "clock_ok n es k v H \<longleftrightarrow> length v = n \<and> (\<forall>q < n. unat (v ! q) \<le> events_on es q k) \<and> represents es v H"

definition run_ok :: "nat \<Rightarrow> vc_event list \<Rightarrow> nat \<Rightarrow> vector_clock list \<times> vc_snapshot list \<Rightarrow> bool" where
  "run_ok n es k st \<longleftrightarrow> length (fst st) = n \<and> length (snd st) = k
     \<and> (\<forall>p < n. vc_self (fst st ! p) = p \<and> clock_ok n es k (vc_entries (fst st ! p)) (node_past es p k)
          \<and> unat (vc_entries (fst st ! p) ! p) = events_on es p k)
     \<and> (\<forall>j < k. clock_ok n es k (snd st ! j) (past es j))"

lemma clock_ok_Suc: "clock_ok n es k v H \<Longrightarrow> clock_ok n es (Suc k) v H"
  using events_on_mono[of k "Suc k" es] by (auto simp: clock_ok_def intro: order_trans)

lemma clock_ok_merge:
  assumes "clock_ok n es k v H" "clock_ok n es k w G" "vc_events_ok n es"
  shows "clock_ok n es k (map2 atomic_max v w) (H \<union> G)"
  using assms represents_merge[of es v H w G n] by (auto simp: clock_ok_def atomic_max_def)

lemma clock_ok_bump:
  assumes "clock_ok n es k v H" "k < length es" "p = event_node (es ! k)" "p < n"
    and "unat (v ! p) = events_on es p k" "length es < 2 ^ 64"
  shows "clock_ok n es (Suc k) (v[p := bump_slot (v ! p)]) (insert k H)"
    "unat (v[p := bump_slot (v ! p)] ! p) = events_on es p (Suc k)"
  using assms represents_bump[of es v H k p] events_on_mono[of k "Suc k" es]
  by (auto simp: clock_ok_def nth_list_update intro: order_trans)

lemma run_ok_initial:
  assumes "vc_events_ok n es"
  shows "run_ok n es 0 (vc_initial n, [])"
proof -
  have "event_rank es i \<noteq> 0" if "i < length es" for i
    using that by (simp add: event_rank_def events_on_Suc)
  moreover have "replicate n 0 ! event_node (es ! i) = (0 :: u64)" if "i < length es" for i
    using assms that by (simp add: vc_events_ok_def)
  ultimately show ?thesis
    by (auto simp: run_ok_def vc_initial_def vc_zero_def clock_ok_def represents_def node_past_def)
qed

text \<open>Every step merges what it receives (nothing, except for a receipt) and counts itself.\<close>

definition received :: "vc_event \<Rightarrow> vc_snapshot list \<Rightarrow> vc_snapshot \<Rightarrow> vc_snapshot" where
  "received e snaps v = (case e of Recv_event p m \<Rightarrow> map2 atomic_max v (snaps ! m) | _ \<Rightarrow> v)"

lemma vc_exec_eq:
  assumes "p = event_node e" "c = clocks ! p" "vc_self c = p" "v = received e snaps (vc_entries c)"
  shows "vc_exec (clocks, snaps) e =
    (clocks[p := c\<lparr>vc_entries := v[p := bump_slot (v ! p)]\<rparr>], snaps @ [v[p := bump_slot (v ! p)]])"
  using assms
  by (cases e) (auto simp: Let_def on_local_event_def on_send_def on_recv_def merge_snapshot_def vc_snapshot_of_def received_def)

lemma run_ok_step:
  assumes "run_ok n es k (clocks, snaps)" "k < length es" "vc_events_ok n es" "length es < 2 ^ 64"
  shows "run_ok n es (Suc k) (vc_exec (clocks, snaps) (es ! k))"
proof -
  define p where "p = event_node (es ! k)"
  define v where "v = received (es ! k) snaps (vc_entries (clocks ! p))"
  define w where "w = v[p := bump_slot (v ! p)]"
  have p: "p < n"
    using assms(2,3) by (simp add: vc_events_ok_def p_def)
  have own: "vc_self (clocks ! p) = p" "clock_ok n es k (vc_entries (clocks ! p)) (node_past es p k)"
      "unat (vc_entries (clocks ! p) ! p) = events_on es p k"
    using assms(1) p by (auto simp: run_ok_def)
  have m: "m < k" if "es ! k = Recv_event q m" for q m
    using assms(2,3) that by (auto simp: vc_events_ok_def split: vc_event.splits)
  have v: "clock_ok n es k v (node_past es p k \<union> (case es ! k of Recv_event q m \<Rightarrow> past es m | _ \<Rightarrow> {}))"
    using own(2) assms(1,3) m by (auto simp: v_def received_def run_ok_def intro!: clock_ok_merge split: vc_event.splits)
  moreover have "unat (v ! p) = events_on es p k"
  proof (cases "es ! k")
    case (Recv_event q m)
    have "clock_ok n es k (snaps ! m) (past es m)"
      using assms(1) m[OF Recv_event] by (auto simp: run_ok_def)
    then have "length (snaps ! m) = n" "unat (snaps ! m ! p) \<le> events_on es p k"
      using p by (auto simp: clock_ok_def)
    then show ?thesis
      using own(2,3) p by (auto simp: v_def received_def Recv_event atomic_max_def clock_ok_def word_less_nat_alt)
  qed (use own(3) in \<open>simp_all add: v_def received_def\<close>)
  ultimately have w: "clock_ok n es (Suc k) w (past es k)" "unat (w ! p) = events_on es p (Suc k)"
    using clock_ok_bump[OF _ assms(2) p_def p _ assms(4)] past_step[OF assms(2,3)] by (auto simp: w_def p_def)
  have "vc_exec (clocks, snaps) (es ! k) = (clocks[p := (clocks ! p)\<lparr>vc_entries := w\<rparr>], snaps @ [w])"
    unfolding w_def by (rule vc_exec_eq[OF p_def refl own(1) v_def])
  then show ?thesis
    using assms(1) w own(1) p node_past_Suc[OF assms(2,3)] events_on_Suc[OF assms(2)]
    by (auto simp: run_ok_def nth_list_update nth_append less_Suc_eq p_def intro: clock_ok_Suc)
qed

lemma vc_run_ok:
  assumes "vc_events_ok n es" "length es < 2 ^ 64" "k \<le> length es"
  shows "run_ok n es k (vc_run n (take k es))"
  using assms(3)
proof (induction k)
  case 0
  show ?case
    using run_ok_initial[OF assms(1)] by (simp add: vc_run_def)
next
  case (Suc k)
  then show ?case
    using run_ok_step[OF _ _ assms(1,2), of k "fst (vc_run n (take k es))" "snd (vc_run n (take k es))"]
    by (simp add: vc_run_def take_Suc_conv_app_nth)
qed

lemma past_iff_leq:
  assumes "vc_events_ok n es" "length es < 2 ^ 64" "i < length es" "j < length es"
    and "snaps = snd (vc_run n es)"
  shows "length (snaps ! i) = n \<and> (i \<in> past es j \<longleftrightarrow> vc_leq (snaps ! i) (snaps ! j))"
proof -
  let ?k = "length es"
  have ok: "clock_ok n es ?k (snaps ! l) (past es l)" if "l < ?k" for l
    using vc_run_ok[OF assms(1,2) order_refl] that by (simp add: run_ok_def assms(5))
  have leq: "vc_leq (snaps ! i) (snaps ! j) \<longleftrightarrow> (\<forall>q < n. snaps ! i ! q \<le> snaps ! j ! q)"
    using ok assms(3,4) by (simp add: vc_leq_iff clock_ok_def)
  have rank: "x \<in> past es l \<longleftrightarrow> event_rank es x \<le> unat (snaps ! l ! event_node (es ! x))"
    if "x < ?k" "l < ?k" for x l
    using ok[OF that(2)] that(1) by (simp add: clock_ok_def represents_def)
  have "i \<in> past es j" if "\<forall>q < n. snaps ! i ! q \<le> snaps ! j ! q"
  proof -
    have "unat (snaps ! i ! event_node (es ! i)) \<le> unat (snaps ! j ! event_node (es ! i))"
      using that assms(1,3) by (simp add: vc_events_ok_def word_le_nat_alt)
    then show ?thesis
      using rank[of i i] rank[of i j] assms(3,4) by simp
  qed
  moreover have "snaps ! i ! q \<le> snaps ! j ! q" if ij: "i \<in> past es j" "q < n" for q
  proof (cases "unat (snaps ! i ! q) = 0")
    case False
    then obtain x where x: "x < ?k" "event_node (es ! x) = q" "event_rank es x = unat (snaps ! i ! q)"
      using event_rank_surj[of "unat (snaps ! i ! q)" es q ?k] ok[OF assms(3)] ij(2) by (auto simp: clock_ok_def)
    then have "x \<in> past es i"
      using rank assms(3) by simp
    then have "x \<in> past es j"
      using ij(1) by (auto simp: past_def)
    then show ?thesis
      using rank[of x j] x assms(4) by (simp add: word_le_nat_alt)
  qed (simp add: word_le_nat_alt)
  ultimately show ?thesis
    using leq ok[OF assms(3)] by (auto simp: clock_ok_def)
qed

text \<open>C8.  The snapshots decide causality: in every execution of fewer than $2^{64}$ events in which each receipt takes the snapshot of
  an earlier send, one step's snapshot happens before another's exactly when the first step
  happened before the second (by the order on one node and from sends to receipts), two snapshots
  are concurrent exactly when neither step happened before the other, and a snapshot sent as a
  sparse delta is received unchanged.\<close>

theorem vector_clock_causality:
  assumes "vc_events_ok n es" "length es < 2 ^ 64" "i < length es" "j < length es"
    and "snaps = snd (vc_run n es)"
  shows "(happens_before (snaps ! i) (snaps ! j) \<longleftrightarrow> (precedes es)\<^sup>+\<^sup>+ i j)
     \<and> (concurrent_with (snaps ! i) (snaps ! j)
          \<longleftrightarrow> i \<noteq> j \<and> \<not> (precedes es)\<^sup>+\<^sup>+ i j \<and> \<not> (precedes es)\<^sup>+\<^sup>+ j i)
     \<and> from_sparse_delta n (sparse_delta (snaps ! i)) = snaps ! i"
proof -
  have ij: "length (snaps ! i) = n" "i \<in> past es j \<longleftrightarrow> vc_leq (snaps ! i) (snaps ! j)"
    and ji: "length (snaps ! j) = n" "j \<in> past es i \<longleftrightarrow> vc_leq (snaps ! j) (snaps ! i)"
    using past_iff_leq[OF assms] past_iff_leq[OF assms(1,2,4,3,5)] by auto
  have tr: "(precedes es)\<^sup>+\<^sup>+ x y \<longleftrightarrow> x \<in> past es y \<and> x \<noteq> y" for x y
    using precedes_less[of es x y] by (auto simp: past_def dest: rtranclpD)
  have eq: "snaps ! i = snaps ! j \<longleftrightarrow> i = j"
  proof
    assume "snaps ! i = snaps ! j"
    then have "i \<in> past es j" "j \<in> past es i"
      using ij(2) ji(2) by simp_all
    then show "i = j"
      using precedes_le[of es i j] precedes_le[of es j i] by (simp add: past_def)
  qed simp
  have "happens_before (snaps ! i) (snaps ! j) \<longleftrightarrow> (precedes es)\<^sup>+\<^sup>+ i j"
    using ij(2) eq tr by (auto simp: happens_before_def)
  moreover have "concurrent_with (snaps ! i) (snaps ! j)
      \<longleftrightarrow> i \<noteq> j \<and> \<not> (precedes es)\<^sup>+\<^sup>+ i j \<and> \<not> (precedes es)\<^sup>+\<^sup>+ j i"
    using ij(2) ji(2) tr by (auto simp: concurrent_with_def)
  ultimately show ?thesis
    using sparse_delta_roundtrip[of "snaps ! i"] ij(1) by simp
qed


definition sample_events :: "vc_event list" where
  "sample_events = [Send_event 0, Recv_event 1 0, Local_event 0]"

lemma sample_events_run: "snd (vc_run 2 sample_events) = [[1, 0], [1, 1], [2, 0]]"
  by (simp add: vc_run_def sample_events_def vc_initial_def vc_zero_def on_send_def on_recv_def on_local_event_def
      merge_snapshot_def vc_snapshot_of_def bump_slot_def atomic_max_def upt_rec numeral_2_eq_2)

theorem vector_clock_causality_witness:
  "(precedes sample_events)\<^sup>+\<^sup>+ 0 1 \<and> \<not> (precedes sample_events)\<^sup>+\<^sup>+ 1 2 \<and> \<not> (precedes sample_events)\<^sup>+\<^sup>+ 2 1"
proof -
  have ok: "vc_events_ok 2 sample_events"
    by (auto simp: vc_events_ok_def sample_events_def less_Suc_eq numeral_2_eq_2 numeral_3_eq_3)
  note run = sample_events_run[symmetric]
  have "(precedes sample_events)\<^sup>+\<^sup>+ 0 1"
    using vector_clock_causality[OF ok _ _ _ run, of 0 1] by (simp add: sample_events_def happens_before_def)
  moreover have "\<not> (precedes sample_events)\<^sup>+\<^sup>+ 1 2 \<and> \<not> (precedes sample_events)\<^sup>+\<^sup>+ 2 1"
    using vector_clock_causality[OF ok _ _ _ run, of 1 2] by (simp add: sample_events_def concurrent_with_def)
  ultimately show ?thesis
    by simp
qed

end
