(* ===== verification/Crdt_Mv_Register.thy ===== *)
theory Crdt_Mv_Register
  imports Crdt_Tagged Vector_Clock "HOL-Library.Product_Lexorder" "HOL-Library.List_Lexorder"
begin

text \<open>
  The multi-value register of \<^verbatim>\<open>crucible/canopy/Crdt.h\<close> (\<^verbatim>\<open>MVRegister\<close>): versions stamped with a
  vector-clock snapshot, of which the register keeps those that no other version dominates, in a
  canonical order.  The abstract value is the set of kept versions, and a merge keeps the
  undominated versions of the union.
\<close>

section \<open>Versions\<close>

record 'v mv_version =
  mv_value :: 'v
  mv_clock :: vc_snapshot

type_synonym 'v mv_state = "'v mv_version tagged_state"

fun clock_less :: "vc_snapshot \<Rightarrow> vc_snapshot \<Rightarrow> bool" where
  "clock_less (a # as) (b # bs) = (if a \<noteq> b then a < b else clock_less as bs)"
| "clock_less as bs = False"

definition version_less :: "'v::linorder mv_version \<Rightarrow> 'v mv_version \<Rightarrow> bool" where
  "version_less a b =
    (if clock_less (mv_clock a) (mv_clock b) then True
     else if clock_less (mv_clock b) (mv_clock a) then False
     else mv_value a < mv_value b)"

definition same_version :: "'v mv_version \<Rightarrow> 'v mv_version \<Rightarrow> bool" where
  "same_version a b \<longleftrightarrow> mv_value a = mv_value b \<and> mv_clock a = mv_clock b"

text \<open>Insertion sort; the sorted prefix is held in reverse, so that its last element is at the front.\<close>

fun shift_in :: "'v::linorder mv_version \<Rightarrow> 'v mv_version list \<Rightarrow> 'v mv_version list" where
  "shift_in key [] = [key]"
| "shift_in key (v # vs) = (if version_less key v then v # shift_in key vs else key # v # vs)"

definition canonicalize :: "'v::linorder mv_version list \<Rightarrow> 'v mv_version list" where
  "canonicalize versions = rev (foldl (\<lambda>vs key. shift_in key vs) [] versions)"

text \<open>The scan returns nothing when the incoming version is known or dominated.\<close>

fun scan_versions :: "'v mv_version \<Rightarrow> 'v mv_version list \<Rightarrow> 'v mv_version list option" where
  "scan_versions incoming [] = Some []"
| "scan_versions incoming (existing # vs) =
    (if same_version existing incoming then None
     else if happens_before (mv_clock incoming) (mv_clock existing) then None
     else if \<not> happens_before (mv_clock existing) (mv_clock incoming)
       then map_option (Cons existing) (scan_versions incoming vs)
       else scan_versions incoming vs)"

definition mv_default :: "nat \<Rightarrow> 'v::zero mv_version" where
  "mv_default n = \<lparr>mv_value = 0, mv_clock = vc_zero n\<rparr>"

definition insert_version ::
  "nat \<Rightarrow> nat \<Rightarrow> 'v::{linorder,zero} mv_version \<Rightarrow> 'v mv_state \<Rightarrow> bool \<times> 'v mv_state" where
  "insert_version n cap incoming s =
    (if \<not> ts_well_formed cap s then (False, s)
     else case scan_versions incoming (ts_live s) of
       None \<Rightarrow> (True, s)
     | Some kept \<Rightarrow>
         if length kept \<ge> cap then (False, s)
         else (True, s\<lparr>ts_entries := canonicalize (kept @ [incoming]) @ replicate (cap - (length kept + 1)) (mv_default n),
                       ts_count := length kept + 1\<rparr>))"

definition mv_assign ::
  "nat \<Rightarrow> nat \<Rightarrow> 'v \<times> (nat \<Rightarrow> u64) \<Rightarrow> 'v::{linorder,zero} mv_state \<Rightarrow> bool \<times> 'v mv_state" where
  "mv_assign n cap op s = insert_version n cap \<lparr>mv_value = fst op, mv_clock = map (snd op) [0..<n]\<rparr> s"

definition mv_merge ::
  "nat \<Rightarrow> nat \<Rightarrow> 'v::{linorder,zero} mv_state \<Rightarrow> 'v mv_state \<Rightarrow> bool \<times> 'v mv_state" where
  "mv_merge n cap s other = commit_merge (merge_entries (insert_version n cap) cap) s other"

definition mv_merge_states ::
  "nat \<Rightarrow> nat \<Rightarrow> 'v::{linorder,zero} mv_state \<Rightarrow> 'v mv_state \<Rightarrow> 'v mv_state" where
  "mv_merge_states n cap a b =
    (if ts_well_formed cap a then snd (commit_merge (merge_entries (insert_version n cap) cap) a b) else a)"

definition mv_size :: "nat \<Rightarrow> 'v mv_state \<Rightarrow> nat checked" where
  "mv_size cap s = crdt_count cap (ts_count s)"

definition mv_empty :: "nat \<Rightarrow> nat \<Rightarrow> 'v::zero mv_state" where
  "mv_empty n cap = ts_empty cap (mv_default n)"


section \<open>The canonical order\<close>

definition mv_key :: "'v mv_version \<Rightarrow> vc_snapshot \<times> 'v" where
  "mv_key v = (mv_clock v, mv_value v)"

lemma clock_less_iff: "length a = length b \<Longrightarrow> clock_less a b \<longleftrightarrow> a < b"
  by (induction a b rule: clock_less.induct) (auto simp: not_less_iff_gr_or_eq)

lemma version_less_iff:
  "length (mv_clock a) = length (mv_clock b) \<Longrightarrow> version_less a b \<longleftrightarrow> mv_key a < mv_key b"
  by (auto simp: version_less_def mv_key_def clock_less_iff)

lemma mv_key_inj: "mv_key a = mv_key b \<Longrightarrow> a = b" for a b :: "'v mv_version"
  by (simp add: mv_key_def)

lemma set_shift_in: "set (shift_in k vs) = insert k (set vs)"
  by (induction vs) auto

lemma length_shift_in [simp]: "length (shift_in k vs) = Suc (length vs)"
  by (induction vs) auto

lemma sorted_shift_in:
  assumes "sorted_wrt (\<lambda>a b. mv_key b < mv_key a) vs" "\<forall>v \<in> set vs. length (mv_clock v) = length (mv_clock k)"
    and "k \<notin> set vs"
  shows "sorted_wrt (\<lambda>a b. mv_key b < mv_key a) (shift_in k vs)"
  using assms
proof (induction vs)
  case (Cons v vs)
  have len: "length (mv_clock k) = length (mv_clock v)" and ne: "mv_key k \<noteq> mv_key v"
    using Cons.prems(2,3) mv_key_inj by auto
  show ?case
  proof (cases "version_less k v")
    case True
    then show ?thesis
      using Cons version_less_iff[OF len] by (auto simp: set_shift_in)
  next
    case False
    then have "mv_key v < mv_key k"
      using version_less_iff[OF len] ne by simp
    then show ?thesis
      using Cons.prems(1) False by (auto intro: less_trans)
  qed
qed simp

lemma canonicalize_sorted:
  assumes "distinct vs" "\<forall>v \<in> set vs. length (mv_clock v) = n"
  shows "sorted_wrt (<) (map mv_key (canonicalize vs)) \<and> set (canonicalize vs) = set vs
    \<and> length (canonicalize vs) = length vs"
proof -
  let ?f = "foldl (\<lambda>vs key. shift_in key vs) []"
  have "sorted_wrt (\<lambda>a b. mv_key b < mv_key a) (?f vs) \<and> set (?f vs) = set vs \<and> length (?f vs) = length vs"
    using assms
  proof (induction vs rule: rev_induct)
    case (snoc k vs)
    then show ?case
      using sorted_shift_in[of "?f vs" k] by (simp add: set_shift_in)
  qed simp
  then show ?thesis
    by (simp add: canonicalize_def sorted_wrt_map sorted_wrt_rev)
qed



section \<open>Undominated versions\<close>

definition dominated :: "'v mv_version set \<Rightarrow> 'v mv_version \<Rightarrow> bool" where
  "dominated S v \<longleftrightarrow> (\<exists>w \<in> S. happens_before (mv_clock v) (mv_clock w))"

definition undominated :: "'v mv_version set \<Rightarrow> 'v mv_version set" where
  "undominated S = {v \<in> S. \<not> dominated S v}"

definition versions_ok :: "nat \<Rightarrow> 'v mv_version set \<Rightarrow> bool" where
  "versions_ok n S \<longleftrightarrow> finite S \<and> (\<forall>v \<in> S. length (mv_clock v) = n)"

definition antichain :: "nat \<Rightarrow> 'v mv_version set \<Rightarrow> bool" where
  "antichain n S \<longleftrightarrow> versions_ok n S \<and> undominated S = S"

definition mv_join :: "'v mv_version set \<Rightarrow> 'v mv_version set \<Rightarrow> 'v mv_version set" where
  "mv_join A B = undominated (A \<union> B)"

lemma sum_list_mono_strict:
  fixes a b :: "u64 list"
  assumes "length a = length b" "vc_leq a b" "a \<noteq> b"
  shows "sum_list (map unat a) < sum_list (map unat b)"
  using assms
proof (induction a b rule: list_induct2)
  case (Cons x xs y ys)
  then have le: "x \<le> y" "vc_leq xs ys"
    by (auto simp: not_less split: if_splits)
  have "sum_list (map unat xs) \<le> sum_list (map unat ys)"
    using Cons.IH le(2) by (cases "xs = ys") auto
  moreover have "unat x < unat y \<or> unat x = unat y \<and> sum_list (map unat xs) < sum_list (map unat ys)"
    using Cons.IH Cons.prems(2) le by (cases "x = y") (auto simp flip: word_less_nat_alt)
  ultimately show ?case
    using le(1) by (auto simp: word_le_nat_alt)
qed simp

lemma happens_before_sum:
  "length a = length b \<Longrightarrow> happens_before a b \<Longrightarrow> sum_list (map unat a) < sum_list (map unat b)"
  by (simp add: happens_before_def sum_list_mono_strict)

lemma undominated_above:
  assumes "versions_ok n S" "v \<in> S"
  shows "\<exists>m \<in> undominated S. m = v \<or> happens_before (mv_clock v) (mv_clock m)"
proof -
  define T where "T = {w \<in> S. w = v \<or> happens_before (mv_clock v) (mv_clock w)}"
  define f where "f = (\<lambda>w :: 'a mv_version. sum_list (map unat (mv_clock w)))"
  have fin: "finite T" "T \<noteq> {}"
    using assms by (auto simp: versions_ok_def T_def)
  then have "Max (f ` T) \<in> f ` T"
    by (intro Max_in) auto
  then obtain m where m: "m \<in> T" "f m = Max (f ` T)"
    by (metis imageE)
  have "\<not> dominated S m"
  proof
    assume "dominated S m"
    then obtain w where w: "w \<in> S" "happens_before (mv_clock m) (mv_clock w)"
      by (auto simp: dominated_def)
    have len: "length (mv_clock v) = n" "length (mv_clock m) = n" "length (mv_clock w) = n"
      using assms m(1) w(1) by (auto simp: versions_ok_def T_def)
    then have "w \<in> T"
      using w m(1) happens_before_trans[of "mv_clock v" "mv_clock m" "mv_clock w"] by (auto simp: T_def)
    then have "f w \<le> f m"
      using m(2) fin by simp
    then show False
      using happens_before_sum[OF _ w(2)] len by (simp add: f_def)
  qed
  then show ?thesis
    using m(1) by (auto simp: undominated_def T_def)
qed

lemma undominated_union:
  assumes "versions_ok n S" "versions_ok n T"
  shows "undominated (undominated S \<union> T) = undominated (S \<union> T)"
proof (intro equalityI subsetI)
  fix v assume v: "v \<in> undominated (undominated S \<union> T)"
  have "\<not> dominated S v"
  proof
    assume "dominated S v"
    then obtain w where w: "w \<in> S" "happens_before (mv_clock v) (mv_clock w)"
      by (auto simp: dominated_def)
    obtain m where m: "m \<in> undominated S" "m = w \<or> happens_before (mv_clock w) (mv_clock m)"
      using undominated_above[OF assms(1) w(1)] by blast
    have "length (mv_clock v) = n" "length (mv_clock w) = n" "length (mv_clock m) = n"
      using v w(1) m(1) assms by (auto simp: versions_ok_def undominated_def)
    then have "happens_before (mv_clock v) (mv_clock m)"
      using w(2) m(2) happens_before_trans[of "mv_clock v" "mv_clock w" "mv_clock m"] by auto
    then show False
      using v m(1) by (auto simp: undominated_def dominated_def)
  qed
  then show "v \<in> undominated (S \<union> T)"
    using v by (auto simp: undominated_def dominated_def)
qed (auto simp: undominated_def dominated_def)

lemma versions_ok_undominated: "versions_ok n S \<Longrightarrow> versions_ok n (undominated S)"
  by (auto simp: versions_ok_def undominated_def)

lemma versions_ok_Un [simp]: "versions_ok n (S \<union> T) \<longleftrightarrow> versions_ok n S \<and> versions_ok n T"
  by (auto simp: versions_ok_def)

lemma undominated_idem: "undominated (undominated S) = undominated S"
  by (auto simp: undominated_def dominated_def)

lemma antichain_lattice: "join_lattice (antichain n) mv_join {}"
proof
  fix a b c :: "'v mv_version set"
  assume a: "antichain n a" and b: "antichain n b"
  show "antichain n (mv_join a b)"
    using a b by (simp add: antichain_def mv_join_def undominated_idem versions_ok_undominated)
  assume c: "antichain n c"
  show "mv_join (mv_join a b) c = mv_join a (mv_join b c)"
    using a b c undominated_union[of n "a \<union> b" c] undominated_union[of n "b \<union> c" a]
    by (simp add: antichain_def mv_join_def Un_assoc Un_commute Un_left_commute)
qed (auto simp: antichain_def mv_join_def versions_ok_def Un_commute undominated_def)


section \<open>The register\<close>

definition mv_valid :: "nat \<Rightarrow> nat \<Rightarrow> 'v::linorder mv_state \<Rightarrow> bool" where
  "mv_valid n cap s \<longleftrightarrow> length (ts_entries s) = cap \<and> ts_count s \<le> cap
     \<and> antichain n (set (ts_live s)) \<and> sorted_wrt (<) (map mv_key (ts_live s))"

definition mv_versions :: "'v mv_state \<Rightarrow> 'v mv_version set" where
  "mv_versions s = set (ts_live s)"

lemma scan_versions_None:
  "scan_versions v vs = None \<longleftrightarrow> v \<in> set vs \<or> dominated (set vs) v"
  by (induction vs) (auto simp: same_version_def dominated_def)

lemma scan_versions_Some:
  "scan_versions v vs = Some kept \<Longrightarrow> kept = filter (\<lambda>e. \<not> happens_before (mv_clock e) (mv_clock v)) vs"
  by (induction vs arbitrary: kept) (auto split: if_splits)

lemma join_known:
  assumes "antichain n S" "v \<in> S \<or> dominated S v" "length (mv_clock v) = n"
  shows "mv_join S {v} = S"
proof (cases "v \<in> S")
  case True
  then show ?thesis
    using assms(1) by (simp add: mv_join_def antichain_def insert_absorb)
next
  case False
  then obtain w where w: "w \<in> S" "happens_before (mv_clock v) (mv_clock w)"
    using assms(2) by (auto simp: dominated_def)
  have "\<not> happens_before (mv_clock e) (mv_clock v)" if "e \<in> S" for e
  proof
    assume "happens_before (mv_clock e) (mv_clock v)"
    then have "happens_before (mv_clock e) (mv_clock w)"
      using w that assms(1,3) happens_before_trans[of "mv_clock e" "mv_clock v" "mv_clock w"]
      by (auto simp: antichain_def versions_ok_def)
    moreover have "e \<in> undominated S"
      using that assms(1) by (simp add: antichain_def)
    ultimately show False
      using w(1) by (auto simp: undominated_def dominated_def)
  qed
  moreover have "undominated S = S"
    using assms(1) by (simp add: antichain_def)
  ultimately show ?thesis
    using w by (auto simp: mv_join_def undominated_def dominated_def set_eq_iff)
qed

lemma join_new:
  assumes "antichain n S" "v \<notin> S" "\<not> dominated S v"
  shows "mv_join S {v} = insert v {e \<in> S. \<not> happens_before (mv_clock e) (mv_clock v)}"
proof -
  have "undominated S = S"
    using assms(1) by (simp add: antichain_def)
  moreover have "\<not> happens_before (mv_clock v) (mv_clock v)"
    by (simp add: happens_before_def)
  ultimately show ?thesis
    using assms(3) by (auto simp: mv_join_def undominated_def dominated_def set_eq_iff)
qed


lemma antichain_single: "length (mv_clock v) = n \<Longrightarrow> antichain n {v}"
  by (auto simp: antichain_def versions_ok_def undominated_def dominated_def happens_before_def)

lemma insert_version_spec:
  assumes "mv_valid n cap s" "length (mv_clock v) = n" "insert_version n cap v s = (b, s')"
  shows "mv_valid n cap s' \<and> (if b then mv_versions s' = mv_join (mv_versions s) {v} else s' = s)"
proof (cases "scan_versions v (ts_live s)")
  case None
  then have "mv_join (mv_versions s) {v} = mv_versions s"
    using assms(1,2) by (intro join_known[of n]) (auto simp: mv_valid_def mv_versions_def scan_versions_None)
  then show ?thesis
    using assms None by (auto simp: insert_version_def mv_valid_def ts_well_formed_def)
next
  case (Some kept)
  have kept: "kept = filter (\<lambda>e. \<not> happens_before (mv_clock e) (mv_clock v)) (ts_live s)"
    using scan_versions_Some[OF Some] .
  have new: "v \<notin> mv_versions s" "\<not> dominated (mv_versions s) v"
    using Some scan_versions_None[of v "ts_live s"] by (auto simp: mv_versions_def)
  have S: "antichain n (mv_versions s)" "distinct (ts_live s)"
    using assms(1) by (auto simp: mv_valid_def mv_versions_def strict_sorted_iff distinct_map)
  have join: "set (kept @ [v]) = mv_join (mv_versions s) {v}"
    unfolding join_new[OF S(1) new] by (auto simp: kept mv_versions_def)
  show ?thesis
  proof (cases "length kept \<ge> cap")
    case True
    then show ?thesis
      using assms Some by (auto simp: insert_version_def mv_valid_def ts_well_formed_def)
  next
    case False
    have "distinct (kept @ [v])" "\<forall>w \<in> set (kept @ [v]). length (mv_clock w) = n"
      using S new assms(2) by (auto simp: kept mv_versions_def antichain_def versions_ok_def)
    note canon = canonicalize_sorted[OF this]
    have "b" "ts_live s' = canonicalize (kept @ [v])" "length (ts_entries s') = cap" "ts_count s' \<le> cap"
      using assms(1,3) Some False canon by (auto simp: insert_version_def mv_valid_def ts_well_formed_def ts_live_def)
    moreover have "antichain n (mv_join (mv_versions s) {v})"
      using join_lattice.carr_join[OF antichain_lattice S(1) antichain_single[OF assms(2)]] .
    ultimately show ?thesis
      using canon join by (simp add: mv_valid_def mv_versions_def)
  qed
qed

lemma upsert_all_versions:
  assumes "mv_valid n cap s" "\<forall>v \<in> set vs. length (mv_clock v) = n" "upsert_all (insert_version n cap) vs s = (b, s')"
  shows "mv_valid n cap s' \<and> (b \<longrightarrow> mv_versions s' = undominated (mv_versions s \<union> set vs))"
  using assms
proof (induction vs arbitrary: s)
  case Nil
  then show ?case
    by (simp add: mv_valid_def antichain_def mv_versions_def)
next
  case (Cons v vs)
  obtain c s1 where ins: "insert_version n cap v s = (c, s1)"
    by fastforce
  then have spec: "mv_valid n cap s1 \<and> (if c then mv_versions s1 = mv_join (mv_versions s) {v} else s1 = s)"
    using Cons.prems(2) by (intro insert_version_spec[OF Cons.prems(1)]) simp_all
  have "versions_ok n (mv_versions s \<union> {v})" "versions_ok n (set vs)"
    using Cons.prems(1,2) by (auto simp: mv_valid_def antichain_def versions_ok_def mv_versions_def)
  then have "undominated (mv_join (mv_versions s) {v} \<union> set vs) = undominated (mv_versions s \<union> set (v # vs))"
    using undominated_union[of n "mv_versions s \<union> {v}" "set vs"] by (simp add: mv_join_def)
  then show ?case
    using Cons ins spec by (auto split: if_splits)
qed

lemma mv_merge_spec:
  assumes "mv_valid n cap s" "mv_valid n cap t" "mv_merge n cap s t = (b, s')"
  shows "mv_valid n cap s' \<and> (if b then mv_versions s' = mv_join (mv_versions s) (mv_versions t) else s' = s)"
proof -
  obtain c s1 where m: "upsert_all (insert_version n cap) (ts_live t) s = (c, s1)"
    by fastforce
  have "ts_well_formed cap t" "\<forall>v \<in> set (ts_live t). length (mv_clock v) = n"
    using assms(2) by (auto simp: mv_valid_def ts_well_formed_def antichain_def versions_ok_def)
  then show ?thesis
    using upsert_all_versions[OF assms(1) _ m] assms(1,3) m
    by (auto simp: mv_merge_def commit_merge_def merge_entries_def mv_join_def mv_versions_def split: if_splits)
qed

lemma mv_assign_law:
  assumes "mv_valid n cap s" "mv_assign n cap op s = (b, s')"
  shows "mv_valid n cap s' \<and> (if b then \<exists>d. antichain n d \<and> mv_versions s' = mv_join (mv_versions s) d else s' = s)"
proof -
  define v where "v = \<lparr>mv_value = fst op, mv_clock = map (snd op) [0..<n]\<rparr>"
  have "antichain n {v}"
    by (rule antichain_single) (simp add: v_def)
  moreover have "mv_valid n cap s' \<and> (if b then mv_versions s' = mv_join (mv_versions s) {v} else s' = s)"
    using assms by (intro insert_version_spec) (simp_all add: mv_assign_def v_def)
  ultimately show ?thesis
    by auto
qed

lemma mv_valid_empty: "mv_valid n cap (mv_empty n cap)"
  by (simp add: mv_valid_def mv_empty_def ts_empty_def ts_live_def antichain_def versions_ok_def undominated_def)

interpretation mv: crdt "antichain n" mv_join "{}" "mv_valid n cap" mv_versions "mv_empty n cap" "mv_assign n cap"
  "mv_merge n cap" for n cap
proof (intro crdt.intro antichain_lattice crdt_axioms.intro)
  show "mv_valid n cap s' \<and> (if b then \<exists>d. antichain n d \<and> mv_versions s' = mv_join (mv_versions s) d else s' = s)"
    if "mv_valid n cap s" "mv_assign n cap op s = (b, s')" for s s' op b
    by (rule mv_assign_law[OF that])
  show "mv_valid n cap s' \<and> (if b then mv_versions s' = mv_join (mv_versions s) (mv_versions t) else s' = s)"
    if "mv_valid n cap s" "mv_valid n cap t" "mv_merge n cap s t = (b, s')" for s t s' b
    by (rule mv_merge_spec[OF that])
  show "antichain n (mv_versions s)" if "mv_valid n cap s" for s
    using that by (simp add: mv_valid_def mv_versions_def)
qed (simp_all add: mv_valid_empty, simp add: mv_versions_def mv_empty_def)

text \<open>The canonical order makes the stored sequence a function of the set.\<close>

lemma mv_live_unique:
  assumes "mv_valid n cap s" "mv_valid n cap t" "mv_versions s = mv_versions t"
  shows "ts_live s = ts_live t"
proof -
  have "map mv_key (ts_live s) = map mv_key (ts_live t)"
    using assms by (intro strict_sorted_equal) (simp_all add: mv_valid_def mv_versions_def)
  then show ?thesis
    by (rule map_injective) (simp add: inj_def mv_key_inj)
qed

end
