(* ===== verification/Crdt_Converge.thy ===== *)
theory Crdt_Converge
  imports Crdt_Rga Crdt_Mv_Register
begin

text \<open>
  Strong eventual consistency of the bounded collections of \<^verbatim>\<open>crucible/canopy/Crdt.h\<close>, in terms of what
  their readers see.  The arrays of two replicas may differ in order; the answers do not.
\<close>

lemma gset_reads_agree:
  assumes "crdt_run (gset_add (Suc n)) (gset_merge (Suc n)) (hset_empty (Suc n)) k R M" "snd (R i) = snd (R j)"
  shows "hset_contains (Suc n) v (fst (R i)) = hset_contains (Suc n) v (fst (R j))"
  using gset.converge[OF assms] gset.converge[OF assms(1) refl, of j] hset_contains_iff by simp

lemma orset_reads_agree:
  assumes "crdt_run (orset_update cap) (orset_merge cap) (orset_empty cap) k R M" "snd (R i) = snd (R j)"
  shows "orset_contains v (fst (R i)) = orset_contains v (fst (R j))"
  using orset.converge[OF assms] orset.converge[OF assms(1) refl, of j] orset_contains_tags by metis

lemma mv_reads_agree:
  assumes "crdt_run (mv_assign n cap) (mv_merge n cap) (mv_empty n cap) k R M" "snd (R i) = snd (R j)"
  shows "ts_live (fst (R i)) = ts_live (fst (R j))"
  using mv.converge[OF assms] mv.converge[OF assms(1) refl, of j] mv_live_unique by blast

lemma rga_reads_agree:
  assumes "crdt_run (rga_update cap) (rga_merge cap) (rga_empty cap) k R M" "snd (R i) = snd (R j)"
  shows "rga_materialize cap (fst (R i)) = rga_materialize cap (fst (R j))"
  using rga.converge[OF assms] rga.converge[OF assms(1) refl, of j] rga_materialize_nodes by blast

text \<open>C7.  Strong eventual consistency of the bounded collections: in every run in which replicas update
  locally and merge states that arrive late, repeatedly, in any order and may be refused, two replicas
  that the same updates reached answer alike: the grow-only set and the observed-remove set contain the
  same values, the multi-value register holds the same versions in the same order, and the replicated
  list materialises the same sequence.\<close>

theorem crdt_collections_converge:
  "(crdt_run (gset_add (Suc n)) (gset_merge (Suc n)) (hset_empty (Suc n)) k G M1 \<and> snd (G i) = snd (G j)
      \<longrightarrow> hset_contains (Suc n) v (fst (G i)) = hset_contains (Suc n) v (fst (G j)))
   \<and> (crdt_run (orset_update cap) (orset_merge cap) (orset_empty cap) k T M2 \<and> snd (T i) = snd (T j)
      \<longrightarrow> orset_contains w (fst (T i)) = orset_contains w (fst (T j)))
   \<and> (crdt_run (mv_assign m cap) (mv_merge m cap) (mv_empty m cap) k V M3 \<and> snd (V i) = snd (V j)
      \<longrightarrow> ts_live (fst (V i)) = ts_live (fst (V j)))
   \<and> (crdt_run (rga_update cap) (rga_merge cap) (rga_empty cap) k S M4 \<and> snd (S i) = snd (S j)
      \<longrightarrow> rga_materialize cap (fst (S i)) = rga_materialize cap (fst (S j)))"
  by (intro conjI impI; elim conjE) (rule gset_reads_agree orset_reads_agree mv_reads_agree rga_reads_agree; assumption)+

definition sample_tag :: "nat \<Rightarrow> (nat, nat) or_entry" where
  "sample_tag t = \<lparr>oe_value = 7, oe_tag = t, oe_removed = False\<rparr>"

lemma sample_orset_run:
  "\<exists>R M. crdt_run (orset_update 2) (orset_merge 2) (orset_empty 2) 2 R M
     \<and> R 0 = (\<lparr>ts_entries = [sample_tag 1, sample_tag 2], ts_count = 2\<rparr>, {0, 1})
     \<and> R 1 = (\<lparr>ts_entries = [sample_tag 2, sample_tag 1], ts_count = 2\<rparr>, {0, 1})"
proof (rule exchange_run[of _ "Or_Add 7 1" _
      "\<lparr>ts_entries = [sample_tag 1, \<lparr>oe_value = 0, oe_tag = 0, oe_removed = False\<rparr>], ts_count = 1\<rparr>"
      "Or_Add 7 2" "\<lparr>ts_entries = [sample_tag 2, \<lparr>oe_value = 0, oe_tag = 0, oe_removed = False\<rparr>], ts_count = 1\<rparr>"])
qed (simp_all add: orset_empty_def ts_empty_def orset_add_def orset_upsert_def ts_live_def ts_append_def orset_merge_def
    commit_merge_def merge_entries_def ts_well_formed_def sample_tag_def eval_nat_numeral)

definition sample_version :: "nat \<Rightarrow> nat mv_version" where
  "sample_version v = \<lparr>mv_value = v, mv_clock = [1]\<rparr>"

lemma sample_mv_run:
  "\<exists>R M. crdt_run (mv_assign 1 2) (mv_merge 1 2) (mv_empty 1 2) 2 R M
     \<and> R 0 = (\<lparr>ts_entries = [sample_version 5, sample_version 6], ts_count = 2\<rparr>, {0, 1})
     \<and> R 1 = (\<lparr>ts_entries = [sample_version 5, sample_version 6], ts_count = 2\<rparr>, {0, 1})"
proof (rule exchange_run[of _ "(6, \<lambda>i. 1)" _ "\<lparr>ts_entries = [sample_version 6, mv_default 1], ts_count = 1\<rparr>"
      "(5, \<lambda>i. 1)" "\<lparr>ts_entries = [sample_version 5, mv_default 1], ts_count = 1\<rparr>"])
qed (simp_all add: mv_empty_def ts_empty_def mv_assign_def insert_version_def ts_live_def mv_merge_def commit_merge_def
    merge_entries_def ts_well_formed_def sample_version_def canonicalize_def same_version_def version_less_def
    happens_before_def vc_compare_def eval_nat_numeral)

theorem crdt_collections_converge_witness:
  "(\<exists>G M. crdt_run (gset_add (Suc 1)) (gset_merge (Suc 1)) (hset_empty (Suc 1)) 2 G M
      \<and> hset_contains (Suc 1) 1 (fst (G 0)) \<and> hset_contains (Suc 1) 1 (fst (G 1)))
   \<and> (\<exists>T M. crdt_run (orset_update 2) (orset_merge 2) (orset_empty 2) 2 T M \<and> fst (T 0) \<noteq> fst (T 1)
      \<and> orset_contains (7 :: nat) (fst (T 0)) \<and> orset_contains 7 (fst (T 1) :: (nat, nat) or_set))
   \<and> (\<exists>V M. crdt_run (mv_assign 1 2) (mv_merge 1 2) (mv_empty 1 2) 2 V M
      \<and> ts_live (fst (V 1)) = [sample_version 5, sample_version 6])
   \<and> (\<exists>S M. crdt_run (rga_update 2) (rga_merge 2) (rga_empty 2 :: (nat, int) rga_state) 2 S M \<and> fst (S 0) \<noteq> fst (S 1)
      \<and> rga_materialize 2 (fst (S 0)) = rga_materialize 2 (fst (S 1)))"
proof -
  obtain G M1 where G: "crdt_run (gset_add (Suc 1)) (gset_merge (Suc 1)) (hset_empty (Suc 1)) 2 G M1"
      "hset_values (fst (G 0)) = {1, 2}" "snd (G 0) = snd (G 1)"
    using sample_gset_run by metis
  obtain T M2 where T: "crdt_run (orset_update 2) (orset_merge 2) (orset_empty 2) 2 T M2" "snd (T 0) = snd (T 1)"
      "fst (T 0) = \<lparr>ts_entries = [sample_tag 1, sample_tag 2], ts_count = 2\<rparr>"
      "fst (T 1) = \<lparr>ts_entries = [sample_tag 2, sample_tag 1], ts_count = 2\<rparr>"
    using sample_orset_run by (metis fst_conv snd_conv)
  obtain V M3 where V: "crdt_run (mv_assign 1 2) (mv_merge 1 2) (mv_empty 1 2) 2 V M3" "snd (V 0) = snd (V 1)"
      "fst (V 0) = \<lparr>ts_entries = [sample_version 5, sample_version 6], ts_count = 2\<rparr>"
    using sample_mv_run by (metis fst_conv snd_conv)
  obtain S M4 where S: "crdt_run (rga_update 2) (rga_merge 2) (rga_empty 2) 2 S M4" "snd (S 0) = snd (S 1)"
      "fst (S 0) = \<lparr>ts_entries = [sample_node 1 0 10, sample_node 2 1 20], ts_count = 2\<rparr>"
      "fst (S 1) = \<lparr>ts_entries = [sample_node 2 1 20, sample_node 1 0 10], ts_count = 2\<rparr>"
    using sample_rga_run by (metis fst_conv snd_conv)
  note agree = crdt_collections_converge[where n = 1 and k = 2 and G = G and ?M1.0 = M1 and v = 1 and cap = 2 and T = T
      and ?M2.0 = M2 and w = 7 and m = 1 and V = V and ?M3.0 = M3 and S = S and ?M4.0 = M4 and i = 0 and j = 1]
  have g0: "hset_contains (Suc 1) 1 (fst (G 0))"
    using hset_contains_iff gset.converge[OF G(1) refl, of 0] G(2) by blast
  have t0: "orset_contains 7 (fst (T 0))" and t: "fst (T 0) \<noteq> fst (T 1)" and s: "fst (S 0) \<noteq> fst (S 1)"
    unfolding T S by (simp_all add: orset_contains_def ts_live_def sample_tag_def sample_node_def)
  have v0: "ts_live (fst (V 0)) = [sample_version 5, sample_version 6]"
    by (simp add: V(3) ts_live_def)
  have "hset_contains (Suc 1) 1 (fst (G 1))" "orset_contains 7 (fst (T 1))"
      "ts_live (fst (V 1)) = [sample_version 5, sample_version 6]"
      "rga_materialize 2 (fst (S 0)) = rga_materialize 2 (fst (S 1))"
    using agree G(1,3) T(1,2) V(1,2) S(1,2) g0 t0 v0 by metis+
  then show ?thesis
    using G(1) T(1) V(1) S(1) g0 t0 t s by blast
qed

end
