(* ===== verification/Swim_Membership.thy ===== *)
theory Swim_Membership
  imports Crucible_Prelude "HOL-Library.Product_Lexorder"
begin

text \<open>
  The failure detector of \<^verbatim>\<open>crucible/canopy/Swim.h\<close> and the slot table of
  \<^verbatim>\<open>crucible/canopy/SlotTable.h\<close>.  A table with a bounded count is the list of its live slots, and
  its capacity is a parameter.  Of a peer's identity the detector reads the identifier only; the
  other fields are an opaque attribute.
\<close>

section \<open>Slot tables\<close>

definition slot_full :: "nat \<Rightarrow> nat \<Rightarrow> bool" where
  "slot_full cap value \<longleftrightarrow> value \<ge> cap"

definition reserve_next :: "nat \<Rightarrow> nat \<Rightarrow> nat option \<times> nat" where
  "reserve_next cap value = (if slot_full cap value then (None, value) else (Some value, value + 1))"

definition slot_push :: "nat \<Rightarrow> 'a \<Rightarrow> 'a list \<Rightarrow> bool \<times> 'a list" where
  "slot_push cap v slots =
    (case reserve_next cap (length slots) of
       (None, n) \<Rightarrow> (False, slots)
     | (Some slot, n) \<Rightarrow> (True, slots @ [v]))"


section \<open>State\<close>

datatype uuid = Uuid (uuid_hi: u64) (uuid_lo: u64)

definition uuid_is_zero :: "uuid \<Rightarrow> bool" where
  "uuid_is_zero u \<longleftrightarrow> uuid_hi u = 0 \<and> uuid_lo u = 0"

datatype swim_status = Alive | Suspect | Dead

datatype swim_error = CapacityExceeded | DuplicatePeer | PeerNotFound | ZeroUuid

record swim_config =
  period_ns :: u64
  ack_timeout_ns :: u64
  indirect_timeout_ns :: u64
  indirect_checks :: u16
  suspicion_misses :: u16

record 'a cog_identity =
  cog_uuid :: uuid
  cog_attributes :: 'a

record peer_health =
  ph_state :: swim_status
  ph_last_heartbeat_ns :: u64
  ph_consecutive_misses :: u32
  ph_incarnation :: u64

record 'a swim_event =
  ev_peer :: "'a cog_identity"
  ev_state :: swim_status
  ev_consecutive_misses :: u32
  ev_incarnation :: u64
  ev_sequence :: u64

record swim_probe =
  pr_target :: uuid
  pr_sequence :: u64
  pr_deadline_ns :: u64

record 'a peer_slot =
  sl_identity :: "'a cog_identity"
  sl_health :: peer_health
  sl_last_seen_sequence :: u64

record 'a swim =
  sw_config :: swim_config
  sw_slots :: "'a peer_slot list"
  sw_probe_cursor :: nat
  sw_sequence :: u64
  sw_piggyback :: "'a swim_event list"

type_synonym 'a swim_result = "(swim_error + unit) \<times> 'a swim"


section \<open>Operations\<close>

fun state_rank :: "swim_status \<Rightarrow> nat" where
  "state_rank Alive = 0"
| "state_rank Suspect = 1"
| "state_rank Dead = 2"

definition saturated_add :: "u64 \<Rightarrow> u64 \<Rightarrow> u64" where
  "saturated_add a b = (if a > - 1 - b then - 1 else a + b)"

fun find_from :: "uuid \<Rightarrow> 'a peer_slot list \<Rightarrow> nat \<Rightarrow> nat option" where
  "find_from u [] i = None"
| "find_from u (slot # slots) i = (if cog_uuid (sl_identity slot) = u then Some i else find_from u slots (Suc i))"

definition find_index :: "uuid \<Rightarrow> 'a swim \<Rightarrow> nat option" where
  "find_index u s = find_from u (sw_slots s) 0"

definition event_newer :: "'a swim_event \<Rightarrow> 'a peer_slot \<Rightarrow> bool" where
  "event_newer incoming slot =
    (if ev_incarnation incoming \<noteq> ph_incarnation (sl_health slot)
     then ev_incarnation incoming > ph_incarnation (sl_health slot)
     else state_rank (ev_state incoming) > state_rank (ph_state (sl_health slot)))"

definition append_event :: "nat \<Rightarrow> 'a peer_slot \<Rightarrow> 'a swim \<Rightarrow> 'a swim" where
  "append_event max_piggyback slot s =
    (let sequence = sw_sequence s + 1;
         event = \<lparr>ev_peer = sl_identity slot, ev_state = ph_state (sl_health slot),
           ev_consecutive_misses = ph_consecutive_misses (sl_health slot),
           ev_incarnation = ph_incarnation (sl_health slot), ev_sequence = sequence\<rparr>;
         queue = (if length (sw_piggyback s) = max_piggyback then tl (sw_piggyback s) else sw_piggyback s)
     in s\<lparr>sw_sequence := sequence, sw_piggyback := queue @ [event]\<rparr>)"

definition put_slot :: "nat \<Rightarrow> nat \<Rightarrow> 'a peer_slot \<Rightarrow> 'a swim \<Rightarrow> 'a swim" where
  "put_slot max_piggyback idx slot s = append_event max_piggyback slot (s\<lparr>sw_slots := (sw_slots s)[idx := slot]\<rparr>)"

definition add_slot :: "nat \<Rightarrow> 'a peer_slot \<Rightarrow> 'a swim \<Rightarrow> 'a swim" where
  "add_slot max_piggyback slot s = append_event max_piggyback slot (s\<lparr>sw_slots := sw_slots s @ [slot]\<rparr>)"

definition mark_alive :: "nat \<Rightarrow> nat \<Rightarrow> u64 \<Rightarrow> 'a swim \<Rightarrow> 'a swim" where
  "mark_alive mq idx now_ns s =
    (let slot = sw_slots s ! idx; h = sl_health slot in
     put_slot mq idx (slot\<lparr>sl_health := h\<lparr>ph_state := Alive, ph_last_heartbeat_ns := now_ns,
       ph_consecutive_misses := 0, ph_incarnation := ph_incarnation h + 1\<rparr>,
       sl_last_seen_sequence := sw_sequence s\<rparr>) s)"

definition mark_dead :: "nat \<Rightarrow> nat \<Rightarrow> 'a swim \<Rightarrow> 'a swim" where
  "mark_dead mq idx s =
    (let slot = sw_slots s ! idx; h = sl_health slot in
     if ph_state h = Dead then s
     else put_slot mq idx (slot\<lparr>sl_health := h\<lparr>ph_state := Dead, ph_incarnation := ph_incarnation h + 1\<rparr>,
       sl_last_seen_sequence := sw_sequence s\<rparr>) s)"

definition miss :: "nat \<Rightarrow> nat \<Rightarrow> 'a swim \<Rightarrow> 'a swim" where
  "miss mq idx s =
    (let slot = sw_slots s ! idx; h = sl_health slot in
     if ph_state h = Dead then s
     else
       let misses = (if ph_consecutive_misses h = - 1 then ph_consecutive_misses h else ph_consecutive_misses h + 1);
           state = (if unat misses \<ge> unat (suspicion_misses (sw_config s)) then Dead else Suspect)
       in put_slot mq idx (slot\<lparr>sl_health := h\<lparr>ph_consecutive_misses := misses, ph_state := state,
            ph_incarnation := ph_incarnation h + 1\<rparr>, sl_last_seen_sequence := sw_sequence s\<rparr>) s)"

definition add_peer :: "nat \<Rightarrow> nat \<Rightarrow> 'a cog_identity \<Rightarrow> 'a swim \<Rightarrow> 'a swim_result" where
  "add_peer mp mq peer s =
    (if uuid_is_zero (cog_uuid peer) then (Inl ZeroUuid, s)
     else if find_index (cog_uuid peer) s \<noteq> None then (Inl DuplicatePeer, s)
     else case reserve_next mp (length (sw_slots s)) of
       (None, n) \<Rightarrow> (Inl CapacityExceeded, s)
     | (Some index, n) \<Rightarrow>
         (Inr (), add_slot mq \<lparr>sl_identity = peer,
            sl_health = \<lparr>ph_state = Alive, ph_last_heartbeat_ns = 0, ph_consecutive_misses = 0, ph_incarnation = 1\<rparr>,
            sl_last_seen_sequence = 0\<rparr> s))"

definition remove_peer :: "nat \<Rightarrow> uuid \<Rightarrow> 'a swim \<Rightarrow> 'a swim_result" where
  "remove_peer mq u s =
    (case find_index u s of None \<Rightarrow> (Inl PeerNotFound, s) | Some idx \<Rightarrow> (Inr (), mark_dead mq idx s))"

definition on_ack :: "nat \<Rightarrow> uuid \<Rightarrow> u64 \<Rightarrow> 'a swim \<Rightarrow> 'a swim_result" where
  "on_ack mq u now_ns s =
    (case find_index u s of None \<Rightarrow> (Inl PeerNotFound, s) | Some idx \<Rightarrow> (Inr (), mark_alive mq idx now_ns s))"

definition on_ping_timeout :: "nat \<Rightarrow> uuid \<Rightarrow> 'a swim \<Rightarrow> 'a swim_result" where
  "on_ping_timeout mq u s =
    (case find_index u s of None \<Rightarrow> (Inl PeerNotFound, s) | Some idx \<Rightarrow> (Inr (), miss mq idx s))"

definition on_indirect_ack :: "nat \<Rightarrow> uuid \<Rightarrow> u64 \<Rightarrow> 'a swim \<Rightarrow> 'a swim_result" where
  "on_indirect_ack mq suspect now_ns s = on_ack mq suspect now_ns s"

definition on_indirect_timeout :: "nat \<Rightarrow> uuid \<Rightarrow> 'a swim \<Rightarrow> 'a swim_result" where
  "on_indirect_timeout mq suspect s = on_ping_timeout mq suspect s"

text \<open>A staleness of \<^const>\<open>None\<close> is the infinite one, of a peer that is not a member.\<close>

definition swim_health :: "uuid \<Rightarrow> 'a swim \<Rightarrow> peer_health \<times> u64 option" where
  "swim_health u s =
    (case find_index u s of
       None \<Rightarrow> (\<lparr>ph_state = Dead, ph_last_heartbeat_ns = 0, ph_consecutive_misses = 0, ph_incarnation = 0\<rparr>, None)
     | Some idx \<Rightarrow>
         let slot = sw_slots s ! idx
         in (sl_health slot,
             Some (if sw_sequence s \<ge> sl_last_seen_sequence slot then sw_sequence s - sl_last_seen_sequence slot else 0)))"

definition live_peers :: "'a swim \<Rightarrow> 'a cog_identity list" where
  "live_peers s = map sl_identity (filter (\<lambda>slot. ph_state (sl_health slot) \<noteq> Dead) (sw_slots s))"

fun probe_from :: "nat \<Rightarrow> 'a swim \<Rightarrow> nat list \<Rightarrow> nat option" where
  "probe_from count s [] = None"
| "probe_from count s (attempt # attempts) =
    (let idx = (sw_probe_cursor s + attempt) mod count in
     if ph_state (sl_health (sw_slots s ! idx)) = Dead then probe_from count s attempts else Some idx)"

definition next_probe :: "u64 \<Rightarrow> 'a swim \<Rightarrow> swim_probe option \<times> 'a swim" where
  "next_probe now_ns s =
    (let count = length (sw_slots s) in
     if count = 0 then (None, s)
     else case probe_from count s [0..<count] of
       None \<Rightarrow> (None, s)
     | Some idx \<Rightarrow>
         let sequence = sw_sequence s + 1
         in (Some \<lparr>pr_target = cog_uuid (sl_identity (sw_slots s ! idx)), pr_sequence = sequence,
                   pr_deadline_ns = saturated_add now_ns (ack_timeout_ns (sw_config s))\<rparr>,
             s\<lparr>sw_probe_cursor := (idx + 1) mod count, sw_sequence := sequence\<rparr>))"

fun witnesses_from :: "nat \<Rightarrow> nat \<Rightarrow> uuid \<Rightarrow> 'a peer_slot list \<Rightarrow> uuid list \<Rightarrow> uuid list" where
  "witnesses_from mp limit suspect [] out = out"
| "witnesses_from mp limit suspect (slot # slots) out =
    (if \<not> length out < limit then out
     else if cog_uuid (sl_identity slot) = suspect \<or> ph_state (sl_health slot) \<noteq> Alive
       then witnesses_from mp limit suspect slots out
       else witnesses_from mp limit suspect slots (snd (slot_push mp (cog_uuid (sl_identity slot)) out)))"

definition indirect_witnesses :: "nat \<Rightarrow> uuid \<Rightarrow> 'a swim \<Rightarrow> uuid list" where
  "indirect_witnesses mp suspect s = witnesses_from mp (unat (indirect_checks (sw_config s))) suspect (sw_slots s) []"

definition piggyback_batch :: "nat \<Rightarrow> 'a swim \<Rightarrow> 'a swim_event list" where
  "piggyback_batch mq s = fold (\<lambda>e out. snd (slot_push mq e out)) (sw_piggyback s) []"

definition acknowledge_piggybacks :: "nat \<Rightarrow> 'a swim \<Rightarrow> 'a swim" where
  "acknowledge_piggybacks n s = s\<lparr>sw_piggyback := drop (min (length (sw_piggyback s)) n) (sw_piggyback s)\<rparr>"

definition apply_gossip :: "nat \<Rightarrow> nat \<Rightarrow> 'a swim_event \<Rightarrow> u64 \<Rightarrow> 'a swim \<Rightarrow> 'a swim_result" where
  "apply_gossip mp mq incoming now_ns s =
    (if uuid_is_zero (cog_uuid (ev_peer incoming)) then (Inl ZeroUuid, s)
     else case find_index (cog_uuid (ev_peer incoming)) s of
       None \<Rightarrow>
         (case reserve_next mp (length (sw_slots s)) of
            (None, n) \<Rightarrow> (Inl CapacityExceeded, s)
          | (Some index, n) \<Rightarrow>
              (Inr (), add_slot mq \<lparr>sl_identity = ev_peer incoming,
                 sl_health = \<lparr>ph_state = ev_state incoming,
                   ph_last_heartbeat_ns = (if ev_state incoming = Alive then now_ns else 0),
                   ph_consecutive_misses = ev_consecutive_misses incoming, ph_incarnation = ev_incarnation incoming\<rparr>,
                 sl_last_seen_sequence = sw_sequence s\<rparr> s))
     | Some idx \<Rightarrow>
         let slot = sw_slots s ! idx; h = sl_health slot in
         if \<not> event_newer incoming slot then (Inr (), s)
         else (Inr (), put_slot mq idx \<lparr>sl_identity = ev_peer incoming,
                 sl_health = h\<lparr>ph_state := ev_state incoming, ph_consecutive_misses := ev_consecutive_misses incoming,
                   ph_incarnation := ev_incarnation incoming,
                   ph_last_heartbeat_ns := (if ev_state incoming = Alive then now_ns else ph_last_heartbeat_ns h)\<rparr>,
                 sl_last_seen_sequence = sw_sequence s\<rparr> s))"

definition empty_swim :: "swim_config \<Rightarrow> 'a swim" where
  "empty_swim config = \<lparr>sw_config = config, sw_slots = [], sw_probe_cursor = 0, sw_sequence = 0, sw_piggyback = []\<rparr>"

fun add_initial :: "nat \<Rightarrow> nat \<Rightarrow> 'a cog_identity list \<Rightarrow> 'a swim \<Rightarrow> 'a swim checked" where
  "add_initial mp mq [] s = ok s"
| "add_initial mp mq (p # ps) s =
    (case add_peer mp mq p s of (Inl e, s') \<Rightarrow> fail Fatal_invariant | (Inr u, s') \<Rightarrow> add_initial mp mq ps s')"

definition mint_swim_membership :: "nat \<Rightarrow> nat \<Rightarrow> 'a cog_identity list \<Rightarrow> swim_config \<Rightarrow> 'a swim checked" where
  "mint_swim_membership mp mq peers config = add_initial mp mq peers (empty_swim config)"


section \<open>The membership invariant\<close>

text \<open>The public operations that change a membership, as one step function.\<close>

datatype 'a swim_op =
    Add_peer "'a cog_identity" | Remove_peer uuid | Next_probe u64 | Ack uuid u64 | Ping_timeout uuid
  | Indirect_ack uuid u64 | Indirect_timeout uuid | Acknowledge u16 | Gossip "'a swim_event" u64

fun swim_step :: "nat \<Rightarrow> nat \<Rightarrow> 'a swim_op \<Rightarrow> 'a swim \<Rightarrow> 'a swim" where
  "swim_step mp mq (Add_peer p) s = snd (add_peer mp mq p s)"
| "swim_step mp mq (Remove_peer u) s = snd (remove_peer mq u s)"
| "swim_step mp mq (Next_probe now) s = snd (next_probe now s)"
| "swim_step mp mq (Ack u now) s = snd (on_ack mq u now s)"
| "swim_step mp mq (Ping_timeout u) s = snd (on_ping_timeout mq u s)"
| "swim_step mp mq (Indirect_ack u now) s = snd (on_indirect_ack mq u now s)"
| "swim_step mp mq (Indirect_timeout u) s = snd (on_indirect_timeout mq u s)"
| "swim_step mp mq (Acknowledge n) s = acknowledge_piggybacks (unat n) s"
| "swim_step mp mq (Gossip e now) s = snd (apply_gossip mp mq e now s)"

definition slot_uuid :: "'a peer_slot \<Rightarrow> uuid" where
  "slot_uuid slot = cog_uuid (sl_identity slot)"

definition swim_uuids :: "'a swim \<Rightarrow> uuid list" where
  "swim_uuids s = map slot_uuid (sw_slots s)"

definition events_about :: "uuid \<Rightarrow> 'a swim_event list \<Rightarrow> 'a swim_event list" where
  "events_about u es = filter (\<lambda>e. cog_uuid (ev_peer e) = u) es"

text \<open>What an event tells is what the slot holds.\<close>

definition tells :: "'a swim_event \<Rightarrow> 'a peer_slot \<Rightarrow> bool" where
  "tells e slot \<longleftrightarrow>
    ev_peer e = sl_identity slot \<and> ev_state e = ph_state (sl_health slot) \<and>
    ev_consecutive_misses e = ph_consecutive_misses (sl_health slot) \<and>
    ev_incarnation e = ph_incarnation (sl_health slot)"

definition latest_tells :: "'a swim_event list \<Rightarrow> 'a peer_slot \<Rightarrow> bool" where
  "latest_tells es slot \<longleftrightarrow>
    events_about (slot_uuid slot) es = [] \<or> tells (last (events_about (slot_uuid slot) es)) slot"

definition members_ok :: "nat \<Rightarrow> 'a swim \<Rightarrow> bool" where
  "members_ok mp s \<longleftrightarrow>
    length (sw_slots s) \<le> mp \<and> distinct (swim_uuids s) \<and> (\<forall>u\<in>set (swim_uuids s). \<not> uuid_is_zero u) \<and>
    (sw_probe_cursor s = 0 \<or> sw_probe_cursor s < length (sw_slots s))"

definition queue_ok :: "nat \<Rightarrow> 'a swim \<Rightarrow> bool" where
  "queue_ok mq s \<longleftrightarrow>
    length (sw_piggyback s) \<le> mq \<and> (\<forall>e\<in>set (sw_piggyback s). cog_uuid (ev_peer e) \<in> set (swim_uuids s)) \<and>
    (\<forall>slot\<in>set (sw_slots s). latest_tells (sw_piggyback s) slot)"

definition swim_ok :: "nat \<Rightarrow> nat \<Rightarrow> 'a swim \<Rightarrow> bool" where
  "swim_ok mp mq s \<longleftrightarrow> members_ok mp s \<and> queue_ok mq s"


lemma find_from_Some:
  assumes "find_from u slots i = Some k"
  shows "i \<le> k \<and> k - i < length slots \<and> slot_uuid (slots ! (k - i)) = u"
  using assms
proof (induction u slots i rule: find_from.induct)
  case (2 u slot slots i)
  show ?case
  proof (cases "slot_uuid slot = u")
    case True
    then show ?thesis using 2 by (simp add: slot_uuid_def)
  next
    case False
    then have "Suc i \<le> k \<and> k - Suc i < length slots \<and> slot_uuid (slots ! (k - Suc i)) = u"
      using 2 by (simp add: slot_uuid_def)
    moreover from this have "k - i = Suc (k - Suc i)"
      by linarith
    ultimately show ?thesis by simp
  qed
qed simp

lemma find_from_None: "find_from u slots i = None \<longleftrightarrow> u \<notin> set (map slot_uuid slots)"
  by (induction u slots i rule: find_from.induct) (auto simp: slot_uuid_def)

lemma find_index_None: "find_index u s = None \<longleftrightarrow> u \<notin> set (swim_uuids s)"
  unfolding find_index_def swim_uuids_def by (rule find_from_None)

lemma find_index_Some:
  assumes "find_index u s = Some i"
  shows "i < length (sw_slots s)" "slot_uuid (sw_slots s ! i) = u"
  using find_from_Some [of u "sw_slots s" 0 i] assms by (simp_all add: find_index_def)

lemma find_index_nth:
  assumes "distinct (swim_uuids s)" and "i < length (sw_slots s)"
  shows "find_index (slot_uuid (sw_slots s ! i)) s = Some i"
proof -
  have "slot_uuid (sw_slots s ! i) \<in> set (swim_uuids s)"
    using assms(2) by (simp add: swim_uuids_def)
  then obtain j where j: "find_index (slot_uuid (sw_slots s ! i)) s = Some j"
    using find_index_None [of "slot_uuid (sw_slots s ! i)" s] by fastforce
  have "swim_uuids s ! j = swim_uuids s ! i" and "j < length (swim_uuids s)"
    using find_index_Some [OF j] assms(2) by (simp_all add: swim_uuids_def)
  then have "j = i"
    using assms nth_eq_iff_index_eq [OF assms(1)] by (simp add: swim_uuids_def)
  then show ?thesis using j by simp
qed

lemma latest_tells_drop:
  assumes "latest_tells es slot"
  shows "latest_tells (drop n es) slot"
proof -
  have "events_about (slot_uuid slot) es
      = events_about (slot_uuid slot) (take n es) @ events_about (slot_uuid slot) (drop n es)"
    unfolding events_about_def by (metis append_take_drop_id filter_append)
  then show ?thesis using assms by (auto simp: latest_tells_def last_append split: if_splits)
qed

lemma latest_tells_append:
  "latest_tells (es @ [e]) slot \<longleftrightarrow>
    (if cog_uuid (ev_peer e) = slot_uuid slot then tells e slot else latest_tells es slot)"
  by (simp add: latest_tells_def events_about_def)

text \<open>An appended event keeps the queue, once the slot it tells of is in the table.\<close>

lemma append_event_slots [simp]:
  "sw_slots (append_event mq slot s) = sw_slots s" "sw_probe_cursor (append_event mq slot s) = sw_probe_cursor s"
  "sw_config (append_event mq slot s) = sw_config s"
  by (simp_all add: append_event_def Let_def)

lemma append_event_queue:
  "\<exists>n e. sw_piggyback (append_event mq slot s) = drop n (sw_piggyback s) @ [e] \<and> tells e slot
     \<and> (length (sw_piggyback s) \<le> mq \<longrightarrow> 0 < mq \<longrightarrow> length (drop n (sw_piggyback s)) < mq)"
proof (cases "length (sw_piggyback s) = mq")
  case True
  show ?thesis
    by (rule exI [of _ 1]) (use True in \<open>auto simp: append_event_def Let_def tells_def drop_Suc\<close>)
next
  case False
  show ?thesis
    by (rule exI [of _ 0]) (use False in \<open>auto simp: append_event_def Let_def tells_def\<close>)
qed

lemma append_event_ok:
  assumes mq: "0 < mq" and len: "length (sw_piggyback s) \<le> mq"
    and known: "\<forall>e\<in>set (sw_piggyback s). cog_uuid (ev_peer e) \<in> set (swim_uuids s)"
    and slot: "slot \<in> set (sw_slots s)" and distinct: "distinct (swim_uuids s)"
    and rest: "\<forall>t\<in>set (sw_slots s). slot_uuid t \<noteq> slot_uuid slot \<longrightarrow> latest_tells (sw_piggyback s) t"
  shows "queue_ok mq (append_event mq slot s)"
proof -
  obtain n e where q: "sw_piggyback (append_event mq slot s) = drop n (sw_piggyback s) @ [e]" and e: "tells e slot"
    and short: "length (drop n (sw_piggyback s)) < mq"
    using append_event_queue [of mq slot s] mq len by blast
  have peer: "cog_uuid (ev_peer e) = slot_uuid slot"
    using e by (simp add: tells_def slot_uuid_def)
  have same: "t = slot" if "t \<in> set (sw_slots s)" "slot_uuid t = slot_uuid slot" for t
    using distinct slot that by (auto simp: swim_uuids_def distinct_map dest: inj_onD)
  have "latest_tells (drop n (sw_piggyback s) @ [e]) t" if "t \<in> set (sw_slots s)" for t
  proof (cases "slot_uuid t = slot_uuid slot")
    case True
    then show ?thesis
      using same [OF that True] e peer by (simp add: latest_tells_append)
  next
    case False
    then show ?thesis
      using latest_tells_drop [of "sw_piggyback s" t n] rest that peer by (simp add: latest_tells_append)
  qed
  moreover have "slot_uuid slot \<in> set (swim_uuids s)"
    using slot by (simp add: swim_uuids_def)
  ultimately show ?thesis
    using q short known peer set_drop_subset [of n "sw_piggyback s"]
    by (auto simp: queue_ok_def swim_uuids_def)
qed

text \<open>Every operation replaces one slot by one with the same identifier, adds a slot with a fresh
  identifier, moves the cursor, or acknowledges events.\<close>

lemma put_slot_uuids:
  assumes "i < length (sw_slots s)" and "slot_uuid slot = slot_uuid (sw_slots s ! i)"
  shows "map slot_uuid ((sw_slots s)[i := slot]) = swim_uuids s"
  using assms by (simp add: swim_uuids_def map_update list_update_same_conv)

lemma put_slot_ok:
  assumes mq: "0 < mq" and inv: "swim_ok mp mq s" and i: "i < length (sw_slots s)"
    and uuid: "slot_uuid slot = slot_uuid (sw_slots s ! i)"
  shows "swim_ok mp mq (put_slot mq i slot s)"
proof -
  let ?t = "s\<lparr>sw_slots := (sw_slots s)[i := slot]\<rparr>"
  have uuids: "swim_uuids ?t = swim_uuids s"
    using put_slot_uuids [OF i uuid] by (simp add: swim_uuids_def)
  have "members_ok mp ?t"
    using inv uuids by (simp add: swim_ok_def members_ok_def)
  moreover have "queue_ok mq (append_event mq slot ?t)"
  proof (rule append_event_ok)
    show "slot \<in> set (sw_slots ?t)" using i by (simp add: set_update_memI)
    have "latest_tells (sw_piggyback s) t"
      if "t \<in> set ((sw_slots s)[i := slot])" "slot_uuid t \<noteq> slot_uuid slot" for t
      using that inv set_update_subset_insert [of "sw_slots s" i slot] by (auto simp: swim_ok_def queue_ok_def)
    then show "\<forall>t\<in>set (sw_slots ?t). slot_uuid t \<noteq> slot_uuid slot \<longrightarrow> latest_tells (sw_piggyback ?t) t"
      by simp
  qed (use mq inv uuids in \<open>simp_all add: swim_ok_def queue_ok_def members_ok_def\<close>)
  ultimately show ?thesis
    by (simp add: swim_ok_def put_slot_def members_ok_def swim_uuids_def)
qed

lemma add_slot_ok:
  assumes mq: "0 < mq" and inv: "swim_ok mp mq s" and room: "length (sw_slots s) < mp"
    and fresh: "slot_uuid slot \<notin> set (swim_uuids s)" and nonzero: "\<not> uuid_is_zero (slot_uuid slot)"
  shows "swim_ok mp mq (add_slot mq slot s)"
proof -
  let ?t = "s\<lparr>sw_slots := sw_slots s @ [slot]\<rparr>"
  have "members_ok mp ?t"
    using inv room fresh nonzero by (auto simp: swim_ok_def members_ok_def swim_uuids_def)
  moreover have "queue_ok mq (append_event mq slot ?t)"
  proof (rule append_event_ok)
    show "\<forall>t\<in>set (sw_slots ?t). slot_uuid t \<noteq> slot_uuid slot \<longrightarrow> latest_tells (sw_piggyback ?t) t"
      using inv by (auto simp: swim_ok_def queue_ok_def)
  qed (use mq inv fresh in \<open>auto simp: swim_ok_def queue_ok_def members_ok_def swim_uuids_def\<close>)
  ultimately show ?thesis
    by (simp add: swim_ok_def add_slot_def members_ok_def swim_uuids_def)
qed

lemma mark_ok:
  assumes "0 < mq" and "swim_ok mp mq s" and "i < length (sw_slots s)"
  shows "swim_ok mp mq (mark_alive mq i now s)" "swim_ok mp mq (mark_dead mq i s)" "swim_ok mp mq (miss mq i s)"
  using assms by (auto simp: mark_alive_def mark_dead_def miss_def Let_def slot_uuid_def intro!: put_slot_ok)

lemma add_peer_ok:
  assumes "0 < mq" and "swim_ok mp mq s"
  shows "swim_ok mp mq (snd (add_peer mp mq p s))"
  using assms
  by (auto simp: add_peer_def reserve_next_def slot_full_def find_index_None slot_uuid_def intro!: add_slot_ok)

lemma apply_gossip_ok:
  assumes "0 < mq" and "swim_ok mp mq s"
  shows "swim_ok mp mq (snd (apply_gossip mp mq e now s))"
proof (cases "find_index (cog_uuid (ev_peer e)) s")
  case None
  have "cog_uuid (ev_peer e) \<notin> set (swim_uuids s)"
    using None find_index_None by blast
  then show ?thesis
    using assms None
    by (auto simp: apply_gossip_def reserve_next_def slot_full_def slot_uuid_def intro!: add_slot_ok)
next
  case (Some i)
  then show ?thesis
    using assms find_index_Some [OF Some]
    by (auto simp: apply_gossip_def Let_def slot_uuid_def intro!: put_slot_ok)
qed

lemma ack_timeout_ok:
  assumes "0 < mq" and "swim_ok mp mq s"
  shows "swim_ok mp mq (snd (on_ack mq u now s))" "swim_ok mp mq (snd (on_ping_timeout mq u s))"
    "swim_ok mp mq (snd (remove_peer mq u s))"
  using assms mark_ok [OF assms] find_index_Some(1) [of u s]
  by (auto simp: on_ack_def on_ping_timeout_def remove_peer_def split: option.splits)

lemma next_probe_ok:
  assumes "swim_ok mp mq s"
  shows "swim_ok mp mq (snd (next_probe now s))"
  using assms
  by (auto simp: next_probe_def Let_def swim_ok_def members_ok_def queue_ok_def swim_uuids_def split: option.splits)

lemma acknowledge_ok:
  assumes "swim_ok mp mq s"
  shows "swim_ok mp mq (acknowledge_piggybacks n s)"
  using assms
  by (auto simp: acknowledge_piggybacks_def swim_ok_def members_ok_def queue_ok_def swim_uuids_def
      intro: latest_tells_drop dest: in_set_dropD)

lemma swim_step_ok:
  assumes "0 < mq" and "swim_ok mp mq s"
  shows "swim_ok mp mq (swim_step mp mq act s)"
  using assms
  by (cases act) (simp_all add: add_peer_ok apply_gossip_ok ack_timeout_ok next_probe_ok acknowledge_ok
      on_indirect_ack_def on_indirect_timeout_def)

lemma empty_swim_ok: "swim_ok mp mq (empty_swim config)"
  by (simp add: swim_ok_def members_ok_def queue_ok_def empty_swim_def swim_uuids_def)

lemma add_initial_ok:
  assumes "0 < mq" and "swim_ok mp mq s" and "add_initial mp mq ps s = ok s'"
  shows "swim_ok mp mq s'"
  using assms
proof (induction ps arbitrary: s)
  case (Cons p ps)
  then show ?case
    using add_peer_ok [of mq mp s p] by (auto split: prod.splits sum.splits)
qed simp

lemma mint_swim_ok:
  assumes "0 < mq" and "mint_swim_membership mp mq peers config = ok s"
  shows "swim_ok mp mq s"
  using add_initial_ok [OF assms(1) empty_swim_ok] assms(2) by (simp add: mint_swim_membership_def)

lemma swim_run_ok:
  assumes "0 < mq" and "swim_ok mp mq s"
  shows "swim_ok mp mq (fold (swim_step mp mq) ops s)"
  using assms by (induction ops arbitrary: s) (simp_all add: swim_step_ok)

text \<open>The batch and the queue have the same capacity, so a batch is the whole queue; the witness set has
  room for every peer that reaches it.\<close>

lemma slot_push_room: "length xs < cap \<Longrightarrow> slot_push cap x xs = (True, xs @ [x])"
  by (simp add: slot_push_def reserve_next_def slot_full_def)

lemma batch_fold:
  assumes "length out + length es \<le> mq"
  shows "fold (\<lambda>e out. snd (slot_push mq e out)) es out = out @ es"
  using assms by (induction es arbitrary: out) (simp_all add: slot_push_room)

lemma piggyback_batch_queue: "queue_ok mq s \<Longrightarrow> piggyback_batch mq s = sw_piggyback s"
  by (simp add: piggyback_batch_def queue_ok_def batch_fold)

lemma witnesses_from_eq:
  assumes "length out + length slots \<le> mp" and "length out \<le> limit"
  shows "witnesses_from mp limit suspect slots out
    = out @ take (limit - length out)
        (filter (\<lambda>u. u \<noteq> suspect) (map slot_uuid (filter (\<lambda>slot. ph_state (sl_health slot) = Alive) slots)))"
  using assms
proof (induction mp limit suspect slots out rule: witnesses_from.induct)
  case (2 mp limit suspect slot slots out)
  show ?case
  proof (cases "length out < limit")
    case True
    then have "limit - length out = Suc (limit - Suc (length out))"
      by simp
    then show ?thesis
      using 2 True by (auto simp: slot_push_room slot_uuid_def)
  qed (use 2 in simp)
qed simp

lemma indirect_witnesses_eq:
  assumes "members_ok mp s"
  shows "indirect_witnesses mp suspect s = take (unat (indirect_checks (sw_config s)))
    (filter (\<lambda>u. u \<noteq> suspect) (map slot_uuid (filter (\<lambda>slot. ph_state (sl_health slot) = Alive) (sw_slots s))))"
  using witnesses_from_eq [of "[]" "sw_slots s" mp] assms by (simp add: indirect_witnesses_def members_ok_def)


section \<open>The order of health\<close>

definition health_key :: "peer_health \<Rightarrow> nat \<times> nat" where
  "health_key h = (unat (ph_incarnation h), state_rank (ph_state h))"

definition event_key :: "'a swim_event \<Rightarrow> nat \<times> nat" where
  "event_key e = (unat (ev_incarnation e), state_rank (ev_state e))"

definition peer_key :: "'a swim \<Rightarrow> nat \<Rightarrow> nat \<times> nat" where
  "peer_key s i = health_key (sl_health (sw_slots s ! i))"

lemma event_newer_key: "event_newer e slot \<longleftrightarrow> health_key (sl_health slot) < event_key e"
  by (auto simp: event_newer_def health_key_def event_key_def less_prod_def word_less_nat_alt word_unat_eq_iff)

lemma put_slot_slots [simp]: "sw_slots (put_slot mq i slot s) = (sw_slots s)[i := slot]"
  by (simp add: put_slot_def)

lemma add_slot_slots [simp]: "sw_slots (add_slot mq slot s) = sw_slots s @ [slot]"
  by (simp add: add_slot_def)

text \<open>A step keeps every peer in its slot; its health stays, or moves up in the order.\<close>

definition advances :: "'a swim \<Rightarrow> 'a swim \<Rightarrow> nat \<Rightarrow> bool" where
  "advances s s' i \<longleftrightarrow>
    i < length (sw_slots s') \<and> slot_uuid (sw_slots s' ! i) = slot_uuid (sw_slots s ! i) \<and>
    (ph_incarnation (sl_health (sw_slots s ! i)) \<noteq> - 1 \<longrightarrow>
      sl_health (sw_slots s' ! i) = sl_health (sw_slots s ! i) \<or> peer_key s i < peer_key s' i)"

lemma advances_refl: "i < length (sw_slots s) \<Longrightarrow> advances s s i"
  by (simp add: advances_def)

lemma advances_append: "i < length (sw_slots s) \<Longrightarrow> sw_slots s' = sw_slots s @ xs \<Longrightarrow> advances s s' i"
  by (simp add: advances_def nth_append)

lemma advances_same: "i < length (sw_slots s) \<Longrightarrow> sw_slots s' = sw_slots s \<Longrightarrow> advances s s' i"
  by (simp add: advances_def)

lemma advances_put:
  assumes "i < length (sw_slots s)" and "j < length (sw_slots s)"
    and "slot_uuid slot = slot_uuid (sw_slots s ! j)"
    and "ph_incarnation (sl_health (sw_slots s ! j)) \<noteq> - 1 \<Longrightarrow> peer_key s j < health_key (sl_health slot)"
  shows "advances s (put_slot mq j slot s) i"
  using assms by (auto simp: advances_def peer_key_def nth_list_update)

lemma advances_mark:
  assumes "i < length (sw_slots s)" and "j < length (sw_slots s)"
  shows "advances s (mark_alive mq j now s) i" "advances s (mark_dead mq j s) i" "advances s (miss mq j s) i"
  using assms
  by (auto simp: mark_alive_def mark_dead_def miss_def Let_def slot_uuid_def peer_key_def health_key_def less_prod_def unat_succ
      intro!: advances_put advances_refl)

lemma apply_gossip_advances:
  assumes "i < length (sw_slots s)"
  shows "advances s (snd (apply_gossip mp mq e now s)) i"
proof (cases "find_index (cog_uuid (ev_peer e)) s")
  case None
  then show ?thesis
    using assms by (auto simp: apply_gossip_def reserve_next_def intro: advances_refl advances_append)
next
  case (Some j)
  then show ?thesis
    using assms find_index_Some [OF Some]
    by (auto simp: apply_gossip_def Let_def slot_uuid_def event_newer_key event_key_def health_key_def peer_key_def
        intro!: advances_refl advances_put)
qed

lemma swim_step_advances:
  assumes "i < length (sw_slots s)"
  shows "advances s (swim_step mp mq act s) i"
proof (cases act)
  case (Add_peer p)
  then show ?thesis
    using assms by (auto simp: add_peer_def reserve_next_def intro: advances_refl advances_append)
next
  case (Next_probe now)
  then show ?thesis
    using assms by (auto simp: next_probe_def Let_def split: option.splits intro: advances_refl advances_same)
next
  case (Acknowledge n)
  then show ?thesis
    using assms by (auto simp: acknowledge_piggybacks_def intro: advances_same)
next
  case (Gossip e now)
  then show ?thesis
    using assms by (simp add: apply_gossip_advances)
qed (use assms in \<open>auto simp: remove_peer_def on_ack_def on_ping_timeout_def on_indirect_ack_def on_indirect_timeout_def
    split: option.splits intro: advances_refl advances_mark dest: find_index_Some\<close>)

text \<open>Gossip about a known peer leaves the greatest of what was known and what was told, whatever the
  order of the events.\<close>

lemma apply_gossip_key:
  assumes inv: "swim_ok mp mq s" and i: "i < length (sw_slots s)"
  shows "peer_key (snd (apply_gossip mp mq e now s)) i =
    (if cog_uuid (ev_peer e) = slot_uuid (sw_slots s ! i) then max (peer_key s i) (event_key e) else peer_key s i)"
proof (cases "find_index (cog_uuid (ev_peer e)) s")
  case None
  then have "cog_uuid (ev_peer e) \<noteq> slot_uuid (sw_slots s ! i)"
    using find_index_None [of "cog_uuid (ev_peer e)" s] i by (auto simp: swim_uuids_def)
  then show ?thesis
    using None i by (auto simp: apply_gossip_def reserve_next_def peer_key_def nth_append)
next
  case (Some j)
  have distinct: "distinct (swim_uuids s)" and "cog_uuid (ev_peer e) \<in> set (swim_uuids s)"
    using inv Some find_index_None [of "cog_uuid (ev_peer e)" s] by (auto simp: swim_ok_def members_ok_def)
  then have nonzero: "\<not> uuid_is_zero (cog_uuid (ev_peer e))"
    using inv by (simp add: swim_ok_def members_ok_def)
  show ?thesis
  proof (cases "cog_uuid (ev_peer e) = slot_uuid (sw_slots s ! i)")
    case True
    then have "j = i"
      using find_index_nth [OF distinct i] Some by simp
    then show ?thesis
      using Some i nonzero True
      by (auto simp: apply_gossip_def Let_def peer_key_def event_newer_key health_key_def event_key_def max_def)
  next
    case False
    then have "j \<noteq> i"
      using find_index_Some(2) [OF Some] by metis
    then show ?thesis
      using Some nonzero False by (simp add: apply_gossip_def Let_def peer_key_def)
  qed
qed

definition gossip_all :: "nat \<Rightarrow> nat \<Rightarrow> ('a swim_event \<times> u64) list \<Rightarrow> 'a swim \<Rightarrow> 'a swim" where
  "gossip_all mp mq es = fold (\<lambda>(e, now). swim_step mp mq (Gossip e now)) es"

lemma gossip_all_key:
  assumes "0 < mq" and "swim_ok mp mq s" and "i < length (sw_slots s)"
  shows "peer_key (gossip_all mp mq es s) i =
    Max (insert (peer_key s i)
      (event_key ` {e \<in> fst ` set es. cog_uuid (ev_peer e) = slot_uuid (sw_slots s ! i)}))"
  using assms(2,3)
proof (induction es arbitrary: s)
  case Nil
  then show ?case by (simp add: gossip_all_def)
next
  case (Cons x es)
  obtain e now where x: "x = (e, now)" by (cases x)
  define s1 where "s1 = swim_step mp mq (Gossip e now) s"
  define u where "u = slot_uuid (sw_slots s ! i)"
  have step: "peer_key s1 i = (if cog_uuid (ev_peer e) = u then max (peer_key s i) (event_key e) else peer_key s i)"
    using apply_gossip_key [OF Cons.prems] by (simp add: s1_def u_def)
  have "swim_ok mp mq s1" and "i < length (sw_slots s1)" and "slot_uuid (sw_slots s1 ! i) = u"
    using swim_step_ok [OF assms(1) Cons.prems(1), of "Gossip e now"] apply_gossip_advances [OF Cons.prems(2)]
    by (simp_all add: advances_def s1_def u_def)
  then have "peer_key (gossip_all mp mq es s1) i =
      Max (insert (peer_key s1 i) (event_key ` {e \<in> fst ` set es. cog_uuid (ev_peer e) = u}))"
    using Cons.IH [of s1] by simp
  moreover have "gossip_all mp mq (x # es) s = gossip_all mp mq es s1"
    by (simp add: gossip_all_def x s1_def)
  moreover have "{e' \<in> fst ` set (x # es). cog_uuid (ev_peer e') = u} =
      (if cog_uuid (ev_peer e) = u then {e} else {}) \<union> {e \<in> fst ` set es. cog_uuid (ev_peer e) = u}"
    by (auto simp: x)
  ultimately show ?case
    unfolding u_def [symmetric]
    by (cases "{e \<in> fst ` set es. cog_uuid (ev_peer e) = u} = {}") (simp_all add: step max.assoc)
qed


section \<open>Detection of crashed peers\<close>

text \<open>One protocol period of a member that probes the next peer: a crashed peer does not answer, and a
  running one does.  The period is a driver of the operations above, not a function of the source; it gossips
  nothing and sends no indirect probe.\<close>

definition detector_round :: "nat \<Rightarrow> (uuid \<Rightarrow> bool) \<Rightarrow> u64 \<Rightarrow> 'a swim \<Rightarrow> 'a swim" where
  "detector_round mq crashed now s =
    (case next_probe now s of
       (None, s') \<Rightarrow> s'
     | (Some probe, s') \<Rightarrow>
         if crashed (pr_target probe) then snd (on_ping_timeout mq (pr_target probe) s')
         else snd (on_ack mq (pr_target probe) now s'))"

definition detector_rounds :: "nat \<Rightarrow> (uuid \<Rightarrow> bool) \<Rightarrow> u64 list \<Rightarrow> 'a swim \<Rightarrow> 'a swim" where
  "detector_rounds mq crashed nows = fold (detector_round mq crashed) nows"

definition state_at :: "'a swim \<Rightarrow> nat \<Rightarrow> swim_status" where
  "state_at s i = ph_state (sl_health (sw_slots s ! i))"

definition misses_at :: "'a swim \<Rightarrow> nat \<Rightarrow> nat" where
  "misses_at s i = unat (ph_consecutive_misses (sl_health (sw_slots s ! i)))"

definition suspicion :: "'a swim \<Rightarrow> nat" where
  "suspicion s = unat (suspicion_misses (sw_config s))"

text \<open>How many slots lie between the cursor and a peer.\<close>

definition probe_distance :: "'a swim \<Rightarrow> nat \<Rightarrow> nat" where
  "probe_distance s i = (i + length (sw_slots s) - sw_probe_cursor s) mod length (sw_slots s)"

lemma probe_distance_eq:
  assumes "(sw_probe_cursor s + d) mod length (sw_slots s) = i" and "d < length (sw_slots s)"
    and "sw_probe_cursor s < length (sw_slots s)"
  shows "probe_distance s i = d"
proof -
  let ?n = "length (sw_slots s)" and ?c = "sw_probe_cursor s"
  consider "?c + d < ?n" "i = ?c + d" | "?n \<le> ?c + d" "i = ?c + d - ?n"
    using assms by (cases "?c + d < ?n") (simp_all add: le_mod_geq)
  then show ?thesis
    using assms(2,3) by cases (simp_all add: probe_distance_def)
qed

lemma probe_distance_reaches:
  assumes "i < length (sw_slots s)" and "sw_probe_cursor s < length (sw_slots s)"
  shows "(sw_probe_cursor s + probe_distance s i) mod length (sw_slots s) = i"
    "probe_distance s i < length (sw_slots s)"
proof -
  have "(sw_probe_cursor s + probe_distance s i) mod length (sw_slots s)
      = (i + length (sw_slots s)) mod length (sw_slots s)"
    using assms(2) by (simp add: probe_distance_def mod_add_right_eq)
  then show "(sw_probe_cursor s + probe_distance s i) mod length (sw_slots s) = i"
    using assms(1) by simp
  show "probe_distance s i < length (sw_slots s)"
    unfolding probe_distance_def using assms(1) by (intro mod_less_divisor) linarith
qed

lemma probe_from_find:
  "probe_from n s as = map_option (\<lambda>a. (sw_probe_cursor s + a) mod n)
    (find (\<lambda>a. state_at s ((sw_probe_cursor s + a) mod n) \<noteq> Dead) as)"
  by (induction as) (simp_all add: Let_def state_at_def)

text \<open>A probe goes to the first peer at or after the cursor that is not dead, and the cursor moves past it.\<close>

lemma next_probe_target:
  assumes inv: "swim_ok mp mq s" and i: "i < length (sw_slots s)" and live: "state_at s i \<noteq> Dead"
  obtains idx probe where "idx < length (sw_slots s)" and "state_at s idx \<noteq> Dead"
    and "pr_target probe = slot_uuid (sw_slots s ! idx)"
    and "next_probe now s = (Some probe, s\<lparr>sw_probe_cursor := (idx + 1) mod length (sw_slots s),
           sw_sequence := sw_sequence s + 1\<rparr>)"
    and "probe_distance s idx \<le> probe_distance s i"
proof -
  let ?n = "length (sw_slots s)" and ?c = "sw_probe_cursor s"
  have n: "0 < ?n" and c: "?c < ?n"
    using inv i by (auto simp: swim_ok_def members_ok_def)
  have reach: "(?c + probe_distance s i) mod ?n = i" "probe_distance s i < ?n"
    using probe_distance_reaches [OF i c] by simp_all
  let ?P = "\<lambda>a. state_at s ((?c + a) mod ?n) \<noteq> Dead"
  have "find ?P [0..<?n] \<noteq> None"
    using reach live by (auto simp: find_None_iff)
  then obtain a where a: "find ?P [0..<?n] = Some a"
    by blast
  then have first: "a < ?n" "?P a" "\<And>b. b < a \<Longrightarrow> \<not> ?P b"
    by (auto simp: find_Some_iff)
  have "a \<le> probe_distance s i"
    using first(3) [of "probe_distance s i"] reach(1) live by (metis not_le)
  moreover have "probe_distance s ((?c + a) mod ?n) = a"
    using probe_distance_eq [of s a] first(1) c by simp
  moreover have "probe_from ?n s [0..<?n] = Some ((?c + a) mod ?n)"
    by (simp add: probe_from_find a)
  ultimately show thesis
    using that [of "(?c + a) mod ?n"] n first(2) by (fastforce simp: next_probe_def Let_def slot_uuid_def)
qed

lemma detector_round_cases:
  assumes inv: "swim_ok mp mq s" and i: "i < length (sw_slots s)" and live: "state_at s i \<noteq> Dead"
  obtains idx s1 where "idx < length (sw_slots s)" and "state_at s idx \<noteq> Dead"
    and "probe_distance s idx \<le> probe_distance s i"
    and "s1 = s\<lparr>sw_probe_cursor := (idx + 1) mod length (sw_slots s), sw_sequence := sw_sequence s + 1\<rparr>"
    and "detector_round mq crashed now s =
           (if crashed (slot_uuid (sw_slots s ! idx)) then miss mq idx s1 else mark_alive mq idx now s1)"
proof -
  obtain idx probe where idx: "idx < length (sw_slots s)" "state_at s idx \<noteq> Dead"
      "probe_distance s idx \<le> probe_distance s i"
    and probe: "pr_target probe = slot_uuid (sw_slots s ! idx)"
      "next_probe now s = (Some probe, s\<lparr>sw_probe_cursor := (idx + 1) mod length (sw_slots s),
         sw_sequence := sw_sequence s + 1\<rparr>)"
    using next_probe_target [OF assms] by metis
  define s1 where
    "s1 = s\<lparr>sw_probe_cursor := (idx + 1) mod length (sw_slots s), sw_sequence := sw_sequence s + 1\<rparr>"
  have "find_index (slot_uuid (sw_slots s ! idx)) s1 = Some idx"
    using find_index_nth [of s1 idx] inv idx(1) by (simp add: s1_def swim_ok_def members_ok_def swim_uuids_def)
  then show thesis
    using that [OF idx s1_def] probe
    by (simp add: detector_round_def on_ack_def on_ping_timeout_def s1_def)
qed

text \<open>What a miss and an answer do to the table.\<close>

lemma miss_table:
  assumes "idx < length (sw_slots s)" and "state_at s idx \<noteq> Dead"
  shows "swim_uuids (miss mq idx s) = swim_uuids s" "length (sw_slots (miss mq idx s)) = length (sw_slots s)"
    "sw_config (miss mq idx s) = sw_config s" "sw_probe_cursor (miss mq idx s) = sw_probe_cursor s"
    "j \<noteq> idx \<Longrightarrow> sw_slots (miss mq idx s) ! j = sw_slots s ! j"
  using assms
  by (simp_all add: miss_def Let_def put_slot_def state_at_def swim_uuids_def map_update list_update_same_conv slot_uuid_def)

lemma miss_state:
  assumes "idx < length (sw_slots s)" and "state_at s idx \<noteq> Dead"
  shows "state_at (miss mq idx s) idx = (if suspicion s \<le> Suc (misses_at s idx) then Dead else Suspect)"
    "Suc (misses_at s idx) < suspicion s \<Longrightarrow> misses_at (miss mq idx s) idx = Suc (misses_at s idx)"
proof -
  let ?m = "ph_consecutive_misses (sl_health (sw_slots s ! idx))"
  have small: "suspicion s < 2 ^ 16"
    using unat_lt_pow [of "suspicion_misses (sw_config s)"] by (simp add: suspicion_def)
  have "unat (if ?m = - 1 then ?m else ?m + 1) = (if ?m = - 1 then 2 ^ 32 - 1 else Suc (misses_at s idx))"
    using unat_max_word [where 'a = 32] by (simp add: misses_at_def unat_succ)
  moreover have "?m = - 1 \<Longrightarrow> misses_at s idx = 2 ^ 32 - 1"
    using unat_max_word [where 'a = 32] by (simp add: misses_at_def)
  ultimately show "state_at (miss mq idx s) idx = (if suspicion s \<le> Suc (misses_at s idx) then Dead else Suspect)"
    "Suc (misses_at s idx) < suspicion s \<Longrightarrow> misses_at (miss mq idx s) idx = Suc (misses_at s idx)"
    using assms small by (auto simp: miss_def Let_def state_at_def suspicion_def misses_at_def)
qed

lemma alive_table:
  assumes "idx < length (sw_slots s)"
  shows "swim_uuids (mark_alive mq idx now s) = swim_uuids s"
    "length (sw_slots (mark_alive mq idx now s)) = length (sw_slots s)"
    "sw_config (mark_alive mq idx now s) = sw_config s"
    "sw_probe_cursor (mark_alive mq idx now s) = sw_probe_cursor s"
    "j \<noteq> idx \<Longrightarrow> sw_slots (mark_alive mq idx now s) ! j = sw_slots s ! j"
    "state_at (mark_alive mq idx now s) idx = Alive"
  using assms
  by (simp_all add: mark_alive_def Let_def put_slot_def state_at_def swim_uuids_def map_update list_update_same_conv
      slot_uuid_def)

text \<open>A round keeps the members; when every peer is dead it keeps the whole state.\<close>

lemma detector_round_all_dead:
  assumes "\<forall>i<length (sw_slots s). state_at s i = Dead"
  shows "detector_round mq crashed now s = s"
proof -
  have "find (\<lambda>a. state_at s ((sw_probe_cursor s + a) mod length (sw_slots s)) \<noteq> Dead) [0..<length (sw_slots s)] = None"
    using assms by (auto simp: find_None_iff intro!: assms [rule_format] mod_less_divisor)
  then show ?thesis
    by (simp add: detector_round_def next_probe_def Let_def probe_from_find)
qed

lemma detector_round_table:
  assumes "swim_ok mp mq s"
  shows "swim_uuids (detector_round mq crashed now s) = swim_uuids s \<and>
    length (sw_slots (detector_round mq crashed now s)) = length (sw_slots s) \<and>
    sw_config (detector_round mq crashed now s) = sw_config s"
proof (cases "\<forall>i<length (sw_slots s). state_at s i = Dead")
  case True
  then show ?thesis by (simp add: detector_round_all_dead)
next
  case False
  then obtain i where i: "i < length (sw_slots s)" "state_at s i \<noteq> Dead" by blast
  obtain idx s1 where idx: "idx < length (sw_slots s)" "state_at s idx \<noteq> Dead"
    and s1: "s1 = s\<lparr>sw_probe_cursor := (idx + 1) mod length (sw_slots s), sw_sequence := sw_sequence s + 1\<rparr>"
    and round: "detector_round mq crashed now s =
      (if crashed (slot_uuid (sw_slots s ! idx)) then miss mq idx s1 else mark_alive mq idx now s1)"
    using detector_round_cases [OF assms i] by metis
  have "idx < length (sw_slots s1)" and "state_at s1 idx \<noteq> Dead" and "swim_uuids s1 = swim_uuids s"
    and "sw_config s1 = sw_config s" and "length (sw_slots s1) = length (sw_slots s)"
    using idx by (simp_all add: s1 state_at_def swim_uuids_def)
  then show ?thesis
    using round by (simp add: miss_table alive_table)
qed

lemma detector_round_ok:
  assumes "0 < mq" and "swim_ok mp mq s"
  shows "swim_ok mp mq (detector_round mq crashed now s)"
  using next_probe_ok [OF assms(2), of now] ack_timeout_ok [OF assms(1)]
  by (auto simp: detector_round_def split: prod.splits option.splits)

text \<open>Accuracy: a peer that answers and is alive stays alive.  A dead peer is not probed, so it stays
  dead.\<close>

lemma detector_round_state:
  assumes inv: "swim_ok mp mq s" and i: "i < length (sw_slots s)"
  shows "state_at s i = Dead \<Longrightarrow> state_at (detector_round mq crashed now s) i = Dead"
    "state_at s i = Alive \<Longrightarrow> \<not> crashed (slot_uuid (sw_slots s ! i)) \<Longrightarrow>
      state_at (detector_round mq crashed now s) i = Alive"
proof -
  have "(state_at s i = Dead \<longrightarrow> state_at (detector_round mq crashed now s) i = Dead) \<and>
    (state_at s i = Alive \<longrightarrow> \<not> crashed (slot_uuid (sw_slots s ! i)) \<longrightarrow>
      state_at (detector_round mq crashed now s) i = Alive)"
  proof (cases "\<forall>i<length (sw_slots s). state_at s i = Dead")
    case True
    then show ?thesis using i by (simp add: detector_round_all_dead)
  next
    case False
    then obtain j where j: "j < length (sw_slots s)" "state_at s j \<noteq> Dead" by blast
    obtain idx s1 where idx: "idx < length (sw_slots s)" "state_at s idx \<noteq> Dead"
      and s1: "s1 = s\<lparr>sw_probe_cursor := (idx + 1) mod length (sw_slots s), sw_sequence := sw_sequence s + 1\<rparr>"
      and round: "detector_round mq crashed now s =
        (if crashed (slot_uuid (sw_slots s ! idx)) then miss mq idx s1 else mark_alive mq idx now s1)"
      using detector_round_cases [OF inv j] by metis
    have in1: "idx < length (sw_slots s1)" "state_at s1 idx \<noteq> Dead" and same: "state_at s1 i = state_at s i"
      using idx by (simp_all add: s1 state_at_def)
    show ?thesis
    proof (cases "i = idx")
      case True
      then show ?thesis using round idx alive_table(6) [OF in1(1)] by simp
    next
      case False
      then have "state_at (detector_round mq crashed now s) i = state_at s1 i"
        using round miss_table(5) [OF in1 False] alive_table(5) [OF in1(1) False] by (simp add: state_at_def)
      then show ?thesis using same by simp
    qed
  qed
  then show "state_at s i = Dead \<Longrightarrow> state_at (detector_round mq crashed now s) i = Dead"
    "state_at s i = Alive \<Longrightarrow> \<not> crashed (slot_uuid (sw_slots s ! i)) \<Longrightarrow>
      state_at (detector_round mq crashed now s) i = Alive" by simp_all
qed

text \<open>Completeness: the rounds a crashed peer can still survive.\<close>

definition rounds_left :: "'a swim \<Rightarrow> nat \<Rightarrow> nat" where
  "rounds_left s i =
    (if state_at s i = Dead then 0
     else (suspicion s - misses_at s i - 1) * length (sw_slots s) + probe_distance s i + 1)"

lemma probe_distance_past:
  assumes "swim_ok mp mq s" and "i < length (sw_slots s)" and "idx < length (sw_slots s)"
    and "probe_distance s idx \<le> probe_distance s i" and "idx \<noteq> i"
    and "length (sw_slots t) = length (sw_slots s)" and "sw_probe_cursor t = (idx + 1) mod length (sw_slots s)"
  shows "probe_distance t i < probe_distance s i"
proof -
  let ?n = "length (sw_slots s)" and ?d = "probe_distance s"
  have c: "sw_probe_cursor s < ?n"
    using assms(1,2) by (auto simp: swim_ok_def members_ok_def)
  have at: "(sw_probe_cursor s + ?d i) mod ?n = i" "(sw_probe_cursor s + ?d idx) mod ?n = idx" "?d i < ?n"
    using probe_distance_reaches [OF assms(2) c] probe_distance_reaches [OF assms(3) c] by simp_all
  then have less: "?d idx < ?d i"
    using assms(4,5) by (metis le_neq_implies_less)
  have "(sw_probe_cursor t + (?d i - ?d idx - 1)) mod ?n = (idx + 1 + (?d i - ?d idx - 1)) mod ?n"
    by (simp add: assms(7) mod_add_left_eq)
  also have "\<dots> = (sw_probe_cursor s + ?d idx + (?d i - ?d idx)) mod ?n"
    using less at(2) by (metis (no_types, lifting) Suc_diff_Suc add.assoc add.commute diff_diff_left mod_add_left_eq plus_1_eq_Suc)
  also have "\<dots> = i"
    using less at(1) by simp
  finally have "probe_distance t i = ?d i - ?d idx - 1"
    using probe_distance_eq [of t "?d i - ?d idx - 1" i] at(3) assms(2,6,7)
      mod_less_divisor [of ?n "idx + 1"]
    by fastforce
  then show ?thesis using less by simp
qed

lemma rounds_left_less:
  assumes inv: "swim_ok mp mq s" and i: "i < length (sw_slots s)" and live: "state_at s i \<noteq> Dead"
    and crashed: "crashed (slot_uuid (sw_slots s ! i))"
  shows "rounds_left (detector_round mq crashed now s) i < rounds_left s i"
proof -
  let ?n = "length (sw_slots s)" and ?t = "detector_round mq crashed now s"
  obtain idx s1 where idx: "idx < ?n" "state_at s idx \<noteq> Dead" "probe_distance s idx \<le> probe_distance s i"
    and s1: "s1 = s\<lparr>sw_probe_cursor := (idx + 1) mod ?n, sw_sequence := sw_sequence s + 1\<rparr>"
    and round: "?t = (if crashed (slot_uuid (sw_slots s ! idx)) then miss mq idx s1 else mark_alive mq idx now s1)"
    using detector_round_cases [OF inv i live] by metis
  have in1: "idx < length (sw_slots s1)" "state_at s1 idx \<noteq> Dead"
    using idx by (simp_all add: s1 state_at_def)
  have t: "length (sw_slots ?t) = ?n" "suspicion ?t = suspicion s"
    using detector_round_table [OF inv, of crashed now] by (simp_all add: suspicion_def)
  have cursor: "sw_probe_cursor ?t = (idx + 1) mod ?n"
    using round miss_table(4) [OF in1] alive_table(4) [OF in1(1)] by (simp add: s1)
  show ?thesis
  proof (cases "idx = i")
    case True
    then have miss: "?t = miss mq i s1"
      using round crashed by simp
    have at1: "misses_at s1 i = misses_at s i" "suspicion s1 = suspicion s"
      by (simp_all add: s1 misses_at_def suspicion_def)
    have "sw_probe_cursor ?t < length (sw_slots ?t)"
      using t cursor i mod_less_divisor [of ?n "idx + 1"] by fastforce
    then have near: "probe_distance ?t i < ?n"
      using probe_distance_reaches(2) [of i ?t] t(1) i by simp
    show ?thesis
    proof (cases "suspicion s \<le> Suc (misses_at s i)")
      case True
      then show ?thesis
        using miss_state(1) [OF in1] at1 live \<open>idx = i\<close> by (simp add: rounds_left_def miss)
    next
      case False
      then have "misses_at ?t i = Suc (misses_at s i)"
        using miss_state(2) [OF in1] at1 \<open>idx = i\<close> by (simp add: miss)
      moreover obtain k where "suspicion s = misses_at s i + k + 2"
        using False by (metis add.commute add_2_eq_Suc' less_iff_Suc_add not_le add_Suc_right)
      ultimately show ?thesis
        using near live t(1,2) by (simp add: rounds_left_def)
    qed
  next
    case False
    have "sw_slots ?t ! i = sw_slots s ! i"
      using round miss_table(5) [OF in1] alive_table(5) [OF in1(1)] False by (simp add: s1)
    moreover have "probe_distance ?t i < probe_distance s i"
      using probe_distance_past [OF inv i idx(1,3) False t(1) cursor] .
    ultimately show ?thesis
      using t(1,2) live by (simp add: rounds_left_def state_at_def misses_at_def)
  qed
qed

lemma detector_rounds_dead:
  assumes "0 < mq" and "swim_ok mp mq s" and "i < length (sw_slots s)" and "crashed (swim_uuids s ! i)"
    and "rounds_left s i \<le> length nows"
  shows "state_at (detector_rounds mq crashed nows s) i = Dead"
  using assms(2-)
proof (induction nows arbitrary: s)
  case Nil
  then show ?case by (simp add: detector_rounds_def rounds_left_def split: if_splits)
next
  case (Cons now nows)
  let ?t = "detector_round mq crashed now s"
  have uuid: "swim_uuids s ! i = slot_uuid (sw_slots s ! i)"
    using Cons.prems(2) by (simp add: swim_uuids_def)
  have "rounds_left ?t i \<le> length nows"
  proof (cases "state_at s i = Dead")
    case True
    then show ?thesis
      using detector_round_state(1) [OF Cons.prems(1,2) True] by (simp add: rounds_left_def)
  next
    case False
    have "rounds_left ?t i < rounds_left s i"
      using rounds_left_less [OF Cons.prems(1,2) False, of crashed now] Cons.prems(3) uuid by simp
    then show ?thesis
      using Cons.prems(4) by simp
  qed
  then show ?case
    using Cons.IH [of ?t] detector_round_ok [OF assms(1) Cons.prems(1)] detector_round_table [OF Cons.prems(1)] Cons.prems
    by (simp add: detector_rounds_def)
qed

lemma detector_rounds_alive:
  assumes "0 < mq" and "swim_ok mp mq s" and "i < length (sw_slots s)" and "\<not> crashed (swim_uuids s ! i)"
    and "state_at s i = Alive"
  shows "state_at (detector_rounds mq crashed nows s) i = Alive"
  using assms(2-)
proof (induction nows arbitrary: s)
  case (Cons now nows)
  have "state_at (detector_round mq crashed now s) i = Alive"
    using detector_round_state(2) [OF Cons.prems(1,2,4)] Cons.prems(2,3) by (simp add: swim_uuids_def)
  then show ?case
    using Cons.IH [of "detector_round mq crashed now s"] detector_round_ok [OF assms(1) Cons.prems(1)]
      detector_round_table [OF Cons.prems(1)] Cons.prems
    by (simp add: detector_rounds_def)
qed (simp add: detector_rounds_def)

lemma rounds_left_bound:
  assumes "swim_ok mp mq s" and "i < length (sw_slots s)" and "0 < suspicion s"
  shows "rounds_left s i \<le> suspicion s * length (sw_slots s)"
proof -
  have "sw_probe_cursor s < length (sw_slots s)"
    using assms(1,2) by (auto simp: swim_ok_def members_ok_def)
  then have "probe_distance s i < length (sw_slots s)"
    by (rule probe_distance_reaches(2) [OF assms(2)])
  moreover have "(suspicion s - misses_at s i - 1) * length (sw_slots s) \<le> (suspicion s - 1) * length (sw_slots s)"
    by (intro mult_right_mono) simp_all
  moreover have "(suspicion s - 1) * length (sw_slots s) + length (sw_slots s) = suspicion s * length (sw_slots s)"
    using assms(3) by (simp add: mult_eq_if)
  ultimately have "(suspicion s - misses_at s i - 1) * length (sw_slots s) + probe_distance s i + 1
      \<le> suspicion s * length (sw_slots s)"
    by linarith
  then show ?thesis by (simp add: rounds_left_def)
qed


section \<open>Properties\<close>

text \<open>Whatever sequence of public operations runs on a minted membership, at most
  \<^verbatim>\<open>MaxPeers\<close> members are held, each with its own identifier and none with the zero one, the probe
  cursor stays in the table, the piggyback queue stays within \<^verbatim>\<open>MaxPiggyback\<close>, only tells of
  members, and the latest event about a member is what its slot holds.  The batch of events is then
  the whole queue, and the witnesses of a suspect are the first living members other than it, as many as
  configured.\<close>

theorem swim_membership_invariant:
  assumes "0 < mq" and "mint_swim_membership mp mq peers config = ok s0" and "s = fold (swim_step mp mq) ops s0"
  shows "swim_ok mp mq s \<and> piggyback_batch mq s = sw_piggyback s \<and>
    indirect_witnesses mp u s = take (unat (indirect_checks (sw_config s)))
      (filter (\<lambda>v. v \<noteq> u) (map slot_uuid (filter (\<lambda>slot. ph_state (sl_health slot) = Alive) (sw_slots s))))"
proof -
  have "swim_ok mp mq s"
    using swim_run_ok [OF assms(1) mint_swim_ok [OF assms(1,2)]] assms(3) by simp
  then show ?thesis
    by (simp add: swim_ok_def piggyback_batch_queue indirect_witnesses_eq)
qed

definition example_config :: swim_config where
  "example_config = \<lparr>period_ns = 1000000000, ack_timeout_ns = 500000000, indirect_timeout_ns = 500000000,
     indirect_checks = 3, suspicion_misses = 2\<rparr>"

definition example_cog :: "u64 \<Rightarrow> unit cog_identity" where
  "example_cog n = \<lparr>cog_uuid = Uuid 0 n, cog_attributes = ()\<rparr>"

definition example_swim :: "unit swim" where
  "example_swim = (case mint_swim_membership 4 2 [example_cog 1, example_cog 2] example_config of
     Inl e \<Rightarrow> empty_swim example_config | Inr s \<Rightarrow> s)"

lemma example_mint: "mint_swim_membership 4 2 [example_cog 1, example_cog 2] example_config = ok example_swim"
  by (simp add: example_swim_def mint_swim_membership_def add_peer_def uuid_is_zero_def example_cog_def find_index_def
      empty_swim_def reserve_next_def slot_full_def)

lemma example_table: "length (sw_slots example_swim) = 2" "sw_config example_swim = example_config"
  "swim_uuids example_swim ! 0 = Uuid 0 1" "swim_uuids example_swim ! Suc 0 = Uuid 0 2"
  "state_at example_swim 0 = Alive" "state_at example_swim (Suc 0) = Alive"
  by (simp_all add: example_swim_def mint_swim_membership_def add_peer_def uuid_is_zero_def example_cog_def
      find_index_def empty_swim_def reserve_next_def slot_full_def add_slot_def swim_uuids_def slot_uuid_def state_at_def)

theorem swim_membership_invariant_witness:
  "swim_ok 4 2 (fold (swim_step 4 2) [Next_probe 7, Ping_timeout (Uuid 0 1), Acknowledge 1, Remove_peer (Uuid 0 2)] example_swim)"
  using swim_membership_invariant [OF zero_less_numeral example_mint refl] by (rule conjunct1)

text \<open>A member that no operation moves from its slot only ever goes up in the order of incarnation
  and then severity: each step leaves its health as it is or strictly above, as long as the incarnation
  has not reached the end of its 64 bits.  Gossip about a member leaves the greatest of what was known
  and what the events tell, so members that hear the same events in any order agree.\<close>

theorem swim_health_order:
  assumes "0 < mq" and "swim_ok mp mq s" and "i < length (sw_slots s)"
  shows "advances s (swim_step mp mq act s) i \<and>
    peer_key (gossip_all mp mq es s) i =
      Max (insert (peer_key s i) (event_key ` {e \<in> fst ` set es. cog_uuid (ev_peer e) = slot_uuid (sw_slots s ! i)}))"
  using swim_step_advances [OF assms(3)] gossip_all_key [OF assms] by blast

theorem swim_health_order_witness:
  "advances example_swim (swim_step 4 2 (Ping_timeout (Uuid 0 1)) example_swim) 0"
  using swim_health_order [OF _ mint_swim_ok [OF _ example_mint], of 0 "Ping_timeout (Uuid 0 1)"]
  by (simp add: example_table)

text \<open>C9.  The detector is complete and accurate in periods that each probe the next peer and hear its answer or a
  timeout, with no gossip and no indirect probe, for a positive number of suspicion misses and a gossip queue with
  room: from every reachable state, after as many probe
  periods as suspicion misses times members, each crashed peer is held dead, and each peer that answers
  and was alive is still held alive.\<close>

theorem swim_detects_crashes:
  assumes "0 < mq" and "mint_swim_membership mp mq peers config = ok s0" and "s = fold (swim_step mp mq) ops s0"
    and "0 < suspicion s" and "suspicion s * length (sw_slots s) \<le> length nows" and "i < length (sw_slots s)"
  shows "(crashed (swim_uuids s ! i) \<longrightarrow> state_at (detector_rounds mq crashed nows s) i = Dead) \<and>
    (\<not> crashed (swim_uuids s ! i) \<longrightarrow> state_at s i = Alive \<longrightarrow>
      state_at (detector_rounds mq crashed nows s) i = Alive)"
proof -
  have inv: "swim_ok mp mq s"
    using swim_run_ok [OF assms(1) mint_swim_ok [OF assms(1,2)]] assms(3) by simp
  show ?thesis
    using detector_rounds_dead [OF assms(1) inv assms(6)] detector_rounds_alive [OF assms(1) inv assms(6)]
      rounds_left_bound [OF inv assms(6,4)] assms(5) by auto
qed

theorem swim_detects_crashes_witness:
  "state_at (detector_rounds 2 (\<lambda>u. u = Uuid 0 2) [10, 20, 30, 40] example_swim) 1 = Dead \<and>
   state_at (detector_rounds 2 (\<lambda>u. u = Uuid 0 2) [10, 20, 30, 40] example_swim) 0 = Alive"
proof -
  have "suspicion example_swim = 2"
    by (simp add: suspicion_def example_table example_config_def)
  then show ?thesis
    using swim_detects_crashes [OF _ example_mint, of example_swim "[]" "[10, 20, 30, 40]" 1 "\<lambda>u. u = Uuid 0 2"]
      swim_detects_crashes [OF _ example_mint, of example_swim "[]" "[10, 20, 30, 40]" 0 "\<lambda>u. u = Uuid 0 2"]
    by (simp add: example_table)
qed

text \<open>The incarnation is 64 bits and wraps: one event that carries the greatest incarnation makes the next
  local step fall below everything heard before.\<close>

lemma incarnation_wraps:
  "peer_key (swim_step 4 2 (Ping_timeout (Uuid 0 1)) (swim_step 4 2
     (Gossip \<lparr>ev_peer = example_cog 1, ev_state = Alive, ev_consecutive_misses = 0, ev_incarnation = 18446744073709551615,
        ev_sequence = 0\<rparr> 5) example_swim)) 0 < peer_key example_swim 0"
  by (simp add: example_swim_def mint_swim_membership_def add_peer_def uuid_is_zero_def example_cog_def example_config_def
      find_index_def empty_swim_def reserve_next_def slot_full_def add_slot_def apply_gossip_def Let_def event_newer_def
      on_ping_timeout_def miss_def peer_key_def health_key_def put_slot_def)

end
