(* ===== verification/Philox_Rng.thy ===== *)
theory Philox_Rng
  imports Crucible_Prelude
begin

text \<open>
  The counter-based random number generator of \<^verbatim>\<open>crucible/Philox.h\<close> and its eight-lane version in
  \<^verbatim>\<open>crucible/PhiloxSimd.h\<close>.  A vector of eight lanes is a list, and every lane-wise operation is a
  pointwise one.  The conversions to floating point are not modelled.
\<close>

section \<open>The scalar generator\<close>

type_synonym ctr4 = "u32 \<times> u32 \<times> u32 \<times> u32"
type_synonym key2 = "u32 \<times> u32"

definition W0 :: u32 where "W0 = 0x9E3779B9"
definition W1 :: u32 where "W1 = 0xBB67AE85"
definition M0 :: u32 where "M0 = 0xD2511F53"
definition M1 :: u32 where "M1 = 0xCD9E8D57"

definition mulhi :: "u32 \<Rightarrow> u32 \<Rightarrow> u32" where
  "mulhi a b = ucast (drop_bit 32 (ucast a * ucast b :: u64))"

fun philox_round :: "ctr4 \<times> key2 \<Rightarrow> ctr4 \<times> key2" where
  "philox_round ((c0, c1, c2, c3), (k0, k1)) =
    (let hi0 = mulhi M0 c0; lo0 = c0 * M0; hi1 = mulhi M1 c2; lo1 = c2 * M1
     in (((hi1 XOR c1) XOR k0, lo1, (hi0 XOR c3) XOR k1, lo0), (k0 + W0, k1 + W1)))"

definition philox_generate :: "ctr4 \<Rightarrow> key2 \<Rightarrow> ctr4" where
  "philox_generate ctr key = fst ((philox_round ^^ 10) (ctr, key))"

definition philox_generate_at :: "u64 \<Rightarrow> u64 \<Rightarrow> ctr4" where
  "philox_generate_at offset key =
    philox_generate (ucast offset, ucast (drop_bit 32 offset), 0, 0) (ucast key, ucast (drop_bit 32 key))"

fun fnv_mix_bytes :: "nat list \<Rightarrow> u64 \<Rightarrow> u64 \<Rightarrow> u64" where
  "fnv_mix_bytes [] h v = h"
| "fnv_mix_bytes (i # is) h v = fnv_mix_bytes is ((h XOR (drop_bit (i * 8) v AND 0xFF)) * 0x100000001b3) v"

definition fnv_mix :: "u64 \<Rightarrow> u64 \<Rightarrow> u64" where
  "fnv_mix h v = fnv_mix_bytes [0..<8] h v"

definition op_key_bytes :: "u64 \<Rightarrow> u32 \<Rightarrow> u64 \<Rightarrow> u64" where
  "op_key_bytes master_counter op_index content_hash =
    fnv_mix (fnv_mix (fnv_mix 0xcbf29ce484222325 master_counter) (ucast op_index)) content_hash"


section \<open>Eight lanes\<close>

type_synonym lanes32 = "u32 list"
type_synonym lanes64 = "u64 list"

definition lanes :: "('a \<Rightarrow> 'b \<Rightarrow> 'c) \<Rightarrow> 'a list \<Rightarrow> 'b list \<Rightarrow> 'c list" where
  "lanes f xs ys = map2 f xs ys"

definition splat :: "'a \<Rightarrow> 'a list" where
  "splat x = replicate 8 x"

definition lane_mulhi :: "lanes32 \<Rightarrow> lanes32 \<Rightarrow> lanes32" where
  "lane_mulhi a b = map (\<lambda>p. ucast (drop_bit 32 p)) (lanes (*) (map ucast a :: lanes64) (map ucast b))"

record batch_state =
  b_ctr0 :: lanes32
  b_ctr1 :: lanes32
  b_ctr2 :: lanes32
  b_ctr3 :: lanes32
  b_key0 :: lanes32
  b_key1 :: lanes32

definition batch_round :: "batch_state \<Rightarrow> batch_state" where
  "batch_round b =
    (let lo0 = lanes (*) (b_ctr0 b) (splat M0);
         lo1 = lanes (*) (b_ctr2 b) (splat M1);
         hi0 = lane_mulhi (b_ctr0 b) (splat M0);
         hi1 = lane_mulhi (b_ctr2 b) (splat M1)
     in \<lparr>b_ctr0 = lanes (XOR) (lanes (XOR) hi1 (b_ctr1 b)) (b_key0 b), b_ctr1 = lo1,
         b_ctr2 = lanes (XOR) (lanes (XOR) hi0 (b_ctr3 b)) (b_key1 b), b_ctr3 = lo0,
         b_key0 = lanes (+) (b_key0 b) (splat W0), b_key1 = lanes (+) (b_key1 b) (splat W1)\<rparr>)"

definition philox_batch8 :: "lanes32 \<Rightarrow> lanes32 \<Rightarrow> lanes32 \<Rightarrow> lanes32 \<Rightarrow> lanes32 \<Rightarrow> lanes32 \<Rightarrow> lanes32 \<times> lanes32 \<times> lanes32 \<times> lanes32" where
  "philox_batch8 ctr0 ctr1 ctr2 ctr3 key0 key1 =
    (let b = (batch_round ^^ 10) \<lparr>b_ctr0 = ctr0, b_ctr1 = ctr1, b_ctr2 = ctr2, b_ctr3 = ctr3, b_key0 = key0, b_key1 = key1\<rparr>
     in (b_ctr0 b, b_ctr1 b, b_ctr2 b, b_ctr3 b))"


section \<open>Rounds are reversible\<close>

text \<open>The multipliers are odd, so the truncating products lose nothing, and the rest of a round is an
  exclusive or with what the products determine.\<close>

lemma multiplier_inverses: "M0 * 0x991A7CDB = 1" "M1 * 0x6D7CAE67 = 1"
  by (simp_all add: M0_def M1_def)

lemma unit_cancel: "x * m = y * m \<longleftrightarrow> x = y" if "m * i = 1" for x y m i :: u32
proof
  assume "x * m = y * m"
  then have "x * (m * i) = y * (m * i)"
    by (simp only: mult.assoc [symmetric])
  then show "x = y"
    by (simp add: that)
qed simp

lemmas multiplier_cancel = multiplier_inverses [THEN unit_cancel]

lemma xor_cancel: "h XOR a = h XOR b \<longleftrightarrow> a = b" "a XOR h = b XOR h \<longleftrightarrow> a = b" for a b :: u32
proof -
  have l: "a = b" if "h XOR a = h XOR b" for a b h :: u32
  proof -
    have "h XOR (h XOR a) = h XOR (h XOR b)"
      by (simp only: that)
    then show ?thesis
      by (simp add: xor.assoc [symmetric])
  qed
  show "h XOR a = h XOR b \<longleftrightarrow> a = b"
    using l by blast
  show "a XOR h = b XOR h \<longleftrightarrow> a = b"
    using l [of h a b] by (auto simp: xor.commute)
qed

lemma philox_round_inject: "philox_round s = philox_round t \<longleftrightarrow> s = t"
proof (cases s, cases t)
  fix c k d l
  assume s: "s = (c, k)" and t: "t = (d, l)"
  show ?thesis
    unfolding s t by (cases c; cases k; cases d; cases l) (auto simp: Let_def multiplier_cancel xor_cancel)
qed

lemma philox_rounds_inject: "(philox_round ^^ n) s = (philox_round ^^ n) t \<longleftrightarrow> s = t"
  by (induction n) (simp_all add: philox_round_inject)

text \<open>The key schedule does not depend on the counter.\<close>

lemma philox_round_key: "snd (philox_round (c, k)) = (fst k + W0, snd k + W1)"
  by (cases c; cases k) (simp add: Let_def)

lemma philox_rounds_key: "snd ((philox_round ^^ n) (c, k)) = snd ((philox_round ^^ n) (d, k))"
proof (induction n)
  case (Suc n)
  then show ?case
    by (cases "(philox_round ^^ n) (c, k)"; cases "(philox_round ^^ n) (d, k)") (simp add: philox_round_key)
qed simp

lemma philox_generate_inject: "philox_generate c k = philox_generate d k \<longleftrightarrow> c = d"
proof
  assume "philox_generate c k = philox_generate d k"
  then have "(philox_round ^^ 10) (c, k) = (philox_round ^^ 10) (d, k)"
    using philox_rounds_key [of 10 c k d] by (simp add: philox_generate_def prod_eq_iff)
  then show "c = d"
    by (simp add: philox_rounds_inject)
qed simp

lemma offset_words_inject: "ucast a = (ucast b :: u32) \<Longrightarrow> ucast (drop_bit 32 a) = (ucast (drop_bit 32 b) :: u32) \<Longrightarrow> a = b"
  for a b :: u64
proof (rule bit_word_eqI)
  fix n
  assume lo: "ucast a = (ucast b :: u32)" and hi: "ucast (drop_bit 32 a) = (ucast (drop_bit 32 b) :: u32)"
    and n: "n < LENGTH(64)"
  have lo_bit: "bit (ucast a :: u32) n = bit (ucast b :: u32) n" and hi_bit: "bit (ucast (drop_bit 32 a) :: u32) (n - 32) = bit (ucast (drop_bit 32 b) :: u32) (n - 32)"
    by (simp_all only: lo hi)
  have "n - 32 < 32"
    using n by simp
  then show "bit a n = bit b n"
    using lo_bit hi_bit n by (cases "n < 32") (simp_all add: bit_unsigned_iff bit_drop_bit_eq)
qed

section \<open>The lanes are eight scalar generators\<close>

definition batch_ok :: "batch_state \<Rightarrow> bool" where
  "batch_ok b \<longleftrightarrow> length (b_ctr0 b) = 8 \<and> length (b_ctr1 b) = 8 \<and> length (b_ctr2 b) = 8 \<and> length (b_ctr3 b) = 8 \<and>
     length (b_key0 b) = 8 \<and> length (b_key1 b) = 8"

definition lane :: "nat \<Rightarrow> batch_state \<Rightarrow> ctr4 \<times> key2" where
  "lane i b = ((b_ctr0 b ! i, b_ctr1 b ! i, b_ctr2 b ! i, b_ctr3 b ! i), (b_key0 b ! i, b_key1 b ! i))"

lemma lanes_simps [simp]:
  "length (lanes f xs ys) = min (length xs) (length ys)"
  "i < length xs \<Longrightarrow> i < length ys \<Longrightarrow> lanes f xs ys ! i = f (xs ! i) (ys ! i)"
  "length (splat x) = 8" "i < 8 \<Longrightarrow> splat x ! i = x"
  "length (lane_mulhi ks ls) = min (length ks) (length ls)"
  "i < length ks \<Longrightarrow> i < length ls \<Longrightarrow> lane_mulhi ks ls ! i = mulhi (ks ! i) (ls ! i)"
  by (simp_all add: lanes_def splat_def lane_mulhi_def mulhi_def)

lemma mulhi_commute: "mulhi a b = mulhi b a"
  by (simp add: mulhi_def mult.commute)

lemma batch_round_ok: "batch_ok b \<Longrightarrow> batch_ok (batch_round b)"
  by (simp add: batch_ok_def batch_round_def Let_def)

lemma batch_round_lane: "batch_ok b \<Longrightarrow> i < 8 \<Longrightarrow> lane i (batch_round b) = philox_round (lane i b)"
  by (simp add: batch_ok_def batch_round_def lane_def Let_def mulhi_commute)

lemma batch_rounds_lane: "batch_ok b \<Longrightarrow> i < 8 \<Longrightarrow> batch_ok ((batch_round ^^ n) b) \<and> lane i ((batch_round ^^ n) b) = (philox_round ^^ n) (lane i b)"
  by (induction n) (simp_all add: batch_round_ok batch_round_lane)

section \<open>Properties\<close>

text \<open>C30.  Under one key, two stream offsets never give the same block of four words: the ten rounds are a
  bijection of the counter, so the stream of an operation does not repeat within its 2^64 offsets.\<close>

theorem philox_streams_distinct: "philox_generate_at a k = philox_generate_at b k \<longleftrightarrow> a = b"
  unfolding philox_generate_at_def philox_generate_inject using offset_words_inject [of a b] by auto

text \<open>Lane \<^verbatim>\<open>i\<close> of the eight-lane generator is the scalar generator on lane \<^verbatim>\<open>i\<close> of the counters and keys.\<close>

theorem philox_batch8_lanes:
  assumes "length c0 = 8" "length c1 = 8" "length c2 = 8" "length c3 = 8" "length k0 = 8" "length k1 = 8" "i < 8"
  shows "(case philox_batch8 c0 c1 c2 c3 k0 k1 of (r0, r1, r2, r3) \<Rightarrow> (r0 ! i, r1 ! i, r2 ! i, r3 ! i)) =
    philox_generate (c0 ! i, c1 ! i, c2 ! i, c3 ! i) (k0 ! i, k1 ! i)"
proof -
  define b where "b = \<lparr>b_ctr0 = c0, b_ctr1 = c1, b_ctr2 = c2, b_ctr3 = c3, b_key0 = k0, b_key1 = k1\<rparr>"
  have "batch_ok b"
    using assms by (simp add: b_def batch_ok_def)
  then have "lane i ((batch_round ^^ 10) b) = (philox_round ^^ 10) (lane i b)"
    using batch_rounds_lane assms(7) by blast
  then have "fst (lane i ((batch_round ^^ 10) b)) = philox_generate (c0 ! i, c1 ! i, c2 ! i, c3 ! i) (k0 ! i, k1 ! i)"
    by (simp add: lane_def b_def philox_generate_def)
  then show ?thesis
    by (simp add: philox_batch8_def Let_def b_def lane_def)
qed

theorem philox_batch8_lanes_witness:
  "(case philox_batch8 (splat 1) (splat 2) (splat 3) (splat 4) (splat 5) (splat 6) of
      (r0, r1, r2, r3) \<Rightarrow> (r0 ! 7, r1 ! 7, r2 ! 7, r3 ! 7)) = philox_generate (1, 2, 3, 4) (5, 6)"
  using philox_batch8_lanes [of "splat 1" "splat 2" "splat 3" "splat 4" "splat 5" "splat 6" 7] by simp

theorem philox_known_answer:
  "philox_generate (0, 0, 0, 0) (0, 0) = (0x6627e8d5, 0xe169c58d, 0xbc57ac4c, 0x9b00dbd8)"
  unfolding philox_generate_def by code_simp

end
