(* ===== verification/Sym_Expr.thy ===== *)
theory Sym_Expr
  imports Tensor_Meta "HOL-Library.Signed_Division"
begin

text \<open>
  The symbolic expressions of \<^verbatim>\<open>crucible/Expr.h\<close> and \<^verbatim>\<open>crucible/Ops.h\<close>, their assumption flags, and the value
  of an expression.  The pool interns every node, so equal structure is one object and the address
  comparisons of the code are equality of trees; the order of the addresses is a parameter.  A payload
  is a 64-bit integer, or the bits of a double.  Of the floating-point unit the pool uses three
  operations and two comparisons, which are parameters as well.
\<close>

section \<open>Operations and nodes\<close>

datatype expr_op =
    Op_INTEGER | Op_FLOAT | Op_SYMBOL | Op_BOOL_TRUE | Op_BOOL_FALSE
  | Op_ADD | Op_MUL | Op_POW
  | Op_EQ | Op_NE | Op_LT | Op_LE | Op_GT | Op_GE
  | Op_AND | Op_OR | Op_NOT
  | Op_FLOOR_DIV | Op_CLEAN_DIV | Op_CEIL_DIV | Op_INT_TRUE_DIV | Op_FLOAT_TRUE_DIV | Op_MOD | Op_PYTHON_MOD
  | Op_MODULAR_INDEXING
  | Op_CEIL_TO_INT | Op_FLOOR_TO_INT | Op_TRUNC_TO_FLOAT | Op_TRUNC_TO_INT | Op_ROUND_TO_INT | Op_ROUND_DECIMAL | Op_TO_FLOAT
  | Op_LSHIFT | Op_RSHIFT
  | Op_POW_BY_NATURAL | Op_FLOAT_POW
  | Op_WHERE | Op_IDENTITY | Op_MIN | Op_MAX
  | Op_IS_NON_OVERLAPPING_AND_DENSE
  | Op_SQRT | Op_COS | Op_COSH | Op_SIN | Op_SINH | Op_TAN | Op_TANH | Op_ASIN | Op_ACOS | Op_ATAN | Op_EXP | Op_LOG
  | Op_ASINH | Op_LOG2
  | Op_ABS | Op_BITWISE_AND | Op_BITWISE_OR | Op_BITWISE_XOR | Op_NEG

datatype expr = Node (e_op: expr_op) (e_flags: u16) (e_symbol: u32) (e_payload: int) (e_args: "expr list")

definition kMaxArgs :: nat where
  "kMaxArgs = 255"

definition IS_INTEGER :: u16 where "IS_INTEGER = 1"
definition IS_REAL :: u16 where "IS_REAL = 2"
definition IS_FINITE :: u16 where "IS_FINITE = 4"
definition IS_POSITIVE :: u16 where "IS_POSITIVE = 8"
definition IS_NEGATIVE :: u16 where "IS_NEGATIVE = 16"
definition IS_NONNEGATIVE :: u16 where "IS_NONNEGATIVE = 32"
definition IS_NONPOSITIVE :: u16 where "IS_NONPOSITIVE = 64"
definition IS_ZERO :: u16 where "IS_ZERO = 128"
definition IS_EVEN :: u16 where "IS_EVEN = 256"
definition IS_ODD :: u16 where "IS_ODD = 512"
definition IS_NUMBER :: u16 where "IS_NUMBER = 1024"
definition IS_SYMBOL :: u16 where "IS_SYMBOL = 2048"
definition IS_BOOLEAN :: u16 where "IS_BOOLEAN = 4096"

lemmas flag_defs = IS_INTEGER_def IS_REAL_def IS_FINITE_def IS_POSITIVE_def IS_NEGATIVE_def IS_NONNEGATIVE_def
  IS_NONPOSITIVE_def IS_ZERO_def IS_EVEN_def IS_ODD_def IS_NUMBER_def IS_SYMBOL_def IS_BOOLEAN_def

definition has_flag :: "u16 \<Rightarrow> expr \<Rightarrow> bool" where
  "has_flag f e \<longleftrightarrow> e_flags e AND f \<noteq> 0"

definition is_int :: "expr \<Rightarrow> bool" where
  "is_int e \<longleftrightarrow> e_op e = Op_INTEGER"

definition is_zero_int :: "expr \<Rightarrow> bool" where
  "is_zero_int e \<longleftrightarrow> is_int e \<and> e_payload e = 0"

definition is_one :: "expr \<Rightarrow> bool" where
  "is_one e \<longleftrightarrow> is_int e \<and> e_payload e = 1"

definition is_neg_one :: "expr \<Rightarrow> bool" where
  "is_neg_one e \<longleftrightarrow> is_int e \<and> e_payload e = - 1"

definition expr_arg :: "nat \<Rightarrow> expr \<Rightarrow> expr checked" where
  "expr_arg i e =
    (if \<not> 0 < length (e_args e) then fail Contract_violation
     else if \<not> i \<le> length (e_args e) - 1 then fail Contract_violation
     else ok (e_args e ! i))"


section \<open>Flags\<close>

definition numeric_mask :: u16 where
  "numeric_mask = IS_INTEGER OR IS_REAL OR IS_FINITE OR IS_NUMBER"

definition integer_flags :: "int \<Rightarrow> u16" where
  "integer_flags val =
    (let f0 = IS_INTEGER OR IS_REAL OR IS_FINITE OR IS_NUMBER;
         f1 = (if val > 0 then f0 OR (IS_POSITIVE OR IS_NONNEGATIVE)
               else if val < 0 then f0 OR (IS_NEGATIVE OR IS_NONPOSITIVE)
               else f0 OR (IS_ZERO OR IS_NONNEGATIVE OR IS_NONPOSITIVE))
     in f1 OR (if val smod 2 = 0 then IS_EVEN else IS_ODD))"

definition boolean_ops :: "expr_op list" where
  "boolean_ops = [Op_EQ, Op_NE, Op_LT, Op_LE, Op_GT, Op_GE, Op_AND, Op_OR, Op_NOT]"

definition integer_ops :: "expr_op list" where
  "integer_ops = [Op_FLOOR_DIV, Op_CLEAN_DIV, Op_CEIL_DIV, Op_MOD, Op_PYTHON_MOD, Op_MODULAR_INDEXING, Op_LSHIFT, Op_RSHIFT,
     Op_CEIL_TO_INT, Op_FLOOR_TO_INT, Op_TRUNC_TO_INT, Op_ROUND_TO_INT, Op_BITWISE_AND, Op_BITWISE_OR, Op_POW_BY_NATURAL,
     Op_IS_NON_OVERLAPPING_AND_DENSE, Op_BITWISE_XOR]"

definition real_ops :: "expr_op list" where
  "real_ops = [Op_FLOAT_TRUE_DIV, Op_INT_TRUE_DIV, Op_TO_FLOAT, Op_TRUNC_TO_FLOAT, Op_FLOAT_POW, Op_ROUND_DECIMAL, Op_SQRT,
     Op_COS, Op_SIN, Op_TAN, Op_COSH, Op_SINH, Op_TANH, Op_ASIN, Op_ACOS, Op_ATAN, Op_EXP, Op_LOG, Op_ASINH, Op_LOG2]"

text \<open>The atoms have no argument list and are built by their own constructors, so no caller passes them
  here; the code marks the branch unreachable.\<close>

definition composite_flags :: "expr_op \<Rightarrow> expr list \<Rightarrow> u16" where
  "composite_flags opr args =
    (if opr \<in> {Op_ADD, Op_MUL, Op_MIN, Op_MAX} then foldl (AND) 0xFFFF (map e_flags args) AND numeric_mask
     else if opr = Op_POW then (e_flags (args ! 0) AND e_flags (args ! 1)) AND (IS_REAL OR IS_FINITE)
     else if opr \<in> set boolean_ops then IS_BOOLEAN
     else if opr \<in> set integer_ops then numeric_mask
     else if opr \<in> set real_ops then IS_REAL OR IS_FINITE OR IS_NUMBER
     else if opr = Op_WHERE then
       (if length args \<ge> 3 then (e_flags (args ! 1) AND e_flags (args ! 2)) AND numeric_mask else 0)
     else if opr = Op_IDENTITY then (if length args \<ge> 1 then e_flags (args ! 0) else 0)
     else if opr = Op_NEG then (if length args \<ge> 1 then e_flags (args ! 0) AND numeric_mask else 0)
     else if opr = Op_ABS then
       (if length args \<ge> 1 then (e_flags (args ! 0) AND numeric_mask) OR IS_NONNEGATIVE else 0)
     else 0)"

text \<open>The inclusive band of argument counts; the atoms have the empty one.\<close>

definition op_arity_band :: "expr_op \<Rightarrow> nat \<times> nat" where
  "op_arity_band opr =
    (if opr \<in> {Op_ADD, Op_MUL, Op_AND, Op_OR, Op_MIN, Op_MAX, Op_IS_NON_OVERLAPPING_AND_DENSE} then (1, kMaxArgs)
     else if opr \<in> {Op_NOT, Op_NEG, Op_IDENTITY, Op_ABS, Op_CEIL_TO_INT, Op_FLOOR_TO_INT, Op_TRUNC_TO_FLOAT, Op_TRUNC_TO_INT,
       Op_ROUND_TO_INT, Op_TO_FLOAT, Op_SQRT, Op_COS, Op_COSH, Op_SIN, Op_SINH, Op_TAN, Op_TANH, Op_ASIN, Op_ACOS, Op_ATAN,
       Op_EXP, Op_LOG, Op_ASINH, Op_LOG2} then (1, 1)
     else if opr \<in> {Op_MODULAR_INDEXING, Op_WHERE} then (3, 3)
     else if opr \<in> {Op_INTEGER, Op_FLOAT, Op_SYMBOL, Op_BOOL_TRUE, Op_BOOL_FALSE} then (1, 0)
     else (2, 2))"


section \<open>The environment of the pool and the atoms\<close>

record pool_env =
  addr :: "expr \<Rightarrow> nat"
  f_add :: "int \<Rightarrow> int \<Rightarrow> int"
  f_mul :: "int \<Rightarrow> int \<Rightarrow> int"
  f_neg :: "int \<Rightarrow> int"
  f_pos :: "int \<Rightarrow> bool"
  f_lt0 :: "int \<Rightarrow> bool"

definition mk_integer :: "int \<Rightarrow> expr" where
  "mk_integer val = Node Op_INTEGER (integer_flags val) id_none val []"

definition mk_float :: "pool_env \<Rightarrow> int \<Rightarrow> expr" where
  "mk_float E bits =
    (let f0 = IS_REAL OR IS_FINITE OR IS_NUMBER;
         f1 = (if f_pos E bits then f0 OR (IS_POSITIVE OR IS_NONNEGATIVE)
               else if f_lt0 E bits then f0 OR (IS_NEGATIVE OR IS_NONPOSITIVE)
               else if push_bit 1 (word_of_int bits :: u64) = 0 then f0 OR (IS_ZERO OR IS_NONNEGATIVE OR IS_NONPOSITIVE)
               else f0)
     in Node Op_FLOAT f1 id_none bits [])"

definition mk_symbol :: "int \<Rightarrow> u32 \<Rightarrow> u16 \<Rightarrow> expr" where
  "mk_symbol name_ptr sid assumption_flags = Node Op_SYMBOL (assumption_flags OR IS_SYMBOL) sid name_ptr []"

definition mk_true :: expr where
  "mk_true = Node Op_BOOL_TRUE IS_BOOLEAN id_none 0 []"

definition mk_false :: expr where
  "mk_false = Node Op_BOOL_FALSE IS_BOOLEAN id_none 0 []"

definition mk_node :: "expr_op \<Rightarrow> u16 \<Rightarrow> expr list \<Rightarrow> expr" where
  "mk_node opr fl args = Node opr fl id_none 0 args"


section \<open>Saturating signed arithmetic\<close>

definition sat_i64 :: "int \<Rightarrow> int" where
  "sat_i64 x = (if x < i64_min then i64_min else if x > i64_max then i64_max else x)"

definition sadd :: "int \<Rightarrow> int \<Rightarrow> int" where
  "sadd a b = sat_i64 (a + b)"

definition ssub :: "int \<Rightarrow> int \<Rightarrow> int" where
  "ssub a b = sat_i64 (a - b)"

definition smul :: "int \<Rightarrow> int \<Rightarrow> int" where
  "smul a b = sat_i64 (a * b)"

lemma sat_i64_id [simp]: "\<bar>x\<bar> \<le> i64_max \<Longrightarrow> sat_i64 x = x"
  by (auto simp: sat_i64_def i64_min_def i64_max_def)

lemma fits_sat_i64 [simp]: "fits_i64 (sat_i64 x)"
  by (simp add: sat_i64_def fits_i64_def i64_min_def i64_max_def)

lemma abs_sat_i64: "\<bar>sat_i64 x\<bar> \<le> \<bar>x\<bar>"
  by (auto simp: sat_i64_def i64_min_def i64_max_def)

lemma fits_sadd [simp]: "fits_i64 (sadd a b)"
  by (simp add: sadd_def)

lemma fits_smul [simp]: "fits_i64 (smul a b)"
  by (simp add: smul_def)


section \<open>Values\<close>

text \<open>What symbols stand for, and what the operations mean that the pool does not look into.\<close>

record interp =
  sym_value :: "u32 \<Rightarrow> int"
  op_value :: "expr_op \<Rightarrow> int \<Rightarrow> int list \<Rightarrow> int"

definition truth :: "bool \<Rightarrow> int" where
  "truth b = (if b then 1 else 0)"

definition op_meaning :: "interp \<Rightarrow> expr_op \<Rightarrow> u32 \<Rightarrow> int \<Rightarrow> int list \<Rightarrow> int" where
  "op_meaning I opr sid p vs =
    (case opr of
       Op_INTEGER \<Rightarrow> p
     | Op_SYMBOL \<Rightarrow> sym_value I sid
     | Op_BOOL_TRUE \<Rightarrow> 1
     | Op_BOOL_FALSE \<Rightarrow> 0
     | Op_ADD \<Rightarrow> sum_list vs
     | Op_MUL \<Rightarrow> prod_list vs
     | Op_POW \<Rightarrow> (if vs ! 1 \<ge> 0 then (vs ! 0) ^ nat (vs ! 1) else op_value I opr p vs)
     | Op_EQ \<Rightarrow> truth (vs ! 0 = vs ! 1)
     | Op_NE \<Rightarrow> truth (vs ! 0 \<noteq> vs ! 1)
     | Op_LT \<Rightarrow> truth (vs ! 0 < vs ! 1)
     | Op_LE \<Rightarrow> truth (vs ! 0 \<le> vs ! 1)
     | Op_GT \<Rightarrow> truth (vs ! 0 > vs ! 1)
     | Op_GE \<Rightarrow> truth (vs ! 0 \<ge> vs ! 1)
     | Op_AND \<Rightarrow> truth (\<forall>v \<in> set vs. v \<noteq> 0)
     | Op_OR \<Rightarrow> truth (\<exists>v \<in> set vs. v \<noteq> 0)
     | Op_NOT \<Rightarrow> truth (vs ! 0 = 0)
     | Op_FLOOR_DIV \<Rightarrow> vs ! 0 div vs ! 1
     | Op_CLEAN_DIV \<Rightarrow> vs ! 0 div vs ! 1
     | Op_CEIL_DIV \<Rightarrow> - ((- (vs ! 0)) div vs ! 1)
     | Op_MOD \<Rightarrow> vs ! 0 mod \<bar>vs ! 1\<bar>
     | Op_PYTHON_MOD \<Rightarrow> vs ! 0 mod vs ! 1
     | Op_MODULAR_INDEXING \<Rightarrow> (vs ! 0 div vs ! 1) mod vs ! 2
     | Op_WHERE \<Rightarrow> (if vs ! 0 \<noteq> 0 then vs ! 1 else vs ! 2)
     | Op_MIN \<Rightarrow> Min (set vs)
     | Op_MAX \<Rightarrow> Max (set vs)
     | Op_IDENTITY \<Rightarrow> vs ! 0
     | Op_ABS \<Rightarrow> \<bar>vs ! 0\<bar>
     | Op_NEG \<Rightarrow> - (vs ! 0)
     | _ \<Rightarrow> op_value I opr p vs)"

fun expr_value :: "interp \<Rightarrow> expr \<Rightarrow> int" where
  "expr_value I (Node opr fl sid p args) = op_meaning I opr sid p (map (expr_value I) args)"

lemma value_integer [simp]: "expr_value I (mk_integer n) = n"
  by (simp add: mk_integer_def op_meaning_def)

lemma value_bool [simp]: "expr_value I mk_true = 1" "expr_value I mk_false = 0"
  by (simp_all add: mk_true_def mk_false_def op_meaning_def)

lemma value_int: "is_int e \<Longrightarrow> expr_value I e = e_payload e"
  by (cases e) (simp add: is_int_def op_meaning_def)

lemma is_int_mk [simp]: "is_int (mk_integer n)" "e_payload (mk_integer n) = n" "e_args (mk_integer n) = []"
  "e_op (mk_integer n) = Op_INTEGER"
  by (simp_all add: mk_integer_def is_int_def)

lemma value_sum: "e_op e = Op_ADD \<Longrightarrow> expr_value I e = (\<Sum>x\<leftarrow>e_args e. expr_value I x)"
  by (cases e) (simp add: op_meaning_def)

lemma value_prod: "e_op e = Op_MUL \<Longrightarrow> expr_value I e = prod_list (map (expr_value I) (e_args e))"
  by (cases e) (simp add: op_meaning_def)

lemma value_node: "expr_value I (mk_node opr fl args) = op_meaning I opr id_none 0 (map (expr_value I) args)"
  by (simp add: mk_node_def)

end
