(* ===== verification/Expr_Pool.thy ===== *)
theory Expr_Pool
  imports Sym_Expr
begin

text \<open>
  The canonicalizing constructors of \<^verbatim>\<open>crucible/ExprPool.h\<close> for sums, products, powers, comparisons, logic,
  conditionals and extrema, as functions on trees.  A stack buffer is the list of its filled entries;
  a sort by address is a sort by \<^const>\<open>addr\<close>; a failed always-on invariant is \<^const>\<open>Fatal_invariant\<close>.  The integer
  cache returns the interned node, so it needs no definition of its own.  The theorems say that no
  constructor trips an invariant on well-formed operands and that the canonical form has the value of
  the operation, provided the constants involved stay inside 64 bits.
\<close>

section \<open>Flattening\<close>

text \<open>The loop over the children of one operand: integers fold into the constant.\<close>

fun collect_args :: "(int \<Rightarrow> int \<Rightarrow> int) \<Rightarrow> expr list \<Rightarrow> expr list \<times> int \<Rightarrow> (expr list \<times> int) checked" where
  "collect_args f [] (ts, c) = ok (ts, c)"
| "collect_args f (a # as) (ts, c) =
    (if e_op a = Op_INTEGER then collect_args f as (ts, f c (e_payload a))
     else if \<not> length ts < kMaxArgs then fail Fatal_invariant
     else collect_args f as (ts @ [a], c))"

text \<open>The loop over the operands.  \<^verbatim>\<open>reserved\<close> is the number of operands still to come.\<close>

fun collect_terms :: "expr_op \<Rightarrow> (int \<Rightarrow> int \<Rightarrow> int) \<Rightarrow> expr list \<Rightarrow> expr list \<times> int \<Rightarrow> (expr list \<times> int) checked" where
  "collect_terms opr f [] acc = ok acc"
| "collect_terms opr f (x # xs) (ts, c) =
    (if e_op x = opr \<and> length ts + length (e_args x) + length xs \<le> kMaxArgs
     then and_then (collect_args f (e_args x) (ts, c)) (collect_terms opr f xs)
     else if e_op x = Op_INTEGER then collect_terms opr f xs (ts, f c (e_payload x))
     else if \<not> length ts + length xs < kMaxArgs then fail Fatal_invariant
     else collect_terms opr f xs (ts @ [x], c))"

definition addr_pair :: "pool_env \<Rightarrow> expr \<Rightarrow> expr \<Rightarrow> expr list" where
  "addr_pair E lhs rhs = (if addr E lhs > addr E rhs then [rhs, lhs] else [lhs, rhs])"

definition nest_folded_constant :: "pool_env \<Rightarrow> expr_op \<Rightarrow> expr list \<Rightarrow> int \<Rightarrow> expr" where
  "nest_folded_constant E opr terms folded_constant =
    (let inner = mk_node opr (composite_flags opr terms) terms;
         outer_args = addr_pair E inner (mk_integer folded_constant)
     in mk_node opr (composite_flags opr outer_args) outer_args)"

text \<open>The end that the two n-ary constructors share: one term is itself, more are sorted and interned.\<close>

definition intern_sorted :: "pool_env \<Rightarrow> expr_op \<Rightarrow> expr list \<Rightarrow> expr checked" where
  "intern_sorted E opr ts =
    (if length ts = 1 then ok (ts ! 0)
     else let ss = sort_key (addr E) ts
          in if \<not> length ss \<le> kMaxArgs then fail Fatal_invariant
             else ok (mk_node opr (composite_flags opr ss) ss))"

definition reattach :: "pool_env \<Rightarrow> expr_op \<Rightarrow> expr list \<Rightarrow> int \<Rightarrow> expr checked" where
  "reattach E opr ts c =
    (if length ts = kMaxArgs then ok (nest_folded_constant E opr (sort_key (addr E) ts) c)
     else if \<not> length ts < kMaxArgs + 1 then fail Fatal_invariant
     else intern_sorted E opr (ts @ [mk_integer c]))"


section \<open>Products and sums\<close>

definition mul_n :: "pool_env \<Rightarrow> expr list \<Rightarrow> expr checked" where
  "mul_n E inputs =
    (if \<not> length inputs \<le> kMaxArgs then fail Fatal_invariant
     else and_then (collect_terms Op_MUL smul inputs ([], 1)) (\<lambda>(ts, int_prod).
       if int_prod = 0 then ok (mk_integer 0)
       else if int_prod \<noteq> 1 \<or> length ts = 0 then reattach E Op_MUL ts int_prod
       else intern_sorted E Op_MUL ts))"

definition expr_mul :: "pool_env \<Rightarrow> expr \<Rightarrow> expr \<Rightarrow> expr checked" where
  "expr_mul E lhs rhs =
    (if e_op lhs \<notin> {Op_MUL, Op_INTEGER, Op_FLOAT} \<and> e_op rhs \<notin> {Op_MUL, Op_INTEGER, Op_FLOAT}
     then let args = addr_pair E lhs rhs in ok (mk_node Op_MUL (composite_flags Op_MUL args) args)
     else if is_int lhs \<and> is_int rhs then ok (mk_integer (smul (e_payload lhs) (e_payload rhs)))
     else if e_op lhs = Op_FLOAT \<and> e_op rhs = Op_FLOAT then ok (mk_float E (f_mul E (e_payload lhs) (e_payload rhs)))
     else if is_zero_int lhs \<or> is_zero_int rhs then ok (mk_integer 0)
     else if is_one lhs then ok rhs
     else if is_one rhs then ok lhs
     else mul_n E [lhs, rhs])"

text \<open>A term is a coefficient and a base without one.  The last integer factor is the coefficient.\<close>

definition coefficient_base :: "expr list \<Rightarrow> expr" where
  "coefficient_base fs = (if length fs = 1 then fs ! 0 else mk_node Op_MUL (composite_flags Op_MUL fs) fs)"

definition push_term :: "(int \<times> expr) list \<Rightarrow> int \<times> expr \<Rightarrow> (int \<times> expr) list checked" where
  "push_term ds d = (if \<not> length ds < kMaxArgs then fail Fatal_invariant else ok (ds @ [d]))"

fun decompose_terms :: "expr list \<Rightarrow> int \<Rightarrow> (int \<times> expr) list \<Rightarrow> (int \<times> (int \<times> expr) list) checked" where
  "decompose_terms [] s ds = ok (s, ds)"
| "decompose_terms (t # ts) s ds =
    (if e_op t = Op_MUL
     then and_then (collect_args (\<lambda>_ p. p) (e_args t) ([], 1)) (\<lambda>(fs, c).
       if length fs = 0 then decompose_terms ts (sadd s c) ds
       else and_then (push_term ds (c, coefficient_base fs)) (decompose_terms ts s))
     else and_then (push_term ds (1, t)) (decompose_terms ts s))"

text \<open>One pass over the terms sorted by base merges the runs of equal bases.\<close>

function merge_terms :: "pool_env \<Rightarrow> (int \<times> expr) list \<Rightarrow> expr list \<Rightarrow> expr list checked" where
  "merge_terms E [] cs = ok cs"
| "merge_terms E ((c, b) # ds) cs =
    (let total = foldl sadd c (map fst (takeWhile (\<lambda>d. snd d = b) ds));
         rest = dropWhile (\<lambda>d. snd d = b) ds
     in if total = 0 then merge_terms E rest cs
        else if \<not> length cs < kMaxArgs + 1 then fail Fatal_invariant
        else if total = 1 then merge_terms E rest (cs @ [b])
        else and_then (mul_n E [mk_integer total, b]) (\<lambda>m. merge_terms E rest (cs @ [m])))"
  by pat_completeness auto
termination
  by (relation "measure (\<lambda>(E, ds, cs). length ds)") (simp_all add: less_Suc_eq_le length_dropWhile_le)

definition add_n :: "pool_env \<Rightarrow> expr list \<Rightarrow> expr checked" where
  "add_n E inputs =
    (if \<not> length inputs \<le> kMaxArgs then fail Fatal_invariant
     else and_then (collect_terms Op_ADD sadd inputs ([], 0)) (\<lambda>(ts, s).
       if length ts = 0 then ok (mk_integer s)
       else and_then (decompose_terms ts s []) (\<lambda>(int_sum, ds).
         and_then (merge_terms E (sort_key (addr E \<circ> snd) ds) []) (\<lambda>cs.
           if int_sum \<noteq> 0 \<or> length cs = 0 then reattach E Op_ADD cs int_sum
           else intern_sorted E Op_ADD cs))))"

definition expr_add :: "pool_env \<Rightarrow> expr \<Rightarrow> expr \<Rightarrow> expr checked" where
  "expr_add E lhs rhs =
    (if e_op lhs \<notin> {Op_ADD, Op_MUL, Op_INTEGER, Op_FLOAT} \<and> e_op rhs \<notin> {Op_ADD, Op_MUL, Op_INTEGER, Op_FLOAT}
     then if lhs = rhs then expr_mul E (mk_integer 2) lhs
          else let args = addr_pair E lhs rhs in ok (mk_node Op_ADD (composite_flags Op_ADD args) args)
     else if is_int lhs \<and> is_int rhs then ok (mk_integer (sadd (e_payload lhs) (e_payload rhs)))
     else if e_op lhs = Op_FLOAT \<and> e_op rhs = Op_FLOAT then ok (mk_float E (f_add E (e_payload lhs) (e_payload rhs)))
     else if is_zero_int lhs then ok rhs
     else if is_zero_int rhs then ok lhs
     else add_n E [lhs, rhs])"

definition expr_pow :: "expr \<Rightarrow> expr \<Rightarrow> expr" where
  "expr_pow base ex =
    (if is_zero_int ex then mk_integer 1
     else if is_one ex then base
     else if is_int base \<and> is_int ex \<and> e_payload ex \<ge> 0 \<and> e_payload ex \<le> 62
     then mk_integer (((\<lambda>acc. smul acc (e_payload base)) ^^ nat (e_payload ex)) 1)
     else mk_node Op_POW (composite_flags Op_POW [base, ex]) [base, ex])"

definition expr_neg :: "pool_env \<Rightarrow> expr \<Rightarrow> expr checked" where
  "expr_neg E e =
    (if is_int e then ok (mk_integer (ssub 0 (e_payload e)))
     else if e_op e = Op_FLOAT then ok (mk_float E (f_neg E (e_payload e)))
     else expr_mul E (mk_integer (- 1)) e)"


section \<open>Comparisons\<close>

definition expr_eq :: "pool_env \<Rightarrow> expr \<Rightarrow> expr \<Rightarrow> expr" where
  "expr_eq E lhs rhs =
    (if lhs = rhs then mk_true
     else if is_int lhs \<and> is_int rhs then (if e_payload lhs = e_payload rhs then mk_true else mk_false)
     else mk_node Op_EQ IS_BOOLEAN (addr_pair E lhs rhs))"

definition expr_ne :: "pool_env \<Rightarrow> expr \<Rightarrow> expr \<Rightarrow> expr" where
  "expr_ne E lhs rhs =
    (if lhs = rhs then mk_false
     else if is_int lhs \<and> is_int rhs then (if e_payload lhs \<noteq> e_payload rhs then mk_true else mk_false)
     else mk_node Op_NE IS_BOOLEAN (addr_pair E lhs rhs))"

definition expr_lt :: "expr \<Rightarrow> expr \<Rightarrow> expr" where
  "expr_lt lhs rhs =
    (if lhs = rhs then mk_false
     else if is_int lhs \<and> is_int rhs then (if e_payload lhs < e_payload rhs then mk_true else mk_false)
     else mk_node Op_LT IS_BOOLEAN [lhs, rhs])"

definition expr_le :: "expr \<Rightarrow> expr \<Rightarrow> expr" where
  "expr_le lhs rhs =
    (if lhs = rhs then mk_true
     else if is_int lhs \<and> is_int rhs then (if e_payload lhs \<le> e_payload rhs then mk_true else mk_false)
     else mk_node Op_LE IS_BOOLEAN [lhs, rhs])"

definition expr_gt :: "expr \<Rightarrow> expr \<Rightarrow> expr" where
  "expr_gt lhs rhs =
    (if lhs = rhs then mk_false
     else if is_int lhs \<and> is_int rhs then (if e_payload lhs > e_payload rhs then mk_true else mk_false)
     else mk_node Op_GT IS_BOOLEAN [lhs, rhs])"

definition expr_ge :: "expr \<Rightarrow> expr \<Rightarrow> expr" where
  "expr_ge lhs rhs =
    (if lhs = rhs then mk_true
     else if is_int lhs \<and> is_int rhs then (if e_payload lhs \<ge> e_payload rhs then mk_true else mk_false)
     else mk_node Op_GE IS_BOOLEAN [lhs, rhs])"


section \<open>Logic\<close>

text \<open>The loops of the two connectives, which differ in the absorbing constant \<^verbatim>\<open>ab\<close> and the neutral one
  \<^verbatim>\<open>ne\<close>.  \<^const>\<open>None\<close> is the early return of the absorbing constant.\<close>

fun logic_args :: "expr \<Rightarrow> expr \<Rightarrow> expr list \<Rightarrow> expr list \<Rightarrow> expr list option checked" where
  "logic_args ab ne [] ts = ok (Some ts)"
| "logic_args ab ne (a # as) ts =
    (if a = ab then ok None
     else if a = ne then logic_args ab ne as ts
     else if \<not> length ts < kMaxArgs then fail Fatal_invariant
     else logic_args ab ne as (ts @ [a]))"

fun logic_terms :: "expr_op \<Rightarrow> expr \<Rightarrow> expr \<Rightarrow> expr list \<Rightarrow> expr list \<Rightarrow> expr list option checked" where
  "logic_terms opr ab ne [] ts = ok (Some ts)"
| "logic_terms opr ab ne (x # xs) ts =
    (if x = ab then ok None
     else if x = ne then logic_terms opr ab ne xs ts
     else if e_op x = opr \<and> length ts + length (e_args x) + length xs \<le> kMaxArgs
     then and_then (logic_args ab ne (e_args x) ts)
            (\<lambda>r. case r of None \<Rightarrow> ok None | Some ts' \<Rightarrow> logic_terms opr ab ne xs ts')
     else if \<not> length ts + length xs < kMaxArgs then fail Fatal_invariant
     else logic_terms opr ab ne xs (ts @ [x]))"

definition logic_n :: "pool_env \<Rightarrow> expr_op \<Rightarrow> expr \<Rightarrow> expr \<Rightarrow> expr list \<Rightarrow> expr checked" where
  "logic_n E opr ab ne inputs =
    (if \<not> length inputs \<le> kMaxArgs then fail Fatal_invariant
     else and_then (logic_terms opr ab ne inputs []) (\<lambda>r.
       case r of None \<Rightarrow> ok ab
       | Some ts \<Rightarrow>
           if length ts = 0 then ok ne
           else if length ts = 1 then ok (ts ! 0)
           else if \<not> length ts \<le> kMaxArgs then fail Fatal_invariant
           else ok (mk_node opr IS_BOOLEAN (sort_key (addr E) ts))))"

definition and_n :: "pool_env \<Rightarrow> expr list \<Rightarrow> expr checked" where
  "and_n E inputs = logic_n E Op_AND mk_false mk_true inputs"

definition or_n :: "pool_env \<Rightarrow> expr list \<Rightarrow> expr checked" where
  "or_n E inputs = logic_n E Op_OR mk_true mk_false inputs"

definition expr_and :: "pool_env \<Rightarrow> expr \<Rightarrow> expr \<Rightarrow> expr checked" where
  "expr_and E lhs rhs =
    (if lhs = mk_false \<or> rhs = mk_false then ok mk_false
     else if lhs = mk_true then ok rhs
     else if rhs = mk_true then ok lhs
     else if lhs = rhs then ok lhs
     else and_n E [lhs, rhs])"

definition expr_or :: "pool_env \<Rightarrow> expr \<Rightarrow> expr \<Rightarrow> expr checked" where
  "expr_or E lhs rhs =
    (if lhs = mk_true \<or> rhs = mk_true then ok mk_true
     else if lhs = mk_false then ok rhs
     else if rhs = mk_false then ok lhs
     else if lhs = rhs then ok lhs
     else or_n E [lhs, rhs])"

definition expr_not :: "expr \<Rightarrow> expr" where
  "expr_not e =
    (if e = mk_true then mk_false
     else if e = mk_false then mk_true
     else if e_op e = Op_NOT then e_args e ! 0
     else mk_node Op_NOT IS_BOOLEAN [e])"

definition expr_where :: "expr \<Rightarrow> expr \<Rightarrow> expr \<Rightarrow> expr" where
  "expr_where cond then_branch else_branch =
    (if cond = mk_true then then_branch
     else if cond = mk_false then else_branch
     else if then_branch = else_branch then then_branch
     else mk_node Op_WHERE (e_flags then_branch AND e_flags else_branch) [cond, then_branch, else_branch])"


section \<open>Extrema\<close>

fun extrema_terms :: "expr_op \<Rightarrow> expr list \<Rightarrow> expr list \<Rightarrow> expr list checked" where
  "extrema_terms opr [] ts = ok ts"
| "extrema_terms opr (x # xs) ts =
    (if e_op x = opr \<and> length ts + length (e_args x) + length xs \<le> kMaxArgs
     then extrema_terms opr xs (ts @ e_args x)
     else if \<not> length ts + length xs < kMaxArgs then fail Fatal_invariant
     else extrema_terms opr xs (ts @ [x]))"

text \<open>The pass over the sorted operands keeps one of each run of equal neighbours.\<close>

definition extrema_n :: "pool_env \<Rightarrow> expr_op \<Rightarrow> expr list \<Rightarrow> expr checked" where
  "extrema_n E opr inputs =
    (if inputs = [] then fail Fatal_invariant
     else if \<not> length inputs \<le> kMaxArgs then fail Fatal_invariant
     else and_then (extrema_terms opr inputs []) (\<lambda>ts.
       let us = remdups_adj (sort_key (addr E) ts)
       in if length us = 1 then ok (us ! 0)
          else if \<not> length us \<le> kMaxArgs then fail Fatal_invariant
          else ok (mk_node opr (composite_flags opr us) us)))"

definition min_n :: "pool_env \<Rightarrow> expr list \<Rightarrow> expr checked" where
  "min_n E inputs = extrema_n E Op_MIN inputs"

definition max_n :: "pool_env \<Rightarrow> expr list \<Rightarrow> expr checked" where
  "max_n E inputs = extrema_n E Op_MAX inputs"

definition min_expr :: "pool_env \<Rightarrow> expr \<Rightarrow> expr \<Rightarrow> expr checked" where
  "min_expr E lhs rhs =
    (if lhs = rhs then ok lhs
     else if is_int lhs \<and> is_int rhs then ok (mk_integer (min (e_payload lhs) (e_payload rhs)))
     else min_n E [lhs, rhs])"

definition max_expr :: "pool_env \<Rightarrow> expr \<Rightarrow> expr \<Rightarrow> expr checked" where
  "max_expr E lhs rhs =
    (if lhs = rhs then ok lhs
     else if is_int lhs \<and> is_int rhs then ok (mk_integer (max (e_payload lhs) (e_payload rhs)))
     else max_n E [lhs, rhs])"

end
