(* ===== verification/Expr_Pool_Correct.thy ===== *)
theory Expr_Pool_Correct
  imports Expr_Pool "HOL-Library.Multiset"
begin

text \<open>
  The constructors of \<^verbatim>\<open>crucible/ExprPool.h\<close> return, keep the canonical shape of nodes and have the value of
  the operation.  The bound that excludes saturation is a weight: the magnitude of a constant, the sum
  over a sum, the product over a product.  No constructor produces a constant above the weight of its
  operands.
\<close>

section \<open>Well-formed expressions and their weight\<close>

text \<open>The shape the pool keeps, for expressions without floating-point constants: the argument ceiling,
  sums and products of at least two operands without a zero constant, products with at most one constant,
  and divisions with a divisor in \<^verbatim>\<open>Q\<close>.\<close>

definition node_ok :: "(expr \<Rightarrow> bool) \<Rightarrow> expr \<Rightarrow> bool" where
  "node_ok Q e \<longleftrightarrow> e_op e \<noteq> Op_FLOAT \<and> length (e_args e) \<le> kMaxArgs \<and>
     (is_int e \<longrightarrow> fits_i64 (e_payload e) \<and> e_args e = []) \<and>
     (e_op e \<in> {Op_ADD, Op_MUL} \<longrightarrow> length (e_args e) \<ge> 2 \<and> (\<forall>a \<in> set (e_args e). is_int a \<longrightarrow> e_payload a \<noteq> 0)) \<and>
     (e_op e = Op_MUL \<longrightarrow> length (filter is_int (e_args e)) \<le> 1) \<and>
     (e_op e \<in> {Op_MIN, Op_MAX} \<longrightarrow> e_args e \<noteq> []) \<and>
     (e_op e \<in> {Op_FLOOR_DIV, Op_CLEAN_DIV} \<longrightarrow> length (e_args e) = 2 \<and> Q (e_args e ! 1)) \<and>
     (e_op e = Op_NOT \<longrightarrow> length (e_args e) = 1)"

fun wf_expr :: "(expr \<Rightarrow> bool) \<Rightarrow> expr \<Rightarrow> bool" where
  "wf_expr Q (Node opr fl s p args) \<longleftrightarrow> node_ok Q (Node opr fl s p args) \<and> (\<forall>a \<in> set args. wf_expr Q a)"

lemma wf_expr_iff: "wf_expr Q e \<longleftrightarrow> node_ok Q e \<and> (\<forall>a \<in> set (e_args e). wf_expr Q a)"
  by (cases e) simp

lemma wf_node: "wf_expr Q e \<Longrightarrow> node_ok Q e"
  using wf_expr_iff [of Q e] by blast

lemma wf_arg: "wf_expr Q e \<Longrightarrow> a \<in> set (e_args e) \<Longrightarrow> wf_expr Q a"
  using wf_expr_iff [of Q e] by blast

lemma wf_integer [simp]: "wf_expr Q (mk_integer n) \<longleftrightarrow> fits_i64 n"
  using wf_expr_iff [of Q "mk_integer n"] by (simp add: node_ok_def kMaxArgs_def)

fun wt :: "expr \<Rightarrow> int" where
  "wt (Node opr fl s p args) =
    (if opr = Op_INTEGER then max 1 \<bar>p\<bar>
     else if opr = Op_ADD then max 1 (\<Sum>a\<leftarrow>args. wt a)
     else if opr = Op_MUL then prod_list (map wt args)
     else if args = [] then 1
     else 1 + prod_list (map wt args))"

lemma mult_ge_one: "1 \<le> a \<Longrightarrow> 1 \<le> b \<Longrightarrow> 1 \<le> a * b" for a b :: int
  using mult_mono [of 1 a 1 b] by simp

lemma prod_list_ge_one: "(\<And>x. x \<in> set xs \<Longrightarrow> 1 \<le> x) \<Longrightarrow> 1 \<le> prod_list xs" for xs :: "int list"
  by (induction xs) (simp_all add: mult_ge_one)

lemma wt_pos [simp]: "1 \<le> wt e"
proof (induction e)
  case (Node opr fl s p args)
  then have "1 \<le> prod_list (map wt args)"
    by (intro prod_list_ge_one) auto
  then show ?case
    by simp
qed

lemma sum_wt_ge: "xs \<noteq> [] \<Longrightarrow> 1 \<le> (\<Sum>x\<leftarrow>xs. wt x)"
proof (induction xs)
  case (Cons x xs)
  then have "0 \<le> (\<Sum>x\<leftarrow>xs. wt x)"
    by (cases "xs = []") simp_all
  then show ?case
    using wt_pos [of x] unfolding list.map sum_list.Cons by linarith
qed simp

lemma wt_integer [simp]: "wt (mk_integer n) = max 1 \<bar>n\<bar>"
  by (simp add: mk_integer_def)

lemma wt_int: "is_int e \<Longrightarrow> wt e = max 1 \<bar>e_payload e\<bar>"
  by (cases e) (simp add: is_int_def)

lemma wt_add: "e_op e = Op_ADD \<Longrightarrow> e_args e \<noteq> [] \<Longrightarrow> wt e = (\<Sum>a\<leftarrow>e_args e. wt a)"
  using sum_wt_ge [of "e_args e"] by (cases e) simp

lemma wt_mul: "e_op e = Op_MUL \<Longrightarrow> wt e = prod_list (map wt (e_args e))"
  by (cases e) simp

text \<open>An expression is well formed, stands for a value and keeps to a weight.\<close>

definition denotes :: "(expr \<Rightarrow> bool) \<Rightarrow> expr \<Rightarrow> (interp \<Rightarrow> int) \<Rightarrow> int \<Rightarrow> bool" where
  "denotes Q r v b \<longleftrightarrow> wf_expr Q r \<and> (\<forall>I. expr_value I r = v I) \<and> wt r \<le> b"

lemma denotes_le: "denotes Q r v b \<Longrightarrow> b \<le> c \<Longrightarrow> denotes Q r v c"
  by (auto simp: denotes_def)


section \<open>Collecting operands\<close>

definition ints :: "expr list \<Rightarrow> int list" where
  "ints xs = map e_payload (filter is_int xs)"

definition nonints :: "expr list \<Rightarrow> expr list" where
  "nonints xs = filter (\<lambda>x. \<not> is_int x) xs"

lemma ints_simps [simp]:
  "ints [] = []" "ints (x # xs) = (if is_int x then e_payload x # ints xs else ints xs)" "ints (xs @ ys) = ints xs @ ints ys"
  "nonints [] = []" "nonints (x # xs) = (if is_int x then nonints xs else x # nonints xs)"
  "nonints (xs @ ys) = nonints xs @ nonints ys"
  by (simp_all add: ints_def nonints_def)

lemma set_nonints [simp]: "set (nonints xs) = {x \<in> set xs. \<not> is_int x}"
  by (simp add: nonints_def)

lemma length_nonints: "length (nonints xs) \<le> length xs"
  by (simp add: nonints_def)

lemma collect_args_eq:
  "length ts + length (nonints as) \<le> kMaxArgs \<Longrightarrow> collect_args f as (ts, c) = ok (ts @ nonints as, foldl f c (ints as))"
  by (induction as arbitrary: ts c) (auto simp: is_int_def split: if_splits)

text \<open>The operands with the children of those that are merged in their place.\<close>

fun flatten :: "expr_op \<Rightarrow> nat \<Rightarrow> expr list \<Rightarrow> expr list" where
  "flatten opr n [] = []"
| "flatten opr n (x # xs) =
    (if e_op x = opr \<and> n + length (e_args x) + length xs \<le> kMaxArgs
     then e_args x @ flatten opr (n + length (nonints (e_args x))) xs
     else x # flatten opr (if is_int x then n else Suc n) xs)"

lemma collect_terms_eq:
  assumes "opr \<noteq> Op_INTEGER" "length ts + length xs \<le> kMaxArgs"
  shows "collect_terms opr f xs (ts, c) =
      ok (ts @ nonints (flatten opr (length ts) xs), foldl f c (ints (flatten opr (length ts) xs)))
    \<and> length ts + length (nonints (flatten opr (length ts) xs)) \<le> kMaxArgs"
  using assms(2)
proof (induction xs arbitrary: ts c)
  case (Cons x xs)
  show ?case
  proof (cases "e_op x = opr \<and> length ts + length (e_args x) + length xs \<le> kMaxArgs")
    case True
    have "length ts + length (nonints (e_args x)) + length xs \<le> kMaxArgs"
      using True length_nonints [of "e_args x"] by linarith
    then show ?thesis
      using True Cons.IH [of "ts @ nonints (e_args x)" "foldl f c (ints (e_args x))"] collect_args_eq [of ts "e_args x" f c]
      by simp
  next
    case False
    then show ?thesis
      using Cons.IH [of "ts @ [x]" c] Cons.IH [of ts "f c (e_payload x)"] Cons.prems
      by (auto simp: is_int_def)
  qed
qed simp

lemma flatten_mem:
  "y \<in> set (flatten opr n xs) \<Longrightarrow> y \<in> set xs \<or> (\<exists>x \<in> set xs. e_op x = opr \<and> y \<in> set (e_args x))"
  by (induction opr n xs rule: flatten.induct) (auto split: if_splits)

lemma flatten_fold:
  assumes "\<And>x. x \<in> set xs \<Longrightarrow> e_op x = opr \<Longrightarrow> F (map h (e_args x)) = h x"
    and "\<And>as bs. F (as @ bs) = g (F as) (F bs)" and "\<And>a. F [a] = a"
  shows "F (map h (flatten opr n xs)) = F (map h xs)"
  using assms(1)
proof (induction opr n xs rule: flatten.induct)
  case (2 opr n x xs)
  have "F (map h (x # xs)) = g (h x) (F (map h xs))"
    using assms(2) [of "[h x]" "map h xs"] by (simp add: assms(3))
  moreover have "F (map h (x # flatten opr m xs)) = g (h x) (F (map h (flatten opr m xs)))" for m
    using assms(2) [of "[h x]" "map h (flatten opr m xs)"] by (simp add: assms(3))
  ultimately show ?case
    using 2 by (simp add: assms(2) del: list.map(2))
qed simp


section \<open>Folding constants\<close>

lemma foldl_sadd: "\<bar>c\<bar> + (\<Sum>p\<leftarrow>ps. \<bar>p\<bar>) \<le> i64_max \<Longrightarrow> foldl sadd c ps = c + sum_list ps"
proof (induction ps arbitrary: c)
  case (Cons p ps)
  have "0 \<le> (\<Sum>p\<leftarrow>ps. \<bar>p\<bar>)"
    by (intro sum_list_nonneg) auto
  then have "\<bar>c + p\<bar> + (\<Sum>p\<leftarrow>ps. \<bar>p\<bar>) \<le> i64_max" "\<bar>c + p\<bar> \<le> i64_max"
    using Cons.prems by auto
  then show ?case
    using Cons.IH [of "c + p"] by (simp add: sadd_def)
qed simp

lemma prod_max_ge_one: "1 \<le> prod_list (map (\<lambda>p. max 1 \<bar>p\<bar>) ps)" for ps :: "int list"
  by (rule prod_list_ge_one) auto

lemma max_abs_mult: "max 1 \<bar>a * b\<bar> \<le> max 1 \<bar>a\<bar> * max 1 \<bar>b\<bar>" for a b :: int
proof -
  have "\<bar>a\<bar> * \<bar>b\<bar> \<le> max 1 \<bar>a\<bar> * max 1 \<bar>b\<bar>"
    by (intro mult_mono) auto
  moreover have "1 \<le> max 1 \<bar>a\<bar> * max 1 \<bar>b\<bar>"
    by (intro mult_ge_one) auto
  ultimately show ?thesis
    by (simp add: abs_mult)
qed

lemma foldl_smul:
  "max 1 \<bar>c\<bar> * prod_list (map (\<lambda>p. max 1 \<bar>p\<bar>) ps) \<le> i64_max \<Longrightarrow> foldl smul c ps = c * prod_list ps"
proof (induction ps arbitrary: c)
  case (Cons p ps)
  let ?r = "prod_list (map (\<lambda>p. max 1 \<bar>p\<bar>) ps)"
  have "max 1 \<bar>c * p\<bar> * ?r \<le> (max 1 \<bar>c\<bar> * max 1 \<bar>p\<bar>) * ?r"
    using max_abs_mult prod_max_ge_one [of ps] by (intro mult_right_mono) auto
  then have le: "max 1 \<bar>c * p\<bar> * ?r \<le> i64_max"
    using Cons.prems by (simp add: mult.assoc)
  have "max 1 \<bar>c * p\<bar> * 1 \<le> max 1 \<bar>c * p\<bar> * ?r"
    using prod_max_ge_one [of ps] by (intro mult_left_mono) auto
  then have "\<bar>c * p\<bar> \<le> i64_max"
    using le by simp
  then show ?case
    using Cons.IH [OF le] by (simp add: smul_def mult.assoc)
qed simp

lemma abs_prod_le: "max 1 \<bar>prod_list ps\<bar> \<le> prod_list (map (\<lambda>p. max 1 \<bar>p\<bar>) ps)" for ps :: "int list"
proof (induction ps)
  case (Cons p ps)
  have "max 1 \<bar>p * prod_list ps\<bar> \<le> max 1 \<bar>p\<bar> * max 1 \<bar>prod_list ps\<bar>"
    by (rule max_abs_mult)
  also have "\<dots> \<le> max 1 \<bar>p\<bar> * prod_list (map (\<lambda>p. max 1 \<bar>p\<bar>) ps)"
    using Cons.IH by (intro mult_left_mono) auto
  finally show ?case
    by simp
qed simp

lemma abs_sum_le: "\<bar>sum_list ps\<bar> \<le> (\<Sum>p\<leftarrow>ps. max 1 \<bar>p\<bar>)" for ps :: "int list"
  by (induction ps) auto

lemma abs_le_sum_max: "(\<Sum>p\<leftarrow>ps. \<bar>p\<bar>) \<le> (\<Sum>p\<leftarrow>ps. max 1 \<bar>p\<bar>)" for ps :: "int list"
  by (intro sum_list_mono) auto

lemma sum_split_ints:
  "(\<And>x. is_int x \<Longrightarrow> h x = k (e_payload x)) \<Longrightarrow> (\<Sum>x\<leftarrow>xs. h x) = (\<Sum>p\<leftarrow>ints xs. k p) + (\<Sum>x\<leftarrow>nonints xs. h x)"
  for h :: "expr \<Rightarrow> int"
  by (induction xs) auto

lemma prod_split_ints:
  "(\<And>x. is_int x \<Longrightarrow> h x = k (e_payload x)) \<Longrightarrow>
    prod_list (map h xs) = prod_list (map k (ints xs)) * prod_list (map h (nonints xs))"
  for h :: "expr \<Rightarrow> int"
  by (induction xs) auto

lemmas value_sum_split = sum_split_ints [of "expr_value I" "\<lambda>p. p" for I, OF value_int, simplified]
lemmas value_prod_split = prod_split_ints [of "expr_value I" "\<lambda>p. p" for I, OF value_int, simplified]
lemmas wt_sum_split = sum_split_ints [of wt, OF wt_int]
lemmas wt_prod_split = prod_split_ints [of wt, OF wt_int]


section \<open>Interning sums and products\<close>

definition fold_op :: "expr_op \<Rightarrow> int list \<Rightarrow> int" where
  "fold_op opr vs = (if opr = Op_ADD then sum_list vs else prod_list vs)"

lemma fold_op_sort: "fold_op opr (map h (sort_key f xs)) = fold_op opr (map h xs)"
  unfolding fold_op_def by (metis mset_map mset_sort prod_mset_prod_list sum_mset_sum_list)

lemma fold_op_append: "fold_op opr (xs @ ys) = (if opr = Op_ADD then fold_op opr xs + fold_op opr ys else fold_op opr xs * fold_op opr ys)"
  by (simp add: fold_op_def)

lemma fold_op_single [simp]: "fold_op opr [x] = x" "fold_op opr [x, y] = (if opr = Op_ADD then x + y else x * y)"
  by (simp_all add: fold_op_def)

lemma fold_op_node:
  assumes "opr \<in> {Op_ADD, Op_MUL}" "ts \<noteq> []"
  shows "expr_value I (mk_node opr fl ts) = fold_op opr (map (expr_value I) ts)"
    and "wt (mk_node opr fl ts) = fold_op opr (map wt ts)"
  using assms sum_wt_ge [of ts] by (auto simp: fold_op_def value_node op_meaning_def mk_node_def)

lemma wf_mk_node:
  assumes "opr \<in> {Op_ADD, Op_MUL}" "2 \<le> length ts" "length ts \<le> kMaxArgs" "\<forall>t \<in> set ts. wf_expr Q t"
    and "\<forall>t \<in> set ts. is_int t \<longrightarrow> e_payload t \<noteq> 0" "opr = Op_MUL \<Longrightarrow> length (filter is_int ts) \<le> 1"
  shows "wf_expr Q (mk_node opr fl ts)"
  using assms unfolding wf_expr_iff [of Q "mk_node opr fl ts"] by (auto simp: node_ok_def mk_node_def is_int_def)

lemma addr_pair_props:
  "set (addr_pair E a b) = {a, b}" "length (addr_pair E a b) = 2" "fold_op opr (map h (addr_pair E a b)) = fold_op opr [h a, h b]"
  "length (filter P (addr_pair E a b)) = length (filter P [a, b])" "addr_pair E a b \<noteq> []"
  by (auto simp: addr_pair_def fold_op_def)

lemma is_int_mk_node [simp]: "is_int (mk_node opr fl ts) \<longleftrightarrow> opr = Op_INTEGER"
  by (simp add: is_int_def mk_node_def)

lemma intern_sorted_denotes:
  assumes opr: "opr \<in> {Op_ADD, Op_MUL}" and ts: "ts \<noteq> []" "length ts \<le> kMaxArgs" "\<forall>t \<in> set ts. wf_expr Q t"
    and nz: "2 \<le> length ts \<Longrightarrow> \<forall>t \<in> set ts. is_int t \<longrightarrow> e_payload t \<noteq> 0"
    and one: "opr = Op_MUL \<Longrightarrow> length (filter is_int ts) \<le> 1"
  shows "\<exists>r. intern_sorted E opr ts = ok r \<and>
    denotes Q r (\<lambda>I. fold_op opr (map (expr_value I) ts)) (fold_op opr (map wt ts)) \<and> (is_int r \<longrightarrow> ts = [r])"
proof (cases "length ts = 1")
  case True
  then obtain t where "ts = [t]"
    by (auto simp: length_Suc_conv)
  then show ?thesis
    using ts by (auto simp: intern_sorted_def denotes_def)
next
  case False
  define ss where "ss = sort_key (addr E) ts"
  have len: "2 \<le> length ts"
    using False ts(1) by (cases ts) (auto simp: neq_Nil_conv)
  have "mset (filter is_int ss) = mset (filter is_int ts)"
    by (simp add: ss_def)
  then have "length (filter is_int ss) = length (filter is_int ts)"
    by (rule mset_eq_length)
  then have "wf_expr Q (mk_node opr fl ss)" for fl
    using opr len ts nz one by (intro wf_mk_node) (auto simp: ss_def)
  moreover have "ss \<noteq> []"
    using len by (metis ss_def length_sort list.size(3) not_numeral_le_zero)
  ultimately show ?thesis
    using False ts(2) opr fold_op_node [OF opr, of ss] by (auto simp: intern_sorted_def denotes_def Let_def ss_def fold_op_sort)
qed

lemma reattach_denotes:
  assumes opr: "opr \<in> {Op_ADD, Op_MUL}" and ts: "length ts \<le> kMaxArgs" "\<forall>t \<in> set ts. wf_expr Q t \<and> \<not> is_int t"
    and c: "fits_i64 c" "ts \<noteq> [] \<Longrightarrow> c \<noteq> 0"
  shows "\<exists>r. reattach E opr ts c = ok r \<and>
    denotes Q r (\<lambda>I. fold_op opr (map (expr_value I) ts @ [c])) (fold_op opr (map wt ts @ [max 1 \<bar>c\<bar>])) \<and> (is_int r \<longrightarrow> ts = [])"
proof (cases "length ts = kMaxArgs")
  case True
  define inner where "inner = mk_node opr (composite_flags opr (sort_key (addr E) ts)) (sort_key (addr E) ts)"
  have len: "2 \<le> length ts" "ts \<noteq> []" "sort_key (addr E) ts \<noteq> []"
    using True by (auto simp: kMaxArgs_def simp flip: length_0_conv)
  have inner: "wf_expr Q inner" "wt inner = fold_op opr (map wt ts)" "\<not> is_int inner"
    "\<And>I. expr_value I inner = fold_op opr (map (expr_value I) ts)"
    unfolding inner_def using opr ts len
    by (auto intro!: wf_mk_node simp: fold_op_node fold_op_sort filter_empty_conv)
  define args where "args = addr_pair E inner (mk_integer c)"
  have args: "args \<noteq> []" "set args = {inner, mk_integer c}" "length args = 2" "length (filter is_int args) \<le> 1"
    "fold_op opr (map h args) = fold_op opr [h inner, h (mk_integer c)]" for h
    using inner(3) by (simp_all add: args_def addr_pair_props)
  have "wf_expr Q (mk_node opr fl args)" for fl
    using opr args inner c len by (intro wf_mk_node) (auto simp: kMaxArgs_def)
  then show ?thesis
    using True opr args fold_op_node [OF opr args(1)] inner len
    by (auto simp: reattach_def nest_folded_constant_def denotes_def fold_op_append inner_def [symmetric] args_def [symmetric] Let_def)
next
  case False
  have "length (ts @ [mk_integer c]) \<le> kMaxArgs"
    using False ts by simp
  moreover have "filter is_int ts = []"
    using ts by (simp add: filter_empty_conv)
  moreover have "1 \<le> length ts \<longrightarrow> c \<noteq> 0"
    using c(2) by (cases ts) auto
  ultimately show ?thesis
    using intern_sorted_denotes [OF opr, of "ts @ [mk_integer c]" Q E] False ts c(1)
    by (auto simp: reattach_def)
qed


section \<open>Products\<close>

lemma flatten_fold_op:
  assumes "opr \<in> {Op_ADD, Op_MUL}" "\<forall>x \<in> set xs. wf_expr Q x"
  shows "fold_op opr (map (expr_value I) (flatten opr n xs)) = fold_op opr (map (expr_value I) xs)"
    and "fold_op opr (map wt (flatten opr n xs)) = fold_op opr (map wt xs)"
proof -
  have args: "e_args x \<noteq> []" if "x \<in> set xs" "e_op x = opr" for x
    using wf_node [of Q x] assms that by (auto simp: node_ok_def)
  show "fold_op opr (map (expr_value I) (flatten opr n xs)) = fold_op opr (map (expr_value I) xs)"
    using assms(1) by (intro flatten_fold [where F = "fold_op opr" and g = "\<lambda>a b. if opr = Op_ADD then a + b else a * b"])
      (auto simp: fold_op_def value_sum value_prod)
  show "fold_op opr (map wt (flatten opr n xs)) = fold_op opr (map wt xs)"
    using assms(1) args by (intro flatten_fold [where F = "fold_op opr" and g = "\<lambda>a b. if opr = Op_ADD then a + b else a * b"])
      (auto simp: fold_op_def wt_add wt_mul)
qed

lemma flatten_wf: "\<forall>x \<in> set xs. wf_expr Q x \<Longrightarrow> y \<in> set (flatten opr n xs) \<Longrightarrow> wf_expr Q y"
  using flatten_mem [of y opr n xs] wf_arg by blast

lemma flatten_nonzero:
  assumes "opr \<in> {Op_ADD, Op_MUL}" "\<forall>x \<in> set xs. wf_expr Q x" "\<forall>x \<in> set xs. is_int x \<longrightarrow> e_payload x \<noteq> 0"
    and y: "y \<in> set (flatten opr n xs)" "is_int y"
  shows "e_payload y \<noteq> 0"
  using flatten_mem [OF y(1)] wf_node assms by (auto simp: node_ok_def)

lemma mul_has_factor:
  assumes "wf_expr Q x" "e_op x = Op_MUL"
  shows "nonints (e_args x) \<noteq> []"
proof
  assume "nonints (e_args x) = []"
  then have "filter is_int (e_args x) = e_args x"
    by (simp add: nonints_def filter_empty_conv filter_id_conv)
  then show False
    using wf_node [OF assms(1)] assms(2) by (auto simp: node_ok_def)
qed

lemma flatten_has_factor:
  assumes "\<forall>x \<in> set xs. wf_expr Q x" "\<exists>x \<in> set xs. \<not> is_int x"
  shows "nonints (flatten Op_MUL n xs) \<noteq> []"
  using assms
proof (induction Op_MUL n xs rule: flatten.induct)
  case (2 n x xs)
  then show ?case
    using mul_has_factor [of Q x] by auto blast+
qed simp

text \<open>What the loop of \<^const>\<open>mul_n\<close> leaves: the factors and the folded constant, exact below the bound.\<close>

lemma mul_collected:
  assumes len: "length xs \<le> kMaxArgs" and wf: "\<forall>x \<in> set xs. wf_expr Q x" and bound: "prod_list (map wt xs) \<le> i64_max"
  obtains ts c where "collect_terms Op_MUL smul xs ([], 1) = ok (ts, c)" "length ts \<le> kMaxArgs" "\<bar>c\<bar> \<le> i64_max"
    and "\<forall>t \<in> set ts. wf_expr Q t \<and> \<not> is_int t" "\<And>I. prod_list (map (expr_value I) xs) = c * prod_list (map (expr_value I) ts)"
    and "prod_list (map wt ts) * max 1 \<bar>c\<bar> \<le> prod_list (map wt xs)"
    and "\<exists>x \<in> set xs. \<not> is_int x \<Longrightarrow> ts \<noteq> []" "\<forall>x \<in> set xs. is_int x \<longrightarrow> e_payload x \<noteq> 0 \<Longrightarrow> c \<noteq> 0"
proof
  define fl where "fl = flatten Op_MUL 0 xs"
  define ts where "ts = nonints fl"
  define c where "c = prod_list (ints fl)"
  have wts: "prod_list (map wt xs) = prod_list (map (\<lambda>p. max 1 \<bar>p\<bar>) (ints fl)) * prod_list (map wt ts)"
    using flatten_fold_op(2) [of Op_MUL xs Q 0] wf wt_prod_split [of fl]
    by (simp add: fold_op_def fl_def [symmetric] ts_def)
  have ts1: "1 \<le> prod_list (map wt ts)"
    by (rule prod_list_ge_one) auto
  have "max 1 \<bar>c\<bar> * prod_list (map wt ts) \<le> prod_list (map wt xs)"
    unfolding wts c_def using ts1 abs_prod_le by (intro mult_right_mono) auto
  then show "prod_list (map wt ts) * max 1 \<bar>c\<bar> \<le> prod_list (map wt xs)"
    by (simp add: mult.commute)
  have "prod_list (map (\<lambda>p. max 1 \<bar>p\<bar>) (ints fl)) * 1 \<le> prod_list (map wt xs)"
    unfolding wts using ts1 prod_max_ge_one [of "ints fl"] by (intro mult_left_mono) auto
  then have "prod_list (map (\<lambda>p. max 1 \<bar>p\<bar>) (ints fl)) \<le> i64_max"
    using bound by simp
  then have c: "foldl smul 1 (ints fl) = c" and "\<bar>c\<bar> \<le> i64_max"
    using foldl_smul [of 1 "ints fl"] abs_prod_le [of "ints fl"] by (auto simp: c_def)
  then show "\<bar>c\<bar> \<le> i64_max"
    by simp
  show "\<forall>t \<in> set ts. wf_expr Q t \<and> \<not> is_int t"
    using flatten_wf [OF wf] by (auto simp: ts_def fl_def)
  show "prod_list (map (expr_value I) xs) = c * prod_list (map (expr_value I) ts)" for I
    using flatten_fold_op(1) [of Op_MUL xs Q I 0] wf value_prod_split [of I fl]
    by (simp add: fold_op_def fl_def [symmetric] ts_def c_def)
  show "length ts \<le> kMaxArgs" "collect_terms Op_MUL smul xs ([], 1) = ok (ts, c)"
    using collect_terms_eq [of Op_MUL "[]" xs smul 1] len c by (auto simp: fl_def ts_def)
  show "\<exists>x \<in> set xs. \<not> is_int x \<Longrightarrow> ts \<noteq> []"
    using flatten_has_factor [OF wf, of 0] by (simp add: ts_def fl_def)
  show "\<forall>x \<in> set xs. is_int x \<longrightarrow> e_payload x \<noteq> 0 \<Longrightarrow> c \<noteq> 0"
    using flatten_nonzero [of Op_MUL xs Q] wf by (force simp: c_def ints_def fl_def prod_list_zero_iff)
qed

lemma fits_abs: "\<bar>c\<bar> \<le> i64_max \<Longrightarrow> fits_i64 c"
  by (auto simp: fits_i64_def i64_min_def i64_max_def)

lemma mul_n_denotes:
  assumes len: "length xs \<le> kMaxArgs" and wf: "\<forall>x \<in> set xs. wf_expr Q x" and bound: "prod_list (map wt xs) \<le> i64_max"
  shows "\<exists>r. mul_n E xs = ok r \<and> denotes Q r (\<lambda>I. prod_list (map (expr_value I) xs)) (prod_list (map wt xs)) \<and>
    ((\<exists>x \<in> set xs. \<not> is_int x) \<and> (\<forall>x \<in> set xs. is_int x \<longrightarrow> e_payload x \<noteq> 0) \<longrightarrow> \<not> is_int r)"
proof -
  obtain ts c where run: "collect_terms Op_MUL smul xs ([], 1) = ok (ts, c)" and tslen: "length ts \<le> kMaxArgs"
    and fits: "\<bar>c\<bar> \<le> i64_max" and tswf: "\<forall>t \<in> set ts. wf_expr Q t \<and> \<not> is_int t"
    and vals: "\<And>I. prod_list (map (expr_value I) xs) = c * prod_list (map (expr_value I) ts)"
    and le: "prod_list (map wt ts) * max 1 \<bar>c\<bar> \<le> prod_list (map wt xs)"
    and factor: "\<exists>x \<in> set xs. \<not> is_int x \<Longrightarrow> ts \<noteq> []" "\<forall>x \<in> set xs. is_int x \<longrightarrow> e_payload x \<noteq> 0 \<Longrightarrow> c \<noteq> 0"
    using mul_collected [OF assms] by blast
  have one: "1 \<le> prod_list (map wt xs)"
    by (rule prod_list_ge_one) auto
  have mul: "mul_n E xs = (if c = 0 then ok (mk_integer 0) else if c \<noteq> 1 \<or> length ts = 0 then reattach E Op_MUL ts c
      else intern_sorted E Op_MUL ts)"
    using len by (simp add: mul_n_def run)
  consider "c = 0" | "c \<noteq> 0" "c \<noteq> 1 \<or> ts = []" | "c = 1" "ts \<noteq> []"
    by blast
  then show ?thesis
  proof cases
    case 1
    then show ?thesis
      using mul vals one factor(2) by (auto simp: denotes_def fits_abs i64_max_def)
  next
    case 2
    then obtain r where "reattach E Op_MUL ts c = ok r" "is_int r \<longrightarrow> ts = []"
      "denotes Q r (\<lambda>I. prod_list (map (expr_value I) ts) * c) (prod_list (map wt ts) * max 1 \<bar>c\<bar>)"
      using reattach_denotes [of Op_MUL ts Q c E] tslen tswf fits_abs [OF fits] by (auto simp: fold_op_def)
    then show ?thesis
      using 2 mul vals denotes_le [OF _ le] factor(1) by (auto simp: mult.commute)
  next
    case 3
    have "filter is_int ts = []" "\<forall>t \<in> set ts. is_int t \<longrightarrow> e_payload t \<noteq> 0"
      using tswf by (simp_all add: filter_empty_conv)
    then obtain r where "intern_sorted E Op_MUL ts = ok r" "is_int r \<longrightarrow> ts = [r]"
      "denotes Q r (\<lambda>I. prod_list (map (expr_value I) ts)) (prod_list (map wt ts))"
      using intern_sorted_denotes [of Op_MUL ts Q E] 3 tslen tswf by (auto simp: fold_op_def)
    moreover have "\<not> is_int r"
      using tswf calculation(2) by auto
    ultimately show ?thesis
      using 3 mul vals le by (auto simp: denotes_def)
  qed
qed

lemma wf_no_float: "wf_expr Q e \<Longrightarrow> e_op e \<noteq> Op_FLOAT"
  using wf_node [of Q e] by (simp add: node_ok_def)

lemma wf_pair:
  assumes "opr \<in> {Op_ADD, Op_MUL}" "wf_expr Q a" "wf_expr Q b" "\<not> is_int a" "\<not> is_int b"
  shows "denotes Q (mk_node opr fl (addr_pair E a b)) (\<lambda>I. fold_op opr [expr_value I a, expr_value I b]) (fold_op opr [wt a, wt b])"
  using assms fold_op_node [OF assms(1) addr_pair_props(5)]
  by (auto simp: denotes_def addr_pair_props kMaxArgs_def intro!: wf_mk_node)

lemma expr_mul_denotes:
  assumes wf: "wf_expr Q a" "wf_expr Q b" and bound: "wt a * wt b \<le> i64_max"
  shows "\<exists>r. expr_mul E a b = ok r \<and> denotes Q r (\<lambda>I. expr_value I a * expr_value I b) (wt a * wt b)"
proof -
  have ge: "1 \<le> wt a * wt b" "wt a \<le> wt a * wt b" "wt b \<le> wt a * wt b"
    using mult_mono [of 1 "wt a" 1 "wt b"] mult_mono [of "wt a" "wt a" 1 "wt b"] mult_mono [of 1 "wt a" "wt b" "wt b"]
    by (auto simp: order.trans [OF _ wt_pos])
  consider "e_op a \<notin> {Op_MUL, Op_INTEGER, Op_FLOAT} \<and> e_op b \<notin> {Op_MUL, Op_INTEGER, Op_FLOAT}"
    | "is_int a" "is_int b" | "\<not> (is_int a \<and> is_int b)" "e_op a \<in> {Op_MUL, Op_INTEGER, Op_FLOAT} \<or> e_op b \<in> {Op_MUL, Op_INTEGER, Op_FLOAT}"
    by blast
  then show ?thesis
  proof cases
    case 1
    then show ?thesis
      using wf wf_pair [of Op_MUL Q a b _ E] by (auto simp: expr_mul_def is_int_def Let_def)
  next
    case 2
    then have le: "max 1 \<bar>e_payload a * e_payload b\<bar> \<le> wt a * wt b"
      using max_abs_mult [of "e_payload a" "e_payload b"] by (simp add: wt_int)
    then have "\<bar>e_payload a * e_payload b\<bar> \<le> i64_max"
      using bound by linarith
    then show ?thesis
      using 2 le by (auto simp: expr_mul_def is_int_def denotes_def smul_def fits_abs value_int)
  next
    case 3
    then show ?thesis
      using wf_no_float [OF wf(1)] wf_no_float [OF wf(2)] wf ge bound mul_n_denotes [of "[a, b]" Q E]
      by (auto simp: expr_mul_def denotes_def is_zero_int_def is_one_def value_int kMaxArgs_def fits_abs i64_max_def)
  qed
qed

end
