(* ===== verification/Expr_Sums.thy ===== *)
theory Expr_Sums
  imports Expr_Pool_Correct
begin

text \<open>
  Sums of the expression pool: the split of a term into coefficient and base, the merge of terms with one
  base, and the value of \<^const>\<open>add_n\<close>, \<^const>\<open>expr_add\<close>, \<^const>\<open>expr_neg\<close> and \<^const>\<open>expr_pow\<close>.
\<close>

section \<open>Coefficient and base\<close>

definition term_coeff :: "expr \<Rightarrow> int" where
  "term_coeff t = (if e_op t = Op_MUL then foldl (\<lambda>_ p. p) 1 (ints (e_args t)) else 1)"

definition term_base :: "expr \<Rightarrow> expr" where
  "term_base t = (if e_op t = Op_MUL then coefficient_base (nonints (e_args t)) else t)"

lemma single_int:
  assumes "wf_expr Q t" "e_op t = Op_MUL"
  shows "foldl (\<lambda>_ p. p) 1 (ints (e_args t)) = prod_list (ints (e_args t))"
proof -
  have "length (ints (e_args t)) \<le> 1"
    using wf_node [OF assms(1)] assms(2) by (simp add: node_ok_def ints_def)
  then show ?thesis
    by (cases "ints (e_args t)") (auto simp: le_Suc_eq)
qed

lemma coefficient_base_denotes:
  assumes "fs \<noteq> []" "length fs \<le> kMaxArgs" "\<forall>x \<in> set fs. wf_expr Q x \<and> \<not> is_int x"
  shows "denotes Q (coefficient_base fs) (\<lambda>I. prod_list (map (expr_value I) fs)) (prod_list (map wt fs)) \<and>
    \<not> is_int (coefficient_base fs)"
proof (cases "length fs = 1")
  case True
  then obtain x where "fs = [x]"
    by (auto simp: length_Suc_conv)
  then show ?thesis
    using assms by (simp add: coefficient_base_def denotes_def)
next
  case False
  then have "2 \<le> length fs"
    using assms(1) by (cases fs) (auto simp: neq_Nil_conv)
  moreover have "filter is_int fs = []"
    using assms(3) by (simp add: filter_empty_conv)
  ultimately have "wf_expr Q (mk_node Op_MUL fl fs)" for fl
    using assms by (intro wf_mk_node) auto
  then show ?thesis
    using False assms(1) fold_op_node [of Op_MUL fs] by (simp add: coefficient_base_def denotes_def fold_op_def)
qed

lemma term_split:
  assumes wf: "wf_expr Q t" and t: "\<not> is_int t"
  shows "wf_expr Q (term_base t)" "\<not> is_int (term_base t)" "expr_value I t = term_coeff t * expr_value I (term_base t)"
    and "\<bar>term_coeff t\<bar> * wt (term_base t) \<le> wt t"
proof -
  have "wf_expr Q (term_base t) \<and> \<not> is_int (term_base t) \<and> expr_value I t = term_coeff t * expr_value I (term_base t) \<and>
    \<bar>term_coeff t\<bar> * wt (term_base t) \<le> wt t"
  proof (cases "e_op t = Op_MUL")
    case True
    define fs where "fs = nonints (e_args t)"
    define ps where "ps = ints (e_args t)"
    have "length (e_args t) \<le> kMaxArgs"
      using wf_node [OF wf] by (simp add: node_ok_def)
    then have "denotes Q (coefficient_base fs) (\<lambda>I. prod_list (map (expr_value I) fs)) (prod_list (map wt fs)) \<and>
      \<not> is_int (coefficient_base fs)"
      using mul_has_factor [OF wf True] length_nonints [of "e_args t"] wf_arg [OF wf]
      by (intro coefficient_base_denotes) (auto simp: fs_def)
    then have base: "wf_expr Q (coefficient_base fs)" "\<not> is_int (coefficient_base fs)"
      "expr_value I (coefficient_base fs) = prod_list (map (expr_value I) fs)" "wt (coefficient_base fs) \<le> prod_list (map wt fs)"
      by (auto simp: denotes_def)
    have co: "term_coeff t = prod_list ps" "term_base t = coefficient_base fs"
      using True single_int [OF wf True] by (simp_all add: term_coeff_def term_base_def ps_def fs_def)
    have "\<bar>prod_list ps\<bar> * wt (coefficient_base fs) \<le> prod_list (map (\<lambda>p. max 1 \<bar>p\<bar>) ps) * prod_list (map wt fs)"
      using base(4) abs_prod_le [of ps] by (intro mult_mono) (auto intro: order.trans [OF _ wt_pos])
    also have "\<dots> = wt t"
      using True wt_prod_split [of "e_args t"] by (simp add: wt_mul ps_def fs_def)
    finally show ?thesis
      using True base value_prod_split [of I "e_args t"] co by (simp add: value_prod ps_def fs_def)
  next
    case False
    then show ?thesis
      using assms by (simp add: term_base_def term_coeff_def)
  qed
  then show "wf_expr Q (term_base t)" "\<not> is_int (term_base t)" "expr_value I t = term_coeff t * expr_value I (term_base t)"
    "\<bar>term_coeff t\<bar> * wt (term_base t) \<le> wt t"
    by blast+
qed

lemma decompose_terms_eq:
  assumes "\<forall>t \<in> set ts. wf_expr Q t" "length ds + length ts \<le> kMaxArgs"
  shows "decompose_terms ts s ds = ok (s, ds @ map (\<lambda>t. (term_coeff t, term_base t)) ts)"
  using assms
proof (induction ts arbitrary: ds)
  case (Cons t ts)
  have step: "decompose_terms (t # ts) s ds = decompose_terms ts s (ds @ [(term_coeff t, term_base t)])"
  proof (cases "e_op t = Op_MUL")
    case True
    have "nonints (e_args t) \<noteq> []" "length (nonints (e_args t)) \<le> kMaxArgs"
      using mul_has_factor [of Q t] wf_node [of Q t] Cons.prems True length_nonints [of "e_args t"] by (auto simp: node_ok_def)
    then show ?thesis
      using True Cons.prems collect_args_eq [of "[]" "e_args t" "\<lambda>_ p. p" 1]
      by (simp add: push_term_def term_coeff_def term_base_def)
  next
    case False
    then show ?thesis
      using Cons.prems by (simp add: push_term_def term_coeff_def term_base_def)
  qed
  then show ?case
    using Cons.IH [of "ds @ [(term_coeff t, term_base t)]"] Cons.prems by simp
qed simp


section \<open>Merging terms\<close>

definition terms_value :: "interp \<Rightarrow> (int \<times> expr) list \<Rightarrow> int" where
  "terms_value I ds = (\<Sum>d\<leftarrow>ds. fst d * expr_value I (snd d))"

definition terms_wt :: "(int \<times> expr) list \<Rightarrow> int" where
  "terms_wt ds = (\<Sum>d\<leftarrow>ds. \<bar>fst d\<bar> * wt (snd d))"

lemma terms_simps [simp]:
  "terms_value I [] = 0" "terms_value I (d # ds) = fst d * expr_value I (snd d) + terms_value I ds"
  "terms_value I (ds @ es) = terms_value I ds + terms_value I es"
  "terms_wt [] = 0" "terms_wt (d # ds) = \<bar>fst d\<bar> * wt (snd d) + terms_wt ds" "terms_wt (ds @ es) = terms_wt ds + terms_wt es"
  by (simp_all add: terms_value_def terms_wt_def)

lemma terms_wt_nonneg: "0 \<le> terms_wt ds"
  unfolding terms_wt_def by (intro sum_list_nonneg) (auto intro!: mult_nonneg_nonneg order.trans [OF _ wt_pos])

lemma run_sums:
  assumes "\<forall>d \<in> set run. snd d = b"
  shows "terms_value I run = sum_list (map fst run) * expr_value I b" "terms_wt run = (\<Sum>p\<leftarrow>map fst run. \<bar>p\<bar>) * wt b"
  using assms by (induction run) (simp_all add: distrib_right)

lemma abs_sum_list_le: "\<bar>sum_list ps\<bar> \<le> (\<Sum>p\<leftarrow>ps. \<bar>p\<bar>)" for ps :: "int list"
  by (induction ps) auto

text \<open>One run of a base: the total is exact, and the merged term stays within the weight of the run.\<close>

lemma run_total:
  assumes "\<forall>d \<in> set run. snd d = b" and bound: "\<bar>c\<bar> * wt b + terms_wt run \<le> i64_max"
  shows "foldl sadd c (map fst run) = c + sum_list (map fst run)"
    and "\<bar>c + sum_list (map fst run)\<bar> * wt b \<le> \<bar>c\<bar> * wt b + terms_wt run"
proof -
  let ?a = "\<bar>c\<bar> + (\<Sum>p\<leftarrow>map fst run. \<bar>p\<bar>)"
  have eq: "\<bar>c\<bar> * wt b + terms_wt run = ?a * wt b"
    using run_sums(2) [OF assms(1)] by (simp add: distrib_right)
  have nonneg: "0 \<le> ?a"
    by (intro add_nonneg_nonneg sum_list_nonneg) auto
  then have "?a * 1 \<le> ?a * wt b"
    by (intro mult_left_mono) auto
  then have "?a \<le> i64_max"
    using bound unfolding eq mult_1_right by (rule order.trans)
  then show "foldl sadd c (map fst run) = c + sum_list (map fst run)"
    by (rule foldl_sadd)
  have "\<bar>c + sum_list (map fst run)\<bar> \<le> ?a"
    using abs_sum_list_le [of "map fst run"] by linarith
  then show "\<bar>c + sum_list (map fst run)\<bar> * wt b \<le> \<bar>c\<bar> * wt b + terms_wt run"
    unfolding eq by (intro mult_right_mono) (auto intro: order.trans [OF _ wt_pos])
qed

lemma scaled_base:
  assumes "wf_expr Q b" "\<not> is_int b" "k \<noteq> 0" "\<bar>k\<bar> * wt b \<le> i64_max"
  shows "\<exists>m. mul_n E [mk_integer k, b] = ok m \<and> denotes Q m (\<lambda>I. k * expr_value I b) (\<bar>k\<bar> * wt b) \<and> \<not> is_int m"
proof -
  have "\<bar>k\<bar> * 1 \<le> \<bar>k\<bar> * wt b"
    by (intro mult_left_mono) auto
  then have "fits_i64 k"
    using assms(4) by (intro fits_abs) linarith
  moreover have "max 1 \<bar>k\<bar> = \<bar>k\<bar>"
    using assms(3) by linarith
  ultimately show ?thesis
    using mul_n_denotes [of "[mk_integer k, b]" Q E] assms by (auto simp: kMaxArgs_def)
qed

definition merged :: "(expr \<Rightarrow> bool) \<Rightarrow> (int \<times> expr) list \<Rightarrow> expr list \<Rightarrow> bool" where
  "merged Q ds ms \<longleftrightarrow> length ms \<le> length ds \<and> (\<forall>m \<in> set ms. wf_expr Q m \<and> \<not> is_int m) \<and>
     (\<forall>I. (\<Sum>m\<leftarrow>ms. expr_value I m) = terms_value I ds) \<and> (\<Sum>m\<leftarrow>ms. wt m) \<le> terms_wt ds"

lemma merged_run:
  assumes run: "\<forall>d \<in> set run. snd d = b" and le: "\<bar>k\<bar> * wt b \<le> \<bar>c\<bar> * wt b + terms_wt run" and k: "k = c + sum_list (map fst run)"
    and rest: "merged Q rest ms"
  shows "k = 0 \<Longrightarrow> merged Q ((c, b) # run @ rest) ms"
    and "denotes Q m (\<lambda>I. k * expr_value I b) (\<bar>k\<bar> * wt b) \<Longrightarrow> \<not> is_int m \<Longrightarrow> merged Q ((c, b) # run @ rest) (m # ms)"
proof -
  have val: "terms_value I ((c, b) # run @ rest) = k * expr_value I b + terms_value I rest" for I
    by (simp add: run_sums(1) [OF run] k distrib_right)
  have weight: "\<bar>k\<bar> * wt b + terms_wt rest \<le> terms_wt ((c, b) # run @ rest)"
    using le by simp
  have "0 \<le> \<bar>k\<bar> * wt b"
    by (auto intro!: mult_nonneg_nonneg order.trans [OF _ wt_pos])
  then show "k = 0 \<Longrightarrow> merged Q ((c, b) # run @ rest) ms"
    using rest weight unfolding merged_def val by auto
  show "denotes Q m (\<lambda>I. k * expr_value I b) (\<bar>k\<bar> * wt b) \<Longrightarrow> \<not> is_int m \<Longrightarrow> merged Q ((c, b) # run @ rest) (m # ms)"
    using rest weight unfolding merged_def val denotes_def by auto
qed

lemma merge_terms_merged:
  assumes "\<forall>d \<in> set ds. wf_expr Q (snd d) \<and> \<not> is_int (snd d)" "terms_wt ds \<le> i64_max" "length cs + length ds \<le> kMaxArgs + 1"
  shows "\<exists>ms. merge_terms E ds cs = ok (cs @ ms) \<and> merged Q ds ms"
  using assms
proof (induction "length ds" arbitrary: ds cs rule: less_induct)
  case less
  show ?case
  proof (cases ds)
    case Nil
    then show ?thesis
      by (simp add: merged_def)
  next
    case (Cons d es)
    obtain c b where d: "d = (c, b)"
      by (cases d)
    define run where "run = takeWhile (\<lambda>d. snd d = b) es"
    define rest where "rest = dropWhile (\<lambda>d. snd d = b) es"
    define k where "k = c + sum_list (map fst run)"
    have ds: "ds = (c, b) # run @ rest" and len: "length rest < length ds"
      by (simp_all add: Cons d run_def rest_def less_Suc_eq_le length_dropWhile_le)
    have run: "\<forall>d \<in> set run. snd d = b"
      by (auto simp: run_def dest: set_takeWhileD)
    have "0 \<le> \<bar>c\<bar> * wt b"
      by (auto intro!: mult_nonneg_nonneg order.trans [OF _ wt_pos])
    then have bound: "\<bar>c\<bar> * wt b + terms_wt run \<le> i64_max" "terms_wt rest \<le> i64_max"
      using less.prems(2) terms_wt_nonneg [of rest] terms_wt_nonneg [of run] by (simp_all add: ds)
    have total: "foldl sadd c (map fst run) = k" and le: "\<bar>k\<bar> * wt b \<le> \<bar>c\<bar> * wt b + terms_wt run"
      using run_total [OF run bound(1)] by (simp_all add: k_def)
    have IH: "\<exists>ms. merge_terms E rest cs' = ok (cs' @ ms) \<and> merged Q rest ms" if "length cs' \<le> Suc (length cs)" for cs'
      using less.hyps [OF len] less.prems that bound(2) len by (simp add: ds)
    note step = merged_run [OF run le k_def]
    have unfold: "merge_terms E ds cs = (if k = 0 then merge_terms E rest cs else if k = 1 then merge_terms E rest (cs @ [b])
        else and_then (mul_n E [mk_integer k, b]) (\<lambda>m. merge_terms E rest (cs @ [m])))"
      using less.prems(3) total by (simp add: Cons d run_def rest_def Let_def)
    have b: "wf_expr Q b" "\<not> is_int b"
      using less.prems(1) by (simp_all add: ds)
    have push: "\<exists>ms. merge_terms E rest (cs @ [x]) = ok (cs @ ms) \<and> merged Q ds ms"
      if "denotes Q x (\<lambda>I. k * expr_value I b) (\<bar>k\<bar> * wt b)" "\<not> is_int x" for x
    proof -
      obtain ms where "merge_terms E rest (cs @ [x]) = ok ((cs @ [x]) @ ms)" "merged Q rest ms"
        using IH [of "cs @ [x]"] by auto
      then show ?thesis
        using step(2) [of Q rest ms x] that by (intro exI [of _ "x # ms"]) (simp add: ds)
    qed
    consider "k = 0" | "k = 1" | "k \<noteq> 0" "k \<noteq> 1"
      by blast
    then show ?thesis
    proof cases
      case 1
      then show ?thesis
        using IH [of cs] step(1) [of Q rest] by (auto simp: unfold) (auto simp: ds)
    next
      case 2
      then show ?thesis
        using push [of b] b by (simp add: unfold denotes_def)
    next
      case 3
      then obtain m where "mul_n E [mk_integer k, b] = ok m" "denotes Q m (\<lambda>I. k * expr_value I b) (\<bar>k\<bar> * wt b)" "\<not> is_int m"
        using scaled_base [OF b, of k E] order.trans [OF le bound(1)] by auto
      then show ?thesis
        using 3 push [of m] by (simp add: unfold)
    qed
  qed
qed


section \<open>Sums\<close>

lemma terms_sort [simp]: "terms_value I (sort_key f ds) = terms_value I ds" "terms_wt (sort_key f ds) = terms_wt ds"
  using fold_op_sort [of Op_ADD "\<lambda>d. fst d * expr_value I (snd d)" f ds] fold_op_sort [of Op_ADD "\<lambda>d. \<bar>fst d\<bar> * wt (snd d)" f ds]
  by (simp_all add: fold_op_def terms_value_def terms_wt_def)

lemma decomposed_sums:
  assumes "\<forall>t \<in> set ts. wf_expr Q t \<and> \<not> is_int t"
  shows "terms_value I (map (\<lambda>t. (term_coeff t, term_base t)) ts) = (\<Sum>t\<leftarrow>ts. expr_value I t)"
    and "terms_wt (map (\<lambda>t. (term_coeff t, term_base t)) ts) \<le> (\<Sum>t\<leftarrow>ts. wt t)"
  using assms
proof (induction ts)
  case (Cons t ts)
  {
    case 1
    then show ?case
      using Cons term_split(3) [of Q t I] by simp
  next
    case 2
    then show ?case
      using Cons term_split(4) [of Q t] by (simp add: add_mono)
  }
qed simp_all

text \<open>What the two loops of \<^const>\<open>add_n\<close> leave.\<close>

lemma add_collected:
  assumes len: "length xs \<le> kMaxArgs" and wf: "\<forall>x \<in> set xs. wf_expr Q x" and bound: "(\<Sum>x\<leftarrow>xs. wt x) \<le> i64_max"
  obtains ts c where "collect_terms Op_ADD sadd xs ([], 0) = ok (ts, c)" "length ts \<le> kMaxArgs" "\<bar>c\<bar> \<le> i64_max"
    and "\<forall>t \<in> set ts. wf_expr Q t \<and> \<not> is_int t" "\<And>I. (\<Sum>x\<leftarrow>xs. expr_value I x) = c + (\<Sum>t\<leftarrow>ts. expr_value I t)"
    and "\<bar>c\<bar> + (\<Sum>t\<leftarrow>ts. wt t) \<le> (\<Sum>x\<leftarrow>xs. wt x)"
proof
  define fl where "fl = flatten Op_ADD 0 xs"
  define ts where "ts = nonints fl"
  define c where "c = sum_list (ints fl)"
  have wts: "(\<Sum>x\<leftarrow>xs. wt x) = (\<Sum>p\<leftarrow>ints fl. max 1 \<bar>p\<bar>) + (\<Sum>t\<leftarrow>ts. wt t)"
    using flatten_fold_op(2) [of Op_ADD xs Q 0] wf wt_sum_split [of fl]
    by (simp add: fold_op_def fl_def [symmetric] ts_def)
  have ts0: "0 \<le> (\<Sum>t\<leftarrow>ts. wt t)"
    by (intro sum_list_nonneg) (auto intro: order.trans [OF _ wt_pos])
  have "(\<Sum>p\<leftarrow>ints fl. \<bar>p\<bar>) \<le> i64_max"
    using abs_le_sum_max [of "ints fl"] ts0 wts bound by linarith
  then have c: "foldl sadd 0 (ints fl) = c"
    using foldl_sadd [of 0 "ints fl"] by (simp add: c_def)
  show "\<bar>c\<bar> + (\<Sum>t\<leftarrow>ts. wt t) \<le> (\<Sum>x\<leftarrow>xs. wt x)"
    using abs_sum_le [of "ints fl"] by (simp add: wts c_def)
  then show "\<bar>c\<bar> \<le> i64_max"
    using bound ts0 by linarith
  show "\<forall>t \<in> set ts. wf_expr Q t \<and> \<not> is_int t"
    using flatten_wf [OF wf] by (auto simp: ts_def fl_def)
  show "(\<Sum>x\<leftarrow>xs. expr_value I x) = c + (\<Sum>t\<leftarrow>ts. expr_value I t)" for I
    using flatten_fold_op(1) [of Op_ADD xs Q I 0] wf value_sum_split [of I fl]
    by (simp add: fold_op_def fl_def [symmetric] ts_def c_def)
  show "length ts \<le> kMaxArgs" "collect_terms Op_ADD sadd xs ([], 0) = ok (ts, c)"
    using collect_terms_eq [of Op_ADD "[]" xs sadd 0] len c by (auto simp: fl_def ts_def)
qed

text \<open>The end of \<^const>\<open>add_n\<close>: the merged terms and the constant.\<close>

lemma finish_sum:
  assumes ms: "length ms \<le> kMaxArgs" "\<forall>m \<in> set ms. wf_expr Q m \<and> \<not> is_int m" and c: "\<bar>c\<bar> \<le> i64_max"
    and b: "1 \<le> b" "\<bar>c\<bar> + (\<Sum>m\<leftarrow>ms. wt m) \<le> b"
  shows "\<exists>r. (if c \<noteq> 0 \<or> length ms = 0 then reattach E Op_ADD ms c else intern_sorted E Op_ADD ms) = ok r \<and>
    denotes Q r (\<lambda>I. c + (\<Sum>m\<leftarrow>ms. expr_value I m)) b"
proof (cases "c \<noteq> 0 \<or> ms = []")
  case True
  then obtain r where r: "reattach E Op_ADD ms c = ok r"
      "denotes Q r (\<lambda>I. (\<Sum>m\<leftarrow>ms. expr_value I m) + c) ((\<Sum>m\<leftarrow>ms. wt m) + max 1 \<bar>c\<bar>)"
    using reattach_denotes [of Op_ADD ms Q c E] ms fits_abs [OF c] by (auto simp: fold_op_def)
  moreover have "(\<Sum>m\<leftarrow>ms. wt m) + max 1 \<bar>c\<bar> \<le> b"
    using True b by (cases "c = 0") auto
  ultimately show ?thesis
    using True denotes_le by (force simp: add.commute)
next
  case False
  then show ?thesis
    using intern_sorted_denotes [of Op_ADD ms Q E] ms b by (auto simp: fold_op_def denotes_def)
qed

lemma add_n_denotes:
  assumes ne: "xs \<noteq> []" and len: "length xs \<le> kMaxArgs" and wf: "\<forall>x \<in> set xs. wf_expr Q x"
    and bound: "(\<Sum>x\<leftarrow>xs. wt x) \<le> i64_max"
  shows "\<exists>r. add_n E xs = ok r \<and> denotes Q r (\<lambda>I. \<Sum>x\<leftarrow>xs. expr_value I x) (\<Sum>x\<leftarrow>xs. wt x)"
proof -
  obtain ts c where run: "collect_terms Op_ADD sadd xs ([], 0) = ok (ts, c)" and tslen: "length ts \<le> kMaxArgs"
    and c: "\<bar>c\<bar> \<le> i64_max" and tswf: "\<forall>t \<in> set ts. wf_expr Q t \<and> \<not> is_int t"
    and vals: "\<And>I. (\<Sum>x\<leftarrow>xs. expr_value I x) = c + (\<Sum>t\<leftarrow>ts. expr_value I t)"
    and le: "\<bar>c\<bar> + (\<Sum>t\<leftarrow>ts. wt t) \<le> (\<Sum>x\<leftarrow>xs. wt x)"
    using add_collected [OF len wf bound] by blast
  define ds where "ds = map (\<lambda>t. (term_coeff t, term_base t)) ts"
  have one: "1 \<le> (\<Sum>x\<leftarrow>xs. wt x)"
    by (rule sum_wt_ge [OF ne])
  show ?thesis
  proof (cases "ts = []")
    case True
    then show ?thesis
      using run len vals le one c by (auto simp: add_n_def denotes_def fits_abs)
  next
    case False
    have dec: "decompose_terms ts c [] = ok (c, ds)"
      using decompose_terms_eq [of ts Q "[]" c] tswf tslen by (simp add: ds_def)
    have dswf: "\<forall>d \<in> set ds. wf_expr Q (snd d) \<and> \<not> is_int (snd d)"
      using tswf term_split(1,2) by (auto simp: ds_def)
    have dswt: "terms_wt ds \<le> (\<Sum>t\<leftarrow>ts. wt t)"
      using decomposed_sums(2) [OF tswf] by (simp add: ds_def)
    have "terms_wt ds \<le> i64_max"
      using dswt le bound by linarith
    then obtain ms where ms: "merge_terms E (sort_key (addr E \<circ> snd) ds) [] = ok ms" "merged Q (sort_key (addr E \<circ> snd) ds) ms"
      using merge_terms_merged [of "sort_key (addr E \<circ> snd) ds" Q "[]" E] dswf tslen by (auto simp: ds_def)
    have "length ms \<le> kMaxArgs" "\<forall>m \<in> set ms. wf_expr Q m \<and> \<not> is_int m" "\<bar>c\<bar> + (\<Sum>m\<leftarrow>ms. wt m) \<le> (\<Sum>x\<leftarrow>xs. wt x)"
      and msv: "\<And>I. (\<Sum>m\<leftarrow>ms. expr_value I m) = (\<Sum>t\<leftarrow>ts. expr_value I t)"
      using ms(2) tslen dswt le decomposed_sums(1) [OF tswf] by (auto simp: merged_def ds_def)
    then show ?thesis
      using finish_sum [of ms Q c "\<Sum>x\<leftarrow>xs. wt x" E] one c False
      by (simp add: add_n_def run len dec ms(1) vals msv)
  qed
qed

lemma expr_add_denotes:
  assumes wf: "wf_expr Q a" "wf_expr Q b" and bound: "wt a + wt b \<le> i64_max"
  shows "\<exists>r. expr_add E a b = ok r \<and> denotes Q r (\<lambda>I. expr_value I a + expr_value I b) (wt a + wt b)"
proof -
  consider "e_op a \<notin> {Op_ADD, Op_MUL, Op_INTEGER, Op_FLOAT} \<and> e_op b \<notin> {Op_ADD, Op_MUL, Op_INTEGER, Op_FLOAT}"
    | "is_int a" "is_int b"
    | "\<not> (is_int a \<and> is_int b)" "e_op a \<in> {Op_ADD, Op_MUL, Op_INTEGER, Op_FLOAT} \<or> e_op b \<in> {Op_ADD, Op_MUL, Op_INTEGER, Op_FLOAT}"
    by blast
  then show ?thesis
  proof cases
    case 1
    show ?thesis
    proof (cases "a = b")
      case True
      have "fits_i64 2"
        by (simp add: fits_i64_def i64_min_def i64_max_def)
      then have "\<exists>r. expr_mul E (mk_integer 2) a = ok r \<and> denotes Q r (\<lambda>I. 2 * expr_value I a) (2 * wt a)"
        using expr_mul_denotes [of Q "mk_integer 2" a E] wf bound True by simp
      then show ?thesis
        using 1 unfolding mult_2 True by (simp add: expr_add_def)
    next
      case False
      then show ?thesis
        using 1 wf wf_pair [of Op_ADD Q a b _ E] by (simp add: expr_add_def is_int_def Let_def)
    qed
  next
    case 2
    then have "\<bar>e_payload a + e_payload b\<bar> \<le> i64_max" "max 1 \<bar>e_payload a + e_payload b\<bar> \<le> wt a + wt b"
      using bound by (auto simp: wt_int)
    then show ?thesis
      using 2 by (auto simp: expr_add_def is_int_def denotes_def sadd_def fits_abs value_int)
  next
    case 3
    have "0 \<le> wt a" "0 \<le> wt b"
      by (auto intro: order.trans [OF _ wt_pos])
    then show ?thesis
      using 3 wf_no_float [OF wf(1)] wf_no_float [OF wf(2)] wf bound add_n_denotes [of "[a, b]" Q E]
      by (auto simp: expr_add_def denotes_def is_zero_int_def value_int kMaxArgs_def)
  qed
qed

lemma expr_neg_denotes:
  assumes wf: "wf_expr Q a" and bound: "wt a \<le> i64_max"
  shows "\<exists>r. expr_neg E a = ok r \<and> denotes Q r (\<lambda>I. - expr_value I a) (wt a)"
proof (cases "is_int a")
  case True
  then have "\<bar>0 - e_payload a\<bar> \<le> i64_max" "max 1 \<bar>0 - e_payload a\<bar> = wt a"
    using bound by (simp_all add: wt_int)
  then show ?thesis
    using True by (simp add: expr_neg_def denotes_def ssub_def fits_abs value_int)
next
  case False
  have "fits_i64 (- 1)"
    by (simp add: fits_i64_def i64_min_def i64_max_def)
  then show ?thesis
    using False expr_mul_denotes [of Q "mk_integer (- 1)" a E] wf_no_float [OF wf] wf bound
    by (simp add: expr_neg_def)
qed

lemma smul_power:
  "\<bar>b\<bar> ^ n \<le> i64_max \<Longrightarrow> ((\<lambda>acc. smul acc b) ^^ n) 1 = b ^ n"
proof (induction n)
  case (Suc n)
  show ?case
  proof (cases "b = 0")
    case True
    then show ?thesis
      by (simp add: smul_def sat_i64_def i64_min_def i64_max_def)
  next
    case False
    then have "\<bar>b\<bar> ^ n \<le> \<bar>b\<bar> ^ Suc n"
      by (intro power_increasing) auto
    then have "((\<lambda>acc. smul acc b) ^^ n) 1 = b ^ n"
      using Suc by linarith
    then show ?thesis
      using Suc.prems by (simp add: smul_def power_abs [symmetric] abs_mult mult.commute)
  qed
qed simp

lemma expr_pow_value:
  assumes "is_int a \<Longrightarrow> is_int b \<Longrightarrow> \<bar>e_payload a\<bar> ^ nat (e_payload b) \<le> i64_max" and "expr_value I b \<ge> 0"
  shows "expr_value I (expr_pow a b) = expr_value I a ^ nat (expr_value I b)"
  using assms smul_power [of "e_payload a" "nat (e_payload b)"]
  by (auto simp: expr_pow_def is_zero_int_def is_one_def value_int value_node op_meaning_def)

end
