(* ===== verification/Expr_Logic.thy ===== *)
theory Expr_Logic
  imports Expr_Pool_Correct
begin

text \<open>
  Comparisons, connectives, conditionals and extrema of the expression pool.  A connective, a minimum and a
  maximum are each a conjunction of one predicate over the operands (holding, failing, being at least, being
  at most), so one argument about flattening covers all four.
\<close>

section \<open>Comparisons and conditionals\<close>

lemmas node_value = value_node op_meaning_def truth_def

lemma relations_value:
  "expr_value I (expr_eq E a b) = truth (expr_value I a = expr_value I b)"
  "expr_value I (expr_ne E a b) = truth (expr_value I a \<noteq> expr_value I b)"
  "expr_value I (expr_lt a b) = truth (expr_value I a < expr_value I b)"
  "expr_value I (expr_le a b) = truth (expr_value I a \<le> expr_value I b)"
  "expr_value I (expr_gt a b) = truth (expr_value I a > expr_value I b)"
  "expr_value I (expr_ge a b) = truth (expr_value I a \<ge> expr_value I b)"
  unfolding expr_eq_def expr_ne_def expr_lt_def expr_le_def expr_gt_def expr_ge_def addr_pair_def
  by (auto simp: node_value value_int)

lemma where_value: "expr_value I (expr_where c a b) = (if expr_value I c \<noteq> 0 then expr_value I a else expr_value I b)"
  unfolding expr_where_def by (auto simp: node_value)

lemma not_holds:
  assumes "wf_expr Q e"
  shows "expr_value I (expr_not e) \<noteq> 0 \<longleftrightarrow> expr_value I e = 0"
proof (cases "e_op e = Op_NOT")
  case True
  then have "length (e_args e) = 1"
    using wf_node [OF assms] by (simp add: node_ok_def)
  then obtain x where "e_args e = [x]"
    by (auto simp: length_Suc_conv)
  then show ?thesis
    using True by (cases e) (auto simp: expr_not_def node_value mk_true_def mk_false_def)
next
  case False
  then show ?thesis
    by (auto simp: expr_not_def node_value)
qed


section \<open>Conjunctive operations\<close>

text \<open>A node of the operation satisfies \<^verbatim>\<open>P\<close> when all its children do.\<close>

definition conjunctive :: "(expr \<Rightarrow> bool) \<Rightarrow> expr_op \<Rightarrow> (expr \<Rightarrow> bool) \<Rightarrow> bool" where
  "conjunctive Q opr P \<longleftrightarrow> (\<forall>x. wf_expr Q x \<and> e_op x = opr \<longrightarrow> P x = (\<forall>a \<in> set (e_args x). P a))"

text \<open>The result of a loop: it stands for the operands, is made of them and their children, and fits.\<close>

definition stands_for :: "(expr \<Rightarrow> bool) \<Rightarrow> (expr \<Rightarrow> bool) \<Rightarrow> expr list \<Rightarrow> expr list \<Rightarrow> bool" where
  "stands_for Q P us xs \<longleftrightarrow> ((\<forall>u \<in> set us. P u) \<longleftrightarrow> (\<forall>x \<in> set xs. P x)) \<and> (\<forall>u \<in> set us. wf_expr Q u)"

lemma conjunctive_node: "conjunctive Q opr P \<Longrightarrow> wf_expr Q (mk_node opr fl us) \<Longrightarrow> P (mk_node opr fl us) \<longleftrightarrow> (\<forall>u \<in> set us. P u)"
  unfolding conjunctive_def by (metis expr.sel(1) expr.sel(5) mk_node_def)

definition absorbed :: "(expr \<Rightarrow> bool) \<Rightarrow> (expr \<Rightarrow> bool) \<Rightarrow> nat \<Rightarrow> expr list \<Rightarrow> expr list \<Rightarrow> expr list option \<Rightarrow> bool" where
  "absorbed Q P n ts xs r \<longleftrightarrow>
    (case r of None \<Rightarrow> \<not> (\<forall>x \<in> set xs. P x)
     | Some us \<Rightarrow> \<exists>vs. us = ts @ vs \<and> length us + n \<le> kMaxArgs \<and> stands_for Q P vs xs)"

lemma logic_args_absorbed:
  assumes "\<not> P ab" "P ne" "\<forall>a \<in> set as. wf_expr Q a" "length ts + length as + n \<le> kMaxArgs"
  shows "\<exists>r. logic_args ab ne as ts = ok r \<and> absorbed Q P n ts as r"
  using assms(3,4)
proof (induction as arbitrary: ts)
  case Nil
  then show ?case
    by (simp add: absorbed_def stands_for_def)
next
  case (Cons a as)
  show ?case
  proof (cases "a = ab \<or> a = ne")
    case True
    then show ?thesis
      using Cons.IH [of ts] Cons.prems assms(1,2) by (auto simp: absorbed_def stands_for_def split: option.splits)
  next
    case False
    obtain r where r: "logic_args ab ne as (ts @ [a]) = ok r" "absorbed Q P n (ts @ [a]) as r"
      using Cons.IH [of "ts @ [a]"] Cons.prems by auto
    have "absorbed Q P n ts (a # as) r"
      using r(2) Cons.prems by (auto simp: absorbed_def stands_for_def split: option.splits)
    then show ?thesis
      using False r(1) Cons.prems by auto
  qed
qed

lemma absorbed_append:
  assumes "absorbed Q P n ts as (Some ts')" "absorbed Q P 0 ts' xs r" "P x = (\<forall>a \<in> set as. P a)"
  shows "absorbed Q P 0 ts (x # xs) r"
  using assms by (auto simp: absorbed_def stands_for_def split: option.splits)

lemma logic_terms_absorbed:
  assumes P: "\<not> P ab" "P ne" "conjunctive Q opr P" and "\<forall>x \<in> set xs. wf_expr Q x" "length ts + length xs \<le> kMaxArgs"
  shows "\<exists>r. logic_terms opr ab ne xs ts = ok r \<and> absorbed Q P 0 ts xs r"
  using assms(4,5)
proof (induction xs arbitrary: ts)
  case Nil
  then show ?case
    by (simp add: absorbed_def stands_for_def)
next
  case (Cons x xs)
  consider "x = ab" | "x \<noteq> ab" "x = ne"
    | "x \<noteq> ab" "x \<noteq> ne" "e_op x = opr" "length ts + length (e_args x) + length xs \<le> kMaxArgs"
    | "x \<noteq> ab" "x \<noteq> ne" "\<not> (e_op x = opr \<and> length ts + length (e_args x) + length xs \<le> kMaxArgs)"
    by blast
  then show ?case
  proof cases
    case 1
    then show ?thesis
      using P(1) by (simp add: absorbed_def)
  next
    case 2
    obtain r where "logic_terms opr ab ne xs ts = ok r" "absorbed Q P 0 ts xs r"
      using Cons.IH [of ts] Cons.prems by auto
    then show ?thesis
      using 2 P(2) by (auto simp: absorbed_def stands_for_def split: option.splits)
  next
    case 3
    have wf: "wf_expr Q x" "\<forall>a \<in> set (e_args x). wf_expr Q a"
      using Cons.prems(1) wf_arg by auto
    have Px: "P x = (\<forall>a \<in> set (e_args x). P a)"
      using P(3) wf(1) 3 by (auto simp: conjunctive_def)
    obtain r where r: "logic_args ab ne (e_args x) ts = ok r" "absorbed Q P (length xs) ts (e_args x) r"
      using logic_args_absorbed [OF P(1,2) wf(2)] 3 by blast
    show ?thesis
    proof (cases r)
      case None
      then show ?thesis
        using r 3 Px by (simp add: absorbed_def)
    next
      case (Some ts')
      then have "length ts' + length xs \<le> kMaxArgs"
        using r(2) by (auto simp: absorbed_def)
      then obtain r' where "logic_terms opr ab ne xs ts' = ok r'" "absorbed Q P 0 ts' xs r'"
        using Cons.IH [of ts'] Cons.prems(1) by auto
      then show ?thesis
        using r 3 Some absorbed_append [OF _ _ Px] by auto
    qed
  next
    case 4
    obtain r where r: "logic_terms opr ab ne xs (ts @ [x]) = ok r" "absorbed Q P 0 (ts @ [x]) xs r"
      using Cons.IH [of "ts @ [x]"] Cons.prems by auto
    have "absorbed Q P 0 ts (x # xs) r"
      using r(2) Cons.prems by (auto simp: absorbed_def stands_for_def split: option.splits)
    then show ?thesis
      using 4 r(1) Cons.prems by auto
  qed
qed

lemma wf_flat_node:
  assumes "opr \<in> {Op_AND, Op_OR, Op_MIN, Op_MAX}" "us \<noteq> []" "length us \<le> kMaxArgs" "\<forall>u \<in> set us. wf_expr Q u"
  shows "wf_expr Q (mk_node opr fl us)"
  using assms unfolding wf_expr_iff [of Q "mk_node opr fl us"] by (auto simp: node_ok_def mk_node_def is_int_def)

lemma logic_n_sound:
  assumes P: "\<not> P ab" "P ne" "conjunctive Q opr P" and opr: "opr \<in> {Op_AND, Op_OR}" and wf: "wf_expr Q ab" "wf_expr Q ne"
    and xs: "\<forall>x \<in> set xs. wf_expr Q x" "length xs \<le> kMaxArgs"
  shows "\<exists>r. logic_n E opr ab ne xs = ok r \<and> wf_expr Q r \<and> (P r \<longleftrightarrow> (\<forall>x \<in> set xs. P x))"
proof -
  obtain r where r: "logic_terms opr ab ne xs [] = ok r" "absorbed Q P 0 [] xs r"
    using logic_terms_absorbed [OF P xs(1), of "[]"] xs(2) by auto
  show ?thesis
  proof (cases r)
    case None
    then show ?thesis
      using r P wf xs(2) by (simp add: logic_n_def absorbed_def)
  next
    case (Some us)
    then have us: "length us \<le> kMaxArgs" "(\<forall>u \<in> set us. P u) \<longleftrightarrow> (\<forall>x \<in> set xs. P x)" "\<forall>u \<in> set us. wf_expr Q u"
      using r(2) by (auto simp: absorbed_def stands_for_def)
    consider "us = []" | u where "us = [u]" | "length us \<noteq> 0" "length us \<noteq> 1"
      by (cases us; cases "tl us") auto
    then show ?thesis
    proof cases
      case 3
      define ss where "ss = sort_key (addr E) us"
      have ss: "set ss = set us" "length ss = length us"
        by (simp_all add: ss_def)
      have wf: "wf_expr Q (mk_node opr fl ss)" for fl
        using opr us 3 ss by (intro wf_flat_node) auto
      show ?thesis
        using r(1) Some 3 us xs(2) wf conjunctive_node [OF P(3) wf] ss(1) by (simp add: logic_n_def ss_def [symmetric])
    qed (use r(1) Some us P wf xs(2) in \<open>auto simp: logic_n_def\<close>)
  qed
qed


section \<open>Connectives\<close>

lemma conjunctive_and: "conjunctive Q Op_AND (\<lambda>e. expr_value I e \<noteq> 0)"
proof -
  have "expr_value I x \<noteq> 0 \<longleftrightarrow> (\<forall>a \<in> set (e_args x). expr_value I a \<noteq> 0)" if "e_op x = Op_AND" for x
    using that by (cases x) (simp add: op_meaning_def truth_def)
  then show ?thesis
    by (simp add: conjunctive_def)
qed

lemma conjunctive_or: "conjunctive Q Op_OR (\<lambda>e. expr_value I e = 0)"
proof -
  have "expr_value I x = 0 \<longleftrightarrow> (\<forall>a \<in> set (e_args x). expr_value I a = 0)" if "e_op x = Op_OR" for x
    using that by (cases x) (simp add: op_meaning_def truth_def)
  then show ?thesis
    by (simp add: conjunctive_def)
qed

lemma wf_bools [simp]: "wf_expr Q mk_true" "wf_expr Q mk_false"
  by (simp_all add: mk_true_def mk_false_def node_ok_def is_int_def kMaxArgs_def)

lemma and_n_sound:
  assumes "\<forall>x \<in> set xs. wf_expr Q x" "length xs \<le> kMaxArgs"
  shows "\<exists>r. and_n E xs = ok r \<and> wf_expr Q r \<and> (expr_value I r \<noteq> 0 \<longleftrightarrow> (\<forall>x \<in> set xs. expr_value I x \<noteq> 0))"
  unfolding and_n_def using assms by (intro logic_n_sound [OF _ _ conjunctive_and]) auto

lemma or_n_sound:
  assumes "\<forall>x \<in> set xs. wf_expr Q x" "length xs \<le> kMaxArgs"
  shows "\<exists>r. or_n E xs = ok r \<and> wf_expr Q r \<and> (expr_value I r = 0 \<longleftrightarrow> (\<forall>x \<in> set xs. expr_value I x = 0))"
  unfolding or_n_def using assms by (intro logic_n_sound [OF _ _ conjunctive_or]) auto

lemma expr_and_sound:
  assumes "wf_expr Q a" "wf_expr Q b"
  shows "\<exists>r. expr_and E a b = ok r \<and> wf_expr Q r \<and> (expr_value I r \<noteq> 0 \<longleftrightarrow> expr_value I a \<noteq> 0 \<and> expr_value I b \<noteq> 0)"
  using assms and_n_sound [of "[a, b]" Q E I] by (auto simp: expr_and_def kMaxArgs_def)

lemma expr_or_sound:
  assumes "wf_expr Q a" "wf_expr Q b"
  shows "\<exists>r. expr_or E a b = ok r \<and> wf_expr Q r \<and> (expr_value I r \<noteq> 0 \<longleftrightarrow> expr_value I a \<noteq> 0 \<or> expr_value I b \<noteq> 0)"
  using assms or_n_sound [of "[a, b]" Q E I] by (auto simp: expr_or_def kMaxArgs_def)


section \<open>Extrema\<close>

lemma conjunctive_extrema:
  "conjunctive Q Op_MIN (\<lambda>e. m \<le> expr_value I e)" "conjunctive Q Op_MAX (\<lambda>e. expr_value I e \<le> m)"
proof -
  have args: "e_args x \<noteq> []" if "wf_expr Q x" "e_op x \<in> {Op_MIN, Op_MAX}" for x
    using wf_node [OF that(1)] that(2) by (auto simp: node_ok_def)
  have "m \<le> expr_value I x \<longleftrightarrow> (\<forall>a \<in> set (e_args x). m \<le> expr_value I a)" if "wf_expr Q x" "e_op x = Op_MIN" for x
    using args [OF that(1)] that(2) by (cases x) (auto simp: op_meaning_def)
  then show "conjunctive Q Op_MIN (\<lambda>e. m \<le> expr_value I e)"
    by (simp add: conjunctive_def)
  have "expr_value I x \<le> m \<longleftrightarrow> (\<forall>a \<in> set (e_args x). expr_value I a \<le> m)" if "wf_expr Q x" "e_op x = Op_MAX" for x
    using args [OF that(1)] that(2) by (cases x) (auto simp: op_meaning_def)
  then show "conjunctive Q Op_MAX (\<lambda>e. expr_value I e \<le> m)"
    by (simp add: conjunctive_def)
qed

lemma extrema_terms_stand:
  assumes P: "conjunctive Q opr P" "opr \<in> {Op_MIN, Op_MAX}" and "\<forall>x \<in> set xs. wf_expr Q x" "length ts + length xs \<le> kMaxArgs"
  shows "\<exists>us. extrema_terms opr xs ts = ok (ts @ us) \<and> length ts + length us \<le> kMaxArgs \<and> stands_for Q P us xs \<and> (xs \<noteq> [] \<longrightarrow> us \<noteq> [])"
  using assms(3,4)
proof (induction xs arbitrary: ts)
  case (Cons x xs)
  have wf: "wf_expr Q x" "\<forall>a \<in> set (e_args x). wf_expr Q a"
    using Cons.prems(1) wf_arg by auto
  show ?case
  proof (cases "e_op x = opr \<and> length ts + length (e_args x) + length xs \<le> kMaxArgs")
    case True
    then obtain us where "extrema_terms opr xs (ts @ e_args x) = ok ((ts @ e_args x) @ us)"
      "length (ts @ e_args x) + length us \<le> kMaxArgs" "stands_for Q P us xs"
      using Cons.IH [of "ts @ e_args x"] Cons.prems by auto
    moreover have "P x = (\<forall>a \<in> set (e_args x). P a)" "e_args x \<noteq> []"
      using P wf(1) True wf_node [OF wf(1)] by (auto simp: conjunctive_def node_ok_def)
    ultimately show ?thesis
      using True wf by (intro exI [of _ "e_args x @ us"]) (auto simp: stands_for_def)
  next
    case False
    then obtain us where "extrema_terms opr xs (ts @ [x]) = ok ((ts @ [x]) @ us)"
      "length (ts @ [x]) + length us \<le> kMaxArgs" "stands_for Q P us xs"
      using Cons.IH [of "ts @ [x]"] Cons.prems by auto
    then show ?thesis
      using False wf Cons.prems by (intro exI [of _ "x # us"]) (auto simp: stands_for_def)
  qed
qed (simp add: stands_for_def)

lemma extrema_n_sound:
  assumes P: "conjunctive Q opr P" "opr \<in> {Op_MIN, Op_MAX}" and xs: "xs \<noteq> []" "\<forall>x \<in> set xs. wf_expr Q x" "length xs \<le> kMaxArgs"
  shows "\<exists>r. extrema_n E opr xs = ok r \<and> wf_expr Q r \<and> (P r \<longleftrightarrow> (\<forall>x \<in> set xs. P x))"
proof -
  obtain ts where ts: "extrema_terms opr xs [] = ok ts" "length ts \<le> kMaxArgs" "stands_for Q P ts xs" "ts \<noteq> []"
    using extrema_terms_stand [OF P xs(2), of "[]"] xs by auto
  define us where "us = remdups_adj (sort_key (addr E) ts)"
  have "set us = set ts" "length us \<le> kMaxArgs"
    using ts(2) remdups_adj_length [of "sort_key (addr E) ts"] by (simp_all add: us_def)
  moreover have "us \<noteq> []"
    using ts(4) calculation(1) by auto
  ultimately have us: "set us = set ts" "length us \<le> kMaxArgs" "us \<noteq> []" .
  have run: "extrema_n E opr xs = (if length us = 1 then ok (us ! 0) else ok (mk_node opr (composite_flags opr us) us))"
    using ts(1) xs us(2) by (simp add: extrema_n_def us_def Let_def)
  have stand: "(\<forall>u \<in> set us. P u) \<longleftrightarrow> (\<forall>x \<in> set xs. P x)" "\<forall>u \<in> set us. wf_expr Q u"
    using ts(3) us(1) by (simp_all add: stands_for_def)
  show ?thesis
  proof (cases "length us = 1")
    case True
    then obtain u where "us = [u]"
      by (auto simp: length_Suc_conv)
    then show ?thesis
      using stand run by simp
  next
    case False
    have wf: "wf_expr Q (mk_node opr fl us)" for fl
      using P(2) us stand by (intro wf_flat_node) auto
    then show ?thesis
      using False run stand conjunctive_node [OF P(1) wf] by simp
  qed
qed

lemma min_n_value:
  assumes xs: "xs \<noteq> []" "\<forall>x \<in> set xs. wf_expr Q x" "length xs \<le> kMaxArgs"
  shows "\<exists>r. min_n E xs = ok r \<and> wf_expr Q r \<and> expr_value I r = Min (expr_value I ` set xs)"
proof -
  obtain r where r: "min_n E xs = ok r" "wf_expr Q r"
    using extrema_n_sound [OF conjunctive_extrema(1) [of Q 0 I] _ xs, of E] by (auto simp: min_n_def)
  have "m \<le> expr_value I r \<longleftrightarrow> (\<forall>x \<in> set xs. m \<le> expr_value I x)" for m
    using extrema_n_sound [OF conjunctive_extrema(1) [of Q m I] _ xs, of E] r(1) by (auto simp: min_n_def)
  then have "m \<le> expr_value I r \<longleftrightarrow> m \<le> Min (expr_value I ` set xs)" for m
    using xs(1) by simp
  then show ?thesis
    using r by (metis order.antisym order.refl)
qed

lemma max_n_value:
  assumes xs: "xs \<noteq> []" "\<forall>x \<in> set xs. wf_expr Q x" "length xs \<le> kMaxArgs"
  shows "\<exists>r. max_n E xs = ok r \<and> wf_expr Q r \<and> expr_value I r = Max (expr_value I ` set xs)"
proof -
  obtain r where r: "max_n E xs = ok r" "wf_expr Q r"
    using extrema_n_sound [OF conjunctive_extrema(2) [of Q I 0] _ xs, of E] by (auto simp: max_n_def)
  have "expr_value I r \<le> m \<longleftrightarrow> (\<forall>x \<in> set xs. expr_value I x \<le> m)" for m
    using extrema_n_sound [OF conjunctive_extrema(2) [of Q I m] _ xs, of E] r(1) by (auto simp: max_n_def)
  then have "expr_value I r \<le> m \<longleftrightarrow> Max (expr_value I ` set xs) \<le> m" for m
    using xs(1) by simp
  then show ?thesis
    using r by (metis order.antisym order.refl)
qed

lemma expr_min_max_value:
  assumes "wf_expr Q a" "wf_expr Q b"
  shows "\<exists>r. min_expr E a b = ok r \<and> wf_expr Q r \<and> expr_value I r = min (expr_value I a) (expr_value I b)"
    and "\<exists>r. max_expr E a b = ok r \<and> wf_expr Q r \<and> expr_value I r = max (expr_value I a) (expr_value I b)"
proof -
  have fits: "fits_i64 (e_payload x)" if "wf_expr Q x" "is_int x" for x
    using wf_node [OF that(1)] that(2) by (simp add: node_ok_def)
  have "fits_i64 (min (e_payload a) (e_payload b)) \<and> fits_i64 (max (e_payload a) (e_payload b))" if "is_int a" "is_int b"
    using fits [OF assms(1)] fits [OF assms(2)] that by (auto simp: min_def max_def)
  then show "\<exists>r. min_expr E a b = ok r \<and> wf_expr Q r \<and> expr_value I r = min (expr_value I a) (expr_value I b)"
    "\<exists>r. max_expr E a b = ok r \<and> wf_expr Q r \<and> expr_value I r = max (expr_value I a) (expr_value I b)"
    using assms min_n_value [of "[a, b]" Q E I] max_n_value [of "[a, b]" Q E I]
    by (auto simp: min_expr_def max_expr_def value_int kMaxArgs_def)
qed

end
