(* ===== verification/Expr_Division.thy ===== *)
theory Expr_Division
  imports Expr_Sums Expr_Logic
begin

text \<open>
  The division, remainder and modular-indexing constructors of \<^verbatim>\<open>crucible/ExprPool.h\<close> and the generic factory.
  \<^verbatim>\<open>/\<close> and \<^verbatim>\<open>%\<close> on \<^verbatim>\<open>int64_t\<close> truncate.  \<^verbatim>\<open>floor_div\<close> and \<^verbatim>\<open>modular_indexing\<close> recurse on rewritten operands; they
  are partial functions whose result \<^const>\<open>None\<close> would be a recursion that does not end.
\<close>

section \<open>Integer helpers\<close>

definition is_foldable_division :: "int \<Rightarrow> int \<Rightarrow> bool" where
  "is_foldable_division dividend divisor \<longleftrightarrow> divisor \<noteq> 0 \<and> \<not> (dividend = i64_min \<and> divisor = - 1)"

definition floor_quotient :: "int \<Rightarrow> int \<Rightarrow> int" where
  "floor_quotient dividend divisor =
    (let quotient = dividend sdiv divisor; remainder = dividend smod divisor
     in if remainder \<noteq> 0 \<and> remainder XOR divisor < 0 then quotient - 1 else quotient)"

definition ceil_quotient :: "int \<Rightarrow> int \<Rightarrow> int" where
  "ceil_quotient dividend divisor =
    (let quotient = dividend sdiv divisor; remainder = dividend smod divisor
     in if remainder \<noteq> 0 \<and> remainder XOR divisor > 0 then quotient + 1 else quotient)"

definition python_remainder :: "int \<Rightarrow> int \<Rightarrow> int" where
  "python_remainder dividend divisor =
    (let remainder = dividend smod divisor
     in if remainder \<noteq> 0 \<and> remainder XOR divisor < 0 then sadd remainder divisor else remainder)"

definition safe_abs :: "int \<Rightarrow> int" where
  "safe_abs v = (if v = i64_min then i64_max else if v < 0 then - v else v)"

lemma abs_smod_less: "b \<noteq> 0 \<Longrightarrow> \<bar>a smod b\<bar> < \<bar>b\<bar>" for a b :: int
  by (simp add: signed_modulo_int_def abs_mult sgn_if)

function gcd_loop :: "int \<Rightarrow> int \<Rightarrow> int" where
  "gcd_loop a b = (if b = 0 then a else gcd_loop b (a smod b))"
  by pat_completeness auto
termination
  by (relation "measure (\<lambda>(a, b). nat \<bar>b\<bar>)") (auto simp: abs_smod_less)

declare gcd_loop.simps [simp del]

definition gcd_int :: "int \<Rightarrow> int \<Rightarrow> int" where
  "gcd_int a b = gcd_loop (safe_abs a) (safe_abs b)"

definition integer_coefficient :: "expr \<Rightarrow> int" where
  "integer_coefficient e =
    (if is_int e then e_payload e
     else if e_op e = Op_MUL then (case find is_int (e_args e) of Some a \<Rightarrow> e_payload a | None \<Rightarrow> 1)
     else 1)"

fun factor_loop :: "expr list \<Rightarrow> int \<Rightarrow> int" where
  "factor_loop [] acc = acc"
| "factor_loop (x # xs) acc =
    (let abs_coeff = safe_abs (integer_coefficient x)
     in factor_loop xs (if acc = 0 then abs_coeff else gcd_int acc abs_coeff))"

definition integer_factor :: "expr \<Rightarrow> int" where
  "integer_factor e =
    (if e_op e = Op_ADD then let g = factor_loop (e_args e) 0 in if g = 0 then 1 else g
     else safe_abs (integer_coefficient e))"


section \<open>Dividing coefficients\<close>

fun map_checked :: "('a \<Rightarrow> 'b checked) \<Rightarrow> 'a list \<Rightarrow> 'b list checked" where
  "map_checked f [] = ok []"
| "map_checked f (x # xs) = and_then (f x) (\<lambda>y. and_then (map_checked f xs) (\<lambda>ys. ok (y # ys)))"

lemma map_checked_cong [fundef_cong]:
  "xs = ys \<Longrightarrow> (\<And>x. x \<in> set ys \<Longrightarrow> f x = g x) \<Longrightarrow> map_checked f xs = map_checked g ys"
  by (induction xs arbitrary: ys) auto

lemma size_arg: "a \<in> set (e_args e) \<Longrightarrow> size a < size e"
  by (cases e) (simp add: less_Suc_eq_le size_list_estimation' add_increasing)

text \<open>The rebuilt product has the quotient in the place of the first constant.\<close>

definition divide_product :: "pool_env \<Rightarrow> int \<Rightarrow> expr \<Rightarrow> expr checked" where
  "divide_product E divisor e =
    (let pre = takeWhile (\<lambda>a. \<not> is_int a) (e_args e)
     in case dropWhile (\<lambda>a. \<not> is_int a) (e_args e) of
          [] \<Rightarrow> ok e
        | a # post \<Rightarrow>
            (let new_coeff = e_payload a sdiv divisor
             in if new_coeff = 1 \<and> length (e_args e) = 2 then ok (e_args e ! (1 - length pre))
                else if \<not> length (e_args e) \<le> kMaxArgs then fail Fatal_invariant
                else mul_n E (pre @ mk_integer new_coeff # post)))"

function divide_coefficients :: "pool_env \<Rightarrow> int \<Rightarrow> expr \<Rightarrow> expr checked" where
  "divide_coefficients E divisor e =
    (if divisor \<le> 1 then ok e
     else if is_int e then ok (mk_integer (e_payload e sdiv divisor))
     else if e_op e = Op_MUL then divide_product E divisor e
     else if e_op e = Op_ADD then
       (if \<not> length (e_args e) \<le> kMaxArgs then fail Fatal_invariant
        else and_then (map_checked (divide_coefficients E divisor) (e_args e)) (add_n E))
     else ok e)"
  by pat_completeness auto
termination
  by (relation "measure (\<lambda>(E, d, e). size e)") (auto simp: size_arg)

declare divide_coefficients.simps [simp del]


section \<open>Floor division\<close>

text \<open>The split of the terms of a sum by a constant divisor.\<close>

fun extract_terms :: "pool_env \<Rightarrow> int \<Rightarrow> expr list \<Rightarrow> expr list \<Rightarrow> expr list \<Rightarrow> (expr list \<times> expr list) checked" where
  "extract_terms E divisor [] qs rs = ok (qs, rs)"
| "extract_terms E divisor (x # xs) qs rs =
    (let coeff = integer_coefficient x
     in if \<not> (length qs < kMaxArgs \<and> length rs < kMaxArgs) then fail Fatal_invariant
        else if coeff \<noteq> 0 \<and> is_foldable_division coeff divisor \<and> coeff smod divisor = 0
        then and_then (divide_coefficients E divisor x) (\<lambda>q. extract_terms E divisor xs (qs @ [q]) rs)
        else extract_terms E divisor xs qs (rs @ [x]))"

definition sum_or_single :: "pool_env \<Rightarrow> expr list \<Rightarrow> expr checked" where
  "sum_or_single E ts = (if length ts = 1 then ok (ts ! 0) else add_n E ts)"

definition merged_division :: "pool_env \<Rightarrow> expr \<Rightarrow> expr \<Rightarrow> (expr \<times> expr) checked" where
  "merged_division E e d =
    and_then (expr_arg 0 e) (\<lambda>x. and_then (expr_arg 1 e) (\<lambda>c. and_then (expr_mul E c d) (\<lambda>m. ok (x, m))))"

definition cancelled :: "pool_env \<Rightarrow> int \<Rightarrow> expr \<Rightarrow> expr \<Rightarrow> (expr \<times> expr) checked" where
  "cancelled E g lhs rhs =
    and_then (divide_coefficients E g lhs) (\<lambda>l. and_then (divide_coefficients E g rhs) (\<lambda>r. ok (l, r)))"

partial_function (option) floor_div :: "pool_env \<Rightarrow> expr \<Rightarrow> expr \<Rightarrow> expr checked option" where
  [code]: "floor_div E lhs rhs =
    (if is_int lhs \<and> is_int rhs \<and> is_foldable_division (e_payload lhs) (e_payload rhs)
     then Some (ok (mk_integer (floor_quotient (e_payload lhs) (e_payload rhs))))
     else if is_zero_int lhs then Some (ok (mk_integer 0))
     else if is_one rhs then Some (ok lhs)
     else if is_neg_one rhs then Some (expr_neg E lhs)
     else if lhs = rhs then Some (ok (mk_integer 1))
     else if e_op lhs = Op_FLOOR_DIV \<or> e_op lhs = Op_CLEAN_DIV
     then run_step (merged_division E lhs rhs) (\<lambda>p. floor_div E (fst p) (snd p))
     else run_step (if e_op lhs = Op_ADD \<and> is_int rhs \<and> e_payload rhs \<noteq> 0
                    then extract_terms E (e_payload rhs) (e_args lhs) [] [] else ok ([], [])) (\<lambda>t.
       if fst t \<noteq> []
       then run_step (sum_or_single E (fst t)) (\<lambda>q.
              if snd t = [] then Some (ok q)
              else run_step (sum_or_single E (snd t)) (\<lambda>r.
                Option.bind (floor_div E r rhs) (\<lambda>f. Some (and_then f (expr_add E q)))))
       else if gcd_int (integer_factor lhs) (integer_factor rhs) > 1
       then run_step (cancelled E (gcd_int (integer_factor lhs) (integer_factor rhs)) lhs rhs)
              (\<lambda>p. floor_div E (fst p) (snd p))
       else Some (ok (mk_node Op_FLOOR_DIV
              (if has_flag IS_NONNEGATIVE lhs \<and> has_flag IS_POSITIVE rhs then IS_INTEGER OR IS_NONNEGATIVE else IS_INTEGER)
              [lhs, rhs]))))"

definition clean_div :: "pool_env \<Rightarrow> expr \<Rightarrow> expr \<Rightarrow> expr checked option" where
  "clean_div E lhs rhs = floor_div E lhs rhs"

definition ceil_div :: "pool_env \<Rightarrow> expr \<Rightarrow> expr \<Rightarrow> expr checked option" where
  "ceil_div E lhs rhs =
    (if is_int lhs \<and> is_int rhs \<and> is_foldable_division (e_payload lhs) (e_payload rhs)
     then Some (ok (mk_integer (ceil_quotient (e_payload lhs) (e_payload rhs))))
     else run_step (and_then (expr_add E rhs (mk_integer (- 1))) (expr_add E lhs)) (\<lambda>s. floor_div E s rhs))"


section \<open>Remainders\<close>

definition known_remainder :: "expr \<Rightarrow> expr \<Rightarrow> expr option" where
  "known_remainder lhs rhs =
    (if is_zero_int lhs \<or> lhs = rhs \<or> is_one rhs then Some (mk_integer 0)
     else if is_int rhs \<and> e_payload rhs = 2 \<and> has_flag IS_EVEN lhs then Some (mk_integer 0)
     else if is_int rhs \<and> e_payload rhs = 2 \<and> has_flag IS_ODD lhs then Some (mk_integer 1)
     else None)"

definition expr_mod :: "expr \<Rightarrow> expr \<Rightarrow> expr" where
  "expr_mod lhs rhs =
    (if is_int lhs \<and> is_int rhs \<and> e_payload rhs > 0 then mk_integer (e_payload lhs smod e_payload rhs)
     else case known_remainder lhs rhs of Some r \<Rightarrow> r
     | None \<Rightarrow> mk_node Op_MOD (IS_INTEGER OR IS_NONNEGATIVE) [lhs, rhs])"

definition python_mod :: "expr \<Rightarrow> expr \<Rightarrow> expr" where
  "python_mod lhs rhs =
    (if is_int lhs \<and> is_int rhs \<and> is_foldable_division (e_payload lhs) (e_payload rhs)
     then mk_integer (python_remainder (e_payload lhs) (e_payload rhs))
     else case known_remainder lhs rhs of Some r \<Rightarrow> r
     | None \<Rightarrow> mk_node Op_PYTHON_MOD IS_INTEGER [lhs, rhs])"


section \<open>Modular indexing\<close>

text \<open>The folded value, when both divisions fold.\<close>

definition folded_index :: "expr \<Rightarrow> expr \<Rightarrow> expr \<Rightarrow> int option" where
  "folded_index base dv modulus =
    (if is_int base \<and> is_int dv \<and> is_int modulus \<and> is_foldable_division (e_payload base) (e_payload dv)
     then let quotient = floor_quotient (e_payload base) (e_payload dv)
          in if is_foldable_division quotient (e_payload modulus)
             then let mod_result = quotient smod e_payload modulus
                  in Some (if mod_result < 0 then sadd mod_result (e_payload modulus) else mod_result)
             else None
     else None)"

text \<open>The terms that stay when the multiples of the product are dropped.\<close>

fun kept_terms :: "int \<Rightarrow> expr list \<Rightarrow> expr list \<Rightarrow> expr list checked" where
  "kept_terms mod_div_product [] kept = ok kept"
| "kept_terms mod_div_product (x # xs) kept =
    (let coeff = integer_coefficient x
     in if \<not> length kept < kMaxArgs then fail Fatal_invariant
        else if coeff \<noteq> 0 \<and> coeff smod mod_div_product = 0 then kept_terms mod_div_product xs kept
        else kept_terms mod_div_product xs (kept @ [x]))"

definition droppable :: "expr \<Rightarrow> expr \<Rightarrow> expr \<Rightarrow> bool" where
  "droppable base dv modulus \<longleftrightarrow>
     e_op base = Op_ADD \<and> is_int modulus \<and> is_int dv \<and> smul (e_payload modulus) (e_payload dv) > 0"

partial_function (option) modular_indexing :: "pool_env \<Rightarrow> expr \<Rightarrow> expr \<Rightarrow> expr \<Rightarrow> expr checked option" where
  [code]: "modular_indexing E base dv modulus =
    (if is_zero_int base \<or> is_one modulus then Some (ok (mk_integer 0))
     else if folded_index base dv modulus \<noteq> None then Some (ok (mk_integer (the (folded_index base dv modulus))))
     else if \<not> (is_int dv \<and> e_payload dv = 1) \<and> gcd_int (integer_factor base) (integer_factor dv) > 1
     then run_step (cancelled E (gcd_int (integer_factor base) (integer_factor dv)) base dv)
            (\<lambda>p. modular_indexing E (fst p) (snd p) modulus)
     else run_step (if droppable base dv modulus
                    then kept_terms (smul (e_payload modulus) (e_payload dv)) (e_args base) [] else ok (e_args base)) (\<lambda>kept.
       if droppable base dv modulus \<and> length kept \<noteq> length (e_args base)
       then (if kept = [] then Some (ok (mk_integer 0))
             else run_step (sum_or_single E kept) (\<lambda>reduced_base. modular_indexing E reduced_base dv modulus))
       else if e_op base = Op_FLOOR_DIV \<or> e_op base = Op_CLEAN_DIV
       then run_step (merged_division E base dv) (\<lambda>p. modular_indexing E (fst p) (snd p) modulus)
       else Some (ok (mk_node Op_MODULAR_INDEXING (IS_INTEGER OR IS_NONNEGATIVE) [base, dv, modulus]))))"


section \<open>The generic factory\<close>

text \<open>The arity band is checked before the dispatch; the operations without a canonical constructor are
  interned as they are.\<close>

definition dispatch :: "pool_env \<Rightarrow> expr_op \<Rightarrow> expr list \<Rightarrow> expr checked option" where
  "dispatch E opr args =
    (case opr of
       Op_ADD \<Rightarrow> Some (if length args = 2 then expr_add E (args ! 0) (args ! 1) else add_n E args)
     | Op_MUL \<Rightarrow> Some (if length args = 2 then expr_mul E (args ! 0) (args ! 1) else mul_n E args)
     | Op_AND \<Rightarrow> Some (if length args = 2 then expr_and E (args ! 0) (args ! 1) else and_n E args)
     | Op_OR \<Rightarrow> Some (if length args = 2 then expr_or E (args ! 0) (args ! 1) else or_n E args)
     | Op_POW \<Rightarrow> Some (ok (expr_pow (args ! 0) (args ! 1)))
     | Op_NEG \<Rightarrow> Some (expr_neg E (args ! 0))
     | Op_EQ \<Rightarrow> Some (ok (expr_eq E (args ! 0) (args ! 1)))
     | Op_NE \<Rightarrow> Some (ok (expr_ne E (args ! 0) (args ! 1)))
     | Op_LT \<Rightarrow> Some (ok (expr_lt (args ! 0) (args ! 1)))
     | Op_LE \<Rightarrow> Some (ok (expr_le (args ! 0) (args ! 1)))
     | Op_GT \<Rightarrow> Some (ok (expr_gt (args ! 0) (args ! 1)))
     | Op_GE \<Rightarrow> Some (ok (expr_ge (args ! 0) (args ! 1)))
     | Op_NOT \<Rightarrow> Some (ok (expr_not (args ! 0)))
     | Op_FLOOR_DIV \<Rightarrow> floor_div E (args ! 0) (args ! 1)
     | Op_CLEAN_DIV \<Rightarrow> clean_div E (args ! 0) (args ! 1)
     | Op_CEIL_DIV \<Rightarrow> ceil_div E (args ! 0) (args ! 1)
     | Op_MOD \<Rightarrow> Some (ok (expr_mod (args ! 0) (args ! 1)))
     | Op_PYTHON_MOD \<Rightarrow> Some (ok (python_mod (args ! 0) (args ! 1)))
     | Op_MODULAR_INDEXING \<Rightarrow> modular_indexing E (args ! 0) (args ! 1) (args ! 2)
     | Op_WHERE \<Rightarrow> Some (ok (expr_where (args ! 0) (args ! 1) (args ! 2)))
     | Op_MIN \<Rightarrow> Some (if length args = 2 then min_expr E (args ! 0) (args ! 1) else min_n E args)
     | Op_MAX \<Rightarrow> Some (if length args = 2 then max_expr E (args ! 0) (args ! 1) else max_n E args)
     | _ \<Rightarrow> Some (ok (mk_node opr (composite_flags opr args) args)))"

definition make_raw :: "pool_env \<Rightarrow> expr_op \<Rightarrow> expr list \<Rightarrow> expr checked option" where
  "make_raw E opr args =
    (if \<not> length args \<ge> fst (op_arity_band opr) then Some (fail Fatal_invariant)
     else if \<not> length args \<le> snd (op_arity_band opr) then Some (fail Fatal_invariant)
     else dispatch E opr args)"

end
