(* ===== verification/Expr_Division_Correct.thy ===== *)
theory Expr_Division_Correct
  imports Expr_Division
begin

text \<open>
  The division constructors of the expression pool end, keep the canonical shape and, for positive divisors,
  have the value of the operation.  Every recursive call of \<^verbatim>\<open>floor_div\<close> and \<^verbatim>\<open>modular_indexing\<close> has a dividend of
  smaller weight.
\<close>

section \<open>Truncation and greatest common divisors\<close>

lemma trunc_pos:
  fixes a b :: int
  assumes "0 < b"
  shows "a smod b = (if a < 0 then - ((- a) mod b) else a mod b)" "a sdiv b = (if a < 0 then - ((- a) div b) else a div b)"
  using assms by (auto simp: signed_modulo_int_def signed_divide_int_def sgn_if)

lemma trunc_neg:
  fixes a b :: int
  assumes "b < 0"
  shows "a smod b = a smod (- b)" "a sdiv b = - (a sdiv (- b))"
  using assms by (auto simp: signed_modulo_int_def signed_divide_int_def sgn_if)

lemma floor_quotient_pos: "0 < b \<Longrightarrow> floor_quotient a b = a div b"
proof -
  assume b: "0 < b"
  show "floor_quotient a b = a div b"
  proof (cases "a < 0")
    case True
    have "(- a) mod b = 0 \<or> 0 < (- a) mod b"
      using b pos_mod_sign [of "b" "- a"] by linarith
    then show ?thesis
      using b True zdiv_zminus1_eq_if [of b "- a"] by (auto simp: floor_quotient_def trunc_pos Let_def)
  next
    case False
    have "a mod b = 0 \<or> 0 < a mod b"
      using b pos_mod_sign [of "b" "a"] by linarith
    then show ?thesis
      using b False by (auto simp: floor_quotient_def trunc_pos Let_def)
  qed
qed

lemma floor_quotient_neg: "0 < c \<Longrightarrow> floor_quotient a (- c) = a div (- c)"
proof -
  assume c: "0 < c"
  have trunc: "a smod (- c) = a smod c" "a sdiv (- c) = - (a sdiv c)"
    using trunc_neg [of "- c" a] c by simp_all
  have "(- a) mod c = 0 \<or> 0 < (- a) mod c" "a mod c = 0 \<or> 0 < a mod c"
    using c pos_mod_sign [of c a] pos_mod_sign [of c "- a"] by linarith+
  then show "floor_quotient a (- c) = a div (- c)"
    using c zdiv_zminus1_eq_if [of c a] unfolding floor_quotient_def trunc trunc_pos [OF c] Let_def xor_negative_int_iff
    by (auto simp: div_minus_right)
qed

lemma floor_quotient_eq: "b \<noteq> 0 \<Longrightarrow> floor_quotient a b = a div b"
  using floor_quotient_pos [of b a] floor_quotient_neg [of "- b" a] by (cases "0 < b") auto

lemma xor_positive_int: "0 < x XOR y \<longleftrightarrow> (x < 0 \<longleftrightarrow> y < 0) \<and> x \<noteq> y" for x y :: int
proof -
  have "x = y" if "x XOR y = 0"
  proof -
    have "(x XOR y) XOR y = 0 XOR y"
      by (simp only: that)
    then show ?thesis
      by (simp add: xor.assoc)
  qed
  then have "x XOR y = 0 \<longleftrightarrow> x = y"
    by auto
  then show ?thesis
    using xor_negative_int_iff [of x y] by linarith
qed

lemma ceil_quotient_pos: "0 < b \<Longrightarrow> ceil_quotient a b = - ((- a) div b)"
proof -
  assume b: "0 < b"
  have "(- a) mod b = 0 \<or> 0 < (- a) mod b" "a mod b = 0 \<or> 0 < a mod b" "a mod b \<noteq> b"
    using b pos_mod_sign [of b a] pos_mod_sign [of b "- a"] pos_mod_bound [of b a] by linarith+
  then show "ceil_quotient a b = - ((- a) div b)"
    using b zdiv_zminus1_eq_if [of b a] unfolding ceil_quotient_def trunc_pos [OF b] Let_def xor_positive_int by auto
qed

lemma abs_div_le: "\<bar>a div b\<bar> \<le> \<bar>a\<bar>" for a b :: int
proof -
  have pos: "\<bar>a div b\<bar> \<le> \<bar>a\<bar>" if "0 < b" for a b :: int
  proof (cases "0 \<le> a")
    case True
    then show ?thesis
      using that zdiv_mono2 [of a 1 b] by (simp add: pos_imp_zdiv_nonneg_iff)
  next
    case False
    then show ?thesis
      using that zdiv_mono2_neg [of a 1 b] pos_imp_zdiv_neg_iff [of b a] by simp
  qed
  consider "b = 0" | "0 < b" | "b < 0"
    by linarith
  then show ?thesis
    using pos [of b a] pos [of "- b" "- a"] by cases simp_all
qed

lemma gcd_loop_eq: "0 \<le> a \<Longrightarrow> 0 \<le> b \<Longrightarrow> gcd_loop a b = gcd a b"
proof (induction a b rule: gcd_loop.induct)
  case (1 a b)
  show ?case
  proof (cases "b = 0")
    case True
    then show ?thesis
      using 1 by (simp add: gcd_loop.simps)
  next
    case False
    then have "a smod b = a mod b"
      using 1 by (simp add: trunc_pos)
    then show ?thesis
      using False 1 by (simp add: gcd_loop.simps [of a b] gcd_red_int [symmetric])
  qed
qed

lemma safe_abs_eq: "\<bar>v\<bar> \<le> i64_max \<Longrightarrow> safe_abs v = \<bar>v\<bar>"
  by (auto simp: safe_abs_def i64_min_def i64_max_def)

lemma safe_abs_range: "fits_i64 v \<Longrightarrow> 0 \<le> safe_abs v \<and> safe_abs v \<le> i64_max"
  by (auto simp: safe_abs_def fits_i64_def i64_min_def i64_max_def)

lemma gcd_int_eq: "\<bar>a\<bar> \<le> i64_max \<Longrightarrow> \<bar>b\<bar> \<le> i64_max \<Longrightarrow> gcd_int a b = gcd a b"
  by (simp add: gcd_int_def safe_abs_eq gcd_loop_eq)


section \<open>Coefficients\<close>

lemma find_is_int: "find is_int xs = (case dropWhile (\<lambda>a. \<not> is_int a) xs of [] \<Rightarrow> None | a # _ \<Rightarrow> Some a)"
  using find_dropWhile [of is_int xs] by (simp add: comp_def)

text \<open>A product with a constant: the constant, and the factors before and after it.\<close>

lemma product_constant:
  assumes wf: "wf_expr Q e" and mul: "e_op e = Op_MUL" and drop: "dropWhile (\<lambda>a. \<not> is_int a) (e_args e) = a # post"
  defines "pre \<equiv> takeWhile (\<lambda>a. \<not> is_int a) (e_args e)"
  shows "e_args e = pre @ a # post" "is_int a" "e_payload a \<noteq> 0" "integer_coefficient e = e_payload a"
    and "\<forall>x \<in> set (pre @ post). wf_expr Q x \<and> \<not> is_int x" "pre @ post \<noteq> []"
proof -
  show args: "e_args e = pre @ a # post"
    using takeWhile_dropWhile_id [of "\<lambda>a. \<not> is_int a" "e_args e"] drop by (simp add: pre_def)
  show a: "is_int a"
    using hd_dropWhile [of "\<lambda>a. \<not> is_int a" "e_args e"] drop by auto
  have ok: "\<forall>x \<in> set (e_args e). is_int x \<longrightarrow> e_payload x \<noteq> 0" "length (filter is_int (e_args e)) \<le> 1" "2 \<le> length (e_args e)"
    using wf_node [OF wf] mul by (auto simp: node_ok_def)
  then show "e_payload a \<noteq> 0"
    using a args by simp
  show "integer_coefficient e = e_payload a"
    using mul drop by (simp add: integer_coefficient_def find_is_int is_int_def)
  have "filter is_int pre = [] \<and> filter is_int post = []"
    using ok(2) a by (simp add: args)
  then show "\<forall>x \<in> set (pre @ post). wf_expr Q x \<and> \<not> is_int x"
    using wf_arg [OF wf] by (auto simp: args filter_empty_conv)
  show "pre @ post \<noteq> []"
    using ok(3) by (auto simp: args)
qed

lemma product_constant_sums:
  assumes "e_op e = Op_MUL" "e_args e = pre @ a # post" "is_int a" "e_payload a \<noteq> 0"
  shows "expr_value I e = e_payload a * prod_list (map (expr_value I) (pre @ post))"
    and "wt e = \<bar>e_payload a\<bar> * prod_list (map wt (pre @ post))"
proof -
  have "max 1 \<bar>e_payload a\<bar> = \<bar>e_payload a\<bar>"
    using assms(4) by linarith
  then show "wt e = \<bar>e_payload a\<bar> * prod_list (map wt (pre @ post))"
    using assms by (simp add: wt_mul wt_int algebra_simps)
  show "expr_value I e = e_payload a * prod_list (map (expr_value I) (pre @ post))"
    using assms by (simp add: value_prod value_int algebra_simps)
qed

lemma prod_wt_ge_one: "1 \<le> prod_list (map wt xs)"
  by (rule prod_list_ge_one) auto

lemma coefficient_no_constant:
  "e_op e = Op_MUL \<Longrightarrow> dropWhile (\<lambda>a. \<not> is_int a) (e_args e) = [] \<Longrightarrow> integer_coefficient e = 1"
  unfolding integer_coefficient_def find_is_int is_int_def by (simp only:) simp

lemma coefficient_cases:
  obtains (const) "is_int e" | (product) a post where "e_op e = Op_MUL" "dropWhile (\<lambda>a. \<not> is_int a) (e_args e) = a # post"
    | (plain) "\<not> is_int e" "integer_coefficient e = 1"
      "e_op e = Op_MUL \<Longrightarrow> dropWhile (\<lambda>a. \<not> is_int a) (e_args e) = []"
proof (cases "e_op e = Op_MUL")
  case True
  then show thesis
    using product [OF True] plain coefficient_no_constant [OF True]
    by (cases "dropWhile (\<lambda>a. \<not> is_int a) (e_args e)") (auto simp: is_int_def)
next
  case False
  then show thesis
    using const plain by (auto simp: integer_coefficient_def)
qed

lemma abs_coefficient_le: "wf_expr Q e \<Longrightarrow> \<bar>integer_coefficient e\<bar> \<le> wt e"
proof -
  assume wf: "wf_expr Q e"
  show "\<bar>integer_coefficient e\<bar> \<le> wt e"
  proof (cases e rule: coefficient_cases)
    case 3: (product a post)
    note p = product_constant [OF wf 3]
    have "\<bar>e_payload a\<bar> * 1 \<le> wt e"
      unfolding product_constant_sums(2) [OF 3(1) p(1,2,3)] by (intro mult_left_mono prod_wt_ge_one) auto
    then show ?thesis
      using p(4) by simp
  qed (simp_all add: integer_coefficient_def wt_int)
qed

lemma coefficient_nonzero: "wf_expr Q e \<Longrightarrow> \<not> is_zero_int e \<Longrightarrow> integer_coefficient e \<noteq> 0"
proof (cases e rule: coefficient_cases)
  case (product a post)
  assume "wf_expr Q e"
  then show ?thesis
    using product_constant(3,4) [of Q e a post] product by simp
qed (auto simp: integer_coefficient_def is_zero_int_def)

lemma factor_loop_eq:
  assumes "\<forall>x \<in> set xs. \<bar>integer_coefficient x\<bar> \<le> i64_max" "0 \<le> acc" "acc \<le> i64_max"
  shows "factor_loop xs acc = foldl gcd acc (map integer_coefficient xs) \<and> 0 \<le> factor_loop xs acc"
  using assms
proof (induction xs arbitrary: acc)
  case (Cons x xs)
  let ?c = "integer_coefficient x"
  have "(if acc = 0 then safe_abs ?c else gcd_int acc (safe_abs ?c)) = gcd acc ?c"
    using Cons.prems by (simp add: safe_abs_eq gcd_int_eq)
  moreover have "gcd acc ?c \<le> i64_max"
    using Cons.prems by (cases "acc = 0") (auto intro: order.trans [OF gcd_le1_int])
  ultimately show ?case
    using Cons.IH [of "gcd acc ?c"] Cons.prems by (simp add: Let_def)
qed simp

lemma foldl_gcd_dvd: "d dvd foldl gcd acc cs \<longleftrightarrow> d dvd acc \<and> (\<forall>c \<in> set cs. d dvd c)" for d acc :: int
  by (induction cs arbitrary: acc) auto

text \<open>The coefficients a number must divide for the division of \<^const>\<open>divide_coefficients\<close> to be exact.\<close>

definition coefficients_of :: "expr \<Rightarrow> int set" where
  "coefficients_of e = (if e_op e = Op_ADD then integer_coefficient ` set (e_args e) else {integer_coefficient e})"

lemma foldl_gcd_le:
  "\<exists>c \<in> set cs. c \<noteq> 0 \<and> \<bar>c\<bar> \<le> (b::int) \<Longrightarrow> foldl gcd acc cs \<le> b" 
proof -
  assume "\<exists>c \<in> set cs. c \<noteq> 0 \<and> \<bar>c\<bar> \<le> b"
  then obtain c where c: "c \<in> set cs" "c \<noteq> 0" "\<bar>c\<bar> \<le> b"
    by blast
  have "foldl gcd acc cs dvd c"
    using foldl_gcd_dvd [of "foldl gcd acc cs" acc cs] c(1) by simp
  then show ?thesis
    using dvd_imp_le_int [OF c(2)] c(3) by (meson abs_le_iff order.trans abs_ge_self)
qed

lemma coefficients_nonzero:
  assumes "wf_expr Q e" "\<not> is_zero_int e" "c \<in> coefficients_of e"
  shows "c \<noteq> 0"
proof (cases "e_op e = Op_ADD")
  case True
  then obtain a where a: "a \<in> set (e_args e)" "c = integer_coefficient a"
    using assms(3) by (auto simp: coefficients_of_def)
  have "\<not> is_zero_int a"
    using wf_node [OF assms(1)] True a(1) by (auto simp: node_ok_def is_zero_int_def)
  then show ?thesis
    using coefficient_nonzero [OF wf_arg [OF assms(1) a(1)]] a(2) by simp
next
  case False
  then show ?thesis
    using assms coefficient_nonzero by (simp add: coefficients_of_def)
qed

lemma sum_wt_member: "x \<in> set xs \<Longrightarrow> wt x \<le> (\<Sum>y\<leftarrow>xs. wt y)"
proof (induction xs)
  case (Cons y ys)
  have "0 \<le> (\<Sum>y\<leftarrow>ys. wt y)" "0 \<le> wt y"
    by (auto intro!: sum_list_nonneg order.trans [OF _ wt_pos])
  then show ?case
    using Cons by auto
qed simp

lemma coefficients_bound:
  assumes "wf_expr Q e" "wt e \<le> i64_max" "c \<in> coefficients_of e"
  shows "\<bar>c\<bar> \<le> i64_max"
proof (cases "e_op e = Op_ADD")
  case True
  then obtain a where a: "a \<in> set (e_args e)" "c = integer_coefficient a"
    using assms(3) by (auto simp: coefficients_of_def)
  then have "\<bar>c\<bar> \<le> wt a"
    using abs_coefficient_le [OF wf_arg [OF assms(1)]] by simp
  also have "wt a \<le> wt e"
    using sum_wt_member [OF a(1)] wt_add [OF True] a(1) by (cases "e_args e = []") simp_all
  finally show ?thesis
    using assms(2) by simp
next
  case False
  then show ?thesis
    using assms abs_coefficient_le [OF assms(1)] by (simp add: coefficients_of_def)
qed

lemma integer_factor_dvd:
  assumes wf: "wf_expr Q e" and bound: "wt e \<le> i64_max"
  shows "0 \<le> integer_factor e \<and> integer_factor e \<le> i64_max \<and> (\<forall>c \<in> coefficients_of e. integer_factor e dvd c) \<and>
    (\<not> is_zero_int e \<longrightarrow> 0 < integer_factor e)"
proof (cases "e_op e = Op_ADD")
  case True
  define cs where "cs = map integer_coefficient (e_args e)"
  have cs: "set cs = coefficients_of e"
    using True by (simp add: cs_def coefficients_of_def)
  have "\<forall>x \<in> set (e_args e). \<bar>integer_coefficient x\<bar> \<le> i64_max"
    using coefficients_bound [OF assms] True by (auto simp: coefficients_of_def)
  then have loop: "factor_loop (e_args e) 0 = foldl gcd 0 cs" "0 \<le> foldl gcd 0 cs"
    using factor_loop_eq [of "e_args e" 0] by (auto simp: cs_def i64_max_def)
  have zero: "\<not> is_zero_int e"
    using True by (simp add: is_zero_int_def is_int_def)
  have "e_args e \<noteq> []"
    using wf_node [OF wf] True by (auto simp: node_ok_def)
  then have "hd cs \<in> set cs"
    by (intro hd_in_set) (simp add: cs_def)
  then obtain c where c: "c \<in> set cs" "c \<noteq> 0"
    using coefficients_nonzero [OF wf zero] cs by blast
  have dvd: "\<forall>c \<in> set cs. foldl gcd 0 cs dvd c"
    using foldl_gcd_dvd [of "foldl gcd 0 cs" 0 cs] by simp
  then have "foldl gcd 0 cs \<noteq> 0"
    using c by force
  moreover have "foldl gcd 0 cs \<le> i64_max"
    using foldl_gcd_le [of cs i64_max 0] c coefficients_bound [OF assms] cs by blast
  ultimately show ?thesis
    using True loop dvd cs by (simp add: integer_factor_def)
next
  case False
  then show ?thesis
    using coefficients_bound [OF assms] coefficient_nonzero [OF wf] by (simp add: integer_factor_def coefficients_of_def safe_abs_eq)
qed


section \<open>Dividing coefficients\<close>

definition quotient_of :: "(expr \<Rightarrow> bool) \<Rightarrow> int \<Rightarrow> expr \<Rightarrow> expr \<Rightarrow> bool" where
  "quotient_of Q d e r \<longleftrightarrow> wf_expr Q r \<and> (\<forall>I. expr_value I e = d * expr_value I r) \<and> wt r \<le> wt e \<and>
     (\<not> is_zero_int e \<longrightarrow> wt r < wt e)"

lemma sdiv_exact: "1 < d \<Longrightarrow> (d * k) sdiv d = k" for d k :: int
  using trunc_pos(2) [of d "d * k"] by (auto simp: mult_minus_right [symmetric] simp del: mult_minus_right)

lemma abs_quotient_less: "1 < d \<Longrightarrow> k \<noteq> 0 \<Longrightarrow> \<bar>k\<bar> < \<bar>d * k\<bar>" for d k :: int
  by (simp add: abs_mult)

lemma divide_product_quotient:
  assumes d: "1 < d" and wf: "wf_expr Q e" "wt e \<le> i64_max" "e_op e = Op_MUL" and dvd: "d dvd integer_coefficient e"
  shows "\<exists>r. divide_product E d e = ok r \<and> quotient_of Q d e r"
proof (cases e rule: coefficient_cases)
  case (product a post)
  define pre where "pre = takeWhile (\<lambda>a. \<not> is_int a) (e_args e)"
  note p = product_constant [OF wf(1) product, folded pre_def]
  note sums = product_constant_sums [OF wf(3) p(1,2,3)]
  obtain k where k: "e_payload a = d * k"
    using dvd p(4) by auto
  then have k0: "k \<noteq> 0" and quot: "e_payload a sdiv d = k" and less: "\<bar>k\<bar> < \<bar>e_payload a\<bar>"
    using p(3) d by (auto simp: sdiv_exact abs_quotient_less)
  let ?w = "prod_list (map wt (pre @ post))"
  have w: "1 \<le> ?w"
    by (rule prod_wt_ge_one)
  then have wless: "\<bar>k\<bar> * ?w < wt e"
    unfolding sums(2) using less by (intro mult_strict_right_mono) auto
  have fin: "quotient_of Q d e r" if "denotes Q r (\<lambda>I. k * prod_list (map (expr_value I) (pre @ post))) (\<bar>k\<bar> * ?w)" for r
    using that wless by (auto simp: quotient_of_def denotes_def sums(1) k)
  have run: "divide_product E d e =
      (if k = 1 \<and> length (e_args e) = 2 then ok (e_args e ! (1 - length pre)) else mul_n E (pre @ mk_integer k # post))"
    using wf_node [OF wf(1)] by (simp add: divide_product_def product(2) pre_def [symmetric] quot node_ok_def)
  show ?thesis
  proof (cases "k = 1 \<and> length (e_args e) = 2")
    case True
    then obtain x where x: "pre @ post = [x]" "e_args e ! (1 - length pre) = x"
      using p(1) by (cases pre; cases post) auto
    then have "denotes Q x (\<lambda>I. k * prod_list (map (expr_value I) (pre @ post))) (\<bar>k\<bar> * ?w)"
      using True p(5) by (simp add: denotes_def)
    then show ?thesis
      using True run x(2) fin by auto
  next
    case False
    let ?xs = "pre @ mk_integer k # post"
    have wtk: "max 1 \<bar>k\<bar> = \<bar>k\<bar>"
      using k0 by linarith
    have eq: "prod_list (map wt ?xs) = \<bar>k\<bar> * ?w" "prod_list (map (expr_value I) ?xs) = k * prod_list (map (expr_value I) (pre @ post))" for I
      by (simp_all add: wtk algebra_simps)
    have "\<bar>k\<bar> * 1 \<le> \<bar>k\<bar> * ?w"
      using w by (intro mult_left_mono) auto
    then have "fits_i64 k"
      using wless wf(2) by (intro fits_abs) linarith
    moreover have "length ?xs \<le> kMaxArgs"
      using wf_node [OF wf(1)] p(1) by (simp add: node_ok_def)
    ultimately have "\<exists>r. mul_n E ?xs = ok r \<and> denotes Q r (\<lambda>I. k * prod_list (map (expr_value I) (pre @ post))) (\<bar>k\<bar> * ?w)"
      using mul_n_denotes [of ?xs Q E] p(5) wless wf(2) unfolding eq by auto
    then show ?thesis
      using False run fin by auto
  qed
qed (use assms in \<open>auto simp: is_int_def\<close>)

lemma divide_term_quotient:
  assumes d: "1 < d" and wf: "wf_expr Q e" "wt e \<le> i64_max" and dvd: "d dvd integer_coefficient e" and add: "e_op e \<noteq> Op_ADD"
  shows "\<exists>r. divide_coefficients E d e = ok r \<and> quotient_of Q d e r"
proof (cases e rule: coefficient_cases)
  case const
  then obtain k where k: "e_payload e = d * k"
    using dvd by (auto simp: integer_coefficient_def)
  then have "e_payload e sdiv d = k"
    using sdiv_exact [OF d] by simp
  moreover have less: "k \<noteq> 0 \<Longrightarrow> \<bar>k\<bar> < \<bar>e_payload e\<bar>"
    using abs_quotient_less [OF d, of k] unfolding k .
  moreover have "\<bar>k\<bar> \<le> \<bar>e_payload e\<bar>"
    using less by (cases "k = 0") auto
  moreover have "fits_i64 k"
    using calculation(3) wf(2) const by (intro fits_abs) (simp add: wt_int)
  moreover have "e_payload e = 0 \<longleftrightarrow> k = 0"
    using k d by auto
  ultimately show ?thesis
    using const d by (auto simp: divide_coefficients.simps [of E d e] quotient_of_def wt_int value_int is_zero_int_def k [symmetric])
next
  case (product a post)
  then show ?thesis
    using divide_product_quotient [OF d wf _ dvd, of E] d by (simp add: divide_coefficients.simps is_int_def)
next
  case plain
  then show ?thesis
    using d dvd by simp
qed

lemma divide_terms_quotients:
  assumes d: "1 < d" and "\<forall>x \<in> set xs. wf_expr Q x \<and> wt x \<le> i64_max \<and> d dvd integer_coefficient x \<and> \<not> is_zero_int x"
  shows "\<exists>rs. map_checked (divide_coefficients E d) xs = ok rs \<and> list_all2 (quotient_of Q d) xs rs"
  using assms(2)
proof (induction xs)
  case (Cons x xs)
  have "e_op x \<noteq> Op_ADD"
    using Cons.prems d by (auto simp: integer_coefficient_def is_int_def)
  then obtain r where "divide_coefficients E d x = ok r" "quotient_of Q d x r"
    using divide_term_quotient [OF d, of Q x E] Cons.prems by auto
  then show ?case
    using Cons by auto
qed simp

lemma quotients_sums:
  assumes "list_all2 (quotient_of Q d) xs rs" "\<forall>x \<in> set xs. \<not> is_zero_int x"
  shows "(\<Sum>x\<leftarrow>xs. expr_value I x) = d * (\<Sum>r\<leftarrow>rs. expr_value I r)" "(\<Sum>r\<leftarrow>rs. wt r) \<le> (\<Sum>x\<leftarrow>xs. wt x)"
    and "xs \<noteq> [] \<Longrightarrow> (\<Sum>r\<leftarrow>rs. wt r) < (\<Sum>x\<leftarrow>xs. wt x)" "\<forall>r \<in> set rs. wf_expr Q r"
proof -
  have "(\<Sum>x\<leftarrow>xs. expr_value I x) = d * (\<Sum>r\<leftarrow>rs. expr_value I r) \<and> (\<Sum>r\<leftarrow>rs. wt r) \<le> (\<Sum>x\<leftarrow>xs. wt x) \<and>
    (xs \<noteq> [] \<longrightarrow> (\<Sum>r\<leftarrow>rs. wt r) < (\<Sum>x\<leftarrow>xs. wt x)) \<and> (\<forall>r \<in> set rs. wf_expr Q r)"
    using assms by (induction rule: list_all2_induct) (auto simp: quotient_of_def distrib_left)
  then show "(\<Sum>x\<leftarrow>xs. expr_value I x) = d * (\<Sum>r\<leftarrow>rs. expr_value I r)" "(\<Sum>r\<leftarrow>rs. wt r) \<le> (\<Sum>x\<leftarrow>xs. wt x)"
    "xs \<noteq> [] \<Longrightarrow> (\<Sum>r\<leftarrow>rs. wt r) < (\<Sum>x\<leftarrow>xs. wt x)" "\<forall>r \<in> set rs. wf_expr Q r"
    by blast+
qed

lemma divide_coefficients_quotient:
  assumes d: "1 < d" and wf: "wf_expr Q e" "wt e \<le> i64_max" and dvd: "\<forall>c \<in> coefficients_of e. d dvd c"
  shows "\<exists>r. divide_coefficients E d e = ok r \<and> quotient_of Q d e r"
proof (cases "e_op e = Op_ADD")
  case False
  then show ?thesis
    using divide_term_quotient [OF d wf] dvd by (simp add: coefficients_of_def)
next
  case True
  have node: "e_args e \<noteq> []" "length (e_args e) \<le> kMaxArgs" "\<forall>x \<in> set (e_args e). \<not> is_zero_int x"
    using wf_node [OF wf(1)] True by (auto simp: node_ok_def is_zero_int_def)
  have wt: "wt e = (\<Sum>x\<leftarrow>e_args e. wt x)"
    by (rule wt_add [OF True node(1)])
  have "\<forall>x \<in> set (e_args e). wf_expr Q x \<and> wt x \<le> i64_max \<and> d dvd integer_coefficient x \<and> \<not> is_zero_int x"
    using node(3) wf_arg [OF wf(1)] sum_wt_member [of _ "e_args e"] wf(2) dvd True
    by (auto simp: coefficients_of_def wt intro: order.trans)
  then obtain rs where rs: "map_checked (divide_coefficients E d) (e_args e) = ok rs" "list_all2 (quotient_of Q d) (e_args e) rs"
    using divide_terms_quotients [OF d] by blast
  note sums = quotients_sums [OF rs(2) node(3)]
  have "length rs = length (e_args e)"
    using rs(2) by (auto simp: list_all2_lengthD)
  then obtain r where "add_n E rs = ok r" "denotes Q r (\<lambda>I. \<Sum>x\<leftarrow>rs. expr_value I x) (\<Sum>x\<leftarrow>rs. wt x)"
    using add_n_denotes [of rs Q E] node sums(2,4) wf(2) wt by (metis (no_types, lifting) length_0_conv order.trans)
  then show ?thesis
    using True d rs(1) node sums(1,3) value_sum [OF True]
    by (auto simp: divide_coefficients.simps [of E d e] is_int_def quotient_of_def denotes_def wt)
qed

end
