(* ===== verification/Expr_Floor_Div.thy ===== *)
theory Expr_Floor_Div
  imports Expr_Division_Correct
begin

text \<open>
  \<^verbatim>\<open>floor_div\<close> and \<^verbatim>\<open>modular_indexing\<close> of the expression pool: both return on well-formed operands, and have the
  value of floor division and of the remainder of the floor quotient when the divisors are positive.
\<close>

section \<open>The steps of a division\<close>

text \<open>The classes of divisors the results range over: closed under products and under exact division.\<close>

definition divisor_class :: "(expr \<Rightarrow> bool) \<Rightarrow> bool" where
  "divisor_class Q \<longleftrightarrow>
     (\<forall>a b r. Q a \<and> Q b \<and> (\<forall>I. expr_value I r = expr_value I a * expr_value I b) \<longrightarrow> Q r) \<and>
     (\<forall>d a r. Q a \<and> 1 < d \<and> (\<forall>I. expr_value I a = d * expr_value I r) \<longrightarrow> Q r)"

definition positive_in :: "interp set \<Rightarrow> expr \<Rightarrow> bool" where
  "positive_in S d \<longleftrightarrow> (\<forall>I \<in> S. 0 < expr_value I d)"

lemma divisor_classes: "divisor_class (\<lambda>_. True)" "divisor_class (positive_in S)"
  by (auto simp: divisor_class_def positive_in_def zero_less_mult_iff)

definition floor_result :: "(expr \<Rightarrow> bool) \<Rightarrow> expr \<Rightarrow> expr \<Rightarrow> expr \<Rightarrow> bool" where
  "floor_result Q l r q \<longleftrightarrow> wf_expr Q q \<and> wt q \<le> wt l * wt r + 1 \<and>
     (\<forall>I. (\<forall>d. Q d \<longrightarrow> 0 < expr_value I d) \<longrightarrow> expr_value I q = expr_value I l div expr_value I r)"

lemma wt_product_ge: "wt a \<le> wt a * wt b" "wt b \<le> wt a * wt b" "1 \<le> wt a * wt b"
  using mult_mono [of 1 "wt a" 1 "wt b"] mult_mono [of "wt a" "wt a" 1 "wt b"] mult_mono [of 1 "wt a" "wt b" "wt b"]
  by (auto simp: order.trans [OF _ wt_pos])

lemma cancelled_quotients:
  assumes wf: "wf_expr Q l" "wf_expr Q r" and bound: "wt l \<le> i64_max" "wt r \<le> i64_max"
    and g: "g = gcd_int (integer_factor l) (integer_factor r)" "1 < g"
  shows "\<exists>l' r'. cancelled E g l r = ok (l', r') \<and> quotient_of Q g l l' \<and> quotient_of Q g r r'"
proof -
  note fl = integer_factor_dvd [OF wf(1) bound(1)] and fr = integer_factor_dvd [OF wf(2) bound(2)]
  have "g = gcd (integer_factor l) (integer_factor r)"
    using fl fr g(1) by (simp add: gcd_int_eq)
  then have "\<forall>c \<in> coefficients_of l. g dvd c" "\<forall>c \<in> coefficients_of r. g dvd c"
    using fl fr by (auto intro: dvd_trans)
  then show ?thesis
    using divide_coefficients_quotient [OF g(2) wf(1) bound(1), of E] divide_coefficients_quotient [OF g(2) wf(2) bound(2), of E]
    by (auto simp: cancelled_def)
qed

lemma sum_or_single_denotes:
  assumes "xs \<noteq> []" "length xs \<le> kMaxArgs" "\<forall>x \<in> set xs. wf_expr Q x" "(\<Sum>x\<leftarrow>xs. wt x) \<le> i64_max"
  shows "\<exists>r. sum_or_single E xs = ok r \<and> denotes Q r (\<lambda>I. \<Sum>x\<leftarrow>xs. expr_value I x) (\<Sum>x\<leftarrow>xs. wt x)"
proof (cases "length xs = 1")
  case True
  then obtain x where "xs = [x]"
    by (auto simp: length_Suc_conv)
  then show ?thesis
    using assms by (simp add: sum_or_single_def denotes_def)
next
  case False
  then show ?thesis
    using add_n_denotes [OF assms, of E] by (simp add: sum_or_single_def)
qed

definition extracted :: "(expr \<Rightarrow> bool) \<Rightarrow> int \<Rightarrow> expr list \<Rightarrow> expr list \<Rightarrow> expr list \<Rightarrow> bool" where
  "extracted Q d xs qs rs \<longleftrightarrow> (\<forall>x \<in> set qs \<union> set rs. wf_expr Q x) \<and> length qs + length rs = length xs \<and>
     (\<Sum>x\<leftarrow>qs. wt x) + (\<Sum>x\<leftarrow>rs. wt x) \<le> (\<Sum>x\<leftarrow>xs. wt x) \<and>
     (1 < d \<longrightarrow> (\<forall>I. (\<Sum>x\<leftarrow>xs. expr_value I x) = d * (\<Sum>x\<leftarrow>qs. expr_value I x) + (\<Sum>x\<leftarrow>rs. expr_value I x)))"

lemma smod_zero_dvd: "0 < d \<Longrightarrow> a smod d = 0 \<longleftrightarrow> d dvd a" for a d :: int
  using trunc_pos(1) [of d a] by (auto simp: dvd_eq_mod_eq_0 [symmetric])

lemma extract_terms_extracted:
  assumes "\<forall>x \<in> set xs. wf_expr Q x \<and> wt x \<le> i64_max" "length qs + length rs + length xs \<le> kMaxArgs"
  shows "\<exists>qs' rs'. extract_terms E d xs qs rs = ok (qs @ qs', rs @ rs') \<and> extracted Q d xs qs' rs'"
  using assms
proof (induction xs arbitrary: qs rs)
  case (Cons x xs)
  let ?c = "integer_coefficient x"
  have room: "length qs < kMaxArgs" "length rs < kMaxArgs"
    using Cons.prems(2) by auto
  show ?case
  proof (cases "?c \<noteq> 0 \<and> is_foldable_division ?c d \<and> ?c smod d = 0")
    case True
    have "\<exists>q. divide_coefficients E d x = ok q \<and> wf_expr Q q \<and> wt q \<le> wt x \<and> (1 < d \<longrightarrow> (\<forall>I. expr_value I x = d * expr_value I q))"
    proof (cases "1 < d")
      case d: True
      then have "d dvd ?c"
        using True smod_zero_dvd [of d ?c] by simp
      moreover have "e_op x \<noteq> Op_ADD"
        using calculation d by (auto simp: integer_coefficient_def is_int_def)
      ultimately show ?thesis
        using divide_term_quotient [OF d, of Q x E] Cons.prems(1) by (auto simp: quotient_of_def)
    next
      case False
      then show ?thesis
        using Cons.prems(1) by (simp add: divide_coefficients.simps)
    qed
    then obtain q where q: "divide_coefficients E d x = ok q" "wf_expr Q q" "wt q \<le> wt x" "1 < d \<longrightarrow> (\<forall>I. expr_value I x = d * expr_value I q)"
      by blast
    obtain qs' rs' where "extract_terms E d xs (qs @ [q]) rs = ok ((qs @ [q]) @ qs', rs @ rs')" "extracted Q d xs qs' rs'"
      using Cons.IH [of "qs @ [q]" rs] Cons.prems by auto
    then show ?thesis
      using True q room by (intro exI [of _ "q # qs'"] exI [of _ rs']) (auto simp: extracted_def Let_def distrib_left)
  next
    case False
    obtain qs' rs' where "extract_terms E d xs qs (rs @ [x]) = ok (qs @ qs', (rs @ [x]) @ rs')" "extracted Q d xs qs' rs'"
      using Cons.IH [of qs "rs @ [x]"] Cons.prems by auto
    then show ?thesis
      using False room Cons.prems(1) by (intro exI [of _ qs'] exI [of _ "x # rs'"]) (auto simp: extracted_def Let_def)
  qed
qed (simp add: extracted_def)

lemma merged_division_denotes:
  assumes wf: "wf_expr Q l" "wf_expr Q d" and opr: "e_op l = Op_FLOOR_DIV \<or> e_op l = Op_CLEAN_DIV" and bound: "wt l * wt d \<le> i64_max"
  shows "\<exists>x c m. merged_division E l d = ok (x, m) \<and> wf_expr Q x \<and> Q c \<and> wt l = wt x * wt c + 1 \<and>
    denotes Q m (\<lambda>I. expr_value I c * expr_value I d) (wt c * wt d) \<and> (\<forall>I. expr_value I l = expr_value I x div expr_value I c)"
proof -
  have "length (e_args l) = 2 \<and> Q (e_args l ! 1)"
    using wf_node [OF wf(1)] opr by (auto simp: node_ok_def)
  then obtain x c where args: "e_args l = [x, c]" and Qc: "Q c"
    by (auto simp: numeral_2_eq_2 length_Suc_conv)
  have wt: "wt l = wt x * wt c + 1" and val: "\<And>I. expr_value I l = expr_value I x div expr_value I c"
    using args opr by (cases l; auto simp: op_meaning_def)+
  have sub: "wf_expr Q x" "wf_expr Q c"
    using wf_arg [OF wf(1)] args by auto
  have "wt c \<le> wt l"
    unfolding wt using wt_product_ge(2) [of c x] by linarith
  then have "wt c * wt d \<le> wt l * wt d"
    by (intro mult_right_mono) (auto intro: order.trans [OF _ wt_pos])
  then obtain m where "expr_mul E c d = ok m" "denotes Q m (\<lambda>I. expr_value I c * expr_value I d) (wt c * wt d)"
    using expr_mul_denotes [OF sub(2) wf(2), of E] bound by auto
  then show ?thesis
    using sub Qc wt val args by (intro exI [of _ x] exI [of _ c] exI [of _ m]) (simp add: merged_division_def expr_arg_def)
qed

lemma floor_result_node:
  assumes "wf_expr Q l" "wf_expr Q r" "Q r"
  shows "floor_result Q l r (mk_node Op_FLOOR_DIV fl [l, r])"
  using assms unfolding floor_result_def wf_expr_iff [of Q "mk_node Op_FLOOR_DIV fl [l, r]"]
  by (auto simp: node_ok_def mk_node_def is_int_def kMaxArgs_def op_meaning_def)

lemma floor_result_merge:
  assumes m: "denotes Q m (\<lambda>I. expr_value I c * expr_value I r) (wt c * wt r)" and l: "wt l = wt x * wt c + 1" "\<forall>I. expr_value I l = expr_value I x div expr_value I c"
    and res: "floor_result Q x m q" and Q: "Q r"
  shows "floor_result Q l r q"
proof -
  have "wt x * wt m \<le> wt x * (wt c * wt r)"
    using m by (intro mult_left_mono) (auto simp: denotes_def intro: order.trans [OF _ wt_pos])
  also have "\<dots> \<le> (wt x * wt c + 1) * wt r"
    by (simp add: distrib_right mult.assoc order.trans [OF _ wt_pos])
  finally have "wt q \<le> wt l * wt r + 1"
    using res l(1) by (simp add: floor_result_def)
  moreover have "expr_value I q = expr_value I l div expr_value I r" if "\<forall>d. Q d \<longrightarrow> 0 < expr_value I d" for I
    using res m that Q by (auto simp: floor_result_def denotes_def l(2) zdiv_zmult2_eq less_imp_le)
  ultimately show ?thesis
    using res by (simp add: floor_result_def)
qed

lemma floor_result_cancel:
  assumes "1 < g" "quotient_of Q g l l'" "quotient_of Q g r r'" "floor_result Q l' r' q"
  shows "floor_result Q l r q"
proof -
  have "wt l' * wt r' \<le> wt l * wt r"
    using assms(2,3) by (intro mult_mono) (auto simp: quotient_of_def intro: order.trans [OF _ wt_pos])
  then show ?thesis
    using assms by (auto simp: floor_result_def quotient_of_def)
qed

lemma floor_sum_bound:
  assumes l: "wt l = (\<Sum>x\<leftarrow>xs. wt x)" and ex: "extracted Q d xs qs rs"
    and q: "denotes Q q v (\<Sum>x\<leftarrow>qs. wt x)" and t: "denotes Q t u (\<Sum>x\<leftarrow>rs. wt x)" "floor_result Q t r f"
  shows "wt q + wt f \<le> wt l * wt r + 1"
proof -
  have "0 \<le> (\<Sum>x\<leftarrow>qs. wt x)"
    by (intro sum_list_nonneg) (auto intro: order.trans [OF _ wt_pos])
  then have q0: "0 \<le> wt r" "(\<Sum>x\<leftarrow>qs. wt x) * 1 \<le> (\<Sum>x\<leftarrow>qs. wt x) * wt r"
    by (auto intro: order.trans [OF _ wt_pos] simp only: mult_left_mono wt_pos)
  have "wt t * wt r \<le> (\<Sum>x\<leftarrow>rs. wt x) * wt r"
    using t(1) q0(1) by (intro mult_right_mono) (auto simp: denotes_def)
  then have "wt q + wt f \<le> ((\<Sum>x\<leftarrow>qs. wt x) + (\<Sum>x\<leftarrow>rs. wt x)) * wt r + 1"
    using q t(2) q0(2) by (simp add: denotes_def floor_result_def distrib_right)
  also have "((\<Sum>x\<leftarrow>qs. wt x) + (\<Sum>x\<leftarrow>rs. wt x)) * wt r \<le> wt l * wt r"
    using ex q0(1) unfolding l by (intro mult_right_mono) (auto simp: extracted_def)
  finally show ?thesis
    by simp
qed

lemma class_constant:
  assumes "is_int r" "Q r" "e_payload r \<noteq> 1" "\<forall>d. Q d \<longrightarrow> 0 < expr_value I d"
  shows "1 < e_payload r"
proof -
  have "0 < e_payload r"
    using assms value_int [OF assms(1), of I] by auto
  then show ?thesis
    using assms(3) by linarith
qed

lemma floor_result_sum:
  assumes l: "\<And>I. expr_value I l = (\<Sum>x\<leftarrow>xs. expr_value I x)" and r: "is_int r" "Q r" "e_payload r \<noteq> 1"
    and ex: "extracted Q (e_payload r) xs qs rs"
    and q: "denotes Q q (\<lambda>I. \<Sum>x\<leftarrow>qs. expr_value I x) b" and t: "denotes Q t (\<lambda>I. \<Sum>x\<leftarrow>rs. expr_value I x) c" "floor_result Q t r f"
    and s: "denotes Q s (\<lambda>I. expr_value I q + expr_value I f) (wt q + wt f)" and le: "wt q + wt f \<le> wt l * wt r + 1"
  shows "floor_result Q l r s"
proof -
  have "expr_value I s = expr_value I l div expr_value I r" if "\<forall>d. Q d \<longrightarrow> 0 < expr_value I d" for I
    using class_constant [OF r that] s t q ex that r(1) by (auto simp: denotes_def floor_result_def extracted_def l value_int)
  then show "floor_result Q l r s"
    using s le by (simp add: floor_result_def denotes_def)
qed

lemma floor_result_exact:
  assumes l: "\<And>I. expr_value I l = (\<Sum>x\<leftarrow>xs. expr_value I x)" and r: "is_int r" "Q r" "e_payload r \<noteq> 1"
    and ex: "extracted Q (e_payload r) xs qs []" and q: "denotes Q q (\<lambda>I. \<Sum>x\<leftarrow>qs. expr_value I x) (wt l)"
  shows "floor_result Q l r q"
proof -
  have "expr_value I q = expr_value I l div expr_value I r" if "\<forall>d. Q d \<longrightarrow> 0 < expr_value I d" for I
    using class_constant [OF r that] q ex r(1) by (auto simp: denotes_def extracted_def l value_int)
  then show ?thesis
    using q wt_product_ge(1) [where a = l and b = r] by (auto simp: floor_result_def denotes_def)
qed


section \<open>Floor division\<close>

lemma floor_result_simple:
  assumes wf: "wf_expr Q l" "wf_expr Q r" "Q r" and bound: "wt l * wt r + 1 \<le> i64_max"
  shows "is_int l \<Longrightarrow> is_int r \<Longrightarrow> e_payload r \<noteq> 0 \<Longrightarrow> floor_result Q l r (mk_integer (floor_quotient (e_payload l) (e_payload r)))"
    and "is_zero_int l \<Longrightarrow> floor_result Q l r (mk_integer 0)" "is_one r \<Longrightarrow> floor_result Q l r l" "floor_result Q r r (mk_integer 1)"
    and "is_neg_one r \<Longrightarrow> \<exists>q. expr_neg E l = ok q \<and> floor_result Q l r q"
proof -
  note ge = wt_product_ge [where a = l and b = r]
  have small: "fits_i64 0" "fits_i64 1"
    by (simp_all add: fits_i64_def i64_min_def i64_max_def)
  show "floor_result Q l r (mk_integer (floor_quotient (e_payload l) (e_payload r)))" if "is_int l" "is_int r" "e_payload r \<noteq> 0"
  proof -
    have "\<bar>e_payload l div e_payload r\<bar> \<le> \<bar>e_payload l\<bar>" "\<bar>e_payload l\<bar> \<le> wt l"
      using that(1) by (simp_all add: abs_div_le wt_int)
    then show ?thesis
      using that ge bound by (auto simp: floor_result_def floor_quotient_eq value_int fits_abs)
  qed
  show "is_zero_int l \<Longrightarrow> floor_result Q l r (mk_integer 0)"
    using ge(3) small by (auto simp: floor_result_def is_zero_int_def value_int)
  show "is_one r \<Longrightarrow> floor_result Q l r l"
    using ge wf by (auto simp: floor_result_def is_one_def value_int)
  have "0 \<le> wt r * wt r"
    by simp
  then show "floor_result Q r r (mk_integer 1)"
    using small wf(3) by (auto simp: floor_result_def)
  show "\<exists>q. expr_neg E l = ok q \<and> floor_result Q l r q" if "is_neg_one r"
    using expr_neg_denotes [OF wf(1), of E] that ge bound wf(3)
    by (auto simp: floor_result_def denotes_def is_neg_one_def value_int)
qed

text \<open>The induction hypothesis: divisions with a lighter dividend return.\<close>

definition returns_below :: "pool_env \<Rightarrow> (expr \<Rightarrow> bool) \<Rightarrow> int \<Rightarrow> bool" where
  "returns_below E Q n \<longleftrightarrow>
     (\<forall>l r. wt l < n \<and> wf_expr Q l \<and> wf_expr Q r \<and> Q r \<and> wt l * wt r + 1 \<le> i64_max \<longrightarrow>
        (\<exists>q. floor_div E l r = Some (ok q) \<and> floor_result Q l r q))"

definition direct :: "expr \<Rightarrow> expr \<Rightarrow> bool" where
  "direct l r \<longleftrightarrow> is_int l \<and> is_int r \<and> is_foldable_division (e_payload l) (e_payload r) \<or> is_zero_int l \<or> is_one r \<or>
     is_neg_one r \<or> l = r"

lemma floor_div_direct:
  assumes "wf_expr Q l" "wf_expr Q r" "Q r" "wt l * wt r + 1 \<le> i64_max" "direct l r"
  shows "\<exists>q. floor_div E l r = Some (ok q) \<and> floor_result Q l r q"
  using floor_result_simple [OF assms(1-4)] assms(5) by (auto simp: floor_div.simps [of E l r] is_foldable_division_def direct_def)

lemma floor_div_step:
  assumes "\<not> direct l r"
  shows "floor_div E l r =
    (if e_op l = Op_FLOOR_DIV \<or> e_op l = Op_CLEAN_DIV
     then run_step (merged_division E l r) (\<lambda>p. floor_div E (fst p) (snd p))
     else run_step (if e_op l = Op_ADD \<and> is_int r \<and> e_payload r \<noteq> 0
                    then extract_terms E (e_payload r) (e_args l) [] [] else ok ([], [])) (\<lambda>t.
       if fst t \<noteq> []
       then run_step (sum_or_single E (fst t)) (\<lambda>q.
              if snd t = [] then Some (ok q)
              else run_step (sum_or_single E (snd t)) (\<lambda>r'.
                Option.bind (floor_div E r' r) (\<lambda>f. Some (and_then f (expr_add E q)))))
       else if gcd_int (integer_factor l) (integer_factor r) > 1
       then run_step (cancelled E (gcd_int (integer_factor l) (integer_factor r)) l r) (\<lambda>p. floor_div E (fst p) (snd p))
       else Some (ok (mk_node Op_FLOOR_DIV
              (if has_flag IS_NONNEGATIVE l \<and> has_flag IS_POSITIVE r then IS_INTEGER OR IS_NONNEGATIVE else IS_INTEGER) [l, r]))))"
  using assms unfolding direct_def de_Morgan_disj by (subst floor_div.simps) (simp only: if_False simp_thms)

lemma floor_div_merge:
  assumes Q: "divisor_class Q" and wf: "wf_expr Q l" "wf_expr Q r" "Q r" and bound: "wt l * wt r + 1 \<le> i64_max"
    and below: "returns_below E Q (wt l)" and step: "\<not> direct l r" "e_op l = Op_FLOOR_DIV \<or> e_op l = Op_CLEAN_DIV"
  shows "\<exists>q. floor_div E l r = Some (ok q) \<and> floor_result Q l r q"
proof -
  have "wt l * wt r \<le> i64_max"
    using bound by simp
  then obtain x c m where m: "merged_division E l r = ok (x, m)" "wf_expr Q x" "Q c" "wt l = wt x * wt c + 1"
      "denotes Q m (\<lambda>I. expr_value I c * expr_value I r) (wt c * wt r)" "\<forall>I. expr_value I l = expr_value I x div expr_value I c"
    using merged_division_denotes [OF wf(1,2) step(2), of E] by blast
  have Qm: "Q m"
    using Q m(3,5) wf(3) unfolding divisor_class_def denotes_def by blast
  have "wt x * wt m \<le> wt x * (wt c * wt r)"
    using m(5) by (intro mult_left_mono) (auto simp: denotes_def intro: order.trans [OF _ wt_pos])
  also have "\<dots> \<le> wt l * wt r"
    unfolding m(4) by (simp add: distrib_right mult.assoc order.trans [OF _ wt_pos])
  finally have "wt x * wt m + 1 \<le> i64_max" "wt x < wt l"
    using bound wt_product_ge(1) [where a = x and b = c] m(4) by linarith+
  then obtain q where "floor_div E x m = Some (ok q)" "floor_result Q x m q"
    using below m(2,5) Qm unfolding returns_below_def denotes_def by blast
  then show ?thesis
    using step m(1) floor_result_merge [OF m(5,4,6)] wf(3) by (auto simp: floor_div_step)
qed

lemma floor_div_extract:
  assumes wf: "wf_expr Q l" "wf_expr Q r" "Q r" and bound: "wt l * wt r + 1 \<le> i64_max" and below: "returns_below E Q (wt l)"
    and step: "\<not> direct l r" "e_op l = Op_ADD" "is_int r" "e_payload r \<noteq> 0"
    and ex: "extract_terms E (e_payload r) (e_args l) [] [] = ok (qs, rs)" "extracted Q (e_payload r) (e_args l) qs rs" "qs \<noteq> []"
  shows "\<exists>q. floor_div E l r = Some (ok q) \<and> floor_result Q l r q"
proof -
  have args: "e_args l \<noteq> []" "length (e_args l) \<le> kMaxArgs"
    using wf_node [OF wf(1)] step(2) by (auto simp: node_ok_def)
  note l = value_sum [OF step(2)] wt_add [OF step(2) args(1)]
  have lmax: "wt l \<le> i64_max" "wt l \<le> wt l * wt r"
    using bound wt_product_ge(1) [where a = l and b = r] by linarith+
  have sums: "(\<Sum>x\<leftarrow>qs. wt x) + (\<Sum>x\<leftarrow>rs. wt x) \<le> wt l" "length qs + length rs = length (e_args l)"
    "\<forall>x \<in> set qs \<union> set rs. wf_expr Q x"
    using ex(2) l(2) by (simp_all add: extracted_def)
  have "0 \<le> (\<Sum>x\<leftarrow>rs. wt x)" "1 \<le> (\<Sum>x\<leftarrow>qs. wt x)"
    using sum_wt_ge [OF ex(3)] by (auto intro!: sum_list_nonneg order.trans [OF _ wt_pos])
  then have le: "(\<Sum>x\<leftarrow>qs. wt x) \<le> i64_max" "(\<Sum>x\<leftarrow>rs. wt x) \<le> i64_max" "(\<Sum>x\<leftarrow>rs. wt x) < wt l"
    using sums(1) lmax by linarith+
  obtain q where q: "sum_or_single E qs = ok q" "denotes Q q (\<lambda>I. \<Sum>x\<leftarrow>qs. expr_value I x) (\<Sum>x\<leftarrow>qs. wt x)"
    using sum_or_single_denotes [OF ex(3) _ _ le(1), of Q E] sums args by auto
  have r1: "e_payload r \<noteq> 1"
    using step by (auto simp: direct_def is_one_def)
  have run: "floor_div E l r = (if rs = [] then Some (ok q) else run_step (sum_or_single E rs) (\<lambda>t.
      Option.bind (floor_div E t r) (\<lambda>f. Some (and_then f (expr_add E q)))))"
    using step ex q(1) by (simp add: floor_div_step)
  show ?thesis
  proof (cases "rs = []")
    case True
    have "denotes Q q (\<lambda>I. \<Sum>x\<leftarrow>qs. expr_value I x) (wt l)"
      using q(2) sums(1) True by (auto simp: denotes_def)
    then show ?thesis
      using floor_result_exact [of l "e_args l" r Q qs q, OF l(1) step(3) wf(3) r1] ex(2) run True by auto
  next
    case False
    obtain t where t: "sum_or_single E rs = ok t" "denotes Q t (\<lambda>I. \<Sum>x\<leftarrow>rs. expr_value I x) (\<Sum>x\<leftarrow>rs. wt x)"
      using sum_or_single_denotes [OF False _ _ le(2), of Q E] sums args by auto
    then have "wt t < wt l"
      using le(3) by (simp add: denotes_def)
    moreover have "wt t * wt r \<le> wt l * wt r"
      using calculation by (intro mult_right_mono) (auto intro: order.trans [OF _ wt_pos])
    ultimately obtain f where f: "floor_div E t r = Some (ok f)" "floor_result Q t r f"
      using below t(2) wf bound unfolding returns_below_def denotes_def by fastforce
    note sb = floor_sum_bound [OF l(2) ex(2) q(2) t(2) f(2)]
    obtain s where "expr_add E q f = ok s" "denotes Q s (\<lambda>I. expr_value I q + expr_value I f) (wt q + wt f)"
      using expr_add_denotes [of Q q f E] q(2) f(2) sb bound by (auto simp: denotes_def floor_result_def)
    then show ?thesis
      using run False t(1) f(1) floor_result_sum [of l "e_args l" r Q qs rs q _ t _ f, OF l(1) step(3) wf(3) r1 ex(2) q(2) t(2) f(2) _ sb] by auto
  qed
qed

lemma floor_div_last:
  assumes Q: "divisor_class Q" and wf: "wf_expr Q l" "wf_expr Q r" "Q r" and bound: "wt l * wt r + 1 \<le> i64_max"
    and below: "returns_below E Q (wt l)"
    and step: "\<not> direct l r" "\<not> (e_op l = Op_FLOOR_DIV \<or> e_op l = Op_CLEAN_DIV)"
    and none: "e_op l = Op_ADD \<and> is_int r \<and> e_payload r \<noteq> 0 \<Longrightarrow> \<exists>rs. extract_terms E (e_payload r) (e_args l) [] [] = ok ([], rs)"
  shows "\<exists>q. floor_div E l r = Some (ok q) \<and> floor_result Q l r q"
proof -
  define g where "g = gcd_int (integer_factor l) (integer_factor r)"
  have run: "floor_div E l r = (if g > 1 then run_step (cancelled E g l r) (\<lambda>p. floor_div E (fst p) (snd p))
      else Some (ok (mk_node Op_FLOOR_DIV (if has_flag IS_NONNEGATIVE l \<and> has_flag IS_POSITIVE r then IS_INTEGER OR IS_NONNEGATIVE else IS_INTEGER) [l, r])))"
    using step none by (auto simp: floor_div_step g_def)
  show ?thesis
  proof (cases "g > 1")
    case True
    have max: "wt l \<le> i64_max" "wt r \<le> i64_max"
      using wt_product_ge [where a = l and b = r] bound by linarith+
    obtain l' r' where c: "cancelled E g l r = ok (l', r')" "quotient_of Q g l l'" "quotient_of Q g r r'"
      using cancelled_quotients [OF wf(1,2) max g_def True] by blast
    have Qr: "Q r'"
      using Q wf(3) True c(3) unfolding divisor_class_def quotient_of_def by blast
    have less: "wt l' < wt l"
      using c(2) step(1) by (auto simp: quotient_of_def direct_def)
    have "wt l' * wt r' \<le> wt l * wt r"
      using c(2,3) by (intro mult_mono) (auto simp: quotient_of_def intro: order.trans [OF _ wt_pos])
    then obtain q where "floor_div E l' r' = Some (ok q)" "floor_result Q l' r' q"
      using below less Qr c(2,3) bound unfolding returns_below_def quotient_of_def by fastforce
    then show ?thesis
      using run True c(1) floor_result_cancel [OF True c(2,3)] by auto
  next
    case False
    then show ?thesis
      using run floor_result_node [OF wf] by auto
  qed
qed

theorem floor_div_returns:
  assumes Q: "divisor_class Q" and "wf_expr Q l" "wf_expr Q r" "Q r" "wt l * wt r + 1 \<le> i64_max"
  shows "\<exists>q. floor_div E l r = Some (ok q) \<and> floor_result Q l r q"
  using assms(2-)
proof (induction "nat (wt l)" arbitrary: l r rule: less_induct)
  case less
  note wf = less.prems(1-3) and bound = less.prems(4)
  have below: "returns_below E Q (wt l)"
    unfolding returns_below_def using less.hyps by (simp add: nat_mono_iff order.strict_trans2 [OF _ wt_pos])
  show ?case
  proof (cases "direct l r \<or> e_op l = Op_FLOOR_DIV \<or> e_op l = Op_CLEAN_DIV")
    case True
    then show ?thesis
      using floor_div_direct [OF wf bound] floor_div_merge [OF Q wf bound below] by blast
  next
    case False
    show ?thesis
    proof (cases "e_op l = Op_ADD \<and> is_int r \<and> e_payload r \<noteq> 0")
      case add: True
      have "e_args l \<noteq> []" "length (e_args l) \<le> kMaxArgs"
        using wf_node [OF wf(1)] add by (auto simp: node_ok_def)
      moreover have "wt l \<le> i64_max"
        using wt_product_ge [where a = l and b = r] bound by linarith
      ultimately have "\<forall>x \<in> set (e_args l). wf_expr Q x \<and> wt x \<le> i64_max"
        using wf_arg [OF wf(1)] sum_wt_member [of _ "e_args l"] wt_add [of l] add by (auto intro: order.trans)
      then obtain qs rs where "extract_terms E (e_payload r) (e_args l) [] [] = ok (qs, rs)" "extracted Q (e_payload r) (e_args l) qs rs"
        using extract_terms_extracted [of "e_args l" Q "[]" "[]" E "e_payload r"] \<open>length (e_args l) \<le> kMaxArgs\<close> by auto
      then show ?thesis
        using floor_div_extract [OF wf bound below] floor_div_last [OF Q wf bound below] add False by (cases "qs = []") auto
    next
      case False
      then show ?thesis
        using floor_div_last [OF Q wf bound below] \<open>\<not> (direct l r \<or> e_op l = Op_FLOOR_DIV \<or> e_op l = Op_CLEAN_DIV)\<close> by blast
    qed
  qed
qed

end
