(* ===== verification/Expr_Indexing.thy ===== *)
theory Expr_Indexing
  imports Expr_Floor_Div
begin

text \<open>
  \<^verbatim>\<open>modular_indexing\<close>, \<^verbatim>\<open>ceil_div\<close> and the two remainders of the expression pool.
\<close>

section \<open>Modular indexing\<close>

definition index_result :: "(expr \<Rightarrow> bool) \<Rightarrow> expr \<Rightarrow> expr \<Rightarrow> expr \<Rightarrow> expr \<Rightarrow> bool" where
  "index_result Q b d m q \<longleftrightarrow> wf_expr Q q \<and>
     (\<forall>I. (\<forall>d. Q d \<longrightarrow> 0 < expr_value I d) \<longrightarrow> expr_value I q = (expr_value I b div expr_value I d) mod expr_value I m)"

definition indexes_below :: "pool_env \<Rightarrow> (expr \<Rightarrow> bool) \<Rightarrow> expr \<Rightarrow> int \<Rightarrow> bool" where
  "indexes_below E Q m n \<longleftrightarrow>
     (\<forall>b d. wt b < n \<and> wf_expr Q b \<and> wf_expr Q d \<and> Q d \<and> wt b * wt d * wt m \<le> i64_max \<longrightarrow>
        (\<exists>q. modular_indexing E b d m = Some (ok q) \<and> index_result Q b d m q))"

lemma index_result_node:
  assumes "wf_expr Q b" "wf_expr Q d" "wf_expr Q m"
  shows "index_result Q b d m (mk_node Op_MODULAR_INDEXING fl [b, d, m])"
  using assms unfolding index_result_def wf_expr_iff [of Q "mk_node Op_MODULAR_INDEXING fl [b, d, m]"]
  by (auto simp: node_ok_def mk_node_def is_int_def kMaxArgs_def op_meaning_def)

lemma index_result_merge:
  assumes "denotes Q p (\<lambda>I. expr_value I c * expr_value I d) w" "\<forall>I. expr_value I b = expr_value I x div expr_value I c"
    and "index_result Q x p m q" "Q d"
  shows "index_result Q b d m q"
  using assms by (auto simp: index_result_def denotes_def zdiv_zmult2_eq less_imp_le)

lemma index_result_cancel:
  assumes "1 < g" "quotient_of Q g b b'" "quotient_of Q g d d'" "index_result Q b' d' m q"
  shows "index_result Q b d m q"
  using assms by (auto simp: index_result_def quotient_of_def)

lemma folded_remainder: "0 < m \<Longrightarrow> (let r = q smod m in if r < 0 then r + m else r) = q mod m" for q m :: int
proof -
  assume m: "0 < m"
  have "(- q) mod m = 0 \<or> 0 < (- q) mod m" "q mod m = 0 \<or> 0 < q mod m" "\<not> m < (- q) mod m"
    using m pos_mod_sign [of m q] pos_mod_sign [of m "- q"] pos_mod_bound [of m "- q"] by linarith+
  then show "(let r = q smod m in if r < 0 then r + m else r) = q mod m"
    using m zmod_zminus1_eq_if [of "- q" m] unfolding trunc_pos(1) [OF m] Let_def by auto
qed

lemma folded_index_result:
  assumes wf: "wf_expr Q b" "wf_expr Q d" "wf_expr Q m" "Q d" "Q m" and bound: "wt m \<le> i64_max" and v: "folded_index b d m = Some v"
  shows "index_result Q b d m (mk_integer v)"
proof -
  have ints: "is_int b" "is_int d" "is_int m" and d: "e_payload d \<noteq> 0" and m: "e_payload m \<noteq> 0"
    using v by (auto simp: folded_index_def is_foldable_division_def Let_def split: if_splits)
  define r where "r = floor_quotient (e_payload b) (e_payload d) smod e_payload m"
  have vr: "v = (if r < 0 then sadd r (e_payload m) else r)"
    using v ints by (auto simp: folded_index_def r_def Let_def split: if_splits)
  have r: "\<bar>r\<bar> < \<bar>e_payload m\<bar>" "\<bar>e_payload m\<bar> \<le> i64_max"
    using abs_smod_less [OF m] bound ints(3) by (simp_all add: r_def wt_int)
  then have "fits_i64 v"
    by (auto simp: vr intro: fits_abs)
  moreover have "v = (e_payload b div e_payload d) mod e_payload m" if "0 < e_payload m"
  proof -
    have "r < 0 \<Longrightarrow> \<bar>r + e_payload m\<bar> \<le> i64_max"
      using r that by linarith
    then have "v = (if r < 0 then r + e_payload m else r)"
      by (simp add: vr sadd_def)
    also have "\<dots> = floor_quotient (e_payload b) (e_payload d) mod e_payload m"
      using folded_remainder [OF that, of "floor_quotient (e_payload b) (e_payload d)"] unfolding r_def Let_def .
    finally show ?thesis
      using d by (simp add: floor_quotient_eq)
  qed
  ultimately show ?thesis
    using ints value_int [OF ints(3)] wf(5) by (auto simp: index_result_def value_int)
qed

section \<open>Dropping multiples\<close>

definition multiple :: "int \<Rightarrow> expr \<Rightarrow> bool" where
  "multiple p x \<longleftrightarrow> integer_coefficient x \<noteq> 0 \<and> integer_coefficient x smod p = 0"

lemma kept_terms_eq:
  "length kept + length xs \<le> kMaxArgs \<Longrightarrow> kept_terms p xs kept = ok (kept @ filter (\<lambda>x. \<not> multiple p x) xs)"
  by (induction xs arbitrary: kept) (auto simp: multiple_def Let_def)

lemma dropped_value:
  assumes "1 < p" "\<forall>x \<in> set xs. wf_expr Q x \<and> wt x \<le> i64_max"
  shows "\<exists>k. (\<Sum>x\<leftarrow>xs. expr_value I x) = (\<Sum>x\<leftarrow>filter (\<lambda>x. \<not> multiple p x) xs. expr_value I x) + p * k"
  using assms(2)
proof (induction xs)
  case (Cons x xs)
  then obtain k where k: "(\<Sum>x\<leftarrow>xs. expr_value I x) = (\<Sum>x\<leftarrow>filter (\<lambda>x. \<not> multiple p x) xs. expr_value I x) + p * k"
    by auto
  show ?case
  proof (cases "multiple p x")
    case True
    then have dvd: "p dvd integer_coefficient x"
      using smod_zero_dvd [of p "integer_coefficient x"] assms(1) by (simp add: multiple_def)
    then have "e_op x \<noteq> Op_ADD"
      using assms(1) by (auto simp: integer_coefficient_def is_int_def)
    then obtain r where "expr_value I x = p * expr_value I r"
      using divide_term_quotient [OF assms(1), of Q x undefined] dvd Cons.prems by (auto simp: quotient_of_def)
    then show ?thesis
      using True k by (intro exI [of _ "expr_value I r + k"]) (simp add: distrib_left)
  next
    case False
    then show ?thesis
      using k by auto
  qed
qed simp

lemma filtered_wt:
  "(\<Sum>x\<leftarrow>filter P xs. wt x) \<le> (\<Sum>x\<leftarrow>xs. wt x)"
  "length (filter P xs) \<noteq> length xs \<Longrightarrow> (\<Sum>x\<leftarrow>filter P xs. wt x) < (\<Sum>x\<leftarrow>xs. wt x)"
proof -
  have "(\<Sum>x\<leftarrow>filter P xs. wt x) \<le> (\<Sum>x\<leftarrow>xs. wt x) \<and> (length (filter P xs) \<noteq> length xs \<longrightarrow> (\<Sum>x\<leftarrow>filter P xs. wt x) < (\<Sum>x\<leftarrow>xs. wt x))"
  proof (induction xs)
    case (Cons x xs)
    then show ?case
      using wt_pos [of x] by (auto simp del: wt_pos)
  qed simp
  then show "(\<Sum>x\<leftarrow>filter P xs. wt x) \<le> (\<Sum>x\<leftarrow>xs. wt x)"
    "length (filter P xs) \<noteq> length xs \<Longrightarrow> (\<Sum>x\<leftarrow>filter P xs. wt x) < (\<Sum>x\<leftarrow>xs. wt x)"
    by blast+
qed

lemma modular_indexing_cancel:
  assumes Q: "divisor_class Q" and wf: "wf_expr Q b" "wf_expr Q d" "Q d" and bound: "wt b * wt d * wt m \<le> i64_max"
    and below: "indexes_below E Q m (wt b)"
    and g: "g = gcd_int (integer_factor b) (integer_factor d)" "1 < g" and zero: "\<not> is_zero_int b"
  shows "\<exists>q. run_step (cancelled E g b d) (\<lambda>p. modular_indexing E (fst p) (snd p) m) = Some (ok q) \<and> index_result Q b d m q"
proof -
  have "wt b * wt d * 1 \<le> wt b * wt d * wt m"
    by (intro mult_left_mono mult_nonneg_nonneg) (auto intro: order.trans [OF _ wt_pos])
  then have max: "wt b \<le> i64_max" "wt d \<le> i64_max"
    using wt_product_ge [where a = b and b = d] bound by linarith+
  obtain b' d' where c: "cancelled E g b d = ok (b', d')" "quotient_of Q g b b'" "quotient_of Q g d d'"
    using cancelled_quotients [OF wf(1,2) max g] by blast
  have Qd: "Q d'"
    using Q wf(3) g(2) c(3) unfolding divisor_class_def quotient_of_def by blast
  have less: "wt b' < wt b"
    using c(2) zero by (auto simp: quotient_of_def)
  have "wt b' * wt d' * wt m \<le> wt b * wt d * wt m"
    using c(2,3) by (intro mult_mono mult_nonneg_nonneg) (auto simp: quotient_of_def intro: order.trans [OF _ wt_pos])
  then obtain q where "modular_indexing E b' d' m = Some (ok q)" "index_result Q b' d' m q"
    using below less Qd c(2,3) bound unfolding indexes_below_def quotient_of_def by fastforce
  then show ?thesis
    using c(1) index_result_cancel [OF g(2) c(2,3)] by auto
qed

lemma modular_indexing_merge:
  assumes Q: "divisor_class Q" and wf: "wf_expr Q b" "wf_expr Q d" "Q d" and bound: "wt b * wt d * wt m \<le> i64_max"
    and below: "indexes_below E Q m (wt b)" and opr: "e_op b = Op_FLOOR_DIV \<or> e_op b = Op_CLEAN_DIV"
  shows "\<exists>q. run_step (merged_division E b d) (\<lambda>p. modular_indexing E (fst p) (snd p) m) = Some (ok q) \<and> index_result Q b d m q"
proof -
  have "wt b * wt d * 1 \<le> wt b * wt d * wt m"
    by (intro mult_left_mono mult_nonneg_nonneg) (auto intro: order.trans [OF _ wt_pos])
  then have "wt b * wt d \<le> i64_max"
    using bound by linarith
  then obtain x c p where m: "merged_division E b d = ok (x, p)" "wf_expr Q x" "Q c" "wt b = wt x * wt c + 1"
      "denotes Q p (\<lambda>I. expr_value I c * expr_value I d) (wt c * wt d)" "\<forall>I. expr_value I b = expr_value I x div expr_value I c"
    using merged_division_denotes [OF wf(1,2) opr, of E] by blast
  have Qp: "Q p"
    using Q m(3,5) wf(3) unfolding divisor_class_def denotes_def by blast
  have "wt x * wt p \<le> wt x * (wt c * wt d)"
    using m(5) by (intro mult_left_mono) (auto simp: denotes_def intro: order.trans [OF _ wt_pos])
  also have "\<dots> \<le> wt b * wt d"
    unfolding m(4) by (simp add: distrib_right mult.assoc order.trans [OF _ wt_pos])
  finally have "wt x * wt p * wt m \<le> wt b * wt d * wt m"
    by (intro mult_right_mono) (auto intro: order.trans [OF _ wt_pos])
  moreover have "wt x < wt b"
    using wt_product_ge(1) [where a = x and b = c] m(4) by linarith
  ultimately obtain q where "modular_indexing E x p m = Some (ok q)" "index_result Q x p m q"
    using below m(2,5) Qp bound unfolding indexes_below_def denotes_def by fastforce
  then show ?thesis
    using m(1) index_result_merge [OF m(5,6)] wf(3) by auto
qed

lemma index_result_drop:
  assumes b: "\<And>I. expr_value I b = (\<Sum>x\<leftarrow>xs. expr_value I x)" "\<forall>x \<in> set xs. wf_expr Q x \<and> wt x \<le> i64_max"
    and ints: "is_int d" "is_int m" "Q d" "Q m" "e_payload m \<noteq> 1" and p: "p = e_payload m * e_payload d"
    and q: "wf_expr Q q" "\<And>I. (\<forall>d. Q d \<longrightarrow> 0 < expr_value I d) \<Longrightarrow>
       expr_value I q = ((\<Sum>x\<leftarrow>filter (\<lambda>x. \<not> multiple p x) xs. expr_value I x) div expr_value I d) mod expr_value I m"
  shows "index_result Q b d m q"
proof -
  have "expr_value I q = (expr_value I b div expr_value I d) mod expr_value I m" if pos: "\<forall>d. Q d \<longrightarrow> 0 < expr_value I d" for I
  proof -
    have d: "0 < e_payload d" and m: "1 < e_payload m"
      using pos ints value_int [OF ints(1), of I] class_constant [OF ints(2,4,5) pos] by auto
    have "1 * 1 < e_payload m * e_payload d"
      using d m by (intro mult_less_le_imp_less) auto
    then obtain k where k: "(\<Sum>x\<leftarrow>xs. expr_value I x) = (\<Sum>x\<leftarrow>filter (\<lambda>x. \<not> multiple p x) xs. expr_value I x) + p * k"
      using dropped_value [of p xs Q I] b(2) p by auto
    let ?s = "\<Sum>x\<leftarrow>filter (\<lambda>x. \<not> multiple p x) xs. expr_value I x"
    have "(?s + p * k) div e_payload d = e_payload m * k + ?s div e_payload d"
      using div_mult_self2 [of "e_payload d" ?s "e_payload m * k"] d by (simp add: p ac_simps)
    then show ?thesis
      using q(2) [OF pos] k by (simp add: b(1) value_int [OF ints(1)] value_int [OF ints(2)])
  qed
  then show ?thesis
    using q(1) by (simp add: index_result_def)
qed

lemma modular_indexing_drop:
  assumes wf: "wf_expr Q b" "wf_expr Q d" "Q d" "Q m" and bound: "wt b * wt d * wt m \<le> i64_max"
    and below: "indexes_below E Q m (wt b)" and dr: "droppable b d m" "\<not> is_one m"
    and kept: "kept = filter (\<lambda>x. \<not> multiple (e_payload m * e_payload d) x) (e_args b)" "length kept \<noteq> length (e_args b)"
  shows "\<exists>q. (if kept = [] then Some (ok (mk_integer 0))
     else run_step (sum_or_single E kept) (\<lambda>r. modular_indexing E r d m)) = Some (ok q) \<and> index_result Q b d m q"
proof -
  have ints: "is_int d" "is_int m" "e_payload m \<noteq> 1" and add: "e_op b = Op_ADD"
    using dr by (auto simp: droppable_def is_one_def)
  have args: "e_args b \<noteq> []" "length (e_args b) \<le> kMaxArgs"
    using wf_node [OF wf(1)] add by (auto simp: node_ok_def)
  note b = value_sum [OF add] and wtb = wt_add [OF add args(1)]
  have "1 \<le> wt d * wt m"
    by (rule wt_product_ge(3))
  then have "wt b * 1 \<le> wt b * (wt d * wt m)"
    by (intro mult_left_mono) (auto intro: order.trans [OF _ wt_pos])
  then have bmax: "wt b \<le> i64_max"
    using bound by (simp add: mult.assoc)
  have all: "\<forall>x \<in> set (e_args b). wf_expr Q x \<and> wt x \<le> i64_max"
    using wf_arg [OF wf(1)] sum_wt_member [of _ "e_args b"] wtb bmax by (auto intro: order.trans)
  note drop = index_result_drop [of b "e_args b" Q d m "e_payload m * e_payload d", OF b all ints(1,2) wf(3,4) ints(3) refl, folded kept(1)]
  show ?thesis
  proof (cases "kept = []")
    case True
    then show ?thesis
      using drop [of "mk_integer 0"] by (simp add: fits_i64_def i64_min_def i64_max_def)
  next
    case False
    have less: "(\<Sum>x\<leftarrow>kept. wt x) < wt b"
      using filtered_wt(2) [of "\<lambda>x. \<not> multiple (e_payload m * e_payload d) x" "e_args b"] kept wtb by simp
    have "length kept \<le> kMaxArgs" "\<forall>x \<in> set kept. wf_expr Q x" "(\<Sum>x\<leftarrow>kept. wt x) \<le> i64_max"
      using all less bmax order.trans [OF length_filter_le args(2)] by (auto simp: kept(1))
    then obtain r where r: "sum_or_single E kept = ok r" "denotes Q r (\<lambda>I. \<Sum>x\<leftarrow>kept. expr_value I x) (\<Sum>x\<leftarrow>kept. wt x)"
      using sum_or_single_denotes [OF False, of Q E] by auto
    have "wt r < wt b"
      using r(2) less by (simp add: denotes_def)
    moreover have "wt r * wt d * wt m \<le> wt b * wt d * wt m"
      using calculation by (intro mult_right_mono) (auto intro: order.trans [OF _ wt_pos])
    ultimately obtain q where q: "modular_indexing E r d m = Some (ok q)" "index_result Q r d m q"
      using below r(2) wf bound unfolding indexes_below_def denotes_def by fastforce
    then have "index_result Q b d m q"
      using r(2) by (intro drop) (auto simp: index_result_def denotes_def)
    then show ?thesis
      using False r(1) q(1) by auto
  qed
qed

lemma modular_indexing_step:
  assumes "\<not> (is_zero_int b \<or> is_one m)" "\<not> folded_index b d m \<noteq> None"
    and "\<not> (\<not> (is_int d \<and> e_payload d = 1) \<and> gcd_int (integer_factor b) (integer_factor d) > 1)"
  shows "modular_indexing E b d m =
     run_step (if droppable b d m then kept_terms (smul (e_payload m) (e_payload d)) (e_args b) [] else ok (e_args b)) (\<lambda>kept.
       if droppable b d m \<and> length kept \<noteq> length (e_args b)
       then (if kept = [] then Some (ok (mk_integer 0)) else run_step (sum_or_single E kept) (\<lambda>r. modular_indexing E r d m))
       else if e_op b = Op_FLOOR_DIV \<or> e_op b = Op_CLEAN_DIV
       then run_step (merged_division E b d) (\<lambda>p. modular_indexing E (fst p) (snd p) m)
       else Some (ok (mk_node Op_MODULAR_INDEXING (IS_INTEGER OR IS_NONNEGATIVE) [b, d, m])))"
  using assms by (subst modular_indexing.simps) (simp only: if_False simp_thms)

theorem modular_indexing_returns:
  assumes Q: "divisor_class Q" and "wf_expr Q b" "wf_expr Q d" "Q d" and m: "wf_expr Q m" "Q m" and "wt b * wt d * wt m \<le> i64_max"
  shows "\<exists>q. modular_indexing E b d m = Some (ok q) \<and> index_result Q b d m q"
  using assms(2-4,7)
proof (induction "nat (wt b)" arbitrary: b d rule: less_induct)
  case less
  note wf = less.prems(1-3) and bound = less.prems(4)
  have below: "indexes_below E Q m (wt b)"
    unfolding indexes_below_def using less.hyps by (simp add: nat_mono_iff order.strict_trans2 [OF _ wt_pos])
  have "0 \<le> wt m" "0 \<le> wt d * wt m"
    using wt_pos [of m] wt_product_ge(3) [where a = d and b = m] by linarith+
  then have "wt m \<le> wt b * wt d * wt m" "wt d * wt m \<le> wt b * (wt d * wt m)"
    using mult_right_mono [OF wt_product_ge(3) [where a = b and b = d], of "wt m"]
      mult_right_mono [OF wt_pos [of b], of "wt d * wt m"] by simp_all
  then have mmax: "wt m \<le> i64_max" "wt d * wt m \<le> i64_max"
    using bound by (simp_all add: mult.assoc)
  define g where "g = gcd_int (integer_factor b) (integer_factor d)"
  define p where "p = e_payload m * e_payload d"
  define kept where "kept = filter (\<lambda>x. \<not> multiple p x) (e_args b)"
  show ?case
  proof (cases "is_zero_int b \<or> is_one m \<or> folded_index b d m \<noteq> None \<or> \<not> (is_int d \<and> e_payload d = 1) \<and> g > 1")
    case True
    have zero: "index_result Q b d m (mk_integer 0)" if "is_zero_int b \<or> is_one m"
      using that by (auto simp: index_result_def is_zero_int_def is_one_def value_int fits_i64_def i64_min_def i64_max_def)
    have fold: "index_result Q b d m (mk_integer (the (folded_index b d m)))" if "folded_index b d m \<noteq> None"
      using folded_index_result [OF wf(1,2) m(1) wf(3) m(2) mmax(1)] that by auto
    show ?thesis
      using True zero fold modular_indexing_cancel [OF Q wf bound below g_def]
      by (cases "is_zero_int b \<or> is_one m"; cases "folded_index b d m = None")
        (simp_all add: modular_indexing.simps [of E b d m] g_def [symmetric])
  next
    case rest: False
    have smul: "smul (e_payload m) (e_payload d) = p" if "droppable b d m"
      using that mmax(2) max_abs_mult [of "e_payload m" "e_payload d"]
      by (auto simp: droppable_def wt_int smul_def p_def mult.commute intro!: sat_i64_id)
    have "length (e_args b) \<le> kMaxArgs"
      using wf_node [OF wf(1)] by (simp add: node_ok_def)
    then have kt: "kept_terms p (e_args b) [] = ok kept"
      using kept_terms_eq [of "[]" "e_args b" p] by (simp add: kept_def)
    have run: "modular_indexing E b d m =
      (if droppable b d m \<and> length kept \<noteq> length (e_args b)
       then (if kept = [] then Some (ok (mk_integer 0)) else run_step (sum_or_single E kept) (\<lambda>r. modular_indexing E r d m))
       else if e_op b = Op_FLOOR_DIV \<or> e_op b = Op_CLEAN_DIV
       then run_step (merged_division E b d) (\<lambda>p. modular_indexing E (fst p) (snd p) m)
       else Some (ok (mk_node Op_MODULAR_INDEXING (IS_INTEGER OR IS_NONNEGATIVE) [b, d, m])))"
      using rest smul kt modular_indexing_step [of b m d E] by (cases "droppable b d m") (auto simp: g_def)
    show ?thesis
      using modular_indexing_drop [OF wf m(2) bound below, of kept] modular_indexing_merge [OF Q wf bound below] rest
        index_result_node [OF wf(1,2) m(1)]
      unfolding run kept_def p_def by simp
  qed
qed


section \<open>Ceiling division and remainders\<close>

lemma ceiling_by_floor: "0 < r \<Longrightarrow> (l + (r + - 1)) div r = - ((- l) div r)" for l r :: int
proof -
  assume r: "0 < r"
  have q: "l = r * (l div r) + l mod r" "0 \<le> l mod r" "l mod r < r"
    using r by simp_all
  show "(l + (r + - 1)) div r = - ((- l) div r)"
  proof (cases "l mod r = 0")
    case True
    have "(l + (r + - 1)) div r = l div r"
      using q(1) True r by (intro int_div_pos_eq [where r = "r - 1"]) linarith+
    then show ?thesis
      using r True zdiv_zminus1_eq_if [of r l] by simp
  next
    case False
    have "(l + (r + - 1)) div r = l div r + 1"
      using q False r by (intro int_div_pos_eq [where r = "l mod r - 1"]) (simp add: distrib_left, linarith+)
    then show ?thesis
      using r False zdiv_zminus1_eq_if [of r l] by simp
  qed
qed

lemma ceil_weight: "wt l + wt r + 1 \<le> (wt l + wt r + 1) * wt r"
proof -
  have "(wt l + wt r + 1) * 1 \<le> (wt l + wt r + 1) * wt r"
    using wt_pos [of l] wt_pos [of r] by (intro mult_left_mono) (auto simp del: wt_pos)
  then show ?thesis
    by simp
qed

lemma ceil_div_returns:
  assumes Q: "divisor_class Q" and wf: "wf_expr Q l" "wf_expr Q r" "Q r" and bound: "(wt l + wt r + 1) * wt r + 1 \<le> i64_max"
    and pos: "\<forall>d. Q d \<longrightarrow> 0 < expr_value I d"
  shows "\<exists>q. ceil_div E l r = Some (ok q) \<and> wf_expr Q q \<and> expr_value I q = - ((- expr_value I l) div expr_value I r)"
proof (cases "is_int l \<and> is_int r \<and> is_foldable_division (e_payload l) (e_payload r)")
  case True
  have r: "0 < e_payload r"
    using pos wf(3) True value_int [of r I] by auto
  have "\<bar>- ((- e_payload l) div e_payload r)\<bar> \<le> \<bar>e_payload l\<bar>"
    using abs_div_le [of "- e_payload l" "e_payload r"] by simp
  also have "\<dots> \<le> wt l"
    using True by (simp add: wt_int)
  also have "\<dots> \<le> i64_max"
    using ceil_weight [of l r] bound wt_pos [of r] by linarith
  finally have "fits_i64 (- ((- e_payload l) div e_payload r))"
    by (rule fits_abs)
  then show ?thesis
    using True r by (simp add: ceil_div_def ceil_quotient_pos value_int)
next
  case False
  have "fits_i64 (- 1)"
    by (simp add: fits_i64_def i64_min_def i64_max_def)
  moreover have small: "wt l + wt r + 1 \<le> i64_max" "wt r + 1 \<le> i64_max"
    using ceil_weight [of l r] bound wt_pos [of l] by linarith+
  ultimately obtain t where t: "expr_add E r (mk_integer (- 1)) = ok t" "denotes Q t (\<lambda>I. expr_value I r + - 1) (wt r + 1)"
    using expr_add_denotes [OF wf(2), of "mk_integer (- 1)" E] by auto
  then obtain s where s: "expr_add E l t = ok s" "denotes Q s (\<lambda>I. expr_value I l + (expr_value I r + - 1)) (wt l + wt t)"
    using expr_add_denotes [OF wf(1), of t E] small by (auto simp: denotes_def)
  then have ws: "wt s \<le> wt l + wt r + 1"
    using t(2) by (simp add: denotes_def)
  then have "wt s * wt r \<le> (wt l + wt r + 1) * wt r"
    by (intro mult_right_mono) (auto intro: order.trans [OF _ wt_pos])
  then obtain q where "floor_div E s r = Some (ok q)" "floor_result Q s r q"
    using floor_div_returns [OF Q _ wf(2,3), of s E] s(2) bound by (auto simp: denotes_def)
  then show ?thesis
    using False t(1) s pos ceiling_by_floor [of "expr_value I r" "expr_value I l"] wf(3)
    by (auto simp: ceil_div_def floor_result_def denotes_def)
qed

text \<open>The parity flags of an expression are the caller's assumptions about its symbols.\<close>

definition parity_holds :: "interp \<Rightarrow> expr \<Rightarrow> bool" where
  "parity_holds I e \<longleftrightarrow> (has_flag IS_EVEN e \<longrightarrow> even (expr_value I e)) \<and> (has_flag IS_ODD e \<longrightarrow> odd (expr_value I e))"

lemma known_remainder_value:
  assumes "parity_holds I l" "0 < expr_value I r" "known_remainder l r = Some x"
  shows "expr_value I x = expr_value I l mod expr_value I r"
  using assms by (auto simp: known_remainder_def parity_holds_def is_zero_int_def is_one_def value_int odd_iff_mod_2_eq_one split: if_splits)

lemma python_remainder_pos: "0 < b \<Longrightarrow> b \<le> i64_max \<Longrightarrow> python_remainder a b = a mod b"
proof -
  assume b: "0 < b" "b \<le> i64_max"
  have "\<bar>b - (- a) mod b\<bar> \<le> i64_max"
    using b pos_mod_sign [of b "- a"] pos_mod_bound [of b "- a"] by linarith
  then have sum: "sadd (- ((- a) mod b)) b = b - (- a) mod b"
    by (simp add: sadd_def)
  have "(- a) mod b = 0 \<or> 0 < (- a) mod b" "a mod b = 0 \<or> 0 < a mod b" "\<not> b < (- a) mod b"
    using b pos_mod_sign [of b a] pos_mod_sign [of b "- a"] pos_mod_bound [of b "- a"] by linarith+
  then show "python_remainder a b = a mod b"
    using b zmod_zminus1_eq_if [of "- a" b] unfolding python_remainder_def trunc_pos(1) [OF b(1)] Let_def xor_negative_int_iff
    by (auto simp: sum)
qed

lemma python_mod_value:
  assumes "parity_holds I l" "0 < expr_value I r" "wt r \<le> i64_max"
  shows "expr_value I (python_mod l r) = expr_value I l mod expr_value I r"
proof (cases "is_int l \<and> is_int r \<and> is_foldable_division (e_payload l) (e_payload r)")
  case True
  then show ?thesis
    using assms by (simp add: python_mod_def value_int python_remainder_pos wt_int)
next
  case False
  then show ?thesis
    using known_remainder_value [OF assms(1,2)] by (auto simp: python_mod_def node_value split: option.splits)
qed

lemma expr_mod_value:
  assumes "parity_holds I l" "0 < expr_value I r" "is_int l \<Longrightarrow> 0 \<le> e_payload l"
  shows "expr_value I (expr_mod l r) = expr_value I l mod expr_value I r"
proof (cases "is_int l \<and> is_int r \<and> e_payload r > 0")
  case True
  then show ?thesis
    using assms(3) by (simp add: expr_mod_def value_int trunc_pos(1))
next
  case False
  then show ?thesis
    using known_remainder_value [OF assms(1,2)] assms(2) by (auto simp: expr_mod_def node_value split: option.splits)
qed

end
