(* ===== verification/Expr_Properties.thy ===== *)
theory Expr_Properties
  imports Expr_Indexing
begin

text \<open>
  What the expression pool promises: canonical forms have the value of the operation they are built for.
\<close>

section \<open>Sample expressions\<close>

definition sample_env :: pool_env where
  "sample_env = \<lparr>addr = (\<lambda>e. if e_op e = Op_SYMBOL then unat (e_symbol e) else 100 + length (e_args e)),
     f_add = (\<lambda>a b. a), f_mul = (\<lambda>a b. a), f_neg = (\<lambda>a. a), f_pos = (\<lambda>a. True), f_lt0 = (\<lambda>a. False)\<rparr>"

definition sample_interp :: interp where
  "sample_interp = \<lparr>sym_value = (\<lambda>s. if s = 0 then 5 else 7), op_value = (\<lambda>opr p vs. 0)\<rparr>"

abbreviation sym_x :: expr where "sym_x \<equiv> mk_symbol 0 0 0"
abbreviation sym_y :: expr where "sym_y \<equiv> mk_symbol 0 1 0"

definition sample_sum :: expr where
  "sample_sum = mk_node Op_ADD 0 [sym_y, mk_node Op_MUL 0 [sym_x, mk_integer 4]]"

lemma wf_sym [simp]: "wf_expr Q (mk_symbol p s f)" "wt (mk_symbol p s f) = 1" "expr_value I (mk_symbol p s f) = sym_value I s"
  "\<not> is_int (mk_symbol p s f)"
  by (simp_all add: mk_symbol_def node_ok_def is_int_def kMaxArgs_def op_meaning_def)

lemma sample_sum_facts: "wf_expr Q sample_sum" "wt sample_sum = 5"
  "expr_value I sample_sum = sym_value I 1 + sym_value I 0 * 4"
proof -
  have m: "wf_expr Q (mk_node Op_MUL 0 [sym_x, mk_integer 4])"
    by (rule wf_mk_node) (auto simp: kMaxArgs_def fits_i64_def i64_min_def i64_max_def)
  show "wf_expr Q sample_sum"
    unfolding sample_sum_def using m by (intro wf_mk_node) (auto simp: kMaxArgs_def)
  show "wt sample_sum = 5" "expr_value I sample_sum = sym_value I 1 + sym_value I 0 * 4"
    unfolding sample_sum_def by (simp_all add: fold_op_node)
qed

section \<open>Properties\<close>

text \<open>C25.  Sums, products and negations of the pool return a well-formed canonical expression with the exact
  value, for every interpretation of the symbols, whenever the weights exclude 64-bit overflow.\<close>

theorem pool_arithmetic_exact:
  assumes "wf_expr Q a" "wf_expr Q b" "wt a + wt b \<le> i64_max" "wt a * wt b \<le> i64_max"
  shows "\<exists>s p n. expr_add E a b = ok s \<and> expr_mul E a b = ok p \<and> expr_neg E a = ok n \<and>
    wf_expr Q s \<and> wf_expr Q p \<and> wf_expr Q n \<and>
    (\<forall>I. expr_value I s = expr_value I a + expr_value I b \<and> expr_value I p = expr_value I a * expr_value I b \<and>
       expr_value I n = - expr_value I a)"
  using expr_add_denotes [OF assms(1-3), of E] expr_mul_denotes [OF assms(1,2,4), of E] expr_neg_denotes [OF assms(1), of E]
    assms(3) wt_pos [of b] by (auto simp: denotes_def simp del: wt_pos)

theorem pool_arithmetic_exact_witness:
  "\<exists>s p n. expr_add sample_env sample_sum sym_x = ok s \<and> expr_mul sample_env sample_sum sym_x = ok p \<and>
    expr_neg sample_env sample_sum = ok n \<and> expr_value sample_interp s = 32 \<and> expr_value sample_interp p = 135 \<and>
    expr_value sample_interp n = - 27"
  using pool_arithmetic_exact [of "\<lambda>_. True" sample_sum sym_x sample_env]
  by (auto simp: sample_sum_facts i64_max_def sample_interp_def)

text \<open>C27.  \<^verbatim>\<open>floor_div\<close> returns on all well-formed operands within the weight bound, whatever the sign of the
  divisor: the recursion through nested quotients, extracted terms and cancelled factors ends.\<close>

theorem floor_div_ends:
  assumes "wf_expr (\<lambda>_. True) l" "wf_expr (\<lambda>_. True) r" "wt l * wt r + 1 \<le> i64_max"
  shows "\<exists>q. floor_div E l r = Some (ok q) \<and> wf_expr (\<lambda>_. True) q \<and> wt q \<le> wt l * wt r + 1"
  using floor_div_returns [OF divisor_classes(1) assms(1,2) _ assms(3), of E] by (auto simp: floor_result_def)

theorem floor_div_ends_witness:
  "\<exists>q. floor_div sample_env sample_sum (mk_integer (- 2)) = Some (ok q) \<and> wf_expr (\<lambda>_. True) q \<and> wt q \<le> 11"
  using floor_div_ends [of sample_sum "mk_integer (- 2)" sample_env]
  by (simp add: sample_sum_facts fits_i64_def i64_min_def i64_max_def)

text \<open>C26.  On well-formed operands, under an interpretation in which the divisor and every divisor nested in the
  operands is positive, and when the weights of the operands satisfy
  \<^verbatim>\<open>(wt l + wt r + 1) * wt r + 1 <= INT64_MAX\<close>, which excludes that a coefficient saturates, \<^verbatim>\<open>floor_div\<close> and
  \<^verbatim>\<open>ceil_div\<close> return, and their results have the values of floor and of ceiling division.\<close>

theorem pool_division_exact:
  assumes "wf_expr (positive_in {I}) l" "wf_expr (positive_in {I}) r" "0 < expr_value I r" "(wt l + wt r + 1) * wt r + 1 \<le> i64_max"
  shows "\<exists>q c. floor_div E l r = Some (ok q) \<and> ceil_div E l r = Some (ok c) \<and>
    expr_value I q = expr_value I l div expr_value I r \<and> expr_value I c = - ((- expr_value I l) div expr_value I r)"
proof -
  have pos: "\<forall>d. positive_in {I} d \<longrightarrow> 0 < expr_value I d" and r: "positive_in {I} r"
    using assms(3) by (simp_all add: positive_in_def)
  have "wt l * wt r \<le> (wt l + wt r + 1) * wt r"
    using wt_pos [of r] by (intro mult_right_mono) linarith+
  then have "wt l * wt r + 1 \<le> i64_max"
    using assms(4) by linarith
  then show ?thesis
    using floor_div_returns [OF divisor_classes(2) assms(1,2) r, of E] ceil_div_returns [OF divisor_classes(2) assms(1,2) r assms(4) pos, of E] pos
    by (auto simp: floor_result_def)
qed

theorem pool_division_exact_witness:
  "\<exists>q c. floor_div sample_env sample_sum (mk_integer 2) = Some (ok q) \<and> ceil_div sample_env sample_sum (mk_integer 2) = Some (ok c) \<and>
    expr_value sample_interp q = 13 \<and> expr_value sample_interp c = 14"
  using pool_division_exact [of sample_interp sample_sum "mk_integer 2" sample_env]
  by (auto simp: sample_sum_facts fits_i64_def i64_min_def i64_max_def sample_interp_def)

text \<open>A constant divisor below minus one gives a wrong quotient of a sum: the term \<^verbatim>\<open>4x\<close> of \<^verbatim>\<open>4x + y\<close> is
  extracted undivided, because the coefficient division leaves terms alone for divisors up to one.\<close>

theorem floor_div_negative_divisor:
  "(case floor_div sample_env sample_sum (mk_integer (- 2)) of
      Some (Inr q) \<Rightarrow> expr_value sample_interp q = 16 | _ \<Rightarrow> False) \<and> expr_value sample_interp sample_sum div (- 2) = - 14"
  by code_simp

text \<open>C28.  On well-formed operands, under an interpretation in which the divisor, the modulus and every divisor nested
  in the operands is positive, and when the product of the three weights is at most \<^verbatim>\<open>INT64_MAX\<close>, which excludes that
  a coefficient saturates, \<^verbatim>\<open>modular_indexing\<close> returns, and its result has the value of the floor quotient modulo the
  third operand.\<close>

theorem modular_indexing_exact:
  assumes "wf_expr (positive_in {I}) b" "wf_expr (positive_in {I}) d" "wf_expr (positive_in {I}) m"
    and "0 < expr_value I d" "0 < expr_value I m" "wt b * wt d * wt m \<le> i64_max"
  shows "\<exists>q. modular_indexing E b d m = Some (ok q) \<and> expr_value I q = (expr_value I b div expr_value I d) mod expr_value I m"
  using modular_indexing_returns [OF divisor_classes(2) assms(1,2) _ assms(3) _ assms(6), of E] assms(4,5)
  by (auto simp: index_result_def positive_in_def)

theorem modular_indexing_exact_witness:
  "\<exists>q. modular_indexing sample_env sample_sum (mk_integer 2) (mk_integer 2) = Some (ok q) \<and> expr_value sample_interp q = 1"
  using modular_indexing_exact [of sample_interp sample_sum "mk_integer 2" "mk_integer 2" sample_env]
  by (auto simp: sample_sum_facts fits_i64_def i64_min_def i64_max_def sample_interp_def)

text \<open>C29.  The n-ary connectives and extrema return on every non-empty list of well-formed operands no longer than \<^verbatim>\<open>kMaxArgs\<close>,
  flattened and deduplicated or not: a conjunction holds when all operands hold, a disjunction when one does, and the extrema are the
  least and the greatest value.\<close>

theorem pool_lattice_exact:
  assumes "xs \<noteq> []" "\<forall>x \<in> set xs. wf_expr Q x" "length xs \<le> kMaxArgs"
  shows "\<exists>a o' l g. and_n E xs = ok a \<and> or_n E xs = ok o' \<and> min_n E xs = ok l \<and> max_n E xs = ok g \<and>
    (expr_value I a \<noteq> 0 \<longleftrightarrow> (\<forall>x \<in> set xs. expr_value I x \<noteq> 0)) \<and> (expr_value I o' \<noteq> 0 \<longleftrightarrow> (\<exists>x \<in> set xs. expr_value I x \<noteq> 0)) \<and>
    expr_value I l = Min (expr_value I ` set xs) \<and> expr_value I g = Max (expr_value I ` set xs)"
  using and_n_sound [OF assms(2,3), of E I] or_n_sound [OF assms(2,3), of E I] min_n_value [OF assms, of E I] max_n_value [OF assms, of E I]
  by auto

theorem pool_lattice_exact_witness:
  "\<exists>a o' l g. and_n sample_env [sym_x, sym_y] = ok a \<and> or_n sample_env [sym_x, sym_y] = ok o' \<and>
    min_n sample_env [sym_x, sym_y] = ok l \<and> max_n sample_env [sym_x, sym_y] = ok g \<and>
    expr_value sample_interp a \<noteq> 0 \<and> expr_value sample_interp o' \<noteq> 0 \<and> expr_value sample_interp l = 5 \<and> expr_value sample_interp g = 7"
  using pool_lattice_exact [of "[sym_x, sym_y]" "\<lambda>_. True" sample_env sample_interp]
  by (simp add: kMaxArgs_def sample_interp_def)

text \<open>A folded remainder takes the sign of the dividend: the constant \<^verbatim>\<open>-7 mod 3\<close> folds to \<^verbatim>\<open>-1\<close>, where the
  operation is declared never to be negative and the unfolded node carries the flag for it.\<close>

theorem expr_mod_folds_negative:
  "expr_mod (mk_integer (- 7)) (mk_integer 3) = mk_integer (- 1) \<and> has_flag IS_NONNEGATIVE (expr_mod sym_x (mk_integer 3))"
  by code_simp

end
