(* ===== verification/Swiss_Group.thy ===== *)
theory Swiss_Group
  imports Crucible_Prelude
begin

text \<open>
  The control bytes of the open-addressing table, from \<^verbatim>\<open>crucible/SwissTable.h\<close>: the tag of a hash, the
  bit mask of a group, and the arms of \<^verbatim>\<open>CtrlGroup\<close>.  The three x86 arms compare every lane of a register
  and gather the lane signs; the NEON arm has no gathering instruction and sums weighted lanes; the
  portable arm works on two 64-bit words.  What the table needs of an arm is the locale
  \<^verbatim>\<open>probe_group\<close>, and each arm is an interpretation of it.
\<close>

section \<open>Control bytes and masks\<close>

definition kEmpty :: u8 where
  "kEmpty = 0x80"

definition group_mask_ceiling :: "nat \<Rightarrow> u64" where
  "group_mask_ceiling width = (if width = 64 then - 1 else push_bit width 1 - 1)"

definition h2_tag :: "u64 \<Rightarrow> u8" where
  "h2_tag hash = ucast (drop_bit 57 hash)"

definition countr_zero :: "u64 \<Rightarrow> nat" where
  "countr_zero m = length (takeWhile (\<lambda>i. \<not> bit m i) [0..<64])"

definition checked_mask :: "nat \<Rightarrow> u64 \<Rightarrow> u64 checked" where
  "checked_mask width raw = (if raw \<le> group_mask_ceiling width then ok raw else fail Contract_violation)"

definition lowest :: "u64 \<Rightarrow> nat checked" where
  "lowest m = (if m = 0 then fail Contract_violation else ok (countr_zero m))"

definition clear_lowest :: "nat \<Rightarrow> u64 \<Rightarrow> u64 checked" where
  "clear_lowest width m = checked_mask width (m AND (m - 1))"


section \<open>The arms of a group\<close>

text \<open>A comparison of all lanes followed by the gathering of the lane signs.\<close>

definition movemask :: "bool list \<Rightarrow> u64" where
  "movemask lanes = horner_sum of_bool 2 lanes"

definition vector_match :: "u8 \<Rightarrow> u8 list \<Rightarrow> u64" where
  "vector_match h2 grp = movemask (map (\<lambda>c. c = h2) grp)"

definition vector_match_empty :: "u8 list \<Rightarrow> u64" where
  "vector_match_empty grp = movemask (map (\<lambda>c. bit c 7) grp)"

definition neon_bits :: "u8 list" where
  "neon_bits = [0x01, 0x02, 0x04, 0x08, 0x10, 0x20, 0x40, 0x80, 0x01, 0x02, 0x04, 0x08, 0x10, 0x20, 0x40, 0x80]"

text \<open>The three widening pair sums leave the sum of eight bytes in each 64-bit lane.\<close>

definition neon_movemask :: "u8 list \<Rightarrow> u64" where
  "neon_movemask cmp =
    (let masked = map2 (AND) cmp neon_bits;
         lane0 = sum_list (map ucast (take 8 masked));
         lane1 = sum_list (map ucast (drop 8 masked))
     in lane0 OR push_bit 8 lane1)"

definition neon_match :: "u8 \<Rightarrow> u8 list \<Rightarrow> u64" where
  "neon_match h2 grp = neon_movemask (map (\<lambda>c. if c = h2 then 0xFF else 0) grp)"

definition neon_match_empty :: "u8 list \<Rightarrow> u64" where
  "neon_match_empty grp = neon_movemask (map (\<lambda>c. if c <s 0 then 0xFF else 0) grp)"

text \<open>The portable arm.  The words are read in the byte order of a little-endian host.\<close>

definition load_word :: "u8 list \<Rightarrow> u64" where
  "load_word bytes = horner_sum ucast 256 bytes"

definition extract_highbits :: "u64 \<Rightarrow> u64" where
  "extract_highbits v = drop_bit 56 ((v AND 0x8080808080808080) * 0x0002040810204080)"

definition zero_bytes :: "u64 \<Rightarrow> u64" where
  "zero_bytes x = (x - 0x0101010101010101) AND NOT x AND 0x8080808080808080"

definition swar_match :: "u8 \<Rightarrow> u8 list \<Rightarrow> u64" where
  "swar_match h2 bytes =
    (let lo = load_word (take 8 bytes);
         hi = load_word (drop 8 bytes);
         needle = ucast h2 * 0x0101010101010101
     in extract_highbits (zero_bytes (lo XOR needle)) OR push_bit 8 (extract_highbits (zero_bytes (hi XOR needle))))"

definition swar_match_empty :: "u8 list \<Rightarrow> u64" where
  "swar_match_empty bytes =
    (let lo = load_word (take 8 bytes);
         hi = load_word (drop 8 bytes)
     in extract_highbits lo OR push_bit 8 (extract_highbits hi))"

record group_arm =
  g_width :: nat
  g_match :: "u8 \<Rightarrow> u8 list \<Rightarrow> u64"
  g_match_empty :: "u8 list \<Rightarrow> u64"

definition avx512_arm :: group_arm where
  "avx512_arm = \<lparr>g_width = 64, g_match = vector_match, g_match_empty = vector_match_empty\<rparr>"

definition avx2_arm :: group_arm where
  "avx2_arm = \<lparr>g_width = 32, g_match = vector_match, g_match_empty = vector_match_empty\<rparr>"

definition sse2_arm :: group_arm where
  "sse2_arm = \<lparr>g_width = 16, g_match = vector_match, g_match_empty = vector_match_empty\<rparr>"

definition neon_arm :: group_arm where
  "neon_arm = \<lparr>g_width = 16, g_match = neon_match, g_match_empty = neon_match_empty\<rparr>"

definition swar_arm :: group_arm where
  "swar_arm = \<lparr>g_width = 16, g_match = swar_match, g_match_empty = swar_match_empty\<rparr>"


section \<open>Masks\<close>

lemma countr_zero_props:
  assumes "m \<noteq> 0"
  shows "countr_zero m < 64" "bit m (countr_zero m)" "\<And>n. n < countr_zero m \<Longrightarrow> \<not> bit m n"
proof -
  let ?t = "takeWhile (\<lambda>i. \<not> bit m i) [0..<64]"
  obtain n where n: "bit m n" using assms bit_eqI [of m 0] by auto
  then have "n < 64" using bit_imp_le_length [OF n] by simp
  then have "\<exists>x\<in>set [0..<64]. \<not> \<not> bit m x" using n by auto
  then have "length ?t < length [0..<64::nat]"
    by (metis length_takeWhile_le linorder_not_less order_le_imp_less_or_eq takeWhile_eq_all_conv
        takeWhile_eq_take take_all)
  then show lt: "countr_zero m < 64" by (simp add: countr_zero_def)
  have "\<not> \<not> bit m ([0..<64] ! length ?t)"
    using \<open>length ?t < length [0..<64]\<close> by (rule nth_length_takeWhile)
  then show "bit m (countr_zero m)" using lt by (simp add: countr_zero_def)
  show "\<not> bit m n" if "n < countr_zero m" for n
  proof -
    have "n < length ?t" using that by (simp add: countr_zero_def)
    then have "?t ! n \<in> set ?t" by (rule nth_mem)
    moreover have "?t ! n = n" using \<open>n < length ?t\<close> lt that by (simp add: takeWhile_nth)
    ultimately show ?thesis using set_takeWhileD by fastforce
  qed
qed

lemma minus_one_bits:
  fixes m :: u64
  assumes k: "bit m k" and low: "\<And>n. n < k \<Longrightarrow> \<not> bit m n"
  shows "m - 1 = (m AND NOT (mask (Suc k))) OR mask k"
proof -
  have kl: "k < 64" using bit_imp_le_length [OF k] by simp
  have "m = (m AND NOT (mask (Suc k))) OR push_bit k 1"
  proof (rule bit_eqI)
    fix n assume "possible_bit TYPE(u64) n"
    then have "n < 64" by simp
    then show "bit m n = bit ((m AND NOT (mask (Suc k))) OR push_bit k 1) n"
      using k low [of n] kl by (cases n k rule: linorder_cases) (simp_all add: bit_simps)
  qed
  also have "\<dots> = (m AND NOT (mask (Suc k))) + push_bit k 1"
    by (rule disjunctive_add [symmetric]) (auto simp: bit_simps bit_1_iff)
  finally have "m - 1 = (m AND NOT (mask (Suc k))) + mask k"
    by (simp add: mask_eq_exp_minus_1 push_bit_of_1)
  also have "\<dots> = (m AND NOT (mask (Suc k))) OR mask k"
    by (rule disjunctive_add) (auto simp: bit_simps)
  finally show ?thesis .
qed

lemma bit_clear_lowest:
  fixes m :: u64
  assumes "m \<noteq> 0"
  shows "bit (m AND (m - 1)) n \<longleftrightarrow> bit m n \<and> n \<noteq> countr_zero m"
proof -
  note c = countr_zero_props [OF assms]
  show ?thesis
    unfolding minus_one_bits [OF c(2,3), simplified]
    using c by (auto simp: bit_simps less_Suc_eq_le dest: bit_imp_le_length)
qed

lemma clear_lowest_less:
  fixes m :: u64
  assumes "m \<noteq> 0"
  shows "m AND (m - 1) < m"
proof -
  have "m AND (m - 1) \<le> m - 1" by (rule word_and_le1)
  also have "m - 1 < m" using assms by (simp add: measure_unat unat_mono word_less_nat_alt)
  finally show ?thesis .
qed

lemma mask_below_ceiling:
  assumes "w \<in> {16, 32, 64}" "\<And>i. bit m i \<Longrightarrow> i < w"
  shows "checked_mask w m = ok m"
proof -
  have "take_bit w m = m" by (rule bit_eqI) (use assms(2) in \<open>auto simp: bit_simps\<close>)
  then have "m AND mask w = m" by (simp add: take_bit_eq_mask)
  then have "m \<le> mask w" by (metis word_and_le1)
  moreover have "mask w = group_mask_ceiling w"
    using assms(1) by (auto simp: group_mask_ceiling_def mask_eq_exp_minus_1 push_bit_of_1)
  ultimately show ?thesis by (simp add: checked_mask_def)
qed

lemma bit_movemask:
  "length lanes \<le> 64 \<Longrightarrow> bit (movemask lanes) i \<longleftrightarrow> i < length lanes \<and> lanes ! i"
  by (auto simp: movemask_def bit_horner_sum_bit_word_iff)

lemma h2_tag_positive: "\<not> bit (h2_tag hash) 7"
  by (auto simp: h2_tag_def bit_simps dest: bit_imp_le_length)


section \<open>The NEON arm\<close>

lemma length16:
  assumes "length xs = 16"
  obtains a0 a1 a2 a3 a4 a5 a6 a7 b0 b1 b2 b3 b4 b5 b6 b7
  where "xs = [a0, a1, a2, a3, a4, a5, a6, a7, b0, b1, b2, b3, b4, b5, b6, b7]"
  using assms by (auto simp: numeral_eq_Suc length_Suc_conv)

lemma ucast_lane:
  "ucast ((if b then 0xFF else 0) AND (0x01 :: u8)) = (of_bool b :: u64)"
  "ucast ((if b then 0xFF else 0) AND (0x02 :: u8)) = (2 * of_bool b :: u64)"
  "ucast ((if b then 0xFF else 0) AND (0x04 :: u8)) = (4 * of_bool b :: u64)"
  "ucast ((if b then 0xFF else 0) AND (0x08 :: u8)) = (8 * of_bool b :: u64)"
  "ucast ((if b then 0xFF else 0) AND (0x10 :: u8)) = (16 * of_bool b :: u64)"
  "ucast ((if b then 0xFF else 0) AND (0x20 :: u8)) = (32 * of_bool b :: u64)"
  "ucast ((if b then 0xFF else 0) AND (0x40 :: u8)) = (64 * of_bool b :: u64)"
  "ucast ((if b then 0xFF else 0) AND (0x80 :: u8)) = (128 * of_bool b :: u64)"
  by simp_all

lemma movemask_append:
  assumes "length xs + length ys \<le> 64"
  shows "movemask (xs @ ys) = movemask xs OR push_bit (length xs) (movemask ys)"
  by (rule bit_eqI) (use assms in \<open>auto simp: bit_movemask bit_simps nth_append\<close>)

lemma lane_sum:
  "sum_list (map ucast [(if a0 then 0xFF else 0) AND 0x01 :: u8, (if a1 then 0xFF else 0) AND 0x02,
     (if a2 then 0xFF else 0) AND 0x04, (if a3 then 0xFF else 0) AND 0x08, (if a4 then 0xFF else 0) AND 0x10,
     (if a5 then 0xFF else 0) AND 0x20, (if a6 then 0xFF else 0) AND 0x40, (if a7 then 0xFF else 0) AND 0x80])
   = movemask [a0, a1, a2, a3, a4, a5, a6, a7]"
  unfolding list.map ucast_lane movemask_def by (simp add: distrib_left)

lemma neon_movemask_eq:
  assumes "length lanes = 16"
  shows "neon_movemask (map (\<lambda>b. if b then 0xFF else 0) lanes) = movemask lanes"
proof -
  obtain a0 a1 a2 a3 a4 a5 a6 a7 b0 b1 b2 b3 b4 b5 b6 b7
    where l: "lanes = [a0, a1, a2, a3, a4, a5, a6, a7, b0, b1, b2, b3, b4, b5, b6, b7]"
    by (rule length16 [OF assms])
  have "movemask lanes = movemask [a0, a1, a2, a3, a4, a5, a6, a7]
      OR push_bit 8 (movemask [b0, b1, b2, b3, b4, b5, b6, b7])"
    using movemask_append [of "[a0, a1, a2, a3, a4, a5, a6, a7]" "[b0, b1, b2, b3, b4, b5, b6, b7]"]
    by (simp add: l push_bit_eq_mult mult.commute)
  moreover have "take 8 [x0, x1, x2, x3, x4, x5, x6, x7, y0, y1, y2, y3, y4, y5, y6, y7] = [x0, x1, x2, x3, x4, x5, x6, x7]"
    "drop 8 [x0, x1, x2, x3, x4, x5, x6, x7, y0, y1, y2, y3, y4, y5, y6, y7] = [y0, y1, y2, y3, y4, y5, y6, y7]"
    for x0 x1 x2 x3 x4 x5 x6 x7 y0 y1 y2 y3 y4 y5 y6 y7 :: u8
    by simp_all
  ultimately show ?thesis
    by (simp only: l neon_movemask_def neon_bits_def Let_def list.map zip_Cons_Cons zip_Nil prod.case
        lane_sum [unfolded list.map])
qed

lemma neon_match_eq: "length grp = 16 \<Longrightarrow> neon_match h2 grp = vector_match h2 grp"
  using neon_movemask_eq [of "map (\<lambda>c. c = h2) grp"] by (simp add: neon_match_def vector_match_def comp_def)

lemma signed_negative: "(c :: u8) <s 0 \<longleftrightarrow> bit c 7"
  by (simp add: word_sless_alt sint_uint bit_last_iff [symmetric] signed_take_bit_negative_iff bit_uint_iff)

lemma neon_match_empty_eq: "length grp = 16 \<Longrightarrow> neon_match_empty grp = vector_match_empty grp"
  using neon_movemask_eq [of "map (\<lambda>c. bit c 7) grp"]
  by (simp add: neon_match_empty_def vector_match_empty_def comp_def signed_negative)


section \<open>The portable arm\<close>

lemma load_word_Cons: "load_word (b # bs) = ucast b OR push_bit 8 (load_word bs)"
proof -
  have "load_word (b # bs) = ucast b + push_bit 8 (load_word bs)"
    by (simp add: load_word_def push_bit_eq_mult mult.commute)
  also have "\<dots> = ucast b OR push_bit 8 (load_word bs)"
    by (rule disjunctive_add) (auto simp: bit_simps dest: bit_imp_le_length)
  finally show ?thesis .
qed

lemma bit_load_word:
  "length bs \<le> 8 \<Longrightarrow> j < 8 \<Longrightarrow> bit (load_word bs) (8 * i + j) \<longleftrightarrow> i < length bs \<and> bit (bs ! i) j"
proof (induction bs arbitrary: i)
  case Nil
  then show ?case by (simp add: load_word_def)
next
  case (Cons b bs)
  show ?case
  proof (cases i)
    case 0
    then show ?thesis using Cons.prems by (auto simp: load_word_Cons bit_simps)
  next
    case (Suc k)
    have "bit (load_word (b # bs)) (8 * i + j) \<longleftrightarrow> 8 * i + j < 64 \<and> bit (load_word bs) (8 * k + j)"
      using Cons.prems Suc by (auto simp: load_word_Cons bit_simps dest: bit_imp_le_length)
    also have "\<dots> \<longleftrightarrow> i < length (b # bs) \<and> bit ((b # bs) ! i) j"
      using Cons.prems Cons.IH [of k] Suc by auto
    finally show ?thesis .
  qed
qed

lemma high_mask_bit: "bit (0x8080808080808080 :: u64) n \<longleftrightarrow> n < 64 \<and> n mod 8 = 7"
proof (cases "n < 64")
  case True
  have "list_all (\<lambda>n. bit (0x8080808080808080 :: u64) n = (n mod 8 = 7)) [0..<64]" by code_simp
  then show ?thesis using True by (simp add: list_all_iff del: upt_conv_Cons)
qed (auto dest: bit_imp_le_length)

lemma high_bits_load:
  "v AND 0x8080808080808080 = load_word (map (\<lambda>i. if bit v (8 * i + 7) then 0x80 else 0) [0..<8])"
  (is "_ = load_word ?bs")
proof (rule bit_word_eqI)
  fix n assume n: "n < LENGTH(64)"
  define i j where "i = n div 8" and "j = n mod 8"
  then have ij: "n = 8 * i + j" "i < 8" "j < 8" using n by auto
  have "?bs ! i = (if bit v (8 * i + 7) then 0x80 else 0)" using ij(2) by (simp del: upt_rec_numeral)
  moreover have "bit (load_word ?bs) n \<longleftrightarrow> bit (?bs ! i) j"
    using ij bit_load_word [of ?bs j i] by (simp del: upt_rec_numeral)
  moreover have "bit (0x80 :: u8) j \<longleftrightarrow> j = 7" using ij(3) bit_exp_iff [where 'a = u8, of 7 j] by auto
  ultimately have "bit (load_word ?bs) n \<longleftrightarrow> bit v (8 * i + 7) \<and> j = 7" by simp
  moreover have "bit (0x8080808080808080 :: u64) n \<longleftrightarrow> j = 7"
    unfolding high_mask_bit using n by (simp add: j_def)
  ultimately show "bit (v AND 0x8080808080808080) n = bit (load_word ?bs) n"
    unfolding bit_and_iff using ij(1) by auto
qed

text \<open>The multiplier has no bit 0, so the high bit of the last byte is lost.\<close>

lemma extract_load:
  "drop_bit 56 (load_word [if b0 then 0x80 else 0, if b1 then 0x80 else 0, if b2 then 0x80 else 0, if b3 then 0x80 else 0,
      if b4 then 0x80 else 0, if b5 then 0x80 else 0, if b6 then 0x80 else 0, if b7 then 0x80 else 0] * 0x0002040810204080)
   = movemask [b0, b1, b2, b3, b4, b5, b6]"
  unfolding load_word_def movemask_def
  by (cases b0; cases b1; cases b2; cases b3; cases b4; cases b5; cases b6; cases b7; simp)

lemma extract_highbits_eq: "extract_highbits v = movemask (map (\<lambda>i. bit v (8 * i + 7)) [0..<7])"
proof -
  have "[0..<8] = [0, 1, 2, 3, 4, 5, 6, 7 :: nat]" "[0..<7] = [0, 1, 2, 3, 4, 5, 6 :: nat]"
    by (simp_all add: upt_conv_Cons)
  then show ?thesis
    unfolding extract_highbits_def high_bits_load by (simp only: list.map extract_load)
qed

lemma bit_extract_highbits: "bit (extract_highbits v) i \<longleftrightarrow> i < 7 \<and> bit v (8 * i + 7)"
  unfolding extract_highbits_eq by (subst bit_movemask) (auto simp del: upt_rec_numeral)

lemma take_bit_clear: "\<not> bit x n \<Longrightarrow> take_bit (Suc n) x = take_bit n (x :: int)"
  by (rule bit_eqI) (auto simp: bit_take_bit_iff less_Suc_eq)

lemma borrow_bit:
  fixes a b :: int
  assumes "a mod 2 ^ (k + 8) < 2 ^ k" "2 ^ k \<le> b mod 2 ^ (k + 8)" "b mod 2 ^ (k + 8) < 2 ^ (k + 1)"
  shows "bit (a - b) (k + 7)"
proof -
  define N c d where "N = (2 :: int) ^ (k + 8)" and "c = a mod N" and "d = b mod N"
  have p: "N = 256 * 2 ^ k" "(0 :: int) < 2 ^ k" by (simp_all add: N_def power_add)
  have cd: "0 \<le> c" "c < 2 ^ k" "2 ^ k \<le> d" "d < 2 * 2 ^ k"
    using assms p by (simp_all add: N_def c_def d_def)
  have "(a - b) mod N = (c - d + N) mod N" by (simp add: c_def d_def mod_simps)
  also have "\<dots> = c - d + N" using cd p by (intro mod_pos_pos_trivial) linarith+
  finally have "take_bit (Suc (k + 7)) (a - b) = c - d + N"
    by (simp add: take_bit_eq_mod N_def add.commute)
  moreover have "(2 :: int) ^ (k + 7) = 128 * 2 ^ k" by (simp add: power_add)
  ultimately have "(2 :: int) ^ (k + 7) \<le> take_bit (Suc (k + 7)) (a - b)" using cd p by linarith
  then show ?thesis using take_bit_int_less_exp [of "k + 7" "a - b"] take_bit_clear [of "a - b" "k + 7"] by (metis linorder_not_le)
qed

lemma ones_mod: "i < 8 \<Longrightarrow> 2 ^ (8 * i) \<le> (0x0101010101010101 :: int) mod 2 ^ (8 * i + 8)
    \<and> (0x0101010101010101 :: int) mod 2 ^ (8 * i + 8) < 2 ^ (8 * i + 1)"
proof -
  assume "i < 8"
  then have "i \<in> {0, 1, 2, 3, 4, 5, 6, 7}" by auto
  then show ?thesis by auto
qed

lemma bit_zero_bytes:
  assumes "i < 8"
  shows "bit (zero_bytes x) (8 * i + 7) \<longleftrightarrow> bit (x - 0x0101010101010101) (8 * i + 7) \<and> \<not> bit x (8 * i + 7)"
proof -
  have "bit (0x8080808080808080 :: u64) (8 * i + 7)" unfolding high_mask_bit using assms by simp
  then show ?thesis using assms unfolding zero_bytes_def bit_and_iff bit_not_iff by auto
qed

lemma zero_bytes_covers:
  assumes bs: "length bs = 8" "i < 8" "bs ! i = 0"
  shows "bit (zero_bytes (load_word bs)) (8 * i + 7)"
proof -
  let ?x = "load_word bs"
  have z: "\<not> bit ?x n" if "8 * i \<le> n" "n < 8 * i + 8" for n
    using bit_load_word [of bs "n - 8 * i" i] bs that by simp
  have "take_bit (8 * i + 8) (uint ?x) = take_bit (8 * i) (uint ?x)"
    by (rule bit_eqI) (use z not_less in \<open>auto simp: bit_take_bit_iff bit_uint_iff\<close>)
  then have "uint ?x mod 2 ^ (8 * i + 8) < 2 ^ (8 * i)"
    using take_bit_int_less_exp [of "8 * i" "uint ?x"] by (simp add: take_bit_eq_mod)
  then have "bit (uint ?x - 0x0101010101010101) (8 * i + 7)"
    using ones_mod [OF bs(2)] by (intro borrow_bit) auto
  then have "bit (word_of_int (uint ?x - 0x0101010101010101) :: u64) (8 * i + 7)"
    unfolding bit_word_of_int_iff using bs(2) by simp
  then show ?thesis using bs(2) z [of "8 * i + 7"] by (simp add: bit_zero_bytes)
qed

lemma needle_load: "ucast h2 * 0x0101010101010101 = load_word (replicate 8 h2)"
  by (simp add: load_word_def eval_nat_numeral algebra_simps)

lemma load_word_xor:
  assumes "length bs = 8"
  shows "load_word bs XOR ucast h2 * 0x0101010101010101 = load_word (map (\<lambda>b. b XOR h2) bs)"
proof (rule bit_word_eqI)
  fix n assume "n < LENGTH(64)"
  then have n: "n = 8 * (n div 8) + n mod 8" "n mod 8 < 8" "n div 8 < 8" by auto
  have "bit (load_word (replicate 8 h2)) (8 * (n div 8) + n mod 8) \<longleftrightarrow> bit h2 (n mod 8)"
    using n(2,3) by (subst bit_load_word) auto
  then show "bit (load_word bs XOR ucast h2 * 0x0101010101010101) n = bit (load_word (map (\<lambda>b. b XOR h2) bs)) n"
    unfolding needle_load bit_xor_iff using n assms
      bit_load_word [of bs "n mod 8" "n div 8"] bit_load_word [of "map (\<lambda>b. b XOR h2) bs" "n mod 8" "n div 8"]
    by (auto simp: bit_xor_iff)
qed

lemma byte_match:
  assumes "length bs = 8"
  shows "i < 7 \<Longrightarrow> bs ! i = h2 \<Longrightarrow> bit (extract_highbits (zero_bytes (load_word bs XOR ucast h2 * 0x0101010101010101))) i"
    and "bit (extract_highbits (zero_bytes (load_word bs XOR ucast h2 * 0x0101010101010101))) i
      \<Longrightarrow> i < 7 \<and> (bit (bs ! i) 7 \<longleftrightarrow> bit h2 7)"
proof -
  let ?x = "map (\<lambda>b. b XOR h2) bs"
  show "bit (extract_highbits (zero_bytes (load_word bs XOR ucast h2 * 0x0101010101010101))) i" if "i < 7" "bs ! i = h2"
    using that assms zero_bytes_covers [of ?x i] by (simp add: load_word_xor bit_extract_highbits)
  show "i < 7 \<and> (bit (bs ! i) 7 \<longleftrightarrow> bit h2 7)"
    if "bit (extract_highbits (zero_bytes (load_word bs XOR ucast h2 * 0x0101010101010101))) i"
    using that assms bit_load_word [of ?x 7 i]
    by (auto simp: load_word_xor bit_extract_highbits bit_zero_bytes bit_xor_iff)
qed

lemma halves_bit:
  assumes "\<And>i. bit (lo :: u64) i \<Longrightarrow> i < 8"
  shows "bit (lo OR push_bit 8 hi) i \<longleftrightarrow> (if i < 8 then bit lo i else i < 64 \<and> bit hi (i - 8))"
  using assms [of i] by (auto simp: bit_simps)

lemma swar_match_covers:
  assumes "length grp = 16" "i < 16" "i \<noteq> 7" "i \<noteq> 15" "grp ! i = h2"
  shows "bit (swar_match h2 grp) i"
proof (cases "i < 8")
  case True
  then show ?thesis
    using assms byte_match(1) [of "take 8 grp" i h2] by (simp add: swar_match_def Let_def bit_or_iff)
next
  case False
  then have "i - 8 < 7" using assms by auto
  then show ?thesis
    using assms False byte_match(1) [of "drop 8 grp" "i - 8" h2]
    by (simp add: swar_match_def Let_def bit_simps)
qed

lemma swar_match_occupied:
  assumes "length grp = 16" "\<not> bit h2 7" "bit (swar_match h2 grp) i"
  shows "i < 16 \<and> \<not> bit (grp ! i) 7"
proof (cases "i < 8")
  case True
  then show ?thesis
    using assms byte_match(2) [of "take 8 grp" h2 i]
    by (auto simp: swar_match_def Let_def bit_simps)
next
  case False
  then show ?thesis
    using assms byte_match(2) [of "drop 8 grp" h2 "i - 8"] byte_match(2) [of "take 8 grp" h2 i]
    by (auto simp: swar_match_def Let_def bit_simps)
qed

lemma bit_swar_match_empty:
  assumes "length grp = 16"
  shows "bit (swar_match_empty grp) i \<longleftrightarrow> i < 16 \<and> i \<noteq> 7 \<and> i \<noteq> 15 \<and> bit (grp ! i) 7"
proof (cases "i < 8")
  case True
  then show ?thesis
    using assms bit_load_word [of "take 8 grp" 7 i]
    by (auto simp: swar_match_empty_def Let_def bit_simps bit_extract_highbits)
next
  case False
  then show ?thesis
    using assms bit_load_word [of "drop 8 grp" 7 "i - 8"]
    by (auto simp: swar_match_empty_def Let_def bit_simps bit_extract_highbits)
qed


section \<open>What a table needs of an arm\<close>

text \<open>
  An arm sees a set of lanes of the group.  It reports every seen lane with the tag, and may report
  another lane as long as that lane is occupied, since the table compares the whole node afterwards.  It
  reports exactly the seen lanes that are empty.  The seen lanes are at least seven eighths of the group,
  which is the load factor of the table.
\<close>

locale probe_group =
  fixes A :: group_arm and lanes :: "nat set"
  assumes width: "g_width A \<in> {16, 32, 64}"
    and lanes_sub: "lanes \<subseteq> {..<g_width A}"
    and lanes_card: "7 * g_width A \<le> 8 * card lanes"
    and match_covers: "\<lbrakk>length grp = g_width A; i \<in> lanes; grp ! i = h2\<rbrakk> \<Longrightarrow> bit (g_match A h2 grp) i"
    and match_occupied: "\<lbrakk>length grp = g_width A; \<not> bit h2 7; bit (g_match A h2 grp) i\<rbrakk>
      \<Longrightarrow> i < g_width A \<and> \<not> bit (grp ! i) 7"
    and match_empty: "length grp = g_width A \<Longrightarrow> bit (g_match_empty A grp) i \<longleftrightarrow> i \<in> lanes \<and> bit (grp ! i) 7"

definition portable_lanes :: "nat set" where
  "portable_lanes = {..<16} - {7, 15}"

lemmas arm_defs = avx512_arm_def avx2_arm_def sse2_arm_def neon_arm_def swar_arm_def

lemma vector_arm_laws:
  assumes "length grp \<le> 64"
  shows "bit (vector_match h2 grp) i \<longleftrightarrow> i < length grp \<and> grp ! i = h2"
    and "bit (vector_match_empty grp) i \<longleftrightarrow> i < length grp \<and> bit (grp ! i) 7"
  using assms by (auto simp: vector_match_def vector_match_empty_def bit_movemask)

interpretation avx512: probe_group avx512_arm "{..<64}"
  by unfold_locales (auto simp: arm_defs vector_arm_laws)

interpretation avx2: probe_group avx2_arm "{..<32}"
  by unfold_locales (auto simp: arm_defs vector_arm_laws)

interpretation sse2: probe_group sse2_arm "{..<16}"
  by unfold_locales (auto simp: arm_defs vector_arm_laws)

interpretation neon: probe_group neon_arm "{..<16}"
  by unfold_locales (auto simp: arm_defs neon_match_eq neon_match_empty_eq vector_arm_laws)

interpretation swar: probe_group swar_arm portable_lanes
proof unfold_locales
  show "7 * g_width swar_arm \<le> 8 * card portable_lanes"
    by (simp add: portable_lanes_def arm_defs card_Diff_subset)
qed (auto simp: arm_defs portable_lanes_def bit_swar_match_empty intro: swar_match_covers dest: swar_match_occupied)

end
