(* ===== verification/Intern_Table.thy ===== *)
theory Intern_Table
  imports Swiss_Group Hash_Mix Sym_Expr
begin

text \<open>
  The intern table of \<^verbatim>\<open>crucible/ExprPool.h\<close>: the structural hash, the probe, the insertion, the growth and
  the objects the constructor of the pool seeds.  A node is known by its position in the arena; its
  address is a parameter that only the hash reads.  The table is open addressed with triangular probing
  over groups of control bytes, and the group operations are an argument, so that each instruction set
  has its own table.

  A capacity is at most \<open>2\<^sup>3\<^sup>0\<close>, so the products of sizes are far from the 64-bit range and sizes are
  natural numbers; the product with the hash wraps, and is a product of words.
\<close>

section \<open>Nodes and hashes\<close>

definition all_ops :: "expr_op list" where
  "all_ops = [Op_INTEGER, Op_FLOAT, Op_SYMBOL, Op_BOOL_TRUE, Op_BOOL_FALSE, Op_ADD, Op_MUL, Op_POW,
     Op_EQ, Op_NE, Op_LT, Op_LE, Op_GT, Op_GE, Op_AND, Op_OR, Op_NOT,
     Op_FLOOR_DIV, Op_CLEAN_DIV, Op_CEIL_DIV, Op_INT_TRUE_DIV, Op_FLOAT_TRUE_DIV, Op_MOD, Op_PYTHON_MOD, Op_MODULAR_INDEXING,
     Op_CEIL_TO_INT, Op_FLOOR_TO_INT, Op_TRUNC_TO_FLOAT, Op_TRUNC_TO_INT, Op_ROUND_TO_INT, Op_ROUND_DECIMAL, Op_TO_FLOAT,
     Op_LSHIFT, Op_RSHIFT, Op_POW_BY_NATURAL, Op_FLOAT_POW, Op_WHERE, Op_IDENTITY, Op_MIN, Op_MAX,
     Op_IS_NON_OVERLAPPING_AND_DENSE,
     Op_SQRT, Op_COS, Op_COSH, Op_SIN, Op_SINH, Op_TAN, Op_TANH, Op_ASIN, Op_ACOS, Op_ATAN, Op_EXP, Op_LOG, Op_ASINH, Op_LOG2,
     Op_ABS, Op_BITWISE_AND, Op_BITWISE_OR, Op_BITWISE_XOR, Op_NEG]"

text \<open>The position of an operation in the enumeration.\<close>

definition op_code :: "expr_op \<Rightarrow> u8" where
  "op_code opr = of_nat (length (takeWhile (\<lambda>x. x \<noteq> opr) all_ops))"

definition packed_metadata :: "expr_op \<Rightarrow> u8 \<Rightarrow> u16 \<Rightarrow> u32 \<Rightarrow> u64" where
  "packed_metadata opr nargs flags symbol =
    ucast (op_code opr) OR push_bit 8 (ucast nargs) OR push_bit 16 (ucast flags) OR push_bit 32 (ucast symbol)"

definition expr_hash :: "(nat \<Rightarrow> u64) \<Rightarrow> expr_op \<Rightarrow> int \<Rightarrow> u32 \<Rightarrow> u16 \<Rightarrow> nat list \<Rightarrow> u64" where
  "expr_hash address opr payload symbol flags args =
    (let mixed = fmix64 (packed_metadata opr (of_nat (length args)) flags symbol XOR 0x9E3779B97F4A7C15
           XOR (word_of_int payload XOR 0x517CC1B727220A95))
     in case args of
          [] \<Rightarrow> mixed
        | [x] \<Rightarrow> combine_ids mixed (address x)
        | [x, y] \<Rightarrow> combine_ids (combine_ids mixed (address x)) (address y)
        | _ \<Rightarrow> foldl (\<lambda>h x. combine_ids h (address x)) mixed args)"

record expr_node =
  en_op :: expr_op
  en_nargs :: u8
  en_flags :: u16
  en_symbol :: u32
  en_hash :: u64
  en_payload :: int
  en_args :: "nat list"

text \<open>The fields of the object under construction, which the probe compares before anything is allocated.\<close>

definition make_node :: "(nat \<Rightarrow> u64) \<Rightarrow> expr_op \<Rightarrow> nat list \<Rightarrow> u16 \<Rightarrow> u32 \<Rightarrow> int \<Rightarrow> expr_node" where
  "make_node address opr args flags symbol payload =
    \<lparr>en_op = opr, en_nargs = of_nat (length args), en_flags = flags, en_symbol = symbol,
     en_hash = expr_hash address opr payload symbol flags args, en_payload = payload, en_args = args\<rparr>"

definition args_match :: "nat \<Rightarrow> nat list \<Rightarrow> nat list \<Rightarrow> bool" where
  "args_match n xs ys \<longleftrightarrow>
    (if n = 0 then True
     else if n = 1 then xs ! 0 = ys ! 0
     else if n = 2 then xs ! 0 = ys ! 0 \<and> xs ! 1 = ys ! 1
     else if n = 3 then xs ! 0 = ys ! 0 \<and> xs ! 1 = ys ! 1 \<and> xs ! 2 = ys ! 2
     else list_all (\<lambda>i. xs ! i = ys ! i) [0..<n])"

definition same_node :: "expr_node \<Rightarrow> expr_node \<Rightarrow> bool" where
  "same_node existing query \<longleftrightarrow>
    en_hash existing = en_hash query \<and> en_payload existing = en_payload query \<and>
    packed_metadata (en_op existing) (en_nargs existing) (en_flags existing) (en_symbol existing)
      = packed_metadata (en_op query) (en_nargs query) (en_flags query) (en_symbol query) \<and>
    args_match (unat (en_nargs query)) (en_args existing) (en_args query)"


section \<open>The table\<close>

record intern_table =
  it_ctrl :: "u8 list"
  it_slots :: "nat option list"
  it_capacity :: nat
  it_count :: nat
  it_nodes :: "expr_node list"

definition is_swiss_table_capacity :: "nat \<Rightarrow> bool" where
  "is_swiss_table_capacity capacity \<longleftrightarrow>
    (if capacity = 0 then True
     else capacity AND (capacity - 1) = 0 \<and> capacity \<ge> 16 \<and> capacity \<le> 2 ^ 30)"

definition probe_start :: "nat \<Rightarrow> nat \<Rightarrow> u64 \<Rightarrow> nat" where
  "probe_start width cap hash = unat ((hash * of_nat width) AND of_nat (cap - 1))"

definition probe_next :: "nat \<Rightarrow> nat \<Rightarrow> nat \<Rightarrow> nat \<Rightarrow> nat" where
  "probe_next width cap base iteration = (base + iteration * width) AND (cap - 1)"

definition load_group :: "group_arm \<Rightarrow> u8 list \<Rightarrow> nat \<Rightarrow> u8 list" where
  "load_group A ctrl base = take (g_width A) (drop base ctrl)"

text \<open>The loop over the lanes that carry the tag.  An empty slot holds the null pointer, and reading through it
  would be a fault.\<close>

function scan_matches :: "nat \<Rightarrow> nat option list \<Rightarrow> expr_node list \<Rightarrow> expr_node \<Rightarrow> nat \<Rightarrow> u64 \<Rightarrow> nat option checked" where
  "scan_matches width slots nodes query base matches =
    (if matches = 0 then ok None
     else case slots ! (base + countr_zero matches) of
            None \<Rightarrow> fail Aborted
          | Some p \<Rightarrow>
              if same_node (nodes ! p) query then ok (Some p)
              else case clear_lowest width matches of
                     Inl e \<Rightarrow> fail e
                   | Inr rest \<Rightarrow> scan_matches width slots nodes query base rest)"
  by auto
termination
  by (relation "measure (\<lambda>(_, _, _, _, _, m). unat m)")
     (auto simp: clear_lowest_def checked_mask_def word_less_nat_alt [symmetric] clear_lowest_less split: if_splits)

declare scan_matches.simps [simp del]

datatype probe_result = Found nat | Vacant nat

partial_function (option) probe_node ::
    "group_arm \<Rightarrow> expr_node \<Rightarrow> intern_table \<Rightarrow> nat \<Rightarrow> nat \<Rightarrow> probe_result checked option" where
  [code]: "probe_node A query t base iteration =
    (if \<not> base + g_width A \<le> it_capacity t then Some (fail Fatal_invariant)
     else run_step (checked_mask (g_width A) (g_match A (h2_tag (en_hash query)) (load_group A (it_ctrl t) base))) (\<lambda>matches.
       run_step (scan_matches (g_width A) (it_slots t) (it_nodes t) query base matches) (\<lambda>hit.
         if hit \<noteq> None then Some (ok (Found (the hit)))
         else run_step (checked_mask (g_width A) (g_match_empty A (load_group A (it_ctrl t) base))) (\<lambda>empties.
           if empties \<noteq> 0 then Some (ok (Vacant (base + countr_zero empties)))
           else probe_node A query t (probe_next (g_width A) (it_capacity t) base (iteration + 1)) (iteration + 1)))))"

text \<open>The probe of a re-insertion only looks for an empty slot.\<close>

partial_function (option) probe_vacant :: "group_arm \<Rightarrow> u8 list \<Rightarrow> nat \<Rightarrow> nat \<Rightarrow> nat \<Rightarrow> nat checked option" where
  [code]: "probe_vacant A ctrl cap base iteration =
    (if \<not> base + g_width A \<le> cap then Some (fail Fatal_invariant)
     else run_step (checked_mask (g_width A) (g_match_empty A (load_group A ctrl base))) (\<lambda>empties.
       if empties \<noteq> 0 then Some (ok (base + countr_zero empties))
       else probe_vacant A ctrl cap (probe_next (g_width A) cap base (iteration + 1)) (iteration + 1)))"

fun reinsert :: "group_arm \<Rightarrow> expr_node list \<Rightarrow> nat \<Rightarrow> (u8 \<times> nat option) list \<Rightarrow> u8 list \<Rightarrow> nat option list \<Rightarrow> nat
    \<Rightarrow> (u8 list \<times> nat option list \<times> nat) checked option" where
  "reinsert A nodes cap [] ctrl slots reinserted = Some (ok (ctrl, slots, reinserted))"
| "reinsert A nodes cap ((c, s) # old) ctrl slots reinserted =
    (if c = kEmpty then reinsert A nodes cap old ctrl slots reinserted
     else case s of
            None \<Rightarrow> Some (fail Aborted)
          | Some p \<Rightarrow>
              and_run (probe_vacant A ctrl cap (probe_start (g_width A) cap (en_hash (nodes ! p))) 0) (\<lambda>i.
                reinsert A nodes cap old (ctrl[i := h2_tag (en_hash (nodes ! p))]) (slots[i := Some p]) (reinserted + 1)))"

definition grow_to :: "group_arm \<Rightarrow> nat \<Rightarrow> intern_table \<Rightarrow> intern_table checked option" where
  "grow_to A new_capacity t =
    (if \<not> is_swiss_table_capacity new_capacity then Some (fail Contract_violation)
     else if \<not> new_capacity \<ge> g_width A then Some (fail Contract_violation)
     else and_run (reinsert A (it_nodes t) new_capacity (zip (it_ctrl t) (it_slots t))
                     (replicate new_capacity kEmpty) (replicate new_capacity None) 0) (\<lambda>(ctrl, slots, reinserted).
       if reinserted \<noteq> it_count t then Some (fail Contract_violation)
       else Some (ok (t\<lparr>it_ctrl := ctrl, it_slots := slots, it_capacity := new_capacity, it_count := reinserted\<rparr>))))"

definition rehash :: "group_arm \<Rightarrow> intern_table \<Rightarrow> intern_table checked option" where
  "rehash A t = grow_to A (it_capacity t * 2) t"

definition insert_node :: "expr_node \<Rightarrow> nat \<Rightarrow> intern_table \<Rightarrow> intern_table" where
  "insert_node q i t =
    t\<lparr>it_ctrl := (it_ctrl t)[i := h2_tag (en_hash q)], it_slots := (it_slots t)[i := Some (length (it_nodes t))],
      it_count := it_count t + 1, it_nodes := it_nodes t @ [q]\<rparr>"

definition intern_node :: "group_arm \<Rightarrow> (nat \<Rightarrow> u64) \<Rightarrow> expr_op \<Rightarrow> nat list \<Rightarrow> u16 \<Rightarrow> u32 \<Rightarrow> int \<Rightarrow> intern_table
    \<Rightarrow> (nat \<times> intern_table) checked option" where
  "intern_node A address opr args flags symbol payload t0 =
    and_run (if it_count t0 * 8 \<ge> it_capacity t0 * 7 then rehash A t0 else Some (ok t0)) (\<lambda>t.
      let q = make_node address opr args flags symbol payload
      in and_run (probe_node A q t (probe_start (g_width A) (it_capacity t) (en_hash q)) 0) (\<lambda>r.
           case r of
             Found p \<Rightarrow> Some (ok (p, t))
           | Vacant i \<Rightarrow> Some (ok (length (it_nodes t), insert_node q i t))))"

text \<open>Doubling from one group up to a bound; a group has at least sixteen lanes.\<close>

function doubled_until :: "nat \<Rightarrow> nat \<Rightarrow> nat" where
  "doubled_until cap needed = (if needed \<le> cap \<or> cap = 0 then cap else doubled_until (cap * 2) needed)"
  by auto
termination
  by (relation "measure (\<lambda>(cap, needed). needed - cap)") auto

declare doubled_until.simps [simp del]

definition rounded_capacity :: "nat \<Rightarrow> nat \<Rightarrow> nat" where
  "rounded_capacity width initial_capacity = doubled_until width initial_capacity"

definition reserve :: "group_arm \<Rightarrow> nat \<Rightarrow> intern_table \<Rightarrow> intern_table checked option" where
  "reserve A n_entries t =
    (if \<not> n_entries \<le> (2 ^ 30 * 7) div 8 then Some (fail Contract_violation)
     else let target = doubled_until (g_width A) ((n_entries * 8 + 6) div 7)
          in and_run (if target > it_capacity t then grow_to A target t else Some (ok t)) (\<lambda>t'.
               if n_entries * 8 \<le> it_capacity t' * 7 then Some (ok t') else Some (fail Contract_violation)))"

definition empty_table :: "group_arm \<Rightarrow> nat \<Rightarrow> intern_table checked" where
  "empty_table A initial_capacity =
    (if \<not> initial_capacity \<le> 2 ^ 30 then fail Contract_violation
     else let cap = rounded_capacity (g_width A) initial_capacity
          in if \<not> is_swiss_table_capacity cap then fail Fatal_invariant
             else ok \<lparr>it_ctrl = replicate cap kEmpty, it_slots = replicate cap None, it_capacity = cap, it_count = 0,
                      it_nodes = []\<rparr>)"

end
