(* ===== verification/Intern_Probe.thy ===== *)
theory Intern_Probe
  imports Intern_Table
begin

text \<open>
  The probe of the intern table: the node comparison is equality, the triangular probe sequence visits
  every group once, and on a table whose entries are homed along their probe sequence a probe ends, at
  the entry or at the first empty lane the arm sees.
\<close>

section \<open>The comparison of nodes\<close>

lemma all_ops_complete: "opr \<in> set all_ops"
  by (cases opr) (simp_all add: all_ops_def)

lemma op_code_inj: "op_code a = op_code b \<longleftrightarrow> a = b"
proof
  let ?n = "\<lambda>x. length (takeWhile (\<lambda>y. y \<noteq> x) all_ops)"
  have n: "?n x < length all_ops" "all_ops ! ?n x = x" for x
  proof -
    have "takeWhile (\<lambda>y. y \<noteq> x) all_ops \<noteq> all_ops"
      using all_ops_complete [of x] by (metis (full_types) set_takeWhileD)
    then show *: "?n x < length all_ops"
      by (metis length_takeWhile_le linorder_not_less order_le_imp_less_or_eq takeWhile_eq_take take_all)
    show "all_ops ! ?n x = x" using nth_length_takeWhile [OF *] by simp
  qed
  assume "op_code a = op_code b"
  moreover have "length all_ops = 60" by (simp add: all_ops_def)
  ultimately have "?n a = ?n b"
    using n(1) [of a] n(1) [of b] by (simp add: op_code_def word_of_nat_eq_iff take_bit_nat_eq_self)
  then show "a = b" using n(2) by metis
qed simp

lemma bit_word_beyond: "LENGTH('a) \<le> k \<Longrightarrow> \<not> bit (w :: 'a::len word) k"
  by (auto dest: bit_imp_le_length)

lemma packed_metadata_inj:
  "packed_metadata a n f s = packed_metadata b m g r \<longleftrightarrow> a = b \<and> n = m \<and> f = g \<and> s = r"
proof
  assume eq: "packed_metadata a n f s = packed_metadata b m g r"
  have bits: "bit (packed_metadata a n f s) k = bit (packed_metadata b m g r) k" for k by (simp add: eq)
  note field = packed_metadata_def bit_or_iff bit_push_bit_iff bit_ucast_iff
  have "op_code a = op_code b"
  proof (rule bit_word_eqI)
    fix k assume "k < LENGTH(8)"
    then show "bit (op_code a) k = bit (op_code b) k" using bits [of k] by (simp add: field)
  qed
  moreover have "n = m"
  proof (rule bit_word_eqI)
    fix k assume "k < LENGTH(8)"
    then show "bit n k = bit m k" using bits [of "k + 8"] by (simp add: field bit_word_beyond)
  qed
  moreover have "f = g"
  proof (rule bit_word_eqI)
    fix k assume "k < LENGTH(16)"
    then show "bit f k = bit g k" using bits [of "k + 16"] by (simp add: field bit_word_beyond)
  qed
  moreover have "s = r"
  proof (rule bit_word_eqI)
    fix k assume "k < LENGTH(32)"
    then show "bit s k = bit r k" using bits [of "k + 32"] by (simp add: field bit_word_beyond)
  qed
  ultimately show "a = b \<and> n = m \<and> f = g \<and> s = r" by (simp add: op_code_inj)
qed simp

definition made_node :: "(nat \<Rightarrow> u64) \<Rightarrow> expr_node \<Rightarrow> bool" where
  "made_node address n \<longleftrightarrow> length (en_args n) < 256 \<and>
    n = make_node address (en_op n) (en_args n) (en_flags n) (en_symbol n) (en_payload n)"

lemma made_make_node: "length args < 256 \<Longrightarrow> made_node address (make_node address opr args flags symbol payload)"
  by (simp add: made_node_def make_node_def)

lemma args_match_iff: "args_match n xs ys \<longleftrightarrow> (\<forall>i<n. xs ! i = ys ! i)"
proof -
  consider "n = 0" | "n = 1" | "n = 2" | "n = 3" | "n > 3" by linarith
  then show ?thesis
    by cases (auto simp: args_match_def list_all_iff less_Suc_eq numeral_2_eq_2 numeral_3_eq_3)
qed

lemma same_node_iff:
  assumes "made_node address e" "made_node address q"
  shows "same_node e q \<longleftrightarrow> e = q"
proof
  assume s: "same_node e q"
  have n: "unat (en_nargs x) = length (en_args x)" if "made_node address x" for x
  proof -
    have "en_nargs x = of_nat (length (en_args x))" using that
      by (metis made_node_def make_node_def expr_node.select_convs(2))
    then show ?thesis using that by (simp add: made_node_def unat_of_nat)
  qed
  have f: "en_op e = en_op q" "en_nargs e = en_nargs q" "en_flags e = en_flags q" "en_symbol e = en_symbol q"
    "en_payload e = en_payload q"
    using s by (simp_all add: same_node_def packed_metadata_inj)
  have "en_args e = en_args q"
    using s n [OF assms(1)] n [OF assms(2)] f(2) by (auto simp: same_node_def args_match_iff intro: nth_equalityI)
  then show "e = q" using assms f by (metis made_node_def)
qed (simp add: same_node_def args_match_iff)


section \<open>The probe sequence\<close>

definition triangle :: "nat \<Rightarrow> nat" where
  "triangle k = k * (k + 1) div 2"

text \<open>The group that a hash visits in iteration \<open>k\<close>, in a table of \<open>2\<^sup>j\<close> groups.\<close>

definition probe_at :: "nat \<Rightarrow> u64 \<Rightarrow> nat \<Rightarrow> nat" where
  "probe_at j hash k = (unat hash + triangle k) mod 2 ^ j"

lemma triangle_0 [simp]: "triangle 0 = 0"
  by (simp add: triangle_def)

lemma triangle_double: "2 * triangle k = k * (k + 1)"
  by (simp add: triangle_def)

lemma triangle_Suc: "triangle (Suc k) = triangle k + Suc k"
  using triangle_double [of k] triangle_double [of "Suc k"] by simp

lemma probe_at_less: "probe_at j hash k < 2 ^ j"
  by (simp add: probe_at_def)

lemma triangle_mod_inj:
  assumes "k < l" "l < 2 ^ j"
  shows "triangle k mod 2 ^ j \<noteq> triangle l mod 2 ^ j"
proof
  assume "triangle k mod 2 ^ j = triangle l mod 2 ^ j"
  moreover have tri: "2 * triangle l = 2 * triangle k + (l - k) * (l + k + 1)"
    unfolding triangle_double using assms(1) by (auto simp: algebra_simps dest!: less_imp_Suc_add)
  moreover have "triangle k \<le> triangle l" using tri by linarith
  ultimately have "2 ^ j dvd triangle l - triangle k" by (metis mod_eq_dvd_iff_nat)
  then have "2 ^ Suc j dvd 2 * (triangle l - triangle k)" by simp
  also have "2 * (triangle l - triangle k) = (l - k) * (l + k + 1)" using tri by (simp add: right_diff_distrib')
  finally have d: "2 ^ Suc j dvd (l - k) * (l + k + 1)" .
  show False
  proof (cases "even (l - k)")
    case True
    then have "coprime (2 ^ Suc j) (l + k + 1)" using assms(1) by auto
    then have "2 ^ Suc j dvd l - k" using d coprime_dvd_mult_left_iff by blast
    then show False using assms by (auto dest!: dvd_imp_le)
  next
    case False
    then have "coprime (2 ^ Suc j) (l - k)" by simp
    then have "2 ^ Suc j dvd l + k + 1" using d coprime_dvd_mult_right_iff by blast
    then show False using assms by (auto dest!: dvd_imp_le)
  qed
qed

lemma mod_add_cancel:
  fixes a x y m :: nat
  assumes "(a + x) mod m = (a + y) mod m"
  shows "x mod m = y mod m"
proof -
  have "(int a + int x) mod int m = (int a + int y) mod int m"
    using arg_cong [OF assms, of int] by (simp add: zmod_int)
  then have "int x mod int m = int y mod int m" by (simp add: mod_eq_dvd_iff)
  then show ?thesis by (metis of_nat_eq_iff zmod_int)
qed

lemma probe_at_inj:
  assumes "k < 2 ^ j" "l < 2 ^ j" "probe_at j hash k = probe_at j hash l"
  shows "k = l"
proof -
  have "triangle k mod 2 ^ j = triangle l mod 2 ^ j"
    using assms(3) unfolding probe_at_def by (rule mod_add_cancel)
  then show ?thesis
    using triangle_mod_inj [of k l j] triangle_mod_inj [of l k j] assms(1,2) by (metis linorder_neqE_nat)
qed

lemma probe_at_covers: "g < 2 ^ j \<Longrightarrow> \<exists>k<2 ^ j. probe_at j hash k = g"
proof -
  assume g: "g < 2 ^ j"
  have "inj_on (probe_at j hash) {..<2 ^ j}" by (auto simp: inj_on_def dest: probe_at_inj)
  moreover have "probe_at j hash ` {..<2 ^ j} \<subseteq> {..<2 ^ j}" using probe_at_less by auto
  ultimately have "probe_at j hash ` {..<2 ^ j} = {..<2 ^ j}" by (simp add: endo_inj_surj)
  then show ?thesis using g by (metis imageE lessThan_iff)
qed

lemma width_power:
  assumes "w \<in> {16, 32, 64 :: nat}"
  obtains g where "w = 2 ^ g" "g \<le> 6"
proof -
  have "w = 2 ^ 4 \<or> w = 2 ^ 5 \<or> w = 2 ^ 6" using assms by auto
  then show thesis using that by fastforce
qed

lemma probe_start_eq:
  assumes "w \<in> {16, 32, 64}" "w * 2 ^ j \<le> (2 :: nat) ^ 30"
  shows "probe_start w (w * 2 ^ j) hash = w * probe_at j hash 0"
proof -
  obtain g where g: "w = 2 ^ g" "g \<le> 6" by (rule width_power [OF assms(1)])
  have "(2 :: nat) ^ (g + j) \<le> 2 ^ 30" using assms(2) g by (simp add: power_add)
  then have gj: "g + j \<le> 30" by (rule power_le_imp_le_exp [rotated]) simp
  have m: "of_nat (w * 2 ^ j - 1) = (mask (g + j) :: u64)"
    by (simp add: g mask_eq_exp_minus_1 of_nat_diff power_add)
  have "probe_start w (w * 2 ^ j) hash = unat (take_bit (g + j) (hash * of_nat w))"
    by (simp only: probe_start_def m take_bit_eq_mask)
  also have "\<dots> = take_bit (g + j) (unat (hash * of_nat w))" by (simp add: unsigned_take_bit_eq)
  also have "unat (hash * of_nat w) = (unat hash * w) mod 2 ^ 64"
    by (simp add: unat_word_ariths unat_of_nat mod_simps)
  also have "take_bit (g + j) ((unat hash * w) mod 2 ^ 64) = (unat hash * w) mod 2 ^ (g + j)"
    unfolding take_bit_eq_mod using gj by (intro mod_mod_cancel le_imp_power_dvd) simp
  also have "\<dots> = (w * unat hash) mod (w * 2 ^ j)" by (simp add: g power_add mult.commute)
  also have "\<dots> = w * (unat hash mod 2 ^ j)" by (rule mult_mod_right [symmetric])
  finally show ?thesis by (simp add: probe_at_def)
qed

lemma and_pow2: "(x :: nat) AND (2 ^ n - 1) = x mod 2 ^ n"
  by (metis mask_eq_exp_minus_1 take_bit_eq_mask take_bit_eq_mod)

lemma probe_next_eq:
  assumes "w \<in> {16, 32, 64}"
  shows "probe_next w (w * 2 ^ j) (w * probe_at j hash k) (k + 1) = w * probe_at j hash (k + 1)"
proof -
  obtain g where g: "w = 2 ^ g" by (rule width_power [OF assms])
  have "probe_next w (w * 2 ^ j) (w * probe_at j hash k) (k + 1) = (w * (probe_at j hash k + (k + 1))) mod (w * 2 ^ j)"
    using and_pow2 [of _ "g + j"] by (simp add: probe_next_def g power_add algebra_simps)
  also have "\<dots> = w * ((probe_at j hash k + (k + 1)) mod 2 ^ j)" by (simp add: mult_mod_right)
  also have "(probe_at j hash k + (k + 1)) mod 2 ^ j = (unat hash + triangle k + (k + 1)) mod 2 ^ j"
    unfolding probe_at_def by (rule mod_add_left_eq)
  finally show ?thesis by (simp add: probe_at_def triangle_Suc add.assoc)
qed


section \<open>The scan of the candidates\<close>

lemma scan_none:
  assumes w: "w \<in> {16, 32, 64}" and occ: "\<And>i. bit m i \<Longrightarrow> i < w \<and> (\<exists>p. slots ! (base + i) = Some p \<and> \<not> same_node (nodes ! p) q)"
  shows "scan_matches w slots nodes q base m = ok None"
  using w occ
proof (induction w slots nodes q base m rule: scan_matches.induct)
  case (1 w slots nodes q base m)
  show ?case
  proof (cases "m = 0")
    case False
    note c = countr_zero_props [OF False]
    obtain p where p: "slots ! (base + countr_zero m) = Some p" "\<not> same_node (nodes ! p) q" using "1.prems" c(2) by blast
    have "clear_lowest w m = ok (m AND (m - 1))"
      unfolding clear_lowest_def using "1.prems" by (intro mask_below_ceiling) (auto simp: bit_and_iff)
    moreover have "scan_matches w slots nodes q base (m AND (m - 1)) = ok None"
      using "1.IH" [OF False p calculation] "1.prems" by (auto simp: bit_and_iff)
    ultimately show ?thesis using False p by (subst scan_matches.simps) simp
  qed (simp add: scan_matches.simps)
qed

lemma scan_found:
  assumes "w \<in> {16, 32, 64}"
    and "\<And>i. bit m i \<Longrightarrow> i < w \<and> (\<exists>p'. slots ! (base + i) = Some p' \<and> (same_node (nodes ! p') q \<longrightarrow> p' = p))"
    and "bit m i" "slots ! (base + i) = Some p" "same_node (nodes ! p) q"
  shows "scan_matches w slots nodes q base m = ok (Some p)"
  using assms
proof (induction w slots nodes q base m rule: scan_matches.induct)
  case (1 w slots nodes q base m)
  have "m \<noteq> 0" using "1.prems"(3) by auto
  note c = countr_zero_props [OF this]
  obtain p' where p': "slots ! (base + countr_zero m) = Some p'" "same_node (nodes ! p') q \<longrightarrow> p' = p"
    using "1.prems"(2) c(2) by blast
  show ?case
  proof (cases "same_node (nodes ! p') q")
    case True
    then show ?thesis using \<open>m \<noteq> 0\<close> p' by (subst scan_matches.simps) simp
  next
    case False
    then have "i \<noteq> countr_zero m" using p' "1.prems"(4,5) by auto
    have "clear_lowest w m = ok (m AND (m - 1))"
      unfolding clear_lowest_def using "1.prems" by (intro mask_below_ceiling) (auto simp: bit_and_iff)
    moreover have "scan_matches w slots nodes q base (m AND (m - 1)) = ok (Some p)"
    proof (rule "1.IH" [OF \<open>m \<noteq> 0\<close> p'(1) False calculation])
      show "bit (m AND (m - 1)) i"
        using \<open>m \<noteq> 0\<close> \<open>i \<noteq> countr_zero m\<close> "1.prems"(3) by (simp add: bit_clear_lowest)
    qed (use "1.prems" in \<open>auto simp: bit_and_iff\<close>)
    ultimately show ?thesis using \<open>m \<noteq> 0\<close> p' False by (subst scan_matches.simps) simp
  qed
qed


section \<open>Tables whose entries are homed\<close>

text \<open>A group is full when every lane the arm sees is occupied.  An entry is homed when it lies in a seen lane
  and all groups that its hash visits before are full.\<close>

definition group_full :: "nat \<Rightarrow> nat set \<Rightarrow> u8 list \<Rightarrow> nat \<Rightarrow> bool" where
  "group_full w lanes ctrl g \<longleftrightarrow> (\<forall>i\<in>lanes. \<not> bit (ctrl ! (w * g + i)) 7)"

definition homed :: "nat \<Rightarrow> nat set \<Rightarrow> nat \<Rightarrow> u64 \<Rightarrow> u8 list \<Rightarrow> nat \<Rightarrow> bool" where
  "homed w lanes j hash ctrl i \<longleftrightarrow> i mod w \<in> lanes \<and>
    (\<exists>k<2 ^ j. i div w = probe_at j hash k \<and> (\<forall>k'<k. group_full w lanes ctrl (probe_at j hash k')))"

text \<open>The slots hold exactly the nodes of a set, each once, with its tag, in a homed position.\<close>

definition stored :: "nat \<Rightarrow> nat set \<Rightarrow> nat \<Rightarrow> (nat \<Rightarrow> u64) \<Rightarrow> u8 list \<Rightarrow> nat option list \<Rightarrow> nat set \<Rightarrow> bool" where
  "stored w lanes j h ctrl slots P \<longleftrightarrow>
    length ctrl = w * 2 ^ j \<and> length slots = w * 2 ^ j \<and>
    (\<forall>i<w * 2 ^ j. slots ! i = None \<longrightarrow> ctrl ! i = kEmpty) \<and>
    (\<forall>i<w * 2 ^ j. \<forall>p. slots ! i = Some p \<longrightarrow> p \<in> P \<and> ctrl ! i = h2_tag (h p) \<and> homed w lanes j (h p) ctrl i) \<and>
    (\<forall>i<w * 2 ^ j. \<forall>i'<w * 2 ^ j. \<forall>p. slots ! i = Some p \<longrightarrow> slots ! i' = Some p \<longrightarrow> i = i') \<and>
    (\<forall>p\<in>P. \<exists>i<w * 2 ^ j. slots ! i = Some p)"

lemma kEmpty_negative: "bit kEmpty 7"
  by (simp add: kEmpty_def)

lemma stored_occupied:
  assumes "stored w lanes j h ctrl slots P" "i < w * 2 ^ j"
  shows "bit (ctrl ! i) 7 \<longleftrightarrow> slots ! i = None"
  using assms kEmpty_negative h2_tag_positive by (cases "slots ! i") (force simp: stored_def)+

lemma stored_empty: "stored w lanes j h (replicate (w * 2 ^ j) kEmpty) (replicate (w * 2 ^ j) None) {}"
  by (simp add: stored_def)

lemma stored_finite: "stored w lanes j h ctrl slots P \<Longrightarrow> finite P"
proof -
  assume s: "stored w lanes j h ctrl slots P"
  have "Some ` P \<subseteq> set slots" using s by (fastforce simp: stored_def in_set_conv_nth)
  then have "finite (Some ` P)" by (rule finite_subset) simp
  then show ?thesis by (rule finite_imageD) simp
qed

lemma group_full_update:
  assumes "group_full w lanes ctrl g" "\<not> bit c 7"
  shows "group_full w lanes (ctrl[i := c]) g"
  using assms by (auto simp: group_full_def nth_list_update)
     (metis nth_list_update_eq nth_list_update_neq not_le_imp_less list_update_beyond)

lemma homed_update: "homed w lanes j hash ctrl i \<Longrightarrow> \<not> bit c 7 \<Longrightarrow> homed w lanes j hash (ctrl[i' := c]) i"
  unfolding homed_def using group_full_update by blast

lemma stored_insert:
  assumes s: "stored w lanes j h ctrl slots P" and p: "p \<notin> P"
    and i: "i < w * 2 ^ j" "slots ! i = None" "homed w lanes j (h p) ctrl i"
  shows "stored w lanes j h (ctrl[i := h2_tag (h p)]) (slots[i := Some p]) (insert p P)"
proof -
  note st = s [unfolded stored_def] and tag = h2_tag_positive [of "h p"]
  have "\<forall>k<w * 2 ^ j. \<forall>x. slots[i := Some p] ! k = Some x \<longrightarrow> x \<in> insert p P \<and> ctrl[i := h2_tag (h p)] ! k = h2_tag (h x)
      \<and> homed w lanes j (h x) (ctrl[i := h2_tag (h p)]) k"
  proof (intro allI impI)
    fix k x assume k: "k < w * 2 ^ j" "slots[i := Some p] ! k = Some x"
    show "x \<in> insert p P \<and> ctrl[i := h2_tag (h p)] ! k = h2_tag (h x) \<and> homed w lanes j (h x) (ctrl[i := h2_tag (h p)]) k"
      using k st i homed_update [OF _ tag] by (cases "k = i") auto
  qed
  moreover have "\<forall>k<w * 2 ^ j. \<forall>k'<w * 2 ^ j. \<forall>x. slots[i := Some p] ! k = Some x \<longrightarrow> slots[i := Some p] ! k' = Some x
      \<longrightarrow> k = k'"
    using st p i by (auto simp: nth_list_update)
  moreover have "\<forall>x\<in>insert p P. \<exists>k<w * 2 ^ j. slots[i := Some p] ! k = Some x"
  proof
    fix x assume "x \<in> insert p P"
    show "\<exists>k<w * 2 ^ j. slots[i := Some p] ! k = Some x"
    proof (cases "x = p")
      case True
      then show ?thesis using i(1) st by (intro exI [of _ i]) simp
    next
      case False
      then obtain k where k: "k < w * 2 ^ j" "slots ! k = Some x" using \<open>x \<in> insert p P\<close> st by auto
      then have "i \<noteq> k" using i(2) by auto
      then show ?thesis using k by auto
    qed
  qed
  moreover have "\<forall>k<w * 2 ^ j. slots[i := Some p] ! k = None \<longrightarrow> ctrl[i := h2_tag (h p)] ! k = kEmpty"
    using st i(1) by (auto simp: nth_list_update)
  moreover have "length (ctrl[i := h2_tag (h p)]) = w * 2 ^ j" "length (slots[i := Some p]) = w * 2 ^ j"
    using st by simp_all
  ultimately show ?thesis unfolding stored_def by blast
qed


section \<open>Probes end\<close>

context probe_group
begin

abbreviation w :: nat where
  "w \<equiv> g_width A"

lemma width_pos: "0 < w" "w \<le> 64"
  using width by auto

lemma lane_less: "i \<in> lanes \<Longrightarrow> i < w"
  using lanes_sub by auto

lemma slot_less:
  assumes "g < 2 ^ j" "i < w"
  shows "w * g + i < w * 2 ^ j"
proof -
  have "w * g + i < w * Suc g" using assms(2) by simp
  also have "\<dots> \<le> w * 2 ^ j" using assms(1) by (intro mult_le_mono2) simp
  finally show ?thesis .
qed

lemma slot_div_mod: "i < w \<Longrightarrow> (w * g + i) div w = g" "i < w \<Longrightarrow> (w * g + i) mod w = i"
  using width_pos by simp_all

lemma group_in_range: "g < 2 ^ j \<Longrightarrow> w * g + w \<le> w * 2 ^ j"
  using mult_le_mono2 [of "Suc g" "2 ^ j" w] by simp

lemma load_group_nth:
  assumes "length ctrl = w * 2 ^ j" "g < 2 ^ j"
  shows "length (load_group A ctrl (w * g)) = w" "i < w \<Longrightarrow> load_group A ctrl (w * g) ! i = ctrl ! (w * g + i)"
  using assms group_in_range [of g j] by (simp_all add: load_group_def)

abbreviation empties :: "u8 list \<Rightarrow> nat \<Rightarrow> u64" where
  "empties ctrl g \<equiv> g_match_empty A (load_group A ctrl (w * g))"

lemma bit_empties:
  assumes "length ctrl = w * 2 ^ j" "g < 2 ^ j"
  shows "bit (empties ctrl g) i \<longleftrightarrow> i \<in> lanes \<and> bit (ctrl ! (w * g + i)) 7"
  using match_empty [OF load_group_nth(1) [OF assms]] load_group_nth(2) [OF assms] lane_less by metis

lemma empties_checked:
  assumes "length ctrl = w * 2 ^ j" "g < 2 ^ j"
  shows "checked_mask w (empties ctrl g) = ok (empties ctrl g)"
  by (rule mask_below_ceiling [OF width]) (auto simp: bit_empties [OF assms] dest: lane_less)

lemma empties_zero:
  assumes "length ctrl = w * 2 ^ j" "g < 2 ^ j"
  shows "empties ctrl g = 0 \<longleftrightarrow> group_full w lanes ctrl g"
proof
  assume "empties ctrl g = 0"
  then show "group_full w lanes ctrl g" using bit_empties [OF assms] by (simp add: group_full_def)
next
  assume "group_full w lanes ctrl g"
  then show "empties ctrl g = 0" by (intro bit_eqI) (simp add: bit_empties [OF assms] group_full_def)
qed

lemma vacant_slot:
  assumes "length ctrl = w * 2 ^ j" "g < 2 ^ j" "\<not> group_full w lanes ctrl g"
    and i: "i = w * g + countr_zero (empties ctrl g)"
  shows "i < w * 2 ^ j" "i mod w \<in> lanes" "i div w = g" "bit (ctrl ! i) 7"
proof -
  have "bit (empties ctrl g) (countr_zero (empties ctrl g))"
    using countr_zero_props(2) assms(3) empties_zero [OF assms(1,2)] by blast
  then have c: "countr_zero (empties ctrl g) \<in> lanes" "bit (ctrl ! i) 7"
    using bit_empties [OF assms(1,2)] i by auto
  then show "i < w * 2 ^ j" "i mod w \<in> lanes" "i div w = g" "bit (ctrl ! i) 7"
    using i slot_less [OF assms(2) lane_less [OF c(1)]] slot_div_mod [OF lane_less [OF c(1)]] by auto
qed

lemma first_open_group:
  assumes "\<exists>g<2 ^ j. \<not> group_full w lanes ctrl g"
  obtains K where "K < 2 ^ j" "\<not> group_full w lanes ctrl (probe_at j hash K)"
    "\<And>k. k < K \<Longrightarrow> group_full w lanes ctrl (probe_at j hash k)"
proof -
  let ?P = "\<lambda>k. k < 2 ^ j \<and> \<not> group_full w lanes ctrl (probe_at j hash k)"
  obtain k where k: "?P k" using assms probe_at_covers by metis
  define K where "K = (LEAST k. ?P k)"
  have "?P K" unfolding K_def using k by (rule LeastI)
  moreover have "group_full w lanes ctrl (probe_at j hash k)" if "k < K" for k
    using not_less_Least [of k ?P] that \<open>?P K\<close> unfolding K_def by auto
  ultimately show thesis using that by blast
qed

lemma probe_vacant_at:
  assumes len: "length ctrl = w * 2 ^ j"
    and K: "\<not> group_full w lanes ctrl (probe_at j hash K)" "\<And>k. k < K \<Longrightarrow> group_full w lanes ctrl (probe_at j hash k)"
    and "k \<le> K"
  shows "probe_vacant A ctrl (w * 2 ^ j) (w * probe_at j hash k) k
    = Some (ok (w * probe_at j hash K + countr_zero (empties ctrl (probe_at j hash K))))"
  using \<open>k \<le> K\<close>
proof (induction rule: inc_induct)
  case base
  show ?case
    using group_in_range [OF probe_at_less, of j hash K] empties_checked [OF len probe_at_less, of hash K]
      empties_zero [OF len probe_at_less, of hash K] K(1)
    by (subst probe_vacant.simps) simp
next
  case (step n)
  show ?case
    using group_in_range [OF probe_at_less, of j hash n] empties_checked [OF len probe_at_less, of hash n]
      empties_zero [OF len probe_at_less, of hash n] K(2) [OF step.hyps(2)] step.IH probe_next_eq [OF width, of j hash n]
    by (subst probe_vacant.simps) simp
qed

lemma probe_vacant_returns:
  assumes len: "length ctrl = w * 2 ^ j" and room: "\<exists>g<2 ^ j. \<not> group_full w lanes ctrl g"
  shows "\<exists>i<w * 2 ^ j. probe_vacant A ctrl (w * 2 ^ j) (w * probe_at j hash 0) 0 = Some (ok i) \<and>
    bit (ctrl ! i) 7 \<and> homed w lanes j hash ctrl i"
proof -
  obtain K where K: "K < 2 ^ j" "\<not> group_full w lanes ctrl (probe_at j hash K)"
    "\<And>k. k < K \<Longrightarrow> group_full w lanes ctrl (probe_at j hash k)"
    using first_open_group [OF room, where hash = hash] by blast
  note v = vacant_slot [OF len probe_at_less K(2) refl]
  show ?thesis
    using probe_vacant_at [OF len K(2,3), of 0] v K(1,3) unfolding homed_def by blast
qed

lemma room_left:
  assumes s: "stored w lanes j h ctrl slots P" and P: "card P < card lanes * 2 ^ j"
  shows "\<exists>g<2 ^ j. \<not> group_full w lanes ctrl g"
proof (rule ccontr)
  assume full: "\<not> (\<exists>g<2 ^ j. \<not> group_full w lanes ctrl g)"
  let ?S = "{..<2 ^ j :: nat} \<times> lanes" and ?f = "\<lambda>(g, i). the (slots ! (w * g + i))"
  have occ: "\<exists>p\<in>P. slots ! (w * g + i) = Some p" if "g < 2 ^ j" "i \<in> lanes" for g i
    using full that slot_less [OF that(1) lane_less [OF that(2)]] stored_occupied [OF s, of "w * g + i"] s
    by (fastforce simp: group_full_def stored_def)
  have "inj_on ?f ?S"
  proof (rule inj_onI, clarsimp)
    fix g i g' i' assume a: "g < 2 ^ j" "i \<in> lanes" "g' < 2 ^ j" "i' \<in> lanes"
      "the (slots ! (w * g + i)) = the (slots ! (w * g' + i'))"
    then have "w * g + i = w * g' + i'"
      using occ [OF a(1,2)] occ [OF a(3,4)] slot_less [OF a(1) lane_less [OF a(2)]] slot_less [OF a(3) lane_less [OF a(4)]]
        s by (auto simp: stored_def)
    then show "g = g' \<and> i = i'" using slot_div_mod a(2,4) lane_less by metis
  qed
  moreover have "?f ` ?S \<subseteq> P" using occ by force
  ultimately have "card ?S \<le> card P" using stored_finite [OF s] by (intro card_inj_on_le)
  then show False using P by (simp add: card_cartesian_product mult.commute)
qed

end

end
