(* ===== verification/Intern_Table_Correct.thy ===== *)
theory Intern_Table_Correct
  imports Intern_Probe
begin

text \<open>
  The intern table keeps its invariant, and interning refines the search of a list of distinct nodes: a
  node that is present is returned, another is appended.  Growth keeps every node.  The laws hold for
  every arm of the group operations, and each arm gets its instance.
\<close>

section \<open>The invariant\<close>

definition nodes_ok :: "(nat \<Rightarrow> u64) \<Rightarrow> expr_node list \<Rightarrow> bool" where
  "nodes_ok address nodes \<longleftrightarrow> distinct nodes \<and>
    (\<forall>p<length nodes. made_node address (nodes ! p) \<and> (\<forall>a\<in>set (en_args (nodes ! p)). a < p))"

definition shaped :: "nat \<Rightarrow> nat set \<Rightarrow> (nat \<Rightarrow> u64) \<Rightarrow> nat \<Rightarrow> intern_table \<Rightarrow> bool" where
  "shaped w lanes address j t \<longleftrightarrow> it_capacity t = w * 2 ^ j \<and> it_capacity t \<le> 2 ^ 30 \<and> nodes_ok address (it_nodes t) \<and>
    stored w lanes j (\<lambda>p. en_hash (it_nodes t ! p)) (it_ctrl t) (it_slots t) {..<length (it_nodes t)}"

definition table_ok :: "nat \<Rightarrow> nat set \<Rightarrow> (nat \<Rightarrow> u64) \<Rightarrow> intern_table \<Rightarrow> bool" where
  "table_ok w lanes address t \<longleftrightarrow> (\<exists>j. shaped w lanes address j t) \<and> it_count t = length (it_nodes t) \<and>
    it_count t * 8 \<le> it_capacity t * 7"

lemma nodes_ok_append:
  assumes "nodes_ok address nodes" "made_node address q" "q \<notin> set nodes" "\<forall>a\<in>set (en_args q). a < length nodes"
  shows "nodes_ok address (nodes @ [q])"
  using assms by (auto simp: nodes_ok_def nth_append less_Suc_eq)

lemma stored_cong:
  assumes "stored w lanes j h ctrl slots P" "\<And>p. p \<in> P \<Longrightarrow> h p = h' p"
  shows "stored w lanes j h' ctrl slots P"
proof -
  note st = assms(1) [unfolded stored_def]
  have "\<forall>i<w * 2 ^ j. \<forall>p. slots ! i = Some p \<longrightarrow> p \<in> P \<and> ctrl ! i = h2_tag (h' p) \<and> homed w lanes j (h' p) ctrl i"
  proof (intro allI impI)
    fix i p assume "i < w * 2 ^ j" "slots ! i = Some p"
    then have "p \<in> P \<and> ctrl ! i = h2_tag (h p) \<and> homed w lanes j (h p) ctrl i" using st by blast
    then show "p \<in> P \<and> ctrl ! i = h2_tag (h' p) \<and> homed w lanes j (h' p) ctrl i" using assms(2) [of p] by auto
  qed
  then show ?thesis unfolding stored_def using st by blast
qed


section \<open>The probe for a node\<close>

context probe_group
begin

abbreviation matches :: "intern_table \<Rightarrow> expr_node \<Rightarrow> nat \<Rightarrow> u64" where
  "matches t q g \<equiv> g_match A (h2_tag (en_hash q)) (load_group A (it_ctrl t) (w * g))"

lemma shaped_lengths:
  "shaped w lanes address j t \<Longrightarrow> length (it_ctrl t) = w * 2 ^ j"
  by (simp add: shaped_def stored_def)

lemma matches_occupied:
  assumes t: "shaped w lanes address j t" and g: "g < 2 ^ j" and b: "bit (matches t q g) i"
  shows "i < w \<and> (\<exists>p<length (it_nodes t). it_slots t ! (w * g + i) = Some p)"
proof -
  note len = shaped_lengths [OF t]
  have i: "i < w" "\<not> bit (it_ctrl t ! (w * g + i)) 7"
    using match_occupied [OF load_group_nth(1) [OF len g] h2_tag_positive b] load_group_nth(2) [OF len g, of i] by auto
  have st: "stored w lanes j (\<lambda>p. en_hash (it_nodes t ! p)) (it_ctrl t) (it_slots t) {..<length (it_nodes t)}"
    using t by (simp add: shaped_def)
  obtain p where "it_slots t ! (w * g + i) = Some p"
    using stored_occupied [OF st slot_less [OF g i(1)]] i(2) by blast
  moreover have "p < length (it_nodes t)" using calculation st slot_less [OF g i(1)] by (auto simp: stored_def)
  ultimately show ?thesis using i(1) by blast
qed

lemma matches_checked:
  assumes "shaped w lanes address j t" "g < 2 ^ j"
  shows "checked_mask w (matches t q g) = ok (matches t q g)"
  by (rule mask_below_ceiling [OF width]) (use matches_occupied [OF assms] in blast)

lemma same_node_at:
  assumes "shaped w lanes address j t" "made_node address q" "p < length (it_nodes t)"
  shows "same_node (it_nodes t ! p) q \<longleftrightarrow> it_nodes t ! p = q"
  using assms by (intro same_node_iff) (auto simp: shaped_def nodes_ok_def)

text \<open>One round of the probe on a group without the node.\<close>

lemma probe_node_miss:
  assumes t: "shaped w lanes address j t" and q: "made_node address q"
    and absent: "\<And>i p. \<lbrakk>i < w; it_slots t ! (w * probe_at j hash k + i) = Some p; p < length (it_nodes t)\<rbrakk>
      \<Longrightarrow> it_nodes t ! p \<noteq> q"
  shows "probe_node A q t (w * probe_at j hash k) k
    = (if group_full w lanes (it_ctrl t) (probe_at j hash k)
       then probe_node A q t (w * probe_at j hash (k + 1)) (k + 1)
       else Some (ok (Vacant (w * probe_at j hash k + countr_zero (empties (it_ctrl t) (probe_at j hash k))))))"
proof -
  let ?g = "probe_at j hash k"
  have cap: "it_capacity t = w * 2 ^ j" using t by (simp add: shaped_def)
  have "scan_matches w (it_slots t) (it_nodes t) q (w * ?g) (matches t q ?g) = ok None"
  proof (rule scan_none [OF width])
    fix i assume "bit (matches t q ?g) i"
    then obtain p where "i < w" "p < length (it_nodes t)" "it_slots t ! (w * ?g + i) = Some p"
      using matches_occupied [OF t probe_at_less] by blast
    then show "i < w \<and> (\<exists>p. it_slots t ! (w * ?g + i) = Some p \<and> \<not> same_node (it_nodes t ! p) q)"
      using absent same_node_at [OF t q] by blast
  qed
  then show ?thesis
    using group_in_range [OF probe_at_less, of j hash k] matches_checked [OF t probe_at_less, of q hash k]
      empties_checked [OF shaped_lengths [OF t] probe_at_less, of hash k]
      empties_zero [OF shaped_lengths [OF t] probe_at_less, of hash k] probe_next_eq [OF width, of j hash k]
    by (subst probe_node.simps) (simp add: cap)
qed

lemma probe_node_hit:
  assumes t: "shaped w lanes address j t" and p: "p < length (it_nodes t)" and i: "i \<in> lanes"
    and slot: "it_slots t ! (w * probe_at j hash k + i) = Some p"
  shows "probe_node A (it_nodes t ! p) t (w * probe_at j hash k) k = Some (ok (Found p))"
proof -
  let ?g = "probe_at j hash k" and ?q = "it_nodes t ! p"
  have cap: "it_capacity t = w * 2 ^ j" and q: "made_node address ?q" and d: "distinct (it_nodes t)"
    using t p by (auto simp: shaped_def nodes_ok_def)
  have "it_ctrl t ! (w * ?g + i) = h2_tag (en_hash ?q)"
    using t slot slot_less [OF probe_at_less lane_less [OF i], of j hash k] by (auto simp: shaped_def stored_def)
  then have "load_group A (it_ctrl t) (w * ?g) ! i = h2_tag (en_hash ?q)"
    using load_group_nth(2) [OF shaped_lengths [OF t] probe_at_less lane_less [OF i]] by simp
  then have "bit (matches t ?q ?g) i"
    by (rule match_covers [OF load_group_nth(1) [OF shaped_lengths [OF t] probe_at_less] i])
  then have "scan_matches w (it_slots t) (it_nodes t) ?q (w * ?g) (matches t ?q ?g) = ok (Some p)"
  proof (rule scan_found [OF width, rotated 1])
    fix i' assume "bit (matches t ?q ?g) i'"
    then obtain p' where "i' < w" "p' < length (it_nodes t)" "it_slots t ! (w * ?g + i') = Some p'"
      using matches_occupied [OF t probe_at_less] by blast
    then show "i' < w \<and> (\<exists>p'. it_slots t ! (w * ?g + i') = Some p' \<and> (same_node (it_nodes t ! p') ?q \<longrightarrow> p' = p))"
      using same_node_at [OF t q] d p by (auto simp: nth_eq_iff_index_eq)
  qed (use slot same_node_at [OF t q p] in auto)
  then show ?thesis
    using group_in_range [OF probe_at_less, of j hash k] matches_checked [OF t probe_at_less, of ?q hash k]
    by (subst probe_node.simps) (simp add: cap)
qed

lemma probe_node_present:
  assumes t: "shaped w lanes address j t" and p: "p < length (it_nodes t)"
  shows "probe_node A (it_nodes t ! p) t (w * probe_at j (en_hash (it_nodes t ! p)) 0) 0 = Some (ok (Found p))"
proof -
  let ?q = "it_nodes t ! p"
  let ?h = "en_hash ?q"
  have st: "stored w lanes j (\<lambda>p. en_hash (it_nodes t ! p)) (it_ctrl t) (it_slots t) {..<length (it_nodes t)}"
    and q: "made_node address ?q" and d: "distinct (it_nodes t)" using t p by (auto simp: shaped_def nodes_ok_def)
  obtain i where i: "i < w * 2 ^ j" "it_slots t ! i = Some p" using st p unfolding stored_def by blast
  then have "homed w lanes j ?h (it_ctrl t) i" using st unfolding stored_def by blast
  then obtain K where K: "K < 2 ^ j" "i div w = probe_at j ?h K" "i mod w \<in> lanes"
    "\<And>k. k < K \<Longrightarrow> group_full w lanes (it_ctrl t) (probe_at j ?h k)"
    unfolding homed_def by blast
  have "probe_node A ?q t (w * probe_at j ?h k) k = Some (ok (Found p))" if "k \<le> K" for k
    using that
  proof (induction rule: inc_induct)
    case base
    have "w * probe_at j ?h K + i mod w = i" unfolding K(2) [symmetric] by simp
    then show ?case using probe_node_hit [OF t p K(3), of ?h K] i(2) by simp
  next
    case (step n)
    have "it_nodes t ! p' \<noteq> ?q"
      if "i' < w" "it_slots t ! (w * probe_at j ?h n + i') = Some p'" "p' < length (it_nodes t)" for i' p'
    proof
      assume "it_nodes t ! p' = ?q"
      then have "p' = p" using d p that(3) by (simp add: nth_eq_iff_index_eq)
      then have "w * probe_at j ?h n + i' = i"
        using st that i slot_less [OF probe_at_less that(1), of j ?h n] unfolding stored_def by blast
      then have "probe_at j ?h n = probe_at j ?h K" using slot_div_mod(1) [OF that(1)] K(2) by metis
      then show False using probe_at_inj [of n j K ?h] step.hyps K(1) by simp
    qed
    then show ?case using probe_node_miss [OF t q, of ?h n] K(4) [OF step.hyps(2)] step.IH by simp
  qed
  then show ?thesis by simp
qed

lemma probe_node_absent:
  assumes t: "shaped w lanes address j t" and q: "made_node address q" "q \<notin> set (it_nodes t)"
    and room: "\<exists>g<2 ^ j. \<not> group_full w lanes (it_ctrl t) g"
  shows "\<exists>i<w * 2 ^ j. probe_node A q t (w * probe_at j (en_hash q) 0) 0 = Some (ok (Vacant i)) \<and>
    it_slots t ! i = None \<and> homed w lanes j (en_hash q) (it_ctrl t) i"
proof -
  let ?h = "en_hash q"
  obtain K where K: "K < 2 ^ j" "\<not> group_full w lanes (it_ctrl t) (probe_at j ?h K)"
    "\<And>k. k < K \<Longrightarrow> group_full w lanes (it_ctrl t) (probe_at j ?h k)"
    using first_open_group [OF room, where hash = ?h] by blast
  define i where "i = w * probe_at j ?h K + countr_zero (empties (it_ctrl t) (probe_at j ?h K))"
  have "probe_node A q t (w * probe_at j ?h k) k = Some (ok (Vacant i))" if "k \<le> K" for k
    using that
  proof (induction rule: inc_induct)
    case base
    show ?case using probe_node_miss [OF t q(1), of ?h K] q(2) K(2) by (simp add: i_def in_set_conv_nth)
  next
    case (step n)
    then show ?case using probe_node_miss [OF t q(1), of ?h n] q(2) K(3) by (simp add: in_set_conv_nth)
  qed
  moreover note v = vacant_slot [OF shaped_lengths [OF t] probe_at_less K(2) i_def]
  moreover have "it_slots t ! i = None" using stored_occupied [of w lanes j _ "it_ctrl t" "it_slots t" _ i] v t
    unfolding shaped_def by blast
  moreover have "homed w lanes j ?h (it_ctrl t) i" using v K unfolding homed_def by blast
  ultimately show ?thesis by blast
qed

end


section \<open>Growth\<close>

abbreviation live :: "(u8 \<times> nat option) list \<Rightarrow> nat list" where
  "live old \<equiv> List.map_filter snd old"

lemma live_zip: "length ctrl = length slots \<Longrightarrow> live (zip ctrl slots) = List.map_filter (\<lambda>s. s) slots"
  by (induction rule: list_induct2) (auto simp: map_filter_simps split: option.splits)

lemma set_live: "set (List.map_filter (\<lambda>s. s) slots) = {p. Some p \<in> set slots}"
  by (induction slots) (auto simp: map_filter_simps split: option.splits)

lemma distinct_live:
  assumes "\<And>i i' p. \<lbrakk>i < length slots; i' < length slots; slots ! i = Some p; slots ! i' = Some p\<rbrakk> \<Longrightarrow> i = i'"
  shows "distinct (List.map_filter (\<lambda>s. s) slots)"
  using assms
proof (induction slots)
  case (Cons s slots)
  have "distinct (List.map_filter (\<lambda>s. s) slots)"
  proof (rule Cons.IH)
    fix i i' p assume "i < length slots" "i' < length slots" "slots ! i = Some p" "slots ! i' = Some p"
    then show "i = i'" using Cons.prems [of "Suc i" "Suc i'" p] by simp
  qed
  moreover have "s \<notin> set slots" if "s = Some p" for p
  proof
    assume "s \<in> set slots"
    then obtain i where "i < length slots" "slots ! i = s" by (auto simp: in_set_conv_nth)
    then show False using Cons.prems [of 0 "Suc i" p] that by simp
  qed
  ultimately show ?case by (cases s) (auto simp: map_filter_simps set_live)
qed (simp add: map_filter_simps)

lemma power_capacity:
  assumes "w \<in> {16, 32, 64}" "w * 2 ^ j \<le> 2 ^ 30"
  shows "is_swiss_table_capacity (w * 2 ^ j)"
proof -
  obtain g where "w = 2 ^ g" by (rule width_power [OF assms(1)])
  then have "w * 2 ^ j = 2 ^ (g + j)" by (simp add: power_add)
  then have "(w * 2 ^ j) AND (w * 2 ^ j - 1) = 0" using and_pow2 [of "w * 2 ^ j" "g + j"] by simp
  moreover have "16 \<le> w * 2 ^ j" using assms(1) mult_le_mono [of 16 w 1 "2 ^ j"] by auto
  ultimately show ?thesis using assms(2) by (simp add: is_swiss_table_capacity_def)
qed

context probe_group
begin

lemma reinsert_returns:
  assumes "stored w lanes j (\<lambda>p. en_hash (nodes ! p)) ctrl slots P" "w * 2 ^ j \<le> 2 ^ 30"
    and "\<forall>(c, s)\<in>set old. c = kEmpty \<and> s = None \<or> \<not> bit c 7 \<and> s \<noteq> None"
    and "distinct (live old)" "set (live old) \<inter> P = {}" "card P + length (live old) \<le> card lanes * 2 ^ j"
  shows "\<exists>ctrl' slots'. reinsert A nodes (w * 2 ^ j) old ctrl slots n = Some (ok (ctrl', slots', n + length (live old))) \<and>
    stored w lanes j (\<lambda>p. en_hash (nodes ! p)) ctrl' slots' (P \<union> set (live old))"
  using assms
proof (induction old arbitrary: ctrl slots P n)
  case Nil
  then show ?case by (simp add: map_filter_simps)
next
  case (Cons e old)
  obtain c s where e: "e = (c, s)" by (cases e)
  show ?case
  proof (cases s)
    case None
    then show ?thesis using Cons.IH [OF Cons.prems(1,2), of n] Cons.prems e by (simp add: map_filter_simps)
  next
    case (Some p)
    let ?h = "\<lambda>p. en_hash (nodes ! p)"
    have c: "c \<noteq> kEmpty" using Cons.prems(3) e Some kEmpty_negative by auto
    have p: "p \<notin> P" "p \<notin> set (live old)" using Cons.prems(4,5) e Some by (auto simp: map_filter_simps)
    have fin: "finite P" by (rule stored_finite [OF Cons.prems(1)])
    have len: "length ctrl = w * 2 ^ j" using Cons.prems(1) by (simp add: stored_def)
    obtain i where i: "i < w * 2 ^ j" "probe_vacant A ctrl (w * 2 ^ j) (w * probe_at j (?h p) 0) 0 = Some (ok i)"
      "bit (ctrl ! i) 7" "homed w lanes j (?h p) ctrl i"
      using probe_vacant_returns [OF len room_left [OF Cons.prems(1)], of "?h p"] Cons.prems(6) e Some
      by (auto simp: map_filter_simps)
    have "slots ! i = None" using stored_occupied [OF Cons.prems(1) i(1)] i(3) by simp
    note st = stored_insert [OF Cons.prems(1) p(1) i(1) this i(4)]
    obtain ctrl' slots' where r: "reinsert A nodes (w * 2 ^ j) old (ctrl[i := h2_tag (?h p)]) (slots[i := Some p]) (n + 1)
        = Some (ok (ctrl', slots', n + 1 + length (live old)))"
      "stored w lanes j ?h ctrl' slots' (insert p P \<union> set (live old))"
      using Cons.IH [OF st Cons.prems(2), of "n + 1"] Cons.prems e Some p fin by (auto simp: map_filter_simps)
    then show ?thesis
      using c e Some i(2) probe_start_eq [OF width Cons.prems(2), of "?h p"] by (simp add: map_filter_simps)
  qed
qed

lemma enough_lanes:
  assumes "count * 8 \<le> w * 2 ^ j * 7"
  shows "count \<le> card lanes * 2 ^ j"
proof -
  have "count * 8 \<le> (7 * w) * 2 ^ j" using assms by (simp add: algebra_simps)
  also have "\<dots> \<le> (8 * card lanes) * 2 ^ j" by (rule mult_le_mono1 [OF lanes_card])
  finally show ?thesis by simp
qed

lemma grow_to_returns:
  assumes t: "table_ok w lanes address t" and cap: "w * 2 ^ j \<le> 2 ^ 30" "it_count t * 8 \<le> w * 2 ^ j * 7"
  shows "\<exists>t'. grow_to A (w * 2 ^ j) t = Some (ok t') \<and> table_ok w lanes address t' \<and> shaped w lanes address j t' \<and>
    it_nodes t' = it_nodes t \<and> it_count t' = it_count t"
proof -
  let ?h = "\<lambda>p. en_hash (it_nodes t ! p)" and ?old = "zip (it_ctrl t) (it_slots t)"
  obtain j0 where j0: "shaped w lanes address j0 t" and n: "it_count t = length (it_nodes t)"
    using t by (auto simp: table_ok_def)
  then have st: "stored w lanes j0 ?h (it_ctrl t) (it_slots t) {..<length (it_nodes t)}" by (simp add: shaped_def)
  note s = st [unfolded stored_def]
  have entries: "\<forall>(c, s)\<in>set ?old. c = kEmpty \<and> s = None \<or> \<not> bit c 7 \<and> s \<noteq> None"
    using s stored_occupied [OF st] by (auto simp: in_set_zip)
  have lv: "live ?old = List.map_filter (\<lambda>s. s) (it_slots t)" using s by (intro live_zip) simp
  have d: "distinct (live ?old)" unfolding lv using s by (intro distinct_live) auto
  have set: "set (live ?old) = {..<length (it_nodes t)}"
    unfolding lv set_live in_set_conv_nth using s by fastforce
  then have len: "length (live ?old) = it_count t" using distinct_card [OF d] n by simp
  obtain ctrl slots where r: "reinsert A (it_nodes t) (w * 2 ^ j) ?old (replicate (w * 2 ^ j) kEmpty)
      (replicate (w * 2 ^ j) None) 0 = Some (ok (ctrl, slots, it_count t))"
    "stored w lanes j ?h ctrl slots {..<length (it_nodes t)}"
    using reinsert_returns [OF stored_empty cap(1) entries d, where n = 0 and nodes = "it_nodes t"] enough_lanes [OF cap(2)] len set by auto
  have "w \<le> w * 2 ^ j" by simp
  then have "grow_to A (w * 2 ^ j) t
      = Some (ok (t\<lparr>it_ctrl := ctrl, it_slots := slots, it_capacity := w * 2 ^ j, it_count := it_count t\<rparr>))"
    using r(1) power_capacity [OF width cap(1)] by (simp add: grow_to_def)
  moreover have "shaped w lanes address j (t\<lparr>it_ctrl := ctrl, it_slots := slots, it_capacity := w * 2 ^ j, it_count := it_count t\<rparr>)"
    using j0 r(2) cap(1) by (simp add: shaped_def)
  ultimately show ?thesis using n cap(2) by (auto simp: table_ok_def)
qed

end


section \<open>Interning\<close>

text \<open>The abstract pool is a list of distinct nodes.\<close>

definition intern_spec :: "expr_node \<Rightarrow> expr_node list \<Rightarrow> nat \<times> expr_node list" where
  "intern_spec q nodes =
    (length (takeWhile (\<lambda>n. n \<noteq> q) nodes), if q \<in> set nodes then nodes else nodes @ [q])"

lemma intern_spec_present: "distinct nodes \<Longrightarrow> p < length nodes \<Longrightarrow> intern_spec (nodes ! p) nodes = (p, nodes)"
proof -
  assume d: "distinct nodes" and p: "p < length nodes"
  have "takeWhile (\<lambda>n. n \<noteq> nodes ! p) nodes = take p nodes"
    using d p by (intro takeWhile_eq_take_P_nth) (auto simp: nth_eq_iff_index_eq)
  then show ?thesis using p by (simp add: intern_spec_def)
qed

lemma intern_spec_absent: "q \<notin> set nodes \<Longrightarrow> intern_spec q nodes = (length nodes, nodes @ [q])"
proof -
  assume q: "q \<notin> set nodes"
  then have "takeWhile (\<lambda>n. n \<noteq> q) nodes = nodes" unfolding takeWhile_eq_all_conv by blast
  then have "length (takeWhile (\<lambda>n. n \<noteq> q) nodes) = length nodes" by (rule arg_cong)
  then show ?thesis unfolding intern_spec_def using q by simp
qed

context probe_group
begin

lemma insert_node_ok:
  assumes t: "shaped w lanes address j t" and q: "made_node address q" "q \<notin> set (it_nodes t)"
    "\<forall>a\<in>set (en_args q). a < length (it_nodes t)"
    and i: "i < w * 2 ^ j" "it_slots t ! i = None" "homed w lanes j (en_hash q) (it_ctrl t) i"
  shows "shaped w lanes address j (insert_node q i t)"
proof -
  let ?n = "length (it_nodes t)" and ?h = "\<lambda>p. en_hash ((it_nodes t @ [q]) ! p)"
  have "stored w lanes j ?h (it_ctrl t) (it_slots t) {..<?n}"
    using t unfolding shaped_def by (auto intro: stored_cong simp: nth_append)
  then have "stored w lanes j ?h ((it_ctrl t)[i := h2_tag (?h ?n)]) ((it_slots t)[i := Some ?n]) (insert ?n {..<?n})"
    using i by (intro stored_insert) auto
  then show ?thesis
    using t nodes_ok_append [OF _ q] by (simp add: shaped_def insert_node_def lessThan_Suc [symmetric])
qed

text \<open>Interning into a table with room.\<close>

lemma probe_and_insert:
  assumes t: "shaped w lanes address j t" and n: "it_count t = length (it_nodes t)"
    and room: "it_count t * 8 < it_capacity t * 7"
    and q: "made_node address q" "\<forall>a\<in>set (en_args q). a < length (it_nodes t)"
  shows "\<exists>t'. and_run (probe_node A q t (probe_start w (it_capacity t) (en_hash q)) 0)
      (\<lambda>r. case r of Found p \<Rightarrow> Some (ok (p, t)) | Vacant i \<Rightarrow> Some (ok (length (it_nodes t), insert_node q i t)))
      = Some (ok (fst (intern_spec q (it_nodes t)), t')) \<and>
    table_ok w lanes address t' \<and> it_nodes t' = snd (intern_spec q (it_nodes t))"
proof -
  have cap: "it_capacity t = w * 2 ^ j" "w * 2 ^ j \<le> 2 ^ 30" and d: "distinct (it_nodes t)"
    and st: "stored w lanes j (\<lambda>p. en_hash (it_nodes t ! p)) (it_ctrl t) (it_slots t) {..<length (it_nodes t)}"
    using t by (auto simp: shaped_def nodes_ok_def)
  note start = probe_start_eq [OF width cap(2), of "en_hash q"]
  show ?thesis
  proof (cases "q \<in> set (it_nodes t)")
    case True
    then obtain p where p: "p < length (it_nodes t)" "q = it_nodes t ! p" by (auto simp: in_set_conv_nth)
    have "table_ok w lanes address t" using t n room by (auto simp: table_ok_def)
    then show ?thesis
      using probe_node_present [OF t p(1)] intern_spec_present [OF d p(1)] start by (simp add: cap p(2))
  next
    case False
    have "it_count t * 8 + 8 \<le> w * 2 ^ j * 7"
    proof -
      obtain g where "w = 2 * (2 * (2 * g))" using width by auto
      then show ?thesis using room unfolding cap(1) by simp
    qed
    then have load: "Suc (it_count t) * 8 \<le> w * 2 ^ j * 7" by simp
    have "\<exists>g<2 ^ j. \<not> group_full w lanes (it_ctrl t) g"
      using enough_lanes [OF load] n by (intro room_left [OF st]) simp
    then obtain i where i: "i < w * 2 ^ j" "probe_node A q t (w * probe_at j (en_hash q) 0) 0 = Some (ok (Vacant i))"
      "it_slots t ! i = None" "homed w lanes j (en_hash q) (it_ctrl t) i"
      using probe_node_absent [OF t q(1) False] by blast
    have "shaped w lanes address j (insert_node q i t)" by (rule insert_node_ok [OF t q(1) False q(2) i(1,3,4)])
    then have "table_ok w lanes address (insert_node q i t)"
      using n load cap(1) by (auto simp: table_ok_def insert_node_def)
    then show ?thesis
      using i(2) start intern_spec_absent [OF False] by (simp add: cap insert_node_def)
  qed
qed

lemma intern_node_refines:
  assumes t: "table_ok w lanes address t" and args: "length args < 256" "\<forall>a\<in>set args. a < length (it_nodes t)"
    and room: "it_count t * 8 < it_capacity t * 7 \<or> it_capacity t * 2 \<le> 2 ^ 30"
    and q: "q = make_node address opr args flags symbol payload"
  shows "\<exists>t'. intern_node A address opr args flags symbol payload t = Some (ok (fst (intern_spec q (it_nodes t)), t')) \<and>
    table_ok w lanes address t' \<and> it_nodes t' = snd (intern_spec q (it_nodes t))"
proof -
  obtain j where j: "shaped w lanes address j t" and n: "it_count t = length (it_nodes t)"
    and load: "it_count t * 8 \<le> it_capacity t * 7" using t by (auto simp: table_ok_def)
  have qa: "made_node address q" "\<forall>a\<in>set (en_args q). a < length (it_nodes t)"
    using args q made_make_node by (auto simp: make_node_def)
  show ?thesis
  proof (cases "it_count t * 8 \<ge> it_capacity t * 7")
    case False
    then show ?thesis
      using probe_and_insert [OF j n _ qa] by (simp add: intern_node_def q [symmetric])
  next
    case True
    have cap: "it_capacity t * 2 = w * 2 ^ Suc j" "0 < it_capacity t"
      using j width_pos by (auto simp: shaped_def)
    obtain t1 where t1: "grow_to A (w * 2 ^ Suc j) t = Some (ok t1)" "shaped w lanes address (Suc j) t1"
      "it_nodes t1 = it_nodes t" "it_count t1 = it_count t"
      using grow_to_returns [OF t, of "Suc j"] room True load cap by auto
    have "it_capacity t1 = it_capacity t * 2" using t1(2) cap(1) by (simp add: shaped_def)
    then have "it_count t1 * 8 < it_capacity t1 * 7" using t1(4) load cap(2) by linarith
    moreover have "rehash A t = Some (ok t1)" using t1(1) by (simp only: rehash_def cap(1))
    ultimately show ?thesis
      using probe_and_insert [OF t1(2) _ _ qa(1)] t1(3,4) n qa(2) True by (simp add: intern_node_def q [symmetric])
  qed
qed

lemma intern_node_refuses:
  assumes "it_count t * 8 \<ge> it_capacity t * 7" "it_capacity t * 2 > 2 ^ 30"
  shows "intern_node A address opr args flags symbol payload t = Some (fail Contract_violation)"
  using assms by (simp add: intern_node_def rehash_def grow_to_def is_swiss_table_capacity_def)

lemma doubled_until_power:
  "\<exists>i. doubled_until (w * 2 ^ k) needed = w * 2 ^ (k + i) \<and> (i = 0 \<or> w * 2 ^ (k + i) < 2 * needed)"
    "needed \<le> doubled_until (w * 2 ^ k) needed"
proof (induction "needed - w * 2 ^ k" arbitrary: k rule: less_induct)
  case less
  have step: "doubled_until (w * 2 ^ k) needed = doubled_until (w * 2 ^ Suc k) needed" if "w * 2 ^ k < needed"
    using that width_pos by (subst doubled_until.simps) (simp add: ac_simps)
  have dec: "needed - w * 2 ^ Suc k < needed - w * 2 ^ k" if "w * 2 ^ k < needed"
    by (rule diff_less_mono2) (use that width_pos in simp_all)
  have stop: "doubled_until (w * 2 ^ k) needed = w * 2 ^ k" if "needed \<le> w * 2 ^ k"
    using that by (subst doubled_until.simps) simp
  {
    case 1
    show ?case
    proof (cases "w * 2 ^ k < needed")
      case True
      obtain i where i: "doubled_until (w * 2 ^ Suc k) needed = w * 2 ^ (Suc k + i)"
        "i = 0 \<or> w * 2 ^ (Suc k + i) < 2 * needed" using less(1) [OF dec [OF True]] by blast
      have "w * 2 ^ (Suc k + i) < 2 * needed" using i(2) True by auto
      then show ?thesis using i(1) step [OF True] by (intro exI [of _ "Suc i"]) simp
    qed (use stop in \<open>auto intro: exI [of _ 0]\<close>)
  next
    case 2
    show ?case
    proof (cases "w * 2 ^ k < needed")
      case True
      then show ?thesis using less(2) [OF dec [OF True]] step by simp
    qed (use stop in auto)
  }
qed

lemma doubled_capacity:
  assumes "needed \<le> 2 ^ 30"
  obtains j where "doubled_until w needed = w * 2 ^ j" "w * 2 ^ j \<le> 2 ^ 30" "needed \<le> w * 2 ^ j"
proof -
  obtain i where i: "doubled_until w needed = w * 2 ^ i" "i = 0 \<or> w * 2 ^ i < 2 * needed"
    using doubled_until_power(1) [of 0 needed] by auto
  obtain g where g: "w = 2 ^ g" "g \<le> 6" by (rule width_power [OF width])
  have "g + i \<le> 30"
  proof (cases "i = 0")
    case False
    then have "(2 :: nat) ^ (g + i) < 2 ^ 31" using i(2) assms g by (simp add: power_add)
    then have "g + i < 31" by (rule power_less_imp_less_exp [rotated]) simp
    then show ?thesis by simp
  qed (use g in simp)
  then have "(2 :: nat) ^ (g + i) \<le> 2 ^ 30" by (rule power_increasing) simp
  then have "w * 2 ^ i \<le> 2 ^ 30" by (simp add: g power_add)
  then show thesis using that [of i] i(1) doubled_until_power(2) [of needed 0] by simp
qed

lemma empty_table_ok:
  assumes "initial \<le> 2 ^ 30"
  shows "\<exists>t. empty_table A initial = ok t \<and> table_ok w lanes address t \<and> it_nodes t = [] \<and> initial \<le> it_capacity t"
proof -
  obtain j where j: "doubled_until w initial = w * 2 ^ j" "w * 2 ^ j \<le> 2 ^ 30" "initial \<le> w * 2 ^ j"
    by (rule doubled_capacity [OF assms])
  let ?t = "\<lparr>it_ctrl = replicate (w * 2 ^ j) kEmpty, it_slots = replicate (w * 2 ^ j) None, it_capacity = w * 2 ^ j,
    it_count = 0, it_nodes = []\<rparr>"
  have "empty_table A initial = ok ?t"
    using assms power_capacity [OF width j(2)] by (simp add: empty_table_def rounded_capacity_def j(1) Let_def)
  moreover have "shaped w lanes address j ?t"
    using j(2) stored_empty [of w lanes j] by (simp add: shaped_def nodes_ok_def lessThan_0)
  ultimately show ?thesis using j(3) by (auto simp: table_ok_def)
qed

lemma reserve_ok:
  assumes t: "table_ok w lanes address t" and n: "n \<le> 2 ^ 30 * 7 div 8"
  shows "\<exists>t'. reserve A n t = Some (ok t') \<and> table_ok w lanes address t' \<and> it_nodes t' = it_nodes t \<and>
    n * 8 \<le> it_capacity t' * 7"
proof -
  let ?needed = "(n * 8 + 6) div 7"
  have "?needed \<le> 2 ^ 30" using n by simp
  then obtain j where j: "doubled_until w ?needed = w * 2 ^ j" "w * 2 ^ j \<le> 2 ^ 30" "?needed \<le> w * 2 ^ j"
    by (rule doubled_capacity)
  have enough: "n * 8 \<le> c * 7" if "w * 2 ^ j \<le> c" for c using j(3) that by linarith
  have load: "it_count t * 8 \<le> it_capacity t * 7" using t by (simp add: table_ok_def)
  show ?thesis
  proof (cases "w * 2 ^ j > it_capacity t")
    case True
    then have "it_count t * 8 \<le> w * 2 ^ j * 7" using load by linarith
    then obtain t' where t': "grow_to A (w * 2 ^ j) t = Some (ok t')" "table_ok w lanes address t'"
      "shaped w lanes address j t'" "it_nodes t' = it_nodes t"
      using grow_to_returns [OF t j(2)] by auto
    moreover have "n * 8 \<le> it_capacity t' * 7" using t'(3) by (intro enough) (simp add: shaped_def)
    ultimately show ?thesis using True n by (simp add: reserve_def j(1) Let_def)
  next
    case False
    then show ?thesis using enough [of "it_capacity t"] n t by (simp add: reserve_def j(1) Let_def)
  qed
qed

end

end
