(* ===== verification/Expr_Interning.thy ===== *)
theory Expr_Interning
  imports Intern_Table_Correct
begin

text \<open>
  The pool on top of the intern table: the seeded constants, the cache of small integers and the symbol
  table of \<^verbatim>\<open>crucible/ExprPool.h\<close>, and what interning promises.  A pointer stands for a tree, pointers of one
  pool are equal exactly when their trees are, and so the constructors may compare pointers.  This is
  what lets the theories on the constructors work with trees.
\<close>

section \<open>The instruction sets\<close>

text \<open>The preprocessor selects one of these arms.\<close>

definition arms :: "group_arm list" where
  "arms = [avx512_arm, avx2_arm, sse2_arm, neon_arm, swar_arm]"

lemma arm_laws:
  assumes "A \<in> set arms"
  obtains lanes where "probe_group A lanes"
  using assms avx512.probe_group_axioms avx2.probe_group_axioms sse2.probe_group_axioms neon.probe_group_axioms
    swar.probe_group_axioms
  by (auto simp: arms_def)


section \<open>The pool\<close>

record expr_pool =
  ep_table :: intern_table
  ep_true :: nat
  ep_false :: nat
  ep_int_cache :: "nat list"
  ep_symbol_names :: "int option list"
  ep_symbol_exprs :: "nat option list"

definition make_integer :: "group_arm \<Rightarrow> (nat \<Rightarrow> u64) \<Rightarrow> int \<Rightarrow> intern_table \<Rightarrow> (nat \<times> intern_table) checked option" where
  "make_integer A address val t = intern_node A address Op_INTEGER [] (integer_flags val) id_none val t"

fun seed_integers :: "group_arm \<Rightarrow> (nat \<Rightarrow> u64) \<Rightarrow> int list \<Rightarrow> nat list \<Rightarrow> intern_table
    \<Rightarrow> (nat list \<times> intern_table) checked option" where
  "seed_integers A address [] cache t = Some (ok (cache, t))"
| "seed_integers A address (i # is) cache t =
    and_run (make_integer A address i t) (\<lambda>(p, t'). seed_integers A address is (cache @ [p]) t')"

definition kIntCacheLow :: int where
  "kIntCacheLow = - 128"

definition kIntCacheHigh :: int where
  "kIntCacheHigh = 127"

definition pool_new :: "group_arm \<Rightarrow> (nat \<Rightarrow> u64) \<Rightarrow> nat \<Rightarrow> expr_pool checked option" where
  "pool_new A address initial_capacity =
    run_step (empty_table A initial_capacity) (\<lambda>t0.
      and_run (intern_node A address Op_BOOL_TRUE [] IS_BOOLEAN id_none 0 t0) (\<lambda>(tr, t1).
      and_run (intern_node A address Op_BOOL_FALSE [] IS_BOOLEAN id_none 0 t1) (\<lambda>(fa, t2).
      and_run (seed_integers A address [kIntCacheLow..kIntCacheHigh] [] t2) (\<lambda>(cache, t3).
        Some (ok \<lparr>ep_table = t3, ep_true = tr, ep_false = fa, ep_int_cache = cache, ep_symbol_names = [],
                  ep_symbol_exprs = []\<rparr>)))))"

definition pool_integer :: "group_arm \<Rightarrow> (nat \<Rightarrow> u64) \<Rightarrow> int \<Rightarrow> expr_pool \<Rightarrow> (nat \<times> expr_pool) checked option" where
  "pool_integer A address val P =
    (if val \<ge> kIntCacheLow \<and> val \<le> kIntCacheHigh then Some (ok (ep_int_cache P ! nat (val - kIntCacheLow), P))
     else and_run (make_integer A address val (ep_table P)) (\<lambda>(p, t). Some (ok (p, P\<lparr>ep_table := t\<rparr>))))"

text \<open>Growing a vector for an index.  The new size is computed in the width of the identifier, so the largest
  identifier asks for an empty vector.\<close>

definition grown_for :: "u32 \<Rightarrow> 'a option list \<Rightarrow> 'a option list" where
  "grown_for sid xs =
    (if unat sid \<ge> length xs then take (unat (sid + 1)) xs @ replicate (unat (sid + 1) - length xs) None else xs)"

text \<open>The address at which the arena stores the copied name is a parameter.\<close>

definition pool_symbol :: "group_arm \<Rightarrow> (nat \<Rightarrow> u64) \<Rightarrow> int \<Rightarrow> u32 \<Rightarrow> u16 \<Rightarrow> expr_pool \<Rightarrow> (nat \<times> expr_pool) checked option" where
  "pool_symbol A address name_buf sid assumption_flags P =
    (let names = grown_for sid (ep_symbol_names P)
     in if \<not> unat sid < length names then Some (fail Aborted)
        else let names' = (if names ! unat sid = None then names[unat sid := Some name_buf] else names)
             in and_run (intern_node A address Op_SYMBOL [] (assumption_flags OR IS_SYMBOL) sid (the (names' ! unat sid))
                           (ep_table P)) (\<lambda>(p, t).
                  Some (ok (p, P\<lparr>ep_table := t, ep_symbol_names := names',
                    ep_symbol_exprs := (grown_for sid (ep_symbol_exprs P))[unat sid := Some p]\<rparr>))))"

definition fast_symbol :: "u32 \<Rightarrow> expr_pool \<Rightarrow> nat option" where
  "fast_symbol sid P =
    (if unat sid < length (ep_symbol_exprs P) \<and> ep_symbol_exprs P ! unat sid \<noteq> None then ep_symbol_exprs P ! unat sid
     else None)"


section \<open>Pointers and trees\<close>

text \<open>The tree a pointer stands for.  The arguments of a node were interned before it.\<close>

function tree_of :: "expr_node list \<Rightarrow> nat \<Rightarrow> expr" where
  "tree_of nodes p = Node (en_op (nodes ! p)) (en_flags (nodes ! p)) (en_symbol (nodes ! p)) (en_payload (nodes ! p))
    (map (tree_of nodes) (filter (\<lambda>a. a < p) (en_args (nodes ! p))))"
  by auto
termination
  by (relation "measure snd") auto

declare tree_of.simps [simp del]

lemma tree_of_node:
  assumes "nodes_ok address nodes" "p < length nodes"
  shows "tree_of nodes p = Node (en_op (nodes ! p)) (en_flags (nodes ! p)) (en_symbol (nodes ! p)) (en_payload (nodes ! p))
    (map (tree_of nodes) (en_args (nodes ! p)))"
proof -
  have "filter (\<lambda>a. a < p) (en_args (nodes ! p)) = en_args (nodes ! p)"
    using assms by (intro filter_True) (simp add: nodes_ok_def)
  then show ?thesis by (subst tree_of.simps) (simp only:)
qed

lemma tree_of_inj:
  assumes ok: "nodes_ok address nodes"
  shows "p < length nodes \<Longrightarrow> q < length nodes \<Longrightarrow> tree_of nodes p = tree_of nodes q \<longleftrightarrow> p = q"
proof (induction p arbitrary: q rule: less_induct)
  case (less p)
  show ?case
  proof
    assume eq: "tree_of nodes p = tree_of nodes q"
    have f: "en_op (nodes ! p) = en_op (nodes ! q)" "en_flags (nodes ! p) = en_flags (nodes ! q)"
      "en_symbol (nodes ! p) = en_symbol (nodes ! q)" "en_payload (nodes ! p) = en_payload (nodes ! q)"
      and m: "map (tree_of nodes) (en_args (nodes ! p)) = map (tree_of nodes) (en_args (nodes ! q))"
      using eq tree_of_node [OF ok less.prems(1)] tree_of_node [OF ok less.prems(2)] by simp_all
    have ap: "a < p" if "a \<in> set (en_args (nodes ! p))" for a using ok less.prems(1) that by (auto simp: nodes_ok_def)
    have aq: "a < q" if "a \<in> set (en_args (nodes ! q))" for a using ok less.prems(2) that by (auto simp: nodes_ok_def)
    have "en_args (nodes ! p) = en_args (nodes ! q)"
    proof (rule nth_equalityI)
      show len: "length (en_args (nodes ! p)) = length (en_args (nodes ! q))" using m by (rule map_eq_imp_length_eq)
      fix i assume i: "i < length (en_args (nodes ! p))"
      have "tree_of nodes (en_args (nodes ! p) ! i) = tree_of nodes (en_args (nodes ! q) ! i)"
        using arg_cong [OF m, of "\<lambda>xs. xs ! i"] i len by simp
      moreover have "en_args (nodes ! p) ! i < p" "en_args (nodes ! q) ! i < q"
        using i len by (simp_all add: ap aq)
      ultimately show "en_args (nodes ! p) ! i = en_args (nodes ! q) ! i"
        using less.IH [of "en_args (nodes ! p) ! i" "en_args (nodes ! q) ! i"] less.prems by simp
    qed
    moreover have "made_node address (nodes ! p)" "made_node address (nodes ! q)" "distinct nodes"
      using ok less.prems by (simp_all add: nodes_ok_def)
    ultimately have "nodes ! p = nodes ! q" using f by (metis made_node_def)
    then show "p = q" using \<open>distinct nodes\<close> less.prems by (simp add: nth_eq_iff_index_eq)
  qed simp
qed

lemma tree_of_append:
  assumes ok: "nodes_ok address (nodes @ later)"
  shows "p < length nodes \<Longrightarrow> tree_of (nodes @ later) p = tree_of nodes p"
proof (induction p rule: less_induct)
  case (less p)
  have n: "(nodes @ later) ! p = nodes ! p" using less.prems by (simp add: nth_append)
  have "tree_of (nodes @ later) a = tree_of nodes a" if "a < p" for a using less that by simp
  then show ?case by (subst (1 2) tree_of.simps) (simp add: n)
qed

lemma tree_of_spec:
  assumes ok: "nodes_ok address nodes" "nodes_ok address (snd (intern_spec q nodes))"
    and q: "q = make_node address opr args flags symbol payload" and args: "\<forall>a\<in>set args. a < length nodes"
    and s: "intern_spec q nodes = (p, nodes')"
  shows "p < length nodes' \<and> tree_of nodes' p = Node opr flags symbol payload (map (tree_of nodes) args) \<and>
    (\<forall>r<length nodes. r < length nodes' \<and> tree_of nodes' r = tree_of nodes r)"
proof -
  have old: "\<forall>r<length nodes. r < length nodes' \<and> tree_of nodes' r = tree_of nodes r"
    using ok s tree_of_append [of address nodes "[q]"] by (auto simp: intern_spec_def split: if_splits)
  have p: "p < length nodes'" "nodes' ! p = q"
  proof -
    have "p < length nodes' \<and> nodes' ! p = q"
    proof (cases "q \<in> set nodes")
      case True
      then show ?thesis using s intern_spec_present [of nodes] ok(1) by (auto simp: in_set_conv_nth nodes_ok_def)
    qed (use s intern_spec_absent [of q nodes] in auto)
    then show "p < length nodes'" "nodes' ! p = q" by simp_all
  qed
  have "tree_of nodes' p = Node opr flags symbol payload (map (tree_of nodes') args)"
    using tree_of_node [of address nodes' p] ok(2) s p q by (simp add: make_node_def)
  moreover have "map (tree_of nodes') args = map (tree_of nodes) args" using old args by simp
  ultimately show ?thesis using p(1) old by simp
qed


section \<open>Reachable tables\<close>

text \<open>A table that the pool can be in: a fresh one, after an interning, after a reservation.\<close>

inductive reached :: "group_arm \<Rightarrow> (nat \<Rightarrow> u64) \<Rightarrow> intern_table \<Rightarrow> bool" for A address where
  fresh: "empty_table A n = ok t \<Longrightarrow> reached A address t"
| interned: "\<lbrakk>reached A address t; length args < 256; \<forall>a\<in>set args. a < length (it_nodes t);
    intern_node A address opr args flags symbol payload t = Some (ok (p, t'))\<rbrakk> \<Longrightarrow> reached A address t'"
| reserved: "\<lbrakk>reached A address t; reserve A n t = Some (ok t')\<rbrakk> \<Longrightarrow> reached A address t'"

lemma reached_ok:
  assumes A: "probe_group A lanes" and r: "reached A address t"
  shows "table_ok (g_width A) lanes address t"
  using r
proof (induction rule: reached.induct)
  case (fresh n t)
  then have "n \<le> 2 ^ 30" by (auto simp: empty_table_def split: if_splits)
  then show ?case using probe_group.empty_table_ok [OF A, of n address] fresh by auto
next
  case (interned t args opr flags symbol payload p t')
  show ?case
  proof (cases "it_count t * 8 < it_capacity t * 7 \<or> it_capacity t * 2 \<le> 2 ^ 30")
    case True
    show ?thesis
      using probe_group.intern_node_refines [OF A interned.IH interned.hyps(2,3) True refl, of opr flags symbol payload]
        interned.hyps(4) by auto
  next
    case False
    then show ?thesis
      using probe_group.intern_node_refuses [OF A, of t address opr args flags symbol payload] interned.hyps(4) by simp
  qed
next
  case (reserved t n t')
  then have "n \<le> 2 ^ 30 * 7 div 8" by (auto simp: reserve_def split: if_splits)
  then show ?case using probe_group.reserve_ok [OF A reserved.IH, of n] reserved.hyps(2) by auto
qed

lemma table_ok_nodes: "table_ok w lanes address t \<Longrightarrow> nodes_ok address (it_nodes t)"
  by (auto simp: table_ok_def shaped_def)

text \<open>The table has room unless it has reached the largest capacity at its load factor.\<close>

definition has_room :: "intern_table \<Rightarrow> bool" where
  "has_room t \<longleftrightarrow> it_count t * 8 < it_capacity t * 7 \<or> it_capacity t * 2 \<le> 2 ^ 30"

lemma intern_node_tree:
  assumes A: "probe_group A lanes" and t: "table_ok (g_width A) lanes address t" and room: "has_room t"
    and args: "length args < 256" "\<forall>a\<in>set args. a < length (it_nodes t)"
  shows "\<exists>p t'. intern_node A address opr args flags symbol payload t = Some (ok (p, t')) \<and>
    table_ok (g_width A) lanes address t' \<and> p < length (it_nodes t') \<and> length (it_nodes t') \<le> length (it_nodes t) + 1 \<and>
    tree_of (it_nodes t') p = Node opr flags symbol payload (map (tree_of (it_nodes t)) args) \<and>
    (\<forall>r<length (it_nodes t). r < length (it_nodes t') \<and> tree_of (it_nodes t') r = tree_of (it_nodes t) r)"
proof -
  let ?q = "make_node address opr args flags symbol payload"
  obtain t' where t': "intern_node A address opr args flags symbol payload t
      = Some (ok (fst (intern_spec ?q (it_nodes t)), t'))" "table_ok (g_width A) lanes address t'"
    "it_nodes t' = snd (intern_spec ?q (it_nodes t))"
    using probe_group.intern_node_refines [OF A t args _ refl] room unfolding has_room_def by blast
  have "intern_spec ?q (it_nodes t) = (fst (intern_spec ?q (it_nodes t)), it_nodes t')" using t'(3) by simp
  note tree = tree_of_spec [OF table_ok_nodes [OF t] _ refl args(2) this]
  have "length (it_nodes t') \<le> length (it_nodes t) + 1" using t'(3) by (simp add: intern_spec_def)
  then show ?thesis using t'(1,2) tree table_ok_nodes [OF t'(2)] t'(3) by simp
qed


section \<open>Pools\<close>

definition stands_for :: "intern_table \<Rightarrow> nat \<Rightarrow> expr \<Rightarrow> bool" where
  "stands_for t p e \<longleftrightarrow> p < length (it_nodes t) \<and> tree_of (it_nodes t) p = e"

definition keeps :: "intern_table \<Rightarrow> intern_table \<Rightarrow> bool" where
  "keeps t t' \<longleftrightarrow> (\<forall>p e. stands_for t p e \<longrightarrow> stands_for t' p e)"

lemma keeps_refl [simp]: "keeps t t"
  by (simp add: keeps_def)

lemma keeps_trans: "keeps t t' \<Longrightarrow> keeps t' t'' \<Longrightarrow> keeps t t''"
  by (simp add: keeps_def)

lemma few_nodes_room: "table_ok w lanes address t \<Longrightarrow> length (it_nodes t) < 2 ^ 26 \<Longrightarrow> has_room t"
  unfolding table_ok_def has_room_def by (cases "it_capacity t \<le> 2 ^ 29") auto

lemma intern_atom:
  assumes A: "probe_group A lanes" and t: "table_ok (g_width A) lanes address t" and room: "has_room t"
  shows "\<exists>p t'. intern_node A address opr [] flags symbol payload t = Some (ok (p, t')) \<and>
    table_ok (g_width A) lanes address t' \<and> length (it_nodes t') \<le> length (it_nodes t) + 1 \<and>
    stands_for t' p (Node opr flags symbol payload []) \<and> keeps t t'"
  using intern_node_tree [OF A t room, of "[]" opr flags symbol payload] by (auto simp: stands_for_def keeps_def)

lemma seed_integers_ok:
  assumes A: "probe_group A lanes"
  shows "\<lbrakk>table_ok (g_width A) lanes address t; length (it_nodes t) + length is < 2 ^ 26\<rbrakk> \<Longrightarrow>
    \<exists>ps t'. seed_integers A address is cache t = Some (ok (cache @ ps, t')) \<and> table_ok (g_width A) lanes address t' \<and>
      list_all2 (\<lambda>p i. stands_for t' p (mk_integer i)) ps is \<and> keeps t t' \<and>
      length (it_nodes t') \<le> length (it_nodes t) + length is"
proof (induction "is" arbitrary: cache t)
  case Nil
  then show ?case by simp
next
  case (Cons i "is")
  obtain p t1 where t1: "make_integer A address i t = Some (ok (p, t1))" "table_ok (g_width A) lanes address t1"
    "length (it_nodes t1) \<le> length (it_nodes t) + 1" "stands_for t1 p (mk_integer i)" "keeps t t1"
    using intern_atom [OF A Cons.prems(1) few_nodes_room [OF Cons.prems(1)]] Cons.prems(2)
    by (fastforce simp: make_integer_def mk_integer_def)
  have "length (it_nodes t1) + length is < 2 ^ 26" using t1(3) Cons.prems(2) by simp
  then obtain ps t' where r: "seed_integers A address is (cache @ [p]) t1 = Some (ok ((cache @ [p]) @ ps, t'))"
    "table_ok (g_width A) lanes address t'" "list_all2 (\<lambda>p i. stands_for t' p (mk_integer i)) ps is" "keeps t1 t'"
    "length (it_nodes t') \<le> length (it_nodes t1) + length is"
    using Cons.IH [OF t1(2), of "cache @ [p]"] by blast
  have "stands_for t' p (mk_integer i)" using t1(4) r(4) by (simp add: keeps_def)
  then show ?case
    using t1(1,3,5) r keeps_trans by (intro exI [of _ "p # ps"] exI [of _ t']) auto
qed

definition pool_ok :: "nat \<Rightarrow> nat set \<Rightarrow> (nat \<Rightarrow> u64) \<Rightarrow> expr_pool \<Rightarrow> bool" where
  "pool_ok w lanes address P \<longleftrightarrow> table_ok w lanes address (ep_table P) \<and>
    stands_for (ep_table P) (ep_true P) mk_true \<and> stands_for (ep_table P) (ep_false P) mk_false \<and>
    list_all2 (\<lambda>p i. stands_for (ep_table P) p (mk_integer i)) (ep_int_cache P) [kIntCacheLow..kIntCacheHigh]"

lemma pool_ok_later:
  assumes "pool_ok w lanes address P" "keeps (ep_table P) (ep_table P')" "table_ok w lanes address (ep_table P')"
    "ep_true P' = ep_true P" "ep_false P' = ep_false P" "ep_int_cache P' = ep_int_cache P"
  shows "pool_ok w lanes address P'"
  using assms unfolding pool_ok_def keeps_def by (auto elim: list_all2_mono)

lemma pool_new_ok:
  assumes A: "probe_group A lanes" and n: "n \<le> 2 ^ 30"
  shows "\<exists>P. pool_new A address n = Some (ok P) \<and> pool_ok (g_width A) lanes address P \<and> has_room (ep_table P)"
proof -
  obtain t0 where t0: "empty_table A n = ok t0" "table_ok (g_width A) lanes address t0" "it_nodes t0 = []"
    using probe_group.empty_table_ok [OF A n] by blast
  obtain tr t1 where t1: "intern_node A address Op_BOOL_TRUE [] IS_BOOLEAN id_none 0 t0 = Some (ok (tr, t1))"
    "table_ok (g_width A) lanes address t1" "length (it_nodes t1) \<le> 1" "stands_for t1 tr mk_true"
    using intern_atom [OF A t0(2) few_nodes_room [OF t0(2)]] t0(3) by (fastforce simp: mk_true_def)
  obtain fa t2 where t2: "intern_node A address Op_BOOL_FALSE [] IS_BOOLEAN id_none 0 t1 = Some (ok (fa, t2))"
    "table_ok (g_width A) lanes address t2" "length (it_nodes t2) \<le> 2" "stands_for t2 fa mk_false" "keeps t1 t2"
    using intern_atom [OF A t1(2) few_nodes_room [OF t1(2)]] t1(3) by (fastforce simp: mk_false_def)
  have few: "length (it_nodes t2) + length [kIntCacheLow..kIntCacheHigh] < 2 ^ 26"
    using t2(3) by (simp add: kIntCacheLow_def kIntCacheHigh_def)
  then obtain ps t3 where t3: "seed_integers A address [kIntCacheLow..kIntCacheHigh] [] t2 = Some (ok (ps, t3))"
    "table_ok (g_width A) lanes address t3" "list_all2 (\<lambda>p i. stands_for t3 p (mk_integer i)) ps [kIntCacheLow..kIntCacheHigh]"
    "keeps t2 t3" "length (it_nodes t3) \<le> length (it_nodes t2) + length [kIntCacheLow..kIntCacheHigh]"
    using seed_integers_ok [OF A t2(2), of "[kIntCacheLow..kIntCacheHigh]" "[]"] by auto
  have "stands_for t3 tr mk_true" "stands_for t3 fa mk_false" using t1(4) t2(4,5) t3(4) by (auto simp: keeps_def)
  moreover have "has_room t3" by (rule few_nodes_room [OF t3(2)]) (use few t3(5) in linarith)
  ultimately show ?thesis
    using t0(1) t1(1) t2(1) t3 by (simp add: pool_new_def pool_ok_def)
qed

lemma pool_integer_ok:
  assumes A: "probe_group A lanes" and P: "pool_ok (g_width A) lanes address P" and room: "has_room (ep_table P)"
  shows "\<exists>p P'. pool_integer A address val P = Some (ok (p, P')) \<and> pool_ok (g_width A) lanes address P' \<and>
    stands_for (ep_table P') p (mk_integer val) \<and> keeps (ep_table P) (ep_table P')"
proof (cases "val \<ge> kIntCacheLow \<and> val \<le> kIntCacheHigh")
  case True
  let ?k = "nat (val - kIntCacheLow)"
  have k: "?k < length [kIntCacheLow..kIntCacheHigh]" "[kIntCacheLow..kIntCacheHigh] ! ?k = val" using True by auto
  then have "stands_for (ep_table P) (ep_int_cache P ! ?k) (mk_integer val)"
    using P list_all2_nthD2 [of _ "ep_int_cache P" "[kIntCacheLow..kIntCacheHigh]" ?k] unfolding pool_ok_def by auto
  then show ?thesis using True P by (simp add: pool_integer_def)
next
  case False
  have t: "table_ok (g_width A) lanes address (ep_table P)" using P by (simp add: pool_ok_def)
  obtain p t' where t': "make_integer A address val (ep_table P) = Some (ok (p, t'))" "table_ok (g_width A) lanes address t'"
    "stands_for t' p (mk_integer val)" "keeps (ep_table P) t'"
    using intern_atom [OF A t room] by (fastforce simp: make_integer_def mk_integer_def)
  have "pool_ok (g_width A) lanes address (P\<lparr>ep_table := t'\<rparr>)" by (rule pool_ok_later [OF P]) (use t' in simp_all)
  then show ?thesis using False t' by (auto simp: pool_integer_def)
qed

lemma grown_for_valid:
  assumes "sid \<noteq> id_none"
  shows "unat sid < length (grown_for sid xs)"
    and "k \<noteq> unat sid \<Longrightarrow> k < length (grown_for sid xs) \<and> grown_for sid xs ! k \<noteq> None \<longleftrightarrow> k < length xs \<and> xs ! k \<noteq> None"
    and "k < length xs \<Longrightarrow> grown_for sid xs ! k = xs ! k"
proof -
  have "1 + sid \<noteq> 0" using assms by (metis add.commute eq_neg_iff_add_eq_0 id_none_def)
  then have s: "unat (sid + 1) = unat sid + 1" using unatSuc [of sid] by (simp add: add.commute)
  show "unat sid < length (grown_for sid xs)" by (simp add: grown_for_def s)
  show "k \<noteq> unat sid \<Longrightarrow> k < length (grown_for sid xs) \<and> grown_for sid xs ! k \<noteq> None \<longleftrightarrow> k < length xs \<and> xs ! k \<noteq> None"
    "k < length xs \<Longrightarrow> grown_for sid xs ! k = xs ! k"
    by (auto simp: grown_for_def s nth_append)
qed

text \<open>A registered symbol is found by its identifier, and the other symbols stay.\<close>

lemma pool_symbol_ok:
  assumes A: "probe_group A lanes" and P: "pool_ok (g_width A) lanes address P" and room: "has_room (ep_table P)"
    and sid: "sid \<noteq> id_none"
  shows "\<exists>p P' name. pool_symbol A address name_buf sid flags P = Some (ok (p, P')) \<and> pool_ok (g_width A) lanes address P' \<and>
    stands_for (ep_table P') p (mk_symbol name sid flags) \<and> fast_symbol sid P' = Some p \<and>
    (\<forall>s. s \<noteq> sid \<longrightarrow> fast_symbol s P' = fast_symbol s P)"
proof -
  define names where "names = grown_for sid (ep_symbol_names P)"
  define names' where "names' = (if names ! unat sid = None then names[unat sid := Some name_buf] else names)"
  define name where "name = the (names' ! unat sid)"
  have t: "table_ok (g_width A) lanes address (ep_table P)" using P by (simp add: pool_ok_def)
  obtain p t' where t': "intern_node A address Op_SYMBOL [] (flags OR IS_SYMBOL) sid name (ep_table P) = Some (ok (p, t'))"
    "table_ok (g_width A) lanes address t'" "stands_for t' p (mk_symbol name sid flags)" "keeps (ep_table P) t'"
    using intern_atom [OF A t room] by (fastforce simp: mk_symbol_def)
  let ?P = "P\<lparr>ep_table := t', ep_symbol_names := names',
    ep_symbol_exprs := (grown_for sid (ep_symbol_exprs P))[unat sid := Some p]\<rparr>"
  have "pool_symbol A address name_buf sid flags P = Some (ok (p, ?P))"
    using grown_for_valid(1) [OF sid, of "ep_symbol_names P"] t'(1)
    by (simp add: pool_symbol_def Let_def names_def [symmetric] names'_def [symmetric] name_def [symmetric])
  moreover have "pool_ok (g_width A) lanes address ?P" by (rule pool_ok_later [OF P]) (use t' in simp_all)
  moreover have "fast_symbol sid ?P = Some p"
    using grown_for_valid(1) [OF sid, of "ep_symbol_exprs P"] by (simp add: fast_symbol_def)
  moreover have "fast_symbol s ?P = fast_symbol s P" if "s \<noteq> sid" for s
  proof -
    have "unat s \<noteq> unat sid" using that by (simp add: word_unat_eq_iff)
    then show ?thesis
      using grown_for_valid(2,3) [OF sid, of "unat s" "ep_symbol_exprs P"] by (auto simp: fast_symbol_def)
  qed
  ultimately show ?thesis using t'(3) by fastforce
qed

text \<open>The identifier that marks an absent symbol makes the size of the vector wrap to zero; the vector is
  emptied and the following access is out of range.\<close>

theorem symbol_none_aborts:
  assumes "length (ep_symbol_names P) < 2 ^ 32"
  shows "pool_symbol A address name_buf id_none flags P = Some (fail Aborted)"
  using assms by (simp add: pool_symbol_def grown_for_def id_none_def Let_def unsigned_minus_1_eq_mask mask_eq_exp_minus_1)


section \<open>Properties\<close>

text \<open>C31.  Interning refines a list of distinct nodes, on every instruction set and in every table the pool can
  be in, for a node of fewer than 256 arguments that are nodes of the pool: the probe ends, a node that is present is returned, another is appended, and a table at its largest
  capacity and full load refuses.\<close>

theorem interning_refines_list:
  assumes "A \<in> set arms" "reached A address t" "length args < 256" "\<forall>a\<in>set args. a < length (it_nodes t)"
    and q: "q = make_node address opr args flags symbol payload"
  shows "if has_room t
    then \<exists>t'. intern_node A address opr args flags symbol payload t = Some (ok (fst (intern_spec q (it_nodes t)), t')) \<and>
      it_nodes t' = snd (intern_spec q (it_nodes t)) \<and> reached A address t'
    else intern_node A address opr args flags symbol payload t = Some (fail Contract_violation)"
proof -
  obtain lanes where A: "probe_group A lanes" by (rule arm_laws [OF assms(1)])
  show ?thesis
  proof (cases "has_room t")
    case True
    then obtain t' where t': "intern_node A address opr args flags symbol payload t
        = Some (ok (fst (intern_spec q (it_nodes t)), t'))" "it_nodes t' = snd (intern_spec q (it_nodes t))"
      using probe_group.intern_node_refines [OF A reached_ok [OF A assms(2)] assms(3,4) _ q] unfolding has_room_def by blast
    have "reached A address t'" by (rule reached.interned [OF assms(2-4) t'(1)])
    then show ?thesis using t' True by simp
  next
    case False
    then show ?thesis using probe_group.intern_node_refuses [OF A] by (simp add: has_room_def not_le not_less)
  qed
qed

lemma sample_table:
  "\<exists>t. empty_table sse2_arm 16 = ok t \<and> it_nodes t = [] \<and> has_room t"
  by (simp add: empty_table_def rounded_capacity_def doubled_until.simps arm_defs Let_def is_swiss_table_capacity_def
      has_room_def)

theorem interning_refines_list_witness:
  "\<exists>t t'. empty_table sse2_arm 16 = ok t \<and>
    intern_node sse2_arm of_nat Op_BOOL_TRUE [] IS_BOOLEAN id_none 0 t = Some (ok (0, t')) \<and> length (it_nodes t') = 1"
proof -
  obtain t where t: "empty_table sse2_arm 16 = ok t" "it_nodes t = []" "has_room t" using sample_table by blast
  show ?thesis
    using interning_refines_list [of sse2_arm of_nat t "[]" _ Op_BOOL_TRUE IS_BOOLEAN id_none 0, OF _ reached.fresh [OF t(1)]] t
    by (auto simp: arms_def intern_spec_def)
qed

text \<open>C32.  Pointers are equal exactly when their trees are: the pointer that interning returns stands for the
  requested tree, no other pointer of the pool does, and every earlier pointer keeps its tree.\<close>

theorem interning_is_hash_consing:
  assumes "A \<in> set arms" "reached A address t" "has_room t" "length args < 256" "\<forall>a\<in>set args. a < length (it_nodes t)"
  shows "\<exists>p t'. intern_node A address opr args flags symbol payload t = Some (ok (p, t')) \<and>
    tree_of (it_nodes t') p = Node opr flags symbol payload (map (tree_of (it_nodes t)) args) \<and>
    (\<forall>r. r < length (it_nodes t') \<longrightarrow> (tree_of (it_nodes t') r = tree_of (it_nodes t') p \<longleftrightarrow> r = p)) \<and>
    (\<forall>r. r < length (it_nodes t) \<longrightarrow> tree_of (it_nodes t') r = tree_of (it_nodes t) r)"
proof -
  obtain lanes where A: "probe_group A lanes" by (rule arm_laws [OF assms(1)])
  obtain p t' where t': "intern_node A address opr args flags symbol payload t = Some (ok (p, t'))"
    "table_ok (g_width A) lanes address t'" "p < length (it_nodes t')"
    "tree_of (it_nodes t') p = Node opr flags symbol payload (map (tree_of (it_nodes t)) args)"
    "\<forall>r<length (it_nodes t). r < length (it_nodes t') \<and> tree_of (it_nodes t') r = tree_of (it_nodes t) r"
    using intern_node_tree [OF A reached_ok [OF A assms(2)] assms(3-5), of opr flags symbol payload] by blast
  then show ?thesis using tree_of_inj [OF table_ok_nodes [OF t'(2)]] by blast
qed

theorem interning_is_hash_consing_witness:
  "\<exists>t p t'. empty_table sse2_arm 16 = ok t \<and>
    intern_node sse2_arm of_nat Op_BOOL_TRUE [] IS_BOOLEAN id_none 0 t = Some (ok (p, t')) \<and>
    tree_of (it_nodes t') p = mk_true"
proof -
  obtain t where t: "empty_table sse2_arm 16 = ok t" "it_nodes t = []" "has_room t" using sample_table by blast
  show ?thesis
    using interning_is_hash_consing [of sse2_arm of_nat t "[]" Op_BOOL_TRUE IS_BOOLEAN id_none 0,
        OF _ reached.fresh [OF t(1)] t(3)] t
    by (auto simp: arms_def mk_true_def)
qed

text \<open>The constructor of the pool returns for every admissible capacity, seeds the constants and the cache,
  and then every integer, cached or not, is the pointer of its canonical node.\<close>

theorem pool_seeds_integers:
  assumes "A \<in> set arms" "n \<le> 2 ^ 30"
  shows "\<exists>P. pool_new A address n = Some (ok P) \<and>
    tree_of (it_nodes (ep_table P)) (ep_true P) = mk_true \<and> tree_of (it_nodes (ep_table P)) (ep_false P) = mk_false \<and>
    (\<forall>val. \<exists>p P'. pool_integer A address val P = Some (ok (p, P')) \<and> tree_of (it_nodes (ep_table P')) p = mk_integer val)"
proof -
  obtain lanes where A: "probe_group A lanes" by (rule arm_laws [OF assms(1)])
  obtain P where P: "pool_new A address n = Some (ok P)" "pool_ok (g_width A) lanes address P" "has_room (ep_table P)"
    using pool_new_ok [OF A assms(2)] by blast
  show ?thesis
    using P pool_integer_ok [OF A P(2,3)] unfolding pool_ok_def stands_for_def by blast
qed

theorem pool_seeds_integers_witness:
  "\<exists>P p P'. pool_new swar_arm of_nat 16384 = Some (ok P) \<and> pool_integer swar_arm of_nat 7 P = Some (ok (p, P')) \<and>
    tree_of (it_nodes (ep_table P')) p = mk_integer 7"
  using pool_seeds_integers [of swar_arm 16384 of_nat] by (auto simp: arms_def)

text \<open>The portable arm does not see the last lane of each half of a group.\<close>

theorem portable_arm_skips_lanes:
  assumes "length grp = 16"
  shows "\<not> bit (swar_match_empty grp) 7" "\<not> bit (swar_match_empty grp) 15"
  using assms by (simp_all add: bit_swar_match_empty)

theorem portable_arm_on_empty_group: "swar_match_empty (replicate 16 kEmpty) = 0x7F7F"
  by code_simp

text \<open>A borrow out of a matching byte makes the portable arm report its neighbour as well; the full comparison
  of the nodes then rejects it.\<close>

theorem portable_arm_false_match: "swar_match 5 ([5, 4] @ replicate 14 kEmpty) = 0x3"
  by code_simp

end
