(* ===== verification/Crucible_Context.thy ===== *)
theory Crucible_Context
  imports Replay_Engine Memory_Plan_Correct
begin

text \<open>
  The execution context of \<^verbatim>\<open>crucible/CrucibleContext.h\<close>: it owns the replay engine and the pool, activates a
  region, advances the replay, and switches to an alternate region in the middle of an iteration, for
  which it copies the live tensors of the shared prefix from the old pool into the new one.

  The world of an operation is the context, the registry of hot regions and the memory, a function from
  addresses to bytes.  An allocation is a parameter of the operation that makes it.
\<close>

section \<open>State and operations\<close>

datatype context_mode = CM_RECORD | CM_COMPILED

record crucible_context =
  cc_engine :: replay_engine
  cc_mode :: context_mode
  cc_iterations :: u32
  cc_diverged :: u32
  cc_active :: "region option"
  cc_pool :: pool

record ctx_world =
  cw_ctx :: crucible_context
  cw_reg :: "hot_region list"
  cw_mem :: "u64 \<Rightarrow> u8"

definition fresh_context :: crucible_context where
  "fresh_context = \<lparr>cc_engine = fresh_engine, cc_mode = CM_RECORD, cc_iterations = 0, cc_diverged = 0,
     cc_active = None, cc_pool = empty_pool\<rparr>"

definition deactivate :: "ctx_world \<Rightarrow> ctx_world" where
  "deactivate w =
    (let c = cw_ctx w; (p, reg) = pool_destroy (cc_pool c, cw_reg w)
     in w\<lparr>cw_ctx := c\<lparr>cc_mode := CM_RECORD, cc_pool := p, cc_active := None\<rparr>, cw_reg := reg\<rparr>)"

definition activate ::
  "(u64 \<Rightarrow> u64 \<Rightarrow> u64) \<Rightarrow> bool \<Rightarrow> region option \<Rightarrow> ctx_world \<Rightarrow> (bool \<times> ctx_world) checked" where
  "activate aligned_alloc calloc_ok rg w0 =
    (case rg of
       None \<Rightarrow> fail Contract_violation
     | Some r \<Rightarrow>
         (case rg_plan r of
            None \<Rightarrow> ok (False, w0)
          | Some plan \<Rightarrow>
              let w = (if cc_mode (cw_ctx w0) = CM_COMPILED then deactivate w0 else w0); c = cw_ctx w
              in and_then (pool_init aligned_alloc calloc_ok plan (cc_pool c, cw_reg w)) (\<lambda>(p, reg).
                   and_then (engine_init (Some r) p (cc_engine c)) (\<lambda>e.
                     ok (True, w\<lparr>cw_ctx := c\<lparr>cc_engine := e, cc_mode := CM_COMPILED, cc_active := Some r, cc_pool := p\<rparr>,
                                 cw_reg := reg\<rparr>)))))"

definition ctx_advance :: "u64 \<Rightarrow> u64 \<Rightarrow> crucible_context \<Rightarrow> (replay_status \<times> crucible_context) checked" where
  "ctx_advance schema shape c =
    (if cc_mode c \<noteq> CM_COMPILED then fail Contract_violation
     else and_then (advance schema shape (cc_engine c)) (\<lambda>(st, e).
       case st of
         MATCH \<Rightarrow> ok (MATCH, c\<lparr>cc_engine := e\<rparr>)
       | COMPLETE \<Rightarrow> and_then (bump (cc_iterations c)) (\<lambda>n.
           ok (COMPLETE, c\<lparr>cc_engine := engine_reset e, cc_iterations := n\<rparr>))
       | DIVERGED \<Rightarrow> and_then (bump (cc_diverged c)) (\<lambda>n. ok (DIVERGED, c\<lparr>cc_engine := e, cc_diverged := n\<rparr>))))"

definition ctx_output_ptr :: "nat \<Rightarrow> crucible_context \<Rightarrow> u64 checked" where
  "ctx_output_ptr j c = (if cc_mode c \<noteq> CM_COMPILED then fail Contract_violation else output_ptr j (cc_pool c) (cc_engine c))"

definition ctx_input_ptr :: "nat \<Rightarrow> crucible_context \<Rightarrow> u64 checked" where
  "ctx_input_ptr j c = (if cc_mode c \<noteq> CM_COMPILED then fail Contract_violation else input_ptr j (cc_pool c) (cc_engine c))"

definition ctx_register_external :: "u32 \<Rightarrow> u64 \<Rightarrow> crucible_context \<Rightarrow> crucible_context checked" where
  "ctx_register_external sid ptr c =
    and_then (register_external sid ptr (cc_pool c)) (\<lambda>p. ok (c\<lparr>cc_pool := p\<rparr>))"


section \<open>Migration\<close>

definition MIGRATION_MAX_SLOTS :: nat where
  "MIGRATION_MAX_SLOTS = 1024"

definition copy_bytes :: "u64 \<Rightarrow> u64 \<Rightarrow> u64 \<Rightarrow> (u64 \<Rightarrow> u8) \<Rightarrow> u64 \<Rightarrow> u8" where
  "copy_bytes dst src n mem = (\<lambda>a. if a - dst < n then mem (src + (a - dst)) else mem a)"

text \<open>One output of one operation of the prefix.  The bit set of copied slots is a list of flags.\<close>

definition migrate_output :: "memory_plan \<Rightarrow> memory_plan \<Rightarrow> u64 \<Rightarrow> u64 \<Rightarrow> u32 \<Rightarrow> u32 \<Rightarrow> bool list \<times> (u64 \<Rightarrow> u8)
    \<Rightarrow> (bool list \<times> (u64 \<Rightarrow> u8)) checked" where
  "migrate_output old_plan new_plan old_base new_base old_sid new_sid vm =
    (let (visited, mem) = vm
     in if \<not> id_is_valid old_sid \<or> \<not> id_is_valid new_sid then ok vm
        else if \<not> unat old_sid < num_slots old_plan then fail Fatal_invariant
        else if \<not> unat new_sid < num_slots new_plan then fail Fatal_invariant
        else let os = mp_slots old_plan ! unat old_sid; ns = mp_slots new_plan ! unat new_sid
             in if is_external os \<or> is_external ns then ok vm
                else if visited ! unat new_sid then ok vm
                else ok (visited[unat new_sid := True],
                         if nbytes os > 0 \<and> old_base \<noteq> 0
                         then copy_bytes (new_base + offset_bytes ns) (old_base + offset_bytes os) (nbytes os) mem
                         else mem))"

fun migrate_outputs :: "memory_plan \<Rightarrow> memory_plan \<Rightarrow> u64 \<Rightarrow> u64 \<Rightarrow> (u32 \<times> u32) list \<Rightarrow> bool list \<times> (u64 \<Rightarrow> u8)
    \<Rightarrow> (bool list \<times> (u64 \<Rightarrow> u8)) checked" where
  "migrate_outputs old_plan new_plan old_base new_base [] vm = ok vm"
| "migrate_outputs old_plan new_plan old_base new_base ((o', n) # pairs) vm =
    and_then (migrate_output old_plan new_plan old_base new_base o' n vm)
      (migrate_outputs old_plan new_plan old_base new_base pairs)"

fun migrate_ops :: "memory_plan \<Rightarrow> memory_plan \<Rightarrow> u64 \<Rightarrow> u64 \<Rightarrow> (trace_entry \<times> trace_entry) list
    \<Rightarrow> bool list \<times> (u64 \<Rightarrow> u8) \<Rightarrow> (bool list \<times> (u64 \<Rightarrow> u8)) checked" where
  "migrate_ops old_plan new_plan old_base new_base [] vm = ok vm"
| "migrate_ops old_plan new_plan old_base new_base ((old_te, new_te) # ops) vm =
    (case (te_output_slot_ids old_te, te_output_slot_ids new_te) of
       (Some old_ids, Some new_ids) \<Rightarrow>
         if te_num_outputs old_te \<noteq> te_num_outputs new_te then fail Fatal_invariant
         else and_then (migrate_outputs old_plan new_plan old_base new_base
                          (zip (take (te_num_outputs old_te) old_ids) (take (te_num_outputs old_te) new_ids)) vm)
                (migrate_ops old_plan new_plan old_base new_base ops)
     | _ \<Rightarrow> migrate_ops old_plan new_plan old_base new_base ops vm)"

text \<open>An operation index past the end of either region would be read out of range.\<close>

definition migrate_prefix_slots :: "region \<Rightarrow> region \<Rightarrow> u64 \<Rightarrow> u64 \<Rightarrow> nat \<Rightarrow> (u64 \<Rightarrow> u8) \<Rightarrow> (u64 \<Rightarrow> u8) checked" where
  "migrate_prefix_slots old_region alt old_base new_base div_pos mem =
    (case (rg_plan old_region, rg_plan alt) of
       (Some old_plan, Some new_plan) \<Rightarrow>
         if \<not> num_slots new_plan \<le> MIGRATION_MAX_SLOTS then fail Fatal_invariant
         else if \<not> (div_pos \<le> length (rg_ops old_region) \<and> div_pos \<le> length (rg_ops alt)) then fail Aborted
         else and_then (migrate_ops old_plan new_plan old_base new_base
                          (zip (take div_pos (rg_ops old_region)) (take div_pos (rg_ops alt)))
                          (replicate MIGRATION_MAX_SLOTS False, mem)) (\<lambda>(visited, mem'). ok mem')
     | _ \<Rightarrow> fail Contract_violation)"

fun replay_prefix :: "(u64 \<times> u64) list \<Rightarrow> replay_engine \<Rightarrow> replay_engine checked" where
  "replay_prefix [] e = ok e"
| "replay_prefix ((schema, shape) # gs) e = and_then (advance schema shape e) (\<lambda>(st, e'). replay_prefix gs e')"

definition switch_region ::
  "(u64 \<Rightarrow> u64 \<Rightarrow> u64) \<Rightarrow> bool \<Rightarrow> region option \<Rightarrow> nat \<Rightarrow> ctx_world \<Rightarrow> (bool \<times> ctx_world) checked" where
  "switch_region aligned_alloc calloc_ok rg div_pos w =
    (case rg of
       None \<Rightarrow> fail Contract_violation
     | Some alt \<Rightarrow>
         if cc_mode (cw_ctx w) \<noteq> CM_COMPILED then fail Contract_violation
         else (case rg_plan alt of
            None \<Rightarrow> ok (False, w)
          | Some plan \<Rightarrow>
              if div_pos = 0 then activate aligned_alloc calloc_ok rg w
              else let c = cw_ctx w in
                (case cc_active c of
                   None \<Rightarrow> fail Fatal_invariant
                 | Some old_region \<Rightarrow>
                     if rg_plan old_region = None then fail Fatal_invariant
                     else and_then (pool_detach (cc_pool c, cw_reg w)) (\<lambda>((old_base, old_bytes), pw).
                       and_then (pool_init aligned_alloc calloc_ok plan pw) (\<lambda>(p, reg).
                       and_then (migrate_prefix_slots old_region alt old_base (pool_base p) div_pos (cw_mem w)) (\<lambda>mem.
                       and_then (engine_init (Some alt) p (cc_engine c)) (\<lambda>e.
                       and_then (replay_prefix (take div_pos (op_guards (rg_ops alt))) e) (\<lambda>e'.
                         ok (True, \<lparr>cw_ctx = c\<lparr>cc_engine := e', cc_active := Some alt, cc_pool := p\<rparr>, cw_reg = reg,
                                    cw_mem = mem\<rparr>)))))))))"

end
