(* ===== verification/Transaction_Log.thy ===== *)
theory Transaction_Log
  imports Crucible_Prelude
begin

text \<open>
  The transaction log of \<^verbatim>\<open>crucible/Transaction.h\<close>: a ring of sixteen transactions
  (\<^verbatim>\<open>fixy/CyclicBuffer.h\<close>, \<^verbatim>\<open>fixy/Cyclic.h\<close>), the slot of the active one and the count of displacements.  A region
  is known by its address, a reading of the monotonic clock is a parameter of each operation that stamps a
  transaction, absent when the read failed.
\<close>

section \<open>State and operations\<close>

datatype tx_status = TX_RECORDING | TX_CLOSED | TX_COMMITTED | TX_ACTIVE | TX_SUPERSEDED | TX_ROLLED_BACK

record transaction =
  tx_step_id :: u64
  tx_displacement_order :: u64
  tx_content_hash :: u64
  tx_merkle_root :: u64
  tx_region :: "nat option"
  tx_ts_ns :: "u64 option"
  tx_status :: tx_status

definition fresh_tx :: transaction where
  "fresh_tx = \<lparr>tx_step_id = 0, tx_displacement_order = 0, tx_content_hash = 0, tx_merkle_root = 0, tx_region = None,
     tx_ts_ns = None, tx_status = TX_RECORDING\<rparr>"

definition stamp_transaction :: "u64 option \<Rightarrow> transaction \<Rightarrow> transaction" where
  "stamp_transaction reading tx = tx\<lparr>tx_ts_ns := reading\<rparr>"

definition tx_capacity :: nat where
  "tx_capacity = 16"

record tx_log =
  tl_slots :: "transaction list"
  tl_cursor :: u64
  tl_count :: nat
  tl_active :: "nat option"
  tl_displacements :: u64

definition fresh_log :: tx_log where
  "fresh_log = \<lparr>tl_slots = replicate tx_capacity fresh_tx, tl_cursor = 0, tl_count = 0, tl_active = None,
     tl_displacements = 0\<rparr>"

definition ring_claim :: "tx_log \<Rightarrow> nat \<times> tx_log" where
  "ring_claim l = (unat (tl_cursor l AND 15),
     l\<lparr>tl_cursor := tl_cursor l + 1, tl_count := (if tl_count l < tx_capacity then tl_count l + 1 else tl_count l)\<rparr>)"

definition ring_recent :: "tx_log \<Rightarrow> nat \<Rightarrow> nat" where
  "ring_recent l i = unat ((tl_cursor l - 1 - word_of_nat i) AND 15)"

fun previous_loop :: "tx_log \<Rightarrow> nat list \<Rightarrow> nat option \<Rightarrow> nat option" where
  "previous_loop l [] target = target"
| "previous_loop l (i # is) target =
    (let s = ring_recent l i; entry = tl_slots l ! s;
         newer = (tx_status entry = TX_SUPERSEDED \<and>
           (case target of None \<Rightarrow> True
            | Some t \<Rightarrow> tx_displacement_order entry > tx_displacement_order (tl_slots l ! t)))
     in if \<not> newer then previous_loop l is target
        else if tx_displacement_order entry = tl_displacements l then Some s
        else previous_loop l is (Some s))"

definition tx_previous :: "tx_log \<Rightarrow> nat option" where
  "tx_previous l = previous_loop l [0..<tl_count l] None"

fun skip_kept :: "nat \<Rightarrow> nat option \<Rightarrow> tx_log \<Rightarrow> tx_log" where
  "skip_kept 0 target l = l"
| "skip_kept (Suc passes) target l =
    (if tl_count l \<noteq> tx_capacity then l
     else let oldest = Some (ring_recent l (tx_capacity - 1)) in
       if oldest \<noteq> tl_active l \<and> oldest \<noteq> target then l
       else skip_kept passes target (snd (ring_claim l)))"

definition begin_tx :: "u64 option \<Rightarrow> u64 \<Rightarrow> tx_log \<Rightarrow> nat \<times> tx_log" where
  "begin_tx reading step_id l =
    (let target = tx_previous l; (s, l1) = ring_claim (skip_kept 2 target l)
     in (s, l1\<lparr>tl_slots := (tl_slots l1)[s := stamp_transaction reading (fresh_tx\<lparr>tx_step_id := step_id\<rparr>)]\<rparr>))"

definition tx_commit :: "u64 option \<Rightarrow> nat \<Rightarrow> nat option \<Rightarrow> u64 \<Rightarrow> u64 \<Rightarrow> tx_log \<Rightarrow> (bool \<times> tx_log) checked" where
  "tx_commit reading s rg content_hash merkle_root l =
    (if rg = None then fail Contract_violation
     else if merkle_root = 0 then fail Contract_violation
     else let tx = tl_slots l ! s in
       if tx_status tx \<noteq> TX_RECORDING \<and> tx_status tx \<noteq> TX_CLOSED then ok (False, l)
       else ok (True, l\<lparr>tl_slots := (tl_slots l)[s := stamp_transaction reading
              (tx\<lparr>tx_region := rg, tx_content_hash := content_hash, tx_merkle_root := merkle_root, tx_status := TX_COMMITTED\<rparr>)]\<rparr>))"

text \<open>A monotone counter refuses to wrap and to go back.\<close>

definition displace :: "u64 option \<Rightarrow> nat \<Rightarrow> tx_log \<Rightarrow> tx_log checked" where
  "displace reading a l =
    and_then (bump (tl_displacements l)) (\<lambda>n.
      let tx = tl_slots l ! a in
      if \<not> tx_displacement_order tx \<le> n then fail Contract_violation
      else ok (l\<lparr>tl_displacements := n, tl_slots := (tl_slots l)[a := stamp_transaction reading
             (tx\<lparr>tx_status := TX_SUPERSEDED, tx_displacement_order := n\<rparr>)]\<rparr>))"

definition tx_activate :: "u64 option \<Rightarrow> u64 option \<Rightarrow> nat \<Rightarrow> tx_log \<Rightarrow> (nat option \<times> tx_log) checked" where
  "tx_activate reading1 reading2 s l =
    (if tx_status (tl_slots l ! s) \<noteq> TX_COMMITTED then ok (None, l)
     else and_then (case tl_active l of None \<Rightarrow> ok l | Some a \<Rightarrow> displace reading1 a l) (\<lambda>l1.
       ok (tl_active l, l1\<lparr>tl_slots := (tl_slots l1)[s := stamp_transaction reading2
             ((tl_slots l1 ! s)\<lparr>tx_status := TX_ACTIVE\<rparr>)], tl_active := Some s\<rparr>)))"

definition tx_rollback :: "u64 option \<Rightarrow> u64 option \<Rightarrow> tx_log \<Rightarrow> bool \<times> tx_log" where
  "tx_rollback reading1 reading2 l =
    (case tx_previous l of
       None \<Rightarrow> (False, l)
     | Some p \<Rightarrow>
         let l1 = (case tl_active l of
             None \<Rightarrow> l
           | Some a \<Rightarrow> l\<lparr>tl_slots := (tl_slots l)[a := stamp_transaction reading1
               ((tl_slots l ! a)\<lparr>tx_status := TX_ROLLED_BACK\<rparr>)]\<rparr>)
         in (True, l1\<lparr>tl_slots := (tl_slots l1)[p := stamp_transaction reading2
              ((tl_slots l1 ! p)\<lparr>tx_status := TX_ACTIVE\<rparr>)], tl_active := Some p\<rparr>))"

definition log_regions :: "tx_log \<Rightarrow> nat list" where
  "log_regions l = concat (map (\<lambda>i. case tx_region (tl_slots l ! ring_recent l i) of None \<Rightarrow> [] | Some r \<Rightarrow> [r]) [0..<tl_count l])"

text \<open>The part of the region-ready callback that writes the log (\<^verbatim>\<open>src/Vigil.cpp\<close>).\<close>

definition tx_publish :: "u64 option \<Rightarrow> u64 \<Rightarrow> nat \<Rightarrow> u64 \<Rightarrow> u64 \<Rightarrow> tx_log \<Rightarrow> tx_log checked" where
  "tx_publish reading step_id rg content_hash merkle_root l =
    (let (s, l1) = begin_tx reading step_id l
     in and_then (tx_commit reading s (Some rg) content_hash merkle_root l1) (\<lambda>(committed, l2).
        and_then (tx_activate reading reading s l2) (\<lambda>(prev, l3). ok l3)))"


section \<open>The ring\<close>

abbreviation superseded :: "tx_log \<Rightarrow> nat \<Rightarrow> bool" where
  "superseded l i \<equiv> tx_status (tl_slots l ! i) = TX_SUPERSEDED"

abbreviation order_of :: "tx_log \<Rightarrow> nat \<Rightarrow> u64" where
  "order_of l i \<equiv> tx_displacement_order (tl_slots l ! i)"

definition tx_inv :: "tx_log \<Rightarrow> bool" where
  "tx_inv l \<longleftrightarrow> length (tl_slots l) = tx_capacity \<and> tl_count l \<le> tx_capacity \<and>
     (tl_count l < tx_capacity \<longrightarrow> unat (tl_cursor l) = tl_count l) \<and>
     (\<forall>i<tx_capacity. tx_status (tl_slots l ! i) \<noteq> TX_RECORDING \<longrightarrow> tl_count l = tx_capacity \<or> i < tl_count l) \<and>
     (\<forall>i<tx_capacity. tx_status (tl_slots l ! i) = TX_ACTIVE \<longleftrightarrow> tl_active l = Some i) \<and>
     (\<forall>i. tl_active l = Some i \<longrightarrow> i < tx_capacity) \<and>
     (\<forall>i<tx_capacity. order_of l i \<le> tl_displacements l \<and> (superseded l i \<longrightarrow> order_of l i \<noteq> 0)) \<and>
     (\<forall>i<tx_capacity. \<forall>j<tx_capacity. superseded l i \<longrightarrow> superseded l j \<longrightarrow> order_of l i = order_of l j \<longrightarrow> i = j)"

lemma tx_invD:
  assumes "tx_inv l"
  shows "length (tl_slots l) = tx_capacity" "tl_count l \<le> tx_capacity"
    "tl_count l < tx_capacity \<Longrightarrow> unat (tl_cursor l) = tl_count l"
    "i < tx_capacity \<Longrightarrow> tx_status (tl_slots l ! i) \<noteq> TX_RECORDING \<Longrightarrow> tl_count l = tx_capacity \<or> i < tl_count l"
    "i < tx_capacity \<Longrightarrow> tx_status (tl_slots l ! i) = TX_ACTIVE \<longleftrightarrow> tl_active l = Some i"
    "tl_active l = Some i \<Longrightarrow> i < tx_capacity"
    "i < tx_capacity \<Longrightarrow> order_of l i \<le> tl_displacements l"
    "i < tx_capacity \<Longrightarrow> superseded l i \<Longrightarrow> order_of l i \<noteq> 0"
    "i < tx_capacity \<Longrightarrow> j < tx_capacity \<Longrightarrow> superseded l i \<Longrightarrow> superseded l j \<Longrightarrow> order_of l i = order_of l j \<Longrightarrow> i = j"
  using assms unfolding tx_inv_def by blast+

lemma fresh_log_inv: "tx_inv fresh_log"
  by (simp add: tx_inv_def fresh_log_def fresh_tx_def)

lemma unat_and_15: "unat (w AND 15) = unat w mod 16" for w :: u64
proof -
  have "w AND 15 = take_bit 4 w"
    by (simp add: take_bit_eq_mask mask_numeral)
  then show ?thesis
    by (simp add: take_bit_eq_mod unat_mod_distrib)
qed

lemma unat_back: "i < 16 \<Longrightarrow> unat (c - 1 - word_of_nat i :: u64) mod 16 = (unat c + 15 - i) mod 16"
proof -
  assume i: "i < 16"
  define x where "x = c - 1 - word_of_nat i"
  have "c = x + word_of_nat (i + 1)" by (simp add: x_def)
  then have "unat c = (unat x + (i + 1)) mod 2 ^ 64"
    using i by (simp add: unat_word_ariths unat_of_nat_exact)
  then have "unat c mod 16 = (unat x + (i + 1)) mod 16"
    by (simp add: mod_mod_cancel)
  then have "(unat c + (15 - i)) mod 16 = (unat x + (i + 1) + (15 - i)) mod 16"
    by (metis mod_add_left_eq)
  then show "unat (c - 1 - word_of_nat i) mod 16 = (unat c + 15 - i) mod 16"
    using i by (simp add: x_def)
qed

lemma ring_recent_eq: "i < 16 \<Longrightarrow> ring_recent l i = (unat (tl_cursor l) + 15 - i) mod 16"
  by (simp add: ring_recent_def unat_and_15 unat_back)

lemma ring_recent_less: "i < 16 \<Longrightarrow> ring_recent l i < 16"
  by (simp add: ring_recent_eq)

lemma ring_recent_covers:
  assumes "tx_inv l" "s < 16" "tl_count l = 16 \<or> s < tl_count l"
  shows "\<exists>i<tl_count l. ring_recent l i = s"
proof (cases "tl_count l = 16")
  case True
  define m where "m = unat (tl_cursor l) + 15 - s"
  define i where "i = m mod 16"
  have "i < 16" by (simp add: i_def)
  moreover have "m + s = unat (tl_cursor l) + 15" "i + 16 * (m div 16) = m"
    using assms(2) by (simp_all add: i_def m_def)
  then have "unat (tl_cursor l) + 15 - i = s + 16 * (m div 16)"
    by linarith
  then have "(unat (tl_cursor l) + 15 - i) mod 16 = s"
    using assms(2) by simp
  ultimately show ?thesis using True ring_recent_eq by auto
next
  case False
  then have c: "unat (tl_cursor l) = tl_count l" "s < tl_count l" "tl_count l < 16"
    using tx_invD(2,3) [OF assms(1)] assms(3) by (auto simp: tx_capacity_def)
  define i where "i = tl_count l - 1 - s"
  have "i < 16" "i < tl_count l" using c by (auto simp: i_def)
  moreover have "(tl_count l + 15 - i) mod 16 = s"
    using c by (simp add: i_def)
  ultimately show ?thesis using ring_recent_eq [of i l] c(1) by auto
qed

text \<open>The search for the rollback target finds the latest displacement.\<close>

lemma previous_loop_spec:
  assumes "\<forall>i<16. order_of l i \<le> tl_displacements l" "set is \<subseteq> {..<16}"
    and "\<forall>t. target = Some t \<longrightarrow> superseded l t \<and> t < 16"
  shows "case previous_loop l is target of
      None \<Rightarrow> target = None \<and> (\<forall>i\<in>set is. \<not> superseded l (ring_recent l i))
    | Some p \<Rightarrow> superseded l p \<and> p < 16 \<and> (\<forall>i\<in>set is. superseded l (ring_recent l i) \<longrightarrow> order_of l (ring_recent l i) \<le> order_of l p) \<and>
        (\<forall>t. target = Some t \<longrightarrow> order_of l t \<le> order_of l p)"
  using assms(2,3)
proof (induction "is" arbitrary: target)
  case (Cons i "is")
  let ?s = "ring_recent l i"
  define newer where "newer \<longleftrightarrow> superseded l ?s \<and> (case target of None \<Rightarrow> True | Some t \<Rightarrow> order_of l ?s > order_of l t)"
  have s: "?s < 16" using Cons.prems(1) by (simp add: ring_recent_less)
  consider "\<not> newer" | "newer" "order_of l ?s = tl_displacements l" | "newer" "order_of l ?s \<noteq> tl_displacements l" by blast
  then show ?case
  proof cases
    case 1
    then have "previous_loop l (i # is) target = previous_loop l is target" by (simp add: newer_def Let_def)
    then show ?thesis
      using Cons.IH [of target] Cons.prems 1
      by (cases target) (auto simp: newer_def not_less split: option.splits)
  next
    case 2
    then have "previous_loop l (i # is) target = Some ?s" by (simp add: newer_def Let_def)
    moreover have "order_of l (ring_recent l j) \<le> order_of l ?s" if "j \<in> set (i # is)" for j
      using assms(1) 2(2) that Cons.prems(1) ring_recent_less [of j l] by auto
    moreover have "order_of l t \<le> order_of l ?s" if "target = Some t" for t
      using 2(2) that Cons.prems(2) assms(1) by simp
    ultimately show ?thesis using 2(1) s by (simp add: newer_def)
  next
    case 3
    then have "previous_loop l (i # is) target = previous_loop l is (Some ?s)" by (simp add: newer_def Let_def)
    moreover have "order_of l t \<le> order_of l ?s" if "target = Some t" for t
      using 3(1) that by (simp add: newer_def less_imp_le)
    ultimately show ?thesis
      using Cons.IH [of "Some ?s"] Cons.prems(1) s 3(1)
      by (auto simp: newer_def split: option.splits intro: order_trans)
  qed
qed (use assms in \<open>auto split: option.splits\<close>)

lemma tx_previous_spec:
  assumes "tx_inv l"
  shows "case tx_previous l of
      None \<Rightarrow> \<forall>i<16. \<not> superseded l i
    | Some p \<Rightarrow> p < 16 \<and> superseded l p \<and> (\<forall>i<16. superseded l i \<longrightarrow> order_of l i \<le> order_of l p)"
proof -
  have le: "set [0..<tl_count l] \<subseteq> {..<16}" using tx_invD(2) [OF assms] by (auto simp: tx_capacity_def)
  have "\<exists>i\<in>set [0..<tl_count l]. ring_recent l i = s" if "superseded l s" "s < 16" for s
    using ring_recent_covers [OF assms that(2)] tx_invD(4) [OF assms, of s] that by (auto simp: tx_capacity_def)
  moreover have "\<forall>i<16. order_of l i \<le> tl_displacements l"
    using tx_invD(7) [OF assms] by (simp add: tx_capacity_def)
  ultimately show ?thesis
    using previous_loop_spec [of l "[0..<tl_count l]" None] le unfolding tx_previous_def
    by (auto split: option.splits)
qed

text \<open>A claim keeps the slots of the active transaction and of the target.\<close>

lemma oldest_is_next: "ring_recent l (tx_capacity - 1) = unat (tl_cursor l AND 15)"
  using ring_recent_eq [of 15 l] by (simp add: tx_capacity_def unat_and_15)

lemma claim_next: "tl_count l = tx_capacity \<Longrightarrow> snd (ring_claim l) = l\<lparr>tl_cursor := tl_cursor l + 1\<rparr>"
  by (simp add: ring_claim_def)

lemma next_differs:
  fixes c :: u64
  shows "unat (c AND 15) \<noteq> unat (c + 1 AND 15)" "unat (c AND 15) \<noteq> unat (c + 1 + 1 AND 15)"
proof -
  have suc: "unat (w + 1 AND 15) = (unat (w AND 15) + 1) mod 16" for w :: u64
    by (simp add: unat_and_15 unat_word_ariths mod_mod_cancel mod_Suc_eq)
  have "unat (c AND 15) < 16" by (simp add: unat_and_15)
  then show "unat (c AND 15) \<noteq> unat (c + 1 AND 15)" "unat (c AND 15) \<noteq> unat (c + 1 + 1 AND 15)"
    unfolding suc by presburger+
qed

lemma skip_kept_full:
  assumes "tl_count l = tx_capacity"
  shows "\<exists>c. skip_kept 2 target l = l\<lparr>tl_cursor := c\<rparr> \<and> Some (unat (c AND 15)) \<noteq> tl_active l \<and> Some (unat (c AND 15)) \<noteq> target"
proof -
  let ?kept = "\<lambda>c. Some (unat (c AND 15)) = tl_active l \<or> Some (unat (c AND 15)) = target"
  let ?c = "tl_cursor l"
  have skip: "skip_kept (Suc n) target (l\<lparr>tl_cursor := c\<rparr>)
      = (if ?kept c then skip_kept n target (l\<lparr>tl_cursor := c + 1\<rparr>) else l\<lparr>tl_cursor := c\<rparr>)" for n c
    using assms by (simp add: oldest_is_next [simplified] claim_next Let_def)
  have unfold: "skip_kept 2 target l = (if ?kept ?c then if ?kept (?c + 1) then l\<lparr>tl_cursor := ?c + 1 + 1\<rparr> else l\<lparr>tl_cursor := ?c + 1\<rparr> else l)"
    using skip [of 1 ?c] skip [of 0 "?c + 1"] by (simp add: numeral_2_eq_2)
  note d = next_differs [of ?c] next_differs(1) [of "?c + 1"]
  show ?thesis
  proof (cases "?kept ?c \<and> ?kept (?c + 1)")
    case True
    then have "\<not> ?kept (?c + 1 + 1)" using d by (metis option.inject)
    then show ?thesis using unfold True by auto
  next
    case False
    then show ?thesis using unfold by (cases "?kept ?c") (auto intro: exI [of _ ?c] exI [of _ "?c + 1"])
  qed
qed

lemma begin_tx_spec:
  assumes inv: "tx_inv l"
  obtains s c n where "s < 16" "tl_active l \<noteq> Some s" "tx_previous l \<noteq> Some s" "tl_count l < 16 \<longrightarrow> s = tl_count l \<and> n = tl_count l + 1"
    "tl_count l = 16 \<longrightarrow> n = 16" "n < 16 \<longrightarrow> unat c = n"
    "begin_tx reading step l = (s, l\<lparr>tl_cursor := c, tl_count := n,
       tl_slots := (tl_slots l)[s := stamp_transaction reading (fresh_tx\<lparr>tx_step_id := step\<rparr>)]\<rparr>)"
proof (cases "tl_count l = tx_capacity")
  case True
  obtain c where c: "skip_kept 2 (tx_previous l) l = l\<lparr>tl_cursor := c\<rparr>" "Some (unat (c AND 15)) \<noteq> tl_active l"
    "Some (unat (c AND 15)) \<noteq> tx_previous l"
    using skip_kept_full [OF True] by blast
  show thesis
    by (rule that [of "unat (c AND 15)" 16 "c + 1"])
      (use c True in \<open>auto simp: begin_tx_def ring_claim_def tx_capacity_def unat_and_15\<close>)
next
  case False
  then have n: "tl_count l < 16" "unat (tl_cursor l) = tl_count l"
    using tx_invD(2,3) [OF inv] by (auto simp: tx_capacity_def)
  have unused: "tx_status (tl_slots l ! tl_count l) = TX_RECORDING"
    using tx_invD(4) [OF inv, of "tl_count l"] n(1) by (auto simp: tx_capacity_def)
  then have "tl_active l \<noteq> Some (tl_count l)" using tx_invD(5) [OF inv, of "tl_count l"] n(1) by (auto simp: tx_capacity_def)
  moreover have "tx_previous l \<noteq> Some (tl_count l)"
    using tx_previous_spec [OF inv] unused by (auto split: option.splits)
  moreover have "unat (tl_cursor l + 1) = tl_count l + 1"
    using n by (subst unat_add_exact) simp_all
  ultimately show thesis
    using n False that [of "tl_count l" "tl_count l + 1" "tl_cursor l + 1"]
    by (simp add: begin_tx_def ring_claim_def tx_capacity_def unat_and_15 numeral_2_eq_2)
qed


section \<open>The log is a stack of displaced regions\<close>

definition stack_of :: "tx_log \<Rightarrow> nat list \<Rightarrow> bool" where
  "stack_of l is \<longleftrightarrow> set is = {i. i < 16 \<and> superseded l i} \<and> sorted_wrt (\<lambda>i j. order_of l i > order_of l j) is"

definition log_refines :: "tx_log \<Rightarrow> nat option \<Rightarrow> nat list \<Rightarrow> bool" where
  "log_refines l r st \<longleftrightarrow> tx_inv l \<and> (\<exists>is. stack_of l is \<and> map (\<lambda>i. tx_region (tl_slots l ! i)) is = map Some st) \<and>
     (case tl_active l of None \<Rightarrow> r = None | Some a \<Rightarrow> r \<noteq> None \<and> tx_region (tl_slots l ! a) = r)"

lemma stack_head:
  assumes "tx_inv l" "stack_of l is"
  shows "tx_previous l = (case is of [] \<Rightarrow> None | i # is' \<Rightarrow> Some i)"
proof (cases "is")
  case Nil
  then show ?thesis using tx_previous_spec [OF assms(1)] assms(2) by (auto simp: stack_of_def split: option.splits)
next
  case (Cons i is')
  have i: "i < 16" "superseded l i" and above: "\<And>j. j < 16 \<Longrightarrow> superseded l j \<Longrightarrow> j \<noteq> i \<Longrightarrow> order_of l j < order_of l i"
    using assms(2) Cons by (auto simp: stack_of_def set_eq_iff)
  obtain p where "tx_previous l = Some p" "p < 16" "superseded l p" "order_of l i \<le> order_of l p"
    using tx_previous_spec [OF assms(1)] i by (auto split: option.splits)
  then show ?thesis using above [of p] Cons by (cases "p = i") auto
qed

lemma filter_one:
  assumes "distinct xs" "xs \<noteq> [] \<Longrightarrow> s \<noteq> hd xs"
  shows "\<exists>j>0. filter (\<lambda>i. i \<noteq> s) xs = take j xs @ drop (Suc j) xs"
proof (cases "s \<in> set xs")
  case True
  then obtain ys zs where xs: "xs = ys @ s # zs" by (meson split_list)
  then have "ys \<noteq> []" using assms(2) by auto
  moreover have "filter (\<lambda>i. i \<noteq> s) ys = ys" "filter (\<lambda>i. i \<noteq> s) zs = zs"
    using assms(1) xs by (auto simp: filter_id_conv)
  ultimately show ?thesis using xs by (intro exI [of _ "length ys"]) simp
next
  case False
  then have "filter (\<lambda>i. i \<noteq> s) xs = take (Suc (length xs)) xs @ drop (Suc (Suc (length xs))) xs"
    by (auto simp: filter_id_conv)
  then show ?thesis by blast
qed

lemma sorted_wrt_distinct:
  fixes f :: "'a \<Rightarrow> 'b::order"
  assumes "sorted_wrt (\<lambda>i j. f i > f j) xs"
  shows "distinct xs"
  using assms by (induction xs) auto

text \<open>What a publication leaves in the log.\<close>

definition displaced_slots :: "u64 option \<Rightarrow> tx_log \<Rightarrow> transaction list" where
  "displaced_slots reading l =
    (case tl_active l of
       None \<Rightarrow> tl_slots l
     | Some a \<Rightarrow> (tl_slots l)[a := (tl_slots l ! a)\<lparr>tx_status := TX_SUPERSEDED,
         tx_displacement_order := tl_displacements l + 1, tx_ts_ns := reading\<rparr>])"

lemma publish_result:
  assumes inv: "tx_inv l" and root: "merkle_root \<noteq> 0" and room: "tl_displacements l \<noteq> - 1"
  obtains s c n tx where "s < 16" "tl_active l \<noteq> Some s" "tx_previous l \<noteq> Some s"
    "tl_count l < 16 \<longrightarrow> s = tl_count l \<and> n = tl_count l + 1" "tl_count l = 16 \<longrightarrow> n = 16" "n < 16 \<longrightarrow> unat c = n"
    "tx_publish reading step rg hash merkle_root l = ok \<lparr>tl_slots = (displaced_slots reading l)[s := tx], tl_cursor = c,
       tl_count = n, tl_active = Some s,
       tl_displacements = (if tl_active l = None then tl_displacements l else tl_displacements l + 1)\<rparr>"
    "tx_status tx = TX_ACTIVE" "tx_region tx = Some rg" "tx_displacement_order tx = 0"
proof -
  obtain s c n where b: "s < 16" "tl_active l \<noteq> Some s" "tx_previous l \<noteq> Some s"
    "tl_count l < 16 \<longrightarrow> s = tl_count l \<and> n = tl_count l + 1" "tl_count l = 16 \<longrightarrow> n = 16" "n < 16 \<longrightarrow> unat c = n"
    "begin_tx reading step l = (s, l\<lparr>tl_cursor := c, tl_count := n,
       tl_slots := (tl_slots l)[s := stamp_transaction reading (fresh_tx\<lparr>tx_step_id := step\<rparr>)]\<rparr>)"
    by (rule begin_tx_spec [OF inv, where reading = reading and step = step]) (rule that)
  let ?tx = "\<lparr>tx_step_id = step, tx_displacement_order = 0, tx_content_hash = hash, tx_merkle_root = merkle_root,
    tx_region = Some rg, tx_ts_ns = reading, tx_status = TX_ACTIVE\<rparr>"
  have len: "length (tl_slots l) = 16" using tx_invD(1) [OF inv] by (simp add: tx_capacity_def)
  have order: "order_of l a \<le> tl_displacements l + 1" if "tl_active l = Some a" for a
    using tx_invD(7) [OF inv tx_invD(6) [OF inv that]] word_less_succ [OF room] by (simp add: less_imp_le order_trans)
  have "tx_publish reading step rg hash merkle_root l = ok \<lparr>tl_slots = (displaced_slots reading l)[s := ?tx], tl_cursor = c,
       tl_count = n, tl_active = Some s,
       tl_displacements = (if tl_active l = None then tl_displacements l else tl_displacements l + 1)\<rparr>"
    using b(1,2) len root room order
    by (cases "tl_active l") (auto simp: tx_publish_def b(7) tx_commit_def tx_activate_def displace_def bump_def stamp_transaction_def
        fresh_tx_def displaced_slots_def nth_list_update list_update_swap Let_def)
  then show thesis using that [OF b(1-6)] by simp
qed

lemma displaced_slots_nth:
  assumes "tx_inv l" "i < 16"
  shows "displaced_slots reading l ! i = (if tl_active l = Some i then (tl_slots l ! i)\<lparr>tx_status := TX_SUPERSEDED,
      tx_displacement_order := tl_displacements l + 1, tx_ts_ns := reading\<rparr> else tl_slots l ! i)"
    "length (displaced_slots reading l) = 16"
  using assms tx_invD(1,6) [OF assms(1)]
  by (auto simp: displaced_slots_def tx_capacity_def nth_list_update split: option.splits)

lemma publish_inv:
  assumes inv: "tx_inv l" and room: "tl_displacements l \<noteq> - 1" and s: "s < 16" "tl_active l \<noteq> Some s"
    and ring: "tl_count l < 16 \<longrightarrow> s = tl_count l \<and> n = tl_count l + 1" "tl_count l = 16 \<longrightarrow> n = 16" "n < 16 \<longrightarrow> unat c = n"
    and tx: "tx_status tx = TX_ACTIVE" "tx_displacement_order tx = 0"
    and l': "l' = \<lparr>tl_slots = (displaced_slots reading l)[s := tx], tl_cursor = c, tl_count = n, tl_active = Some s,
       tl_displacements = (if tl_active l = None then tl_displacements l else tl_displacements l + 1)\<rparr>"
  shows "tx_inv l'"
proof -
  note I = tx_invD [OF inv, unfolded tx_capacity_def]
  have nth: "tl_slots l' ! i = (if i = s then tx else if tl_active l = Some i then (tl_slots l ! i)\<lparr>tx_status := TX_SUPERSEDED,
      tx_displacement_order := tl_displacements l + 1, tx_ts_ns := reading\<rparr> else tl_slots l ! i)" if "i < 16" for i
    using displaced_slots_nth [OF inv that] that by (simp add: l')
  have le: "tl_displacements l < tl_displacements l + 1" using word_less_succ [OF room] .
  have n: "n \<le> 16" "tl_count l \<le> n" using ring I(2) by (cases "tl_count l < 16"; force)+
  have used: "n = 16 \<or> i < n" if "i < 16" "tx_status (tl_slots l' ! i) \<noteq> TX_RECORDING" for i
  proof (cases "tl_count l < 16")
    case True
    then have "i = s \<or> i < tl_count l"
      using that nth [OF that(1)] I(4) [of i] I(5) [of i] by (auto split: if_splits)
    then show ?thesis using ring(1) True by auto
  qed (use ring(2) I(2) in auto)
  have act: "tx_status (tl_slots l' ! i) = TX_ACTIVE \<longleftrightarrow> tl_active l' = Some i" if "i < 16" for i
    using nth [OF that] tx I(5) [OF that] by (auto simp: l')
  have bound: "order_of l' i \<le> tl_displacements l' \<and> (superseded l' i \<longrightarrow> order_of l' i \<noteq> 0)" if "i < 16" for i
    using nth [OF that] I(7,8) [OF that] tx le by (auto simp: l')
  have inj: "i = j" if "i < 16" "j < 16" "superseded l' i" "superseded l' j" "order_of l' i = order_of l' j" for i j
    using that nth [OF that(1)] nth [OF that(2)] I(7) [of i] I(7) [of j] I(9) [of i j] tx le
    by (auto split: if_splits)
  have "length (tl_slots l') = 16" using displaced_slots_nth(2) [OF inv s(1)] by (simp add: l')
  then show ?thesis
    unfolding tx_inv_def tx_capacity_def using n ring(3) used act bound inj s(1) by (auto simp: l')
qed

lemma publish_stack:
  assumes inv: "tx_inv l" and room: "tl_displacements l \<noteq> - 1" and s: "s < 16" "tl_active l \<noteq> Some s"
    and tx: "tx_status tx = TX_ACTIVE"
    and l': "l' = \<lparr>tl_slots = (displaced_slots reading l)[s := tx], tl_cursor = c, tl_count = n, tl_active = Some s,
       tl_displacements = (if tl_active l = None then tl_displacements l else tl_displacements l + 1)\<rparr>"
    and st: "stack_of l is"
  shows "stack_of l' ((case tl_active l of None \<Rightarrow> [] | Some a \<Rightarrow> [a]) @ filter (\<lambda>i. i \<noteq> s) is)"
    and "\<forall>i<16. i \<noteq> s \<longrightarrow> tx_region (tl_slots l' ! i) = tx_region (tl_slots l ! i)"
proof -
  note I = tx_invD [OF inv, unfolded tx_capacity_def]
  have nth: "tl_slots l' ! i = (if i = s then tx else if tl_active l = Some i then (tl_slots l ! i)\<lparr>tx_status := TX_SUPERSEDED,
      tx_displacement_order := tl_displacements l + 1, tx_ts_ns := reading\<rparr> else tl_slots l ! i)" if "i < 16" for i
    using displaced_slots_nth [OF inv that] that by (simp add: l')
  then show "\<forall>i<16. i \<noteq> s \<longrightarrow> tx_region (tl_slots l' ! i) = tx_region (tl_slots l ! i)" by simp
  have le: "tl_displacements l < tl_displacements l + 1" using word_less_succ [OF room] .
  let ?is = "filter (\<lambda>i. i \<noteq> s) is"
  have old: "i < 16 \<and> superseded l i" if "i \<in> set is" for i using st that by (simp add: stack_of_def)
  have same: "order_of l' i = order_of l i" if "i \<in> set ?is" for i
    using that old nth [of i] I(5) [of i] by auto
  have "sorted_wrt (\<lambda>i j. order_of l i > order_of l j) ?is"
    using st by (simp add: stack_of_def sorted_wrt_filter)
  then have sorted: "sorted_wrt (\<lambda>i j. order_of l' i > order_of l' j) ?is"
    by (rule sorted_wrt_mono_rel [rotated]) (simp add: same)
  have top: "order_of l' i < order_of l' a" if "tl_active l = Some a" "i \<in> set ?is" for a i
    using that nth [of a] I(6) [of a] s(2) same [OF that(2)] old [of i] I(7) [of i] le by auto
  have "superseded l' i \<longleftrightarrow> i \<noteq> s \<and> (tl_active l = Some i \<or> superseded l i)" if "i < 16" for i
    using nth [OF that] tx by simp
  then have "set ((case tl_active l of None \<Rightarrow> [] | Some a \<Rightarrow> [a]) @ ?is) = {i. i < 16 \<and> superseded l' i}"
    using st I(6) s(2) by (auto simp: stack_of_def split: option.splits)
  then show "stack_of l' ((case tl_active l of None \<Rightarrow> [] | Some a \<Rightarrow> [a]) @ ?is)"
    using sorted top by (auto simp: stack_of_def split: option.splits)
qed

lemma rollback_result:
  assumes inv: "tx_inv l" and st: "stack_of l (p # is)"
  obtains l' where "tx_rollback reading1 reading2 l = (True, l')" "tx_inv l'" "stack_of l' is" "tl_active l' = Some p"
    "\<forall>i<16. tx_region (tl_slots l' ! i) = tx_region (tl_slots l ! i)" "p < 16" "tl_displacements l' = tl_displacements l"
proof -
  note I = tx_invD [OF inv, unfolded tx_capacity_def]
  have p: "p < 16" "superseded l p" using st by (auto simp: stack_of_def)
  have prev: "tx_previous l = Some p" using stack_head [OF inv st] by simp
  let ?a = "\<lambda>i. tl_active l = Some i"
  define l' where "l' = snd (tx_rollback reading1 reading2 l)"
  have run: "tx_rollback reading1 reading2 l = (True, l')" by (simp add: l'_def tx_rollback_def prev Let_def)
  have nth: "tl_slots l' ! i = (if i = p then (tl_slots l ! p)\<lparr>tx_status := TX_ACTIVE, tx_ts_ns := reading2\<rparr>
      else if ?a i then (tl_slots l ! i)\<lparr>tx_status := TX_ROLLED_BACK, tx_ts_ns := reading1\<rparr> else tl_slots l ! i)" if "i < 16" for i
    using p that I(1,5,6)
    by (auto simp: l'_def tx_rollback_def prev stamp_transaction_def nth_list_update Let_def split: option.splits)
  have rest: "tl_active l' = Some p" "tl_cursor l' = tl_cursor l" "tl_count l' = tl_count l"
    "tl_displacements l' = tl_displacements l" "length (tl_slots l') = 16"
    using I(1) by (simp_all add: l'_def tx_rollback_def prev Let_def split: option.splits)
  have act: "tx_status (tl_slots l' ! i) = TX_ACTIVE \<longleftrightarrow> tl_active l' = Some i" if "i < 16" for i
    using nth [OF that] I(5) [OF that] rest(1) by auto
  have sup: "superseded l' i \<longleftrightarrow> superseded l i \<and> i \<noteq> p" if "i < 16" for i
    using nth [OF that] I(5) [OF that] by auto
  have order: "order_of l' i = order_of l i" if "i < 16" for i using nth [OF that] by simp
  have used: "tl_count l = 16 \<or> i < tl_count l" if "i < 16" "tx_status (tl_slots l' ! i) \<noteq> TX_RECORDING" for i
    using that nth [OF that(1)] I(4) [of i] I(5) [of i] p by (auto split: if_splits)
  have "tx_inv l'"
    unfolding tx_inv_def tx_capacity_def using rest I(2,3,7,8,9) p(1) act sup order used by auto
  moreover have "stack_of l' is"
  proof -
    have is_less: "i < 16" if "i \<in> set is" for i using st that by (auto simp: stack_of_def)
    have "sorted_wrt (\<lambda>i j. order_of l i > order_of l j) is" "p \<notin> set is"
      using st sorted_wrt_distinct [of "order_of l" "p # is"] by (auto simp: stack_of_def)
    moreover from this(1) have "sorted_wrt (\<lambda>i j. order_of l' i > order_of l' j) is"
      by (rule sorted_wrt_mono_rel [rotated]) (simp add: order is_less)
    ultimately show ?thesis using st sup by (auto simp: stack_of_def)
  qed
  ultimately show thesis using that [OF run] rest(1,4) nth p(1) by simp
qed

lemma publish_refines:
  assumes log: "log_refines l r st" and root: "merkle_root \<noteq> 0" and room: "tl_displacements l \<noteq> - 1"
  shows "\<exists>l' j. 0 < j \<and> tx_publish reading step rg hash merkle_root l = ok l' \<and>
      log_refines l' (Some rg) ((case r of None \<Rightarrow> [] | Some x \<Rightarrow> [x]) @ take j st @ drop (Suc j) st)"
proof -
  obtain "is" where inv: "tx_inv l" and st: "stack_of l is" "map (\<lambda>i. tx_region (tl_slots l ! i)) is = map Some st"
    and r: "case tl_active l of None \<Rightarrow> r = None | Some a \<Rightarrow> r \<noteq> None \<and> tx_region (tl_slots l ! a) = r"
    using log by (auto simp: log_refines_def)
  show ?thesis
  proof (rule publish_result [OF inv root room, where reading = reading and step = step and rg = rg and hash = hash])
    fix s c n tx
    let ?l = "\<lparr>tl_slots = (displaced_slots reading l)[s := tx], tl_cursor = c, tl_count = n, tl_active = Some s,
       tl_displacements = (if tl_active l = None then tl_displacements l else tl_displacements l + 1)\<rparr>"
    assume s: "s < 16" "tl_active l \<noteq> Some s" "tx_previous l \<noteq> Some s"
      and ring: "tl_count l < 16 \<longrightarrow> s = tl_count l \<and> n = tl_count l + 1" "tl_count l = 16 \<longrightarrow> n = 16" "n < 16 \<longrightarrow> unat c = n"
      and run: "tx_publish reading step rg hash merkle_root l = ok ?l"
      and tx: "tx_status tx = TX_ACTIVE" "tx_region tx = Some rg" "tx_displacement_order tx = 0"
    have inv': "tx_inv ?l" using publish_inv [OF inv room s(1,2) ring tx(1,3) refl] .
    note S = publish_stack [OF inv room s(1,2) tx(1) refl st(1)]
    obtain j where j: "0 < j" "filter (\<lambda>i. i \<noteq> s) is = take j is @ drop (Suc j) is"
      using filter_one [of "is" s] sorted_wrt_distinct [of "order_of l" "is"] stack_head [OF inv st(1)] st(1) s(3)
      by (cases "is") (auto simp: stack_of_def)
    have less: "\<forall>i\<in>set is. i < 16" using st(1) by (simp add: stack_of_def)
    have "map (\<lambda>i. tx_region (tl_slots ?l ! i)) (filter (\<lambda>i. i \<noteq> s) is) = map (\<lambda>i. tx_region (tl_slots l ! i)) (filter (\<lambda>i. i \<noteq> s) is)"
      using S(2) less by simp
    also have "\<dots> = map Some (take j st @ drop (Suc j) st)"
      using st(2) by (simp only: j(2) map_append take_map [symmetric] drop_map [symmetric])
    finally have rest: "map (\<lambda>i. tx_region (tl_slots ?l ! i)) (filter (\<lambda>i. i \<noteq> s) is) = map Some (take j st @ drop (Suc j) st)" .
    have "map (\<lambda>i. tx_region (tl_slots ?l ! i)) (case tl_active l of None \<Rightarrow> [] | Some a \<Rightarrow> [a])
        = map Some (case r of None \<Rightarrow> [] | Some x \<Rightarrow> [x])"
      using r S(2) s(2) tx_invD(6) [OF inv] by (auto simp: tx_capacity_def split: option.splits)
    then have "map (\<lambda>i. tx_region (tl_slots ?l ! i)) ((case tl_active l of None \<Rightarrow> [] | Some a \<Rightarrow> [a]) @ filter (\<lambda>i. i \<noteq> s) is)
        = map Some ((case r of None \<Rightarrow> [] | Some x \<Rightarrow> [x]) @ take j st @ drop (Suc j) st)"
      using rest by (simp only: map_append)
    moreover have "tl_active ?l = Some s" "tx_region (tl_slots ?l ! s) = Some rg"
      using tx(2) s(1) displaced_slots_nth(2) [OF inv s(1)] by simp_all
    ultimately have "log_refines ?l (Some rg) ((case r of None \<Rightarrow> [] | Some x \<Rightarrow> [x]) @ take j st @ drop (Suc j) st)"
      unfolding log_refines_def using inv' S(1) [of reading c n] by auto
    then show ?thesis using run j(1) by blast
  qed
qed

lemma rollback_refines:
  assumes log: "log_refines l r st"
  shows "\<exists>l'. tx_rollback reading1 reading2 l = (st \<noteq> [], l') \<and>
      (case st of [] \<Rightarrow> l' = l | x # st' \<Rightarrow> log_refines l' (Some x) st')"
proof -
  obtain "is" where inv: "tx_inv l" and st: "stack_of l is" "map (\<lambda>i. tx_region (tl_slots l ! i)) is = map Some st"
    and r: "case tl_active l of None \<Rightarrow> r = None | Some a \<Rightarrow> r \<noteq> None \<and> tx_region (tl_slots l ! a) = r"
    using log by (auto simp: log_refines_def)
  show ?thesis
  proof (cases "is")
    case Nil
    then show ?thesis using st(2) stack_head [OF inv st(1)] by (simp add: tx_rollback_def)
  next
    case (Cons p is')
    then obtain x st' where x: "st = x # st'" using st(2) by (cases st) auto
    show ?thesis
    proof (rule rollback_result [OF inv st(1) [unfolded Cons], where ?reading1.0 = reading1 and ?reading2.0 = reading2])
      fix l'
      assume R: "tx_rollback reading1 reading2 l = (True, l')" "tx_inv l'" "stack_of l' is'" "tl_active l' = Some p"
        "\<forall>i<16. tx_region (tl_slots l' ! i) = tx_region (tl_slots l ! i)" "p < 16"
      have "map (\<lambda>i. tx_region (tl_slots l' ! i)) is' = map (\<lambda>i. tx_region (tl_slots l ! i)) is'"
        using R(3,5) by (intro map_cong refl) (simp add: stack_of_def)
      also have "\<dots> = map Some st'" using st(2) Cons x by simp
      finally have "\<exists>is. stack_of l' is \<and> map (\<lambda>i. tx_region (tl_slots l' ! i)) is = map Some st'"
        using R(3) by blast
      moreover have "tx_region (tl_slots l' ! p) = Some x" using R(5,6) st(2) Cons x by simp
      ultimately have "log_refines l' (Some x) st'"
        using R(2,4) by (simp add: log_refines_def)
      then show ?thesis using R(1) x by auto
    qed
  qed
qed

lemma fresh_log_refines: "log_refines fresh_log None []"
  using fresh_log_inv by (auto simp: log_refines_def stack_of_def fresh_log_def fresh_tx_def tx_capacity_def)

text \<open>C35.  The transaction log is a stack of displaced regions.  A log refines the active region and the stack of
  displaced ones, both empty at the start.  Publishing a region under a non-zero Merkle root, unless the counter is at its maximum, makes it active
  and pushes the region it displaces; the ring of sixteen slots may drop one displaced region, never the one on top
  of the stack.  A rollback pops the stack and makes the popped region active again; it is refused exactly when the
  stack is empty.\<close>

theorem transaction_log_is_stack:
  assumes "log_refines l r st" "merkle_root \<noteq> 0" "tl_displacements l \<noteq> - 1"
  shows "log_refines fresh_log None [] \<and>
    (\<exists>l' j. 0 < j \<and> tx_publish reading step rg hash merkle_root l = ok l' \<and>
      log_refines l' (Some rg) ((case r of None \<Rightarrow> [] | Some x \<Rightarrow> [x]) @ take j st @ drop (Suc j) st)) \<and>
    (\<exists>l'. tx_rollback reading1 reading2 l = (st \<noteq> [], l') \<and>
      (case st of [] \<Rightarrow> l' = l | x # st' \<Rightarrow> log_refines l' (Some x) st'))"
  using fresh_log_refines publish_refines [OF assms] rollback_refines [OF assms(1)] by blast

theorem transaction_log_is_stack_witness:
  "\<exists>l1 l2 l3. tx_publish None 0 7 1 1 fresh_log = ok l1 \<and> log_refines l1 (Some 7) [] \<and>
     tx_publish None 1 8 2 2 l1 = ok l2 \<and> log_refines l2 (Some 8) [7] \<and>
     tx_rollback None None l2 = (True, l3) \<and> log_refines l3 (Some 7) []"
proof -
  have start: "tl_displacements fresh_log \<noteq> - 1" by (simp add: fresh_log_def)
  obtain l1 where l1: "tx_publish None 0 7 1 1 fresh_log = ok l1" "log_refines l1 (Some 7) []"
    using transaction_log_is_stack [OF fresh_log_refines _ start, of 1 None 0 7 1] by auto
  have d1: "tl_displacements l1 = 0"
    using l1(1) by (auto simp: tx_publish_def begin_tx_def tx_commit_def tx_activate_def ring_claim_def fresh_log_def
        tx_previous_def numeral_2_eq_2 tx_capacity_def fresh_tx_def stamp_transaction_def Let_def)
  then obtain l2 where l2: "tx_publish None 1 8 2 2 l1 = ok l2" "log_refines l2 (Some 8) [7]"
    using transaction_log_is_stack [OF l1(2), of 2 None 1 8 2] by auto
  obtain l3 where "tx_rollback None None l2 = (True, l3)" "log_refines l3 (Some 7) []"
    using rollback_refines [OF l2(2), of None None] by auto
  then show ?thesis using l1 l2 by blast
qed

end
