(* ===== verification/Vigil.thy ===== *)
theory Vigil
  imports Crucible_Context Region_Cache Trace_Ring Meta_Log Transaction_Log
begin

text \<open>
  The foreground of \<^verbatim>\<open>crucible/Vigil.h\<close> and the parts of \<^verbatim>\<open>src/Vigil.cpp\<close> that change its state: the dispatch of one
  operation, the recording, the alignment to a published region, the recovery from a divergence, the publication of
  a region by the background thread, the rollback and the load.  The components it drives are the execution context,
  the region cache, the trace ring, the metadata log and the transaction log.

  A region is known by its address and read through a heap; the context keeps the region itself and \<^verbatim>\<open>vg_region\<close> its
  address.  The environment of an operation holds that heap and the answers of the allocators.  A thread is known by
  a number.
\<close>

section \<open>State\<close>

datatype vigil_mode = VM_RECORDING | VM_COMPILED | VM_DIVERGED

datatype dispatch_action = DA_RECORD | DA_COMPILED

record dispatch_result =
  dr_action :: dispatch_action
  dr_status :: replay_status
  dr_op_index :: u32

definition compiled_status :: "dispatch_result \<Rightarrow> replay_status checked" where
  "compiled_status d = (if dr_action d \<noteq> DA_COMPILED then fail Contract_violation else ok (dr_status d))"

definition compiled_op_index :: "dispatch_result \<Rightarrow> u32 checked" where
  "compiled_op_index d = (if dr_action d \<noteq> DA_COMPILED then fail Contract_violation else ok (dr_op_index d))"

record vigil_env =
  env_heap :: region_heap
  env_alloc :: "u64 \<Rightarrow> u64 \<Rightarrow> u64"
  env_calloc :: bool

record vigil =
  vg_world :: ctx_world
  vg_region :: "nat option"
  vg_cache :: region_cache
  vg_pending :: "nat option"
  vg_activation :: "nat option"
  vg_alignment :: nat
  vg_mode :: vigil_mode
  vg_reset_requested :: bool
  vg_ring :: trace_ring
  vg_meta_log :: meta_log
  vg_claim :: "nat option"
  vg_held_sequence :: u64
  vg_held :: "nat option list"
  vg_tx_log :: tx_log
  vg_step :: u64
  vg_bg_active :: "nat option"

definition ALIGNMENT_K :: nat where
  "ALIGNMENT_K = 5"

definition alignment_pos_at :: "nat \<Rightarrow> nat checked" where
  "alignment_pos_at p = (if p \<le> ALIGNMENT_K then ok p else fail Contract_violation)"

definition is_compiled :: "vigil \<Rightarrow> bool" where
  "is_compiled v \<longleftrightarrow> cc_mode (cw_ctx (vg_world v)) = CM_COMPILED"

definition held_cells :: "vigil \<Rightarrow> nat option list" where
  "held_cells v = vg_activation v # vg_region v # map (\<lambda>age. region_at age (vg_cache v)) [0..<cache_cap]"

definition publish_held_regions :: "vigil \<Rightarrow> vigil" where
  "publish_held_regions v = v\<lparr>vg_held := held_cells v, vg_held_sequence := vg_held_sequence v + 2\<rparr>"

text \<open>The claim of the producer thread: the first call claims, a call from another thread ends the process.\<close>

definition assert_producer_thread :: "nat \<Rightarrow> vigil \<Rightarrow> vigil checked" where
  "assert_producer_thread tid v =
    (case vg_claim v of
       None \<Rightarrow> ok (v\<lparr>vg_claim := Some tid\<rparr>)
     | Some holder \<Rightarrow> if holder = tid then ok v else fail Fatal_invariant)"

definition is_producer_thread :: "nat \<Rightarrow> vigil \<Rightarrow> bool" where
  "is_producer_thread tid v \<longleftrightarrow> vg_claim v = None \<or> vg_claim v = Some tid"


section \<open>Context operations on addresses\<close>

definition vg_activate :: "vigil_env \<Rightarrow> nat \<Rightarrow> vigil \<Rightarrow> (bool \<times> vigil) checked" where
  "vg_activate env a v =
    and_then (activate (env_alloc env) (env_calloc env) (Some (env_heap env a)) (vg_world v)) (\<lambda>(b, w).
      ok (b, v\<lparr>vg_world := w, vg_region := (if b then Some a else vg_region v)\<rparr>))"

definition vg_deactivate :: "vigil \<Rightarrow> vigil" where
  "vg_deactivate v = v\<lparr>vg_world := deactivate (vg_world v), vg_region := None\<rparr>"

definition vg_advance :: "u64 \<Rightarrow> u64 \<Rightarrow> vigil \<Rightarrow> (replay_status \<times> vigil) checked" where
  "vg_advance schema shape v =
    and_then (ctx_advance schema shape (cw_ctx (vg_world v))) (\<lambda>(st, c).
      ok (st, v\<lparr>vg_world := (vg_world v)\<lparr>cw_ctx := c\<rparr>\<rparr>))"

definition vg_switch_region :: "vigil_env \<Rightarrow> nat \<Rightarrow> nat \<Rightarrow> vigil \<Rightarrow> (bool \<times> vigil) checked" where
  "vg_switch_region env a div_pos v =
    and_then (switch_region (env_alloc env) (env_calloc env) (Some (env_heap env a)) div_pos (vg_world v)) (\<lambda>(b, w).
      ok (b, v\<lparr>vg_world := w, vg_region := (if b then Some a else vg_region v)\<rparr>))"

definition vg_register_external :: "u32 \<Rightarrow> u64 \<Rightarrow> vigil \<Rightarrow> vigil checked" where
  "vg_register_external sid ptr v =
    (if \<not> is_compiled v then fail Contract_violation
     else and_then (ctx_register_external sid ptr (cw_ctx (vg_world v))) (\<lambda>c.
       ok (v\<lparr>vg_world := (vg_world v)\<lparr>cw_ctx := c\<rparr>\<rparr>)))"

text \<open>The data pointer of an external slot: the first one that is not null among the inputs bound to the slot, the
  first such input of each operation.\<close>

fun find_input :: "u32 \<Rightarrow> (u32 \<times> nat) list \<Rightarrow> nat option" where
  "find_input target [] = None"
| "find_input target ((sid, j) # ids) = (if sid = target then Some j else find_input target ids)"

fun find_external :: "u32 \<Rightarrow> trace_entry list \<Rightarrow> u64 checked" where
  "find_external target [] = ok 0"
| "find_external target (te # ops) =
    (case te_input_slot_ids te of
       None \<Rightarrow> find_external target ops
     | Some ids \<Rightarrow>
         (case find_input target (zip (take (te_num_inputs te) ids) [0..<te_num_inputs te]) of
            None \<Rightarrow> find_external target ops
          | Some j \<Rightarrow>
              (case te_input_metas te of
                 None \<Rightarrow> fail Aborted
               | Some metas \<Rightarrow> if tm_data_ptr (metas ! j) \<noteq> 0 then ok (tm_data_ptr (metas ! j)) else find_external target ops)))"

fun register_externals :: "trace_entry list \<Rightarrow> tensor_slot list \<Rightarrow> vigil \<Rightarrow> vigil checked" where
  "register_externals ops [] v = ok v"
| "register_externals ops (slot # slots) v =
    (if \<not> is_external slot then register_externals ops slots v
     else and_then (find_external (slot_id slot) ops) (\<lambda>ptr.
       and_then (if ptr \<noteq> 0 then vg_register_external (slot_id slot) ptr v else ok v) (register_externals ops slots)))"

definition register_externals_from_region :: "vigil_env \<Rightarrow> nat \<Rightarrow> vigil \<Rightarrow> vigil checked" where
  "register_externals_from_region env a v =
    (case rg_plan (env_heap env a) of
       None \<Rightarrow> ok v
     | Some plan \<Rightarrow> register_externals (rg_ops (env_heap env a)) (take (num_slots plan) (mp_slots plan)) v)"

definition vg_cache_insert :: "vigil_env \<Rightarrow> nat option \<Rightarrow> vigil \<Rightarrow> vigil checked" where
  "vg_cache_insert env rg v = and_then (cache_insert (env_heap env) rg (vg_cache v)) (\<lambda>c. ok (v\<lparr>vg_cache := c\<rparr>))"


section \<open>Recording and alignment\<close>

definition record_op :: "nat \<Rightarrow> ring_entry \<Rightarrow> tensor_meta list \<Rightarrow> u64 \<Rightarrow> u64 \<Rightarrow> vigil \<Rightarrow> (bool \<times> vigil) checked" where
  "record_op tid entry metas scope_hash callsite_hash v0 =
    and_then (assert_producer_thread tid v0) (\<lambda>v.
    and_then (if metas \<noteq> [] then meta_try_append metas (vg_meta_log v) else ok (id_none, vg_meta_log v)) (\<lambda>(meta_start, l).
    and_then (try_append \<lparr>rs_entry = entry, rs_meta_start = meta_start, rs_scope_hash = scope_hash, rs_callsite_hash = callsite_hash\<rparr>
                (vg_ring v)) (\<lambda>(b, r).
      ok (b, v\<lparr>vg_meta_log := l, vg_ring := r\<rparr>))))"

definition consume_pending_region :: "vigil_env \<Rightarrow> vigil \<Rightarrow> vigil checked" where
  "consume_pending_region env v =
    (case vg_pending v of
       None \<Rightarrow> ok v
     | Some a \<Rightarrow>
         let v1 = v\<lparr>vg_pending := None\<rparr> in
         if rg_ops (env_heap env a) = [] then ok v1
         else and_then (alignment_pos_at 0) (\<lambda>p. ok (v1\<lparr>vg_activation := Some a, vg_alignment := p\<rparr>)))"

definition guard_is :: "u64 \<Rightarrow> u64 \<Rightarrow> trace_entry \<Rightarrow> bool" where
  "guard_is schema shape te \<longleftrightarrow> schema = te_schema_hash te \<and> shape = te_shape_hash te"

text \<open>The position after one more operation.  A read of the operation array past its end has no result.\<close>

definition align_step :: "trace_entry list \<Rightarrow> u64 \<Rightarrow> u64 \<Rightarrow> nat \<Rightarrow> nat checked" where
  "align_step ops schema shape pos =
    (if \<not> pos < length ops then fail Aborted
     else if guard_is schema shape (ops ! pos) then alignment_pos_at (pos + 1)
     else if guard_is schema shape (ops ! 0) then alignment_pos_at 1
     else alignment_pos_at 0)"

fun skip_matched :: "trace_entry list \<Rightarrow> vigil \<Rightarrow> vigil checked" where
  "skip_matched [] v = ok v"
| "skip_matched (te # ops) v = and_then (vg_advance (te_schema_hash te) (te_shape_hash te) v) (\<lambda>(st, v'). skip_matched ops v')"

definition alignment_threshold :: "trace_entry list \<Rightarrow> nat" where
  "alignment_threshold ops = (if length ops < ALIGNMENT_K then length ops else ALIGNMENT_K)"

definition try_align :: "vigil_env \<Rightarrow> nat \<Rightarrow> u64 \<Rightarrow> u64 \<Rightarrow> vigil \<Rightarrow> vigil checked" where
  "try_align env a schema shape v =
    (let ops = rg_ops (env_heap env a) in
     and_then (align_step ops schema shape (vg_alignment v)) (\<lambda>pos.
     let v1 = v\<lparr>vg_alignment := pos\<rparr> in
     if \<not> pos \<ge> alignment_threshold ops then ok v1
     else and_then (vg_activate env a v1) (\<lambda>(b, v2).
       if \<not> b then ok (v2\<lparr>vg_activation := None\<rparr>)
       else and_then (register_externals_from_region env a v2) (\<lambda>v3.
         and_then (vg_cache_insert env (Some a) v3) (\<lambda>v4.
         and_then (skip_matched (take pos ops) v4) (\<lambda>v5.
           ok (v5\<lparr>vg_mode := VM_COMPILED, vg_activation := None\<rparr>)))))))"


section \<open>Divergence\<close>

definition same_guards :: "trace_entry \<Rightarrow> trace_entry \<Rightarrow> bool" where
  "same_guards a b \<longleftrightarrow> te_schema_hash a = te_schema_hash b \<and> te_shape_hash a = te_shape_hash b"

definition try_switch_region :: "vigil_env \<Rightarrow> nat \<Rightarrow> nat \<Rightarrow> vigil \<Rightarrow> (bool \<times> vigil) checked" where
  "try_switch_region env alt div_pos v =
    (let alt_ops = rg_ops (env_heap env alt);
         switch = and_then (vg_switch_region env alt div_pos v) (\<lambda>(b, v1).
           if \<not> b then ok (False, v1)
           else and_then (register_externals_from_region env alt v1) (\<lambda>v2. ok (True, v2)))
     in if rg_plan (env_heap env alt) = None then ok (False, v)
        else if div_pos > 0 then
          (case vg_region v of
             None \<Rightarrow> fail Aborted
           | Some old \<Rightarrow>
               let old_ops = rg_ops (env_heap env old) in
               if div_pos > length alt_ops then ok (False, v)
               else if \<not> div_pos \<le> length old_ops then fail Aborted
               else if \<not> list_all2 same_guards (take div_pos old_ops) (take div_pos alt_ops) then ok (False, v)
               else switch)
        else switch)"

definition fall_back :: "vigil \<Rightarrow> dispatch_result \<times> vigil" where
  "fall_back v =
    (let v1 = (if is_compiled v then vg_deactivate v else v)
     in (\<lparr>dr_action = DA_RECORD, dr_status = DIVERGED, dr_op_index = id_none\<rparr>,
         publish_held_regions (v1\<lparr>vg_mode := VM_RECORDING, vg_reset_requested := True\<rparr>)))"

definition handle_divergence :: "vigil_env \<Rightarrow> u64 \<Rightarrow> u64 \<Rightarrow> vigil \<Rightarrow> (dispatch_result \<times> vigil) checked" where
  "handle_divergence env schema shape v0 =
    (let div_pos = re_cursor (cc_engine (cw_ctx (vg_world v0))) in
     and_then (case vg_pending v0 of
         None \<Rightarrow> ok v0
       | Some stale \<Rightarrow> vg_cache_insert env (Some stale) (v0\<lparr>vg_pending := None\<rparr>)) (\<lambda>v1.
     and_then (vg_cache_insert env (vg_region v1) (v1\<lparr>vg_activation := None, vg_alignment := 0\<rparr>)) (\<lambda>v2.
     case find_alternate (env_heap env) div_pos schema shape (vg_region v2) (vg_cache v2) of
       None \<Rightarrow> ok (fall_back v2)
     | Some alt \<Rightarrow>
         and_then (try_switch_region env alt div_pos v2) (\<lambda>(b, v3).
           if \<not> b then ok (fall_back v3)
           else and_then (vg_advance schema shape v3) (\<lambda>(st, v4).
             if st \<noteq> DIVERGED
             then ok (\<lparr>dr_action = DA_COMPILED, dr_status = st,
                        dr_op_index = word_of_nat (re_cursor (cc_engine (cw_ctx (vg_world v4))))\<rparr>, publish_held_regions v4)
             else ok (fall_back v4))))))"


section \<open>Dispatch\<close>

definition dispatch_transition ::
  "vigil_env \<Rightarrow> nat \<Rightarrow> ring_entry \<Rightarrow> tensor_meta list \<Rightarrow> u64 \<Rightarrow> u64 \<Rightarrow> vigil \<Rightarrow> (dispatch_result \<times> vigil) checked" where
  "dispatch_transition env tid entry metas scope_hash callsite_hash v0 =
    and_then (if vg_pending v0 \<noteq> None then consume_pending_region env v0 else ok v0) (\<lambda>v1.
    and_then (case vg_activation v1 of
        Some a \<Rightarrow> try_align env a (en_schema_hash entry) (en_shape_hash entry) v1
      | None \<Rightarrow> and_then (record_op tid entry metas scope_hash callsite_hash v1) (\<lambda>(b, v2). ok v2)) (\<lambda>v3.
      ok (\<lparr>dr_action = DA_RECORD, dr_status = MATCH, dr_op_index = id_none\<rparr>, publish_held_regions v3)))"

definition dispatch_op ::
  "vigil_env \<Rightarrow> nat \<Rightarrow> ring_entry \<Rightarrow> tensor_meta list \<Rightarrow> u64 \<Rightarrow> u64 \<Rightarrow> vigil \<Rightarrow> (dispatch_result \<times> vigil) checked" where
  "dispatch_op env tid entry metas scope_hash callsite_hash v0 =
    and_then (assert_producer_thread tid v0) (\<lambda>v.
      if is_compiled v then
        and_then (vg_advance (en_schema_hash entry) (en_shape_hash entry) v) (\<lambda>(st, v1).
          if st = DIVERGED then handle_divergence env (en_schema_hash entry) (en_shape_hash entry) v1
          else ok (\<lparr>dr_action = DA_COMPILED, dr_status = st, dr_op_index = id_none\<rparr>, v1))
      else if vg_pending v \<noteq> None \<or> vg_activation v \<noteq> None
      then dispatch_transition env tid entry metas scope_hash callsite_hash v
      else and_then (record_op tid entry metas scope_hash callsite_hash v) (\<lambda>(b, v1).
        ok (\<lparr>dr_action = DA_RECORD, dr_status = MATCH, dr_op_index = id_none\<rparr>, v1)))"


section \<open>Publication, rollback and load\<close>

definition on_region_ready :: "vigil_env \<Rightarrow> u64 option \<Rightarrow> nat \<Rightarrow> u64 \<Rightarrow> vigil \<Rightarrow> vigil checked" where
  "on_region_ready env reading a root v =
    and_then (bump (vg_step v)) (\<lambda>step.
    and_then (tx_publish reading (vg_step v) a (rg_content_hash (env_heap env a)) root (vg_tx_log v)) (\<lambda>l.
      ok (v\<lparr>vg_step := step, vg_tx_log := l, vg_pending := Some a\<rparr>)))"

definition make_active :: "vigil_env \<Rightarrow> bool \<Rightarrow> nat \<Rightarrow> vigil \<Rightarrow> vigil checked" where
  "make_active env cached a v =
    and_then (vg_activate env a (v\<lparr>vg_bg_active := Some a\<rparr>)) (\<lambda>(b, v1).
      if \<not> b then ok v1
      else and_then (register_externals_from_region env a v1) (\<lambda>v2.
        and_then (if cached then vg_cache_insert env (Some a) v2 else ok v2) (\<lambda>v3. ok (v3\<lparr>vg_mode := VM_COMPILED\<rparr>))))"

definition vg_rollback :: "vigil_env \<Rightarrow> nat \<Rightarrow> u64 option \<Rightarrow> u64 option \<Rightarrow> vigil \<Rightarrow> (bool \<times> vigil) checked" where
  "vg_rollback env tid reading1 reading2 v0 =
    (let (restored_one, l) = tx_rollback reading1 reading2 (vg_tx_log v0); v1 = v0\<lparr>vg_tx_log := l\<rparr>;
         restored = (case tl_active l of None \<Rightarrow> None | Some s \<Rightarrow> tx_region (tl_slots l ! s))
     in if \<not> restored_one then ok (False, v1)
        else and_then (assert_producer_thread tid v1) (\<lambda>v2.
          let v3 = (if is_compiled v2 then vg_deactivate v2 else v2)\<lparr>vg_mode := VM_RECORDING\<rparr>
          in and_then (case restored of None \<Rightarrow> ok v3 | Some a \<Rightarrow> make_active env False a v3) (\<lambda>v4.
               ok (True, publish_held_regions v4))))"

text \<open>The store is a parameter: the address of the region it loaded, absent when it has none.\<close>

definition vg_load :: "vigil_env \<Rightarrow> nat \<Rightarrow> nat option \<Rightarrow> vigil \<Rightarrow> (bool \<times> vigil) checked" where
  "vg_load env tid loaded v0 =
    (case loaded of
       None \<Rightarrow> ok (False, v0)
     | Some a \<Rightarrow>
         and_then (assert_producer_thread tid v0) (\<lambda>v.
         and_then (make_active env True a v) (\<lambda>v1. ok (True, publish_held_regions v1))))"

definition fresh_vigil :: "hot_region list \<Rightarrow> (u64 \<Rightarrow> u8) \<Rightarrow> trace_ring \<Rightarrow> meta_log \<Rightarrow> vigil" where
  "fresh_vigil reg mem r l = \<lparr>vg_world = \<lparr>cw_ctx = fresh_context, cw_reg = reg, cw_mem = mem\<rparr>, vg_region = None,
     vg_cache = empty_cache, vg_pending = None, vg_activation = None, vg_alignment = 0, vg_mode = VM_RECORDING,
     vg_reset_requested = False, vg_ring = ring_reset r, vg_meta_log = meta_reset l, vg_claim = None, vg_held_sequence = 0,
     vg_held = replicate (2 + cache_cap) None, vg_tx_log = fresh_log, vg_step = 0, vg_bg_active = None\<rparr>"

end
