(* ===== verification/Crucible_Context_Correct.thy ===== *)
theory Crucible_Context_Correct
  imports Crucible_Context
begin

text \<open>
  What the execution context promises: its mode, active region, engine and pool move together; a replayed
  iteration never violates a precondition of the engine; and a switch to an alternate region keeps the
  bytes of every tensor of the shared prefix that is still live.
\<close>

section \<open>The context invariant\<close>

definition pool_serves :: "memory_plan \<Rightarrow> pool \<Rightarrow> bool" where
  "pool_serves plan p \<longleftrightarrow> is_initialized p \<and> pa_pool_bytes p = pool_bytes plan \<and>
     (pool_bytes plan > 0 \<longrightarrow> pool_base p \<noteq> 0) \<and>
     list_all (\<lambda>s. can_serve_slot s (pool_bytes plan)) (take (num_slots plan) (mp_slots plan))"

definition ctx_ok :: "crucible_context \<Rightarrow> bool" where
  "ctx_ok c \<longleftrightarrow>
    (case cc_mode c of
       CM_RECORD \<Rightarrow> cc_pool c = empty_pool \<and> cc_active c = None
     | CM_COMPILED \<Rightarrow> (\<exists>r plan. cc_active c = Some r \<and> rg_plan r = Some plan \<and> pool_serves plan (cc_pool c) \<and>
         engine_inv (rg_ops r) (cc_engine c) \<and> (rg_ops r \<noteq> [] \<longrightarrow> re_cursor (cc_engine c) < length (rg_ops r))))"

lemma fresh_context_ok: "ctx_ok fresh_context"
  by (simp add: ctx_ok_def fresh_context_def)

lemma deactivate_ok: "ctx_ok (cw_ctx (deactivate w)) \<and> cc_mode (cw_ctx (deactivate w)) = CM_RECORD"
  by (simp add: ctx_ok_def deactivate_def pool_destroy_def Let_def)

lemma engine_init_pool: "engine_init rg p e = ok e' \<Longrightarrow> is_initialized p"
  by (auto simp: engine_init_def split: option.splits if_splits)

lemma pool_init_serves:
  assumes "pool_init aligned_alloc calloc_ok plan pw = ok (p, reg)" "is_initialized p"
  shows "pool_serves plan p"
proof -
  obtain p0 reg0 where "pw = (p0, reg0)" by fastforce
  note I = pool_init_ok [OF assms(1) [unfolded this]]
  have "num_slots plan > 0"
    using I(7) assms(2) by (cases "num_slots plan") (auto simp: is_initialized_def)
  then show ?thesis
    using I(4,6) init_buffer_ok(1) [OF I(1)] assms(2) by (auto simp: pool_serves_def)
qed

lemma activate_cases:
  assumes "activate aligned_alloc calloc_ok rg w = ok (b, w')"
  obtains r where "rg = Some r" "rg_plan r = None" "\<not> b" "w' = w"
  | r plan where "rg = Some r" "rg_plan r = Some plan" "b" "cc_mode (cw_ctx w') = CM_COMPILED"
      "cc_active (cw_ctx w') = Some r" "pool_serves plan (cc_pool (cw_ctx w'))"
      "engine_inv (rg_ops r) (cc_engine (cw_ctx w'))" "re_cursor (cc_engine (cw_ctx w')) = 0" "cw_mem w' = cw_mem w"
      "cc_iterations (cw_ctx w') = cc_iterations (cw_ctx w)" "cc_diverged (cw_ctx w') = cc_diverged (cw_ctx w)"
proof -
  obtain r where r: "rg = Some r" using assms by (cases rg) (auto simp: activate_def)
  show thesis
  proof (cases "rg_plan r")
    case None
    then show thesis using assms r that(1) by (auto simp: activate_def)
  next
    case (Some plan)
    let ?w = "if cc_mode (cw_ctx w) = CM_COMPILED then deactivate w else w"
    have same: "cw_mem ?w = cw_mem w" "cc_iterations (cw_ctx ?w) = cc_iterations (cw_ctx w)"
      "cc_diverged (cw_ctx ?w) = cc_diverged (cw_ctx w)"
      by (simp_all add: deactivate_def pool_destroy_def Let_def)
    obtain p reg e where pool: "pool_init aligned_alloc calloc_ok plan (cc_pool (cw_ctx ?w), cw_reg ?w) = ok (p, reg)"
      and e: "engine_init (Some r) p (cc_engine (cw_ctx ?w)) = ok e"
      "w' = ?w\<lparr>cw_ctx := (cw_ctx ?w)\<lparr>cc_engine := e, cc_mode := CM_COMPILED, cc_active := Some r, cc_pool := p\<rparr>, cw_reg := reg\<rparr>"
      "b" using assms r Some by (auto simp: activate_def Let_def and_then_ok)
    show thesis
      by (rule that(2) [OF r Some]) (use e same engine_init_inv [OF e(1)] pool_init_serves [OF pool engine_init_pool [OF e(1)]] in simp_all)
  qed
qed

lemma activate_ok: "activate aligned_alloc calloc_ok rg w = ok (b, w') \<Longrightarrow> ctx_ok (cw_ctx w) \<Longrightarrow> ctx_ok (cw_ctx w')"
  by (erule activate_cases) (auto simp: ctx_ok_def)

text \<open>In a compiled context over a region with operations, an advance reports a match or a completion exactly
  when the guard values are those of the next operation.\<close>

lemma ctx_advance_cases:
  assumes c: "ctx_ok c" "cc_mode c = CM_COMPILED" "cc_active c = Some r" "rg_ops r \<noteq> []"
    and room: "cc_iterations c \<noteq> - 1" "cc_diverged c \<noteq> - 1"
  shows "\<exists>st c'. ctx_advance schema shape c = ok (st, c') \<and> ctx_ok c' \<and> cc_mode c' = CM_COMPILED \<and> cc_active c' = Some r \<and>
    cc_pool c' = cc_pool c \<and>
    (if (schema, shape) = op_guards (rg_ops r) ! re_cursor (cc_engine c)
     then if Suc (re_cursor (cc_engine c)) = length (rg_ops r)
       then st = COMPLETE \<and> re_cursor (cc_engine c') = 0 \<and> cc_iterations c' = cc_iterations c + 1 \<and> cc_diverged c' = cc_diverged c
       else st = MATCH \<and> re_cursor (cc_engine c') = Suc (re_cursor (cc_engine c)) \<and> cc_iterations c' = cc_iterations c \<and>
            cc_diverged c' = cc_diverged c
     else st = DIVERGED \<and> cc_engine c' = cc_engine c \<and> cc_iterations c' = cc_iterations c \<and>
          cc_diverged c' = cc_diverged c + 1) \<and>
    (st \<noteq> DIVERGED \<longrightarrow> re_current (cc_engine c') = Some (re_cursor (cc_engine c)))"
proof -
  have inv: "engine_inv (rg_ops r) (cc_engine c)" "re_cursor (cc_engine c) < length (rg_ops r)"
    using c by (auto simp: ctx_ok_def)
  have reset: "re_current (engine_reset e) = re_current e" for e by (simp add: engine_reset_def Let_def)
  note adv = advance_cases [OF inv, of schema shape]
  show ?thesis
  proof (cases "(schema, shape) = op_guards (rg_ops r) ! re_cursor (cc_engine c)")
    case False
    then have "advance schema shape (cc_engine c) = ok (DIVERGED, cc_engine c)" using adv by simp
    then show ?thesis using False c room by (auto simp: ctx_advance_def bump_def ctx_ok_def)
  next
    case True
    then obtain e where e: "advance schema shape (cc_engine c)
        = ok (if Suc (re_cursor (cc_engine c)) = length (rg_ops r) then COMPLETE else MATCH, e)"
      "engine_inv (rg_ops r) e" "re_cursor e = Suc (re_cursor (cc_engine c))" "re_current e = Some (re_cursor (cc_engine c))"
      using adv by auto
    show ?thesis
    proof (cases "Suc (re_cursor (cc_engine c)) = length (rg_ops r)")
      case last: True
      then show ?thesis
        using e True c room engine_reset_inv [OF e(2)] reset
        by (auto simp: ctx_advance_def bump_def ctx_ok_def)
    next
      case more: False
      then show ?thesis using e True c inv(2) by (auto simp: ctx_advance_def ctx_ok_def)
    qed
  qed
qed

lemma replay_prefix_ok:
  assumes "engine_inv ops e" "re_cursor e + n \<le> length ops"
  shows "\<exists>e'. replay_prefix (take n (drop (re_cursor e) (op_guards ops))) e = ok e' \<and> engine_inv ops e' \<and>
    re_cursor e' = re_cursor e + n"
  using assms
proof (induction n arbitrary: e)
  case (Suc n)
  let ?k = "re_cursor e"
  have k: "?k < length ops" using Suc.prems(2) by simp
  have d: "take (Suc n) (drop ?k (op_guards ops)) = op_guards ops ! ?k # take n (drop (Suc ?k) (op_guards ops))"
    using k by (simp add: Cons_nth_drop_Suc [symmetric])
  obtain schema shape where g: "op_guards ops ! ?k = (schema, shape)" by fastforce
  obtain st e1 where e1: "advance schema shape e = ok (st, e1)" "engine_inv ops e1" "re_cursor e1 = Suc ?k"
    using advance_cases [OF Suc.prems(1) k, of schema shape] g by auto
  have "re_cursor e1 + n \<le> length ops" using e1(3) Suc.prems(2) by simp
  from Suc.IH [OF e1(2) this] show ?case using e1 d g by auto
qed auto


section \<open>Copies\<close>

lemma copy_bytes_inside: "k < n \<Longrightarrow> copy_bytes dst src n mem (dst + k) = mem (src + k)"
  by (simp add: copy_bytes_def)

lemma copy_bytes_outside: "\<not> a - dst < n \<Longrightarrow> copy_bytes dst src n mem a = mem a"
  by (simp add: copy_bytes_def)

text \<open>A range of addresses that does not wrap, as an interval of numbers.\<close>

lemma in_range_unat:
  fixes a dst n :: u64
  assumes "unat dst + unat n \<le> 2 ^ 64"
  shows "a - dst < n \<longleftrightarrow> unat dst \<le> unat a \<and> unat a < unat dst + unat n"
proof (cases "dst \<le> a")
  case True
  then have "unat (a - dst) = unat a - unat dst" "unat dst \<le> unat a" by (simp_all add: unat_sub word_le_nat_alt)
  then show ?thesis by (auto simp: word_less_nat_alt)
next
  case False
  then have lt: "unat a < unat dst" by (simp add: word_le_nat_alt)
  have "unat (a - dst) = unat a + 2 ^ 64 - unat dst"
    using lt by (simp add: unat_sub_if')
  then have "unat n \<le> unat (a - dst)" using assms by simp
  then show ?thesis using lt by (simp add: word_less_nat_alt)
qed


definition moved :: "memory_plan \<Rightarrow> memory_plan \<Rightarrow> u32 \<times> u32 \<Rightarrow> bool" where
  "moved old_plan new_plan = (\<lambda>(s, n). id_is_valid s \<and> id_is_valid n \<and> \<not> is_external (mp_slots old_plan ! unat s) \<and>
     \<not> is_external (mp_slots new_plan ! unat n))"

definition ids_ok :: "memory_plan \<Rightarrow> memory_plan \<Rightarrow> u32 \<times> u32 \<Rightarrow> bool" where
  "ids_ok old_plan new_plan = (\<lambda>(s, n). id_is_valid s \<longrightarrow> id_is_valid n \<longrightarrow> unat s < num_slots old_plan \<and> unat n < num_slots new_plan)"

abbreviation slot_addr :: "memory_plan \<Rightarrow> u64 \<Rightarrow> u32 \<Rightarrow> u64" where
  "slot_addr plan base n \<equiv> base + offset_bytes (mp_slots plan ! unat n)"

abbreviation size_of :: "memory_plan \<Rightarrow> u32 \<Rightarrow> u64" where
  "size_of plan s \<equiv> nbytes (mp_slots plan ! unat s)"

definition untouched :: "memory_plan \<Rightarrow> memory_plan \<Rightarrow> u64 \<Rightarrow> (u32 \<times> u32) list \<Rightarrow> bool list \<Rightarrow> u64 \<Rightarrow> bool" where
  "untouched old_plan new_plan new_base ps visited a \<longleftrightarrow>
    (\<forall>(s, n)\<in>set ps. moved old_plan new_plan (s, n) \<longrightarrow> \<not> visited ! unat n \<longrightarrow> \<not> a - slot_addr new_plan new_base n < size_of old_plan s)"

lemma untouched_mono:
  assumes "untouched old_plan new_plan new_base ps visited a" "\<And>i. visited ! i \<Longrightarrow> visited' ! i"
  shows "untouched old_plan new_plan new_base ps visited' a"
  using assms by (fastforce simp: untouched_def)

lemma migrate_outputs_frame:
  assumes "list_all (ids_ok old_plan new_plan) ps" "num_slots new_plan \<le> length visited"
  shows "\<exists>visited' mem'. migrate_outputs old_plan new_plan old_base new_base ps (visited, mem) = ok (visited', mem') \<and>
    length visited' = length visited \<and>
    (\<forall>i<length visited. visited' ! i \<longleftrightarrow> visited ! i \<or> (\<exists>(s, n)\<in>set ps. moved old_plan new_plan (s, n) \<and> unat n = i)) \<and>
    (\<forall>a. untouched old_plan new_plan new_base ps visited a \<longrightarrow> mem' a = mem a)"
  using assms
proof (induction ps arbitrary: visited mem)
  case (Cons q ps)
  obtain s n where q: "q = (s, n)" by fastforce
  let ?new = "moved old_plan new_plan (s, n) \<and> \<not> visited ! unat n"
  let ?v = "if ?new then visited[unat n := True] else visited"
  let ?m = "if ?new \<and> 0 < size_of old_plan s \<and> old_base \<noteq> 0 then copy_bytes (slot_addr new_plan new_base n) (slot_addr old_plan old_base s) (size_of old_plan s) mem else mem"
  have step: "migrate_output old_plan new_plan old_base new_base s n (visited, mem) = ok (?v, ?m)"
    using Cons.prems(1) q by (auto simp: migrate_output_def moved_def ids_ok_def Let_def)
  have n: "unat n < length visited" if "moved old_plan new_plan (s, n)"
    using that Cons.prems q by (auto simp: moved_def ids_ok_def)
  have ids: "list_all (ids_ok old_plan new_plan) ps" and room: "num_slots new_plan \<le> length ?v"
    using Cons.prems by simp_all
  obtain visited' mem' where r: "migrate_outputs old_plan new_plan old_base new_base ps (?v, ?m) = ok (visited', mem')"
    "length visited' = length ?v"
    "\<forall>i<length ?v. visited' ! i \<longleftrightarrow> ?v ! i \<or> (\<exists>(s, n)\<in>set ps. moved old_plan new_plan (s, n) \<and> unat n = i)"
    "\<forall>a. untouched old_plan new_plan new_base ps ?v a \<longrightarrow> mem' a = ?m a"
    using Cons.IH [OF ids, of ?v ?m] room by blast
  have grown: "?v ! i" if "visited ! i" for i
    using that n by (cases "i = unat n") auto
  have "mem' a = mem a" if u: "untouched old_plan new_plan new_base (q # ps) visited a" for a
  proof -
    have "untouched old_plan new_plan new_base ps ?v a"
    proof (rule untouched_mono)
      show "untouched old_plan new_plan new_base ps visited a" using u by (simp add: untouched_def)
    qed (rule grown)
    moreover have "?m a = mem a" using u q copy_bytes_outside by (auto simp: untouched_def)
    ultimately show ?thesis using r(4) by simp
  qed
  moreover have "\<forall>i<length visited. visited' ! i \<longleftrightarrow> visited ! i \<or> (\<exists>(s, n)\<in>set (q # ps). moved old_plan new_plan (s, n) \<and> unat n = i)"
    using r(2,3) q n by (auto simp: nth_list_update)
  ultimately show ?case using step r(1,2) q by auto
qed simp

lemma migrate_outputs_append:
  "migrate_outputs old_plan new_plan old_base new_base (ps @ qs) vm
   = and_then (migrate_outputs old_plan new_plan old_base new_base ps vm)
       (migrate_outputs old_plan new_plan old_base new_base qs)"
proof (induction ps arbitrary: vm)
  case (Cons q ps)
  obtain s n where "q = (s, n)" by fastforce
  then show ?case using Cons by (cases "migrate_output old_plan new_plan old_base new_base s n vm") auto
qed simp

text \<open>The first pair of a new slot decides its bytes, when the copies before it leave its source alone and the
  copies after it leave its target alone.\<close>

lemma migrate_outputs_first:
  assumes ps: "list_all (ids_ok old_plan new_plan) (pre @ (s, n) # post)" "num_slots new_plan \<le> length visited"
    and first: "moved old_plan new_plan (s, n)" "\<not> visited ! unat n" "\<forall>(s', n')\<in>set pre. moved old_plan new_plan (s', n') \<longrightarrow> n' \<noteq> n"
    and base: "old_base \<noteq> 0" and k: "k < size_of old_plan s"
    and source: "untouched old_plan new_plan new_base pre visited (slot_addr old_plan old_base s + k)"
    and later: "\<forall>(s', n')\<in>set post. moved old_plan new_plan (s', n') \<longrightarrow> n' \<noteq> n \<longrightarrow> \<not> (slot_addr new_plan new_base n + k) - slot_addr new_plan new_base n' < size_of old_plan s'"
  shows "\<exists>visited' mem'. migrate_outputs old_plan new_plan old_base new_base (pre @ (s, n) # post) (visited, mem)
      = ok (visited', mem') \<and> mem' (slot_addr new_plan new_base n + k) = mem (slot_addr old_plan old_base s + k)"
proof -
  have n: "unat n < length visited" using ps first(1) by (auto simp: ids_ok_def moved_def)
  obtain v1 m1 where r1: "migrate_outputs old_plan new_plan old_base new_base pre (visited, mem) = ok (v1, m1)"
    "length v1 = length visited" "\<not> v1 ! unat n" "m1 (slot_addr old_plan old_base s + k) = mem (slot_addr old_plan old_base s + k)"
    using migrate_outputs_frame [of old_plan new_plan pre visited old_base new_base mem] ps n first source by (fastforce simp: word_unat_eq_iff)
  have sz: "0 < size_of old_plan s" using k by (metis not_less_iff_gr_or_eq word_neq_0_conv word_not_simps(1))
  let ?v = "v1[unat n := True]" and ?m = "copy_bytes (slot_addr new_plan new_base n) (slot_addr old_plan old_base s) (size_of old_plan s) m1"
  have step: "migrate_output old_plan new_plan old_base new_base s n (v1, m1) = ok (?v, ?m)"
    using ps first(1) r1(3) sz base by (auto simp: migrate_output_def moved_def ids_ok_def Let_def)
  have "untouched old_plan new_plan new_base post ?v (slot_addr new_plan new_base n + k)"
    unfolding untouched_def using later n r1(2) by (fastforce simp: nth_list_update)
  then obtain v2 m2 where r2: "migrate_outputs old_plan new_plan old_base new_base post (?v, ?m) = ok (v2, m2)"
    "m2 (slot_addr new_plan new_base n + k) = ?m (slot_addr new_plan new_base n + k)"
    using migrate_outputs_frame [of old_plan new_plan post ?v old_base new_base ?m] ps r1(2) by auto
  then show ?thesis
    using r1 step copy_bytes_inside [OF k] by (simp add: migrate_outputs_append)
qed


section \<open>The shared prefix\<close>

definition op_pairs :: "region \<Rightarrow> region \<Rightarrow> nat \<Rightarrow> (u32 \<times> u32) list" where
  "op_pairs old_region alt i =
    (let a = rg_ops old_region ! i; b = rg_ops alt ! i; k = te_num_outputs a
     in case (te_output_slot_ids a, te_output_slot_ids b) of
          (Some old_ids, Some new_ids) \<Rightarrow> zip (take k old_ids) (take k new_ids)
        | _ \<Rightarrow> [])"

definition prefix_pairs :: "region \<Rightarrow> region \<Rightarrow> nat \<Rightarrow> (u32 \<times> u32) list" where
  "prefix_pairs old_region alt d = concat (map (op_pairs old_region alt) [0..<d])"

text \<open>Two regions agree on a prefix: the operations have as many outputs, the slots of a pair are as large, a
  slot of the alternate plan is live where it is written, and it stands for one slot of the old plan.\<close>

definition op_agrees :: "memory_plan \<Rightarrow> memory_plan \<Rightarrow> region \<Rightarrow> region \<Rightarrow> nat \<Rightarrow> bool" where
  "op_agrees old_plan new_plan old_region alt i \<longleftrightarrow>
    (te_output_slot_ids (rg_ops old_region ! i) \<noteq> None \<longrightarrow> te_output_slot_ids (rg_ops alt ! i) \<noteq> None \<longrightarrow>
       te_num_outputs (rg_ops old_region ! i) = te_num_outputs (rg_ops alt ! i)) \<and>
    list_all (\<lambda>(s, n). ids_ok old_plan new_plan (s, n) \<and>
       (moved old_plan new_plan (s, n) \<longrightarrow> size_of old_plan s = size_of new_plan n \<and>
          live_slot i (mp_slots new_plan ! unat n))) (op_pairs old_region alt i)"

definition prefix_agrees :: "memory_plan \<Rightarrow> memory_plan \<Rightarrow> region \<Rightarrow> region \<Rightarrow> nat \<Rightarrow> bool" where
  "prefix_agrees old_plan new_plan old_region alt d \<longleftrightarrow>
    d \<le> length (rg_ops old_region) \<and> d \<le> length (rg_ops alt) \<and>
    list_all (op_agrees old_plan new_plan old_region alt) [0..<d] \<and>
    list_all (\<lambda>(s, n). list_all (\<lambda>(s', n'). moved old_plan new_plan (s, n) \<longrightarrow> moved old_plan new_plan (s', n') \<longrightarrow>
        n = n' \<longrightarrow> s = s') (prefix_pairs old_region alt d)) (prefix_pairs old_region alt d)"

definition live_disjoint :: "memory_plan \<Rightarrow> bool" where
  "live_disjoint plan \<longleftrightarrow> (\<forall>t i j. i < length (mp_slots plan) \<longrightarrow> j < length (mp_slots plan) \<longrightarrow> i \<noteq> j \<longrightarrow>
     live_slot t (mp_slots plan ! i) \<longrightarrow> live_slot t (mp_slots plan ! j) \<longrightarrow>
     unat (nbytes (mp_slots plan ! i)) = 0 \<or> unat (nbytes (mp_slots plan ! j)) = 0 \<or>
     unat (offset_bytes (mp_slots plan ! i)) + unat (nbytes (mp_slots plan ! i)) \<le> unat (offset_bytes (mp_slots plan ! j)) \<or>
     unat (offset_bytes (mp_slots plan ! j)) + unat (nbytes (mp_slots plan ! j)) \<le> unat (offset_bytes (mp_slots plan ! i)))"

lemma planned_live_disjoint:
  assumes "compute_memory_plan cap r w slots = ok plan" "aligned_total slots < 2 ^ 64"
  shows "live_disjoint plan"
  unfolding live_disjoint_def
proof (intro allI impI)
  fix t i j
  assume ij: "i < length (mp_slots plan)" "j < length (mp_slots plan)" "i \<noteq> j"
    "live_slot t (mp_slots plan ! i)" "live_slot t (mp_slots plan ! j)"
  note sound = compute_memory_plan_sound [OF assms]
  have "i \<in> live_at slots t" "j \<in> live_at slots t"
    using live_at_frame [OF sound(1), of _ t] ij by auto
  then show "unat (nbytes (mp_slots plan ! i)) = 0 \<or> unat (nbytes (mp_slots plan ! j)) = 0 \<or>
     unat (offset_bytes (mp_slots plan ! i)) + unat (nbytes (mp_slots plan ! i)) \<le> unat (offset_bytes (mp_slots plan ! j)) \<or>
     unat (offset_bytes (mp_slots plan ! j)) + unat (nbytes (mp_slots plan ! j)) \<le> unat (offset_bytes (mp_slots plan ! i))"
    using covers_disjoint [OF placed_well_disjoint [OF sound(3) finite_live_at _ _ ij(3), simplified, unfolded slot_block_def]
        aligned_size_ge aligned_size_ge] by simp
qed

lemma migrate_ops_pairs:
  assumes "\<forall>i\<in>set is. op_agrees old_plan new_plan old_region alt i"
  shows "migrate_ops old_plan new_plan old_base new_base (map (\<lambda>i. (rg_ops old_region ! i, rg_ops alt ! i)) is) vm
    = migrate_outputs old_plan new_plan old_base new_base (concat (map (op_pairs old_region alt) is)) vm"
  using assms
proof (induction "is" arbitrary: vm)
  case (Cons i "is")
  let ?a = "rg_ops old_region ! i" and ?b = "rg_ops alt ! i"
  have IH: "migrate_ops old_plan new_plan old_base new_base (map (\<lambda>i. (rg_ops old_region ! i, rg_ops alt ! i)) is)
      = migrate_outputs old_plan new_plan old_base new_base (concat (map (op_pairs old_region alt) is))"
    using Cons by (intro ext) simp
  have agree: "op_agrees old_plan new_plan old_region alt i" using Cons.prems by simp
  show ?case
    using agree IH
    by (cases "te_output_slot_ids ?a"; cases "te_output_slot_ids ?b")
      (auto simp: op_pairs_def [of old_region alt i] op_agrees_def migrate_outputs_append Let_def)
qed simp

lemma zip_take_upt:
  assumes "d \<le> length xs" "d \<le> length ys"
  shows "zip (take d xs) (take d ys) = map (\<lambda>i. (xs ! i, ys ! i)) [0..<d]"
  by (rule nth_equalityI) (use assms in auto)

text \<open>The two blocks of a switch, as intervals of addresses.\<close>

definition blocks_apart :: "u64 \<Rightarrow> u64 \<Rightarrow> u64 \<Rightarrow> u64 \<Rightarrow> bool" where
  "blocks_apart b1 n1 b2 n2 \<longleftrightarrow> unat b1 + unat n1 \<le> 2 ^ 64 \<and> unat b2 + unat n2 \<le> 2 ^ 64 \<and>
     (unat b1 + unat n1 \<le> unat b2 \<or> unat b2 + unat n2 \<le> unat b1)"

definition in_block :: "memory_plan \<Rightarrow> u64 \<Rightarrow> bool" where
  "in_block plan bytes \<longleftrightarrow> num_slots plan \<le> length (mp_slots plan) \<and>
     list_all (\<lambda>s. can_serve_slot s bytes) (take (num_slots plan) (mp_slots plan))"

lemma in_blockD:
  assumes "in_block plan bytes" "unat n < num_slots plan" "\<not> is_external (mp_slots plan ! unat n)"
  shows "unat n < length (mp_slots plan)"
    "unat (offset_bytes (mp_slots plan ! unat n)) + unat (size_of plan n) \<le> unat bytes"
  using assms can_serve_slotD(1) [of "mp_slots plan ! unat n" bytes]
  by (auto simp: in_block_def list_all_length)

lemma unat_slot_addr:
  assumes "in_block plan bytes" "unat n < num_slots plan" "\<not> is_external (mp_slots plan ! unat n)"
    and "unat base + unat bytes \<le> 2 ^ 64" "k < size_of plan n"
  shows "unat (slot_addr plan base n + k) = unat base + unat (offset_bytes (mp_slots plan ! unat n)) + unat k"
    "unat (slot_addr plan base n) = unat base + unat (offset_bytes (mp_slots plan ! unat n))"
proof -
  note I = in_blockD [OF assms(1-3)]
  have k: "unat k < unat (size_of plan n)" using assms(5) by (simp add: word_less_nat_alt)
  show base: "unat (slot_addr plan base n) = unat base + unat (offset_bytes (mp_slots plan ! unat n))"
    using I k assms(4) by (intro unat_add_exact) simp
  show "unat (slot_addr plan base n + k) = unat base + unat (offset_bytes (mp_slots plan ! unat n)) + unat k"
    using I k assms(4) base by (subst unat_add_exact) simp_all
qed

lemma slot_range:
  assumes "in_block plan bytes" "unat n < num_slots plan" "\<not> is_external (mp_slots plan ! unat n)"
    and "unat base + unat bytes \<le> 2 ^ 64" "size_of plan n \<noteq> 0"
  shows "a - slot_addr plan base n < size_of plan n \<longleftrightarrow>
    unat base + unat (offset_bytes (mp_slots plan ! unat n)) \<le> unat a \<and>
    unat a < unat base + unat (offset_bytes (mp_slots plan ! unat n)) + unat (size_of plan n)"
proof -
  have "unat (slot_addr plan base n) = unat base + unat (offset_bytes (mp_slots plan ! unat n))"
    using unat_slot_addr(2) [OF assms(1-4), of 0] assms(5) by (simp add: word_gt_0)
  moreover have "unat (offset_bytes (mp_slots plan ! unat n)) + unat (size_of plan n) \<le> unat bytes"
    using in_blockD [OF assms(1-3)] by simp
  ultimately show ?thesis using assms(4) in_range_unat by simp
qed

lemma op_agreesD:
  assumes "op_agrees old_plan new_plan old_region alt i" "(s, n) \<in> set (op_pairs old_region alt i)"
  shows "ids_ok old_plan new_plan (s, n)"
    and "moved old_plan new_plan (s, n) \<Longrightarrow> unat s < num_slots old_plan \<and> unat n < num_slots new_plan \<and>
      \<not> is_external (mp_slots old_plan ! unat s) \<and> \<not> is_external (mp_slots new_plan ! unat n) \<and>
      size_of old_plan s = size_of new_plan n \<and> live_slot i (mp_slots new_plan ! unat n)"
  using assms by (fastforce simp: op_agrees_def list_all_iff ids_ok_def moved_def)+

lemma prefix_agreesD:
  assumes "prefix_agrees old_plan new_plan old_region alt d"
  shows "i < d \<Longrightarrow> op_agrees old_plan new_plan old_region alt i"
    and "(s, n) \<in> set (prefix_pairs old_region alt d) \<Longrightarrow> (s', n) \<in> set (prefix_pairs old_region alt d) \<Longrightarrow>
      moved old_plan new_plan (s, n) \<Longrightarrow> moved old_plan new_plan (s', n) \<Longrightarrow> s = s'"
  using assms by (fastforce simp: prefix_agrees_def list_all_iff)+

lemma in_prefix_pairs: "p \<in> set (prefix_pairs old_region alt d) \<longleftrightarrow> (\<exists>i<d. p \<in> set (op_pairs old_region alt i))"
  by (auto simp: prefix_pairs_def)

text \<open>No copy of the prefix writes into the old block.\<close>

lemma copy_spares_source:
  assumes agree: "prefix_agrees old_plan new_plan old_region alt d"
    and blocks: "in_block old_plan old_bytes" "in_block new_plan new_bytes" "blocks_apart old_base old_bytes new_base new_bytes"
    and p: "(s, n) \<in> set (prefix_pairs old_region alt d)" "moved old_plan new_plan (s, n)" "k < size_of old_plan s"
    and q: "(s', n') \<in> set (prefix_pairs old_region alt d)" "moved old_plan new_plan (s', n')"
  shows "\<not> (slot_addr old_plan old_base s + k) - slot_addr new_plan new_base n' < size_of old_plan s'"
proof (cases "size_of new_plan n' = 0")
  case True
  then show ?thesis using q op_agreesD prefix_agreesD [OF agree] by (fastforce simp: in_prefix_pairs)
next
  case False
  obtain i j where ij: "i < d" "j < d" "(s, n) \<in> set (op_pairs old_region alt i)" "(s', n') \<in> set (op_pairs old_region alt j)"
    using p(1) q(1) by (auto simp: in_prefix_pairs)
  note P = op_agreesD(2) [OF prefix_agreesD(1) [OF agree ij(1)] ij(3) p(2)]
    and Q = op_agreesD(2) [OF prefix_agreesD(1) [OF agree ij(2)] ij(4) q(2)]
  have ends: "unat old_base + unat old_bytes \<le> 2 ^ 64" "unat new_base + unat new_bytes \<le> 2 ^ 64"
    using blocks(3) by (simp_all add: blocks_apart_def)
  have "unat k < unat (size_of old_plan s)" using p(3) by (simp add: word_less_nat_alt)
  moreover note unat_slot_addr(1) [OF blocks(1) _ _ ends(1) p(3)] in_blockD(2) [OF blocks(1), of s]
    in_blockD(2) [OF blocks(2), of n'] slot_range [OF blocks(2) _ _ ends(2) False]
  ultimately show ?thesis
    using P Q blocks(3) by (auto simp: blocks_apart_def)
qed

text \<open>A copy that comes later in the prefix does not write into a slot that is live at the divergence.\<close>

lemma copy_spares_live:
  assumes agree: "prefix_agrees old_plan new_plan old_region alt d" and disj: "live_disjoint new_plan"
    and block: "in_block new_plan new_bytes" "unat new_base + unat new_bytes \<le> 2 ^ 64"
    and p: "i < d" "(s, n) \<in> set (op_pairs old_region alt i)" "moved old_plan new_plan (s, n)" "k < size_of old_plan s"
    and q: "i \<le> j" "j < d" "(s', n') \<in> set (op_pairs old_region alt j)" "moved old_plan new_plan (s', n')" "n' \<noteq> n"
    and live: "d \<le> death_op (mp_slots new_plan ! unat n)"
  shows "\<not> (slot_addr new_plan new_base n + k) - slot_addr new_plan new_base n' < size_of old_plan s'"
proof (cases "size_of new_plan n' = 0")
  case True
  then show ?thesis using op_agreesD(2) [OF prefix_agreesD(1) [OF agree q(2)] q(3,4)] by simp
next
  case False
  note P = op_agreesD(2) [OF prefix_agreesD(1) [OF agree p(1)] p(2,3)]
    and Q = op_agreesD(2) [OF prefix_agreesD(1) [OF agree q(2)] q(3,4)]
  have k: "k < size_of new_plan n" "unat k < unat (size_of new_plan n)" using p(4) P by (simp_all add: word_less_nat_alt)
  have "live_slot j (mp_slots new_plan ! unat n)" using P q(1,2) live by simp
  moreover have "unat n \<noteq> unat n'" using q(5) by (simp add: word_unat_eq_iff)
  moreover note in_blockD(1) [OF block(1), of n] in_blockD(1) [OF block(1), of n']
  ultimately have "unat (offset_bytes (mp_slots new_plan ! unat n)) + unat (size_of new_plan n)
        \<le> unat (offset_bytes (mp_slots new_plan ! unat n')) \<or>
      unat (offset_bytes (mp_slots new_plan ! unat n')) + unat (size_of new_plan n')
        \<le> unat (offset_bytes (mp_slots new_plan ! unat n))"
    using disj P Q k(2) False unfolding live_disjoint_def by (metis gr_implies_not0 unat_eq_zero)
  moreover have addr: "unat (slot_addr new_plan new_base n + k)
      = unat new_base + unat (offset_bytes (mp_slots new_plan ! unat n)) + unat k"
    using unat_slot_addr(1) [OF block(1) _ _ block(2) k(1)] P by blast
  moreover have size: "size_of old_plan s' = size_of new_plan n'" using Q by simp
  moreover have range: "a - slot_addr new_plan new_base n' < size_of new_plan n' \<longleftrightarrow>
      unat new_base + unat (offset_bytes (mp_slots new_plan ! unat n')) \<le> unat a \<and>
      unat a < unat new_base + unat (offset_bytes (mp_slots new_plan ! unat n')) + unat (size_of new_plan n')" for a
    using slot_range [OF block(1) _ _ block(2) False] Q by blast
  ultimately show ?thesis unfolding size range addr using k(2) by linarith
qed

text \<open>The first pair of a slot splits the pairs of the prefix.\<close>

lemma first_pair:
  assumes "i < d" "(s, n) \<in> set (op_pairs old_region alt i)" "moved old_plan new_plan (s, n)"
  obtains i' s' pre mid where "i' < d" "(s', n) \<in> set (op_pairs old_region alt i')" "moved old_plan new_plan (s', n)"
    "prefix_pairs old_region alt d = pre @ (s', n) # mid @ concat (map (op_pairs old_region alt) [Suc i'..<d])"
    "set mid \<subseteq> set (op_pairs old_region alt i')" "\<forall>(s'', n')\<in>set pre. moved old_plan new_plan (s'', n') \<longrightarrow> n' \<noteq> n"
proof -
  define Q where "Q = (\<lambda>(s', n'). moved old_plan new_plan (s', n') \<and> n' = n)"
  define i' where "i' = (LEAST i. \<exists>q\<in>set (op_pairs old_region alt i). Q q)"
  have ex: "\<exists>q\<in>set (op_pairs old_region alt i). Q q" using assms by (auto simp: Q_def)
  have i': "\<exists>q\<in>set (op_pairs old_region alt i'). Q q" "i' \<le> i"
    unfolding i'_def by (rule LeastI, rule ex) (rule Least_le, rule ex)
  have before: "\<not> Q q" if "j < i'" "q \<in> set (op_pairs old_region alt j)" for j q
    using not_less_Least [of j "\<lambda>i. \<exists>q\<in>set (op_pairs old_region alt i). Q q"] that by (auto simp: i'_def)
  obtain h q mid where split: "op_pairs old_region alt i' = h @ q # mid" "Q q" "\<forall>x\<in>set h. \<not> Q x"
    using split_list_first_prop [OF i'(1)] by blast
  obtain s' where q: "q = (s', n)" "moved old_plan new_plan (s', n)" using split(2) by (cases q) (auto simp: Q_def)
  have "[0..<d] = [0..<i'] @ i' # [Suc i'..<d]"
    using i'(2) assms(1) upt_add_eq_append [of 0 i' "d - i'"] upt_conv_Cons [of i' d] by simp
  then have "prefix_pairs old_region alt d = (concat (map (op_pairs old_region alt) [0..<i']) @ h) @ (s', n) # mid @
      concat (map (op_pairs old_region alt) [Suc i'..<d])"
    by (simp add: prefix_pairs_def split(1) q(1))
  moreover have "\<forall>(s'', n')\<in>set (concat (map (op_pairs old_region alt) [0..<i']) @ h).
      moved old_plan new_plan (s'', n') \<longrightarrow> n' \<noteq> n"
    using before split(3) by (fastforce simp: Q_def)
  moreover have "i' < d" "(s', n) \<in> set (op_pairs old_region alt i')" "set mid \<subseteq> set (op_pairs old_region alt i')"
    using i'(2) assms(1) split(1) q(1) by auto
  ultimately show thesis using that q(2) by blast
qed

lemma prefix_migrated:
  assumes agree: "prefix_agrees old_plan new_plan old_region alt d" and disj: "live_disjoint new_plan"
    and blocks: "in_block old_plan old_bytes" "in_block new_plan new_bytes" "blocks_apart old_base old_bytes new_base new_bytes"
    and room: "num_slots new_plan \<le> length visited" "list_all (\<lambda>b. \<not> b) visited" and base: "old_base \<noteq> 0"
    and p: "i < d" "(s, n) \<in> set (op_pairs old_region alt i)" "moved old_plan new_plan (s, n)" "k < size_of old_plan s"
    and live: "d \<le> death_op (mp_slots new_plan ! unat n)"
    and run: "migrate_outputs old_plan new_plan old_base new_base (prefix_pairs old_region alt d) (visited, mem) = ok (v, m)"
  shows "m (slot_addr new_plan new_base n + k) = mem (slot_addr old_plan old_base s + k)"
proof -
  obtain i' s' pre mid where f: "i' < d" "(s', n) \<in> set (op_pairs old_region alt i')" "moved old_plan new_plan (s', n)"
    "prefix_pairs old_region alt d = pre @ (s', n) # mid @ concat (map (op_pairs old_region alt) [Suc i'..<d])"
    "set mid \<subseteq> set (op_pairs old_region alt i')" "\<forall>(s'', n')\<in>set pre. moved old_plan new_plan (s'', n') \<longrightarrow> n' \<noteq> n"
    by (rule first_pair [OF p(1-3)])
  let ?later = "concat (map (op_pairs old_region alt) [Suc i'..<d])"
  have in_pairs: "(s, n) \<in> set (prefix_pairs old_region alt d)" "(s', n) \<in> set (prefix_pairs old_region alt d)"
    using p(1,2) f(1,2) unfolding in_prefix_pairs by blast+
  have s: "s' = s" using prefix_agreesD(2) [OF agree in_pairs(2,1) f(3) p(3)] .
  have ids: "list_all (ids_ok old_plan new_plan) (pre @ (s, n) # mid @ ?later)"
    unfolding f(4) [symmetric, unfolded s] list_all_iff
    using op_agreesD(1) [OF prefix_agreesD(1) [OF agree]] by (auto simp: in_prefix_pairs)
  have n: "unat n < length visited"
    using op_agreesD(2) [OF prefix_agreesD(1) [OF agree f(1)] f(2,3)] room(1) by simp
  have source: "untouched old_plan new_plan new_base pre visited (slot_addr old_plan old_base s + k)"
    unfolding untouched_def using copy_spares_source [OF agree blocks in_pairs(1) p(3,4)] f(4) by auto
  have later: "\<forall>(s'', n')\<in>set (mid @ ?later). moved old_plan new_plan (s'', n') \<longrightarrow> n' \<noteq> n \<longrightarrow>
      \<not> (slot_addr new_plan new_base n + k) - slot_addr new_plan new_base n' < size_of old_plan s''"
  proof (intro ballI, clarify)
    fix s'' n'
    assume q: "(s'', n') \<in> set (mid @ ?later)" "moved old_plan new_plan (s'', n')" "n' \<noteq> n"
      "(slot_addr new_plan new_base n + k) - slot_addr new_plan new_base n' < size_of old_plan s''"
    obtain j where "i' \<le> j" "j < d" "(s'', n') \<in> set (op_pairs old_region alt j)"
      using q(1) f(1,5) by (fastforce dest: Suc_leD)
    then show False
      using copy_spares_live [OF agree disj blocks(2) _ f(1) f(2) [unfolded s] p(3,4) _ _ _ q(2,3) live] q(4) blocks(3)
      by (auto simp: blocks_apart_def)
  qed
  have "\<not> visited ! unat n" using room(2) n by (simp add: list_all_length)
  then show ?thesis
    using migrate_outputs_first [OF ids room(1) p(3) _ f(6) base p(4) source later, of mem] run
    unfolding f(4) s by auto
qed


section \<open>Switching to an alternate region\<close>

lemma switch_region_cases:
  assumes run: "switch_region aligned_alloc calloc_ok (Some alt) d w = ok (b, w')" "rg_plan alt = Some plan" "0 < d"
    and d: "d \<le> length (rg_ops alt)"
  obtains old_region old_plan p reg mem e where
    "cc_active (cw_ctx w) = Some old_region" "rg_plan old_region = Some old_plan" "b"
    "migrate_prefix_slots old_region alt (pool_base (cc_pool (cw_ctx w))) (pool_base p) d (cw_mem w) = ok mem"
    "pool_serves plan p" "engine_inv (rg_ops alt) e" "re_cursor e = d"
    "\<exists>pw. pool_init aligned_alloc calloc_ok plan pw = ok (p, reg)"
    "w' = \<lparr>cw_ctx = (cw_ctx w)\<lparr>cc_engine := e, cc_active := Some alt, cc_pool := p\<rparr>, cw_reg = reg, cw_mem = mem\<rparr>"
    "cc_mode (cw_ctx w) = CM_COMPILED"
proof -
  obtain old_region old_plan where old: "cc_mode (cw_ctx w) = CM_COMPILED" "cc_active (cw_ctx w) = Some old_region"
    "rg_plan old_region = Some old_plan"
    using run by (auto simp: switch_region_def Let_def split: if_splits option.splits)
  have init: "is_initialized (cc_pool (cw_ctx w))"
    using run old by (auto simp: switch_region_def pool_detach_def Let_def split: if_splits)
  obtain pw p reg mem e e' where r: "pool_init aligned_alloc calloc_ok plan pw = ok (p, reg)"
    "migrate_prefix_slots old_region alt (pool_base (cc_pool (cw_ctx w))) (pool_base p) d (cw_mem w) = ok mem"
    "engine_init (Some alt) p (cc_engine (cw_ctx w)) = ok e" "replay_prefix (take d (op_guards (rg_ops alt))) e = ok e'" "b"
    "w' = \<lparr>cw_ctx = (cw_ctx w)\<lparr>cc_engine := e', cc_active := Some alt, cc_pool := p\<rparr>, cw_reg = reg, cw_mem = mem\<rparr>"
    using run old init by (simp add: switch_region_def pool_detach_def Let_def and_then_ok) blast
  note I = engine_init_inv [OF r(3)]
  have "engine_inv (rg_ops alt) e' \<and> re_cursor e' = d"
    using replay_prefix_ok [of "rg_ops alt" e d] I d r(4) by auto
  then show thesis
    using that [OF old(2,3) r(5,2) pool_init_serves [OF r(1) engine_init_pool [OF r(3)]] _ _ _ r(6) old(1)] r(1) by blast
qed

lemma switch_region_ok:
  assumes "switch_region aligned_alloc calloc_ok rg d w = ok (b, w')" "ctx_ok (cw_ctx w)"
    and "\<And>alt. rg = Some alt \<Longrightarrow> d < length (rg_ops alt)"
  shows "ctx_ok (cw_ctx w')"
proof (cases rg)
  case None
  then show ?thesis using assms by (simp add: switch_region_def)
next
  case (Some alt)
  show ?thesis
  proof (cases "rg_plan alt = None \<or> d = 0")
    case True
    then show ?thesis
      using assms(1,2) Some activate_ok by (auto simp: switch_region_def split: if_splits option.splits)
  next
    case False
    then obtain plan where plan: "rg_plan alt = Some plan" "0 < d" by auto
    have d: "d < length (rg_ops alt)" using assms(3) Some .
    show ?thesis
      by (rule switch_region_cases [OF assms(1) [unfolded Some] plan]) (use plan d in \<open>auto simp: ctx_ok_def\<close>)
  qed
qed

text \<open>What the runtime can do to a context.  Kernels write the memory between the operations.\<close>

inductive ctx_reachable :: "ctx_world \<Rightarrow> bool" where
  "ctx_reachable \<lparr>cw_ctx = fresh_context, cw_reg = reg, cw_mem = mem\<rparr>"
| "ctx_reachable w \<Longrightarrow> activate aligned_alloc calloc_ok rg w = ok (b, w') \<Longrightarrow> ctx_reachable w'"
| "ctx_reachable w \<Longrightarrow> ctx_reachable (deactivate w)"
| "ctx_reachable w \<Longrightarrow> ctx_advance schema shape (cw_ctx w) = ok (st, c) \<Longrightarrow> ctx_reachable (w\<lparr>cw_ctx := c\<rparr>)"
| "ctx_reachable w \<Longrightarrow> ctx_register_external sid ptr (cw_ctx w) = ok c \<Longrightarrow> ctx_reachable (w\<lparr>cw_ctx := c\<rparr>)"
| "ctx_reachable w \<Longrightarrow> ctx_reachable (w\<lparr>cw_mem := mem\<rparr>)"
| "ctx_reachable w \<Longrightarrow> d < length (rg_ops alt) \<Longrightarrow>
     switch_region aligned_alloc calloc_ok (Some alt) d w = ok (b, w') \<Longrightarrow> ctx_reachable w'"

lemma ctx_advance_ok:
  assumes "ctx_advance schema shape c = ok (st, c')" "ctx_ok c"
  shows "ctx_ok c'"
proof -
  have mode: "cc_mode c = CM_COMPILED" using assms(1) by (auto simp: ctx_advance_def split: if_splits)
  then obtain r plan where r: "cc_active c = Some r" "rg_plan r = Some plan" "pool_serves plan (cc_pool c)"
    "engine_inv (rg_ops r) (cc_engine c)" "rg_ops r \<noteq> [] \<Longrightarrow> re_cursor (cc_engine c) < length (rg_ops r)"
    using assms(2) by (auto simp: ctx_ok_def)
  show ?thesis
  proof (cases "rg_ops r = []")
    case True
    then have "advance schema shape (cc_engine c) = fail Contract_violation"
      using r(4) by (auto simp: advance_def engine_inv_def)
    then show ?thesis using assms(1) mode by (simp add: ctx_advance_def)
  next
    case False
    show ?thesis
    proof (cases "advance schema shape (cc_engine c)")
      case (Inr a)
      then show ?thesis
        using assms(1) mode r False advance_cases [OF r(4) r(5) [OF False], of schema shape] engine_reset_inv
        by (auto simp: ctx_advance_def ctx_ok_def bump_def split: if_splits replay_status.splits)
    qed (use assms(1) mode in \<open>simp add: ctx_advance_def\<close>)
  qed
qed

lemma ctx_register_external_ok:
  assumes "ctx_register_external sid ptr c = ok c'" "ctx_ok c"
  shows "ctx_ok c'"
proof -
  obtain p where p: "register_external sid ptr (cc_pool c) = ok p" "c' = c\<lparr>cc_pool := p\<rparr>"
    using assms(1) by (auto simp: ctx_register_external_def and_then_ok)
  have "is_initialized (cc_pool c)" "pool_serves plan (cc_pool c) \<Longrightarrow> pool_serves plan p" for plan
    using p(1) by (auto simp: register_external_def pool_serves_def is_initialized_def split: option.splits if_splits)
  then show ?thesis
    using assms(2) p(2) by (auto simp: ctx_ok_def empty_pool_def is_initialized_def split: context_mode.splits)
qed

lemma ctx_reachable_ok: "ctx_reachable w \<Longrightarrow> ctx_ok (cw_ctx w)"
proof (induction rule: ctx_reachable.induct)
  case (7 w d alt aligned_alloc calloc_ok b w')
  then show ?case using switch_region_ok [of aligned_alloc calloc_ok "Some alt" d w b w'] by simp
qed (simp_all add: fresh_context_ok activate_ok deactivate_ok ctx_advance_ok ctx_register_external_ok)

lemma migrate_prefix_slots_runs:
  assumes plans: "rg_plan old_region = Some old_plan" "rg_plan alt = Some plan" "num_slots plan \<le> MIGRATION_MAX_SLOTS"
    and agree: "prefix_agrees old_plan plan old_region alt d"
  obtains v m where "migrate_prefix_slots old_region alt old_base new_base d mem = ok m"
    "migrate_outputs old_plan plan old_base new_base (prefix_pairs old_region alt d)
       (replicate MIGRATION_MAX_SLOTS False, mem) = ok (v, m)"
proof -
  let ?start = "(replicate MIGRATION_MAX_SLOTS False, mem)"
  have d: "d \<le> length (rg_ops old_region)" "d \<le> length (rg_ops alt)"
    and ops: "\<forall>i\<in>set [0..<d]. op_agrees old_plan plan old_region alt i"
    using agree by (simp_all add: prefix_agrees_def list_all_iff)
  have ids: "list_all (ids_ok old_plan plan) (prefix_pairs old_region alt d)"
    using op_agreesD(1) [OF prefix_agreesD(1) [OF agree]] by (auto simp: list_all_iff in_prefix_pairs)
  obtain v m where run: "migrate_outputs old_plan plan old_base new_base (prefix_pairs old_region alt d) ?start = ok (v, m)"
    using migrate_outputs_frame [OF ids, of "replicate MIGRATION_MAX_SLOTS False" old_base new_base mem] plans(3) by auto
  then have "migrate_prefix_slots old_region alt old_base new_base d mem = ok m"
    using plans d by (simp add: migrate_prefix_slots_def zip_take_upt migrate_ops_pairs [OF ops] prefix_pairs_def)
  then show thesis using that run by blast
qed

text \<open>A concrete switch: one tensor of 100 bytes, written by the first operation of two regions that differ in the
  second.\<close>

definition shared_slots :: "tensor_slot list" where
  "shared_slots = [\<lparr>offset_bytes = 0, nbytes = 100, birth_op = 0, death_op = 1, sl_dtype = ST_Float,
     sl_device_type = DT_CPU, sl_device_idx = - 1, sl_layout = LY_Strided, is_external = False, slot_id = 0\<rparr>]"

definition shared_plan :: memory_plan where
  "shared_plan = \<lparr>mp_slots = shared_slots, pool_bytes = 256, num_slots = 1, num_external = 0, mp_device_type = DT_CPU,
     mp_device_idx = - 1, device_capability = 0, mp_rank = - 1, mp_world_size = 0\<rparr>"

definition shared_region :: "u64 \<Rightarrow> region" where
  "shared_region h = fresh_region\<lparr>rg_ops := [(guard_op 1 10)\<lparr>te_num_outputs := 1, te_output_slot_ids := Some [0]\<rparr>, guard_op h 20],
     rg_plan := Some shared_plan\<rparr>"

definition first_alloc :: "u64 \<Rightarrow> u64 \<Rightarrow> u64" where
  "first_alloc al n = 4096"

definition second_alloc :: "u64 \<Rightarrow> u64 \<Rightarrow> u64" where
  "second_alloc al n = 8192"

definition first_pool :: pool where
  "first_pool = \<lparr>pool_base = 4096, ptr_table = Some [4096], pa_pool_bytes = 256, pa_num_slots = 1, pa_num_external = 0\<rparr>"

definition pool_entry :: "u64 \<Rightarrow> hot_region" where
  "pool_entry b = \<lparr>hr_addr = b, hr_len = 256, hr_huge_hint = False, hr_label = ''PoolAllocator.pool''\<rparr>"

definition shared_world :: ctx_world where
  "shared_world = \<lparr>cw_ctx = fresh_context, cw_reg = [empty_slot], cw_mem = (\<lambda>a. ucast a)\<rparr>"

lemma shared_sweeps:
  "sweep_op [] [0] \<lparr>ps_slots = shared_slots, free_list = [], pool_end = 0\<rparr> = \<lparr>ps_slots = shared_slots, free_list = [], pool_end = 256\<rparr>"
  "sweep_op [] [] st = st"
  "sweep_op [0] [] \<lparr>ps_slots = shared_slots, free_list = [], pool_end = 256\<rparr>
    = \<lparr>ps_slots = shared_slots, free_list = [(0, 256)], pool_end = 256\<rparr>"
  by (simp_all add: shared_slots_def sweep_op_def MAX_PER_OP_def alloc_step_def alloc_slot_def free_step_def free_block_def
      MAX_FREE_def align_up_def ALIGNMENT_def set_offset_def)

lemma shared_plan_computed: "compute_memory_plan 0 (- 1) 0 shared_slots = ok shared_plan"
proof -
  have "compute_memory_plan 0 (- 1) 0 shared_slots = ok (let st = sweep_op [0] [] (sweep_op [] [] (sweep_op [] [0]
      \<lparr>ps_slots = shared_slots, free_list = [], pool_end = 0\<rparr>)) in shared_plan\<lparr>mp_slots := ps_slots st, pool_bytes := pool_end st\<rparr>)"
    by (simp add: compute_memory_plan_def shared_slots_def shared_plan_def MAX_DEATH_OP_def scan_internal_def Let_def
      free_at_def bucket_def upt_rec)
  then show ?thesis by (simp add: shared_sweeps shared_plan_def)
qed

lemma shared_total: "aligned_total shared_slots < 2 ^ 64"
proof -
  have "{s. internal shared_slots s} = {0}" by (auto simp: internal_def shared_slots_def)
  then show ?thesis by (simp add: aligned_total_def slot_size_def shared_slots_def aligned_size_def)
qed

lemma shared_pool_init:
  assumes "f = first_alloc \<and> b = 4096 \<or> f = second_alloc \<and> b = 8192" "hr_addr s = 0"
  shows "pool_init f True shared_plan (empty_pool, [s]) =
    ok (first_pool\<lparr>pool_base := b, ptr_table := Some [b]\<rparr>,
        [pool_entry b])"
proof -
  have "alloc_size 256 = 256"
    by (simp add: alloc_size_def page_align_def kHugePageBytes_def ALIGNMENT_def add_sat_def add_overflow_def)
  then show ?thesis
    using assms
    by (auto simp: pool_init_def empty_pool_def shared_plan_def shared_slots_def first_pool_def init_buffer_def kMaxNumSlots_def
        kMaxPoolBytes_def register_region_def empty_slot_def pool_entry_def first_alloc_def second_alloc_def can_serve_slot_def page_align_def
        add_overflow_def ALIGNMENT_def kHugePageBytes_def Let_def)
qed

lemma shared_activate:
  "\<exists>w. activate first_alloc True (Some (shared_region 2)) shared_world = ok (True, w) \<and> cw_mem w = cw_mem shared_world \<and>
     cw_reg w = [pool_entry 4096] \<and>
     cc_mode (cw_ctx w) = CM_COMPILED \<and> cc_active (cw_ctx w) = Some (shared_region 2) \<and> cc_pool (cw_ctx w) = first_pool \<and>
     re_cursor (cc_engine (cw_ctx w)) = 0 \<and> cc_iterations (cw_ctx w) = 0 \<and> cc_diverged (cw_ctx w) = 0"
  using shared_pool_init [of first_alloc 4096 empty_slot]
  by (simp add: empty_slot_def activate_def shared_world_def shared_region_def fresh_context_def engine_init_def is_initialized_def
      first_pool_def Let_def)

lemma shared_prefix: "prefix_agrees shared_plan shared_plan (shared_region 2) (shared_region 3) 1"
  by (simp add: prefix_agrees_def op_agrees_def prefix_pairs_def op_pairs_def shared_region_def guard_op_def shared_plan_def
      shared_slots_def ids_ok_def moved_def id_is_valid_def id_none_def Let_def)

text \<open>C33.  A switch to an alternate region in the middle of an iteration keeps the data of the shared prefix.  Let a
  reachable context replay a region with a plan, let the alternate's plan come from the planner and let the two
  regions agree on the first \<^verbatim>\<open>d\<close> operations.  When the new block can be allocated and lies apart from the old one,
  the switch returns, the context replays the alternate from operation \<^verbatim>\<open>d\<close> on, and every output of the prefix that
  is still live at \<^verbatim>\<open>d\<close> has in the new pool the bytes it had in the old pool, whatever storage the planner
  shared between tensors.\<close>

theorem switch_keeps_live_tensors:
  assumes ctx: "ctx_reachable w" "cc_mode (cw_ctx w) = CM_COMPILED" "cc_active (cw_ctx w) = Some old_region"
    and old: "rg_plan old_region = Some old_plan" "num_slots old_plan \<le> length (mp_slots old_plan)"
    and alt: "rg_plan alt = Some plan" "compute_memory_plan cap r ws slots = ok plan" "aligned_total slots < 2 ^ 64"
      "0 < num_slots plan" "num_slots plan \<le> MIGRATION_MAX_SLOTS"
    and d: "0 < d" "d < length (rg_ops alt)" "prefix_agrees old_plan plan old_region alt d"
    and pool: "pool_init aligned_alloc calloc_ok plan
        (empty_pool, unregister_region (pool_base (cc_pool (cw_ctx w))) (cw_reg w)) = ok (p, reg)"
    and apart: "blocks_apart (pool_base (cc_pool (cw_ctx w))) (pool_bytes old_plan) (pool_base p) (pool_bytes plan)"
  shows "\<exists>w'. switch_region aligned_alloc calloc_ok (Some alt) d w = ok (True, w') \<and>
    cc_mode (cw_ctx w') = CM_COMPILED \<and> cc_active (cw_ctx w') = Some alt \<and> cc_pool (cw_ctx w') = p \<and>
    re_cursor (cc_engine (cw_ctx w')) = d \<and>
    (\<forall>i<d. \<forall>(s, n)\<in>set (op_pairs old_region alt i). moved old_plan plan (s, n) \<longrightarrow> d \<le> death_op (mp_slots plan ! unat n) \<longrightarrow>
       (\<forall>k. k < size_of old_plan s \<longrightarrow> cw_mem w' (slot_addr plan (pool_base p) n + k)
          = cw_mem w (slot_addr old_plan (pool_base (cc_pool (cw_ctx w))) s + k)))"
proof -
  let ?c = "cw_ctx w" and ?old = "pool_base (cc_pool (cw_ctx w))"
  have serves: "pool_serves old_plan (cc_pool ?c)" using ctx_reachable_ok [OF ctx(1)] ctx old(1) by (auto simp: ctx_ok_def)
  have init: "is_initialized p" using pool_init_ok(6) [OF pool] alt(4) by (simp add: is_initialized_def)
  obtain e where e: "engine_init (Some alt) p (cc_engine ?c) = ok e" using init by (simp add: engine_init_def Let_def)
  obtain e' where e': "replay_prefix (take d (op_guards (rg_ops alt))) e = ok e'" "re_cursor e' = d"
    using replay_prefix_ok [of "rg_ops alt" e d] engine_init_inv [OF e] d(2) by auto
  obtain v m where m: "migrate_prefix_slots old_region alt ?old (pool_base p) d (cw_mem w) = ok m"
    "migrate_outputs old_plan plan ?old (pool_base p) (prefix_pairs old_region alt d)
       (replicate MIGRATION_MAX_SLOTS False, cw_mem w) = ok (v, m)"
    by (rule migrate_prefix_slots_runs [OF old(1) alt(1,5) d(3)])
  let ?w = "\<lparr>cw_ctx = ?c\<lparr>cc_engine := e', cc_active := Some alt, cc_pool := p\<rparr>, cw_reg = reg, cw_mem = m\<rparr>"
  have run: "switch_region aligned_alloc calloc_ok (Some alt) d w = ok (True, ?w)"
    using ctx old alt(1) d(1) serves pool m(1) e e'(1)
    by (simp add: switch_region_def pool_detach_def pool_destroy_def pool_serves_def Let_def)
  have blocks: "in_block old_plan (pool_bytes old_plan)" "in_block plan (pool_bytes plan)"
    using serves old(2) pool_init_serves [OF pool init] plan_counts(1) [OF alt(2)] frame_length [OF compute_memory_plan_sound(1) [OF alt(2,3)]]
    by (simp_all add: pool_serves_def in_block_def)
  have "m (slot_addr plan (pool_base p) n + k) = cw_mem w (slot_addr old_plan ?old s + k)"
    if q: "i < d" "(s, n) \<in> set (op_pairs old_region alt i)" "moved old_plan plan (s, n)"
      "d \<le> death_op (mp_slots plan ! unat n)" "k < size_of old_plan s" for i s n k
  proof -
    have "unat k < unat (pool_bytes old_plan)"
      using in_blockD(2) [OF blocks(1), of s] op_agreesD(2) [OF prefix_agreesD(1) [OF d(3) q(1)] q(2,3)] q(5)
      by (simp add: word_less_nat_alt)
    then have "?old \<noteq> 0" using serves by (auto simp: pool_serves_def word_less_nat_alt)
    then show ?thesis
      using prefix_migrated [OF d(3) planned_live_disjoint [OF alt(2,3)] blocks apart _ _ _ q(1-3,5,4) m(2)] alt(5)
      by (simp add: list_all_length)
  qed
  then show ?thesis using run ctx(2) e'(2) by (intro exI [of _ ?w]) auto
qed

theorem switch_keeps_live_tensors_witness:
  "\<exists>w w'. ctx_reachable w \<and> switch_region second_alloc True (Some (shared_region 3)) 1 w = ok (True, w') \<and>
     pool_base (cc_pool (cw_ctx w)) = 4096 \<and> pool_base (cc_pool (cw_ctx w')) = 8192 \<and>
     cw_mem w (4096 + 77) = 77 \<and> cw_mem w' (8192 + 77) = cw_mem w (4096 + 77)"
proof -
  obtain w where w: "activate first_alloc True (Some (shared_region 2)) shared_world = ok (True, w)"
    "cw_mem w = cw_mem shared_world" "cw_reg w = [pool_entry 4096]"
    "cc_mode (cw_ctx w) = CM_COMPILED" "cc_active (cw_ctx w) = Some (shared_region 2)" "cc_pool (cw_ctx w) = first_pool"
    using shared_activate by blast
  have reach: "ctx_reachable w"
    using ctx_reachable.intros(2) [OF ctx_reachable.intros(1) w(1) [unfolded shared_world_def]] .
  let ?p = "first_pool\<lparr>pool_base := 8192, ptr_table := Some [8192]\<rparr>"
  have plan: "rg_plan (shared_region h) = Some shared_plan" "num_slots shared_plan \<le> length (mp_slots shared_plan)"
    "0 < num_slots shared_plan" "num_slots shared_plan \<le> MIGRATION_MAX_SLOTS" "1 < length (rg_ops (shared_region h))" for h
    by (simp_all add: shared_region_def shared_plan_def shared_slots_def MIGRATION_MAX_SLOTS_def)
  have pool: "pool_init second_alloc True shared_plan
      (empty_pool, unregister_region (pool_base (cc_pool (cw_ctx w))) (cw_reg w))
      = ok (?p, [pool_entry 8192])"
    using shared_pool_init [of second_alloc 8192 "(pool_entry 4096)\<lparr>hr_addr := 0\<rparr>"] w(3,6)
    by (simp add: unregister_region_def first_pool_def empty_slot_def pool_entry_def)
  have apart: "blocks_apart (pool_base (cc_pool (cw_ctx w))) (pool_bytes shared_plan) (pool_base ?p) (pool_bytes shared_plan)"
    using w(6) by (simp add: blocks_apart_def first_pool_def shared_plan_def)
  obtain w' where w': "switch_region second_alloc True (Some (shared_region 3)) 1 w = ok (True, w')" "cc_pool (cw_ctx w') = ?p"
    "\<forall>i<1. \<forall>(s, n)\<in>set (op_pairs (shared_region 2) (shared_region 3) i). moved shared_plan shared_plan (s, n) \<longrightarrow>
       1 \<le> death_op (mp_slots shared_plan ! unat n) \<longrightarrow> (\<forall>k. k < size_of shared_plan s \<longrightarrow>
         cw_mem w' (slot_addr shared_plan (pool_base ?p) n + k)
         = cw_mem w (slot_addr shared_plan (pool_base (cc_pool (cw_ctx w))) s + k))"
    using switch_keeps_live_tensors [OF reach w(4,5) plan(1,2,1) shared_plan_computed shared_total plan(3,4) _ plan(5)
        shared_prefix pool apart] by auto
  have "\<forall>k<100. cw_mem w' (8192 + k) = cw_mem w (4096 + k)"
    using w'(3) w(6) by (simp add: op_pairs_def shared_region_def guard_op_def shared_plan_def shared_slots_def moved_def
        id_is_valid_def id_none_def first_pool_def Let_def)
  then have "cw_mem w' (8192 + 77) = cw_mem w (4096 + 77)" by (rule allE [of _ 77]) simp
  then show ?thesis using reach w' w(2,6) by (intro exI [of _ w] exI [of _ w']) (simp add: first_pool_def shared_world_def)
qed

text \<open>C34.  A context never mixes two regions and a compiled one never faults.  In every reachable state of a
  context that replays a region with operations, unless a counter is at its maximum, an advance returns: it reports a
  match or a completion exactly when the guards are those of the next operation, completes exactly at the last one
  and then starts over, counts completions and divergences, and leaves the active region and the pool alone.\<close>

theorem context_advance_spec:
  assumes "ctx_reachable w" "cc_mode (cw_ctx w) = CM_COMPILED" "cc_active (cw_ctx w) = Some r" "rg_ops r \<noteq> []"
    and "cc_iterations (cw_ctx w) \<noteq> - 1" "cc_diverged (cw_ctx w) \<noteq> - 1"
  shows "\<exists>st c'. ctx_advance schema shape (cw_ctx w) = ok (st, c') \<and> ctx_ok c' \<and> cc_mode c' = CM_COMPILED \<and>
    cc_active c' = Some r \<and> cc_pool c' = cc_pool (cw_ctx w) \<and>
    (if (schema, shape) = op_guards (rg_ops r) ! re_cursor (cc_engine (cw_ctx w))
     then if Suc (re_cursor (cc_engine (cw_ctx w))) = length (rg_ops r)
       then st = COMPLETE \<and> re_cursor (cc_engine c') = 0 \<and> cc_iterations c' = cc_iterations (cw_ctx w) + 1 \<and>
            cc_diverged c' = cc_diverged (cw_ctx w)
       else st = MATCH \<and> re_cursor (cc_engine c') = Suc (re_cursor (cc_engine (cw_ctx w))) \<and>
            cc_iterations c' = cc_iterations (cw_ctx w) \<and> cc_diverged c' = cc_diverged (cw_ctx w)
     else st = DIVERGED \<and> cc_engine c' = cc_engine (cw_ctx w) \<and> cc_iterations c' = cc_iterations (cw_ctx w) \<and>
          cc_diverged c' = cc_diverged (cw_ctx w) + 1) \<and>
    (st \<noteq> DIVERGED \<longrightarrow> re_current (cc_engine c') = Some (re_cursor (cc_engine (cw_ctx w))))"
  using ctx_advance_cases [OF ctx_reachable_ok [OF assms(1)] assms(2-6)] .

theorem context_advance_spec_witness:
  "\<exists>w c. ctx_reachable w \<and> ctx_advance 1 10 (cw_ctx w) = ok (MATCH, c) \<and> re_cursor (cc_engine c) = 1"
proof -
  obtain w where w: "activate first_alloc True (Some (shared_region 2)) shared_world = ok (True, w)"
    "cc_mode (cw_ctx w) = CM_COMPILED" "cc_active (cw_ctx w) = Some (shared_region 2)"
    "re_cursor (cc_engine (cw_ctx w)) = 0" "cc_iterations (cw_ctx w) = 0" "cc_diverged (cw_ctx w) = 0"
    using shared_activate by blast
  have reach: "ctx_reachable w"
    using ctx_reachable.intros(2) [OF ctx_reachable.intros(1) w(1) [unfolded shared_world_def]] .
  have ops: "rg_ops (shared_region 2) \<noteq> []" "op_guards (rg_ops (shared_region 2)) ! 0 = (1, 10)"
    "length (rg_ops (shared_region 2)) = 2" by (simp_all add: shared_region_def op_guards_def guard_op_def)
  show ?thesis
    using context_advance_spec [OF reach w(2,3) ops(1), of 1 10] w(4-6) ops(2,3) reach by auto
qed

end
