(* ===== verification/Vigil_Correct.thy ===== *)
theory Vigil_Correct
  imports Vigil Crucible_Context_Correct
begin

text \<open>
  Invariants of the foreground: the address it keeps names the region of the execution context, and activation,
  alignment, the registration of externals and the switch to an alternate keep this and the reachability of the
  cache.
\<close>

section \<open>Operations on the context\<close>

definition core_inv :: "region_heap \<Rightarrow> vigil \<Rightarrow> bool" where
  "core_inv heap v \<longleftrightarrow> ctx_ok (cw_ctx (vg_world v)) \<and> cc_active (cw_ctx (vg_world v)) = map_option heap (vg_region v) \<and>
     cache_reach heap (vg_cache v)"

text \<open>The internal steps write the context, the address of its region and the cache, and nothing else.\<close>

definition ctx_step :: "vigil \<Rightarrow> vigil \<Rightarrow> bool" where
  "ctx_step v v' \<longleftrightarrow> v' = v\<lparr>vg_world := vg_world v', vg_region := vg_region v', vg_cache := vg_cache v'\<rparr>"

lemma ctx_step_refl [simp]: "ctx_step v v"
  by (simp add: ctx_step_def)

lemma ctx_step_trans: "ctx_step v1 v2 \<Longrightarrow> ctx_step v2 v3 \<Longrightarrow> ctx_step v1 v3"
  by (cases v1; cases v2; cases v3) (auto simp: ctx_step_def)

lemma ctx_stepD:
  assumes "ctx_step v v'"
  shows "vg_pending v' = vg_pending v" "vg_activation v' = vg_activation v" "vg_alignment v' = vg_alignment v"
    "vg_mode v' = vg_mode v" "vg_reset_requested v' = vg_reset_requested v" "vg_ring v' = vg_ring v"
    "vg_meta_log v' = vg_meta_log v" "vg_claim v' = vg_claim v" "vg_held v' = vg_held v"
    "vg_held_sequence v' = vg_held_sequence v" "vg_tx_log v' = vg_tx_log v" "vg_step v' = vg_step v"
    "vg_bg_active v' = vg_bg_active v"
  using assms by (cases v; cases v'; simp add: ctx_step_def)+

lemma compiled_iff_region:
  assumes "core_inv heap v"
  shows "is_compiled v \<longleftrightarrow> vg_region v \<noteq> None"
  using assms by (cases "vg_region v") (auto simp: core_inv_def ctx_ok_def is_compiled_def split: context_mode.splits)

lemma vg_activate_ok:
  assumes "vg_activate env a v = ok (b, v')" "core_inv (env_heap env) v"
  shows "core_inv (env_heap env) v'" "ctx_step v v'" "vg_cache v' = vg_cache v" "\<not> b \<Longrightarrow> v' = v"
    "b \<Longrightarrow> is_compiled v' \<and> vg_region v' = Some a \<and> re_cursor (cc_engine (cw_ctx (vg_world v'))) = 0"
proof -
  obtain w where w: "activate (env_alloc env) (env_calloc env) (Some (env_heap env a)) (vg_world v) = ok (b, w)"
    "v' = v\<lparr>vg_world := w, vg_region := (if b then Some a else vg_region v)\<rparr>"
    using assms(1) by (auto simp: vg_activate_def and_then_ok)
  have ok: "ctx_ok (cw_ctx w)" using activate_ok [OF w(1)] assms(2) by (simp add: core_inv_def)
  have cases: "\<not> b \<and> w = vg_world v \<or> b \<and> cc_mode (cw_ctx w) = CM_COMPILED \<and> cc_active (cw_ctx w) = Some (env_heap env a) \<and>
      re_cursor (cc_engine (cw_ctx w)) = 0"
    by (rule activate_cases [OF w(1)]) simp_all
  show "ctx_step v v'" "vg_cache v' = vg_cache v" using w(2) by (simp_all add: ctx_step_def)
  show "core_inv (env_heap env) v'" "\<not> b \<Longrightarrow> v' = v"
    "b \<Longrightarrow> is_compiled v' \<and> vg_region v' = Some a \<and> re_cursor (cc_engine (cw_ctx (vg_world v'))) = 0"
    using cases w(2) ok assms(2) by (auto simp: core_inv_def is_compiled_def)
qed

lemma vg_deactivate_ok:
  assumes "core_inv heap v"
  shows "core_inv heap (vg_deactivate v)" "ctx_step v (vg_deactivate v)" "\<not> is_compiled (vg_deactivate v)"
    "vg_cache (vg_deactivate v) = vg_cache v"
  using assms deactivate_ok [of "vg_world v"]
  by (auto simp: core_inv_def vg_deactivate_def ctx_step_def is_compiled_def ctx_ok_def split: context_mode.splits)

lemma ctx_advance_frame:
  assumes "ctx_advance schema shape c = ok (st, c')"
  shows "cc_mode c' = cc_mode c" "cc_active c' = cc_active c" "cc_pool c' = cc_pool c" "cc_mode c = CM_COMPILED"
    "\<exists>e. advance schema shape (cc_engine c) = ok (st, e) \<and> re_current (cc_engine c') = re_current e"
proof -
  show "cc_mode c = CM_COMPILED" using assms by (auto simp: ctx_advance_def split: if_splits)
  then obtain st' e where e: "advance schema shape (cc_engine c) = ok (st', e)"
    using assms by (auto simp: ctx_advance_def and_then_ok)
  show "cc_mode c' = cc_mode c" "cc_active c' = cc_active c" "cc_pool c' = cc_pool c"
    "\<exists>e. advance schema shape (cc_engine c) = ok (st, e) \<and> re_current (cc_engine c') = re_current e"
    using assms e by (cases st'; auto simp: ctx_advance_def and_then_ok engine_reset_def Let_def split: if_splits)+
qed

lemma vg_advance_ok:
  assumes "vg_advance schema shape v = ok (st, v')" "core_inv heap v"
  shows "core_inv heap v'" "ctx_step v v'" "vg_cache v' = vg_cache v" "vg_region v' = vg_region v" "is_compiled v'"
    "is_compiled v"
proof -
  obtain c where c: "ctx_advance schema shape (cw_ctx (vg_world v)) = ok (st, c)"
    "v' = v\<lparr>vg_world := (vg_world v)\<lparr>cw_ctx := c\<rparr>\<rparr>"
    using assms(1) by (auto simp: vg_advance_def and_then_ok)
  show "core_inv heap v'" "ctx_step v v'" "vg_cache v' = vg_cache v" "vg_region v' = vg_region v" "is_compiled v'" "is_compiled v"
    using ctx_advance_ok [OF c(1)] ctx_advance_frame [OF c(1)] c(2) assms(2)
    by (auto simp: core_inv_def ctx_step_def is_compiled_def)
qed

lemma register_externals_ok:
  assumes "register_externals ops slots v = ok v'" "core_inv heap v"
  shows "core_inv heap v' \<and> ctx_step v v' \<and> vg_cache v' = vg_cache v \<and> vg_region v' = vg_region v \<and>
    is_compiled v' = is_compiled v \<and> cc_engine (cw_ctx (vg_world v')) = cc_engine (cw_ctx (vg_world v))"
  using assms
proof (induction slots arbitrary: v)
  case (Cons slot slots)
  show ?case
  proof (cases "is_external slot")
    case True
    then obtain ptr v1 where v1: "(if ptr \<noteq> 0 then vg_register_external (slot_id slot) ptr v else ok v) = ok v1"
      "register_externals ops slots v1 = ok v'"
      using Cons.prems(1) by (auto simp: and_then_ok)
    have "core_inv heap v1 \<and> ctx_step v v1 \<and> vg_cache v1 = vg_cache v \<and> vg_region v1 = vg_region v \<and>
        is_compiled v1 = is_compiled v \<and> cc_engine (cw_ctx (vg_world v1)) = cc_engine (cw_ctx (vg_world v))"
    proof (cases "ptr = 0")
      case False
      then obtain c where c: "ctx_register_external (slot_id slot) ptr (cw_ctx (vg_world v)) = ok c"
        "v1 = v\<lparr>vg_world := (vg_world v)\<lparr>cw_ctx := c\<rparr>\<rparr>"
        using v1(1) by (auto simp: vg_register_external_def and_then_ok split: if_splits)
      have "ctx_ok c" using ctx_register_external_ok [OF c(1)] Cons.prems(2) by (simp add: core_inv_def)
      moreover have "cc_mode c = cc_mode (cw_ctx (vg_world v))" "cc_active c = cc_active (cw_ctx (vg_world v))"
        "cc_engine c = cc_engine (cw_ctx (vg_world v))"
        using c(1) by (auto simp: ctx_register_external_def and_then_ok)
      ultimately show ?thesis using c(2) Cons.prems(2) by (simp add: core_inv_def ctx_step_def is_compiled_def)
    qed (use v1(1) Cons.prems(2) in simp)
    then show ?thesis using Cons.IH [OF v1(2)] ctx_step_trans by metis
  qed (use Cons in simp)
qed simp

lemma register_from_region_ok:
  assumes "register_externals_from_region env a v = ok v'" "core_inv heap v"
  shows "core_inv heap v'" "ctx_step v v'" "vg_cache v' = vg_cache v" "vg_region v' = vg_region v"
    "is_compiled v' = is_compiled v" "cc_engine (cw_ctx (vg_world v')) = cc_engine (cw_ctx (vg_world v))"
  using assms register_externals_ok [of "rg_ops (env_heap env a)" _ v v' heap]
  by (auto simp: register_externals_from_region_def split: option.splits)

lemma vg_cache_insert_ok:
  assumes "vg_cache_insert env rg v = ok v'" "core_inv (env_heap env) v"
  shows "core_inv (env_heap env) v'" "ctx_step v v'" "vg_world v' = vg_world v" "vg_region v' = vg_region v"
    "\<exists>a. rg = Some a \<and> cache_insert (env_heap env) (Some a) (vg_cache v) = ok (vg_cache v')"
proof -
  obtain c where c: "cache_insert (env_heap env) rg (vg_cache v) = ok c" "v' = v\<lparr>vg_cache := c\<rparr>"
    using assms(1) by (auto simp: vg_cache_insert_def and_then_ok)
  obtain a where a: "rg = Some a" using c(1) by (cases rg) (auto simp: cache_insert_def)
  then show "\<exists>a. rg = Some a \<and> cache_insert (env_heap env) (Some a) (vg_cache v) = ok (vg_cache v')" using c by simp
  have "cache_reach (env_heap env) c" using reach_insert c(1) a assms(2) by (auto simp: core_inv_def)
  then show "core_inv (env_heap env) v'" "ctx_step v v'" "vg_world v' = vg_world v" "vg_region v' = vg_region v"
    using c(2) assms(2) by (simp_all add: core_inv_def ctx_step_def)
qed

lemma skip_matched_ok:
  assumes "skip_matched ops v = ok v'" "core_inv heap v"
  shows "core_inv heap v' \<and> ctx_step v v' \<and> vg_cache v' = vg_cache v \<and> vg_region v' = vg_region v \<and>
    (is_compiled v \<longrightarrow> is_compiled v')"
  using assms
proof (induction ops arbitrary: v)
  case (Cons te ops)
  obtain st v1 where v1: "vg_advance (te_schema_hash te) (te_shape_hash te) v = ok (st, v1)" "skip_matched ops v1 = ok v'"
    using Cons.prems(1) by (auto simp: and_then_ok)
  show ?case
    using Cons.IH [OF v1(2)] vg_advance_ok [OF v1(1) Cons.prems(2)] ctx_step_trans by metis
qed simp


section \<open>The invariant\<close>

text \<open>The regions that the foreground holds.\<close>

definition cached :: "region_cache \<Rightarrow> nat set" where
  "cached c = (\<Union>ce\<in>set (cache_list c). set_option (ce_region ce))"

definition holders :: "vigil \<Rightarrow> nat set" where
  "holders v = set_option (vg_activation v) \<union> set_option (vg_region v) \<union> cached (vg_cache v)"

lemma cache_insert_cached:
  assumes "cache_wf c" "cache_insert heap (Some a) c = ok c'"
  shows "cached c' \<subseteq> insert a (cached c)"
proof -
  have "set (cache_list c') \<subseteq> insert (region_entry heap a) (set (cache_list c))"
    using cache_insert_list [OF assms] set_take_subset [of cache_cap "region_entry heap a # cache_list c"] by auto
  then show ?thesis by (fastforce simp: cached_def region_entry_def)
qed

lemma held_cells_holders:
  assumes "cache_wf (vg_cache v)"
  shows "{a. Some a \<in> set (held_cells v)} = holders v"
proof -
  let ?l = "cache_list (vg_cache v)"
  have "length ?l \<le> cache_cap" using assms by (simp add: cache_list_def cache_wf_def)
  then have "Some a \<in> set (map (\<lambda>age. region_at age (vg_cache v)) [0..<cache_cap]) \<longleftrightarrow> a \<in> cached (vg_cache v)" for a
    by (force simp: cache_queries(3) cached_def in_set_conv_nth image_iff elem_set)
  then show ?thesis by (auto simp: held_cells_def holders_def elem_set)
qed

definition aligning :: "region_heap \<Rightarrow> vigil \<Rightarrow> bool" where
  "aligning heap v \<longleftrightarrow> (\<forall>a. vg_activation v = Some a \<longrightarrow>
     rg_ops (heap a) \<noteq> [] \<and> vg_alignment v < alignment_threshold (rg_ops (heap a)))"

definition vigil_inv :: "region_heap \<Rightarrow> vigil \<Rightarrow> bool" where
  "vigil_inv heap v \<longleftrightarrow> core_inv heap v \<and> vg_mode v = (if is_compiled v then VM_COMPILED else VM_RECORDING) \<and> aligning heap v"

lemma fields_kept [simp]:
  "core_inv heap (v\<lparr>vg_pending := p\<rparr>) = core_inv heap v" "core_inv heap (v\<lparr>vg_activation := p\<rparr>) = core_inv heap v"
  "core_inv heap (v\<lparr>vg_alignment := n\<rparr>) = core_inv heap v" "core_inv heap (v\<lparr>vg_mode := m\<rparr>) = core_inv heap v"
  "core_inv heap (v\<lparr>vg_reset_requested := b\<rparr>) = core_inv heap v" "core_inv heap (v\<lparr>vg_ring := r\<rparr>) = core_inv heap v"
  "core_inv heap (v\<lparr>vg_meta_log := l\<rparr>) = core_inv heap v" "core_inv heap (v\<lparr>vg_claim := p\<rparr>) = core_inv heap v"
  "core_inv heap (v\<lparr>vg_held := hs\<rparr>) = core_inv heap v" "core_inv heap (v\<lparr>vg_held_sequence := g\<rparr>) = core_inv heap v"
  "core_inv heap (v\<lparr>vg_tx_log := t\<rparr>) = core_inv heap v" "core_inv heap (v\<lparr>vg_step := g\<rparr>) = core_inv heap v"
  "core_inv heap (v\<lparr>vg_bg_active := p\<rparr>) = core_inv heap v"
  by (simp_all add: core_inv_def)

lemma compiled_kept [simp]:
  "is_compiled (v\<lparr>vg_pending := p\<rparr>) = is_compiled v" "is_compiled (v\<lparr>vg_activation := p\<rparr>) = is_compiled v"
  "is_compiled (v\<lparr>vg_alignment := n\<rparr>) = is_compiled v" "is_compiled (v\<lparr>vg_mode := m\<rparr>) = is_compiled v"
  "is_compiled (v\<lparr>vg_reset_requested := b\<rparr>) = is_compiled v" "is_compiled (v\<lparr>vg_ring := r\<rparr>) = is_compiled v"
  "is_compiled (v\<lparr>vg_meta_log := l\<rparr>) = is_compiled v" "is_compiled (v\<lparr>vg_claim := p\<rparr>) = is_compiled v"
  "is_compiled (v\<lparr>vg_held := hs\<rparr>) = is_compiled v" "is_compiled (v\<lparr>vg_held_sequence := g\<rparr>) = is_compiled v"
  "is_compiled (v\<lparr>vg_tx_log := t\<rparr>) = is_compiled v" "is_compiled (v\<lparr>vg_step := g\<rparr>) = is_compiled v"
  "is_compiled (v\<lparr>vg_bg_active := p\<rparr>) = is_compiled v"
  by (simp_all add: is_compiled_def)

lemma publish_held_simps [simp]:
  "core_inv heap (publish_held_regions v) = core_inv heap v" "is_compiled (publish_held_regions v) = is_compiled v"
  "aligning heap (publish_held_regions v) = aligning heap v" "vg_mode (publish_held_regions v) = vg_mode v"
  "vg_held (publish_held_regions v) = held_cells (publish_held_regions v)"
  "vg_ring (publish_held_regions v) = vg_ring v" "vg_meta_log (publish_held_regions v) = vg_meta_log v"
  "vg_world (publish_held_regions v) = vg_world v" "vg_region (publish_held_regions v) = vg_region v"
  "vg_reset_requested (publish_held_regions v) = vg_reset_requested v" "vg_pending (publish_held_regions v) = vg_pending v"
  "vg_activation (publish_held_regions v) = vg_activation v" "vg_alignment (publish_held_regions v) = vg_alignment v"
  "vg_claim (publish_held_regions v) = vg_claim v"
  by (simp_all add: publish_held_regions_def aligning_def held_cells_def)

lemma align_step_range:
  assumes "ops \<noteq> []" "pos < alignment_threshold ops"
  shows "\<exists>p. align_step ops schema shape pos = ok p \<and> p \<le> alignment_threshold ops"
  using assms by (auto simp: align_step_def alignment_threshold_def ALIGNMENT_K_def alignment_pos_at_def Suc_le_eq split: if_splits)

lemma try_align_cases:
  assumes "try_align env a schema shape v = ok v'" "align_step (rg_ops (env_heap env a)) schema shape (vg_alignment v) = ok p"
  obtains "p < alignment_threshold (rg_ops (env_heap env a))" "v' = v\<lparr>vg_alignment := p\<rparr>"
  | v2 where "vg_activate env a (v\<lparr>vg_alignment := p\<rparr>) = ok (False, v2)" "v' = v2\<lparr>vg_activation := None\<rparr>"
  | v2 v3 v4 v5 where "alignment_threshold (rg_ops (env_heap env a)) \<le> p" "vg_activate env a (v\<lparr>vg_alignment := p\<rparr>) = ok (True, v2)"
      "register_externals_from_region env a v2 = ok v3" "vg_cache_insert env (Some a) v3 = ok v4"
      "skip_matched (take p (rg_ops (env_heap env a))) v4 = ok v5" "v' = v5\<lparr>vg_mode := VM_COMPILED, vg_activation := None\<rparr>"
proof (cases "p < alignment_threshold (rg_ops (env_heap env a))")
  case True
  then show thesis using assms that(1) by (simp add: try_align_def Let_def)
next
  case False
  then obtain b v2 where v2: "vg_activate env a (v\<lparr>vg_alignment := p\<rparr>) = ok (b, v2)"
    using assms by (auto simp: try_align_def Let_def and_then_ok)
  show thesis
  proof (cases b)
    case True
    then obtain v3 v4 v5 where "register_externals_from_region env a v2 = ok v3" "vg_cache_insert env (Some a) v3 = ok v4"
      "skip_matched (take p (rg_ops (env_heap env a))) v4 = ok v5" "v' = v5\<lparr>vg_mode := VM_COMPILED, vg_activation := None\<rparr>"
      using False assms v2 by (auto simp: try_align_def Let_def and_then_ok)
    then show thesis using that(3) False v2 True by simp
  next
    case no: False
    then show thesis using that(2) False assms v2 by (simp add: try_align_def Let_def)
  qed
qed

lemma try_align_inv:
  assumes "try_align env a schema shape v = ok v'" "vigil_inv (env_heap env) v" "vg_activation v = Some a"
  shows "vigil_inv (env_heap env) v'" "vg_ring v' = vg_ring v" "vg_meta_log v' = vg_meta_log v" "holders v' \<subseteq> holders v" "vg_pending v' = vg_pending v"
proof -
  let ?ops = "rg_ops (env_heap env a)"
  have inv: "core_inv (env_heap env) v" "vg_mode v = (if is_compiled v then VM_COMPILED else VM_RECORDING)" and ops: "?ops \<noteq> []"
    and pos: "vg_alignment v < alignment_threshold ?ops"
    using assms(2,3) by (auto simp: vigil_inv_def aligning_def)
  obtain p where p: "align_step ?ops schema shape (vg_alignment v) = ok p" using align_step_range [OF ops pos] by blast
  let ?v = "v\<lparr>vg_alignment := p\<rparr>"
  consider "p < alignment_threshold ?ops" "v' = ?v"
    | v2 where "vg_activate env a ?v = ok (False, v2)" "v' = v2\<lparr>vg_activation := None\<rparr>"
    | v2 v3 v4 v5 where "vg_activate env a ?v = ok (True, v2)" "register_externals_from_region env a v2 = ok v3"
      "vg_cache_insert env (Some a) v3 = ok v4" "skip_matched (take p ?ops) v4 = ok v5"
      "v' = v5\<lparr>vg_mode := VM_COMPILED, vg_activation := None\<rparr>"
    by (rule try_align_cases [OF assms(1) p])
  then have "vigil_inv (env_heap env) v' \<and> vg_ring v' = vg_ring v \<and> vg_meta_log v' = vg_meta_log v \<and> holders v' \<subseteq> holders v \<and> vg_pending v' = vg_pending v"
  proof cases
    case 1
    then show ?thesis using assms(2,3) by (auto simp: vigil_inv_def aligning_def holders_def)
  next
    case 2
    then show ?thesis using vg_activate_ok(4) inv by (fastforce simp: vigil_inv_def aligning_def holders_def)
  next
    case 3
    have A: "core_inv (env_heap env) v2" "ctx_step ?v v2" "is_compiled v2" "vg_region v2 = Some a" "vg_cache v2 = vg_cache v"
      using vg_activate_ok [OF 3(1)] inv(1) by auto
    note B = register_from_region_ok [OF 3(2) A(1)]
    note C = vg_cache_insert_ok [OF 3(3) B(1)]
    note D = skip_matched_ok [OF 3(4) C(1)]
    have "ctx_step ?v v5" using A(2) B(2) C(2) D ctx_step_trans by blast
    moreover have "is_compiled v5" using A(3) B(5) C(3) D by (simp add: is_compiled_def)
    moreover have "cached (vg_cache v5) \<subseteq> insert a (cached (vg_cache v))" "vg_region v5 = Some a"
      using cache_insert_cached [of "vg_cache v3" "env_heap env" a "vg_cache v4"] C(4,5) D A(4,5) B(1,3,4) cache_reach_inv
      by (auto simp: core_inv_def)
    ultimately show ?thesis
      using ctx_stepD(1,6,7) [of ?v v5] D 3(5) assms(3) by (auto simp: vigil_inv_def aligning_def holders_def)
  qed
  then show "vigil_inv (env_heap env) v'" "vg_ring v' = vg_ring v" "vg_meta_log v' = vg_meta_log v" "holders v' \<subseteq> holders v" "vg_pending v' = vg_pending v"
    by blast+
qed

text \<open>What a replayed operation says: the current operation of the active region has the guards.\<close>

definition replays :: "u64 \<Rightarrow> u64 \<Rightarrow> vigil \<Rightarrow> bool" where
  "replays schema shape v \<longleftrightarrow> (\<exists>r i. cc_active (cw_ctx (vg_world v)) = Some r \<and> i < length (rg_ops r) \<and>
     re_current (cc_engine (cw_ctx (vg_world v))) = Some i \<and> op_guards (rg_ops r) ! i = (schema, shape))"

lemma vg_advance_replays:
  assumes "vg_advance schema shape v = ok (st, v')" "core_inv heap v" "st \<noteq> DIVERGED"
  shows "replays schema shape v'"
proof -
  let ?c = "cw_ctx (vg_world v)"
  obtain c where c: "ctx_advance schema shape ?c = ok (st, c)" "v' = v\<lparr>vg_world := (vg_world v)\<lparr>cw_ctx := c\<rparr>\<rparr>"
    using assms(1) by (auto simp: vg_advance_def and_then_ok)
  note F = ctx_advance_frame [OF c(1)]
  have ok: "ctx_ok ?c" using assms(2) by (simp add: core_inv_def)
  obtain r where r: "cc_active ?c = Some r" "engine_inv (rg_ops r) (cc_engine ?c)"
    "rg_ops r \<noteq> [] \<Longrightarrow> re_cursor (cc_engine ?c) < length (rg_ops r)"
    using ok F(4) by (auto simp: ctx_ok_def)
  obtain e where e: "advance schema shape (cc_engine ?c) = ok (st, e)" "re_current (cc_engine c) = re_current e"
    using F(5) by blast
  have ne: "rg_ops r \<noteq> []" using e(1) r(2) by (auto simp: advance_def engine_inv_def)
  have "(schema, shape) = op_guards (rg_ops r) ! re_cursor (cc_engine ?c)" "re_current e = Some (re_cursor (cc_engine ?c))"
    using advance_cases [OF r(2) r(3) [OF ne], of schema shape] e(1) assms(3) by (auto split: if_splits)
  then show ?thesis using r(1) r(3) [OF ne] F(2) c(2) e(2) by (auto simp: replays_def)
qed

lemma try_switch_region_ok:
  assumes "try_switch_region env alt d v = ok (b, v')" "core_inv (env_heap env) v" "d < length (rg_ops (env_heap env alt))"
  shows "core_inv (env_heap env) v'" "ctx_step v v'" "b \<Longrightarrow> is_compiled v' \<and> vg_region v' = Some alt \<and> re_cursor (cc_engine (cw_ctx (vg_world v'))) = d" "\<not> b \<Longrightarrow> v' = v"
    "vg_cache v' = vg_cache v"
proof -
  have run: "b \<longrightarrow> (\<exists>v1. vg_switch_region env alt d v = ok (True, v1) \<and> register_externals_from_region env alt v1 = ok v')"
    "\<not> b \<longrightarrow> v' = v \<or> vg_switch_region env alt d v = ok (False, v')"
    using assms(1) by (auto simp: try_switch_region_def Let_def and_then_ok split: if_splits option.splits)
  have sw: "core_inv (env_heap env) v1 \<and> ctx_step v v1 \<and> vg_cache v1 = vg_cache v \<and> (c \<longrightarrow> is_compiled v1 \<and> vg_region v1 = Some alt \<and> re_cursor (cc_engine (cw_ctx (vg_world v1))) = d) \<and> (\<not> c \<longrightarrow> v1 = v)"
    if s: "vg_switch_region env alt d v = ok (c, v1)" for c v1
  proof -
    let ?r = "env_heap env alt"
    obtain w where w: "switch_region (env_alloc env) (env_calloc env) (Some ?r) d (vg_world v) = ok (c, w)"
      "v1 = v\<lparr>vg_world := w, vg_region := (if c then Some alt else vg_region v)\<rparr>"
      using s by (auto simp: vg_switch_region_def and_then_ok)
    have "ctx_ok (cw_ctx w)" using switch_region_ok [OF w(1)] assms(2,3) by (auto simp: core_inv_def)
    moreover have "c \<and> cc_mode (cw_ctx w) = CM_COMPILED \<and> cc_active (cw_ctx w) = Some ?r \<and> re_cursor (cc_engine (cw_ctx w)) = d \<or> \<not> c \<and> w = vg_world v"
    proof (cases "rg_plan ?r = None \<or> d = 0")
      case True
      then have "d = 0 \<and> activate (env_alloc env) (env_calloc env) (Some ?r) (vg_world v) = ok (c, w) \<or> \<not> c \<and> w = vg_world v"
        using w(1) by (auto simp: switch_region_def split: if_splits option.splits)
      then show ?thesis by (elim disjE conjE activate_cases) simp_all
    next
      case False
      then obtain plan where plan: "rg_plan ?r = Some plan" "0 < d" by auto
      show ?thesis by (rule switch_region_cases [OF w(1) plan]) (use assms(3) in simp_all)
    qed
    ultimately show ?thesis using w(2) assms(2) by (auto simp: core_inv_def ctx_step_def is_compiled_def)
  qed
  have "core_inv (env_heap env) v' \<and> ctx_step v v' \<and> vg_cache v' = vg_cache v \<and> (b \<longrightarrow> is_compiled v' \<and> vg_region v' = Some alt \<and> re_cursor (cc_engine (cw_ctx (vg_world v'))) = d) \<and> (\<not> b \<longrightarrow> v' = v)"
  proof (cases b)
    case True
    then obtain v1 where v1: "vg_switch_region env alt d v = ok (True, v1)" "register_externals_from_region env alt v1 = ok v'"
      using run(1) by blast
    note S = sw [OF v1(1)]
    note R = register_from_region_ok [OF v1(2) conjunct1 [OF S]]
    show ?thesis using S R True ctx_step_trans by auto
  qed (use run(2) sw assms(2) in auto)
  then show "core_inv (env_heap env) v'" "ctx_step v v'" "b \<Longrightarrow> is_compiled v' \<and> vg_region v' = Some alt \<and> re_cursor (cc_engine (cw_ctx (vg_world v'))) = d" "\<not> b \<Longrightarrow> v' = v"
    "vg_cache v' = vg_cache v" by blast+
qed

end
