(* ===== verification/Vigil_Dispatch.thy ===== *)
theory Vigil_Dispatch
  imports Vigil_Correct
begin

text \<open>
  The promises of the foreground as a whole.  Every operation keeps the invariant of its state, so the mode follows
  the execution context and the published cells name exactly the regions that the foreground holds; a compiled answer
  names an operation with the dispatched guards and records nothing; an activation by alignment leaves the engine
  right behind the operations that were dispatched.
\<close>

section \<open>Recovery from a divergence\<close>

definition outside_kept :: "vigil \<Rightarrow> vigil \<Rightarrow> bool" where
  "outside_kept v v' \<longleftrightarrow> vg_ring v' = vg_ring v \<and> vg_meta_log v' = vg_meta_log v \<and> vg_claim v' = vg_claim v \<and>
     vg_tx_log v' = vg_tx_log v \<and> vg_step v' = vg_step v \<and> vg_bg_active v' = vg_bg_active v"

lemma publish_held_frame [simp]:
  "outside_kept v (publish_held_regions v') = outside_kept v v'" "holders (publish_held_regions v) = holders v"
  "replays schema shape (publish_held_regions v) = replays schema shape v"
  "vigil_inv heap (publish_held_regions v) = vigil_inv heap v" "vg_cache (publish_held_regions v) = vg_cache v"
  "vg_tx_log (publish_held_regions v) = vg_tx_log v" "vg_step (publish_held_regions v) = vg_step v"
  "vg_bg_active (publish_held_regions v) = vg_bg_active v"
  by (simp_all add: outside_kept_def holders_def replays_def vigil_inv_def publish_held_regions_def aligning_def)

lemma ctx_step_outside: "ctx_step v v' \<Longrightarrow> outside_kept v v'"
  by (simp add: outside_kept_def ctx_stepD)

lemma outside_kept_trans: "outside_kept v1 v2 \<Longrightarrow> outside_kept v2 v3 \<Longrightarrow> outside_kept v1 v3"
  by (simp add: outside_kept_def)

lemma cache_insert_holders:
  assumes "vg_cache_insert env (Some a) v = ok v'" "core_inv (env_heap env) v"
  shows "cached (vg_cache v') \<subseteq> insert a (cached (vg_cache v))"
  using cache_insert_cached [of "vg_cache v" "env_heap env" a "vg_cache v'"] vg_cache_insert_ok(5) [OF assms]
    cache_reach_inv assms(2) by (auto simp: core_inv_def)

text \<open>The first part of the recovery: a published region that was not read goes to the cache, the walk is given up,
  and the active region goes to the cache.\<close>

lemma divergence_prologue:
  assumes "core_inv (env_heap env) v" "is_compiled v"
  obtains v1 v2 where
    "(case vg_pending v of None \<Rightarrow> ok v | Some stale \<Rightarrow> vg_cache_insert env (Some stale) (v\<lparr>vg_pending := None\<rparr>)) = ok v1"
    "vg_cache_insert env (vg_region v1) (v1\<lparr>vg_activation := None, vg_alignment := 0\<rparr>) = ok v2"
    "core_inv (env_heap env) v2" "outside_kept v v2" "vg_world v2 = vg_world v" "vg_region v2 = vg_region v"
    "vg_pending v2 = None" "vg_activation v2 = None" "vg_mode v2 = vg_mode v" "holders v2 \<subseteq> holders v \<union> set_option (vg_pending v)"
proof -
  have total: "\<exists>v'. vg_cache_insert env (Some a) u = ok v'" for a u
    using cache_insert_total [of "env_heap env" a "vg_cache u"] by (auto simp: vg_cache_insert_def)
  obtain a where a: "vg_region v = Some a" using assms compiled_iff_region by auto
  obtain v1 where v1: "(case vg_pending v of None \<Rightarrow> ok v | Some stale \<Rightarrow> vg_cache_insert env (Some stale) (v\<lparr>vg_pending := None\<rparr>)) = ok v1"
    using total by (cases "vg_pending v") auto
  have A: "core_inv (env_heap env) v1 \<and> outside_kept v v1 \<and> vg_world v1 = vg_world v \<and> vg_region v1 = vg_region v \<and>
      vg_pending v1 = None \<and> vg_mode v1 = vg_mode v \<and> cached (vg_cache v1) \<subseteq> cached (vg_cache v) \<union> set_option (vg_pending v)"
  proof (cases "vg_pending v")
    case (Some stale)
    then have ins: "vg_cache_insert env (Some stale) (v\<lparr>vg_pending := None\<rparr>) = ok v1" using v1 by simp
    have core: "core_inv (env_heap env) (v\<lparr>vg_pending := None\<rparr>)" using assms(1) by simp
    note I = vg_cache_insert_ok [OF ins core]
    show ?thesis using I(1,3,4) ctx_stepD [OF I(2)] cache_insert_holders [OF ins core] Some by (auto simp: outside_kept_def)
  qed (use v1 assms(1) in \<open>simp add: outside_kept_def\<close>)
  let ?u = "v1\<lparr>vg_activation := None, vg_alignment := 0\<rparr>"
  obtain v2 where v2: "vg_cache_insert env (vg_region v1) ?u = ok v2" using total [of a ?u] A a by auto
  have core: "core_inv (env_heap env) ?u" using A by simp
  note I = vg_cache_insert_ok [OF v2 core]
  have ins: "vg_cache_insert env (Some a) ?u = ok v2" using v2 A a by simp
  show thesis
    by (rule that [OF v1 v2 I(1)])
      (use A a I(3,4) ctx_stepD [OF I(2)] cache_insert_holders [OF ins core] in \<open>auto simp: outside_kept_def holders_def\<close>)
qed

text \<open>Behind a switch the next operation of the alternate has the guards that diverged, so the retry is never refused.\<close>

lemma vg_advance_matches:
  assumes "vg_advance schema shape v = ok (st, v')" "core_inv heap v" "vg_region v = Some a"
    and "op_guards (rg_ops (heap a)) ! re_cursor (cc_engine (cw_ctx (vg_world v))) = (schema, shape)"
  shows "st \<noteq> DIVERGED"
proof -
  let ?c = "cw_ctx (vg_world v)"
  obtain c where c: "ctx_advance schema shape ?c = ok (st, c)" using assms(1) by (auto simp: vg_advance_def and_then_ok)
  note F = ctx_advance_frame [OF c]
  have r: "engine_inv (rg_ops (heap a)) (cc_engine ?c)"
    "rg_ops (heap a) \<noteq> [] \<Longrightarrow> re_cursor (cc_engine ?c) < length (rg_ops (heap a))"
    using assms(2,3) F(4) by (auto simp: core_inv_def ctx_ok_def)
  obtain e where e: "advance schema shape (cc_engine ?c) = ok (st, e)" using F(5) by blast
  have ne: "rg_ops (heap a) \<noteq> []" using e r(1) by (auto simp: advance_def engine_inv_def)
  show ?thesis using advance_cases [OF r(1) r(2) [OF ne], of schema shape] e assms(4) by auto
qed

lemma fall_back_ok:
  assumes "core_inv heap v" "vg_activation v = None" "fall_back v = (d, v')"
  shows "vigil_inv heap v'" "vg_held v' = held_cells v'" "outside_kept v v'" "\<not> is_compiled v'" "vg_pending v' = vg_pending v"
    "vg_activation v' = None" "vg_reset_requested v'" "dr_action d = DA_RECORD" "dr_status d = DIVERGED" "holders v' \<subseteq> holders v"
proof -
  let ?v = "if is_compiled v then vg_deactivate v else v"
  have d: "d = \<lparr>dr_action = DA_RECORD, dr_status = DIVERGED, dr_op_index = id_none\<rparr>"
    and v': "v' = publish_held_regions (?v\<lparr>vg_mode := VM_RECORDING, vg_reset_requested := True\<rparr>)"
    using assms(3) by (simp_all add: fall_back_def Let_def)
  have A: "core_inv heap ?v" "ctx_step v ?v" "\<not> is_compiled ?v" "vg_cache ?v = vg_cache v" "set_option (vg_region ?v) \<subseteq> set_option (vg_region v)"
    using assms(1) vg_deactivate_ok [OF assms(1)] by (auto simp: vg_deactivate_def)
  show "vigil_inv heap v'" "vg_held v' = held_cells v'" "outside_kept v v'" "\<not> is_compiled v'" "vg_pending v' = vg_pending v"
    "vg_activation v' = None" "vg_reset_requested v'" "dr_action d = DA_RECORD" "dr_status d = DIVERGED" "holders v' \<subseteq> holders v"
    using A(1,3-5) ctx_stepD [OF A(2)] assms(2) v' d
    by (simp_all add: vigil_inv_def aligning_def outside_kept_def holders_def publish_held_regions_def held_cells_def) auto
qed

lemma handle_divergence_ok:
  assumes "handle_divergence env schema shape v = ok (d, v')" "core_inv (env_heap env) v" "is_compiled v" "vg_mode v = VM_COMPILED"
  shows "vigil_inv (env_heap env) v' \<and> vg_held v' = held_cells v' \<and> outside_kept v v' \<and> vg_pending v' = None \<and>
    vg_activation v' = None \<and> holders v' \<subseteq> holders v \<union> set_option (vg_pending v) \<and>
    (dr_action d = DA_COMPILED \<and> dr_status d \<noteq> DIVERGED \<and> is_compiled v' \<and> replays schema shape v' \<and> vg_region v' \<noteq> vg_region v \<or>
     dr_action d = DA_RECORD \<and> dr_status d = DIVERGED \<and> \<not> is_compiled v' \<and> vg_reset_requested v')"
proof -
  let ?d = "re_cursor (cc_engine (cw_ctx (vg_world v)))"
  obtain v1 v2 where P:
    "(case vg_pending v of None \<Rightarrow> ok v | Some stale \<Rightarrow> vg_cache_insert env (Some stale) (v\<lparr>vg_pending := None\<rparr>)) = ok v1"
    "vg_cache_insert env (vg_region v1) (v1\<lparr>vg_activation := None, vg_alignment := 0\<rparr>) = ok v2"
    and Q: "core_inv (env_heap env) v2" "outside_kept v v2" "vg_world v2 = vg_world v" "vg_region v2 = vg_region v"
    "vg_pending v2 = None" "vg_activation v2 = None" "vg_mode v2 = vg_mode v" "holders v2 \<subseteq> holders v \<union> set_option (vg_pending v)"
    by (rule divergence_prologue [OF assms(2,3)])
  have run: "(case find_alternate (env_heap env) ?d schema shape (vg_region v2) (vg_cache v2) of
       None \<Rightarrow> ok (fall_back v2)
     | Some alt \<Rightarrow> and_then (try_switch_region env alt ?d v2) (\<lambda>(b, v3).
           if \<not> b then ok (fall_back v3)
           else and_then (vg_advance schema shape v3) (\<lambda>(st, v4).
             if st \<noteq> DIVERGED
             then ok (\<lparr>dr_action = DA_COMPILED, dr_status = st,
                        dr_op_index = word_of_nat (re_cursor (cc_engine (cw_ctx (vg_world v4))))\<rparr>, publish_held_regions v4)
             else ok (fall_back v4)))) = ok (d, v')"
    using assms(1) P by (simp add: handle_divergence_def Let_def)
  have fb: ?thesis if "fall_back v2 = (d, v')"
    using fall_back_ok [OF Q(1,6) that] Q(2,5,8) outside_kept_trans by auto
  show ?thesis
  proof (cases "find_alternate (env_heap env) ?d schema shape (vg_region v2) (vg_cache v2)")
    case None
    then show ?thesis using run fb by simp
  next
    case (Some alt)
    then obtain b v3 where sw: "try_switch_region env alt ?d v2 = ok (b, v3)" using run by (auto simp: and_then_ok)
    have "cache_reach (env_heap env) (vg_cache v2)" using Q(1) by (simp add: core_inv_def)
    note alt = find_alternate_sound [OF this Some]
    note S = try_switch_region_ok [OF sw Q(1) alt(3)]
    show ?thesis
    proof (cases b)
      case False
      then show ?thesis using run fb S(4) sw Some by simp
    next
      case True
      then obtain st v4 where adv: "vg_advance schema shape v3 = ok (st, v4)" using run sw Some by (auto simp: and_then_ok)
      have v3: "is_compiled v3" "vg_region v3 = Some alt" "re_cursor (cc_engine (cw_ctx (vg_world v3))) = ?d" using S(3) True by auto
      have "op_guards (rg_ops (env_heap env alt)) ! ?d = (schema, shape)" using alt(3-5) by (simp add: op_guards_def)
      then have st: "st \<noteq> DIVERGED" using vg_advance_matches [OF adv S(1) v3(2)] v3(3) by simp
      note A = vg_advance_ok [OF adv S(1)]
      have v': "v' = publish_held_regions v4" and d: "dr_action d = DA_COMPILED" "dr_status d = st"
        using run sw Some True adv st by auto
      have step: "ctx_step v2 v4" using S(2) A(2) ctx_step_trans by blast
      have "alt \<in> holders v2" using alt(6) by (force simp: holders_def cached_def)
      then have hold: "holders v' \<subseteq> holders v2"
        using v' ctx_stepD [OF step] Q(6) A(3,4) S(5) v3(2) by (auto simp: holders_def)
      show ?thesis
        using vg_advance_replays [OF adv S(1) st] A(1,4,5) ctx_stepD [OF step] v' d st hold Q v3(2) alt(1) assms(4)
        by (auto simp: vigil_inv_def aligning_def outside_kept_def replays_def)
    qed
  qed
qed


section \<open>The other operations\<close>

lemma assert_producer_ok:
  assumes "assert_producer_thread tid v = ok v'"
  shows "v' = v\<lparr>vg_claim := Some tid\<rparr>" "is_producer_thread tid v"
  using assms by (auto simp: assert_producer_thread_def is_producer_thread_def split: option.splits if_splits)

lemma assert_producer_returns: "is_producer_thread tid v \<Longrightarrow> assert_producer_thread tid v = ok (v\<lparr>vg_claim := Some tid\<rparr>)"
  by (cases v) (auto simp: assert_producer_thread_def is_producer_thread_def)

lemma fields_inv [simp]:
  "vigil_inv heap (v\<lparr>vg_claim := p\<rparr>) = vigil_inv heap v" "held_cells (v\<lparr>vg_claim := p\<rparr>) = held_cells v"
  "holders (v\<lparr>vg_claim := p\<rparr>) = holders v" "vigil_inv heap (v\<lparr>vg_meta_log := l, vg_ring := r\<rparr>) = vigil_inv heap v"
  "held_cells (v\<lparr>vg_meta_log := l, vg_ring := r\<rparr>) = held_cells v" "holders (v\<lparr>vg_meta_log := l, vg_ring := r\<rparr>) = holders v"
  "vigil_inv heap (v\<lparr>vg_pending := q\<rparr>) = vigil_inv heap v" "held_cells (v\<lparr>vg_pending := q\<rparr>) = held_cells v"
  "vigil_inv heap (v\<lparr>vg_tx_log := t\<rparr>) = vigil_inv heap v" "held_cells (v\<lparr>vg_tx_log := t\<rparr>) = held_cells v"
  "vigil_inv heap (v\<lparr>vg_step := g\<rparr>) = vigil_inv heap v" "held_cells (v\<lparr>vg_step := g\<rparr>) = held_cells v"
  by (simp_all add: vigil_inv_def aligning_def held_cells_def holders_def)

lemma record_op_ok:
  assumes "record_op tid entry metas scope_hash callsite_hash v = ok (b, v')"
  shows "\<exists>l r. v' = v\<lparr>vg_claim := Some tid, vg_meta_log := l, vg_ring := r\<rparr>"
  using assms by (auto simp: record_op_def and_then_ok dest!: assert_producer_ok(1))

lemma consume_pending_ok:
  assumes "consume_pending_region env v = ok v'" "vigil_inv (env_heap env) v"
  shows "vigil_inv (env_heap env) v'" "outside_kept v v'" "holders v' \<subseteq> holders v \<union> set_option (vg_pending v)"
    "is_compiled v' = is_compiled v" "vg_pending v' = None"
  using assms
  by (auto simp: consume_pending_region_def Let_def alignment_pos_at_def vigil_inv_def aligning_def outside_kept_def holders_def
      alignment_threshold_def ALIGNMENT_K_def split: option.splits if_splits)

lemma make_active_ok:
  assumes "make_active env c a v = ok v'" "vigil_inv (env_heap env) v"
  shows "vigil_inv (env_heap env) v' \<and> vg_ring v' = vg_ring v \<and> vg_meta_log v' = vg_meta_log v \<and>
    vg_tx_log v' = vg_tx_log v \<and> holders v' \<subseteq> insert a (holders v)"
proof -
  let ?v = "v\<lparr>vg_bg_active := Some a\<rparr>"
  have core: "core_inv (env_heap env) ?v" using assms(2) by (simp add: vigil_inv_def)
  obtain b v1 where v1: "vg_activate env a ?v = ok (b, v1)" using assms(1) by (auto simp: make_active_def and_then_ok)
  note A = vg_activate_ok [OF v1 core]
  show ?thesis
  proof (cases b)
    case False
    then show ?thesis using assms v1 A(4) by (auto simp: make_active_def vigil_inv_def aligning_def holders_def)
  next
    case True
    then obtain v2 v3 where v2: "register_externals_from_region env a v1 = ok v2"
      and v3: "(if c then vg_cache_insert env (Some a) v2 else ok v2) = ok v3" "v' = v3\<lparr>vg_mode := VM_COMPILED\<rparr>"
      using assms(1) v1 by (auto simp: make_active_def and_then_ok)
    note R = register_from_region_ok [OF v2 A(1)]
    have B: "core_inv (env_heap env) v3 \<and> ctx_step v2 v3 \<and> vg_world v3 = vg_world v2 \<and> vg_region v3 = vg_region v2 \<and>
        cached (vg_cache v3) \<subseteq> insert a (cached (vg_cache v2))"
      using v3(1) R(1) vg_cache_insert_ok [of env "Some a" v2 v3] cache_insert_holders [of env a v2 v3] by (cases c) auto
    have "ctx_step ?v v3" using A(2) R(2) B ctx_step_trans by blast
    note S = ctx_stepD [OF this]
    have "is_compiled v3" "vg_region v3 = Some a" using A(5) True R(4,5) B by (auto simp: is_compiled_def)
    then show ?thesis using S B R(3) A(3) v3(2) assms(2) by (auto simp: vigil_inv_def aligning_def holders_def)
  qed
qed

lemma dispatch_transition_ok:
  assumes "dispatch_transition env tid entry metas scope_hash callsite_hash v = ok (d, v')" "vigil_inv (env_heap env) v"
  shows "vigil_inv (env_heap env) v'" "vg_held v' = held_cells v'" "holders v' \<subseteq> holders v \<union> set_option (vg_pending v)"
    "vg_pending v' = None" "dr_action d = DA_RECORD" "dr_status d = MATCH"
proof -
  obtain v1 where v1: "(if vg_pending v \<noteq> None then consume_pending_region env v else ok v) = ok v1"
    using assms(1) by (auto simp: dispatch_transition_def and_then_ok)
  have A: "vigil_inv (env_heap env) v1" "holders v1 \<subseteq> holders v \<union> set_option (vg_pending v)" "vg_pending v1 = None"
    using v1 consume_pending_ok [of env v v1] assms(2) by (auto split: if_splits)
  obtain v3 where v3: "(case vg_activation v1 of
        Some a \<Rightarrow> try_align env a (en_schema_hash entry) (en_shape_hash entry) v1
      | None \<Rightarrow> and_then (record_op tid entry metas scope_hash callsite_hash v1) (\<lambda>(b, v2). ok v2)) = ok v3"
    and v': "v' = publish_held_regions v3" and d: "d = \<lparr>dr_action = DA_RECORD, dr_status = MATCH, dr_op_index = id_none\<rparr>"
    using assms(1) v1 by (auto simp: dispatch_transition_def and_then_ok)
  have B: "vigil_inv (env_heap env) v3 \<and> holders v3 \<subseteq> holders v1 \<and> vg_pending v3 = None"
  proof (cases "vg_activation v1")
    case None
    then obtain b where "record_op tid entry metas scope_hash callsite_hash v1 = ok (b, v3)" using v3 by (auto simp: and_then_ok)
    then show ?thesis using record_op_ok A by fastforce
  next
    case (Some a)
    then have "try_align env a (en_schema_hash entry) (en_shape_hash entry) v1 = ok v3" using v3 by simp
    from try_align_inv [OF this A(1) Some] show ?thesis using A(3) by simp
  qed
  then show "vigil_inv (env_heap env) v'" "vg_held v' = held_cells v'" "holders v' \<subseteq> holders v \<union> set_option (vg_pending v)"
    "vg_pending v' = None" "dr_action d = DA_RECORD" "dr_status d = MATCH" using A(2) v' d by auto
qed


section \<open>Dispatch\<close>

text \<open>What a call of \<^verbatim>\<open>record_op\<close> did, by its result.  It returns true when the entry, with the index of its
  metadata, is stored at the head of the ring and the head moved behind it.  It returns false when the ring was full:
  the operation is dropped, and the ring changes in nothing but the producer's copy of the tail.\<close>

definition record_outcome ::
  "ring_entry \<Rightarrow> tensor_meta list \<Rightarrow> u64 \<Rightarrow> u64 \<Rightarrow> vigil \<Rightarrow> bool \<Rightarrow> vigil \<Rightarrow> bool" where
  "record_outcome entry metas scope_hash callsite_hash v b v' \<longleftrightarrow>
    (\<exists>s. rs_entry s = entry \<and> rs_scope_hash s = scope_hash \<and> rs_callsite_hash s = callsite_hash \<and>
       meta_try_append metas (vg_meta_log v) = ok (rs_meta_start s, vg_meta_log v') \<and>
       (if b then tr_head (vg_ring v') = tr_head (vg_ring v) + 1 \<and> ring_slot_at (vg_ring v') (slot_of (tr_head (vg_ring v))) = s
        else ring_full (tr_head (vg_ring v)) (tr_tail (vg_ring v)) \<and>
          vg_ring v' = (vg_ring v)\<lparr>tr_cached_tail := tr_tail (vg_ring v)\<rparr>))"

lemma record_outcome_cong:
  "vg_ring u = vg_ring v \<Longrightarrow> vg_meta_log u = vg_meta_log v \<Longrightarrow> vg_ring u' = vg_ring v' \<Longrightarrow> vg_meta_log u' = vg_meta_log v' \<Longrightarrow>
    record_outcome entry metas scope_hash callsite_hash u b u' = record_outcome entry metas scope_hash callsite_hash v b v'"
  by (simp only: record_outcome_def)

lemma append_publish_ok:
  assumes "append_publish s r = ok (b, r')"
  shows "b \<and> tr_head r' = tr_head r + 1 \<and> ring_slot_at r' (slot_of (tr_head r)) = s"
  using assms by (auto simp: append_publish_def Let_def succ_publish slot_at_store split: sum.splits if_splits)

lemma try_append_ok:
  assumes "try_append s r = ok (b, r')"
  shows "if b then tr_head r' = tr_head r + 1 \<and> ring_slot_at r' (slot_of (tr_head r)) = s
    else ring_full (tr_head r) (tr_tail r) \<and> r' = r\<lparr>tr_cached_tail := tr_tail r\<rparr>"
  using assms append_publish_ok [of s r b r'] append_publish_ok [of s "r\<lparr>tr_cached_tail := tr_tail r\<rparr>" b r']
  by (auto simp: try_append_def Let_def advance_monotonic_def split: if_splits)

lemma record_op_outcome:
  assumes "record_op tid entry metas scope_hash callsite_hash v = ok (b, v')"
  shows "record_outcome entry metas scope_hash callsite_hash v b v'"
proof -
  have none: "meta_try_append [] l = ok (id_none, l)" for l
    by (simp add: meta_try_append_def)
  obtain u where "assert_producer_thread tid v = ok u"
    using assms by (auto simp: record_op_def and_then_ok)
  from assert_producer_ok(1) [OF this] this obtain i l r where
    "meta_try_append metas (vg_meta_log v) = ok (i, l)"
    "try_append \<lparr>rs_entry = entry, rs_meta_start = i, rs_scope_hash = scope_hash, rs_callsite_hash = callsite_hash\<rparr> (vg_ring v) = ok (b, r)"
    "vg_meta_log v' = l" "vg_ring v' = r"
    using assms by (auto simp: record_op_def and_then_ok none split: if_splits)
  then show ?thesis
    unfolding record_outcome_def using try_append_ok
    by (intro exI [of _ "\<lparr>rs_entry = entry, rs_meta_start = i, rs_scope_hash = scope_hash, rs_callsite_hash = callsite_hash\<rparr>"]) auto
qed

text \<open>What a dispatch did, by its answer.\<close>

definition dispatch_effect ::
  "nat \<Rightarrow> ring_entry \<Rightarrow> tensor_meta list \<Rightarrow> u64 \<Rightarrow> u64 \<Rightarrow> vigil \<Rightarrow> dispatch_result \<Rightarrow> vigil \<Rightarrow> bool" where
  "dispatch_effect tid entry metas scope_hash callsite_hash v d v' \<longleftrightarrow>
    (let unrecorded = vg_ring v' = vg_ring v \<and> vg_meta_log v' = vg_meta_log v in
     case dr_action d of
       DA_COMPILED \<Rightarrow> is_compiled v \<and> is_compiled v' \<and> dr_status d \<noteq> DIVERGED \<and> unrecorded \<and>
         replays (en_schema_hash entry) (en_shape_hash entry) v'
     | DA_RECORD \<Rightarrow>
         if dr_status d = DIVERGED
         then is_compiled v \<and> \<not> is_compiled v' \<and> unrecorded \<and> vg_reset_requested v' \<and> vg_pending v' = None \<and> vg_activation v' = None
         else \<not> is_compiled v \<and> dr_status d = MATCH \<and>
           (unrecorded \<and> (vg_pending v \<noteq> None \<or> vg_activation v \<noteq> None) \<or>
            \<not> is_compiled v' \<and> (\<exists>b w. record_op tid entry metas scope_hash callsite_hash v = ok (b, w) \<and>
               vg_ring v' = vg_ring w \<and> vg_meta_log v' = vg_meta_log w \<and>
               record_outcome entry metas scope_hash callsite_hash v b v')))"

lemma record_op_same:
  assumes "record_op tid entry metas scope_hash callsite_hash u = ok (b, w)" "vg_ring u = vg_ring v" "vg_meta_log u = vg_meta_log v"
    "is_producer_thread tid v"
  shows "\<exists>w'. record_op tid entry metas scope_hash callsite_hash v = ok (b, w') \<and> vg_ring w = vg_ring w' \<and> vg_meta_log w = vg_meta_log w' \<and>
    record_outcome entry metas scope_hash callsite_hash v b w"
proof -
  have "record_outcome entry metas scope_hash callsite_hash v b w"
    using record_op_outcome [OF assms(1)] record_outcome_cong [OF assms(2,3) refl refl] by blast
  moreover have "assert_producer_thread tid u = ok (u\<lparr>vg_claim := Some tid\<rparr>)"
    using assms(1) by (auto simp: record_op_def and_then_ok dest: assert_producer_ok)
  then have "\<exists>w'. record_op tid entry metas scope_hash callsite_hash v = ok (b, w') \<and> vg_ring w = vg_ring w' \<and> vg_meta_log w = vg_meta_log w'"
    using assms by (auto simp: record_op_def assert_producer_returns and_then_ok split: if_splits)
  ultimately show ?thesis by blast
qed

lemma dispatch_transition_effect:
  assumes "dispatch_transition env tid entry metas scope_hash callsite_hash v = ok (d, v')" "vigil_inv (env_heap env) v"
    "\<not> is_compiled v" "vg_pending v \<noteq> None \<or> vg_activation v \<noteq> None" "is_producer_thread tid v"
  shows "dispatch_effect tid entry metas scope_hash callsite_hash v d v'"
proof -
  obtain v1 where v1: "(if vg_pending v \<noteq> None then consume_pending_region env v else ok v) = ok v1"
    using assms(1) by (auto simp: dispatch_transition_def and_then_ok)
  have A: "vigil_inv (env_heap env) v1" "outside_kept v v1" "is_compiled v1 = is_compiled v"
    using v1 consume_pending_ok [of env v v1] assms(2) by (auto simp: outside_kept_def split: if_splits)
  note D = dispatch_transition_ok(5,6) [OF assms(1,2)]
  show ?thesis
  proof (cases "vg_activation v1")
    case None
    then obtain b v3 where v3: "record_op tid entry metas scope_hash callsite_hash v1 = ok (b, v3)" "v' = publish_held_regions v3"
      using assms(1) v1 by (auto simp: dispatch_transition_def and_then_ok)
    have "\<not> is_compiled v3" using record_op_ok [OF v3(1)] A(3) assms(3) by auto
    moreover have "\<exists>w. record_op tid entry metas scope_hash callsite_hash v = ok (b, w) \<and> vg_ring v3 = vg_ring w \<and> vg_meta_log v3 = vg_meta_log w \<and>
      record_outcome entry metas scope_hash callsite_hash v b v3"
      using record_op_same [OF v3(1), of v] A(2) assms(5) by (auto simp: outside_kept_def)
    moreover have "record_outcome entry metas scope_hash callsite_hash v b (publish_held_regions v3)
        = record_outcome entry metas scope_hash callsite_hash v b v3"
      by (intro record_outcome_cong) (simp_all add: publish_held_regions_def)
    ultimately show ?thesis using D v3(2) assms(3) by (auto simp: dispatch_effect_def publish_held_regions_def)
  next
    case (Some a)
    then obtain v3 where v3: "try_align env a (en_schema_hash entry) (en_shape_hash entry) v1 = ok v3" "v' = publish_held_regions v3"
      using assms(1) v1 by (auto simp: dispatch_transition_def and_then_ok)
    then show ?thesis
      using try_align_inv(2,3) [OF v3(1) A(1) Some] D A(2) assms(3,4) by (auto simp: dispatch_effect_def outside_kept_def)
  qed
qed

lemma dispatch_op_ok:
  assumes "dispatch_op env tid entry metas scope_hash callsite_hash v = ok (d, v')" "vigil_inv (env_heap env) v"
    "vg_held v = held_cells v"
  shows "vigil_inv (env_heap env) v' \<and> vg_held v' = held_cells v' \<and> holders v' \<subseteq> holders v \<union> set_option (vg_pending v) \<and>
    dispatch_effect tid entry metas scope_hash callsite_hash v d v'"
proof -
  let ?v = "v\<lparr>vg_claim := Some tid\<rparr>" and ?s = "en_schema_hash entry" and ?h = "en_shape_hash entry"
  obtain u where u: "assert_producer_thread tid v = ok u" using assms(1) by (auto simp: dispatch_op_def and_then_ok)
  have prod: "is_producer_thread tid v" "assert_producer_thread tid v = ok ?v" using assert_producer_ok [OF u] u by auto
  have inv: "vigil_inv (env_heap env) ?v" "core_inv (env_heap env) ?v" using assms(2) by (simp, simp add: vigil_inv_def)
  have claim: "is_producer_thread tid ?v" by (simp add: is_producer_thread_def)
  have "record_outcome entry metas scope_hash callsite_hash ?v b v' = record_outcome entry metas scope_hash callsite_hash v b v'" for b
    by (rule record_outcome_cong) simp_all
  then have same: "dispatch_effect tid entry metas scope_hash callsite_hash ?v d v' \<Longrightarrow> dispatch_effect tid entry metas scope_hash callsite_hash v d v'"
    using record_op_same [of tid entry metas scope_hash callsite_hash ?v _ _ v] prod(1)
    by (fastforce simp: dispatch_effect_def Let_def split: dispatch_action.splits if_splits)
  consider (replay) "is_compiled v" | (walk) "\<not> is_compiled v" "vg_pending v \<noteq> None \<or> vg_activation v \<noteq> None"
    | (plain) "\<not> is_compiled v" "vg_pending v = None" "vg_activation v = None" by blast
  then show ?thesis
  proof cases
    case replay
    then obtain st v1 where v1: "vg_advance ?s ?h ?v = ok (st, v1)" using assms(1) prod by (auto simp: dispatch_op_def and_then_ok)
    note A = vg_advance_ok [OF v1 inv(2)]
    note S = ctx_stepD [OF A(2)]
    show ?thesis
    proof (cases "st = DIVERGED")
      case True
      then have "handle_divergence env ?s ?h v1 = ok (d, v')" using assms(1) prod v1 replay by (simp add: dispatch_op_def)
      from handle_divergence_ok [OF this A(1,5)] show ?thesis
        using S A(3,4) replay assms(2) by (auto simp: dispatch_effect_def outside_kept_def holders_def vigil_inv_def)
    next
      case False
      then have "d = \<lparr>dr_action = DA_COMPILED, dr_status = st, dr_op_index = id_none\<rparr>" "v' = v1"
        using assms(1) prod v1 replay by (auto simp: dispatch_op_def)
      then show ?thesis
        using S A vg_advance_replays [OF v1 inv(2) False] replay assms(2,3) False
        by (auto simp: dispatch_effect_def vigil_inv_def aligning_def holders_def held_cells_def)
    qed
  next
    case walk
    then have t: "dispatch_transition env tid entry metas scope_hash callsite_hash ?v = ok (d, v')"
      using assms(1) prod by (simp add: dispatch_op_def)
    show ?thesis
      using dispatch_transition_ok [OF t inv(1)] same [OF dispatch_transition_effect [OF t inv(1) _ _ claim]] walk by auto
  next
    case plain
    then obtain b where r: "record_op tid entry metas scope_hash callsite_hash ?v = ok (b, v')"
      and d: "d = \<lparr>dr_action = DA_RECORD, dr_status = MATCH, dr_op_index = id_none\<rparr>"
      using assms(1) prod by (auto simp: dispatch_op_def and_then_ok)
    obtain l q where v': "v' = v\<lparr>vg_claim := Some tid, vg_meta_log := l, vg_ring := q\<rparr>" using record_op_ok [OF r] by auto
    have "dispatch_effect tid entry metas scope_hash callsite_hash ?v d v'"
      using r d v' plain(1) record_op_outcome [OF r] by (auto simp: dispatch_effect_def)
    then show ?thesis using same v' assms(2,3) by auto
  qed
qed


section \<open>Reachable states\<close>

text \<open>The foreground and the background thread take turns.  Between the operations of the foreground the background
  thread drains the ring and the metadata log and takes the reset signal, and kernels write the memory.  Regions do
  not change once they are published.\<close>

inductive vigil_reachable :: "region_heap \<Rightarrow> vigil \<Rightarrow> bool" for heap :: region_heap where
  start: "vigil_reachable heap (fresh_vigil reg mem r l)"
| dispatch: "vigil_reachable heap v \<Longrightarrow> env_heap env = heap \<Longrightarrow>
    dispatch_op env tid entry metas scope_hash callsite_hash v = ok (d, v') \<Longrightarrow> vigil_reachable heap v'"
| recorded: "vigil_reachable heap v \<Longrightarrow> record_op tid entry metas scope_hash callsite_hash v = ok (b, v') \<Longrightarrow> vigil_reachable heap v'"
| ready: "vigil_reachable heap v \<Longrightarrow> env_heap env = heap \<Longrightarrow> on_region_ready env reading a root v = ok v' \<Longrightarrow> vigil_reachable heap v'"
| rolled_back: "vigil_reachable heap v \<Longrightarrow> env_heap env = heap \<Longrightarrow> vg_rollback env tid reading1 reading2 v = ok (b, v') \<Longrightarrow>
    vigil_reachable heap v'"
| loaded: "vigil_reachable heap v \<Longrightarrow> env_heap env = heap \<Longrightarrow> vg_load env tid rg v = ok (b, v') \<Longrightarrow> vigil_reachable heap v'"
| external: "vigil_reachable heap v \<Longrightarrow> vg_register_external sid ptr v = ok v' \<Longrightarrow> vigil_reachable heap v'"
| drained: "vigil_reachable heap v \<Longrightarrow> vigil_reachable heap (v\<lparr>vg_ring := r, vg_meta_log := l, vg_reset_requested := b\<rparr>)"
| kernel: "vigil_reachable heap v \<Longrightarrow> vigil_reachable heap (v\<lparr>vg_world := (vg_world v)\<lparr>cw_mem := mem\<rparr>\<rparr>)"

lemma deactivated_inv:
  assumes "vigil_inv heap v"
  shows "vigil_inv heap ((if is_compiled v then vg_deactivate v else v)\<lparr>vg_mode := VM_RECORDING\<rparr>)"
  using assms vg_deactivate_ok [of heap v] ctx_stepD(2,3) [of v "vg_deactivate v"] by (auto simp: vigil_inv_def aligning_def)

lemma vg_rollback_ok:
  assumes "vg_rollback env tid reading1 reading2 v = ok (b, v')" "vigil_inv (env_heap env) v" "vg_held v = held_cells v"
  shows "vigil_inv (env_heap env) v' \<and> vg_held v' = held_cells v'"
proof -
  obtain one l where l: "tx_rollback reading1 reading2 (vg_tx_log v) = (one, l)" by fastforce
  define restored where "restored = (case tl_active l of None \<Rightarrow> None | Some s \<Rightarrow> tx_region (tl_slots l ! s))"
  show ?thesis
  proof (cases one)
    case False
    then show ?thesis using assms l by (auto simp: vg_rollback_def Let_def)
  next
    case True
    then obtain v2 v4 where v2: "assert_producer_thread tid (v\<lparr>vg_tx_log := l\<rparr>) = ok v2"
      and v4: "(case restored of None \<Rightarrow> ok ((if is_compiled v2 then vg_deactivate v2 else v2)\<lparr>vg_mode := VM_RECORDING\<rparr>)
        | Some a \<Rightarrow> make_active env False a ((if is_compiled v2 then vg_deactivate v2 else v2)\<lparr>vg_mode := VM_RECORDING\<rparr>)) = ok v4"
        "v' = publish_held_regions v4"
      using assms(1) l by (auto simp: vg_rollback_def Let_def and_then_ok restored_def)
    have "vigil_inv (env_heap env) v2" using assert_producer_ok(1) [OF v2] assms(2) by simp
    then have "vigil_inv (env_heap env) v4"
      using v4(1) deactivated_inv [of "env_heap env" v2] make_active_ok [of env False _ _ v4] by (auto split: option.splits)
    then show ?thesis using v4(2) by simp
  qed
qed

lemma vg_load_ok:
  assumes "vg_load env tid rg v = ok (b, v')" "vigil_inv (env_heap env) v" "vg_held v = held_cells v"
  shows "vigil_inv (env_heap env) v' \<and> vg_held v' = held_cells v'"
proof (cases rg)
  case (Some a)
  then obtain v1 v2 where v1: "assert_producer_thread tid v = ok v1" "make_active env True a v1 = ok v2" "v' = publish_held_regions v2"
    using assms(1) by (auto simp: vg_load_def and_then_ok)
  then show ?thesis using assert_producer_ok(1) [OF v1(1)] make_active_ok [OF v1(2)] assms(2) by simp
qed (use assms in \<open>simp add: vg_load_def\<close>)

lemma vg_register_external_inv:
  assumes "vg_register_external sid ptr v = ok v'" "vigil_inv heap v" "vg_held v = held_cells v"
  shows "vigil_inv heap v' \<and> vg_held v' = held_cells v'"
proof -
  obtain c where c: "ctx_register_external sid ptr (cw_ctx (vg_world v)) = ok c" "v' = v\<lparr>vg_world := (vg_world v)\<lparr>cw_ctx := c\<rparr>\<rparr>"
    using assms(1) by (auto simp: vg_register_external_def and_then_ok split: if_splits)
  have "ctx_ok c" using ctx_register_external_ok [OF c(1)] assms(2) by (simp add: vigil_inv_def core_inv_def)
  moreover have "cc_mode c = cc_mode (cw_ctx (vg_world v))" "cc_active c = cc_active (cw_ctx (vg_world v))"
    using c(1) by (auto simp: ctx_register_external_def and_then_ok)
  ultimately show ?thesis using assms c(2) by (simp add: vigil_inv_def core_inv_def aligning_def is_compiled_def held_cells_def)
qed

lemma fresh_vigil_inv: "vigil_inv heap (fresh_vigil reg mem r l) \<and> vg_held (fresh_vigil reg mem r l) = held_cells (fresh_vigil reg mem r l)"
proof -
  have "map (\<lambda>age. region_at age empty_cache) [0..<cache_cap] = replicate cache_cap None"
    by (simp add: region_at_def empty_cache_def map_replicate_const)
  then show ?thesis
    by (simp add: fresh_vigil_def vigil_inv_def core_inv_def ctx_ok_def aligning_def is_compiled_def fresh_context_def held_cells_def
        cache_reach.intros)
qed

lemma vigil_reachable_ok: "vigil_reachable heap v \<Longrightarrow> vigil_inv heap v \<and> vg_held v = held_cells v"
proof (induction rule: vigil_reachable.induct)
  case (dispatch v env tid entry metas scope_hash callsite_hash d v')
  then show ?case using dispatch_op_ok [OF dispatch.hyps(3)] by simp
next
  case (recorded v tid entry metas scope_hash callsite_hash b v')
  obtain l r where "v' = v\<lparr>vg_claim := Some tid, vg_meta_log := l, vg_ring := r\<rparr>" using record_op_ok [OF recorded.hyps(2)] by auto
  then show ?case using recorded.IH by simp
next
  case (ready v env reading a root v')
  then show ?case by (auto simp: on_region_ready_def and_then_ok)
next
  case (rolled_back v env tid reading1 reading2 b v')
  then show ?case using vg_rollback_ok [OF rolled_back.hyps(3)] by simp
next
  case (loaded v env tid rg b v')
  then show ?case using vg_load_ok [OF loaded.hyps(3)] by simp
next
  case (external v sid ptr v')
  then show ?case using vg_register_external_inv [OF external.hyps(2)] by blast
next
  case (drained v r l b)
  then show ?case by (simp add: vigil_inv_def core_inv_def aligning_def is_compiled_def held_cells_def)
next
  case (kernel v mem)
  then show ?case by (simp add: vigil_inv_def core_inv_def aligning_def is_compiled_def held_cells_def)
qed (simp add: fresh_vigil_inv)


section \<open>Properties\<close>

lemma vg_advance_cases:
  assumes "core_inv heap v" "vg_region v = Some a" "rg_ops (heap a) \<noteq> []"
    and "cc_iterations (cw_ctx (vg_world v)) \<noteq> - 1" "cc_diverged (cw_ctx (vg_world v)) \<noteq> - 1"
  defines "i \<equiv> re_cursor (cc_engine (cw_ctx (vg_world v)))" and "n \<equiv> length (rg_ops (heap a))"
  shows "\<exists>v'. if (schema, shape) = op_guards (rg_ops (heap a)) ! i
    then vg_advance schema shape v = ok (if Suc i = n then COMPLETE else MATCH, v') \<and>
      re_cursor (cc_engine (cw_ctx (vg_world v'))) = Suc i mod n \<and> re_current (cc_engine (cw_ctx (vg_world v'))) = Some i
    else vg_advance schema shape v = ok (DIVERGED, v')"
proof -
  let ?c = "cw_ctx (vg_world v)"
  have comp: "cc_mode ?c = CM_COMPILED" "cc_active ?c = Some (heap a)" "ctx_ok ?c"
    using assms(1,2) compiled_iff_region [OF assms(1)] by (auto simp: core_inv_def is_compiled_def)
  have i: "i < n" using comp assms(3) by (auto simp: ctx_ok_def i_def n_def)
  obtain st c' where c': "ctx_advance schema shape ?c = ok (st, c')"
    "if (schema, shape) = op_guards (rg_ops (heap a)) ! i
     then if Suc i = n then st = COMPLETE \<and> re_cursor (cc_engine c') = 0 else st = MATCH \<and> re_cursor (cc_engine c') = Suc i
     else st = DIVERGED" "st \<noteq> DIVERGED \<longrightarrow> re_current (cc_engine c') = Some i"
    using ctx_advance_cases [OF comp(3,1,2) assms(3-5), of schema shape] unfolding i_def n_def by (auto split: if_splits)
  show ?thesis
    using c' i by (intro exI [of _ "v\<lparr>vg_world := (vg_world v)\<lparr>cw_ctx := c'\<rparr>\<rparr>"]) (auto simp: vg_advance_def split: if_splits)
qed

text \<open>With no other region at hand a divergence always ends in the recording mode.\<close>

lemma divergence_falls_back:
  assumes "core_inv (env_heap env) v" "is_compiled v" "vg_region v = Some a" "holders v \<union> set_option (vg_pending v) \<subseteq> {a}"
  shows "\<exists>d v'. handle_divergence env schema shape v = ok (d, v') \<and> dr_action d = DA_RECORD \<and> dr_status d = DIVERGED"
proof -
  obtain v1 v2 where P:
    "(case vg_pending v of None \<Rightarrow> ok v | Some stale \<Rightarrow> vg_cache_insert env (Some stale) (v\<lparr>vg_pending := None\<rparr>)) = ok v1"
    "vg_cache_insert env (vg_region v1) (v1\<lparr>vg_activation := None, vg_alignment := 0\<rparr>) = ok v2"
    and Q: "core_inv (env_heap env) v2" "vg_region v2 = vg_region v" "holders v2 \<subseteq> holders v \<union> set_option (vg_pending v)"
    by (rule divergence_prologue [OF assms(1,2)])
  have "find_alternate (env_heap env) pos schema shape (vg_region v2) (vg_cache v2) = None" for pos
  proof (cases "find_alternate (env_heap env) pos schema shape (vg_region v2) (vg_cache v2)")
    case (Some b)
    have "cache_reach (env_heap env) (vg_cache v2)" using Q(1) by (simp add: core_inv_def)
    note F = find_alternate_sound(1,6) [OF this Some]
    have "b \<in> holders v2" using F(2) by (force simp: holders_def cached_def)
    then show ?thesis using F(1) Q(2,3) assms(3,4) by auto
  qed
  then show ?thesis using P by (auto simp: handle_divergence_def Let_def fall_back_def)
qed

text \<open>A concrete run: one region of two operations, loaded at address 7.\<close>

definition sample_env :: vigil_env where
  "sample_env = \<lparr>env_heap = (\<lambda>a. shared_region 2), env_alloc = first_alloc, env_calloc = True\<rparr>"

lemma sample_externals: "register_externals_from_region sample_env 7 v = ok v"
  by (simp add: register_externals_from_region_def sample_env_def shared_region_def shared_plan_def shared_slots_def)

lemma sample_heap [simp]: "env_heap sample_env = (\<lambda>a. shared_region 2)" "env_alloc sample_env = first_alloc" "env_calloc sample_env"
  by (simp_all add: sample_env_def)

lemma sample_loaded:
  obtains v where "vg_load sample_env 1 (Some 7) (fresh_vigil [empty_slot] (\<lambda>a. ucast a) r l) = ok (True, v)"
    "vg_region v = Some 7" "re_cursor (cc_engine (cw_ctx (vg_world v))) = 0" "cc_iterations (cw_ctx (vg_world v)) = 0"
    "cc_diverged (cw_ctx (vg_world v)) = 0" "vg_claim v = Some 1"
proof -
  let ?f = "fresh_vigil [empty_slot] (\<lambda>a. ucast a) r l"
  obtain w where w: "activate first_alloc True (Some (shared_region 2)) shared_world = ok (True, w)"
    "re_cursor (cc_engine (cw_ctx w)) = 0" "cc_iterations (cw_ctx w) = 0" "cc_diverged (cw_ctx w) = 0"
    using shared_activate by blast
  have world: "vg_world ?f = shared_world" "vg_claim ?f = None" by (simp_all add: fresh_vigil_def shared_world_def)
  obtain c where c: "cache_insert (\<lambda>a. shared_region 2) (Some 7) (vg_cache ?f) = ok c" using cache_insert_total by blast
  let ?v = "?f\<lparr>vg_claim := Some 1, vg_bg_active := Some 7, vg_world := w, vg_region := Some 7, vg_cache := c, vg_mode := VM_COMPILED\<rparr>"
  have "vg_load sample_env 1 (Some 7) ?f = ok (True, publish_held_regions ?v)"
    using w(1) c world by (simp add: vg_load_def assert_producer_thread_def make_active_def vg_activate_def sample_externals vg_cache_insert_def)
  then show thesis by (rule that) (use w in simp_all)
qed

definition sample_entry :: "u64 \<Rightarrow> u64 \<Rightarrow> ring_entry" where
  "sample_entry schema shape = \<lparr>en_schema_hash = schema, en_shape_hash = shape, en_num_inputs = 0, en_num_outputs = 1,
     en_num_scalar_args = 0, en_scalar_types = 0, en_op_flags = 0, en_scalar_values = []\<rparr>"

lemma sample_ops: "rg_ops (shared_region 2) \<noteq> []" "op_guards (rg_ops (shared_region 2)) = [(1, 10), (2, 20)]"
  "length (rg_ops (shared_region 2)) = 2"
  by (simp_all add: shared_region_def op_guards_def guard_op_def)

lemma sample_reachable:
  assumes "vg_load sample_env 1 (Some 7) (fresh_vigil [empty_slot] (\<lambda>a. ucast a) r l) = ok (True, v)"
  shows "vigil_reachable (\<lambda>a. shared_region 2) v"
  using vigil_reachable.loaded [OF vigil_reachable.start _ assms] by simp

text \<open>The replay branch returns.\<close>

lemma dispatch_replay:
  assumes "vigil_inv (env_heap env) v" "vg_region v = Some a" "rg_ops (env_heap env a) \<noteq> []" "is_producer_thread tid v"
    and "cc_iterations (cw_ctx (vg_world v)) \<noteq> - 1" "cc_diverged (cw_ctx (vg_world v)) \<noteq> - 1"
    and "(en_schema_hash entry, en_shape_hash entry) = op_guards (rg_ops (env_heap env a)) ! re_cursor (cc_engine (cw_ctx (vg_world v)))"
  defines "i \<equiv> re_cursor (cc_engine (cw_ctx (vg_world v)))" and "n \<equiv> length (rg_ops (env_heap env a))"
  shows "\<exists>v'. dispatch_op env tid entry metas scope_hash callsite_hash v
      = ok (\<lparr>dr_action = DA_COMPILED, dr_status = if Suc i = n then COMPLETE else MATCH, dr_op_index = id_none\<rparr>, v') \<and>
    vg_region v' = Some a \<and> re_cursor (cc_engine (cw_ctx (vg_world v'))) = Suc i mod n \<and>
    re_current (cc_engine (cw_ctx (vg_world v'))) = Some i"
proof -
  let ?v = "v\<lparr>vg_claim := Some tid\<rparr>"
  have core: "core_inv (env_heap env) ?v" using assms(1) by (simp add: vigil_inv_def)
  have comp: "is_compiled ?v" using compiled_iff_region [OF core] assms(2) by simp
  obtain v' where v': "vg_advance (en_schema_hash entry) (en_shape_hash entry) ?v = ok (if Suc i = n then COMPLETE else MATCH, v')"
    "re_cursor (cc_engine (cw_ctx (vg_world v'))) = Suc i mod n" "re_current (cc_engine (cw_ctx (vg_world v'))) = Some i"
    using vg_advance_cases [OF core, of a "en_schema_hash entry" "en_shape_hash entry"] assms(2-7) unfolding i_def n_def by auto
  have "vg_region v' = Some a" using vg_advance_ok(4) [OF v'(1) core] assms(2) by simp
  then show ?thesis using v' comp assert_producer_returns [OF assms(4)] by (auto simp: dispatch_op_def)
qed

text \<open>C36.  The state of the foreground is consistent whatever the two threads do.  In every reachable state the
  published mode is the mode of the execution context, the address the foreground keeps names the region the context
  replays, the cells that the background thread reads before it releases regions name exactly the regions the
  foreground holds, and a walk in progress stands before the threshold of a region with operations.\<close>

theorem vigil_invariant:
  assumes "vigil_reachable heap v"
  shows "vg_mode v = (if is_compiled v then VM_COMPILED else VM_RECORDING) \<and>
    cc_active (cw_ctx (vg_world v)) = map_option heap (vg_region v) \<and> (is_compiled v \<longleftrightarrow> vg_region v \<noteq> None) \<and>
    {a. Some a \<in> set (vg_held v)} = set_option (vg_activation v) \<union> set_option (vg_region v) \<union> cached (vg_cache v) \<and>
    (\<forall>a. vg_activation v = Some a \<longrightarrow> rg_ops (heap a) \<noteq> [] \<and> vg_alignment v < alignment_threshold (rg_ops (heap a)))"
proof -
  have inv: "vigil_inv heap v" "vg_held v = held_cells v" using vigil_reachable_ok [OF assms] by auto
  then have core: "core_inv heap v" by (simp add: vigil_inv_def)
  have "cache_wf (vg_cache v)" using core cache_reach_inv by (auto simp: core_inv_def)
  from held_cells_holders [OF this] show ?thesis
    using inv core compiled_iff_region [OF core] by (auto simp: vigil_inv_def aligning_def core_inv_def holders_def)
qed

theorem vigil_invariant_witness:
  "\<exists>v. vigil_reachable (\<lambda>a. shared_region 2) v \<and> vg_mode v = VM_COMPILED \<and>
     cc_active (cw_ctx (vg_world v)) = Some (shared_region 2) \<and> Some 7 \<in> set (vg_held v)"
proof -
  obtain v where v: "vg_load sample_env 1 (Some 7) (fresh_vigil [empty_slot] (\<lambda>a. ucast a) r l) = ok (True, v)" "vg_region v = Some 7"
    by (rule sample_loaded)
  note reach = sample_reachable [OF v(1)]
  show ?thesis using vigil_invariant [OF reach] reach v(2) by (intro exI [of _ v]) auto
qed



text \<open>C38.  A replaying foreground never stops on an operation it can judge.  In every reachable state that replays a
  region with operations, on the producer thread and with counters below their maximum, the dispatch of the next
  operation of the region returns a compiled answer, a completion exactly at the last operation, and moves to the
  operation after it, the first one after the last; the dispatch of any other operation, when no other region is at
  hand, returns the diverged answer and the foreground records.\<close>

theorem dispatch_returns:
  assumes "vigil_reachable (env_heap env) v" "vg_region v = Some a" "rg_ops (env_heap env a) \<noteq> []" "is_producer_thread tid v"
    and "cc_iterations (cw_ctx (vg_world v)) \<noteq> - 1" "cc_diverged (cw_ctx (vg_world v)) \<noteq> - 1"
  defines "i \<equiv> re_cursor (cc_engine (cw_ctx (vg_world v)))" and "n \<equiv> length (rg_ops (env_heap env a))"
  shows "\<exists>d v'. if (en_schema_hash entry, en_shape_hash entry) = op_guards (rg_ops (env_heap env a)) ! i
    then dispatch_op env tid entry metas scope_hash callsite_hash v = ok (d, v') \<and> dr_action d = DA_COMPILED \<and>
      dr_status d = (if Suc i = n then COMPLETE else MATCH) \<and> vg_region v' = Some a \<and>
      re_cursor (cc_engine (cw_ctx (vg_world v'))) = Suc i mod n \<and> re_current (cc_engine (cw_ctx (vg_world v'))) = Some i
    else holders v \<union> set_option (vg_pending v) \<subseteq> {a} \<longrightarrow>
      dispatch_op env tid entry metas scope_hash callsite_hash v = ok (d, v') \<and> dr_action d = DA_RECORD \<and> dr_status d = DIVERGED \<and>
      \<not> is_compiled v' \<and> vg_reset_requested v'"
proof (cases "(en_schema_hash entry, en_shape_hash entry) = op_guards (rg_ops (env_heap env a)) ! i")
  case True
  have inv: "vigil_inv (env_heap env) v" using vigil_reachable_ok [OF assms(1)] by simp
  show ?thesis using dispatch_replay [OF inv assms(2-6), of entry metas scope_hash callsite_hash] True unfolding i_def n_def by auto
next
  case False
  let ?v = "v\<lparr>vg_claim := Some tid\<rparr>" and ?s = "en_schema_hash entry" and ?h = "en_shape_hash entry"
  have core: "core_inv (env_heap env) ?v" and inv: "vigil_inv (env_heap env) v" "vg_held v = held_cells v"
    using vigil_reachable_ok [OF assms(1)] by (auto simp: vigil_inv_def)
  have comp: "is_compiled ?v" using compiled_iff_region [OF core] assms(2) by simp
  obtain v1 where v1: "vg_advance ?s ?h ?v = ok (DIVERGED, v1)"
    using vg_advance_cases [OF core, of a ?s ?h] assms(2-6) False unfolding i_def by auto
  note A = vg_advance_ok [OF v1 core]
  have "\<exists>d v'. dispatch_op env tid entry metas scope_hash callsite_hash v = ok (d, v') \<and> dr_action d = DA_RECORD \<and> dr_status d = DIVERGED \<and>
      \<not> is_compiled v' \<and> vg_reset_requested v'" if h: "holders v \<union> set_option (vg_pending v) \<subseteq> {a}"
  proof -
    have "holders v1 \<union> set_option (vg_pending v1) \<subseteq> {a}" "vg_region v1 = Some a"
      using h ctx_stepD [OF A(2)] A(3,4) assms(2) by (auto simp: holders_def)
    then obtain d v' where d: "handle_divergence env ?s ?h v1 = ok (d, v')" "dr_action d = DA_RECORD" "dr_status d = DIVERGED"
      using divergence_falls_back [OF A(1,5)] by blast
    have run: "dispatch_op env tid entry metas scope_hash callsite_hash v = ok (d, v')"
      using v1 d(1) comp assert_producer_returns [OF assms(4)] by (simp add: dispatch_op_def)
    show ?thesis using dispatch_op_ok [OF run inv] run d(2,3) by (auto simp: dispatch_effect_def)
  qed
  then show ?thesis using False by (cases "holders v \<union> set_option (vg_pending v) \<subseteq> {a}") auto
qed

theorem dispatch_returns_witness:
  "\<exists>v d v'. vigil_reachable (\<lambda>a. shared_region 2) v \<and> dispatch_op sample_env 1 (sample_entry 1 10) [] 0 0 v = ok (d, v') \<and>
     dr_action d = DA_COMPILED \<and> dr_status d = MATCH \<and> re_cursor (cc_engine (cw_ctx (vg_world v'))) = 1"
proof -
  obtain v where v: "vg_load sample_env 1 (Some 7) (fresh_vigil [empty_slot] (\<lambda>a. ucast a) r l) = ok (True, v)" "vg_region v = Some 7"
    "re_cursor (cc_engine (cw_ctx (vg_world v))) = 0" "cc_iterations (cw_ctx (vg_world v)) = 0"
    "cc_diverged (cw_ctx (vg_world v)) = 0" "vg_claim v = Some 1" by (rule sample_loaded)
  note reach = sample_reachable [OF v(1)]
  show ?thesis
    using dispatch_returns [of sample_env v 7 1 "sample_entry 1 10" "[]" 0 0] reach v sample_ops
    by (intro exI [of _ v]) (auto simp: is_producer_thread_def sample_entry_def)
qed

end
