(* ===== verification/Vigil_Alignment.thy ===== *)
theory Vigil_Alignment
  imports Vigil_Dispatch
begin

text \<open>
  The alignment of the running program with a published region.  When the foreground enters a region by alignment,
  the operations it dispatched last are the first ones of the region and the engine stands right behind them.  The
  matcher restarts at most at the operation that failed, so a region that begins with a repeated operation and ends
  with it can stay out of step forever, while nothing is recorded.
\<close>

section \<open>The walk\<close>

type_synonym dispatched = "ring_entry \<times> tensor_meta list \<times> u64 \<times> u64"

definition guards_of :: "dispatched \<Rightarrow> u64 \<times> u64" where
  "guards_of x = (en_schema_hash (fst x), en_shape_hash (fst x))"

fun dispatch_all :: "vigil_env \<Rightarrow> nat \<Rightarrow> dispatched list \<Rightarrow> vigil \<Rightarrow> vigil checked" where
  "dispatch_all env tid [] v = ok v"
| "dispatch_all env tid ((entry, metas, scope_hash, callsite_hash) # xs) v =
    and_then (dispatch_op env tid entry metas scope_hash callsite_hash v) (\<lambda>(d, v'). dispatch_all env tid xs v')"

text \<open>The foreground waits for a region: it has not read it yet, or the operations dispatched last are the ones the
  walk has matched.\<close>

definition awaits :: "region_heap \<Rightarrow> nat \<Rightarrow> (u64 \<times> u64) list \<Rightarrow> vigil \<Rightarrow> bool" where
  "awaits heap a hist v \<longleftrightarrow> \<not> is_compiled v \<and> rg_ops (heap a) \<noteq> [] \<and>
    (vg_pending v = Some a \<and> hist = [] \<or>
     vg_pending v = None \<and> vg_activation v = Some a \<and> vg_alignment v \<le> length hist \<and>
     drop (length hist - vg_alignment v) hist = take (vg_alignment v) (op_guards (rg_ops (heap a))))"

definition settled :: "vigil \<Rightarrow> bool" where
  "settled v \<longleftrightarrow> vg_pending v = None \<and> vg_activation v = None"

definition entered :: "region_heap \<Rightarrow> nat \<Rightarrow> (u64 \<times> u64) list \<Rightarrow> vigil \<Rightarrow> bool" where
  "entered heap a hist v \<longleftrightarrow>
    (let ops = rg_ops (heap a); p = alignment_threshold ops in
     vg_region v = Some a \<and> p \<le> length hist \<and> drop (length hist - p) hist = take p (op_guards ops) \<and>
     re_cursor (cc_engine (cw_ctx (vg_world v))) = p mod length ops)"

lemma align_step_suffix:
  assumes "align_step ops schema shape pos = ok p" "pos \<le> length hist" "drop (length hist - pos) hist = take pos (op_guards ops)"
  shows "p \<le> Suc (length hist)" "drop (Suc (length hist) - p) (hist @ [(schema, shape)]) = take p (op_guards ops)"
proof -
  have pos: "pos < length ops" using assms(1) by (auto simp: align_step_def split: if_splits)
  then have ne: "ops \<noteq> []" by auto
  consider "p = Suc pos" "guard_is schema shape (ops ! pos)" | "p = 1" "guard_is schema shape (ops ! 0)" | "p = 0"
    using assms(1) pos by (auto simp: align_step_def alignment_pos_at_def split: if_splits)
  then have "p \<le> Suc (length hist) \<and> drop (Suc (length hist) - p) (hist @ [(schema, shape)]) = take p (op_guards ops)"
  proof cases
    case 1
    have "op_guards ops ! pos = (schema, shape)" using 1(2) pos by (simp add: op_guards_def guard_is_def)
    then show ?thesis using 1(1) assms(2,3) pos by (simp add: take_Suc_conv_app_nth)
  next
    case 2
    have "take 1 (op_guards ops) = [(schema, shape)]" using 2(2) ne by (cases ops) (auto simp: op_guards_def guard_is_def)
    then show ?thesis using 2(1) by simp
  qed simp
  then show "p \<le> Suc (length hist)" "drop (Suc (length hist) - p) (hist @ [(schema, shape)]) = take p (op_guards ops)" by blast+
qed

text \<open>The engine is moved over the operations that were matched.\<close>

lemma vg_advance_cursor:
  assumes "vg_advance schema shape v = ok (st, v')" "core_inv heap v" "vg_region v = Some a"
    and "op_guards (rg_ops (heap a)) ! re_cursor (cc_engine (cw_ctx (vg_world v))) = (schema, shape)"
  shows "re_cursor (cc_engine (cw_ctx (vg_world v'))) = Suc (re_cursor (cc_engine (cw_ctx (vg_world v)))) mod length (rg_ops (heap a))"
proof -
  let ?c = "cw_ctx (vg_world v)" and ?ops = "rg_ops (heap a)"
  obtain c where c: "ctx_advance schema shape ?c = ok (st, c)" "v' = v\<lparr>vg_world := (vg_world v)\<lparr>cw_ctx := c\<rparr>\<rparr>"
    using assms(1) by (auto simp: vg_advance_def and_then_ok)
  note F = ctx_advance_frame [OF c(1)]
  have r: "engine_inv ?ops (cc_engine ?c)" "?ops \<noteq> [] \<Longrightarrow> re_cursor (cc_engine ?c) < length ?ops"
    using assms(2,3) F(4) by (auto simp: core_inv_def ctx_ok_def)
  have "advance schema shape (cc_engine ?c) \<noteq> fail Contract_violation" using F(5) by auto
  then have ne: "?ops \<noteq> []" using r(1) by (auto simp: advance_def engine_inv_def)
  obtain e where e: "advance schema shape (cc_engine ?c) = ok (if Suc (re_cursor (cc_engine ?c)) = length ?ops then COMPLETE else MATCH, e)"
    "engine_inv ?ops e" "re_cursor e = Suc (re_cursor (cc_engine ?c))"
    using advance_cases [OF r(1) r(2) [OF ne], of schema shape] assms(4) by auto
  show ?thesis
    using c F(4) e engine_reset_inv [OF e(2)] r(2) [OF ne] by (auto simp: ctx_advance_def and_then_ok split: if_splits)
qed

lemma skip_matched_cursor:
  assumes "skip_matched (take k (drop i (rg_ops (heap a)))) v = ok v'" "core_inv heap v" "vg_region v = Some a"
    and "re_cursor (cc_engine (cw_ctx (vg_world v))) = i" "i + k \<le> length (rg_ops (heap a))" "i < length (rg_ops (heap a))"
  shows "re_cursor (cc_engine (cw_ctx (vg_world v'))) = (i + k) mod length (rg_ops (heap a))"
  using assms
proof (induction k arbitrary: i v)
  case (Suc k)
  let ?ops = "rg_ops (heap a)"
  have i: "take (Suc k) (drop i ?ops) = ?ops ! i # take k (drop (Suc i) ?ops)"
    using Suc.prems(6) by (simp add: Cons_nth_drop_Suc [symmetric])
  obtain st v1 where v1: "vg_advance (te_schema_hash (?ops ! i)) (te_shape_hash (?ops ! i)) v = ok (st, v1)"
    "skip_matched (take k (drop (Suc i) ?ops)) v1 = ok v'"
    using Suc.prems(1) unfolding i by (auto simp: and_then_ok)
  have g: "op_guards ?ops ! re_cursor (cc_engine (cw_ctx (vg_world v))) = (te_schema_hash (?ops ! i), te_shape_hash (?ops ! i))"
    using Suc.prems(4,6) by (simp add: op_guards_def)
  note A = vg_advance_ok [OF v1(1) Suc.prems(2)]
  have cur: "re_cursor (cc_engine (cw_ctx (vg_world v1))) = Suc i mod length ?ops"
    using vg_advance_cursor [OF v1(1) Suc.prems(2,3) g] Suc.prems(4) by simp
  show ?case
  proof (cases "Suc i = length ?ops")
    case True
    then have "k = 0" using Suc.prems(5) by simp
    then show ?thesis using v1(2) True cur by simp
  next
    case False
    then show ?thesis using Suc.IH [OF v1(2) A(1)] A(4) Suc.prems(3,5,6) cur by simp
  qed
qed simp

lemma try_align_walk:
  assumes "try_align env a schema shape v = ok v'" "vigil_inv (env_heap env) v" "vg_activation v = Some a" "\<not> is_compiled v"
    "vg_pending v = None" "vg_alignment v \<le> length hist"
    "drop (length hist - vg_alignment v) hist = take (vg_alignment v) (op_guards (rg_ops (env_heap env a)))"
  shows "awaits (env_heap env) a (hist @ [(schema, shape)]) v' \<or>
    settled v' \<and> (is_compiled v' \<longrightarrow> entered (env_heap env) a (hist @ [(schema, shape)]) v')"
proof -
  let ?ops = "rg_ops (env_heap env a)"
  have core: "core_inv (env_heap env) v" and ops: "?ops \<noteq> []" and pos: "vg_alignment v < alignment_threshold ?ops"
    using assms(2,3) by (auto simp: vigil_inv_def aligning_def)
  obtain p where p: "align_step ?ops schema shape (vg_alignment v) = ok p" "p \<le> alignment_threshold ?ops"
    using align_step_range [OF ops pos] by blast
  note suffix = align_step_suffix [OF p(1) assms(6,7)]
  let ?v = "v\<lparr>vg_alignment := p\<rparr>"
  have core': "core_inv (env_heap env) ?v" using core by simp
  consider "p < alignment_threshold ?ops" "v' = ?v"
    | v2 where "vg_activate env a ?v = ok (False, v2)" "v' = v2\<lparr>vg_activation := None\<rparr>"
    | v2 v3 v4 v5 where "alignment_threshold ?ops \<le> p" "vg_activate env a ?v = ok (True, v2)"
      "register_externals_from_region env a v2 = ok v3" "vg_cache_insert env (Some a) v3 = ok v4"
      "skip_matched (take p ?ops) v4 = ok v5" "v' = v5\<lparr>vg_mode := VM_COMPILED, vg_activation := None\<rparr>"
    by (rule try_align_cases [OF assms(1) p(1)])
  then show ?thesis
  proof cases
    case 1
    then show ?thesis using assms(3-5) ops suffix by (simp add: awaits_def)
  next
    case 2
    then have "v' = ?v\<lparr>vg_activation := None\<rparr>" using vg_activate_ok(4) [OF 2(1) core'] by simp
    then show ?thesis using assms(4,5) by (simp add: settled_def)
  next
    case 3
    have p_eq: "p = alignment_threshold ?ops" using 3(1) p(2) by simp
    note A = vg_activate_ok [OF 3(2) core']
    note B = register_from_region_ok [OF 3(3) A(1)]
    note C = vg_cache_insert_ok [OF 3(4) B(1)]
    note D = skip_matched_ok [OF 3(5) C(1)]
    have at: "vg_region v4 = Some a" "re_cursor (cc_engine (cw_ctx (vg_world v4))) = 0" using A(5) B(4,6) C(3,4) by auto
    have le: "p \<le> length ?ops" using p_eq by (simp add: alignment_threshold_def)
    have "re_cursor (cc_engine (cw_ctx (vg_world v5))) = p mod length ?ops"
      using skip_matched_cursor [of p 0 "env_heap env" a v4 v5] 3(5) C(1) at le ops by simp
    moreover have "ctx_step ?v v5" using A(2) B(2) C(2) D ctx_step_trans by blast
    ultimately show ?thesis
      using ctx_stepD(1) [of ?v v5] D at(1) 3(6) p_eq suffix assms(5) by (simp add: settled_def entered_def Let_def)
  qed
qed

lemma awaits_step:
  assumes "awaits (env_heap env) a hist v" "vigil_inv (env_heap env) v"
    "dispatch_op env tid entry metas scope_hash callsite_hash v = ok (d, v')"
  defines "g \<equiv> (en_schema_hash entry, en_shape_hash entry)"
  shows "awaits (env_heap env) a (hist @ [g]) v' \<or> settled v' \<and> (is_compiled v' \<longrightarrow> entered (env_heap env) a (hist @ [g]) v')"
proof -
  let ?v = "v\<lparr>vg_claim := Some tid\<rparr>"
  obtain u where u: "assert_producer_thread tid v = ok u" using assms(3) by (auto simp: dispatch_op_def and_then_ok)
  then have claim: "assert_producer_thread tid v = ok ?v" using assert_producer_ok(1) by blast
  have w: "\<not> is_compiled v" "rg_ops (env_heap env a) \<noteq> []" using assms(1) by (simp_all add: awaits_def)
  have t: "dispatch_transition env tid entry metas scope_hash callsite_hash ?v = ok (d, v')"
    using assms(1,3) claim w(1) by (auto simp: dispatch_op_def awaits_def split: if_splits)
  obtain v1 where v1: "(if vg_pending ?v \<noteq> None then consume_pending_region env ?v else ok ?v) = ok v1"
    using t by (auto simp: dispatch_transition_def and_then_ok)
  have inv: "vigil_inv (env_heap env) v1"
    using v1 consume_pending_ok(1) [of env ?v v1] assms(2) by (auto split: if_splits)
  have walk: "vg_activation v1 = Some a" "\<not> is_compiled v1" "vg_pending v1 = None" "vg_alignment v1 \<le> length hist"
    "drop (length hist - vg_alignment v1) hist = take (vg_alignment v1) (op_guards (rg_ops (env_heap env a)))"
    using v1 assms(1) w by (auto simp: awaits_def consume_pending_region_def alignment_pos_at_def Let_def)
  then obtain v3 where v3: "try_align env a (en_schema_hash entry) (en_shape_hash entry) v1 = ok v3" "v' = publish_held_regions v3"
    using t v1 by (auto simp: dispatch_transition_def and_then_ok)
  show ?thesis
    using try_align_walk [OF v3(1) inv walk] v3(2) unfolding g_def by (simp add: awaits_def settled_def entered_def)
qed

lemma settled_step:
  assumes "settled v" "vigil_inv (env_heap env) v" "dispatch_op env tid entry metas scope_hash callsite_hash v = ok (d, v')"
  shows "settled v'"
proof -
  let ?v = "v\<lparr>vg_claim := Some tid\<rparr>"
  obtain u where u: "assert_producer_thread tid v = ok u" using assms(3) by (auto simp: dispatch_op_def and_then_ok)
  then have claim: "assert_producer_thread tid v = ok ?v" using assert_producer_ok(1) by blast
  have core: "core_inv (env_heap env) ?v" using assms(2) by (simp add: vigil_inv_def)
  show ?thesis
  proof (cases "is_compiled v")
    case True
    then obtain st v1 where v1: "vg_advance (en_schema_hash entry) (en_shape_hash entry) ?v = ok (st, v1)"
      using assms(3) claim by (auto simp: dispatch_op_def and_then_ok)
    note A = vg_advance_ok [OF v1 core]
    note S = ctx_stepD [OF A(2)]
    show ?thesis
    proof (cases "st = DIVERGED")
      case div: True
      then have "handle_divergence env (en_schema_hash entry) (en_shape_hash entry) v1 = ok (d, v')"
        using assms(3) claim v1 True by (simp add: dispatch_op_def)
      moreover have "vg_mode v1 = VM_COMPILED" using S(4) True assms(2) by (simp add: vigil_inv_def)
      ultimately show ?thesis using handle_divergence_ok [OF _ A(1,5)] by (simp add: settled_def)
    next
      case False
      then have "v' = v1" using assms(3) claim v1 True by (simp add: dispatch_op_def)
      then show ?thesis using S(1,2) assms(1) by (simp add: settled_def)
    qed
  next
    case False
    then obtain b where "record_op tid entry metas scope_hash callsite_hash ?v = ok (b, v')"
      using assms(1,3) claim by (auto simp: dispatch_op_def settled_def and_then_ok)
    from record_op_ok [OF this] show ?thesis using assms(1) by (auto simp: settled_def)
  qed
qed

lemma dispatch_all_awaits:
  assumes "dispatch_all env tid xs v = ok w" "vigil_reachable (env_heap env) v" "awaits (env_heap env) a hist v \<or> settled v"
  shows "vigil_reachable (env_heap env) w \<and> (awaits (env_heap env) a (hist @ map guards_of xs) w \<or> settled w)"
  using assms
proof (induction xs arbitrary: v hist)
  case (Cons x xs)
  obtain entry metas scope_hash callsite_hash where x: "x = (entry, metas, scope_hash, callsite_hash)" by (cases x)
  obtain d v1 where v1: "dispatch_op env tid entry metas scope_hash callsite_hash v = ok (d, v1)" "dispatch_all env tid xs v1 = ok w"
    using Cons.prems(1) x by (auto simp: and_then_ok)
  have reach: "vigil_reachable (env_heap env) v1" using vigil_reachable.dispatch [OF Cons.prems(2) _ v1(1)] by simp
  have inv: "vigil_inv (env_heap env) v" using vigil_reachable_ok [OF Cons.prems(2)] by simp
  have "awaits (env_heap env) a (hist @ [guards_of x]) v1 \<or> settled v1"
    using Cons.prems(3) awaits_step [OF _ inv v1(1)] settled_step [OF _ inv v1(1)] by (auto simp: x guards_of_def)
  from Cons.IH [OF v1(2) reach this] show ?case by simp
qed simp

lemma dispatch_all_append:
  "dispatch_all env tid (xs @ ys) v = and_then (dispatch_all env tid xs v) (dispatch_all env tid ys)"
  by (induction env tid xs v rule: dispatch_all.induct) (auto simp: and_then_def split: sum.splits)


section \<open>Out of step\<close>

text \<open>The position of the walk after each operation of an iteration of the region \<^verbatim>\<open>A A B C D A\<close>, once the walk is out of step.\<close>

definition stray_pos :: "nat \<Rightarrow> nat" where
  "stray_pos i = [2, 1, 0, 0, 0, 1] ! (i mod 6)"

lemma mod6_cases: obtains "i mod 6 = 0" | "i mod 6 = 1" | "i mod 6 = 2" | "i mod 6 = 3" | "i mod 6 = 4" | "i mod 6 = (5 :: nat)"
proof -
  have "i mod 6 < 6" by simp
  then show thesis using that by linarith
qed

lemma stray_step:
  assumes ops: "op_guards ops = [A, A, B, C, D, A]" "A \<noteq> B" "A \<noteq> C" "A \<noteq> D" and g: "(schema, shape) = [A, A, B, C, D, A] ! (Suc i mod 6)"
    and p: "p = stray_pos i \<or> p = 0 \<and> i = 0"
  shows "align_step ops schema shape p = ok (stray_pos (Suc i))" "stray_pos (Suc i) < alignment_threshold ops"
proof -
  have len: "length ops = 6" using arg_cong [OF ops(1), of length] by simp
  have guard: "guard_is schema shape (ops ! k) \<longleftrightarrow> [A, A, B, C, D, A] ! (Suc i mod 6) = [A, A, B, C, D, A] ! k" if "k < 6" for k
  proof -
    have "op_guards ops ! k = (te_schema_hash (ops ! k), te_shape_hash (ops ! k))" using that len by (simp add: op_guards_def)
    then show ?thesis using g by (auto simp: guard_is_def ops(1))
  qed
  have G: "guard_is schema shape (ops ! 0) \<longleftrightarrow> [A, A, B, C, D, A] ! (Suc i mod 6) = A" "guard_is schema shape (ops ! 1) \<longleftrightarrow> [A, A, B, C, D, A] ! (Suc i mod 6) = A"
    "guard_is schema shape (ops ! 2) \<longleftrightarrow> [A, A, B, C, D, A] ! (Suc i mod 6) = B"
    using guard [of 0] guard [of 1] guard [of 2] by simp_all
  show "align_step ops schema shape p = ok (stray_pos (Suc i))"
    by (rule mod6_cases [of i])
      (use p ops(2-4) G len in \<open>auto simp: align_step_def stray_pos_def mod_Suc alignment_pos_at_def ALIGNMENT_K_def numeral_2_eq_2\<close>)
  show "stray_pos (Suc i) < alignment_threshold ops"
    by (rule mod6_cases [of i]) (simp_all add: stray_pos_def mod_Suc alignment_threshold_def ALIGNMENT_K_def len)
qed

text \<open>A walk that stays below the threshold leaves everything but its position alone.\<close>

lemma walk_returns:
  assumes "\<not> is_compiled v" "is_producer_thread tid v" "rg_ops (env_heap env a) \<noteq> []"
    and "vg_pending v = Some a \<and> pos = 0 \<or> vg_pending v = None \<and> vg_activation v = Some a \<and> pos = vg_alignment v"
    and "align_step (rg_ops (env_heap env a)) (en_schema_hash entry) (en_shape_hash entry) pos = ok q"
    and "q < alignment_threshold (rg_ops (env_heap env a))"
  shows "\<exists>d v'. dispatch_op env tid entry metas scope_hash callsite_hash v = ok (d, v') \<and> \<not> is_compiled v' \<and>
    is_producer_thread tid v' \<and> vg_pending v' = None \<and> vg_activation v' = Some a \<and> vg_alignment v' = q \<and>
    vg_ring v' = vg_ring v \<and> vg_meta_log v' = vg_meta_log v \<and> vg_world v' = vg_world v \<and> vg_cache v' = vg_cache v"
proof -
  let ?v = "v\<lparr>vg_claim := Some tid\<rparr>" and ?u = "v\<lparr>vg_claim := Some tid, vg_pending := None, vg_activation := Some a, vg_alignment := pos\<rparr>"
  have v1: "(if vg_pending ?v \<noteq> None then consume_pending_region env ?v else ok ?v) = ok ?u"
  proof (cases "vg_pending v")
    case None
    then have "?v = ?u" using assms(4) by (cases v) simp
    then show ?thesis using None by simp
  next
    case (Some b)
    then have "b = a" "pos = 0" using assms(4) by auto
    then show ?thesis using Some assms(3) by (simp add: consume_pending_region_def alignment_pos_at_def Let_def)
  qed
  have al: "try_align env a (en_schema_hash entry) (en_shape_hash entry) ?u = ok (?u\<lparr>vg_alignment := q\<rparr>)"
    using assms(5,6) by (simp add: try_align_def Let_def)
  have "dispatch_op env tid entry metas scope_hash callsite_hash v
      = ok (\<lparr>dr_action = DA_RECORD, dr_status = MATCH, dr_op_index = id_none\<rparr>, publish_held_regions (?u\<lparr>vg_alignment := q\<rparr>))"
    using assms(1,4) v1 al assert_producer_returns [OF assms(2)] by (auto simp: dispatch_op_def dispatch_transition_def)
  then show ?thesis using assms(1) by (simp add: is_producer_thread_def)
qed

lemma stray_run:
  assumes ops: "op_guards (rg_ops (env_heap env a)) = [A, A, B, C, D, A]" "A \<noteq> B" "A \<noteq> C" "A \<noteq> D" and prog: "\<And>i. guards_of (x i) = [A, A, B, C, D, A] ! (i mod 6)"
    and v: "\<not> is_compiled v" "vg_pending v = Some a" "is_producer_thread tid v"
  shows "\<exists>w. dispatch_all env tid (map x [1..<Suc (Suc n)]) v = ok w \<and> \<not> is_compiled w \<and> is_producer_thread tid w \<and> vg_pending w = None \<and>
    vg_activation w = Some a \<and> vg_alignment w = stray_pos (Suc n) \<and> vg_ring w = vg_ring v \<and> vg_meta_log w = vg_meta_log v"
proof (induction n)
  have ne: "rg_ops (env_heap env a) \<noteq> []" using ops(1) by (auto simp: op_guards_def)
  note S = stray_step [OF ops]
  have one: "\<exists>w. dispatch_all env tid [x (Suc i)] u = ok w \<and> \<not> is_compiled w \<and> is_producer_thread tid w \<and> vg_pending w = None \<and>
      vg_activation w = Some a \<and> vg_alignment w = stray_pos (Suc i) \<and> vg_ring w = vg_ring u \<and> vg_meta_log w = vg_meta_log u"
    if u: "\<not> is_compiled u" "is_producer_thread tid u" "p = stray_pos i \<or> p = 0 \<and> i = 0"
      "vg_pending u = Some a \<and> p = 0 \<or> vg_pending u = None \<and> vg_activation u = Some a \<and> p = vg_alignment u" for i p u
  proof -
    obtain entry metas sc cs where xi: "x (Suc i) = (entry, metas, sc, cs)" by (cases "x (Suc i)")
    then have g: "(en_schema_hash entry, en_shape_hash entry) = [A, A, B, C, D, A] ! (Suc i mod 6)" using prog [of "Suc i"] by (simp add: guards_of_def)
    show ?thesis using walk_returns [OF u(1,2) ne u(4) S [OF g u(3)], of metas sc cs] xi by auto
  qed
  case 0
  show ?case using one [of v 0 0] v by simp
  case (Suc n)
  then obtain w where w: "dispatch_all env tid (map x [1..<Suc (Suc n)]) v = ok w" "\<not> is_compiled w" "is_producer_thread tid w"
    "vg_pending w = None" "vg_activation w = Some a" "vg_alignment w = stray_pos (Suc n)" "vg_ring w = vg_ring v" "vg_meta_log w = vg_meta_log v"
    by blast
  have split: "map x [1..<Suc (Suc (Suc n))] = map x [1..<Suc (Suc n)] @ [x (Suc (Suc n))]" by simp
  show ?case
    unfolding split dispatch_all_append using one [OF w(2,3), of "stray_pos (Suc n)" "Suc n"] w by auto
qed


section \<open>Properties\<close>

lemma first_publication:
  obtains v where "on_region_ready env None 7 1 (fresh_vigil reg mem r l) = ok v" "vg_pending v = Some 7" "\<not> is_compiled v"
    "vg_claim v = None" "vg_world v = \<lparr>cw_ctx = fresh_context, cw_reg = reg, cw_mem = mem\<rparr>" "vg_cache v = empty_cache"
proof -
  let ?f = "fresh_vigil reg mem r l"
  have log: "tl_displacements fresh_log \<noteq> - 1" "vg_tx_log ?f = fresh_log" "vg_step ?f = 0" by (simp_all add: fresh_log_def fresh_vigil_def)
  obtain t where t: "tx_publish None 0 7 (rg_content_hash (env_heap env 7)) 1 fresh_log = ok t"
    using publish_refines [OF fresh_log_refines _ log(1), of 1 None 0 7 "rg_content_hash (env_heap env 7)"] by auto
  have "on_region_ready env None 7 1 ?f = ok (?f\<lparr>vg_step := 1, vg_tx_log := t, vg_pending := Some 7\<rparr>)"
    using t log(2,3) by (simp add: on_region_ready_def bump_def)
  then show thesis by (rule that) (simp_all add: is_compiled_def fresh_vigil_def fresh_context_def)
qed

lemma sample_entered:
  assumes "vg_world v = shared_world" "vg_pending v = None" "vg_activation v = Some 7" "vg_alignment v = 1" "is_producer_thread 1 v"
  obtains d w where "dispatch_op sample_env 1 (sample_entry 2 20) [] 0 0 v = ok (d, w)" "is_compiled w"
proof -
  let ?ops = "rg_ops (shared_region 2)"
  obtain u where u: "activate first_alloc True (Some (shared_region 2)) shared_world = ok (True, u)" "cc_mode (cw_ctx u) = CM_COMPILED"
    "cc_active (cw_ctx u) = Some (shared_region 2)" "re_cursor (cc_engine (cw_ctx u)) = 0" "cc_iterations (cw_ctx u) = 0" "cc_diverged (cw_ctx u) = 0"
    using shared_activate by blast
  have uok: "ctx_ok (cw_ctx u)" using activate_ok [OF u(1)] fresh_context_ok by (simp add: shared_world_def)
  obtain c1 where c1: "ctx_advance 1 10 (cw_ctx u) = ok (MATCH, c1)" "ctx_ok c1" "cc_mode c1 = CM_COMPILED" "cc_active c1 = Some (shared_region 2)"
    "re_cursor (cc_engine c1) = 1" "cc_iterations c1 = 0" "cc_diverged c1 = 0"
    using ctx_advance_cases [OF uok u(2,3) sample_ops(1), of 1 10] u(4-6) sample_ops(2,3) by auto
  obtain c2 where c2: "ctx_advance 2 20 c1 = ok (COMPLETE, c2)" "cc_mode c2 = CM_COMPILED"
    using ctx_advance_cases [OF c1(2-4) sample_ops(1), of 2 20] c1(5-7) sample_ops(2,3) by auto
  obtain c where c: "cache_insert (\<lambda>a. shared_region 2) (Some 7) (vg_cache v) = ok c" using cache_insert_total by blast
  have world: "vg_world v = shared_world" "\<not> is_compiled v" using assms(1) by (simp_all add: is_compiled_def shared_world_def fresh_context_def)
  have step: "align_step ?ops 2 20 1 = ok 2" "alignment_threshold ?ops = 2"
    by (simp_all add: align_step_def guard_is_def shared_region_def guard_op_def alignment_pos_at_def ALIGNMENT_K_def alignment_threshold_def)
  have take: "take 2 ?ops = [(guard_op 1 10)\<lparr>te_num_outputs := 1, te_output_slot_ids := Some [0]\<rparr>, guard_op 2 20]" by (simp add: shared_region_def)
  have act: "vg_activate sample_env 7 (v\<lparr>vg_claim := Some 1, vg_alignment := 2\<rparr>)
      = ok (True, v\<lparr>vg_claim := Some 1, vg_alignment := 2, vg_world := u, vg_region := Some 7\<rparr>)"
    using u(1) world(1) by (simp add: vg_activate_def)
  have "try_align sample_env 7 2 20 (v\<lparr>vg_claim := Some 1\<rparr>) = ok (v\<lparr>vg_claim := Some 1, vg_alignment := 2, vg_region := Some 7,
      vg_cache := c, vg_world := u\<lparr>cw_ctx := c2\<rparr>, vg_mode := VM_COMPILED, vg_activation := None\<rparr>)"
    using c1(1) c2(1) c step take assms(4) act
    by (simp add: try_align_def Let_def sample_externals vg_cache_insert_def vg_advance_def guard_op_def)
  then have "dispatch_op sample_env 1 (sample_entry 2 20) [] 0 0 v = ok (\<lparr>dr_action = DA_RECORD, dr_status = MATCH, dr_op_index = id_none\<rparr>,
      publish_held_regions (v\<lparr>vg_claim := Some 1, vg_alignment := 2, vg_region := Some 7, vg_cache := c, vg_world := u\<lparr>cw_ctx := c2\<rparr>,
        vg_mode := VM_COMPILED, vg_activation := None\<rparr>))"
    using assms(2,3) world(2) assert_producer_returns [OF assms(5)] by (simp add: dispatch_op_def dispatch_transition_def sample_entry_def)
  then show thesis by (rule that) (simp add: is_compiled_def c2(2))
qed

text \<open>C39.  An alignment enters a region only in step.  Let the background thread have published a region to a recording
  foreground, let operations be dispatched while the foreground still waits to enter, and let the next one enter the
  replay.  Then the region is the published one, the operations dispatched last are its first ones, as many as the
  threshold asks for, and the engine expects the operation that follows them, the first one when they were all.\<close>

theorem alignment_sound:
  assumes "vigil_reachable (env_heap env) v" "\<not> is_compiled v" "vg_pending v = Some a" "rg_ops (env_heap env a) \<noteq> []"
    and "dispatch_all env tid xs v = ok w" "vg_pending w \<noteq> None \<or> vg_activation w \<noteq> None"
    and "dispatch_op env tid entry metas scope_hash callsite_hash w = ok (d, w')" "is_compiled w'"
  defines "ops \<equiv> rg_ops (env_heap env a)" and "hist \<equiv> map guards_of xs @ [(en_schema_hash entry, en_shape_hash entry)]"
  shows "vg_region w' = Some a \<and> alignment_threshold ops \<le> length hist \<and>
    drop (length hist - alignment_threshold ops) hist = take (alignment_threshold ops) (op_guards ops) \<and>
    re_cursor (cc_engine (cw_ctx (vg_world w'))) = alignment_threshold ops mod length ops"
proof -
  have "awaits (env_heap env) a [] v" using assms(2-4) by (simp add: awaits_def)
  then have w: "vigil_reachable (env_heap env) w" "awaits (env_heap env) a (map guards_of xs) w"
    using dispatch_all_awaits [OF assms(5,1), of a "[]"] assms(6) by (auto simp: settled_def)
  have inv: "vigil_inv (env_heap env) w" using vigil_reachable_ok [OF w(1)] by simp
  have "entered (env_heap env) a hist w'"
    using awaits_step [OF w(2) inv assms(7)] assms(8) unfolding hist_def by (auto simp: awaits_def)
  then show ?thesis unfolding ops_def by (simp add: entered_def Let_def)
qed

theorem alignment_sound_witness:
  "\<exists>v w d w'. vigil_reachable (\<lambda>a. shared_region 2) v \<and> vg_pending v = Some 7 \<and>
     dispatch_all sample_env 1 [(sample_entry 1 10, [], 0, 0)] v = ok w \<and> dispatch_op sample_env 1 (sample_entry 2 20) [] 0 0 w = ok (d, w') \<and>
     is_compiled w' \<and> vg_region w' = Some 7 \<and> re_cursor (cc_engine (cw_ctx (vg_world w'))) = 0"
proof -
  obtain v where v: "on_region_ready sample_env None 7 1 (fresh_vigil [empty_slot] (\<lambda>a. ucast a) r l) = ok v" "vg_pending v = Some 7"
    "\<not> is_compiled v" "vg_claim v = None" "vg_world v = \<lparr>cw_ctx = fresh_context, cw_reg = [empty_slot], cw_mem = (\<lambda>a. ucast a)\<rparr>" "vg_cache v = empty_cache"
    by (rule first_publication)
  have reach: "vigil_reachable (env_heap sample_env) v" using vigil_reachable.ready [OF vigil_reachable.start _ v(1)] by simp
  have step: "align_step (rg_ops (shared_region 2)) 1 10 0 = ok 1" "alignment_threshold (rg_ops (shared_region 2)) = 2"
    by (simp_all add: align_step_def guard_is_def shared_region_def guard_op_def alignment_pos_at_def ALIGNMENT_K_def alignment_threshold_def)
  obtain w where w: "dispatch_all sample_env 1 [(sample_entry 1 10, [], 0, 0)] v = ok w" "is_producer_thread 1 w" "vg_pending w = None"
    "vg_activation w = Some 7" "vg_alignment w = 1" "vg_world w = shared_world"
    using walk_returns [OF v(3), of 1 sample_env 7 0 "sample_entry 1 10" 1 "[]" 0 0] v(2,4,5) step sample_ops(1)
    by (auto simp: is_producer_thread_def sample_entry_def shared_world_def)
  obtain d w' where w': "dispatch_op sample_env 1 (sample_entry 2 20) [] 0 0 w = ok (d, w')" "is_compiled w'"
    by (rule sample_entered [OF w(6,3,4,5,2)])
  have "vg_region w' = Some 7 \<and> re_cursor (cc_engine (cw_ctx (vg_world w'))) = 0"
    using alignment_sound [OF reach v(3,2) _ w(1) _ w'] sample_ops(1,3) w(4) step(2) by simp
  then show ?thesis using reach v(2) w(1) w' by (intro exI [of _ v] exI [of _ w] exI [of _ d] exI [of _ w']) simp
qed

text \<open>C40.  Alignment can starve.  Let the program repeat forever the region that was published, six operations
  \<^verbatim>\<open>A A B C D A\<close> with \<^verbatim>\<open>A\<close> different from the others, and let the foreground read the publication at the second operation
  of an iteration.  However many operations follow, each dispatch returns, the foreground still walks and never enters the replay although every
  sixth operation begins a full copy of the region, and nothing reaches the ring or the metadata log, so the
  background thread is given nothing to build another region from.\<close>

theorem alignment_starves:
  assumes "op_guards (rg_ops (env_heap env a)) = [A, A, B, C, D, A]" "A \<noteq> B" "A \<noteq> C" "A \<noteq> D" "\<forall>i. guards_of (x i) = [A, A, B, C, D, A] ! (i mod 6)"
    and "\<not> is_compiled v" "vg_pending v = Some a" "is_producer_thread tid v"
  shows "\<exists>w. dispatch_all env tid (map x [1..<n + 2]) v = ok w \<and> \<not> is_compiled w \<and> vg_activation w = Some a \<and>
    vg_ring w = vg_ring v \<and> vg_meta_log w = vg_meta_log v"
  using stray_run [of env a A B C D x v tid n] assms by auto

theorem alignment_starves_witness:
  "\<exists>env v w. vigil_reachable (env_heap env) v \<and> vg_pending v = Some 7 \<and>
     dispatch_all env 1 (map (\<lambda>i. (sample_entry (if i mod 6 = 2 then 2 else if i mod 6 = 3 then 3 else if i mod 6 = 4 then 4 else 1) 10, [], 0, 0)) [1..<1002]) v = ok w \<and>
     \<not> is_compiled w \<and> vg_activation w = Some 7 \<and> vg_ring w = vg_ring v"
proof -
  let ?ops = "[guard_op 1 10, guard_op 1 10, guard_op 2 10, guard_op 3 10, guard_op 4 10, guard_op 1 10]"
  let ?env = "sample_env\<lparr>env_heap := \<lambda>a. (shared_region 2)\<lparr>rg_ops := ?ops\<rparr>\<rparr>"
  let ?x = "\<lambda>i. (sample_entry (if i mod 6 = 2 then 2 else if i mod 6 = 3 then 3 else if i mod 6 = 4 then 4 else 1) 10, [] :: tensor_meta list, 0 :: u64, 0 :: u64)"
  obtain v where v: "on_region_ready ?env None 7 1 (fresh_vigil [empty_slot] (\<lambda>a. ucast a) r l) = ok v" "vg_pending v = Some 7"
    "\<not> is_compiled v" "vg_claim v = None" by (rule first_publication)
  have reach: "vigil_reachable (env_heap ?env) v" using vigil_reachable.ready [OF vigil_reachable.start _ v(1)] by simp
  have ops: "op_guards (rg_ops (env_heap ?env 7)) = [(1, 10), (1, 10), (2, 10), (3, 10), (4, 10), (1, 10)]" by (simp add: op_guards_def guard_op_def)
  have x: "guards_of (?x i) = [(1, 10), (1, 10), (2, 10), (3, 10), (4, 10), (1, 10)] ! (i mod 6)" for i
    by (rule mod6_cases [of i]) (simp_all add: guards_of_def sample_entry_def)
  obtain w where "dispatch_all ?env 1 (map ?x [1..<1000 + 2]) v = ok w" "\<not> is_compiled w" "vg_activation w = Some 7" "vg_ring w = vg_ring v"
    using alignment_starves [OF ops _ _ _ _ v(3,2), of ?x 1 1000] x v(4) by (auto simp: is_producer_thread_def)
  moreover have "(1000 :: nat) + 2 = 1002" by simp
  ultimately show ?thesis using reach v(2) by (intro exI [of _ ?env] exI [of _ v] exI [of _ w]) (simp only: simp_thms)
qed

end
