(* ===== verification/Spec2Isabelle.thy ===== *)
theory Spec2Isabelle
  imports Memory_Plan_Correct Merkle_Dag_Correct Replay_Engine Region_Cache Trace_Ring_Threads Meta_Log
    Crdt_Counters Crdt_Converge Swim_Membership Philox_Rng Expr_Properties Expr_Interning Vigil_Alignment
begin

text \<open>
  \<^bold>\<open>Crucible: a verification library for the runtime.\<close>

  Crucible records the operations that a tensor program issues, finds its iterations, builds a
  Merkle DAG of them, plans the memory of an iteration as one pool, and replays the program into that
  pool under guards.  Around this core it has lock-free rings between the foreground and the background
  thread, a pool of interned symbolic expressions, a counter-based random number generator, and a
  distributed layer of clocks, replicated data types and a membership protocol.

  \<^bold>\<open>Conventions.\<close>  \<^verbatim>\<open>Crucible_Prelude\<close> fixes the machine types.  An unsigned integer is a word of its width
  where the code relies on wrap-around or must avoid it, and a natural number where a structural bound
  keeps it in range.  A failed contract, an always-on invariant and an abort are the values
  \<^verbatim>\<open>Contract_violation\<close>, \<^verbatim>\<open>Fatal_invariant\<close> and \<^verbatim>\<open>Aborted\<close> of a sum type, so every early exit of the source is a
  branch of the model.  A loop that could run forever is a \<^verbatim>\<open>partial_function (option)\<close> in which \<^verbatim>\<open>None\<close> is a loop
  that does not return; that it returns is then a theorem.  Code outside the repository and addresses
  chosen by an allocator are arguments of the definitions.

  \<^bold>\<open>Memory\<close> (\<^verbatim>\<open>src/BackgroundThread.cpp\<close>, \<^verbatim>\<open>crucible/PoolAllocator.h\<close>, \<^verbatim>\<open>crucible/warden/Registry.h\<close>,
  \<^verbatim>\<open>crucible/StorageNbytes.h\<close>, \<^verbatim>\<open>crucible/TensorMeta.h\<close>).  \<^verbatim>\<open>Tensor_Meta\<close> holds the descriptors and strong identifiers,
  \<^verbatim>\<open>Saturation\<close> the saturating arithmetic, \<^verbatim>\<open>Storage_Nbytes\<close> the scalar and the vector byte count.  \<^verbatim>\<open>Memory_Plan\<close> is
  \<^verbatim>\<open>compute_memory_plan\<close> in full; \<^verbatim>\<open>Memory_Plan_Correct\<close> shows that simultaneously live slots are disjoint,
  aligned and inside the pool as long as the aligned sizes fit in 64 bits, when the planner refuses and what
  else a plan holds, and that a byte count clamped to the largest value wraps to an empty pool.  \<^verbatim>\<open>Hot_Region_Registry\<close> models the table of hot
  regions atomically and as interleaved steps, \<^verbatim>\<open>Pool_Allocator\<close> the pool on top of it.

  \<^bold>\<open>Traces\<close> (\<^verbatim>\<open>crucible/MerkleDag.h\<close>, \<^verbatim>\<open>crucible/ReplayEngine.h\<close>, \<^verbatim>\<open>crucible/RegionCache.h\<close>, \<^verbatim>\<open>crucible/Reflect.h\<close>,
  \<^verbatim>\<open>crucible/DimHash.h\<close>).  \<^verbatim>\<open>Hash_Mix\<close> holds the mixers; \<^verbatim>\<open>Merkle_Dag\<close> the nodes, hashes, factories and walks;
  \<^verbatim>\<open>Merkle_Dag_Correct\<close> that replay is exact, what comparison and merging report, for merging among the first 1024 regions, and where comparison is
  blind.  \<^verbatim>\<open>Replay_Engine\<close> is the guarded cursor and \<^verbatim>\<open>Region_Cache\<close> the bounded newest-first cache.

  \<^bold>\<open>Foreground\<close> (\<^verbatim>\<open>crucible/Vigil.h\<close>, \<^verbatim>\<open>src/Vigil.cpp\<close>, \<^verbatim>\<open>crucible/CrucibleContext.h\<close>, \<^verbatim>\<open>crucible/Transaction.h\<close>).
  \<^verbatim>\<open>Crucible_Context\<close> is the execution context: activation, the guarded advance, and the switch to an alternate
  region with the copy of the shared prefix between two pools; \<^verbatim>\<open>Crucible_Context_Correct\<close> shows that the live
  tensors survive the switch.  \<^verbatim>\<open>Transaction_Log\<close> is the ring of publications and its refinement of a stack.
  \<^verbatim>\<open>Vigil\<close> composes the context, the cache, the rings and the log into the dispatch of one operation, with
  alignment, divergence recovery, publication, rollback and load; \<^verbatim>\<open>Vigil_Correct\<close> has the invariants of its steps,
  \<^verbatim>\<open>Vigil_Dispatch\<close> the reachable states, what the answer of a dispatch means, a dropped operation of a full ring included, and that a replaying dispatch returns,
  and \<^verbatim>\<open>Vigil_Alignment\<close> that an alignment enters a region in step, and a program for which it never does.

  \<^bold>\<open>Channels\<close> (\<^verbatim>\<open>crucible/TraceRing.h\<close>, \<^verbatim>\<open>crucible/MetaLog.h\<close>).  \<^verbatim>\<open>Spsc_Queue\<close> is the interface of a bounded
  single-producer single-consumer queue, a locale; \<^verbatim>\<open>Trace_Ring\<close> and \<^verbatim>\<open>Meta_Log\<close> interpret it.
  \<^verbatim>\<open>Trace_Ring_Threads\<close> splits the operations into their individual loads and stores, with a failed counter check as a
  fault that ends the process, and treats every interleaving: the two threads hand over every entry once and untorn, no
  counter check fails before $2^{64} - 1$ appends, and both calls are wait-free.

  \<^bold>\<open>Distributed layer\<close> (\<^verbatim>\<open>crucible/canopy\<close>).  \<^verbatim>\<open>Hybrid_Clock\<close> and \<^verbatim>\<open>Vector_Clock\<close> are the clocks.  \<^verbatim>\<open>Crdt_Replicas\<close>
  states convergence once, in locales over the laws of a merge; \<^verbatim>\<open>Crdt_Counters\<close>, \<^verbatim>\<open>Crdt_Hash_Set\<close>,
  \<^verbatim>\<open>Crdt_Tagged\<close>, \<^verbatim>\<open>Crdt_Rga\<close>, \<^verbatim>\<open>Crdt_Mv_Register\<close> model the data types and \<^verbatim>\<open>Crdt_Converge\<close> interprets the locales on
  them.  \<^verbatim>\<open>Swim_Membership\<close> is the failure detector; its liveness is shown for periods of direct probes and their
  answers or timeouts, without gossip and indirect probes.

  \<^bold>\<open>Expressions\<close> (\<^verbatim>\<open>crucible/ExprPool.h\<close>, \<^verbatim>\<open>crucible/Expr.h\<close>, \<^verbatim>\<open>crucible/SwissTable.h\<close>).  \<^verbatim>\<open>Sym_Expr\<close> has nodes, flags and
  values; \<^verbatim>\<open>Expr_Pool\<close> and \<^verbatim>\<open>Expr_Division\<close> the canonicalizing constructors; \<^verbatim>\<open>Expr_Pool_Correct\<close>, \<^verbatim>\<open>Expr_Sums\<close>,
  \<^verbatim>\<open>Expr_Logic\<close>, \<^verbatim>\<open>Expr_Division_Correct\<close>, \<^verbatim>\<open>Expr_Floor_Div\<close> and \<^verbatim>\<open>Expr_Indexing\<close> that they keep the value, within a bound on
  the weight of an expression that excludes 64-bit overflow; \<^verbatim>\<open>Expr_Properties\<close> states it.  \<^verbatim>\<open>Swiss_Group\<close> has the
  control groups of the five instruction sets, the portable one on a little-endian host, each an interpretation of the locale \<^verbatim>\<open>probe_group\<close>;
  \<^verbatim>\<open>Intern_Table\<close> the intern table, \<^verbatim>\<open>Intern_Probe\<close> the triangular probe, \<^verbatim>\<open>Intern_Table_Correct\<close> the refinement of a
  list of distinct nodes, and \<^verbatim>\<open>Expr_Interning\<close> that pointers and trees correspond, which is what lets the
  constructors be modelled on trees.

  \<^bold>\<open>Random numbers\<close> (\<^verbatim>\<open>crucible/Philox.h\<close>, \<^verbatim>\<open>crucible/PhiloxSimd.h\<close>) are in \<^verbatim>\<open>Philox_Rng\<close>.

  This theory holds what spans components: the planner, the pool and the replay engine together.

  \<^bold>\<open>Bounds.\<close>  No fuel is chosen by hand.  Recursions over data are structural or have a measure; the probes
  of the intern table return because the load factor leaves a free lane in every table, and the divisions
  return within the weight bound.  Sizes bounded by the code (slots, capacities, counts) are hypotheses with
  the code's own constants.

  \<^bold>\<open>Not modelled.\<close>  Thread start-up and channel draining around the planner, the file-backed store, the
  network transport, the deadline watchdog, the sweep of the region store, the probes and the hardening policies are input and output or system calls.  The fixy
  and foundation headers are compile-time types; the run-time checks they perform are modelled where they
  are called.  The floating-point conversions of the random numbers, generated bindings and tables, and the
  code-generation interfaces have no model.
\<close>

section \<open>From the planner to the replayed pointers\<close>

text \<open>The pool accepts every slot that the planner placed, so its initialisation can only fail on the
  allocations.\<close>

lemma planned_slots_served:
  assumes "compute_memory_plan cap rank world slots = ok plan" "aligned_total slots < 2 ^ 64"
  shows "list_all (\<lambda>s. can_serve_slot s (pool_bytes plan)) (mp_slots plan)"
proof -
  note frame = compute_memory_plan_sound(1) [OF assms]
  have "can_serve_slot (mp_slots plan ! i) (pool_bytes plan)" if i: "i < length slots" for i
  proof (cases "is_external (slots ! i)")
    case True
    then show ?thesis
      using frame_fields [OF frame i] by (simp add: can_serve_slot_def)
  next
    case False
    then show ?thesis
      using plan_slot_placed [OF assms, of i] frame_fields [OF frame i] i
      by (intro can_serve_slotI) (simp_all add: internal_def)
  qed
  then show ?thesis
    using frame_length [OF frame] by (simp add: list_all_length)
qed

lemma planned_pool_init:
  assumes "compute_memory_plan cap rank world slots = ok plan" "aligned_total slots < 2 ^ 64"
    and "length slots \<le> kMaxNumSlots" "pool_bytes plan \<le> kMaxPoolBytes" "slots \<noteq> []"
    and "init_buffer aligned_alloc (pool_bytes plan) reg = ok (base, reg')"
  shows "\<exists>p. pool_init aligned_alloc True plan (empty_pool, reg) = ok (p, reg') \<and> pool_base p = base"
proof -
  note counts = plan_counts [OF assms(1)]
  have "length (mp_slots plan) = num_slots plan"
    using frame_length [OF compute_memory_plan_sound(1) [OF assms(1,2)]] counts by simp
  then show ?thesis
    using planned_slots_served [OF assms(1,2)] assms(3-6) counts
    by (simp add: pool_init_def empty_pool_def fill_table_iff)
qed

text \<open>Tensors that are live at the same operation do not share a byte.\<close>

lemma planned_offsets_disjoint:
  assumes "compute_memory_plan cap rank world slots = ok plan" "aligned_total slots < 2 ^ 64"
    and "a \<in> live_at slots t" "b \<in> live_at slots t" "a \<noteq> b"
  shows "nbytes (slots ! a) = 0 \<or> nbytes (slots ! b) = 0
    \<or> unat (offset_bytes (mp_slots plan ! a)) + unat (nbytes (slots ! a)) \<le> unat (offset_bytes (mp_slots plan ! b))
    \<or> unat (offset_bytes (mp_slots plan ! b)) + unat (nbytes (slots ! b)) \<le> unat (offset_bytes (mp_slots plan ! a))"
proof -
  note sound = compute_memory_plan_sound [OF assms(1,2)]
  have "nbytes (mp_slots plan ! a) = nbytes (slots ! a)" "nbytes (mp_slots plan ! b) = nbytes (slots ! b)"
    using frame_fields(1) [OF sound(1)] assms(3,4) by (auto simp: live_at_def internal_def)
  then show ?thesis
    using covers_disjoint [OF placed_well_disjoint [OF sound(3) finite_live_at assms(3-5), simplified, unfolded slot_block_def]
        aligned_size_ge aligned_size_ge]
    by (auto simp: unat_eq_zero)
qed

text \<open>After the guards of an iteration were fed, the pointers of the last matched operation are those
  the pool holds for its slots.\<close>

lemma fed_engine_pointers:
  assumes "engine_init (Some r) p e0 = ok e1" "pool_wf p" "rg_ops r \<noteq> []"
    and "feed gs e1 = ok (st, e)" "0 < common_len gs (op_guards (rg_ops r))"
    and "op = rg_ops r ! (common_len gs (op_guards (rg_ops r)) - 1)"
  shows "te_output_slot_ids op = Some ids \<Longrightarrow> j < te_num_outputs op \<Longrightarrow> id_is_valid (ids ! j)
      \<Longrightarrow> unat (ids ! j) < pa_num_slots p \<Longrightarrow> output_ptr j p e = slot_ptr (ids ! j) p"
    and "te_input_slot_ids op = Some ids \<Longrightarrow> j < te_num_inputs op \<Longrightarrow> id_is_valid (ids ! j)
      \<Longrightarrow> unat (ids ! j) < pa_num_slots p \<Longrightarrow> input_ptr j p e = slot_ptr (ids ! j) p"
proof -
  let ?k = "common_len gs (op_guards (rg_ops r))"
  have init: "engine_inv (rg_ops r) e1" "re_cursor e1 = 0"
    using engine_init_inv [OF assms(1)] by auto
  have e: "engine_inv (rg_ops r) e" "re_current e = Some (?k - 1)"
    using feed_common [OF init(1) _ refl, of gs] init(2) assms(3,4,5) by auto
  have "engine_op e (?k - 1) = op"
    using e(1) assms(6) by (simp add: engine_op_def engine_inv_def)
  moreover obtain table where "ptr_table p = Some table"
    using assms(1) by (auto simp: engine_init_def is_initialized_def split: if_splits)
  ultimately show "te_output_slot_ids op = Some ids \<Longrightarrow> j < te_num_outputs op \<Longrightarrow> id_is_valid (ids ! j)
      \<Longrightarrow> unat (ids ! j) < pa_num_slots p \<Longrightarrow> output_ptr j p e = slot_ptr (ids ! j) p"
    "te_input_slot_ids op = Some ids \<Longrightarrow> j < te_num_inputs op \<Longrightarrow> id_is_valid (ids ! j)
      \<Longrightarrow> unat (ids ! j) < pa_num_slots p \<Longrightarrow> input_ptr j p e = slot_ptr (ids ! j) p"
    using output_ptr_reads_table [OF assms(2) _ _ e(2)] input_ptr_reads_table [OF assms(2) _ _ e(2)] by simp_all
qed

lemma slot_id_of_nat:
  assumes "n \<le> kMaxNumSlots" "s < n"
  shows "unat (word_of_nat s :: u32) = s" "id_is_valid (word_of_nat s :: u32)"
proof -
  show s: "unat (word_of_nat s :: u32) = s"
    using assms by (intro unat_of_nat_exact) (simp add: kMaxNumSlots_def)
  show "id_is_valid (word_of_nat s :: u32)"
    using assms s by (auto simp: id_is_valid_def id_none_def kMaxNumSlots_def unat_max_word)
qed

text \<open>C3.  The planner, the pool and the replay engine compose.  For a plan whose sizes are within the
  pool's bounds, from slots whose aligned sizes add up to less than $2^{64}$, initialisation succeeds as soon as the block and the table can be allocated, an engine
  over any region starts on that pool, and once an operation has matched, the pointers it gets for an
  output and an input that hold different non-empty tensors live at the same time are multiples of 256 inside the
  block that was allocated, and the two tensors do not share a byte.\<close>

theorem planned_replay_safe:
  assumes plan: "compute_memory_plan cap rank world slots = ok plan" "aligned_total slots < 2 ^ 64"
    and bounds: "length slots \<le> kMaxNumSlots" "pool_bytes plan \<le> kMaxPoolBytes"
    and alloc: "aligned_alloc_ok aligned_alloc" "init_buffer aligned_alloc (pool_bytes plan) reg = ok (base, reg')"
    and live: "a \<in> live_at slots t" "b \<in> live_at slots t" "a \<noteq> b" "0 < nbytes (slots ! a)" "0 < nbytes (slots ! b)"
    and op: "0 < common_len gs (op_guards (rg_ops r))" "op = rg_ops r ! (common_len gs (op_guards (rg_ops r)) - 1)"
    and out: "te_output_slot_ids op = Some outs" "i < te_num_outputs op" "outs ! i = word_of_nat a"
    and inp: "te_input_slot_ids op = Some ins" "j < te_num_inputs op" "ins ! j = word_of_nat b"
  shows "\<exists>p e1 st e x y. pool_init aligned_alloc True plan (empty_pool, reg) = ok (p, reg')
    \<and> engine_init (Some r) p fresh_engine = ok e1 \<and> feed gs e1 = ok (st, e)
    \<and> output_ptr i p e = ok x \<and> input_ptr j p e = ok y \<and> 256 dvd unat x \<and> 256 dvd unat y
    \<and> {unat x..<unat x + unat (nbytes (slots ! a))} \<subseteq> {unat base..<unat base + unat (alloc_size (pool_bytes plan))}
    \<and> {unat y..<unat y + unat (nbytes (slots ! b))} \<subseteq> {unat base..<unat base + unat (alloc_size (pool_bytes plan))}
    \<and> {unat x..<unat x + unat (nbytes (slots ! a))} \<inter> {unat y..<unat y + unat (nbytes (slots ! b))} = {}"
proof -
  have ab: "internal slots a" "internal slots b"
    using live by (simp_all add: live_at_def)
  have ne: "slots \<noteq> []" and len: "a < length slots" "b < length slots"
    using ab by (auto simp: internal_def)
  note frame = compute_memory_plan_sound(1) [OF plan] and counts = plan_counts [OF plan(1)]
  have same: "nbytes (mp_slots plan ! s) = nbytes (slots ! s)" "\<not> is_external (mp_slots plan ! s)" if "internal slots s" for s
    using frame_fields [OF frame, of s] that by (simp_all add: internal_def)
  have bytes: "0 < pool_bytes plan"
    using plan_slot_placed [OF plan ab(1)] live(4) by (simp add: word_less_nat_alt)
  obtain p where p: "pool_init aligned_alloc True plan (empty_pool, reg) = ok (p, reg')" "pool_base p = base"
    using planned_pool_init [OF plan bounds ne alloc(2)] by blast
  have mplen: "length (mp_slots plan) = num_slots plan"
    using frame_length [OF frame] counts by simp
  note ptr = slot_ptr_in_block [OF alloc(1) p(1) mplen _ _ bytes]
  obtain x where x: "slot_ptr (word_of_nat a) p = ok x" "unat x = unat base + unat (offset_bytes (mp_slots plan ! a))"
      "256 dvd unat x" "unat x + unat (nbytes (slots ! a)) \<le> unat base + unat (alloc_size (pool_bytes plan))"
    using ptr [of a] same [OF ab(1)] len counts p(2) by auto
  obtain y where y: "slot_ptr (word_of_nat b) p = ok y" "unat y = unat base + unat (offset_bytes (mp_slots plan ! b))"
      "256 dvd unat y" "unat y + unat (nbytes (slots ! b)) \<le> unat base + unat (alloc_size (pool_bytes plan))"
    using ptr [of b] same [OF ab(2)] len counts p(2) by auto
  have wf: "pool_wf p" "is_initialized p" "pa_num_slots p = length slots"
    using pool_init_ok [OF p(1)] init_buffer_ok(1) [OF alloc(2) bytes] p(2) mplen ne counts
    by (auto simp: pool_wf_def is_initialized_def)
  obtain e1 where e1: "engine_init (Some r) p fresh_engine = ok e1"
    using wf(2) by (simp add: engine_init_def Let_def)
  have ops: "rg_ops r \<noteq> []"
    using op(1) by (cases gs) (auto simp: op_guards_def)
  obtain st e where e: "feed gs e1 = ok (st, e)"
    using feed_common [of "rg_ops r" e1 _ gs] engine_init_inv [OF e1] ops by auto
  have "output_ptr i p e = ok x" "input_ptr j p e = ok y"
    using fed_engine_pointers [OF e1 wf(1) ops e op] out inp slot_id_of_nat [OF bounds(1)] len wf(3) x(1) y(1) by simp_all
  moreover have "{unat x..<unat x + unat (nbytes (slots ! a))} \<inter> {unat y..<unat y + unat (nbytes (slots ! b))} = {}"
    using planned_offsets_disjoint [OF plan live(1-3)] live(4,5) x(2) y(2) by auto
  ultimately show ?thesis
    using p(1) e1 e x(2-4) y(2-4) by (intro exI [of _ p] exI [of _ e1] exI [of _ st] exI [of _ e] exI [of _ x] exI [of _ y]) auto
qed

text \<open>A concrete run: the three sample tensors, an operation that reads the second and writes the third.\<close>

definition sample_op :: trace_entry where
  "sample_op = (guard_op 1 10)\<lparr>te_num_inputs := 1, te_input_slot_ids := Some [word_of_nat 1],
     te_num_outputs := 1, te_output_slot_ids := Some [word_of_nat 2]\<rparr>"

lemma sample_init_buffer:
  assumes "unat n \<le> 4096"
  shows "\<exists>base reg'. init_buffer sample_alloc n [empty_slot] = ok (base, reg')"
proof -
  have "unat (add_sat n 255) = unat n + 255"
    using assms by (simp add: unat_add_sat)
  then have "unat (alloc_size n) \<le> 4351"
    using assms unat_and_not_mask [of "add_sat n 255" 8]
    by (simp add: alloc_size_def page_align_def kHugePageBytes_def ALIGNMENT_def word_le_nat_alt mask_eq_exp_minus_1)
  then show ?thesis
    by (auto simp: init_buffer_def sample_alloc_def Let_def register_region_def empty_slot_def word_le_nat_alt)
qed

theorem planned_replay_safe_witness:
  "\<exists>plan p e1 st e x y. compute_memory_plan 0 (- 1) 0 sample_slots = ok plan
     \<and> engine_init (Some (fresh_region\<lparr>rg_ops := [sample_op]\<rparr>)) p fresh_engine = ok e1
     \<and> feed [(1, 10)] e1 = ok (st, e) \<and> output_ptr 0 p e = ok x \<and> input_ptr 0 p e = ok y
     \<and> {unat x..<unat x + 600} \<inter> {unat y..<unat y + 300} = {}"
proof -
  obtain plan where plan: "compute_memory_plan 0 (- 1) 0 sample_slots = ok plan"
    using sample_plan by blast
  have small: "unat (pool_bytes plan) \<le> 4096"
    using compute_memory_plan_sound(2) [OF plan sample_total] sample_total_small by simp
  then obtain base reg' where buf: "init_buffer sample_alloc (pool_bytes plan) [empty_slot] = ok (base, reg')"
    using sample_init_buffer by blast
  have max: "pool_bytes plan \<le> kMaxPoolBytes" "length sample_slots \<le> kMaxNumSlots"
    using small by (simp_all add: word_le_nat_alt kMaxPoolBytes_def kMaxNumSlots_def sample_slots_def)
  have live: "2 \<in> live_at sample_slots 1" "1 \<in> live_at sample_slots 1"
    by (simp_all add: live_at_def internal_def sample_slots_def)
  let ?r = "fresh_region\<lparr>rg_ops := [sample_op]\<rparr>"
  have op: "0 < common_len [(1, 10)] (op_guards (rg_ops ?r))"
      "sample_op = rg_ops ?r ! (common_len [(1, 10)] (op_guards (rg_ops ?r)) - 1)"
    by (simp_all add: op_guards_def sample_op_def guard_op_def)
  have slots: "te_output_slot_ids sample_op = Some [word_of_nat 2]" "te_input_slot_ids sample_op = Some [word_of_nat 1]"
      "0 < te_num_outputs sample_op" "0 < te_num_inputs sample_op"
    by (simp_all add: sample_op_def)
  have sizes: "nbytes (sample_slots ! 2) = 600" "nbytes (sample_slots ! 1) = 300"
    by (simp_all add: sample_slots_def)
  have pos: "0 < nbytes (sample_slots ! 2)" "0 < nbytes (sample_slots ! 1)" and "2 \<noteq> (1 :: nat)"
    unfolding sizes by simp_all
  from planned_replay_safe [OF plan sample_total max(2,1) sample_alloc_ok buf live this(3) pos op
      slots(1,3) nth_Cons_0 slots(2,4) nth_Cons_0]
  obtain p e1 st e x y where "engine_init (Some ?r) p fresh_engine = ok e1" "feed [(1, 10)] e1 = ok (st, e)"
      "output_ptr 0 p e = ok x" "input_ptr 0 p e = ok y"
      "{unat x..<unat x + unat (600 :: u64)} \<inter> {unat y..<unat y + unat (300 :: u64)} = {}"
    unfolding sizes by blast
  moreover have "unat (600 :: u64) = 600" "unat (300 :: u64) = 300"
    by simp_all
  ultimately show ?thesis
    using plan by metis
qed

end
